(* ===== verification/LN_Prelude.thy ===== *)
theory LN_Prelude
  imports Main "HOL-Library.AList" "HOL-Library.Char_ord" "HOL-Library.List_Lexorder"
    "HOL-Library.Monad_Syntax" "HOL-Library.Word"
begin

text \<open>
  Shared vocabulary of the development: the rendering of the Rust standard library that every
  crate of law-nexus uses. A panic (\<open>expect\<close> on an \<open>Err\<close>, overflow of a checked \<open>u64\<close> addition)
  is the value \<open>None\<close> of an option; a \<open>Result\<close> is a sum with \<open>Inl\<close> for \<open>Err\<close>; a
  \<open>HashMap<K, V>\<close> is an association list with distinct keys; a \<open>str\<close> is its list of UTF-8
  bytes (the type \<open>string\<close>), so \<open>length\<close> is Rust's \<open>len()\<close> and the lexicographic order of
  \<open>List_Lexorder\<close> over \<open>Char_ord\<close> is Rust's \<open>str\<close> order.
\<close>

named_theorems hm_simps \<open>rewrite rules for hash maps\<close>
named_theorems id_rules \<open>facts about validated identifiers\<close>
named_theorems panic_free \<open>operations that do not panic\<close>

section \<open>Panics\<close>

text \<open>\<open>Result::expect\<close>: the value, or a panic.\<close>

definition expect :: "'e + 'a \<Rightarrow> 'a option" where
  "expect r = (case r of Inl _ \<Rightarrow> None | Inr x \<Rightarrow> Some x)"

lemma expect_simps [simp]: "expect (Inl e) = None" "expect (Inr x) = Some x"
  by (simp_all add: expect_def)

lemma expect_eq_Some [simp]: "expect r = Some x \<longleftrightarrow> r = Inr x"
  by (cases r) simp_all

text \<open>\<open>Option::ok_or\<close> and \<open>Result::map_err\<close>.\<close>

definition ok_or :: "'a option \<Rightarrow> 'e \<Rightarrow> 'e + 'a" where
  "ok_or x e = (case x of None \<Rightarrow> Inl e | Some v \<Rightarrow> Inr v)"

definition map_err :: "('e \<Rightarrow> 'f) \<Rightarrow> 'e + 'a \<Rightarrow> 'f + 'a" where
  "map_err f r = (case r of Inl e \<Rightarrow> Inl (f e) | Inr x \<Rightarrow> Inr x)"

lemma ok_or_eq_Inr: "ok_or x e = Inr v \<longleftrightarrow> x = Some v"
  by (cases x) (simp_all add: ok_or_def)

lemma map_err_simps [simp]:
  "map_err f (Inl e) = Inl (f e)" "map_err f (Inr x) = Inr x"
  by (simp_all add: map_err_def)

lemma map_err_eq_Inr [simp]: "map_err f r = Inr x \<longleftrightarrow> r = Inr x"
  by (cases r) simp_all

text \<open>
  \<open>n += 1\<close> on a \<open>u64\<close> in a build with overflow checks (the dev and test profiles of the workspace):
  a panic at the maximum.
\<close>

definition u64_limit :: nat where
  "u64_limit = 18446744073709551616"

definition u64_succ :: "nat \<Rightarrow> nat option" where
  "u64_succ n = (if int n + 1 < 18446744073709551616 then Some (n + 1) else None)"

lemma u64_succ_eq_Some: "u64_succ n = Some m \<longleftrightarrow> m = Suc n \<and> Suc n < u64_limit"
  by (auto simp: u64_succ_def u64_limit_def)

section \<open>Hash maps\<close>

type_synonym ('k, 'v) hashmap = "('k \<times> 'v) list"

definition hm_get :: "('k, 'v) hashmap \<Rightarrow> 'k \<Rightarrow> 'v option" where
  "hm_get m k = map_of m k"

definition hm_insert :: "'k \<Rightarrow> 'v \<Rightarrow> ('k, 'v) hashmap \<Rightarrow> ('k, 'v) hashmap" where
  "hm_insert k v m = AList.update k v m"

definition hm_remove :: "'k \<Rightarrow> ('k, 'v) hashmap \<Rightarrow> ('k, 'v) hashmap" where
  "hm_remove k m = AList.delete k m"

definition hm_contains :: "('k, 'v) hashmap \<Rightarrow> 'k \<Rightarrow> bool" where
  "hm_contains m k = (hm_get m k \<noteq> None)"

definition hm_len :: "('k, 'v) hashmap \<Rightarrow> nat" where
  "hm_len m = length m"

definition hm_keys :: "('k, 'v) hashmap \<Rightarrow> 'k list" where
  "hm_keys m = map fst m"

definition hm_wf :: "('k, 'v) hashmap \<Rightarrow> bool" where
  "hm_wf m = distinct (map fst m)"

lemma hm_get_Nil [hm_simps, simp]: "hm_get [] k = None"
  by (simp add: hm_get_def)

lemma hm_get_insert [hm_simps, simp]:
  "hm_get (hm_insert k v m) k' = (if k' = k then Some v else hm_get m k')"
  by (simp add: hm_get_def hm_insert_def update_conv')

lemma hm_get_remove [hm_simps, simp]:
  "hm_get (hm_remove k m) k' = (if k' = k then None else hm_get m k')"
  by (simp add: hm_get_def hm_remove_def delete_conv')

lemma hm_contains_insert [hm_simps, simp]:
  "hm_contains (hm_insert k v m) k' = (k' = k \<or> hm_contains m k')"
  by (simp add: hm_contains_def)

lemma hm_contains_Nil [hm_simps, simp]: "\<not> hm_contains [] k"
  by (simp add: hm_contains_def)

lemma hm_contains_remove [hm_simps, simp]:
  "hm_contains (hm_remove k m) k' = (k' \<noteq> k \<and> hm_contains m k')"
  by (simp add: hm_contains_def)

lemma hm_contains_iff: "hm_contains m k \<longleftrightarrow> (\<exists>v. hm_get m k = Some v)"
  by (auto simp: hm_contains_def)

lemma hm_contains_keys: "hm_contains m k \<longleftrightarrow> k \<in> set (hm_keys m)"
  by (simp add: hm_contains_def hm_get_def hm_keys_def map_of_eq_None_iff image_image)

lemma hm_wf_Nil [hm_simps, simp]: "hm_wf []"
  by (simp add: hm_wf_def)

lemma hm_wf_insert [hm_simps, simp]: "hm_wf m \<Longrightarrow> hm_wf (hm_insert k v m)"
  by (simp add: hm_wf_def hm_insert_def distinct_update)

lemma hm_wf_remove [hm_simps, simp]: "hm_wf m \<Longrightarrow> hm_wf (hm_remove k m)"
  by (simp add: hm_wf_def hm_remove_def distinct_delete)

lemma hm_len_insert [hm_simps]:
  "hm_len (hm_insert k v m) = (if hm_contains m k then hm_len m else Suc (hm_len m))"
  by (induction m) (auto simp: hm_len_def hm_insert_def hm_contains_def hm_get_def split: if_splits)

lemma hm_len_Nil [hm_simps, simp]: "hm_len [] = 0"
  by (simp add: hm_len_def)

text \<open>The number of entries is the number of keys, as in a Rust map.\<close>

lemma hm_len_card: "hm_wf m \<Longrightarrow> hm_len m = card {k. hm_contains m k}"
  using distinct_card [of "hm_keys m"]
  by (simp add: hm_wf_def hm_len_def hm_contains_keys hm_keys_def)

lemma hm_get_keys: "hm_get m k = Some v \<Longrightarrow> k \<in> set (hm_keys m)"
  by (auto simp: hm_get_def hm_keys_def dest: map_of_SomeD intro: rev_image_eqI)

section \<open>Decimal and hexadecimal rendering\<close>

definition digit_char :: "nat \<Rightarrow> char" where
  "digit_char d = char_of (48 + d)"

definition hex_char :: "nat \<Rightarrow> char" where
  "hex_char d = char_of (if d < 10 then 48 + d else 87 + d)"

text \<open>\<open>format!("{n}")\<close> of an unsigned integer.\<close>

fun show_nat :: "nat \<Rightarrow> string" where
  "show_nat n = (if n < 10 then [digit_char n] else show_nat (n div 10) @ [digit_char (n mod 10)])"

declare show_nat.simps [simp del]

fun nat_of_digits :: "nat \<Rightarrow> string \<Rightarrow> nat" where
  "nat_of_digits acc [] = acc"
| "nat_of_digits acc (c # cs) = nat_of_digits (10 * acc + (of_char c - 48)) cs"

lemma of_char_digit: "d < 10 \<Longrightarrow> of_char (digit_char d) = (48 + d :: nat)"
  by (simp add: digit_char_def of_char_of)

lemma nat_of_digits_append:
  "nat_of_digits acc (xs @ ys) = nat_of_digits (nat_of_digits acc xs) ys"
  by (induction acc xs rule: nat_of_digits.induct) simp_all

text \<open>Reading the rendering back gives the number, so the rendering is injective.\<close>

lemma nat_of_digits_show: "nat_of_digits 0 (show_nat n) = n"
proof (induction n rule: show_nat.induct)
  case (1 n)
  show ?case
  proof (cases "n < 10")
    case True
    then show ?thesis by (subst show_nat.simps) (simp add: of_char_digit)
  next
    case False
    with 1 have "nat_of_digits 0 (show_nat (n div 10)) = n div 10" by simp
    with False show ?thesis
      by (subst show_nat.simps) (simp add: nat_of_digits_append of_char_digit)
  qed
qed

lemma show_nat_inj [simp]: "show_nat a = show_nat b \<longleftrightarrow> a = b"
  by (metis nat_of_digits_show)

lemma show_nat_nonempty [simp]: "show_nat n \<noteq> []"
  by (subst show_nat.simps) simp

lemma show_nat_digits: "c \<in> set (show_nat n) \<Longrightarrow> \<exists>d<10. c = digit_char d"
proof (induction n rule: show_nat.induct)
  case (1 n)
  show ?case
  proof (cases "n < 10")
    case True
    with 1 show ?thesis by (subst (asm) (2) show_nat.simps) auto
  next
    case False
    with "1.prems" consider "c \<in> set (show_nat (n div 10))" | "c = digit_char (n mod 10)"
      by (subst (asm) show_nat.simps) auto
    then show ?thesis
    proof cases
      case 1
      then show ?thesis by (rule "1.IH" [OF False])
    next
      case 2
      then show ?thesis by (intro exI [of _ "n mod 10"]) simp
    qed
  qed
qed

lemma length_show_nat: "n < 10 ^ Suc k \<Longrightarrow> length (show_nat n) \<le> Suc k"
proof (induction k arbitrary: n)
  case 0
  then show ?case by (subst show_nat.simps) simp
next
  case (Suc k)
  show ?case
  proof (cases "n < 10")
    case True
    then show ?thesis by (subst show_nat.simps) simp
  next
    case False
    from Suc.prems have "n div 10 < 10 ^ Suc k" by (simp add: div_less_iff_less_mult mult.commute)
    then have "length (show_nat (n div 10)) \<le> Suc k" by (rule Suc.IH)
    with False show ?thesis by (subst show_nat.simps) simp
  qed
qed

lemma length_show_u64: "n < u64_limit \<Longrightarrow> length (show_nat n) \<le> 20"
  using length_show_nat [of n 19] by (simp add: u64_limit_def)

text \<open>\<open>format!("{hash:016x}")\<close>: sixteen lower-case hexadecimal digits.\<close>

definition show_hex16 :: "64 word \<Rightarrow> string" where
  "show_hex16 w = map (\<lambda>i. hex_char (nat (uint w div 16 ^ (15 - i) mod 16))) [0..<16]"

lemma length_show_hex16 [simp]: "length (show_hex16 w) = 16"
  by (simp add: show_hex16_def)

lemma nibble_unat: "nat (uint w div 16 ^ k mod 16) = unat w div 16 ^ k mod 16"
proof -
  have "uint w div 16 ^ k mod 16 = int (unat w div 16 ^ k mod 16)"
    by (simp add: zdiv_int zmod_int)
  then show ?thesis by (simp only: nat_int)
qed

lemma show_hex16_unat:
  "show_hex16 w = map (\<lambda>i. hex_char (unat w div 16 ^ (15 - i) mod 16)) [0..<16]"
  by (simp only: show_hex16_def nibble_unat)

lemma show_hex16_digits: "c \<in> set (show_hex16 w) \<Longrightarrow> \<exists>d<16. c = hex_char d"
  by (auto simp: show_hex16_unat) (metis mod_less_divisor zero_less_numeral)

section \<open>Strings\<close>

text \<open>\<open>str::strip_prefix\<close>.\<close>

definition strip_prefix :: "string \<Rightarrow> string \<Rightarrow> string option" where
  "strip_prefix p s = (if take (length p) s = p then Some (drop (length p) s) else None)"

lemma strip_prefix_append [simp]: "strip_prefix p (p @ s) = Some s"
  by (simp add: strip_prefix_def)

lemma strip_prefix_eq_Some: "strip_prefix p s = Some r \<longleftrightarrow> s = p @ r"
  by (auto simp: strip_prefix_def) (metis append_take_drop_id)

text \<open>\<open>str::split_once\<close> on one character.\<close>

definition split_once :: "char \<Rightarrow> string \<Rightarrow> (string \<times> string) option" where
  "split_once c s = (if c \<in> set s
     then Some (takeWhile (\<lambda>x. x \<noteq> c) s, tl (dropWhile (\<lambda>x. x \<noteq> c) s)) else None)"

lemma split_once_append [simp]: "c \<notin> set p \<Longrightarrow> split_once c (p @ c # s) = Some (p, s)"
  by (auto simp: split_once_def takeWhile_append dropWhile_append)

lemma split_once_eq_Some: "split_once c s = Some (a, b) \<longleftrightarrow> s = a @ c # b \<and> c \<notin> set a"
proof
  assume eq: "split_once c s = Some (a, b)"
  then have "c \<in> set s" by (simp add: split_once_def split: if_splits)
  then obtain p q where "s = p @ c # q" "c \<notin> set p" by (metis split_list_first)
  with eq show "s = a @ c # b \<and> c \<notin> set a" by simp
qed auto

text \<open>
  \<open>str::trim\<close>: the UTF-8 encodings of the characters with the Unicode property White_Space.
\<close>

definition white_space :: "string list" where
  "white_space =
     [[CHR 0x09], [CHR 0x0A], [CHR 0x0B], [CHR 0x0C], [CHR 0x0D], [CHR 0x20],
      [CHR 0xC2, CHR 0x85], [CHR 0xC2, CHR 0xA0], [CHR 0xE1, CHR 0x9A, CHR 0x80],
      [CHR 0xE2, CHR 0x80, CHR 0x80], [CHR 0xE2, CHR 0x80, CHR 0x81],
      [CHR 0xE2, CHR 0x80, CHR 0x82], [CHR 0xE2, CHR 0x80, CHR 0x83],
      [CHR 0xE2, CHR 0x80, CHR 0x84], [CHR 0xE2, CHR 0x80, CHR 0x85],
      [CHR 0xE2, CHR 0x80, CHR 0x86], [CHR 0xE2, CHR 0x80, CHR 0x87],
      [CHR 0xE2, CHR 0x80, CHR 0x88], [CHR 0xE2, CHR 0x80, CHR 0x89],
      [CHR 0xE2, CHR 0x80, CHR 0x8A], [CHR 0xE2, CHR 0x80, CHR 0xA8],
      [CHR 0xE2, CHR 0x80, CHR 0xA9], [CHR 0xE2, CHR 0x80, CHR 0xAF],
      [CHR 0xE2, CHR 0x81, CHR 0x9F], [CHR 0xE3, CHR 0x80, CHR 0x80]]"

lemma white_space_nonempty: "w \<in> set white_space \<Longrightarrow> w \<noteq> []"
  by (auto simp: white_space_def)

definition starts_with :: "string \<Rightarrow> string \<Rightarrow> bool" where
  "starts_with p s = (take (length p) s = p)"

definition ends_with :: "string \<Rightarrow> string \<Rightarrow> bool" where
  "ends_with p s = (length p \<le> length s \<and> drop (length s - length p) s = p)"

lemma find_Some_in: "find P xs = Some x \<Longrightarrow> x \<in> set xs \<and> P x"
  by (auto simp: find_Some_iff)

function trim_start :: "string \<Rightarrow> string" where
  "trim_start s = (case find (\<lambda>w. starts_with w s) white_space of
     None \<Rightarrow> s | Some w \<Rightarrow> trim_start (drop (length w) s))"
  by pat_completeness auto
termination
proof (relation "measure length")
  fix s w assume "find (\<lambda>w. starts_with w s) white_space = Some w"
  then have "w \<noteq> []" "starts_with w s" by (auto dest: find_Some_in white_space_nonempty)
  then have "s \<noteq> []" "w \<noteq> []" by (auto simp: starts_with_def)
  then show "(drop (length w) s, s) \<in> measure length" by simp
qed simp

function trim_end :: "string \<Rightarrow> string" where
  "trim_end s = (case find (\<lambda>w. ends_with w s) white_space of
     None \<Rightarrow> s | Some w \<Rightarrow> trim_end (take (length s - length w) s))"
  by pat_completeness auto
termination
proof (relation "measure length")
  fix s w assume "find (\<lambda>w. ends_with w s) white_space = Some w"
  then have "w \<noteq> []" "ends_with w s" by (auto dest: find_Some_in white_space_nonempty)
  then have "length w \<le> length s" "0 < length w" by (auto simp: ends_with_def)
  then show "(take (length s - length w) s, s) \<in> measure length" by (simp del: length_greater_0_conv)
qed simp

declare trim_start.simps [simp del] trim_end.simps [simp del]

definition str_trim :: "string \<Rightarrow> string" where
  "str_trim s = trim_end (trim_start s)"

text \<open>\<open>str::lines\<close>: split after each newline, drop the newline and a carriage return before it.\<close>

definition strip_cr :: "string \<Rightarrow> string" where
  "strip_cr s = (if s \<noteq> [] \<and> last s = CHR 0x0D then butlast s else s)"

fun str_lines_aux :: "string \<Rightarrow> string \<Rightarrow> string list" where
  "str_lines_aux acc [] = (if acc = [] then [] else [acc])"
| "str_lines_aux acc (c # cs) =
     (if c = CHR 0x0A then strip_cr acc # str_lines_aux [] cs else str_lines_aux (acc @ [c]) cs)"

definition str_lines :: "string \<Rightarrow> string list" where
  "str_lines text = str_lines_aux [] text"

text \<open>The loop cuts off one line at a time, and a text that ends its last line can be extended.\<close>

lemma str_lines_aux_line:
  "CHR 0x0A \<notin> set l \<Longrightarrow> str_lines_aux acc (l @ CHR 0x0A # s) = strip_cr (acc @ l) # str_lines s"
  by (induction l arbitrary: acc) (auto simp: str_lines_def)

lemma str_lines_aux_append:
  "str_lines_aux acc (s @ CHR 0x0A # t) = str_lines_aux acc (s @ [CHR 0x0A]) @ str_lines t"
  by (induction s arbitrary: acc) (auto simp: str_lines_def)

lemma str_lines_append_line:
  assumes "s = [] \<or> last s = CHR 0x0A" "CHR 0x0A \<notin> set l" "l = [] \<or> last l \<noteq> CHR 0x0D"
  shows "str_lines (s @ l @ [CHR 0x0A]) = str_lines s @ [l]"
proof (cases "s = []")
  case True
  with assms str_lines_aux_line [of l "[]" "[]"] show ?thesis
    by (auto simp: str_lines_def strip_cr_def)
next
  case False
  with assms(1) obtain p where s: "s = p @ [CHR 0x0A]" by (metis append_butlast_last_id)
  have "str_lines (s @ l @ [CHR 0x0A]) = str_lines s @ str_lines (l @ [CHR 0x0A])"
    unfolding s using str_lines_aux_append [of "[]" p "l @ [CHR 0x0A]"] by (simp add: str_lines_def)
  also have "str_lines (l @ [CHR 0x0A]) = [l]"
    using assms(2,3) str_lines_aux_line [of l "[]" "[]"] by (auto simp: str_lines_def strip_cr_def)
  finally show ?thesis .
qed

lemma str_lines_no_newline: "CHR 0x0A \<notin> set l \<Longrightarrow> l \<noteq> [] \<Longrightarrow> str_lines l = [l]"
proof -
  have "CHR 0x0A \<notin> set l \<Longrightarrow> str_lines_aux acc l = (if acc @ l = [] then [] else [acc @ l])" for acc
    by (induction l arbitrary: acc) auto
  then show "CHR 0x0A \<notin> set l \<Longrightarrow> l \<noteq> [] \<Longrightarrow> str_lines l = [l]" by (simp add: str_lines_def)
qed

text \<open>Well-formed UTF-8, the check that a \<open>String\<close> read from a file has passed.\<close>

definition byte_in :: "nat \<Rightarrow> nat \<Rightarrow> char \<Rightarrow> bool" where
  "byte_in lo hi c = (lo \<le> of_char c \<and> of_char c \<le> hi)"

definition cont :: "char \<Rightarrow> bool" where
  "cont c = byte_in 0x80 0xBF c"

fun utf8_ok :: "string \<Rightarrow> bool" where
  "utf8_ok [] = True"
| "utf8_ok (a # s) =
     (if byte_in 0 0x7F a then utf8_ok s
      else case s of
        [] \<Rightarrow> False
      | b # s2 \<Rightarrow>
          if byte_in 0xC2 0xDF a then cont b \<and> utf8_ok s2
          else case s2 of
            [] \<Rightarrow> False
          | c # s3 \<Rightarrow>
              if byte_in 0xE0 0xEF a
              then cont b \<and> (of_char a = (0xE0::nat) \<longrightarrow> byte_in 0xA0 0xBF b) \<and>
                   (of_char a = (0xED::nat) \<longrightarrow> byte_in 0x80 0x9F b) \<and> cont c \<and> utf8_ok s3
              else case s3 of
                [] \<Rightarrow> False
              | d # s4 \<Rightarrow>
                  byte_in 0xF0 0xF4 a \<and> cont b \<and> (of_char a = (0xF0::nat) \<longrightarrow> byte_in 0x90 0xBF b) \<and>
                  (of_char a = (0xF4::nat) \<longrightarrow> byte_in 0x80 0x8F b) \<and> cont c \<and> cont d \<and> utf8_ok s4)"

lemma utf8_ok_ascii: "list_all (byte_in 0 0x7F) s \<Longrightarrow> utf8_ok s"
  by (induction s) auto

section \<open>Sequences\<close>

text \<open>\<open>slice::windows(2)\<close>, the adjacent pairs of a list.\<close>

fun windows2 :: "'a list \<Rightarrow> ('a \<times> 'a) list" where
  "windows2 (x # y # xs) = (x, y) # windows2 (y # xs)"
| "windows2 _ = []"

text \<open>On a sorted list, no two adjacent elements are equal exactly when all are distinct.\<close>

lemma sorted_windows2_distinct:
  "sorted xs \<Longrightarrow> (\<exists>p \<in> set (windows2 xs). fst p = snd p) \<longleftrightarrow> \<not> distinct (xs :: 'a :: linorder list)"
proof (induction xs rule: windows2.induct)
  case (1 x y xs)
  then have IH: "(\<exists>p \<in> set (windows2 (y # xs)). fst p = snd p) \<longleftrightarrow> \<not> distinct (y # xs)" by simp
  show ?case
  proof (cases "x = y")
    case False
    with 1 have "x < y" by (simp add: order_less_le)
    with 1 have "x \<notin> set (y # xs)" by auto
    with IH False show ?thesis by auto
  qed simp
qed auto

lemma remdups_adj_sorted_distinct: "sorted xs \<Longrightarrow> distinct (remdups_adj (xs :: 'a :: linorder list))"
  by (induction xs rule: remdups_adj.induct) auto

lemma sorted_remdups_adj: "sorted xs \<Longrightarrow> sorted (remdups_adj (xs :: 'a :: linorder list))"
  by (induction xs rule: remdups_adj.induct) auto

lemma sorted_wrt_snoc:
  "sorted_wrt P (xs @ [x]) \<longleftrightarrow> sorted_wrt P xs \<and> (\<forall>y \<in> set xs. P y x)"
  by (simp add: sorted_wrt_append)

text \<open>
  The idiom \<open>if !xs.contains(&x) { xs.push(x) }\<close> over a sequence: the list gets each new element
  once, in order of first occurrence.
\<close>

definition push_unknown :: "'a list \<Rightarrow> 'a list \<Rightarrow> 'a list" where
  "push_unknown targets new = foldl (\<lambda>ts t. if t \<in> set ts then ts else ts @ [t]) targets new"

lemma push_unknown_simps [simp]:
  "push_unknown ts [] = ts"
  "push_unknown ts (x # xs) = push_unknown (if x \<in> set ts then ts else ts @ [x]) xs"
  by (simp_all add: push_unknown_def)

lemma set_push_unknown [simp]: "set (push_unknown ts xs) = set ts \<union> set xs"
  by (induction xs arbitrary: ts) auto

lemma distinct_push_unknown: "distinct ts \<Longrightarrow> distinct (push_unknown ts xs)"
  by (induction xs arbitrary: ts) auto

lemma length_push_unknown: "distinct ts \<Longrightarrow> length (push_unknown ts xs) = card (set ts \<union> set xs)"
  using distinct_card [OF distinct_push_unknown, of ts xs] by simp

end
