(* ===== verification/LN_Ids.thy ===== *)
theory LN_Ids
  imports LN_Prelude
begin

text \<open>
  Validated identifiers and diagnostic digests. Every capability crate declares its identifier
  types with a macro \<open>id_type!\<close> over one function \<open>parse_id\<close> (the same text in each crate;
  \<open>crates/ln-observe/src/domain.rs\<close> is the first): a non-empty string of at most \<open>max_len\<close> bytes
  over \<open>[A-Za-z0-9-_:.]\<close>. The new-type wrapper is erased: an identifier is the string it holds,
  and \<open>valid_id\<close> is what the private constructor guarantees of it. The FNV-1a digest is the 64-bit
  loop that the crates repeat, on \<open>64 word\<close> with wrapping multiplication.
\<close>

unbundle bit_operations_syntax

section \<open>parse\_id\<close>

record id_error =
  ie_kind :: string
  ie_reason :: string

definition is_ascii_alphanumeric :: "char \<Rightarrow> bool" where
  "is_ascii_alphanumeric c =
     ((CHR ''0'' \<le> c \<and> c \<le> CHR ''9'') \<or> (CHR ''A'' \<le> c \<and> c \<le> CHR ''Z'') \<or> (CHR ''a'' \<le> c \<and> c \<le> CHR ''z''))"

definition id_char :: "char \<Rightarrow> bool" where
  "id_char c = (is_ascii_alphanumeric c \<or> c \<in> set ''-_:.'')"

definition parse_id :: "string \<Rightarrow> string \<Rightarrow> nat \<Rightarrow> id_error + string" where
  "parse_id kind value max_len =
     (if value = [] then Inl \<lparr>ie_kind = kind, ie_reason = ''empty''\<rparr>
      else if length value > max_len then Inl \<lparr>ie_kind = kind, ie_reason = ''too long''\<rparr>
      else if \<not> list_all id_char value
        then Inl \<lparr>ie_kind = kind, ie_reason = ''unsupported character''\<rparr>
      else Inr value)"

text \<open>The limit that the crates pass: \<open>const MAX_ID_LEN: usize = 64\<close>.\<close>

definition MAX_ID_LEN :: nat where
  "MAX_ID_LEN = 64"

definition valid_id :: "nat \<Rightarrow> string \<Rightarrow> bool" where
  "valid_id max_len s = (s \<noteq> [] \<and> length s \<le> max_len \<and> list_all id_char s)"

lemma parse_id_eq_Inr: "parse_id kind v n = Inr x \<longleftrightarrow> x = v \<and> valid_id n v"
  by (auto simp: parse_id_def valid_id_def)

lemma parse_id_valid [id_rules]: "valid_id n v \<Longrightarrow> parse_id kind v n = Inr v"
  by (simp add: parse_id_eq_Inr)

lemma parse_id_Inl_iff: "(\<exists>e. parse_id kind v n = Inl e) \<longleftrightarrow> \<not> valid_id n v"
  by (auto simp: parse_id_def valid_id_def)

lemma valid_id_mono: "valid_id n v \<Longrightarrow> n \<le> m \<Longrightarrow> valid_id m v"
  by (auto simp: valid_id_def)

lemma id_char_not [simp]:
  "\<not> id_char (CHR ''|'')" "\<not> id_char (CHR 0x22)" "\<not> id_char (CHR 0x0A)" "\<not> id_char (CHR 0x0D)"
  "\<not> id_char (CHR '' '')" "\<not> id_char (CHR ''/'')"
  by (simp_all add: id_char_def is_ascii_alphanumeric_def less_eq_char_def)

lemma id_char_colon [simp]: "id_char (CHR '':'')"
  by (simp add: id_char_def)

lemma valid_id_notin: "valid_id n v \<Longrightarrow> \<not> id_char c \<Longrightarrow> c \<notin> set v"
  by (auto simp: valid_id_def list_all_iff)

lemma digit_char_id: "d < 10 \<Longrightarrow> id_char (digit_char d)"
  by (simp add: id_char_def is_ascii_alphanumeric_def less_eq_char_def digit_char_def of_char_of)

lemma hex_char_id: "d < 16 \<Longrightarrow> id_char (hex_char d)"
  by (auto simp: id_char_def is_ascii_alphanumeric_def less_eq_char_def hex_char_def of_char_of)

lemma show_nat_id [id_rules]: "list_all id_char (show_nat n)"
  by (auto simp: list_all_iff dest!: show_nat_digits intro: digit_char_id)

lemma show_hex16_id [id_rules]: "list_all id_char (show_hex16 w)"
  by (auto simp: list_all_iff dest!: show_hex16_digits intro: hex_char_id)

text \<open>A generated name, a fixed prefix and a decimal counter, is a valid identifier.\<close>

lemma valid_id_counter [id_rules]:
  "n < u64_limit \<Longrightarrow> list_all id_char p \<Longrightarrow> length p + 20 \<le> m \<Longrightarrow> valid_id m (p @ show_nat n)"
  using length_show_u64 [of n] show_nat_id [of n] by (simp add: valid_id_def)

section \<open>Composite keys\<close>

text \<open>
  Keys built with \<open>format!("{}|{}")\<close>: the separator is outside the identifier alphabet, so the
  composition is injective on identifiers.
\<close>

definition bar :: "string \<Rightarrow> string \<Rightarrow> string" where
  "bar a b = a @ CHR ''|'' # b"

lemma sep_append_inject:
  assumes "c \<notin> set a" "c \<notin> set a'"
  shows "a @ c # s = a' @ c # s' \<longleftrightarrow> a = a' \<and> s = s'"
proof
  assume eq: "a @ c # s = a' @ c # s'"
  have "takeWhile (\<lambda>x. x \<noteq> c) (a @ c # s) = a" "takeWhile (\<lambda>x. x \<noteq> c) (a' @ c # s') = a'"
    using assms by (auto simp: takeWhile_append)
  with eq have "a = a'" by metis
  with eq show "a = a' \<and> s = s'" by simp
qed simp

lemma bar_inject [id_rules]:
  "valid_id n a \<Longrightarrow> valid_id m a' \<Longrightarrow> bar a b = bar a' b' \<longleftrightarrow> a = a' \<and> b = b'"
  by (simp add: bar_def sep_append_inject valid_id_notin)

section \<open>FNV-1a\<close>

definition fnv_offset :: "64 word" where
  "fnv_offset = 0xcbf29ce484222325"

definition fnv_step :: "64 word \<Rightarrow> char \<Rightarrow> 64 word" where
  "fnv_step hash byte = (hash XOR word_of_int (of_char byte)) * 0x100000001b3"

definition fnv1a :: "string \<Rightarrow> 64 word" where
  "fnv1a bytes = foldl fnv_step fnv_offset bytes"

definition fnv_label :: "64 word \<Rightarrow> string" where
  "fnv_label hash = ''fnv1a64:'' @ show_hex16 hash"

definition digest_bytes :: "string \<Rightarrow> string" where
  "digest_bytes bytes = fnv_label (fnv1a bytes)"

lemma length_fnv_label [simp]: "length (fnv_label h) = 24"
  by (simp add: fnv_label_def)

lemma fnv_label_id [id_rules]: "list_all id_char (fnv_label h)"
  using show_hex16_id [of h]
  by (simp add: fnv_label_def id_char_def is_ascii_alphanumeric_def less_eq_char_def)

lemma valid_fnv_label [id_rules]: "24 \<le> n \<Longrightarrow> valid_id n (fnv_label h)"
  using fnv_label_id [of h] length_fnv_label [of h] by (auto simp: valid_id_def fnv_label_def)

text \<open>
  One step of the hash is a bijection of the accumulator for a fixed byte (the multiplier is odd),
  so two messages that differ in their first byte only have different digests.
\<close>

lemma fnv_mult_inverse: "(0x100000001b3 :: 64 word) * 0xce965057aff6957b = 1"
  by simp

lemma fnv_cancel: "(x :: 64 word) * 0x100000001b3 = y * 0x100000001b3 \<longleftrightarrow> x = y"
proof
  assume "x * 0x100000001b3 = y * 0x100000001b3"
  then have "x * 0x100000001b3 * 0xce965057aff6957b = y * 0x100000001b3 * 0xce965057aff6957b"
    by (simp only:)
  then show "x = y" by (simp only: mult.assoc fnv_mult_inverse mult_1_right)
qed simp

lemma xor_right_cancel: "(a :: 64 word) XOR c = b XOR c \<longleftrightarrow> a = b"
proof
  assume "a XOR c = b XOR c"
  then have "(a XOR c) XOR c = (b XOR c) XOR c" by (simp only:)
  then show "a = b" by (simp add: xor.assoc)
qed simp

lemma fnv_step_inj_acc: "fnv_step g b = fnv_step h b \<longleftrightarrow> g = h"
  by (simp add: fnv_step_def fnv_cancel xor_right_cancel)

lemma fnv_fold_inj_acc: "foldl fnv_step g bs = foldl fnv_step h bs \<longleftrightarrow> g = h"
  by (induction bs arbitrary: g h) (simp_all add: fnv_step_inj_acc)

lemma fnv_step_inj_byte: "fnv_step h a = fnv_step h b \<longleftrightarrow> a = b"
proof
  assume "fnv_step h a = fnv_step h b"
  then have "(word_of_int (of_char a) :: 64 word) = word_of_int (of_char b)"
    by (simp add: fnv_step_def fnv_cancel xor.commute [of h] xor_right_cancel)
  moreover have "uint (word_of_int (of_char c) :: 64 word) = of_char c" for c
  proof -
    have eq: "(of_char c :: int) = int (of_char c)" by (rule of_nat_of_char [symmetric])
    have "0 \<le> (of_char c :: int)" unfolding eq by (rule of_nat_0_le_iff)
    moreover have "(of_char c :: int) < 2 ^ LENGTH(64)"
    proof -
      have "int (of_char c) < int 256" using nat_of_char_less_256 [of c] by (simp only: of_nat_less_iff)
      moreover have "int 256 < 2 ^ LENGTH(64)" by simp
      ultimately show ?thesis unfolding eq by (rule less_trans)
    qed
    ultimately show ?thesis by (rule word_of_int_inverse [OF refl])
  qed
  ultimately have "(of_char a :: int) = of_char b" by metis
  then show "a = b" by simp
qed simp

lemma fnv1a_one_byte: "a \<noteq> b \<Longrightarrow> fnv1a (p @ a # s) \<noteq> fnv1a (p @ b # s)"
  by (simp add: fnv1a_def fnv_fold_inj_acc fnv_step_inj_byte)

lemma hex_digits_determine:
  fixes a b :: nat
  assumes "\<And>i. i < k \<Longrightarrow> a div 16 ^ i mod 16 = b div 16 ^ i mod 16"
  shows "a mod 16 ^ k = b mod 16 ^ k"
  using assms
proof (induction k)
  case (Suc k)
  then have "a mod 16 ^ k = b mod 16 ^ k" "a div 16 ^ k mod 16 = b div 16 ^ k mod 16" by auto
  then show ?case by (simp add: mod_mult2_eq [of _ "16 ^ k" 16, simplified mult.commute])
qed simp

lemma hex_char_inj: "a < 16 \<Longrightarrow> b < 16 \<Longrightarrow> hex_char a = hex_char b \<longleftrightarrow> a = b"
proof
  assume lt: "a < 16" "b < 16" and "hex_char a = hex_char b"
  then have "(of_char (hex_char a) :: nat) = of_char (hex_char b)" by simp
  with lt show "a = b" by (auto simp: hex_char_def of_char_of split: if_splits)
qed simp

lemma show_hex16_inj [simp]: "show_hex16 v = show_hex16 w \<longleftrightarrow> v = w"
proof
  assume eq: "show_hex16 v = show_hex16 w"
  have nib: "unat v div 16 ^ i mod 16 = unat w div 16 ^ i mod 16" if "i < 16" for i
  proof -
    from eq have "\<forall>j<16. hex_char (unat v div 16 ^ (15 - j) mod 16) = hex_char (unat w div 16 ^ (15 - j) mod 16)"
      by (auto simp: show_hex16_unat)
    moreover have "15 - i < 16" "15 - (15 - i) = i" using that by auto
    ultimately have "hex_char (unat v div 16 ^ i mod 16) = hex_char (unat w div 16 ^ i mod 16)" by metis
    then show ?thesis by (simp add: hex_char_inj)
  qed
  have "unat v mod 16 ^ 16 = unat w mod 16 ^ 16" by (rule hex_digits_determine) (rule nib)
  moreover have "unat x < 16 ^ 16" for x :: "64 word" using unsigned_less [of x, where 'a = nat] by simp
  ultimately show "v = w" by (metis mod_less word_unat_eq_iff)
qed simp

lemma fnv_label_inj [simp]: "fnv_label v = fnv_label w \<longleftrightarrow> v = w"
  by (simp add: fnv_label_def)

end
