(* ===== verification/LN_Clocks.thy ===== *)
theory LN_Clocks
  imports LN_Ids
begin

text \<open>
  The five-clock safety contract of \<open>crates/ln-temporal\<close> (HC-09, D118): the closed clock
  vocabulary of \<open>domain.rs\<close>, the application service \<open>ResolveFiveClockState::resolve\<close> of
  \<open>application.rs\<close> over the trait \<open>ClockEvidencePort\<close>, and its two adapters. Also the closed
  design inventories of \<open>domain.rs\<close> (temporal capabilities, legislative event kinds, normative
  dimensions) with their classification functions.
\<close>

section \<open>Vocabulary\<close>

type_synonym anchor_id = string

datatype clock_kind =
  FactualEvent | Proceeding | LegalActEffect | SourcePublication | SystemObservation

fun clock_as_str :: "clock_kind \<Rightarrow> string" where
  "clock_as_str FactualEvent = ''factual_event''"
| "clock_as_str Proceeding = ''proceeding''"
| "clock_as_str LegalActEffect = ''legal_act_effect''"
| "clock_as_str SourcePublication = ''source_publication''"
| "clock_as_str SystemObservation = ''system_observation''"

definition clock_all :: "clock_kind list" where
  "clock_all = [FactualEvent, Proceeding, LegalActEffect, SourcePublication, SystemObservation]"

datatype substitute_kind = OtherClock clock_kind | WallClock | EditionOrder | LifecycleType

fun substitute_as_str :: "substitute_kind \<Rightarrow> string" where
  "substitute_as_str (OtherClock clock) = ''other_clock:'' @ clock_as_str clock"
| "substitute_as_str WallClock = ''wall_clock''"
| "substitute_as_str EditionOrder = ''edition_order''"
| "substitute_as_str LifecycleType = ''lifecycle_type''"

datatype resolution_outcome =
  Resolved | MissingAnchor | SubstituteRejected | ResolutionUnknown | ResolutionConflict

fun resolution_as_str :: "resolution_outcome \<Rightarrow> string" where
  "resolution_as_str Resolved = ''resolved''"
| "resolution_as_str MissingAnchor = ''missing-anchor''"
| "resolution_as_str SubstituteRejected = ''substitute-rejected''"
| "resolution_as_str ResolutionUnknown = ''unknown''"
| "resolution_as_str ResolutionConflict = ''conflict''"

definition is_fail_closed :: "resolution_outcome \<Rightarrow> bool" where
  "is_fail_closed r = (case r of Resolved \<Rightarrow> False | _ \<Rightarrow> True)"

record resolution_request =
  rr_request_id :: string
  rr_governing_clock :: clock_kind
  rr_attempted_substitutes :: "substitute_kind list"

record decision_trace =
  dt_policy_version :: string
  dt_governing_clock :: clock_kind
  dt_governing_anchor :: "anchor_id option"
  dt_considered_substitutes :: "string list"
  dt_rejected_substitutes :: "string list"

record resolution_result =
  rs_outcome :: resolution_outcome
  rs_governing_clock :: clock_kind
  rs_resolved_anchor :: "anchor_id option"
  rs_substitution_used :: bool
  rs_trace :: decision_trace

definition D118_POLICY_VERSION :: string where
  "D118_POLICY_VERSION = ''d118:v1''"

section \<open>The application service\<close>

text \<open>The evidence adapter is the function \<open>anchor_for\<close> of the trait at one adapter value.\<close>

definition is_governing_identity :: "substitute_kind \<Rightarrow> clock_kind \<Rightarrow> bool" where
  "is_governing_identity substitute governing =
     (case substitute of OtherClock clock \<Rightarrow> clock = governing | _ \<Rightarrow> False)"

definition resolve_five_clock ::
    "(clock_kind \<Rightarrow> anchor_id option) \<Rightarrow> resolution_request \<Rightarrow> resolution_result" where
  "resolve_five_clock anchor_for request =
     (let governing_anchor = anchor_for (rr_governing_clock request);
          considered = map substitute_as_str (rr_attempted_substitutes request)
      in case governing_anchor of
        Some anchor \<Rightarrow>
          \<lparr>rs_outcome = Resolved, rs_governing_clock = rr_governing_clock request,
           rs_resolved_anchor = Some anchor, rs_substitution_used = False,
           rs_trace = \<lparr>dt_policy_version = D118_POLICY_VERSION,
             dt_governing_clock = rr_governing_clock request, dt_governing_anchor = Some anchor,
             dt_considered_substitutes = considered, dt_rejected_substitutes = []\<rparr>\<rparr>
      | None \<Rightarrow>
          let rejected = map substitute_as_str
                (filter (\<lambda>s. \<not> is_governing_identity s (rr_governing_clock request))
                   (rr_attempted_substitutes request));
              outcome = (if rejected = [] then MissingAnchor else SubstituteRejected)
          in \<lparr>rs_outcome = outcome, rs_governing_clock = rr_governing_clock request,
              rs_resolved_anchor = None, rs_substitution_used = False,
              rs_trace = \<lparr>dt_policy_version = D118_POLICY_VERSION,
                dt_governing_clock = rr_governing_clock request, dt_governing_anchor = None,
                dt_considered_substitutes = considered, dt_rejected_substitutes = rejected\<rparr>\<rparr>)"

section \<open>Adapters\<close>

record in_memory_clock_evidence =
  ce_anchors :: "(clock_kind, anchor_id) hashmap"

definition clock_evidence_with_only :: "clock_kind \<Rightarrow> anchor_id \<Rightarrow> in_memory_clock_evidence" where
  "clock_evidence_with_only clock anchor = \<lparr>ce_anchors = hm_insert clock anchor []\<rparr>"

text \<open>\<open>with_all_except\<close>: the loop over \<open>ClockKind::all()\<close>, each anchor parsed with \<open>expect\<close>.\<close>

definition clock_anchor :: "clock_kind \<Rightarrow> string" where
  "clock_anchor clock = ''anchor:'' @ clock_as_str clock"

fun insert_anchors ::
    "clock_kind \<Rightarrow> clock_kind list \<Rightarrow> (clock_kind, anchor_id) hashmap \<Rightarrow> (clock_kind, anchor_id) hashmap option"
where
  "insert_anchors missing [] anchors = Some anchors"
| "insert_anchors missing (clock # clocks) anchors =
     (if clock \<noteq> missing
      then do {
        anchor \<leftarrow> expect (parse_id ''anchor id'' (clock_anchor clock) MAX_ID_LEN);
        insert_anchors missing clocks (hm_insert clock anchor anchors)
      }
      else insert_anchors missing clocks anchors)"

definition clock_evidence_with_all_except :: "clock_kind \<Rightarrow> in_memory_clock_evidence option" where
  "clock_evidence_with_all_except missing =
     map_option in_memory_clock_evidence.make (insert_anchors missing clock_all [])"

definition in_memory_anchor_for :: "in_memory_clock_evidence \<Rightarrow> clock_kind \<Rightarrow> anchor_id option" where
  "in_memory_anchor_for ev clock = hm_get (ce_anchors ev) clock"

text \<open>The hostile adapter delegates to an in-memory adapter without the governing anchor.\<close>

definition substituting_hostile_missing :: "clock_kind \<Rightarrow> in_memory_clock_evidence option" where
  "substituting_hostile_missing governing = clock_evidence_with_all_except governing"

definition hostile_anchor_for :: "in_memory_clock_evidence \<Rightarrow> clock_kind \<Rightarrow> anchor_id option" where
  "hostile_anchor_for inner clock = in_memory_anchor_for inner clock"

section \<open>Design inventories\<close>

datatype temporal_algebra_capability =
  IntervalOverlap | IntervalContainment | IntervalMerge | BitemporalCorrectionLedger
  | DerivedEffectiveWindowAsSourceTruth | LegalDateValidation | ApplicableLawSelection

fun capability_as_str :: "temporal_algebra_capability \<Rightarrow> string" where
  "capability_as_str IntervalOverlap = ''interval_overlap''"
| "capability_as_str IntervalContainment = ''interval_containment''"
| "capability_as_str IntervalMerge = ''interval_merge''"
| "capability_as_str BitemporalCorrectionLedger = ''bitemporal_correction_ledger''"
| "capability_as_str DerivedEffectiveWindowAsSourceTruth = ''derived_effective_window_as_source_truth''"
| "capability_as_str LegalDateValidation = ''legal_date_validation''"
| "capability_as_str ApplicableLawSelection = ''applicable_law_selection''"

datatype temporal_capability_class = FiveClockSafety | DeferredAlgebra

record temporal_capability_boundary =
  tb_capability :: temporal_algebra_capability
  tb_class :: temporal_capability_class
  tb_non_claims :: "string list"

definition F06_NON_CLAIMS :: "string list" where
  "F06_NON_CLAIMS =
     [''Five-clock model is a safety contract, not a complete temporal algebra'',
      ''Does not implement interval or bitemporal algebra'',
      ''Does not validate real legal dates or applicable-law selection'',
      ''Derived effective_from/to windows are projections, not source truth'',
      ''Lifecycle: five-clock safety [bounded]; algebra remains deferred/proposed'']"

definition classify_temporal_capability ::
    "temporal_algebra_capability \<Rightarrow> temporal_capability_boundary" where
  "classify_temporal_capability capability =
     \<lparr>tb_capability = capability, tb_class = DeferredAlgebra, tb_non_claims = F06_NON_CLAIMS\<rparr>"

datatype normative_dimension = ForceStatus | VersionRelation | Applicability | EpistemicOutcome

fun dimension_as_str :: "normative_dimension \<Rightarrow> string" where
  "dimension_as_str ForceStatus = ''force_status''"
| "dimension_as_str VersionRelation = ''version_relation''"
| "dimension_as_str Applicability = ''applicability''"
| "dimension_as_str EpistemicOutcome = ''epistemic_outcome''"

datatype normative_dimension_class = DesignOrthogonal | DimensionExecutableRuntime

record normative_dimension_boundary =
  nb_dimension :: normative_dimension
  nb_class :: normative_dimension_class
  nb_non_claims :: "string list"

definition F09_NON_CLAIMS :: "string list" where
  "F09_NON_CLAIMS =
     [''NormativeState must not mix force, version relation, applicability, and epistemic outcome'',
      ''Text/CTV presence does not imply InForce'',
      ''InForce does not imply Applicable'',
      ''Unknown/Conflict epistemic outcomes are not force or applicability decisions'',
      ''Design dimensional separation is not a NormativeState resolver or product legal correctness'',
      ''Lifecycle: NormativeState design [proposed]; executable dimensional resolvers remain deferred'']"

definition classify_normative_dimension :: "normative_dimension \<Rightarrow> normative_dimension_boundary" where
  "classify_normative_dimension dimension =
     \<lparr>nb_dimension = dimension, nb_class = DesignOrthogonal, nb_non_claims = F09_NON_CLAIMS\<rparr>"

definition reject_force_as_applicability :: normative_dimension_boundary where
  "reject_force_as_applicability =
     (classify_normative_dimension ForceStatus)\<lparr>nb_non_claims := F09_NON_CLAIMS @
       [''ForceStatus does not decide Applicability'',
        ''Hostile substitution of InForce for Applicable is rejected'']\<rparr>"

section \<open>Lemmas\<close>

lemma clock_as_str_inj: "clock_as_str a = clock_as_str b \<longleftrightarrow> a = b"
  by (cases a; cases b) simp_all

lemma substitute_as_str_inj: "substitute_as_str a = substitute_as_str b \<longleftrightarrow> a = b"
  by (cases a; cases b) (simp_all add: clock_as_str_inj)

lemma clock_all_complete: "set clock_all = UNIV"
proof -
  have "c \<in> set clock_all" for c by (cases c) (simp_all add: clock_all_def)
  then show ?thesis by auto
qed

lemma clock_anchor_valid [id_rules]: "valid_id MAX_ID_LEN (clock_anchor clock)"
  by (cases clock)
    (simp_all add: clock_anchor_def valid_id_def MAX_ID_LEN_def id_char_def is_ascii_alphanumeric_def less_eq_char_def)

lemma insert_anchors_total:
  "\<exists>out. insert_anchors missing clocks m = Some out \<and>
     (\<forall>c. hm_get out c = (if c \<in> set clocks \<and> c \<noteq> missing
        then Some (clock_anchor c) else hm_get m c))"
proof (induction clocks arbitrary: m)
  case (Cons clock clocks)
  show ?case
  proof (cases "clock = missing")
    case True
    with Cons.IH [of m] show ?thesis by auto
  next
    case False
    with Cons.IH [of "hm_insert clock (clock_anchor clock) m"] show ?thesis
      by (auto simp: parse_id_valid [OF clock_anchor_valid])
  qed
qed simp

text \<open>The adapter \<open>with_all_except\<close> never panics and anchors exactly the other clocks.\<close>

lemma with_all_except_anchor:
  "\<exists>ev. clock_evidence_with_all_except missing = Some ev \<and>
     (\<forall>c. in_memory_anchor_for ev c =
        (if c = missing then None else Some (clock_anchor c)))"
  using insert_anchors_total [of missing clock_all "[]"]
  by (auto simp: clock_evidence_with_all_except_def in_memory_anchor_for_def
    in_memory_clock_evidence.make_def clock_all_complete)

lemma resolve_outcome:
  "rs_outcome (resolve_five_clock anchor_for request) =
     (if anchor_for (rr_governing_clock request) \<noteq> None then Resolved
      else if \<exists>s \<in> set (rr_attempted_substitutes request). s \<noteq> OtherClock (rr_governing_clock request)
      then SubstituteRejected else MissingAnchor)"
proof -
  have gov: "is_governing_identity s c \<longleftrightarrow> s = OtherClock c" for s c
    by (cases s) (simp_all add: is_governing_identity_def)
  show ?thesis
    by (auto simp: resolve_five_clock_def Let_def gov filter_empty_conv split: option.splits)
qed

lemma resolve_anchor:
  "rs_resolved_anchor (resolve_five_clock anchor_for request) = anchor_for (rr_governing_clock request)"
  by (auto simp: resolve_five_clock_def Let_def split: option.splits)

lemma resolve_no_substitution:
  "\<not> rs_substitution_used (resolve_five_clock anchor_for request)"
  by (auto simp: resolve_five_clock_def Let_def split: option.splits)

lemma resolve_depends_on_governing:
  "f (rr_governing_clock request) = g (rr_governing_clock request) \<Longrightarrow>
     resolve_five_clock f request = resolve_five_clock g request"
  by (simp add: resolve_five_clock_def)

section \<open>Properties\<close>

text \<open>No clock is ever substituted for another: the resolution depends on the evidence adapter only
through the governing clock, succeeds exactly when that clock has an anchor and then returns that anchor,
never reports a substitution, and names as rejected exactly the attempted substitutes other than the governing
clock itself when it fails.\<close>

theorem five_clock_no_substitution:
  "(rs_outcome (resolve_five_clock anchor_for request) = Resolved \<longleftrightarrow>
      anchor_for (rr_governing_clock request) \<noteq> None) \<and>
   rs_resolved_anchor (resolve_five_clock anchor_for request) = anchor_for (rr_governing_clock request) \<and>
   \<not> rs_substitution_used (resolve_five_clock anchor_for request) \<and>
   dt_rejected_substitutes (rs_trace (resolve_five_clock anchor_for request)) =
     (if anchor_for (rr_governing_clock request) = None
      then map substitute_as_str
        (filter (\<lambda>s. s \<noteq> OtherClock (rr_governing_clock request)) (rr_attempted_substitutes request))
      else []) \<and>
   (\<forall>other. other (rr_governing_clock request) = anchor_for (rr_governing_clock request) \<longrightarrow>
      resolve_five_clock other request = resolve_five_clock anchor_for request)"
proof -
  have gov: "is_governing_identity s c \<longleftrightarrow> s = OtherClock c" for s c
    by (cases s) (simp_all add: is_governing_identity_def)
  have "dt_rejected_substitutes (rs_trace (resolve_five_clock anchor_for request)) =
     (if anchor_for (rr_governing_clock request) = None
      then map substitute_as_str
        (filter (\<lambda>s. s \<noteq> OtherClock (rr_governing_clock request)) (rr_attempted_substitutes request))
      else [])"
    by (auto simp: resolve_five_clock_def Let_def gov split: option.split)
  moreover have "rs_outcome (resolve_five_clock anchor_for request) = Resolved \<longleftrightarrow>
      anchor_for (rr_governing_clock request) \<noteq> None"
    by (simp add: resolve_outcome)
  ultimately show ?thesis
    using resolve_anchor resolve_no_substitution resolve_depends_on_governing by blast
qed

definition publication_request :: resolution_request where
  "publication_request = \<lparr>rr_request_id = ''r1'', rr_governing_clock = SourcePublication,
     rr_attempted_substitutes = [WallClock, OtherClock SourcePublication]\<rparr>"

theorem five_clock_no_substitution_witness:
  "resolve_five_clock (\<lambda>c. if c = LegalActEffect then Some ''anchor:1'' else None) publication_request =
   resolve_five_clock (\<lambda>_. None) publication_request"
  by (rule five_clock_no_substitution [THEN conjunct2, THEN conjunct2, THEN conjunct2, THEN conjunct2, rule_format])
    (simp add: publication_request_def)

text \<open>Against the hostile adapter, which anchors every clock but the governing one, resolution always
fails closed, whatever substitutes are offered, and building that adapter never panics.\<close>

theorem five_clock_hostile_fails_closed:
  "\<exists>ev. substituting_hostile_missing (rr_governing_clock request) = Some ev \<and>
     is_fail_closed (rs_outcome (resolve_five_clock (hostile_anchor_for ev) request)) \<and>
     rs_resolved_anchor (resolve_five_clock (hostile_anchor_for ev) request) = None"
proof -
  obtain ev where "clock_evidence_with_all_except (rr_governing_clock request) = Some ev"
    "in_memory_anchor_for ev (rr_governing_clock request) = None"
    using with_all_except_anchor [of "rr_governing_clock request"] by auto
  then show ?thesis
    by (simp add: substituting_hostile_missing_def hostile_anchor_for_def resolve_anchor resolve_outcome
        is_fail_closed_def)
qed

end
