(* ===== verification/LN_Force.thy ===== *)
theory LN_Force
  imports LN_Clocks
begin

text \<open>
  The force-status dimension of \<open>crates/ln-temporal/src/domain.rs\<close> (ADR-0018): component
  identifiers, the written statuses, the evidence-gated event, the append-only timeline and the
  fail-closed resolver \<open>resolve_force_status_at\<close>. Days are \<open>i64\<close> ordinals that the code only
  compares, so they are integers here. The abstract specification \<open>latest\<close>/\<open>readout_of\<close> (the set of
  outcomes on the latest day, read fail-closed) is shared with the three-canon log.
\<close>

section \<open>Component concept identifiers\<close>

type_synonym component_id = string
type_synonym amending_act_id = string

text \<open>\<open>str::split('/')\<close>: the segments between slashes, at least one.\<close>

fun split_on :: "char \<Rightarrow> string \<Rightarrow> string list" where
  "split_on c [] = [[]]"
| "split_on c (x # xs) =
     (if x = c then [] # split_on c xs
      else case split_on c xs of [] \<Rightarrow> [[x]] | seg # segs \<Rightarrow> (x # seg) # segs)"

definition component_char :: "char \<Rightarrow> bool" where
  "component_char c = (is_ascii_alphanumeric c \<or> c \<in> set ''-_:./'')"

definition parse_component_concept_id :: "string \<Rightarrow> id_error + component_id" where
  "parse_component_concept_id value =
     (if value = [] then Inl \<lparr>ie_kind = ''component concept id'', ie_reason = ''empty''\<rparr>
      else if length value > MAX_ID_LEN
        then Inl \<lparr>ie_kind = ''component concept id'', ie_reason = ''too long''\<rparr>
      else if \<not> list_all component_char value
        then Inl \<lparr>ie_kind = ''component concept id'', ie_reason = ''unsupported character''\<rparr>
      else if list_ex (\<lambda>seg. seg = []) (split_on (CHR ''/'') value)
        then Inl \<lparr>ie_kind = ''component concept id'', ie_reason = ''empty path segment''\<rparr>
      else Inr value)"

definition valid_component :: "string \<Rightarrow> bool" where
  "valid_component s = (s \<noteq> [] \<and> length s \<le> MAX_ID_LEN \<and> list_all component_char s \<and>
     [] \<notin> set (split_on (CHR ''/'') s))"

lemma parse_component_eq_Inr: "parse_component_concept_id v = Inr x \<longleftrightarrow> x = v \<and> valid_component v"
  by (auto simp: parse_component_concept_id_def valid_component_def list_ex_iff)

lemma parse_component_valid [id_rules]: "valid_component v \<Longrightarrow> parse_component_concept_id v = Inr v"
  by (simp add: parse_component_eq_Inr)

text \<open>The path grammar in words: no leading, trailing or doubled slash.\<close>

lemma split_on_nonempty [simp]: "split_on c s \<noteq> []"
  by (induction s) (auto split: list.splits)

lemma split_on_append: "split_on c (a @ c # b) = split_on c a @ split_on c b"
proof (induction a)
  case (Cons x a)
  obtain seg segs where "split_on c a = seg # segs" by (cases "split_on c a") auto
  with Cons show ?case by simp
qed simp

lemma split_on_notin: "c \<notin> set s \<Longrightarrow> split_on c s = [s]"
  by (induction s) auto

lemma valid_component_segments:
  "c \<notin> set a \<Longrightarrow> valid_component (a @ b) \<Longrightarrow> c = CHR ''/'' \<Longrightarrow> b = c # b' \<Longrightarrow>
     a \<noteq> [] \<and> b' \<noteq> [] \<and> hd b' \<noteq> c"
  by (cases b') (auto simp: valid_component_def split_on_append split_on_notin)

section \<open>Statuses and events\<close>

datatype normative_state =
  InForce | NotYetInForce | Suspended | Expired | Repealed | Invalidated | Unknown

fun state_as_str :: "normative_state \<Rightarrow> string" where
  "state_as_str InForce = ''in_force''"
| "state_as_str NotYetInForce = ''not_yet_in_force''"
| "state_as_str Suspended = ''suspended''"
| "state_as_str Expired = ''expired''"
| "state_as_str Repealed = ''repealed''"
| "state_as_str Invalidated = ''invalidated''"
| "state_as_str Unknown = ''unknown''"

definition is_transition_target :: "normative_state \<Rightarrow> bool" where
  "is_transition_target s = (s \<noteq> Unknown)"

datatype normative_state_error =
  NS_InvalidId id_error | NS_MissingProvenance | NS_UnknownNotTransition | NS_EmptyComponent

record force_status_event =
  fe_component :: component_id
  fe_status :: normative_state
  fe_effect_day :: int
  fe_provenance :: amending_act_id

definition force_event_try_new ::
    "component_id \<Rightarrow> normative_state \<Rightarrow> int \<Rightarrow> amending_act_id \<Rightarrow>
     normative_state_error + force_status_event" where
  "force_event_try_new component status effect_day provenance =
     (if \<not> is_transition_target status then Inl NS_UnknownNotTransition
      else if provenance = [] then Inl NS_MissingProvenance
      else if component = [] then Inl NS_EmptyComponent
      else Inr \<lparr>fe_component = component, fe_status = status, fe_effect_day = effect_day,
                fe_provenance = provenance\<rparr>)"

definition force_event_try_new_raw ::
    "string \<Rightarrow> normative_state \<Rightarrow> int \<Rightarrow> string \<Rightarrow> normative_state_error + force_status_event" where
  "force_event_try_new_raw component status effect_day provenance =
     (if provenance = [] then Inl NS_MissingProvenance
      else case parse_component_concept_id component of
        Inl e \<Rightarrow> Inl (NS_InvalidId e)
      | Inr component' \<Rightarrow>
          (case parse_id ''amending act id'' provenance MAX_ID_LEN of
             Inl e \<Rightarrow> Inl (NS_InvalidId e)
           | Inr provenance' \<Rightarrow> force_event_try_new component' status effect_day provenance'))"

record force_status_timeline =
  ft_events :: "force_status_event list"

definition timeline_empty :: force_status_timeline where
  "timeline_empty = \<lparr>ft_events = []\<rparr>"

definition timeline_append ::
    "force_status_timeline \<Rightarrow> force_status_event \<Rightarrow> normative_state_error + force_status_timeline" where
  "timeline_append tline ev =
     (if \<not> is_transition_target (fe_status ev) then Inl NS_UnknownNotTransition
      else Inr \<lparr>ft_events = ft_events tline @ [ev]\<rparr>)"

section \<open>The resolver\<close>

record force_status_resolution =
  fr_component :: component_id
  fr_as_of_day :: int
  fr_status :: normative_state
  fr_conflict :: bool
  fr_dimension :: normative_dimension
  fr_non_claims :: "string list"

definition FORCE_RESOLVER_NON_CLAIMS :: "string list" where
  "FORCE_RESOLVER_NON_CLAIMS =
     [''ForceStatus resolution is not CTV text presence or version join'',
      ''InForce does not imply Applicability'',
      ''Offline synthetic force timeline is not legal corpus status proof'',
      ''Unknown is fail-closed default when evidence is missing or conflicting'',
      ''Lifecycle [proposed]; not product readiness or legal validation'']"

text \<open>\<open>Iterator::max\<close>: nothing on an empty sequence.\<close>

fun iter_max :: "int list \<Rightarrow> int option" where
  "iter_max [] = None"
| "iter_max (x # xs) = Some (fold max xs x)"

definition force_resolution ::
    "component_id \<Rightarrow> int \<Rightarrow> normative_state \<Rightarrow> bool \<Rightarrow> force_status_resolution" where
  "force_resolution component as_of_day status conflict =
     \<lparr>fr_component = component, fr_as_of_day = as_of_day, fr_status = status,
      fr_conflict = conflict, fr_dimension = ForceStatus,
      fr_non_claims = F09_NON_CLAIMS @ FORCE_RESOLVER_NON_CLAIMS\<rparr>"

text \<open>
  The maximum of the applicable days is missing exactly when nothing is applicable, so the
  emptiness test and the \<open>expect("non-empty applicable")\<close> of the code are one case distinction.
\<close>

definition resolve_force_status_at ::
    "force_status_timeline \<Rightarrow> component_id \<Rightarrow> int \<Rightarrow> normative_state_error + force_status_resolution" where
  "resolve_force_status_at timeline component as_of_day =
     (if component = [] then Inl NS_EmptyComponent
      else
        let applicable = filter (\<lambda>e. fe_component e = component \<and> fe_effect_day e \<le> as_of_day)
              (ft_events timeline)
        in case iter_max (map fe_effect_day applicable) of
             None \<Rightarrow> Inr (force_resolution component as_of_day Unknown False)
           | Some max_day \<Rightarrow>
               let at_max = filter (\<lambda>e. fe_effect_day e = max_day) applicable;
                   statuses = remdups_adj (sort_key state_as_str (map fe_status at_max))
               in if length statuses > 1
                  then Inr (force_resolution component as_of_day Unknown True)
                  else Inr (force_resolution component as_of_day (statuses ! 0) False))"

section \<open>Specification: the outcomes of the latest day\<close>

text \<open>A force history is a list of dated outcomes; only the latest day counts.\<close>

definition latest :: "(int \<times> normative_state) list \<Rightarrow> normative_state set" where
  "latest ps = {s. \<exists>d. (d, s) \<in> set ps \<and> (\<forall>p \<in> set ps. fst p \<le> d)}"

text \<open>No outcome is unknown; one outcome is read; several are a conflict.\<close>

definition readout_of :: "normative_state set \<Rightarrow> normative_state \<times> bool" where
  "readout_of S = (if S = {} then (Unknown, False)
     else if is_singleton S then (the_elem S, False) else (Unknown, True))"

definition force_history :: "force_status_event list \<Rightarrow> component_id \<Rightarrow> int \<Rightarrow> (int \<times> normative_state) list" where
  "force_history events component t =
     map (\<lambda>e. (fe_effect_day e, fe_status e))
       (filter (\<lambda>e. fe_component e = component \<and> fe_effect_day e \<le> t) events)"

subsection \<open>Lemmas on the specification\<close>

lemma latest_Nil [simp]: "latest [] = {}"
  by (simp add: latest_def)

lemma latest_set_cong: "set ps = set qs \<Longrightarrow> latest ps = latest qs"
  by (simp add: latest_def)

lemma latest_nonempty: "ps \<noteq> [] \<Longrightarrow> latest ps \<noteq> {}"
proof -
  assume "ps \<noteq> []"
  then have "Max (fst ` set ps) \<in> fst ` set ps" by (intro Max_in) auto
  then obtain s where "(Max (fst ` set ps), s) \<in> set ps" by auto
  moreover have "\<forall>p \<in> set ps. fst p \<le> Max (fst ` set ps)" by simp
  ultimately have "s \<in> latest ps" unfolding latest_def by blast
  then show ?thesis by blast
qed

lemma latest_empty_iff [simp]: "latest ps = {} \<longleftrightarrow> ps = []"
  using latest_nonempty by fastforce

lemma latest_subset: "latest ps \<subseteq> snd ` set ps"
  by (force simp: latest_def)

lemma readout_status_in: "fst (readout_of S) \<noteq> Unknown \<Longrightarrow> S = {fst (readout_of S)} \<and> \<not> snd (readout_of S)"
  by (auto simp: readout_of_def is_singleton_the_elem split: if_splits)

lemma readout_of_insert: "readout_of {s} = (s, False)"
  by (simp add: readout_of_def)

lemma readout_unknown_empty:
  assumes "Unknown \<notin> S"
  shows "readout_of S = (Unknown, False) \<longleftrightarrow> S = {}"
proof (cases "is_singleton S")
  case True
  then obtain a where "S = {a}" by (rule is_singletonE)
  with assms show ?thesis by (auto simp: readout_of_def)
next
  case False
  then show ?thesis by (simp add: readout_of_def)
qed

lemma readout_conflict_iff: "snd (readout_of S) \<longleftrightarrow> (\<exists>a b. a \<in> S \<and> b \<in> S \<and> a \<noteq> b)"
  by (auto simp: readout_of_def is_singleton_def)

section \<open>The resolver meets the specification\<close>

lemma iter_max_None [simp]: "iter_max xs = None \<longleftrightarrow> xs = []"
  by (cases xs) simp_all

lemma fold_max_Max: "fold max xs x = Max (insert x (set xs))"
  using Max.set_eq_fold [of x xs] by simp

lemma iter_max_Some: "iter_max xs = Some m \<longleftrightarrow> xs \<noteq> [] \<and> m = Max (set xs)"
  by (cases xs) (auto simp: fold_max_Max)

lemma state_as_str_inj: "state_as_str a = state_as_str b \<longleftrightarrow> a = b"
  by (cases a; cases b) simp_all

lemma remdups_adj_sort_key_length:
  fixes f :: "'a \<Rightarrow> 'b :: linorder"
  assumes inj: "\<And>a b. f a = f b \<longleftrightarrow> a = b"
  shows "distinct (remdups_adj (sort_key f xs))"
proof -
  have "map f (remdups_adj (sort_key f xs)) = remdups_adj (map f (sort_key f xs))"
    by (rule remdups_adj_map_injective [symmetric]) (simp add: inj_def inj)
  moreover have "distinct (remdups_adj (map f (sort_key f xs)))"
    by (rule remdups_adj_sorted_distinct) simp
  ultimately have "distinct (map f (remdups_adj (sort_key f xs)))" by simp
  then show ?thesis by (rule distinct_map [THEN iffD1, THEN conjunct1])
qed

lemma distinct_length_readout:
  assumes "distinct xs" "xs \<noteq> []"
  shows "readout_of (set xs) = (if length xs > 1 then (Unknown, True) else (xs ! 0, False))"
proof (cases "length xs > 1")
  case True
  then obtain a b ys where "xs = a # b # ys" by (cases xs; cases "tl xs") auto
  with assms True show ?thesis by (auto simp: readout_of_def is_singleton_def)
next
  case False
  with assms obtain a where "xs = [a]" by (cases xs) (auto simp: Suc_le_eq)
  then show ?thesis by (simp add: readout_of_insert)
qed

lemma resolve_statuses_latest:
  fixes ps :: "(int \<times> normative_state) list"
  assumes "ps \<noteq> []"
  shows "set (map snd (filter (\<lambda>p. fst p = Max (fst ` set ps)) ps)) = latest ps"
proof -
  have top: "(\<forall>p \<in> set ps. fst p \<le> d) \<longleftrightarrow> d = Max (fst ` set ps)" if "(d, s) \<in> set ps" for d s
  proof
    from that have "d \<in> fst ` set ps" by (force simp: image_iff)
    moreover assume "\<forall>p \<in> set ps. fst p \<le> d"
    ultimately show "d = Max (fst ` set ps)" by (intro Max_eqI [symmetric]) auto
  next
    assume "d = Max (fst ` set ps)"
    then show "\<forall>p \<in> set ps. fst p \<le> d" by simp
  qed
  show ?thesis
  proof (intro set_eqI iffI)
    fix s assume "s \<in> set (map snd (filter (\<lambda>p. fst p = Max (fst ` set ps)) ps))"
    then obtain d where "(d, s) \<in> set ps" "d = Max (fst ` set ps)" by auto
    with top show "s \<in> latest ps" unfolding latest_def by blast
  next
    fix s assume "s \<in> latest ps"
    then obtain d where "(d, s) \<in> set ps" "\<forall>p \<in> set ps. fst p \<le> d" unfolding latest_def by blast
    with top have "(d, s) \<in> set (filter (\<lambda>p. fst p = Max (fst ` set ps)) ps)" by auto
    then show "s \<in> set (map snd (filter (\<lambda>p. fst p = Max (fst ` set ps)) ps))" by force
  qed
qed

lemma resolve_force_status_spec:
  assumes "component \<noteq> []"
  shows "resolve_force_status_at timeline component t =
     (let r = readout_of (latest (force_history (ft_events timeline) component t))
      in Inr (force_resolution component t (fst r) (snd r)))"
proof -
  define app where "app = filter (\<lambda>e. fe_component e = component \<and> fe_effect_day e \<le> t) (ft_events timeline)"
  define ps where "ps = force_history (ft_events timeline) component t"
  have ps: "ps = map (\<lambda>e. (fe_effect_day e, fe_status e)) app"
    by (simp add: ps_def app_def force_history_def)
  show ?thesis
  proof (cases "app = []")
    case True
    then show ?thesis
      using assms by (simp add: resolve_force_status_at_def readout_of_def ps_def [symmetric] ps
          app_def [symmetric] del: filter_empty_conv)
  next
    case False
    define m where "m = Max (set (map fe_effect_day app))"
    define sts where "sts = remdups_adj (sort_key state_as_str (map fe_status (filter (\<lambda>e. fe_effect_day e = m) app)))"
    have "fst ` set ps = set (map fe_effect_day app)" by (auto simp: ps image_image)
    then have "set (map snd (filter (\<lambda>p. fst p = m) ps)) = latest ps"
      using resolve_statuses_latest [of ps] False by (simp add: m_def ps)
    then have lat: "set sts = latest ps"
      by (simp add: sts_def ps filter_map comp_def image_image)
    moreover have "ps \<noteq> []" using False by (simp add: ps)
    ultimately have "sts \<noteq> []" using latest_nonempty [of ps] by (metis list.set(1))
    then have rd: "readout_of (latest ps) = (if length sts > 1 then (Unknown, True) else (sts ! 0, False))"
      using distinct_length_readout [of sts] lat
      by (simp add: sts_def remdups_adj_sort_key_length state_as_str_inj)
    have "iter_max (map fe_effect_day app) = Some m"
      using False by (simp add: iter_max_Some m_def)
    with rd assms show ?thesis
      by (simp add: resolve_force_status_at_def app_def [symmetric] sts_def [symmetric] ps_def [symmetric]
        Let_def)
  qed
qed

lemma resolve_force_empty: "resolve_force_status_at timeline [] t = Inl NS_EmptyComponent"
  by (simp add: resolve_force_status_at_def)

text \<open>The timeline: reachable by appends, it never holds \<open>Unknown\<close>.\<close>

definition timeline_wf :: "force_status_timeline \<Rightarrow> bool" where
  "timeline_wf tline = list_all (\<lambda>e. is_transition_target (fe_status e)) (ft_events tline)"

lemma timeline_append_wf: "timeline_wf tline \<Longrightarrow> timeline_append tline ev = Inr tline' \<Longrightarrow> timeline_wf tline'"
  by (auto simp: timeline_append_def timeline_wf_def split: if_splits)

lemma force_event_try_new_Inr:
  "force_event_try_new c s d p = Inr ev \<longleftrightarrow> is_transition_target s \<and> p \<noteq> [] \<and> c \<noteq> [] \<and>
     ev = \<lparr>fe_component = c, fe_status = s, fe_effect_day = d, fe_provenance = p\<rparr>"
  by (auto simp: force_event_try_new_def)

section \<open>Properties\<close>

text \<open>C36. The resolver reads a component's timeline as the specification does: only the component's own
events up to the day count, only the latest of their days decides, one outcome there is the status, none is
\<open>Unknown\<close> and two different ones are \<open>Unknown\<close> with a conflict. In particular the order
of the timeline does not matter.\<close>

theorem resolve_force_status_correct:
  "resolve_force_status_at timeline component t =
     (if component = [] then Inl NS_EmptyComponent
      else Inr (force_resolution component t
        (fst (readout_of (latest (force_history (ft_events timeline) component t))))
        (snd (readout_of (latest (force_history (ft_events timeline) component t))))))"
  using resolve_force_status_spec [of component timeline t] resolve_force_empty [of timeline t]
  by (simp add: Let_def)

text \<open>Two timelines with the same set of events resolve alike, and events of other components or later
days change nothing.\<close>

theorem resolve_force_status_irrelevant_events:
  assumes "\<forall>e. fe_component e = component \<and> fe_effect_day e \<le> t \<longrightarrow>
      (e \<in> set (ft_events tl1) \<longleftrightarrow> e \<in> set (ft_events tl2))"
  shows "resolve_force_status_at tl1 component t = resolve_force_status_at tl2 component t"
proof (cases "component = []")
  case False
  have "set (force_history (ft_events tl1) component t) = set (force_history (ft_events tl2) component t)"
    using assms by (auto simp: force_history_def)
  from latest_set_cong [OF this] resolve_force_status_spec [OF False] show ?thesis by simp
qed (simp add: resolve_force_empty)

definition force_event :: "component_id \<Rightarrow> normative_state \<Rightarrow> int \<Rightarrow> force_status_event" where
  "force_event c s d = \<lparr>fe_component = c, fe_status = s, fe_effect_day = d, fe_provenance = ''act:1''\<rparr>"

theorem resolve_force_status_irrelevant_events_witness:
  "resolve_force_status_at \<lparr>ft_events = [force_event ''a'' InForce 1, force_event ''b'' Repealed 2]\<rparr> ''a'' 5 =
   resolve_force_status_at \<lparr>ft_events = [force_event ''a'' InForce 1, force_event ''a'' Expired 9]\<rparr> ''a'' 5"
  by (rule resolve_force_status_irrelevant_events) (auto simp: force_event_def)

end
