(* ===== verification/LN_ThreeCanon.thy ===== *)
theory LN_ThreeCanon
  imports LN_Force
begin

text \<open>
  The bounded three-canon event log of \<open>crates/ln-temporal/src/domain.rs\<close> (ADR-0017): its three
  record kinds with their fail-closed constructors, the append-only log, the C1 overlay
  admission, the shared force readout and the point projection \<open>fold_three_canon_at\<close>.
\<close>

section \<open>Records\<close>

type_synonym canon_record_id = string

datatype evidence_class = Legislative | HypothesizedFromOracleDiff | EditorialHint

fun evidence_as_str :: "evidence_class \<Rightarrow> string" where
  "evidence_as_str Legislative = ''legislative''"
| "evidence_as_str HypothesizedFromOracleDiff = ''hypothesized_from_oracle_diff''"
| "evidence_as_str EditorialHint = ''editorial_hint''"

datatype amendment_facet_kind = Structural | Industrial | TextFacet | Force

fun facet_as_str :: "amendment_facet_kind \<Rightarrow> string" where
  "facet_as_str Structural = ''structural''"
| "facet_as_str Industrial = ''industrial''"
| "facet_as_str TextFacet = ''text''"
| "facet_as_str Force = ''force''"

datatype three_canon_log_error =
  TC_InvalidId id_error | TC_OrderingConflict | TC_DuplicateRecordId | TC_EmptyFacets
  | TC_ForceFacetMismatch | TC_UnknownNotTransition | TC_EmptyDigest
  | TC_MissingAmendingActIdentity | TC_OverviewNotLegislativeEvent | TC_InvertedRange

record amendment_event =
  am_record_id :: canon_record_id
  am_target :: component_id
  am_effect_day :: int
  am_provenance :: amending_act_id
  am_evidence :: evidence_class
  am_facets :: "amendment_facet_kind list"
  am_force_transition :: "normative_state option"

definition amendment_try_new ::
    "canon_record_id \<Rightarrow> component_id \<Rightarrow> int \<Rightarrow> amending_act_id \<Rightarrow> evidence_class \<Rightarrow>
     amendment_facet_kind list \<Rightarrow> normative_state option \<Rightarrow> three_canon_log_error + amendment_event" where
  "amendment_try_new record_id target effect_day provenance evidence facets force_transition =
     (if facets = [] then Inl TC_EmptyFacets
      else if (Force \<in> set facets) \<noteq> (force_transition \<noteq> None) then Inl TC_ForceFacetMismatch
      else if (case force_transition of Some status \<Rightarrow> \<not> is_transition_target status | None \<Rightarrow> False)
        then Inl TC_UnknownNotTransition
      else Inr \<lparr>am_record_id = record_id, am_target = target, am_effect_day = effect_day,
                am_provenance = provenance, am_evidence = evidence, am_facets = facets,
                am_force_transition = force_transition\<rparr>)"

record edition_oracle =
  eo_record_id :: canon_record_id
  eo_target :: component_id
  eo_observed_day :: int
  eo_digest :: string

definition edition_oracle_try_new ::
    "canon_record_id \<Rightarrow> component_id \<Rightarrow> int \<Rightarrow> string \<Rightarrow> three_canon_log_error + edition_oracle" where
  "edition_oracle_try_new record_id target observed_day digest =
     (if digest = [] then Inl TC_EmptyDigest
      else Inr \<lparr>eo_record_id = record_id, eo_target = target, eo_observed_day = observed_day,
                eo_digest = digest\<rparr>)"

datatype assertion_or_effect_payload = Assertion | Effect normative_state

record assertion_or_effect =
  ae_record_id :: canon_record_id
  ae_target :: component_id
  ae_effect_day :: int
  ae_evidence :: evidence_class
  ae_payload :: assertion_or_effect_payload

definition assertion_or_effect_try_new ::
    "canon_record_id \<Rightarrow> component_id \<Rightarrow> int \<Rightarrow> evidence_class \<Rightarrow> assertion_or_effect_payload \<Rightarrow>
     three_canon_log_error + assertion_or_effect" where
  "assertion_or_effect_try_new record_id target effect_day evidence payload =
     (if (case payload of Effect status \<Rightarrow> \<not> is_transition_target status | Assertion \<Rightarrow> False)
      then Inl TC_UnknownNotTransition
      else Inr \<lparr>ae_record_id = record_id, ae_target = target, ae_effect_day = effect_day,
                ae_evidence = evidence, ae_payload = payload\<rparr>)"

datatype three_canon_record =
  Amendment amendment_event | OracleRecord edition_oracle | AssertionOrEffect assertion_or_effect

fun rec_record_id :: "three_canon_record \<Rightarrow> canon_record_id" where
  "rec_record_id (Amendment r) = am_record_id r"
| "rec_record_id (OracleRecord r) = eo_record_id r"
| "rec_record_id (AssertionOrEffect r) = ae_record_id r"

fun rec_effect_day :: "three_canon_record \<Rightarrow> int" where
  "rec_effect_day (Amendment r) = am_effect_day r"
| "rec_effect_day (OracleRecord r) = eo_observed_day r"
| "rec_effect_day (AssertionOrEffect r) = ae_effect_day r"

fun is_canon_event :: "three_canon_record \<Rightarrow> bool" where
  "is_canon_event (OracleRecord _) = False"
| "is_canon_event _ = True"

fun rec_target :: "three_canon_record \<Rightarrow> component_id" where
  "rec_target (Amendment r) = am_target r"
| "rec_target (OracleRecord r) = eo_target r"
| "rec_target (AssertionOrEffect r) = ae_target r"

section \<open>The log\<close>

record three_canon_event_log =
  tl_records :: "three_canon_record list"

definition three_canon_empty :: three_canon_event_log where
  "three_canon_empty = \<lparr>tl_records = []\<rparr>"

definition three_canon_append ::
    "three_canon_event_log \<Rightarrow> three_canon_record \<Rightarrow> three_canon_log_error + three_canon_event_log" where
  "three_canon_append log record =
     (if list_ex (\<lambda>existing. rec_record_id existing = rec_record_id record) (tl_records log)
        then Inl TC_DuplicateRecordId
      else if tl_records log \<noteq> [] \<and> rec_effect_day record < rec_effect_day (last (tl_records log))
        then Inl TC_OrderingConflict
      else Inr \<lparr>tl_records = tl_records log @ [record]\<rparr>)"

datatype c1_candidate =
  LegislativeAmendment component_id int string evidence_class "amendment_facet_kind list"
    "normative_state option"
  | OverviewHint component_id string

definition append_c1_candidate ::
    "three_canon_event_log \<Rightarrow> canon_record_id \<Rightarrow> c1_candidate \<Rightarrow>
     three_canon_log_error + three_canon_event_log" where
  "append_c1_candidate log record_id candidate =
     (case candidate of
        OverviewHint _ _ \<Rightarrow> Inl TC_OverviewNotLegislativeEvent
      | LegislativeAmendment target effect_day amending_act_raw evidence facets force_transition \<Rightarrow>
          if str_trim amending_act_raw = [] then Inl TC_MissingAmendingActIdentity
          else case parse_id ''amending act id'' amending_act_raw MAX_ID_LEN of
            Inl e \<Rightarrow> Inl (TC_InvalidId e)
          | Inr provenance \<Rightarrow>
              (case amendment_try_new record_id target effect_day provenance evidence facets
                      force_transition of
                 Inl e \<Rightarrow> Inl e
               | Inr ev \<Rightarrow> three_canon_append log (Amendment ev)))"

section \<open>The force readout\<close>

fun force_outcome :: "three_canon_record \<Rightarrow> normative_state option" where
  "force_outcome (Amendment r) = am_force_transition r"
| "force_outcome (AssertionOrEffect r) =
     (case ae_payload r of Effect status \<Rightarrow> Some status | Assertion \<Rightarrow> None)"
| "force_outcome (OracleRecord _) = None"

text \<open>The loop of \<open>force_readout\<close> over its two mutable variables.\<close>

fun readout_loop ::
    "int option \<Rightarrow> normative_state list \<Rightarrow> three_canon_record list \<Rightarrow> int option \<times> normative_state list"
where
  "readout_loop force_day outcomes [] = (force_day, outcomes)"
| "readout_loop force_day outcomes (event # events) =
     (case force_outcome event of
        None \<Rightarrow> readout_loop force_day outcomes events
      | Some status \<Rightarrow>
          (let day = rec_effect_day event in
           case force_day of
             None \<Rightarrow> readout_loop (Some day) (outcomes @ [status]) events
           | Some newest \<Rightarrow>
               if day > newest then readout_loop (Some day) [status] events
               else if day = newest then
                 readout_loop force_day
                   (if status \<in> set outcomes then outcomes else outcomes @ [status]) events
               else readout_loop force_day outcomes events))"

definition force_readout :: "three_canon_record list \<Rightarrow> normative_state \<times> bool" where
  "force_readout events =
     (let outcomes = snd (readout_loop None [] events)
      in case outcomes of
           [] \<Rightarrow> (Unknown, False)
         | [status] \<Rightarrow> (status, False)
         | _ \<Rightarrow> (Unknown, True))"

section \<open>The point projection\<close>

record three_canon_projection =
  tp_as_of_day :: int
  tp_events :: "three_canon_record list"
  tp_force_status :: normative_state
  tp_force_conflict :: bool
  tp_non_claims :: "string list"

definition THREE_CANON_NON_CLAIMS :: "string list" where
  "THREE_CANON_NON_CLAIMS =
     [''Three-canon log fold is a bounded point projection; not interval algebra, not checkout'',
      ''EditionOracle records are checksums, not canon; fold never writes an oracle back as events'',
      ''Empty fold does not imply ForceStatus InForce or structural membership'',
      ''Evidence-class precedence and assertion supersession are not resolved by this fold'',
      ''Not the crystal ledger, not MicroOperation, not the G0(a) assertion-lifecycle engine'',
      ''Lifecycle [proposed]; not product readiness or legal validation'']"

text \<open>The defence-in-depth loop: no record is dated before the one it follows.\<close>

fun ordered_from :: "int option \<Rightarrow> three_canon_record list \<Rightarrow> bool" where
  "ordered_from previous_day [] = True"
| "ordered_from previous_day (record # records) =
     (let day = rec_effect_day record in
      if (case previous_day of Some previous \<Rightarrow> day < previous | None \<Rightarrow> False) then False
      else ordered_from (Some day) records)"

definition canon_until :: "int \<Rightarrow> three_canon_record list \<Rightarrow> three_canon_record list" where
  "canon_until t records = filter (\<lambda>r. is_canon_event r \<and> rec_effect_day r \<le> t) records"

definition fold_three_canon_at ::
    "three_canon_event_log \<Rightarrow> int \<Rightarrow> three_canon_log_error + three_canon_projection" where
  "fold_three_canon_at log as_of_day =
     (if \<not> ordered_from None (tl_records log) then Inl TC_OrderingConflict
      else
        let events = canon_until as_of_day (tl_records log);
            (force_status, force_conflict) = force_readout events
        in Inr \<lparr>tp_as_of_day = as_of_day, tp_events = events, tp_force_status = force_status,
                tp_force_conflict = force_conflict, tp_non_claims = THREE_CANON_NON_CLAIMS\<rparr>)"

section \<open>Reachable logs\<close>

text \<open>The records that the private fields allow: the results of the constructors.\<close>

inductive constructed :: "three_canon_record \<Rightarrow> bool" where
  con_amendment: "amendment_try_new i t d p e f s = Inr r \<Longrightarrow> constructed (Amendment r)"
| con_oracle: "edition_oracle_try_new i t d g = Inr r \<Longrightarrow> constructed (OracleRecord r)"
| con_effect: "assertion_or_effect_try_new i t d e p = Inr r \<Longrightarrow> constructed (AssertionOrEffect r)"

inductive log_reachable :: "three_canon_event_log \<Rightarrow> bool" where
  reach_empty: "log_reachable three_canon_empty"
| reach_append: "log_reachable log \<Longrightarrow> constructed r \<Longrightarrow> three_canon_append log r = Inr log' \<Longrightarrow>
     log_reachable log'"
| reach_c1: "log_reachable log \<Longrightarrow> append_c1_candidate log i c = Inr log' \<Longrightarrow> log_reachable log'"

definition days_sorted :: "three_canon_record list \<Rightarrow> bool" where
  "days_sorted records = sorted (map rec_effect_day records)"

definition log_wf :: "three_canon_event_log \<Rightarrow> bool" where
  "log_wf log = (days_sorted (tl_records log) \<and> distinct (map rec_record_id (tl_records log)) \<and>
     (\<forall>r \<in> set (tl_records log). constructed r))"

subsection \<open>The append operations\<close>

lemma three_canon_append_Inr:
  "three_canon_append log r = Inr log' \<longleftrightarrow>
     rec_record_id r \<notin> rec_record_id ` set (tl_records log) \<and>
     (tl_records log = [] \<or> rec_effect_day (last (tl_records log)) \<le> rec_effect_day r) \<and>
     log' = \<lparr>tl_records = tl_records log @ [r]\<rparr>"
  by (auto simp: three_canon_append_def list_ex_iff image_iff split: if_splits) metis

lemma append_c1_candidate_Inr:
  "append_c1_candidate log i c = Inr log' \<longleftrightarrow>
     (\<exists>target day raw ev facets force e.
        c = LegislativeAmendment target day raw ev facets force \<and> str_trim raw \<noteq> [] \<and>
        valid_id MAX_ID_LEN raw \<and> amendment_try_new i target day raw ev facets force = Inr e \<and>
        three_canon_append log (Amendment e) = Inr log')"
  by (auto simp: append_c1_candidate_def parse_id_valid parse_id_eq_Inr
      split: c1_candidate.splits if_splits sum.splits)

lemma sorted_last: "sorted (xs @ [x]) \<longleftrightarrow> sorted xs \<and> (xs = [] \<or> last xs \<le> (x :: 'a :: linorder))"
proof (cases xs rule: rev_cases)
  case (snoc ys y)
  then show ?thesis by (auto simp: sorted_append)
qed simp

lemma append_wf:
  "log_wf log \<Longrightarrow> constructed r \<Longrightarrow> three_canon_append log r = Inr log' \<Longrightarrow> log_wf log'"
  by (auto simp: log_wf_def days_sorted_def three_canon_append_Inr sorted_last last_map)

lemma log_reachable_wf: "log_reachable log \<Longrightarrow> log_wf log"
proof (induction rule: log_reachable.induct)
  case reach_empty
  show ?case by (simp add: log_wf_def days_sorted_def three_canon_empty_def)
next
  case (reach_append log r log')
  then show ?case by (blast intro: append_wf)
next
  case (reach_c1 log i c log')
  then show ?case by (auto simp: append_c1_candidate_Inr intro: append_wf con_amendment)
qed

lemma ordered_from_sorted:
  "ordered_from prev rs \<longleftrightarrow> days_sorted rs \<and> (\<forall>d \<in> set_option prev. \<forall>r \<in> set rs. d \<le> rec_effect_day r)"
proof (induction rs arbitrary: prev)
  case (Cons r rs)
  then show ?case
    by (cases prev) (auto simp: days_sorted_def Let_def not_less intro: order_trans)
qed (simp add: days_sorted_def)

lemma ordered_from_None [simp]: "ordered_from None rs \<longleftrightarrow> days_sorted rs"
  by (simp add: ordered_from_sorted)

subsection \<open>The readout meets the specification\<close>

definition dated_outcomes :: "three_canon_record list \<Rightarrow> (int \<times> normative_state) list" where
  "dated_outcomes events = List.map_filter
     (\<lambda>e. map_option (\<lambda>s. (rec_effect_day e, s)) (force_outcome e)) events"

lemma dated_outcomes_simps [simp]:
  "dated_outcomes [] = []"
  "dated_outcomes (e # es) = (case force_outcome e of None \<Rightarrow> dated_outcomes es
     | Some s \<Rightarrow> (rec_effect_day e, s) # dated_outcomes es)"
  by (simp_all add: dated_outcomes_def map_filter_simps split: option.splits)

lemma dated_outcomes_append: "dated_outcomes (a @ b) = dated_outcomes a @ dated_outcomes b"
  by (induction a) (auto split: option.splits)

lemma set_dated_outcomes:
  "set (dated_outcomes es) = {(rec_effect_day e, s) | e s. e \<in> set es \<and> force_outcome e = Some s}"
  by (induction es) (auto split: option.splits)

text \<open>What the loop variables hold after a prefix with the dated outcomes \<open>ps\<close>.\<close>

definition readout_state :: "(int \<times> normative_state) list \<Rightarrow> int option \<Rightarrow> normative_state list \<Rightarrow> bool" where
  "readout_state ps fd out =
     (distinct out \<and> set out = latest ps \<and> (fd = None \<longleftrightarrow> ps = []) \<and>
      (\<forall>d \<in> set_option fd. (\<exists>s. (d, s) \<in> set ps) \<and> (\<forall>p \<in> set ps. fst p \<le> d)))"

lemma latest_snoc_new: "\<forall>p \<in> set ps. fst p < d \<Longrightarrow> latest (ps @ [(d, s)]) = {s}"
  by (fastforce simp: latest_def)

lemma latest_snoc_same:
  "\<forall>p \<in> set ps. fst p \<le> d \<Longrightarrow> (d, s') \<in> set ps \<Longrightarrow> latest (ps @ [(d, s)]) = insert s (latest ps)"
  by (fastforce simp: latest_def)

lemma latest_snoc_old: "(d', s') \<in> set ps \<Longrightarrow> d < d' \<Longrightarrow> latest (ps @ [(d, s)]) = latest ps"
  by (fastforce simp: latest_def)

lemma readout_loop_state:
  "readout_state ps fd out \<Longrightarrow> readout_loop fd out es = (fd', out') \<Longrightarrow>
     readout_state (ps @ dated_outcomes es) fd' out'"
proof (induction es arbitrary: ps fd out)
  case (Cons e es)
  show ?case
  proof (cases "force_outcome e")
    case None
    with Cons show ?thesis by simp
  next
    case (Some s)
    define d where "d = rec_effect_day e"
    define step where "step = (case fd of None \<Rightarrow> (Some d, out @ [s])
        | Some l \<Rightarrow> if d > l then (Some d, [s]) else if d = l
            then (fd, if s \<in> set out then out else out @ [s]) else (fd, out))"
    have run: "readout_loop (fst step) (snd step) es = (fd', out')"
      using Cons.prems(2) Some by (auto simp: step_def d_def Let_def split: option.splits if_splits)
    have "readout_state (ps @ [(d, s)]) (fst step) (snd step)"
    proof (cases fd)
      case None
      with Cons.prems(1) have "ps = []" "out = []" by (auto simp: readout_state_def)
      with None show ?thesis
        using latest_snoc_new [of "[]" d s] by (simp add: readout_state_def step_def)
    next
      case (Some l)
      with Cons.prems(1) obtain s' where l: "(l, s') \<in> set ps" "\<forall>p \<in> set ps. fst p \<le> l"
        and out: "distinct out" "set out = latest ps" by (auto simp: readout_state_def)
      consider "l < d" | "d = l" | "d < l" by linarith
      then show ?thesis
      proof cases
        case 1
        with l have "latest (ps @ [(d, s)]) = {s}" by (intro latest_snoc_new) fastforce
        with 1 l Some show ?thesis by (fastforce simp: readout_state_def step_def)
      next
        case 2
        with l have "latest (ps @ [(d, s)]) = insert s (latest ps)" by (intro latest_snoc_same [of ps d s']) auto
        with 2 l out Some show ?thesis by (auto simp: readout_state_def step_def)
      next
        case 3
        with l have "latest (ps @ [(d, s)]) = latest ps" by (intro latest_snoc_old [of l s']) auto
        with 3 l out Some show ?thesis by (auto simp: readout_state_def step_def)
      qed
    qed
    from Cons.IH [OF this run] Some show ?thesis by (simp add: d_def)
  qed
qed simp

lemma readout_of_list:
  "distinct out \<Longrightarrow> (case out of [] \<Rightarrow> (Unknown, False) | [s] \<Rightarrow> (s, False) | _ \<Rightarrow> (Unknown, True)) =
     readout_of (set out)"
  by (auto simp: readout_of_def is_singleton_def split: list.splits)

theorem force_readout_spec: "force_readout events = readout_of (latest (dated_outcomes events))"
proof -
  obtain fd out where run: "readout_loop None [] events = (fd, out)" by force
  have "readout_state [] None []" by (simp add: readout_state_def)
  from readout_loop_state [OF this run] have "distinct out" "set out = latest (dated_outcomes events)"
    by (auto simp: readout_state_def)
  with run show ?thesis by (simp add: force_readout_def Let_def readout_of_list del: list.case)
qed

lemma readout_events_cong: "set es = set es' \<Longrightarrow> force_readout es = force_readout es'"
  using latest_set_cong [of "dated_outcomes es" "dated_outcomes es'"]
  by (simp add: force_readout_spec set_dated_outcomes)

lemma constructed_outcome: "constructed r \<Longrightarrow> force_outcome r = Some s \<Longrightarrow> is_transition_target s"
  by (induction rule: constructed.induct)
    (auto simp: amendment_try_new_def assertion_or_effect_try_new_def split: if_splits option.splits
      assertion_or_effect_payload.splits)

text \<open>On constructed records, an unknown status without conflict means no force evidence at all.\<close>

lemma readout_unknown_iff:
  assumes "\<forall>r \<in> set events. constructed r"
  shows "force_readout events = (Unknown, False) \<longleftrightarrow> (\<forall>r \<in> set events. force_outcome r = None)"
proof -
  have "Unknown \<notin> latest (dated_outcomes events)"
    using assms latest_subset [of "dated_outcomes events"]
    by (force simp: set_dated_outcomes dest: constructed_outcome simp: is_transition_target_def)
  then have "force_readout events = (Unknown, False) \<longleftrightarrow> latest (dated_outcomes events) = {}"
    by (simp add: force_readout_spec readout_unknown_empty)
  also have "\<dots> \<longleftrightarrow> set (dated_outcomes events) = {}" by simp
  also have "\<dots> \<longleftrightarrow> (\<forall>r \<in> set events. force_outcome r = None)"
    unfolding set_dated_outcomes by (auto, metis not_None_eq)
  finally show ?thesis .
qed

subsection \<open>The projection\<close>

lemma canon_until_constructed:
  "\<forall>r \<in> set rs. constructed r \<Longrightarrow> \<forall>r \<in> set (canon_until t rs). constructed r"
  by (auto simp: canon_until_def)

lemma canon_until_append [simp]: "canon_until t (a @ b) = canon_until t a @ canon_until t b"
  by (simp add: canon_until_def)

lemma fold_three_canon_wf:
  "days_sorted (tl_records log) \<Longrightarrow> fold_three_canon_at log t =
     Inr \<lparr>tp_as_of_day = t, tp_events = canon_until t (tl_records log),
          tp_force_status = fst (force_readout (canon_until t (tl_records log))),
          tp_force_conflict = snd (force_readout (canon_until t (tl_records log))),
          tp_non_claims = THREE_CANON_NON_CLAIMS\<rparr>"
  by (simp add: fold_three_canon_at_def Let_def case_prod_beta)

lemma fold_three_canon_error:
  "\<not> days_sorted (tl_records log) \<Longrightarrow> fold_three_canon_at log t = Inl TC_OrderingConflict"
  by (simp add: fold_three_canon_at_def)

text \<open>Appending a later record leaves every earlier projection as it was.\<close>

lemma canon_until_future:
  "three_canon_append log r = Inr log' \<Longrightarrow> t < rec_effect_day r \<Longrightarrow>
     canon_until t (tl_records log') = canon_until t (tl_records log)"
  by (auto simp: three_canon_append_Inr canon_until_def)

section \<open>Properties\<close>

text \<open>C37. A log that the public operations can build is ordered by effect day, has unique record ids and holds
only records that passed their constructor.\<close>

theorem three_canon_log_invariant:
  assumes "log_reachable log"
  shows "days_sorted (tl_records log) \<and> distinct (map rec_record_id (tl_records log)) \<and>
    (\<forall>r \<in> set (tl_records log). constructed r)"
  using log_reachable_wf [OF assms] by (simp add: log_wf_def)

text \<open>C1. On a reachable log the point projection always succeeds; it holds exactly the canon events (no
oracle records) up to the day, its force readout is the fail-closed readout of the outcomes of the latest
day, and the status is \<open>Unknown\<close> without a conflict exactly when there is no force evidence at all.\<close>

theorem fold_three_canon_spec:
  assumes "log_reachable log"
  shows "\<exists>p. fold_three_canon_at log t = Inr p \<and> tp_as_of_day p = t \<and>
    tp_events p = filter (\<lambda>r. is_canon_event r \<and> rec_effect_day r \<le> t) (tl_records log) \<and>
    (tp_force_status p, tp_force_conflict p) = readout_of (latest (dated_outcomes (tp_events p))) \<and>
    (tp_force_status p = Unknown \<and> \<not> tp_force_conflict p \<longleftrightarrow>
       (\<forall>r \<in> set (tp_events p). force_outcome r = None))"
proof -
  have wf: "days_sorted (tl_records log)" "\<forall>r \<in> set (tl_records log). constructed r"
    using log_reachable_wf [OF assms] by (simp_all add: log_wf_def)
  note u = readout_unknown_iff [OF canon_until_constructed [OF wf(2), of t]]
  show ?thesis
    using u by (simp add: fold_three_canon_wf [OF wf(1)] canon_until_def [symmetric] force_readout_spec
        prod_eq_iff)
qed

text \<open>History is stable: appending a record leaves every projection before its effect day as it was.\<close>

theorem past_projections_stable:
  assumes "log_reachable log" "constructed r" "three_canon_append log r = Inr log'" "t < rec_effect_day r"
  shows "fold_three_canon_at log' t = fold_three_canon_at log t"
proof -
  have "days_sorted (tl_records log)" "days_sorted (tl_records log')"
    using log_reachable_wf [OF assms(1)] log_reachable_wf [OF reach_append [OF assms(1-3)]]
    by (simp_all add: log_wf_def)
  then show ?thesis using canon_until_future [OF assms(3,4)] by (simp add: fold_three_canon_wf)
qed

text \<open>The C1 overlay admits nothing but legislative amendments: an accepted candidate adds exactly one
amendment record, with the identity of a validated amending act, and keeps the log reachable.\<close>

theorem c1_overlay_adds_amendment:
  assumes "log_reachable log" "append_c1_candidate log i candidate = Inr log'"
  shows "log_reachable log' \<and> (\<exists>ev. tl_records log' = tl_records log @ [Amendment ev] \<and>
    am_record_id ev = i \<and> valid_id MAX_ID_LEN (am_provenance ev) \<and> am_facets ev \<noteq> [])"
proof -
  obtain target day raw ev facets force e where "amendment_try_new i target day raw ev facets force = Inr e"
    "valid_id MAX_ID_LEN raw" "three_canon_append log (Amendment e) = Inr log'"
    using assms(2) by (auto simp: append_c1_candidate_Inr)
  then have "tl_records log' = tl_records log @ [Amendment e]" "am_record_id e = i"
    "am_provenance e = raw" "am_facets e \<noteq> []"
    by (auto simp: three_canon_append_Inr amendment_try_new_def split: if_splits)
  with \<open>valid_id MAX_ID_LEN raw\<close> reach_c1 [OF assms] show ?thesis by auto
qed

definition effect_record :: "canon_record_id \<Rightarrow> component_id \<Rightarrow> int \<Rightarrow> normative_state \<Rightarrow> three_canon_record" where
  "effect_record i c d s = AssertionOrEffect \<lparr>ae_record_id = i, ae_target = c, ae_effect_day = d,
     ae_evidence = Legislative, ae_payload = Effect s\<rparr>"

lemma effect_record_constructed: "is_transition_target s \<Longrightarrow> constructed (effect_record i c d s)"
  unfolding effect_record_def by (rule con_effect [of i c d Legislative "Effect s"]) (simp add: assertion_or_effect_try_new_def)

definition sample_log :: three_canon_event_log where
  "sample_log = \<lparr>tl_records = [effect_record ''r1'' ''a'' 1 InForce, effect_record ''r2'' ''b'' 2 Repealed]\<rparr>"

lemma effect_record_fields [simp]:
  "rec_record_id (effect_record i c d s) = i" "rec_effect_day (effect_record i c d s) = d"
  "rec_target (effect_record i c d s) = c" "is_canon_event (effect_record i c d s)"
  "force_outcome (effect_record i c d s) = Some s"
  by (simp_all add: effect_record_def)

lemma sample_log_reachable: "log_reachable sample_log"
proof -
  have "log_reachable \<lparr>tl_records = [effect_record ''r1'' ''a'' 1 InForce]\<rparr>"
    by (rule reach_append [OF reach_empty effect_record_constructed [of InForce "''r1''" "''a''" 1]])
      (simp_all add: three_canon_append_Inr three_canon_empty_def is_transition_target_def)
  then show ?thesis
    by (rule reach_append [OF _ effect_record_constructed [of Repealed "''r2''" "''b''" 2]])
      (simp_all add: three_canon_append_Inr sample_log_def is_transition_target_def)
qed

theorem three_canon_log_invariant_witness: "days_sorted (tl_records sample_log)"
  using three_canon_log_invariant [OF sample_log_reachable] by blast

theorem fold_three_canon_spec_witness:
  "\<exists>p. fold_three_canon_at sample_log 1 = Inr p \<and> tp_events p = [effect_record ''r1'' ''a'' 1 InForce]"
  using fold_three_canon_spec [OF sample_log_reachable, of 1] by (auto simp: sample_log_def)

lemma sample_append:
  "three_canon_append sample_log (effect_record ''r3'' ''a'' 5 Expired) =
     Inr \<lparr>tl_records = tl_records sample_log @ [effect_record ''r3'' ''a'' 5 Expired]\<rparr>"
  by (simp add: three_canon_append_Inr sample_log_def)

theorem past_projections_stable_witness:
  "fold_three_canon_at \<lparr>tl_records = tl_records sample_log @ [effect_record ''r3'' ''a'' 5 Expired]\<rparr> 4 =
     fold_three_canon_at sample_log 4"
  by (rule past_projections_stable [OF sample_log_reachable effect_record_constructed sample_append])
    (simp_all add: is_transition_target_def)

lemma c1_example:
  "append_c1_candidate sample_log ''r3'' (LegislativeAmendment ''a'' 5 ''act:7'' Legislative [TextFacet] None) =
     Inr \<lparr>tl_records = tl_records sample_log @ [Amendment \<lparr>am_record_id = ''r3'', am_target = ''a'',
       am_effect_day = 5, am_provenance = ''act:7'', am_evidence = Legislative, am_facets = [TextFacet],
       am_force_transition = None\<rparr>]\<rparr>"
proof -
  have "str_trim ''act:7'' \<noteq> []" "valid_id MAX_ID_LEN ''act:7''" by code_simp+
  then show ?thesis
    by (simp add: append_c1_candidate_Inr amendment_try_new_def three_canon_append_Inr sample_log_def)
qed

theorem c1_overlay_adds_amendment_witness:
  "log_reachable \<lparr>tl_records = tl_records sample_log @ [Amendment \<lparr>am_record_id = ''r3'', am_target = ''a'',
       am_effect_day = 5, am_provenance = ''act:7'', am_evidence = Legislative, am_facets = [TextFacet],
       am_force_transition = None\<rparr>]\<rparr>"
  using c1_overlay_adds_amendment [OF sample_log_reachable c1_example] by blast

end
