(* ===== verification/LN_Provenance.thy ===== *)
theory LN_Provenance
  imports LN_ThreeCanon "HOL-Library.Multiset"
begin

text \<open>
  The edition provenance envelope of \<open>crates/ln-temporal/src/provenance.rs\<close> (D405/D409): the
  commencement and transitional slots, the caller-supplied admission, the packet constructor with
  its fail-closed order of refusals, and the string-shaped entry.
\<close>

section \<open>Errors\<close>

datatype provenance_error =
  PV_MissingAmendingAct | PV_MissingAffectedProvision | PV_MissingCommencement
  | PV_MissingDeltaEvidence | PV_MissingTransitional | PV_UnprovenCommencement
  | PV_DuplicateAmendingAct | PV_DuplicateProvision | PV_DuplicateDeltaEvidence
  | PV_MissingTransitionalJustification | PV_InvalidId id_error

datatype edition_delta_error =
  DE_Window three_canon_log_error
  | DE_Unresolved component_id provenance_error
  | DE_MissingAdmission component_id

section \<open>Slots\<close>

record commencement_evidence =
  cm_effect_day :: int
  cm_evidence_class :: evidence_class
  cm_rule_ref :: canon_record_id

definition commencement_try_new ::
    "int \<Rightarrow> evidence_class \<Rightarrow> string \<Rightarrow> provenance_error + commencement_evidence" where
  "commencement_try_new effect_day evidence_class rule_ref =
     (if evidence_class = EditorialHint then Inl PV_UnprovenCommencement
      else
        let trimmed = str_trim rule_ref in
        if trimmed = [] then Inl PV_MissingCommencement
        else case map_err PV_InvalidId (parse_id ''canon record id'' trimmed MAX_ID_LEN) of
          Inl e \<Rightarrow> Inl e
        | Inr rule_ref' \<Rightarrow>
            Inr \<lparr>cm_effect_day = effect_day, cm_evidence_class = evidence_class,
                 cm_rule_ref = rule_ref'\<rparr>)"

datatype transitional_evidence = Declared canon_record_id | ExplicitlyAbsent string

definition try_explicitly_absent :: "string \<Rightarrow> provenance_error + transitional_evidence" where
  "try_explicitly_absent justification =
     (if str_trim justification = [] then Inl PV_MissingTransitionalJustification
      else Inr (ExplicitlyAbsent justification))"

fun transitional_justification :: "transitional_evidence \<Rightarrow> string option" where
  "transitional_justification (Declared _) = None"
| "transitional_justification (ExplicitlyAbsent justification) = Some justification"

definition try_declared :: "string \<Rightarrow> provenance_error + transitional_evidence" where
  "try_declared rule_ref =
     (let trimmed = str_trim rule_ref in
      if trimmed = [] then Inl PV_MissingTransitional
      else case map_err PV_InvalidId (parse_id ''canon record id'' trimmed MAX_ID_LEN) of
        Inl e \<Rightarrow> Inl e
      | Inr rule_ref' \<Rightarrow> Inr (Declared rule_ref'))"

record provenance_admission =
  ad_target :: component_id
  ad_effect_day :: int
  ad_evidence_class :: evidence_class
  ad_rule_ref :: string
  ad_transitional :: transitional_evidence

definition admission_try_new ::
    "component_id \<Rightarrow> int \<Rightarrow> evidence_class \<Rightarrow> string \<Rightarrow> transitional_evidence \<Rightarrow>
     provenance_error + provenance_admission" where
  "admission_try_new target effect_day evidence_class rule_ref transitional =
     (if str_trim rule_ref = [] then Inl PV_MissingCommencement
      else Inr \<lparr>ad_target = target, ad_effect_day = effect_day, ad_evidence_class = evidence_class,
                ad_rule_ref = rule_ref, ad_transitional = transitional\<rparr>)"

section \<open>The packet\<close>

record edition_provenance_envelope =
  en_amending_acts :: "amending_act_id list"
  en_affected_provisions :: "component_id list"
  en_commencement :: commencement_evidence
  en_transitional :: transitional_evidence
  en_delta_evidence :: "canon_record_id list"

definition has_adjacent_duplicate :: "string list \<Rightarrow> bool" where
  "has_adjacent_duplicate xs = list_ex (\<lambda>p. fst p = snd p) (windows2 xs)"

definition envelope_try_new ::
    "amending_act_id list \<Rightarrow> component_id list \<Rightarrow> commencement_evidence \<Rightarrow> transitional_evidence \<Rightarrow>
     canon_record_id list \<Rightarrow> provenance_error + edition_provenance_envelope" where
  "envelope_try_new amending_acts affected_provisions commencement transitional delta_evidence =
     (if amending_acts = [] then Inl PV_MissingAmendingAct
      else if affected_provisions = [] then Inl PV_MissingAffectedProvision
      else if delta_evidence = [] then Inl PV_MissingDeltaEvidence
      else
        let acts = sort amending_acts in
        if has_adjacent_duplicate acts then Inl PV_DuplicateAmendingAct
        else
          let provisions = sort affected_provisions in
          if has_adjacent_duplicate provisions then Inl PV_DuplicateProvision
          else
            let evidence = sort delta_evidence in
            if has_adjacent_duplicate evidence then Inl PV_DuplicateDeltaEvidence
            else Inr \<lparr>en_amending_acts = acts, en_affected_provisions = provisions,
                      en_commencement = commencement, en_transitional = transitional,
                      en_delta_evidence = evidence\<rparr>)"

fun parse_packet_loop ::
    "string list \<Rightarrow> provenance_error \<Rightarrow> (string \<Rightarrow> id_error + string) \<Rightarrow> string list \<Rightarrow>
     provenance_error + string list" where
  "parse_packet_loop [] missing parse parsed = Inr parsed"
| "parse_packet_loop (value # values) missing parse parsed =
     (let trimmed = str_trim value in
      if trimmed = [] then Inl missing
      else case map_err PV_InvalidId (parse trimmed) of
        Inl e \<Rightarrow> Inl e
      | Inr x \<Rightarrow> parse_packet_loop values missing parse (parsed @ [x]))"

definition parse_packet_ids ::
    "string list \<Rightarrow> provenance_error \<Rightarrow> (string \<Rightarrow> id_error + string) \<Rightarrow> provenance_error + string list" where
  "parse_packet_ids values missing parse =
     (if values = [] then Inl missing else parse_packet_loop values missing parse [])"

definition envelope_try_new_raw ::
    "string list \<Rightarrow> string list \<Rightarrow> commencement_evidence \<Rightarrow> transitional_evidence \<Rightarrow> string list \<Rightarrow>
     provenance_error + edition_provenance_envelope" where
  "envelope_try_new_raw amending_acts affected_provisions commencement transitional delta_evidence =
     (case parse_packet_ids amending_acts PV_MissingAmendingAct
             (\<lambda>v. parse_id ''amending act id'' v MAX_ID_LEN) of
        Inl e \<Rightarrow> Inl e
      | Inr acts \<Rightarrow>
          (case parse_packet_ids affected_provisions PV_MissingAffectedProvision
                  parse_component_concept_id of
             Inl e \<Rightarrow> Inl e
           | Inr provisions \<Rightarrow>
               (case parse_packet_ids delta_evidence PV_MissingDeltaEvidence
                       (\<lambda>v. parse_id ''canon record id'' v MAX_ID_LEN) of
                  Inl e \<Rightarrow> Inl e
                | Inr evidence \<Rightarrow>
                    envelope_try_new acts provisions commencement transitional evidence)))"

section \<open>Lemmas\<close>

lemma has_adjacent_duplicate_sort [simp]: "has_adjacent_duplicate (sort xs) \<longleftrightarrow> \<not> distinct xs"
  using sorted_windows2_distinct [of "sort xs"] by (auto simp: has_adjacent_duplicate_def list_ex_iff)

text \<open>The packet is complete exactly when every slot is non-empty and duplicate-free.\<close>

lemma envelope_try_new_Inr:
  "envelope_try_new acts provs cm tr evs = Inr en \<longleftrightarrow>
     acts \<noteq> [] \<and> provs \<noteq> [] \<and> evs \<noteq> [] \<and> distinct acts \<and> distinct provs \<and> distinct evs \<and>
     en = \<lparr>en_amending_acts = sort acts, en_affected_provisions = sort provs, en_commencement = cm,
           en_transitional = tr, en_delta_evidence = sort evs\<rparr>"
  by (auto simp: envelope_try_new_def Let_def)

definition packet_complete :: "edition_provenance_envelope \<Rightarrow> bool" where
  "packet_complete en =
     (en_amending_acts en \<noteq> [] \<and> en_affected_provisions en \<noteq> [] \<and> en_delta_evidence en \<noteq> [] \<and>
      sorted_wrt (<) (en_amending_acts en) \<and> sorted_wrt (<) (en_affected_provisions en) \<and>
      sorted_wrt (<) (en_delta_evidence en))"

lemma strict_sorted_sort: "distinct (xs :: 'a :: linorder list) \<Longrightarrow> sorted_wrt (<) (sort xs)"
  by (simp add: strict_sorted_iff)

lemma sort_eq_Nil [simp]: "sort xs = [] \<longleftrightarrow> xs = []"
  by (metis length_0_conv length_sort)

lemma envelope_complete: "envelope_try_new acts provs cm tr evs = Inr en \<Longrightarrow> packet_complete en"
  by (auto simp: envelope_try_new_Inr packet_complete_def strict_sorted_sort)

text \<open>Two permutations of one packet give equal envelopes.\<close>

lemma envelope_perm:
  "mset acts = mset acts' \<Longrightarrow> mset provs = mset provs' \<Longrightarrow> mset evs = mset evs' \<Longrightarrow>
     envelope_try_new acts provs cm tr evs = envelope_try_new acts' provs' cm tr evs'"
proof -
  have sort: "sort xs = sort ys" and nil: "xs = [] \<longleftrightarrow> ys = []"
    if "mset xs = mset ys" for xs ys :: "string list"
    using that properties_for_sort [of "sort ys" xs] mset_eq_length [OF that] by (auto simp: length_0_conv [symmetric] simp del: length_0_conv)
  assume "mset acts = mset acts'" "mset provs = mset provs'" "mset evs = mset evs'"
  note m = this
  show ?thesis
    unfolding envelope_try_new_def sort [OF m(1)] sort [OF m(2)] sort [OF m(3)]
      nil [OF m(1)] nil [OF m(2)] nil [OF m(3)] ..
qed

lemma commencement_try_new_Inr:
  "commencement_try_new d ec r = Inr cm \<longleftrightarrow> ec \<noteq> EditorialHint \<and> valid_id MAX_ID_LEN (str_trim r) \<and>
     cm = \<lparr>cm_effect_day = d, cm_evidence_class = ec, cm_rule_ref = str_trim r\<rparr>"
  by (auto simp: commencement_try_new_def Let_def parse_id_eq_Inr valid_id_def split: sum.splits)
     (auto simp: parse_id_def valid_id_def map_err_def split: if_splits)

lemma parse_packet_loop_Inr:
  "parse_packet_loop vs missing parse acc = Inr xs \<longleftrightarrow>
     (\<exists>ys. xs = acc @ ys \<and> list_all2 (\<lambda>v y. str_trim v \<noteq> [] \<and> parse (str_trim v) = Inr y) vs ys)"
proof (induction vs arbitrary: acc)
  case (Cons v vs)
  show ?case
  proof (cases "str_trim v = []")
    case False
    then show ?thesis
    proof (cases "parse (str_trim v)")
      case (Inr y)
      with False Cons.IH [of "acc @ [y]"] show ?thesis
        by (auto simp: Let_def list_all2_Cons1)
    qed (auto simp: Let_def list_all2_Cons1)
  qed (auto simp: Let_def list_all2_Cons1)
qed auto

section \<open>Properties\<close>

lemma parse_packet_ids_valid:
  assumes "parse_packet_ids vs missing parse = Inr xs" "\<And>v x. parse v = Inr x \<Longrightarrow> P x"
  shows "xs \<noteq> [] \<and> (\<forall>x \<in> set xs. P x)"
proof -
  have vs: "vs \<noteq> []" "list_all2 (\<lambda>v y. str_trim v \<noteq> [] \<and> parse (str_trim v) = Inr y) vs xs"
    using assms(1) by (auto simp: parse_packet_ids_def parse_packet_loop_Inr split: if_splits)
  have "\<forall>x \<in> set xs. P x"
    using vs(2) assms(2) by (induction rule: list_all2_induct) auto
  with vs show ?thesis by auto
qed

text \<open>A provenance packet that the string-shaped entry accepts is complete: at least one amending act, one
affected provision and one evidence record, each list strictly increasing (so without duplicates), every entry
a valid identifier, and the commencement and transitional slots as given.\<close>

theorem envelope_raw_complete:
  assumes "envelope_try_new_raw acts provisions commencement transitional evidence = Inr en"
  shows "packet_complete en \<and> en_commencement en = commencement \<and> en_transitional en = transitional \<and>
    list_all (valid_id MAX_ID_LEN) (en_amending_acts en) \<and>
    list_all valid_component (en_affected_provisions en) \<and>
    list_all (valid_id MAX_ID_LEN) (en_delta_evidence en)"
proof -
  obtain as ps es where p: "parse_packet_ids acts PV_MissingAmendingAct
      (\<lambda>v. parse_id ''amending act id'' v MAX_ID_LEN) = Inr as"
    "parse_packet_ids provisions PV_MissingAffectedProvision parse_component_concept_id = Inr ps"
    "parse_packet_ids evidence PV_MissingDeltaEvidence (\<lambda>v. parse_id ''canon record id'' v MAX_ID_LEN) = Inr es"
    and en: "envelope_try_new as ps commencement transitional es = Inr en"
    using assms by (auto simp: envelope_try_new_raw_def split: sum.splits)
  have "\<forall>x \<in> set as. valid_id MAX_ID_LEN x" "\<forall>x \<in> set ps. valid_component x" "\<forall>x \<in> set es. valid_id MAX_ID_LEN x"
    using parse_packet_ids_valid [OF p(1), of "valid_id MAX_ID_LEN"] parse_packet_ids_valid [OF p(2), of valid_component]
      parse_packet_ids_valid [OF p(3), of "valid_id MAX_ID_LEN"]
    by (simp_all add: parse_id_eq_Inr parse_component_eq_Inr)
  with en show ?thesis
    using envelope_complete [OF en] by (auto simp: envelope_try_new_Inr list_all_iff)
qed

text \<open>The packet is a set of evidence: permuting the three lists given to the constructor does not change
the result, neither the envelope nor the refusal.\<close>

theorem envelope_order_independent:
  assumes "mset acts = mset acts'" "mset provs = mset provs'" "mset evs = mset evs'"
  shows "envelope_try_new acts provs cm tr evs = envelope_try_new acts' provs' cm tr evs'"
  using assms by (rule envelope_perm)

definition sample_commencement :: commencement_evidence where
  "sample_commencement = \<lparr>cm_effect_day = 1, cm_evidence_class = Legislative, cm_rule_ref = ''rule:1''\<rparr>"

lemma envelope_raw_example:
  "envelope_try_new_raw ['' b ''] [''p''] sample_commencement (Declared ''t'') [''r''] =
     Inr \<lparr>en_amending_acts = [''b''], en_affected_provisions = [''p''],
          en_commencement = sample_commencement, en_transitional = Declared ''t'', en_delta_evidence = [''r'']\<rparr>"
proof -
  have "str_trim '' b '' = ''b''" "str_trim ''p'' = ''p''" "str_trim ''r'' = ''r''" "valid_component ''p''"
    "valid_id MAX_ID_LEN ''b''" "valid_id MAX_ID_LEN ''r''" by code_simp+
  then show ?thesis
    by (simp add: envelope_try_new_raw_def parse_packet_ids_def Let_def parse_id_valid parse_component_valid
        envelope_try_new_def has_adjacent_duplicate_def)
qed

theorem envelope_raw_complete_witness:
  "packet_complete \<lparr>en_amending_acts = [''b''], en_affected_provisions = [''p''],
     en_commencement = sample_commencement, en_transitional = Declared ''t'', en_delta_evidence = [''r'']\<rparr>"
  using envelope_raw_complete [OF envelope_raw_example] by blast

theorem envelope_order_independent_witness:
  "envelope_try_new [''b'', ''a''] [''p''] sample_commencement (Declared ''t'') [''r''] =
     envelope_try_new [''a'', ''b''] [''p''] sample_commencement (Declared ''t'') [''r'']"
  by (rule envelope_order_independent) simp_all

end
