(* ===== verification/LN_Checkout.thy ===== *)
theory LN_Checkout
  imports LN_Provenance
begin

text \<open>
  The per-provision checkout and the gated edition delta of
  \<open>crates/ln-temporal/src/domain.rs\<close> (D326, D409). Grouping by component is the code's
  \<open>HashMap\<close> with \<open>entry().or_default().push()\<close>; its iteration order is erased by the sort on the
  (unique) target, which the lemmas make explicit: each read model is a function of the set of
  targets, listed in increasing order.
\<close>

section \<open>Checkout\<close>

record provision_checkout =
  pc_target :: component_id
  pc_force_status :: normative_state
  pc_force_conflict :: bool
  pc_events :: "three_canon_record list"

record checkout_projection =
  cp_as_of_day :: int
  cp_provisions :: "provision_checkout list"
  cp_non_claims :: "string list"

definition CHECKOUT_NON_CLAIMS :: "string list" where
  "CHECKOUT_NON_CLAIMS =
     [''Point per-target fold of the recorded three-canon log; not bitemporal checkout (no legal_as_of / known_as_of / VIEW)'',
      ''Not the crystal compiler, not MicroOperation, not CoverageCertificate (D216/D312)'',
      ''Not interval algebra (D228)'',
      ''Not R070 amending-act text evidence; edition provenance stays open (D179)'',
      ''D-03 remains open-bounded: this is grouping, not the crystal compiler'']"

text \<open>The grouping loop; records that fail the test are skipped (\<open>continue\<close>).\<close>

fun group_where ::
    "(three_canon_record \<Rightarrow> bool) \<Rightarrow> three_canon_record list \<Rightarrow>
     (component_id, three_canon_record list) hashmap \<Rightarrow> (component_id, three_canon_record list) hashmap"
where
  "group_where keep [] grouped = grouped"
| "group_where keep (record # records) grouped =
     (if \<not> keep record then group_where keep records grouped
      else
        let chain = (case hm_get grouped (rec_target record) of None \<Rightarrow> [] | Some xs \<Rightarrow> xs)
        in group_where keep records (hm_insert (rec_target record) (chain @ [record]) grouped))"

definition checkout_provision :: "component_id \<times> three_canon_record list \<Rightarrow> provision_checkout" where
  "checkout_provision entry =
     (let (target, events) = entry; (force_status, force_conflict) = force_readout events
      in \<lparr>pc_target = target, pc_force_status = force_status, pc_force_conflict = force_conflict,
          pc_events = events\<rparr>)"

definition checkout_projection_at ::
    "three_canon_event_log \<Rightarrow> int \<Rightarrow> three_canon_log_error + checkout_projection" where
  "checkout_projection_at log as_of_day =
     (if \<not> ordered_from None (tl_records log) then Inl TC_OrderingConflict
      else
        let grouped = group_where (\<lambda>r. is_canon_event r \<and> rec_effect_day r \<le> as_of_day)
              (tl_records log) [];
            provisions = sort_key pc_target (map checkout_provision grouped)
        in Inr \<lparr>cp_as_of_day = as_of_day, cp_provisions = provisions,
                cp_non_claims = CHECKOUT_NON_CLAIMS\<rparr>)"

section \<open>Edition delta\<close>

record provision_delta =
  pd_target :: component_id
  pd_force_from :: normative_state
  pd_force_to :: normative_state
  pd_force_conflict_from :: bool
  pd_force_conflict_to :: bool
  pd_events :: "three_canon_record list"
  pd_provenance :: edition_provenance_envelope

record delta_dedup_report =
  dd_amending_act_duplicates :: nat
  dd_delta_evidence_duplicates :: nat

definition dedup_report_is_zero :: "delta_dedup_report \<Rightarrow> bool" where
  "dedup_report_is_zero r = (dd_amending_act_duplicates r = 0 \<and> dd_delta_evidence_duplicates r = 0)"

record edition_delta_readout =
  ed_from_day :: int
  ed_to_day :: int
  ed_provisions :: "provision_delta list"
  ed_non_claims :: "string list"
  ed_dedup_report :: delta_dedup_report

record kept_provision_line =
  kl_target :: component_id
  kl_force_from :: normative_state
  kl_force_to :: normative_state
  kl_force_conflict_from :: bool
  kl_force_conflict_to :: bool
  kl_events :: "three_canon_record list"

fun amendment_act :: "three_canon_record \<Rightarrow> amending_act_id option" where
  "amendment_act (Amendment ev) = Some (am_provenance ev)"
| "amendment_act _ = None"

definition count_adjacent_duplicates :: "string list \<Rightarrow> nat" where
  "count_adjacent_duplicates xs = length (filter (\<lambda>p. fst p = snd p) (windows2 xs))"

definition edition_delta_envelope ::
    "component_id \<Rightarrow> three_canon_record list \<Rightarrow> provenance_admission \<Rightarrow>
     provenance_error + (edition_provenance_envelope \<times> delta_dedup_report)" where
  "edition_delta_envelope target events admission =
     (let acts = sort (List.map_filter amendment_act events);
          amending_act_duplicates = count_adjacent_duplicates acts;
          acts = remdups_adj acts;
          delta_evidence = sort (map rec_record_id events);
          delta_evidence_record_duplicates = count_adjacent_duplicates delta_evidence;
          delta_evidence_duplicates = amending_act_duplicates + delta_evidence_record_duplicates;
          delta_evidence = remdups_adj delta_evidence
      in case commencement_try_new (ad_effect_day admission) (ad_evidence_class admission)
                (ad_rule_ref admission) of
           Inl e \<Rightarrow> Inl e
         | Inr commencement \<Rightarrow>
             (case envelope_try_new acts [target] commencement (ad_transitional admission)
                     delta_evidence of
                Inl e \<Rightarrow> Inl e
              | Inr envelope \<Rightarrow>
                  Inr (envelope, \<lparr>dd_amending_act_duplicates = amending_act_duplicates,
                                  dd_delta_evidence_duplicates = delta_evidence_duplicates\<rparr>)))"

definition boundary_readout :: "checkout_projection \<Rightarrow> component_id \<Rightarrow> normative_state \<times> bool" where
  "boundary_readout checkout target =
     (case find (\<lambda>p. pc_target p = target) (cp_provisions checkout) of
        Some p \<Rightarrow> (pc_force_status p, pc_force_conflict p)
      | None \<Rightarrow> (Unknown, False))"

definition keep_line ::
    "checkout_projection \<Rightarrow> checkout_projection \<Rightarrow>
     (component_id, three_canon_record list) hashmap \<Rightarrow> component_id \<Rightarrow> kept_provision_line option" where
  "keep_line checkout_from checkout_to window target =
     (let (force_from, force_conflict_from) = boundary_readout checkout_from target;
          (force_to, force_conflict_to) = boundary_readout checkout_to target;
          events = (case hm_get window target of None \<Rightarrow> [] | Some xs \<Rightarrow> xs)
      in if force_from = force_to \<and> events = [] then None
         else Some \<lparr>kl_target = target, kl_force_from = force_from, kl_force_to = force_to,
                    kl_force_conflict_from = force_conflict_from,
                    kl_force_conflict_to = force_conflict_to, kl_events = events\<rparr>)"

text \<open>The provenance gate: the traversal stops at the first refusal and sums the reports.\<close>

fun provenance_gate ::
    "provenance_admission list \<Rightarrow> kept_provision_line list \<Rightarrow> delta_dedup_report \<Rightarrow>
     edition_delta_error + (provision_delta list \<times> delta_dedup_report)" where
  "provenance_gate admissions [] report = Inr ([], report)"
| "provenance_gate admissions (line # lines) report =
     (case find (\<lambda>a. ad_target a = kl_target line) admissions of
        None \<Rightarrow> Inl (DE_MissingAdmission (kl_target line))
      | Some admission \<Rightarrow>
          (case edition_delta_envelope (kl_target line) (kl_events line) admission of
             Inl cause \<Rightarrow> Inl (DE_Unresolved (kl_target line) cause)
           | Inr (provenance, line_report) \<Rightarrow>
               let report' = \<lparr>dd_amending_act_duplicates =
                       dd_amending_act_duplicates report + dd_amending_act_duplicates line_report,
                     dd_delta_evidence_duplicates =
                       dd_delta_evidence_duplicates report + dd_delta_evidence_duplicates line_report\<rparr>;
                   delta = \<lparr>pd_target = kl_target line, pd_force_from = kl_force_from line,
                     pd_force_to = kl_force_to line,
                     pd_force_conflict_from = kl_force_conflict_from line,
                     pd_force_conflict_to = kl_force_conflict_to line,
                     pd_events = kl_events line, pd_provenance = provenance\<rparr>
               in case provenance_gate admissions lines report' of
                    Inl e \<Rightarrow> Inl e
                  | Inr (deltas, final) \<Rightarrow> Inr (delta # deltas, final)))"

definition EDITION_DELTA_NON_CLAIMS :: "string list" where
  "EDITION_DELTA_NON_CLAIMS =
     [''Derived (from, to] diff of two point per-target checkouts of the recorded three-canon log; not WALK-T compiler, not bitemporal checkout'',
      ''Not the crystal compiler, not MicroOperation, not CoverageCertificate (D216/D312)'',
      ''Not interval algebra (D228)'',
      ''Not R070 amending-act text evidence; synthetic act ids are not G1/G2 corpus (D179)'',
      ''D-03 remains open-bounded: this is a log-computable read-model, not the crystal compiler'',
      ''Gated provenance envelope: every kept line carries a full EditionProvenanceEnvelope or the whole edition_delta call is refused (D409); wiring is evidence bookkeeping, not provenance coverage '' @
      [CHR 0xE2, CHR 0x80, CHR 0x94] @ '' R070 stays open'']"

definition in_window :: "int \<Rightarrow> int \<Rightarrow> three_canon_record \<Rightarrow> bool" where
  "in_window from_day to_day r =
     (is_canon_event r \<and> from_day < rec_effect_day r \<and> rec_effect_day r \<le> to_day)"

definition edition_delta ::
    "three_canon_event_log \<Rightarrow> int \<Rightarrow> int \<Rightarrow> provenance_admission list \<Rightarrow>
     edition_delta_error + edition_delta_readout" where
  "edition_delta log from_day to_day admissions =
     (if from_day > to_day then Inl (DE_Window TC_InvertedRange)
      else case map_err DE_Window (checkout_projection_at log from_day) of
        Inl e \<Rightarrow> Inl e
      | Inr checkout_from \<Rightarrow>
          (case map_err DE_Window (checkout_projection_at log to_day) of
             Inl e \<Rightarrow> Inl e
           | Inr checkout_to \<Rightarrow>
               let window = group_where (in_window from_day to_day) (tl_records log) [];
                   targets = push_unknown
                     (push_unknown (map pc_target (cp_provisions checkout_from))
                        (map pc_target (cp_provisions checkout_to)))
                     (hm_keys window);
                   kept = sort_key kl_target
                     (List.map_filter (keep_line checkout_from checkout_to window) targets)
               in case provenance_gate admissions kept
                         \<lparr>dd_amending_act_duplicates = 0, dd_delta_evidence_duplicates = 0\<rparr> of
                    Inl e \<Rightarrow> Inl e
                  | Inr (provisions, report) \<Rightarrow>
                      Inr \<lparr>ed_from_day = from_day, ed_to_day = to_day, ed_provisions = provisions,
                           ed_non_claims = EDITION_DELTA_NON_CLAIMS, ed_dedup_report = report\<rparr>))"

section \<open>Read models listed by target\<close>

definition events_of :: "(three_canon_record \<Rightarrow> bool) \<Rightarrow> three_canon_record list \<Rightarrow> component_id \<Rightarrow> three_canon_record list" where
  "events_of keep rs c = filter (\<lambda>r. keep r \<and> rec_target r = c) rs"

definition targets_of :: "(three_canon_record \<Rightarrow> bool) \<Rightarrow> three_canon_record list \<Rightarrow> component_id set" where
  "targets_of keep rs = rec_target ` {r \<in> set rs. keep r}"

definition effective_by :: "int \<Rightarrow> three_canon_record \<Rightarrow> bool" where
  "effective_by t r = (is_canon_event r \<and> rec_effect_day r \<le> t)"

lemma events_of_empty_iff: "events_of keep rs c = [] \<longleftrightarrow> c \<notin> targets_of keep rs"
  by (auto simp: events_of_def targets_of_def filter_empty_conv)

lemma finite_targets [simp]: "finite (targets_of keep rs)"
  by (simp add: targets_of_def)

text \<open>The hash map of the grouping loop holds exactly the chain of each target.\<close>

lemma group_where_get:
  "hm_get (group_where keep rs m) c =
     (case hm_get m c of
        None \<Rightarrow> (if events_of keep rs c = [] then None else Some (events_of keep rs c))
      | Some xs \<Rightarrow> Some (xs @ events_of keep rs c))"
proof (induction rs arbitrary: m)
  case Nil
  then show ?case by (simp add: events_of_def split: option.splits)
next
  case (Cons r rs)
  then show ?case by (auto simp: events_of_def Let_def split: option.splits)
qed

lemma group_where_wf: "hm_wf m \<Longrightarrow> hm_wf (group_where keep rs m)"
  by (induction rs arbitrary: m) (auto simp: Let_def)

lemma group_where_get_empty:
  "hm_get (group_where keep rs []) c =
     (if c \<in> targets_of keep rs then Some (events_of keep rs c) else None)"
  by (simp add: group_where_get events_of_empty_iff)

lemma group_where_keys: "set (hm_keys (group_where keep rs [])) = targets_of keep rs"
proof -
  have "c \<in> set (hm_keys (group_where keep rs [])) \<longleftrightarrow> c \<in> targets_of keep rs" for c
    by (simp add: hm_contains_keys [symmetric] hm_contains_def group_where_get_empty)
  then show ?thesis by blast
qed

lemma hm_entries: "hm_wf m \<Longrightarrow> (k, v) \<in> set m \<longleftrightarrow> hm_get m k = Some v"
  by (simp add: hm_wf_def hm_get_def)

text \<open>Sorting by a unique key lists the elements by the increasing keys.\<close>

lemma sort_key_by_target:
  fixes key :: "'a \<Rightarrow> 'k :: linorder"
  assumes dist: "distinct (map key xs)" and el: "\<And>x. x \<in> set xs \<Longrightarrow> x = mk (key x)"
  shows "sort_key key xs = map mk (sorted_list_of_set (key ` set xs))"
proof -
  define ys where "ys = sort_key key xs"
  have "sorted (map key ys)" "distinct (map key ys)" "set (map key ys) = key ` set xs"
    using dist by (simp_all add: ys_def distinct_map)
  then have "map key ys = sorted_list_of_set (key ` set xs)"
    by (metis sorted_list_of_set.idem_if_sorted_distinct)
  moreover have "map (\<lambda>x. mk (key x)) ys = ys"
    by (rule map_idI) (simp add: ys_def el [symmetric])
  then have "map mk (map key ys) = ys" by (simp add: comp_def)
  ultimately show ?thesis by (simp add: ys_def)
qed

section \<open>Checkout: normal form\<close>

definition provision_at :: "three_canon_record list \<Rightarrow> int \<Rightarrow> component_id \<Rightarrow> provision_checkout" where
  "provision_at rs t c = checkout_provision (c, events_of (effective_by t) rs c)"

lemma pc_target_checkout [simp]: "pc_target (checkout_provision e) = fst e"
  by (simp add: checkout_provision_def Let_def case_prod_beta)

lemma provision_at_fields [simp]:
  "pc_target (provision_at rs t c) = c"
  "pc_events (provision_at rs t c) = events_of (effective_by t) rs c"
  "pc_force_status (provision_at rs t c) = fst (force_readout (events_of (effective_by t) rs c))"
  "pc_force_conflict (provision_at rs t c) = snd (force_readout (events_of (effective_by t) rs c))"
  by (simp_all add: provision_at_def checkout_provision_def Let_def case_prod_beta)

lemma effective_by_eta: "(\<lambda>r. is_canon_event r \<and> rec_effect_day r \<le> t) = effective_by t"
  by (simp add: effective_by_def fun_eq_iff)

lemma checkout_normal_form:
  assumes "days_sorted (tl_records log)"
  shows "checkout_projection_at log t =
     Inr \<lparr>cp_as_of_day = t,
          cp_provisions = map (provision_at (tl_records log) t)
            (sorted_list_of_set (targets_of (effective_by t) (tl_records log))),
          cp_non_claims = CHECKOUT_NON_CLAIMS\<rparr>"
proof -
  define g where "g = group_where (effective_by t) (tl_records log) []"
  have wf: "hm_wf g" by (simp add: g_def group_where_wf)
  have "sort_key pc_target (map checkout_provision g) =
      map (provision_at (tl_records log) t) (sorted_list_of_set (pc_target ` set (map checkout_provision g)))"
  proof (rule sort_key_by_target)
    show "distinct (map pc_target (map checkout_provision g))"
      using wf by (simp add: hm_wf_def comp_def)
    fix x assume "x \<in> set (map checkout_provision g)"
    then obtain c es where x: "x = checkout_provision (c, es)" and "(c, es) \<in> set g" by auto
    then have "hm_get g c = Some es" using wf by (simp add: hm_entries)
    then have "es = events_of (effective_by t) (tl_records log) c"
      by (auto simp: g_def group_where_get_empty split: if_splits)
    with x show "x = provision_at (tl_records log) t (pc_target x)" by (simp add: provision_at_def)
  qed
  moreover have "pc_target ` set (map checkout_provision g) = set (hm_keys g)"
    by (simp add: hm_keys_def image_image)
  ultimately show ?thesis
    using assms by (simp add: checkout_projection_at_def effective_by_eta g_def [symmetric]
      group_where_keys [of "effective_by t" "tl_records log", folded g_def])
qed

lemma checkout_error:
  "\<not> days_sorted (tl_records log) \<Longrightarrow> checkout_projection_at log t = Inl TC_OrderingConflict"
  by (simp add: checkout_projection_at_def)

lemma force_readout_Nil [simp]: "force_readout [] = (Unknown, False)"
  by (simp add: force_readout_def)

lemma find_map_key:
  "distinct cs \<Longrightarrow> (\<And>c. key (mk c) = c) \<Longrightarrow>
     find (\<lambda>p. key p = c) (map mk cs) = (if c \<in> set cs then Some (mk c) else None)"
  by (induction cs) auto

text \<open>The boundary lookup is the readout of the target's own chain, missing or not.\<close>

lemma boundary_readout_normal:
  assumes "checkout_projection_at log t = Inr cp"
  shows "boundary_readout cp c = force_readout (events_of (effective_by t) (tl_records log) c)"
proof -
  have "days_sorted (tl_records log)" using assms checkout_error by fastforce
  with assms have cp: "cp_provisions cp = map (provision_at (tl_records log) t)
      (sorted_list_of_set (targets_of (effective_by t) (tl_records log)))"
    by (auto simp: checkout_normal_form)
  show ?thesis
    using events_of_empty_iff [of "effective_by t" "tl_records log" c]
    by (auto simp: boundary_readout_def cp find_map_key)
qed

section \<open>Delta: normal form\<close>

definition line_at :: "three_canon_record list \<Rightarrow> int \<Rightarrow> int \<Rightarrow> component_id \<Rightarrow> kept_provision_line" where
  "line_at rs a b c =
     \<lparr>kl_target = c,
      kl_force_from = fst (force_readout (events_of (effective_by a) rs c)),
      kl_force_to = fst (force_readout (events_of (effective_by b) rs c)),
      kl_force_conflict_from = snd (force_readout (events_of (effective_by a) rs c)),
      kl_force_conflict_to = snd (force_readout (events_of (effective_by b) rs c)),
      kl_events = events_of (in_window a b) rs c\<rparr>"

text \<open>Without window evidence for a target its chain, hence its readout, does not move.\<close>

lemma no_window_same_chain:
  assumes "a \<le> b" "events_of (in_window a b) rs c = []"
  shows "events_of (effective_by b) rs c = events_of (effective_by a) rs c"
  unfolding events_of_def
  by (rule filter_cong)
    (use assms in \<open>auto simp: events_of_def filter_empty_conv in_window_def effective_by_def not_less\<close>)

lemma keep_line_normal:
  assumes "a \<le> b" "checkout_projection_at log a = Inr ca" "checkout_projection_at log b = Inr cb"
  shows "keep_line ca cb (group_where (in_window a b) (tl_records log) []) c =
     (if c \<in> targets_of (in_window a b) (tl_records log) then Some (line_at (tl_records log) a b c) else None)"
proof (cases "c \<in> targets_of (in_window a b) (tl_records log)")
  case True
  then have "events_of (in_window a b) (tl_records log) c \<noteq> []" by (simp add: events_of_empty_iff)
  with True show ?thesis
    by (simp add: keep_line_def boundary_readout_normal [OF assms(2)] boundary_readout_normal [OF assms(3)]
      group_where_get_empty line_at_def case_prod_beta Let_def)
next
  case False
  then have "events_of (in_window a b) (tl_records log) c = []" by (simp add: events_of_empty_iff)
  from no_window_same_chain [OF assms(1) this] False show ?thesis
    by (simp add: keep_line_def boundary_readout_normal [OF assms(2)] boundary_readout_normal [OF assms(3)]
      group_where_get_empty case_prod_beta Let_def)
qed

lemma map_filter_if:
  "(\<And>c. f c = (if c \<in> S then Some (g c) else None)) \<Longrightarrow>
     List.map_filter f xs = map g (filter (\<lambda>c. c \<in> S) xs)"
  by (induction xs) (auto simp: map_filter_simps)

lemma targets_window_subset: "targets_of (in_window a b) rs \<subseteq> targets_of (effective_by b) rs"
  by (auto simp: targets_of_def in_window_def effective_by_def)

text \<open>The kept lines are those with window evidence, by increasing target.\<close>

lemma kept_normal_form:
  assumes "a \<le> b" "checkout_projection_at log a = Inr ca" "checkout_projection_at log b = Inr cb"
  defines "W \<equiv> targets_of (in_window a b) (tl_records log)"
    and "win \<equiv> group_where (in_window a b) (tl_records log) []"
  shows "sort_key kl_target (List.map_filter (keep_line ca cb win)
       (push_unknown (push_unknown (map pc_target (cp_provisions ca)) (map pc_target (cp_provisions cb)))
          (hm_keys win))) =
     map (line_at (tl_records log) a b) (sorted_list_of_set W)"
proof -
  define ts where "ts = push_unknown (push_unknown (map pc_target (cp_provisions ca))
      (map pc_target (cp_provisions cb))) (hm_keys win)"
  have "days_sorted (tl_records log)" using assms(2) checkout_error by fastforce
  with assms(2) have "distinct (map pc_target (cp_provisions ca))"
    by (auto simp: checkout_normal_form comp_def)
  then have dts: "distinct ts" by (simp add: ts_def distinct_push_unknown)
  have Wts: "W \<subseteq> set ts" by (simp add: ts_def win_def W_def group_where_keys)
  have kept: "List.map_filter (keep_line ca cb win) ts =
      map (line_at (tl_records log) a b) (filter (\<lambda>c. c \<in> W) ts)"
    unfolding win_def W_def by (rule map_filter_if) (rule keep_line_normal [OF assms(1-3)])
  have tgt: "kl_target (line_at rs a b c) = c" for rs c by (simp add: line_at_def)
  have "sort_key kl_target (map (line_at (tl_records log) a b) (filter (\<lambda>c. c \<in> W) ts)) =
      map (line_at (tl_records log) a b)
        (sorted_list_of_set (kl_target ` set (map (line_at (tl_records log) a b) (filter (\<lambda>c. c \<in> W) ts))))"
    by (rule sort_key_by_target) (auto simp: comp_def tgt dts)
  also have "kl_target ` set (map (line_at (tl_records log) a b) (filter (\<lambda>c. c \<in> W) ts)) = W"
    using Wts by (auto simp: image_image tgt)
  finally show ?thesis by (simp add: ts_def [symmetric] kept)
qed

lemma edition_delta_normal_form:
  assumes "days_sorted (tl_records log)" "a \<le> b"
  shows "edition_delta log a b admissions =
     (case provenance_gate admissions
        (map (line_at (tl_records log) a b) (sorted_list_of_set (targets_of (in_window a b) (tl_records log))))
        \<lparr>dd_amending_act_duplicates = 0, dd_delta_evidence_duplicates = 0\<rparr> of
        Inl e \<Rightarrow> Inl e
      | Inr (provisions, report) \<Rightarrow>
          Inr \<lparr>ed_from_day = a, ed_to_day = b, ed_provisions = provisions,
               ed_non_claims = EDITION_DELTA_NON_CLAIMS, ed_dedup_report = report\<rparr>)"
proof -
  obtain ca cb where c: "checkout_projection_at log a = Inr ca" "checkout_projection_at log b = Inr cb"
    using assms(1) by (auto simp: checkout_normal_form)
  show ?thesis
    using assms(2) c kept_normal_form [OF assms(2) c] by (simp add: edition_delta_def Let_def)
qed

section \<open>The gate\<close>

definition line_resolves :: "provenance_admission list \<Rightarrow> kept_provision_line \<Rightarrow> bool" where
  "line_resolves admissions line =
     (\<exists>ad. find (\<lambda>a. ad_target a = kl_target line) admissions = Some ad \<and>
        ad_evidence_class ad \<noteq> EditorialHint \<and> valid_id MAX_ID_LEN (str_trim (ad_rule_ref ad)) \<and>
        List.map_filter amendment_act (kl_events line) \<noteq> [])"

definition line_of_delta :: "provision_delta \<Rightarrow> kept_provision_line" where
  "line_of_delta d = \<lparr>kl_target = pd_target d, kl_force_from = pd_force_from d,
     kl_force_to = pd_force_to d, kl_force_conflict_from = pd_force_conflict_from d,
     kl_force_conflict_to = pd_force_conflict_to d, kl_events = pd_events d\<rparr>"

lemma remdups_adj_sort_set: "remdups_adj (sort xs) = sorted_list_of_set (set xs)" for xs :: "string list"
  by (metis remdups_adj_set remdups_adj_sorted_distinct set_sort sorted_list_of_set.idem_if_sorted_distinct
    sorted_remdups_adj sorted_sort)

lemma map_filter_nonempty: "List.map_filter f xs \<noteq> [] \<Longrightarrow> xs \<noteq> []"
  by (auto simp: map_filter_simps)

text \<open>
  The envelope of a line exists exactly when its admission carries proven commencement and its
  window names an amending act; then it lists the acts, the line's target and the record ids,
  each once and in order.
\<close>

lemma sorted_list_of_set_Nil_iff: "finite A \<Longrightarrow> sorted_list_of_set A = [] \<longleftrightarrow> A = {}"
  by (metis set_sorted_list_of_set set_empty)

lemma edition_delta_envelope_Inr:
  "(\<exists>report. edition_delta_envelope c events ad = Inr (en, report)) \<longleftrightarrow>
     ad_evidence_class ad \<noteq> EditorialHint \<and> valid_id MAX_ID_LEN (str_trim (ad_rule_ref ad)) \<and>
     List.map_filter amendment_act events \<noteq> [] \<and>
     en = \<lparr>en_amending_acts = sorted_list_of_set (set (List.map_filter amendment_act events)),
           en_affected_provisions = [c],
           en_commencement = \<lparr>cm_effect_day = ad_effect_day ad,
             cm_evidence_class = ad_evidence_class ad, cm_rule_ref = str_trim (ad_rule_ref ad)\<rparr>,
           en_transitional = ad_transitional ad,
           en_delta_evidence = sorted_list_of_set (rec_record_id ` set events)\<rparr>"
proof -
  define acts where "acts = List.map_filter amendment_act events"
  have srt: "sort (sorted_list_of_set A) = sorted_list_of_set A" for A :: "string set"
    by (simp add: sorted_sort_id)
  have "acts \<noteq> [] \<Longrightarrow> events \<noteq> []" unfolding acts_def by (rule map_filter_nonempty)
  then have env: "envelope_try_new (remdups_adj (sort acts)) [c] cm (ad_transitional ad)
        (remdups_adj (sort (map rec_record_id events))) = Inr en \<longleftrightarrow>
      acts \<noteq> [] \<and> en = \<lparr>en_amending_acts = sorted_list_of_set (set acts), en_affected_provisions = [c],
        en_commencement = cm, en_transitional = ad_transitional ad,
        en_delta_evidence = sorted_list_of_set (rec_record_id ` set events)\<rparr>" for cm
    by (auto simp: envelope_try_new_Inr remdups_adj_sort_set srt sorted_list_of_set_Nil_iff)
  have iff: "commencement_try_new (ad_effect_day ad) (ad_evidence_class ad) (ad_rule_ref ad) = Inr cm \<longleftrightarrow>
      ad_evidence_class ad \<noteq> EditorialHint \<and> valid_id MAX_ID_LEN (str_trim (ad_rule_ref ad)) \<and>
      cm = \<lparr>cm_effect_day = ad_effect_day ad, cm_evidence_class = ad_evidence_class ad,
            cm_rule_ref = str_trim (ad_rule_ref ad)\<rparr>" for cm
    by (rule commencement_try_new_Inr)
  have env_out: "(\<exists>report. edition_delta_envelope c events ad = Inr (en, report)) \<longleftrightarrow>
      (\<exists>cm. commencement_try_new (ad_effect_day ad) (ad_evidence_class ad) (ad_rule_ref ad) = Inr cm \<and>
        envelope_try_new (remdups_adj (sort acts)) [c] cm (ad_transitional ad)
          (remdups_adj (sort (map rec_record_id events))) = Inr en)"
    unfolding edition_delta_envelope_def Let_def acts_def [symmetric]
    by (simp split: sum.split)
  show ?thesis unfolding env_out env iff acts_def [symmetric] by blast
qed

lemma line_resolves_envelope:
  "line_resolves admissions line \<longleftrightarrow>
     (\<exists>ad out. find (\<lambda>a. ad_target a = kl_target line) admissions = Some ad \<and>
        edition_delta_envelope (kl_target line) (kl_events line) ad = Inr out)"
proof -
  have "(\<exists>out. edition_delta_envelope c es ad = Inr out) \<longleftrightarrow>
      ad_evidence_class ad \<noteq> EditorialHint \<and> valid_id MAX_ID_LEN (str_trim (ad_rule_ref ad)) \<and>
      List.map_filter amendment_act es \<noteq> []" for c es ad
    using edition_delta_envelope_Inr [of c es ad] by (metis prod.exhaust)
  then show ?thesis by (auto simp: line_resolves_def)
qed

lemma provenance_gate_Inr:
  "(\<exists>out. provenance_gate admissions lines report = Inr out) \<longleftrightarrow> list_all (line_resolves admissions) lines"
proof (induction lines arbitrary: report)
  case (Cons line lines)
  show ?case
  proof (cases "line_resolves admissions line")
    case True
    then obtain ad en r where "find (\<lambda>a. ad_target a = kl_target line) admissions = Some ad"
      "edition_delta_envelope (kl_target line) (kl_events line) ad = Inr (en, r)"
      by (auto simp: line_resolves_envelope)
    note this [simp]
    define r' where "r' = \<lparr>dd_amending_act_duplicates =
        dd_amending_act_duplicates report + dd_amending_act_duplicates r,
      dd_delta_evidence_duplicates =
        dd_delta_evidence_duplicates report + dd_delta_evidence_duplicates r\<rparr>"
    have "(\<exists>out. provenance_gate admissions (line # lines) report = Inr out) \<longleftrightarrow>
        (\<exists>out. provenance_gate admissions lines r' = Inr out)"
      by (simp add: Let_def r'_def [symmetric] split: sum.split)
    with True Cons.IH [of r'] show ?thesis by simp
  next
    case False
    then show ?thesis
      by (auto simp: line_resolves_envelope Let_def split: option.splits sum.splits)
  qed
qed simp

lemma provenance_gate_lines:
  "provenance_gate admissions lines report = Inr (deltas, report') \<Longrightarrow>
     map line_of_delta deltas = lines \<and>
     (\<forall>d \<in> set deltas. \<exists>ad r. find (\<lambda>a. ad_target a = pd_target d) admissions = Some ad \<and>
        edition_delta_envelope (pd_target d) (pd_events d) ad = Inr (pd_provenance d, r))"
proof (induction lines arbitrary: report deltas report')
  case (Cons line lines)
  then obtain ad en r ds report'' where
    "find (\<lambda>a. ad_target a = kl_target line) admissions = Some ad"
    "edition_delta_envelope (kl_target line) (kl_events line) ad = Inr (en, r)"
    "provenance_gate admissions lines report'' = Inr (ds, report')"
    "deltas = \<lparr>pd_target = kl_target line, pd_force_from = kl_force_from line,
       pd_force_to = kl_force_to line, pd_force_conflict_from = kl_force_conflict_from line,
       pd_force_conflict_to = kl_force_conflict_to line, pd_events = kl_events line,
       pd_provenance = en\<rparr> # ds"
    by (auto simp: Let_def split: option.splits sum.splits prod.splits)
  with Cons.IH show ?case by (force simp: line_of_delta_def)
qed simp

section \<open>Properties\<close>

lemma reachable_sorted: "log_reachable log \<Longrightarrow> days_sorted (tl_records log)"
  using log_reachable_wf by (simp add: log_wf_def)

text \<open>The part of a log that is about one component.\<close>

definition log_of :: "three_canon_event_log \<Rightarrow> component_id \<Rightarrow> three_canon_event_log" where
  "log_of log c = \<lparr>tl_records = filter (\<lambda>r. rec_target r = c) (tl_records log)\<rparr>"

lemma days_sorted_filter: "days_sorted rs \<Longrightarrow> days_sorted (filter P rs)"
  unfolding days_sorted_def by (rule sorted_filter)

text \<open>The checkout of a reachable log isolates components: its provisions are exactly the components
with a canon event up to the day, in increasing order, and each provision is the three-canon projection of
that component's own records, unaffected by any other component's events or conflicts.\<close>

theorem checkout_isolates_components:
  assumes "log_reachable log"
  shows "\<exists>cp. checkout_projection_at log t = Inr cp \<and> cp_as_of_day cp = t \<and>
    map pc_target (cp_provisions cp) = sorted_list_of_set (targets_of (effective_by t) (tl_records log)) \<and>
    (\<forall>p \<in> set (cp_provisions cp). \<exists>q. fold_three_canon_at (log_of log (pc_target p)) t = Inr q \<and>
       pc_events p = tp_events q \<and> pc_force_status p = tp_force_status q \<and>
       pc_force_conflict p = tp_force_conflict q)"
proof -
  note s = reachable_sorted [OF assms]
  have "events_of (effective_by t) (tl_records log) c = canon_until t (tl_records (log_of log c))" for c
    by (auto simp: events_of_def canon_until_def log_of_def effective_by_def intro: filter_cong)
  moreover have "days_sorted (tl_records (log_of log c))" for c
    using s by (simp add: log_of_def days_sorted_filter)
  ultimately show ?thesis
    by (auto simp: checkout_normal_form [OF s] fold_three_canon_wf comp_def)
qed

text \<open>Targets never drop out: a component in the checkout at one day is in it at every later day.\<close>

theorem checkout_targets_monotone:
  assumes "checkout_projection_at log a = Inr ca" "checkout_projection_at log b = Inr cb" "a \<le> b"
  shows "set (map pc_target (cp_provisions ca)) \<subseteq> set (map pc_target (cp_provisions cb))"
proof -
  have s: "days_sorted (tl_records log)" using assms(1) checkout_error by fastforce
  have "targets_of (effective_by a) rs \<subseteq> targets_of (effective_by b) rs" for rs
    using assms(3) by (auto simp: targets_of_def effective_by_def)
  from subsetD [OF this [of "tl_records log"]] show ?thesis
    using assms(1,2) by (auto simp: checkout_normal_form [OF s] image_image)
qed

text \<open>C2. \<open>edition_delta\<close> is all or nothing: on a reachable log it succeeds exactly when the window is not
inverted and every component with an event in the window has an admission with proven commencement and an
amending act in the window; otherwise the whole call is refused.\<close>

theorem edition_delta_success_iff:
  assumes "log_reachable log"
  shows "(\<exists>d. edition_delta log a b admissions = Inr d) \<longleftrightarrow>
     a \<le> b \<and> (\<forall>c \<in> targets_of (in_window a b) (tl_records log).
       line_resolves admissions (line_at (tl_records log) a b c))"
proof (cases "a \<le> b")
  case True
  note nf = edition_delta_normal_form [OF reachable_sorted [OF assms] True, of admissions]
  have "(\<exists>d. edition_delta log a b admissions = Inr d) \<longleftrightarrow>
      (\<exists>out. provenance_gate admissions
        (map (line_at (tl_records log) a b) (sorted_list_of_set (targets_of (in_window a b) (tl_records log))))
        \<lparr>dd_amending_act_duplicates = 0, dd_delta_evidence_duplicates = 0\<rparr> = Inr out)"
    unfolding nf by (auto split: sum.split prod.split)
  also have "\<dots> \<longleftrightarrow> list_all (line_resolves admissions)
      (map (line_at (tl_records log) a b) (sorted_list_of_set (targets_of (in_window a b) (tl_records log))))"
    by (rule provenance_gate_Inr)
  finally show ?thesis using True by (simp add: list_all_iff)
next
  case False
  then show ?thesis by (simp add: edition_delta_def)
qed

text \<open>C3. The lines of a delta are exactly the components with an event in the half-open window, in
increasing order; each line carries that component's window events, the force readouts at both ends, and a
complete provenance packet that names the line's own component, the amending acts and the records of the window and nothing else.\<close>

theorem edition_delta_lines:
  assumes "log_reachable log" "edition_delta log a b admissions = Inr d"
  shows "map pd_target (ed_provisions d) = sorted_list_of_set (targets_of (in_window a b) (tl_records log)) \<and>
    (\<forall>p \<in> set (ed_provisions d).
       line_of_delta p = line_at (tl_records log) a b (pd_target p) \<and>
       en_affected_provisions (pd_provenance p) = [pd_target p] \<and>
       set (en_amending_acts (pd_provenance p)) = set (List.map_filter amendment_act (pd_events p)) \<and>
       en_amending_acts (pd_provenance p) \<noteq> [] \<and>
       set (en_delta_evidence (pd_provenance p)) = rec_record_id ` set (pd_events p) \<and>
       cm_evidence_class (en_commencement (pd_provenance p)) \<noteq> EditorialHint)"
proof -
  have ab: "a \<le> b" using assms(2) by (auto simp: edition_delta_def split: if_splits)
  let ?lines = "map (line_at (tl_records log) a b) (sorted_list_of_set (targets_of (in_window a b) (tl_records log)))"
  obtain report where gate: "provenance_gate admissions ?lines
      \<lparr>dd_amending_act_duplicates = 0, dd_delta_evidence_duplicates = 0\<rparr> = Inr (ed_provisions d, report)"
    using assms(2) unfolding edition_delta_normal_form [OF reachable_sorted [OF assms(1)] ab]
    by (auto split: sum.splits prod.splits)
  note g = provenance_gate_lines [OF gate]
  have tgt: "pd_target p = kl_target (line_of_delta p)" for p by (simp add: line_of_delta_def)
  have "map pd_target (ed_provisions d) = map kl_target (map line_of_delta (ed_provisions d))"
    by (simp add: tgt)
  also have "\<dots> = map kl_target ?lines" using g by simp
  finally have targets: "map pd_target (ed_provisions d) = sorted_list_of_set (targets_of (in_window a b) (tl_records log))"
    by (simp add: line_at_def comp_def)
  have line: "line_of_delta p = line_at (tl_records log) a b (pd_target p)" if p: "p \<in> set (ed_provisions d)" for p
  proof -
    have "line_of_delta p \<in> set (map line_of_delta (ed_provisions d))" using p by simp
    then have "line_of_delta p \<in> set ?lines" using g by simp
    then obtain c where c: "line_of_delta p = line_at (tl_records log) a b c" by auto
    then have "pd_target p = c" unfolding tgt by (simp add: line_at_def)
    with c show ?thesis by simp
  qed
  have packet: "\<exists>ad :: provenance_admission. ad_evidence_class ad \<noteq> EditorialHint \<and> List.map_filter amendment_act (pd_events p) \<noteq> [] \<and>
      pd_provenance p = \<lparr>en_amending_acts = sorted_list_of_set (set (List.map_filter amendment_act (pd_events p))),
           en_affected_provisions = [pd_target p],
           en_commencement = \<lparr>cm_effect_day = ad_effect_day ad,
             cm_evidence_class = ad_evidence_class ad, cm_rule_ref = str_trim (ad_rule_ref ad)\<rparr>,
           en_transitional = ad_transitional ad,
           en_delta_evidence = sorted_list_of_set (rec_record_id ` set (pd_events p))\<rparr>"
    if "p \<in> set (ed_provisions d)" for p
  proof -
    obtain ad r where "edition_delta_envelope (pd_target p) (pd_events p) ad = Inr (pd_provenance p, r)"
      using g \<open>p \<in> set (ed_provisions d)\<close> by blast
    from iffD1 [OF edition_delta_envelope_Inr, OF exI, OF this] show ?thesis
      by blast
  qed
  show ?thesis
  proof (intro conjI targets ballI)
    fix p assume p: "p \<in> set (ed_provisions d)"
    then show "line_of_delta p = line_at (tl_records log) a b (pd_target p)" by (rule line)
    obtain ad :: provenance_admission where ad: "ad_evidence_class ad \<noteq> EditorialHint" "List.map_filter amendment_act (pd_events p) \<noteq> []"
      "pd_provenance p = \<lparr>en_amending_acts = sorted_list_of_set (set (List.map_filter amendment_act (pd_events p))),
           en_affected_provisions = [pd_target p],
           en_commencement = \<lparr>cm_effect_day = ad_effect_day ad,
             cm_evidence_class = ad_evidence_class ad, cm_rule_ref = str_trim (ad_rule_ref ad)\<rparr>,
           en_transitional = ad_transitional ad,
           en_delta_evidence = sorted_list_of_set (rec_record_id ` set (pd_events p))\<rparr>"
      using packet [OF p] by blast
    show "en_affected_provisions (pd_provenance p) = [pd_target p]"
      "set (en_amending_acts (pd_provenance p)) = set (List.map_filter amendment_act (pd_events p))"
      "set (en_delta_evidence (pd_provenance p)) = rec_record_id ` set (pd_events p)"
      "cm_evidence_class (en_commencement (pd_provenance p)) \<noteq> EditorialHint"
      by (simp_all add: ad(1,3))
    show "en_amending_acts (pd_provenance p) \<noteq> []"
      using ad(2) by (simp add: ad(3) sorted_list_of_set_Nil_iff)
  qed
qed

text \<open>Adjacent windows compose: the components changed in \<open>(a, c]\<close> are those changed in \<open>(a, b]\<close> or in
\<open>(b, c]\<close>, and a component's window events are those of the first window followed by those of the second.\<close>

theorem edition_delta_windows_compose:
  assumes "log_reachable log" "a \<le> b" "b \<le> c"
  shows "targets_of (in_window a c) (tl_records log) =
      targets_of (in_window a b) (tl_records log) \<union> targets_of (in_window b c) (tl_records log) \<and>
    kl_events (line_at (tl_records log) a c x) =
      kl_events (line_at (tl_records log) a b x) @ kl_events (line_at (tl_records log) b c x)"
proof -
  have split: "filter (\<lambda>r. in_window a c r \<and> P r) rs =
      filter (\<lambda>r. in_window a b r \<and> P r) rs @ filter (\<lambda>r. in_window b c r \<and> P r) rs"
    if "days_sorted rs" for P rs
    using that
  proof (induction rs)
    case (Cons r rs)
    then have IH: "filter (\<lambda>r. in_window a c r \<and> P r) rs =
      filter (\<lambda>r. in_window a b r \<and> P r) rs @ filter (\<lambda>r. in_window b c r \<and> P r) rs"
      and le: "\<forall>q \<in> set rs. rec_effect_day r \<le> rec_effect_day q" by (auto simp: days_sorted_def)
    show ?case
    proof (cases "b < rec_effect_day r")
      case True
      then have "filter (\<lambda>r. in_window a b r \<and> P r) rs = []"
        using le by (auto simp: filter_empty_conv in_window_def)
      with IH True assms(2,3) show ?thesis by (auto simp: in_window_def)
    next
      case False
      with IH assms(2,3) show ?thesis by (auto simp: in_window_def)
    qed
  qed simp
  have "targets_of (in_window a c) (tl_records log) =
      targets_of (in_window a b) (tl_records log) \<union> targets_of (in_window b c) (tl_records log)"
    using assms(2,3) by (fastforce simp: targets_of_def in_window_def)
  then show ?thesis
    using split [OF reachable_sorted [OF assms(1)], of "\<lambda>r. rec_target r = x"]
    by (simp add: line_at_def events_of_def)
qed

section \<open>Agreement with the force resolver\<close>

text \<open>The force timeline that a log's records amount to.\<close>

definition timeline_of :: "three_canon_record list \<Rightarrow> force_status_timeline" where
  "timeline_of records = \<lparr>ft_events = List.map_filter
     (\<lambda>r. map_option (\<lambda>s. \<lparr>fe_component = rec_target r, fe_status = s, fe_effect_day = rec_effect_day r,
        fe_provenance = rec_record_id r\<rparr>) (force_outcome r)) records\<rparr>"

lemma oracle_no_outcome: "\<not> is_canon_event r \<Longrightarrow> force_outcome r = None"
  by (cases r) auto

lemma history_of_timeline:
  "force_history (ft_events (timeline_of rs)) c t = dated_outcomes (events_of (effective_by t) rs c)"
proof (induction rs)
  case (Cons r rs)
  then show ?case
    using oracle_no_outcome [of r]
    by (cases "force_outcome r")
      (auto simp: force_history_def timeline_of_def events_of_def effective_by_def map_filter_simps)
qed (simp add: force_history_def timeline_of_def events_of_def map_filter_simps)

text \<open>C35. Two independent implementations of the force status agree: the checkout's readout of a component is
what \<open>resolve_force_status_at\<close> answers on the force timeline made of the log's own outcomes.\<close>

theorem checkout_agrees_with_resolver:
  assumes "checkout_projection_at log t = Inr cp" "c \<noteq> []"
  shows "resolve_force_status_at (timeline_of (tl_records log)) c t =
    Inr (force_resolution c t (fst (boundary_readout cp c)) (snd (boundary_readout cp c)))"
  using resolve_force_status_spec [OF assms(2)]
  by (simp add: boundary_readout_normal [OF assms(1)] force_readout_spec history_of_timeline Let_def)

section \<open>Witnesses\<close>

definition entry_amendment :: amendment_event where
  "entry_amendment = \<lparr>am_record_id = ''r1'', am_target = ''a'', am_effect_day = 3, am_provenance = ''act:1'',
     am_evidence = Legislative, am_facets = [Force], am_force_transition = Some InForce\<rparr>"

definition walk_log :: three_canon_event_log where
  "walk_log = \<lparr>tl_records = [Amendment entry_amendment]\<rparr>"

definition walk_admission :: provenance_admission where
  "walk_admission = \<lparr>ad_target = ''a'', ad_effect_day = 3, ad_evidence_class = Legislative,
     ad_rule_ref = ''rule:1'', ad_transitional = Declared ''t:1''\<rparr>"

lemma walk_log_reachable: "log_reachable walk_log"
proof -
  have "amendment_try_new ''r1'' ''a'' 3 ''act:1'' Legislative [Force] (Some InForce) = Inr entry_amendment"
    by (simp add: amendment_try_new_def entry_amendment_def is_transition_target_def)
  then show ?thesis
    by (intro reach_append [OF reach_empty con_amendment])
      (simp_all add: three_canon_append_Inr three_canon_empty_def walk_log_def)
qed

lemma walk_targets: "targets_of (in_window 0 5) (tl_records walk_log) = {''a''}"
proof -
  have "{r. r = Amendment entry_amendment \<and> in_window 0 5 r} = {Amendment entry_amendment}"
    by (auto simp: in_window_def entry_amendment_def)
  then show ?thesis by (simp add: targets_of_def walk_log_def) (simp add: entry_amendment_def)
qed

lemma walk_resolves: "line_resolves [walk_admission] (line_at (tl_records walk_log) 0 5 ''a'')"
proof -
  have "valid_id MAX_ID_LEN (str_trim ''rule:1'')" by code_simp
  then show ?thesis
    by (simp add: line_resolves_def line_at_def walk_log_def walk_admission_def events_of_def in_window_def
        entry_amendment_def map_filter_simps)
qed

theorem edition_delta_success_iff_witness: "\<exists>d. edition_delta walk_log 0 5 [walk_admission] = Inr d"
  using edition_delta_success_iff [OF walk_log_reachable, of 0 5 "[walk_admission]"] walk_targets walk_resolves
  by simp

lemma walk_delta:
  obtains d where "edition_delta walk_log 0 5 [walk_admission] = Inr d"
proof -
  have "list_all (line_resolves [walk_admission])
      (map (line_at (tl_records walk_log) 0 5) (sorted_list_of_set (targets_of (in_window 0 5) (tl_records walk_log))))"
    by (simp add: walk_targets walk_resolves)
  then obtain out where "provenance_gate [walk_admission]
      (map (line_at (tl_records walk_log) 0 5) (sorted_list_of_set (targets_of (in_window 0 5) (tl_records walk_log))))
      \<lparr>dd_amending_act_duplicates = 0, dd_delta_evidence_duplicates = 0\<rparr> = Inr out"
    using provenance_gate_Inr by blast
  then show thesis
    using that by (cases out) (simp add: edition_delta_normal_form [OF reachable_sorted [OF walk_log_reachable]])
qed

theorem edition_delta_lines_witness:
  "\<exists>d. edition_delta walk_log 0 5 [walk_admission] = Inr d \<and> map pd_target (ed_provisions d) = [''a'']"
proof -
  obtain d where d: "edition_delta walk_log 0 5 [walk_admission] = Inr d" by (rule walk_delta)
  from edition_delta_lines [OF walk_log_reachable d] d show ?thesis by (auto simp: walk_targets)
qed

theorem checkout_isolates_components_witness:
  "\<exists>cp. checkout_projection_at walk_log 5 = Inr cp \<and> map pc_target (cp_provisions cp) = [''a'']"
proof -
  have tg: "targets_of (effective_by 5) (tl_records walk_log) = {''a''}"
  proof -
    have "{r. r = Amendment entry_amendment \<and> effective_by 5 r} = {Amendment entry_amendment}"
      by (auto simp: effective_by_def entry_amendment_def)
    then show ?thesis by (simp add: targets_of_def walk_log_def) (simp add: entry_amendment_def)
  qed
  obtain cp where "checkout_projection_at walk_log 5 = Inr cp"
    "map pc_target (cp_provisions cp) = sorted_list_of_set (targets_of (effective_by 5) (tl_records walk_log))"
    using checkout_isolates_components [OF walk_log_reachable, of 5] by blast
  then show ?thesis unfolding tg by (intro exI [of _ cp]) simp
qed

lemma walk_checkouts:
  "\<exists>ca. checkout_projection_at walk_log t = Inr ca"
  using reachable_sorted [OF walk_log_reachable] by (simp add: checkout_normal_form)

theorem checkout_targets_monotone_witness:
  "\<exists>ca cb. checkout_projection_at walk_log 2 = Inr ca \<and> checkout_projection_at walk_log 5 = Inr cb \<and>
     set (map pc_target (cp_provisions ca)) \<subseteq> set (map pc_target (cp_provisions cb))"
proof -
  obtain ca cb where "checkout_projection_at walk_log 2 = Inr ca" "checkout_projection_at walk_log 5 = Inr cb"
    using walk_checkouts by blast
  with checkout_targets_monotone [OF this] show ?thesis by auto
qed

theorem edition_delta_windows_compose_witness:
  "targets_of (in_window 0 5) (tl_records walk_log) =
     targets_of (in_window 0 2) (tl_records walk_log) \<union> targets_of (in_window 2 5) (tl_records walk_log)"
  using edition_delta_windows_compose [OF walk_log_reachable, of 0 2 5] by simp

theorem checkout_agrees_with_resolver_witness:
  "\<exists>cp. checkout_projection_at walk_log 5 = Inr cp \<and>
     resolve_force_status_at (timeline_of (tl_records walk_log)) ''a'' 5 =
       Inr (force_resolution ''a'' 5 (fst (boundary_readout cp ''a'')) (snd (boundary_readout cp ''a'')))"
proof -
  obtain cp where "checkout_projection_at walk_log 5 = Inr cp" using walk_checkouts by blast
  with checkout_agrees_with_resolver [OF this, of "''a''"] show ?thesis by auto
qed

end
