(* ===== verification/LN_Calendar.thy ===== *)
theory LN_Calendar
  imports LN_Clocks "HOL-Library.Signed_Division"
begin

text \<open>
  The civil-day ordinal of \<open>crates/ln-temporal/src/calendar.rs\<close>: the bounds read from the
  ontology YAML (whose text is an argument), the ISO day parser, and Hinnant's conversion between
  civil dates and day numbers, in Rust's truncating division and narrowing casts. The lemmas
  prove the conversion inverse and strictly monotone for every valid date, and the ordinal of a day
  round trips through its string.
\<close>

section \<open>Machine arithmetic\<close>

definition i64_checked :: "int \<Rightarrow> int option" where
  "i64_checked n = (if -9223372036854775808 \<le> n \<and> n < 9223372036854775808 then Some n else None)"

text \<open>\<open>as i32\<close> and \<open>as u8\<close>: the low bits, read signed and unsigned.\<close>

definition as_i32 :: "int \<Rightarrow> int" where
  "as_i32 n = (n + 2147483648) mod 4294967296 - 2147483648"

definition as_u8 :: "int \<Rightarrow> int" where
  "as_u8 n = n mod 256"

lemma as_i32_id: "-2147483648 \<le> n \<Longrightarrow> n < 2147483648 \<Longrightarrow> as_i32 n = n"
  by (simp add: as_i32_def)

lemma as_u8_id: "0 \<le> n \<Longrightarrow> n < 256 \<Longrightarrow> as_u8 n = n"
  by (simp add: as_u8_def)

section \<open>Civil dates\<close>

record calendar_bounds =
  cb_min_year :: int
  cb_max_year :: int
  cb_epoch_year :: int
  cb_epoch_month :: int
  cb_epoch_day :: int

datatype calendar_error = CatalogMissing | InvalidIsoDay | CalOutOfBounds | ClockMismatch

definition is_leap_year :: "int \<Rightarrow> bool" where
  "is_leap_year year = (year smod 4 = 0 \<and> (year smod 100 \<noteq> 0 \<or> year smod 400 = 0))"

definition days_in_month :: "int \<Rightarrow> int \<Rightarrow> int" where
  "days_in_month year month =
     (if month \<in> set [1, 3, 5, 7, 8, 10, 12] then 31
      else if month \<in> set [4, 6, 9, 11] then 30
      else if month = 2 \<and> is_leap_year year then 29
      else if month = 2 then 28
      else 0)"

definition is_valid_civil_day :: "int \<Rightarrow> int \<Rightarrow> int \<Rightarrow> bool" where
  "is_valid_civil_day year month day = (1 \<le> day \<and> day \<le> days_in_month year month)"

text \<open>Hinnant's days-from-civil; the day is relative to 1970-01-01.\<close>

definition days_from_civil :: "int \<Rightarrow> int \<Rightarrow> int \<Rightarrow> int" where
  "days_from_civil year0 month day =
     (let year = (if month \<le> 2 then year0 - 1 else year0);
          era = (if year \<ge> 0 then year else year - 399) sdiv 400;
          year_of_era = year - era * 400;
          month_prime = (if month > 2 then month - 3 else month + 9);
          day_of_year = (153 * month_prime + 2) sdiv 5 + day - 1;
          day_of_era = year_of_era * 365 + year_of_era sdiv 4 - year_of_era sdiv 100 + day_of_year
      in era * 146097 + day_of_era - 719468)"

text \<open>
  The inverse. The first addition is the only one of the function that can leave \<open>i64\<close>; the casts to
  \<open>u64\<close> are of non-negative values; the final casts narrow.
\<close>

definition civil_from_days :: "int \<Rightarrow> (int \<times> int \<times> int) option" where
  "civil_from_days days0 = do {
     days \<leftarrow> i64_checked (days0 + 719468);
     let era = (if days \<ge> 0 then days else days - 146096) sdiv 146097;
     let day_of_era = days - era * 146097;
     let year_of_era =
       (day_of_era - day_of_era div 1460 + day_of_era div 36524 - day_of_era div 146096) div 365;
     let year = year_of_era + era * 400;
     let day_of_year = day_of_era - (365 * year_of_era + year_of_era div 4 - year_of_era div 100);
     let month_prime = (5 * day_of_year + 2) div 153;
     let day = as_u8 (day_of_year - (153 * month_prime + 2) div 5 + 1);
     let month = as_u8 (if month_prime < 10 then month_prime + 3 else month_prime - 9);
     let year = (if month \<le> 2 then year + 1 else year);
     Some (as_i32 year, month, day)
   }"

section \<open>ISO days\<close>

definition is_ascii_digit :: "char \<Rightarrow> bool" where
  "is_ascii_digit c = (CHR ''0'' \<le> c \<and> c \<le> CHR ''9'')"

definition digits_value :: "string \<Rightarrow> int" where
  "digits_value s = int (nat_of_digits 0 s)"

definition parse_iso_parts :: "string \<Rightarrow> (int \<times> int \<times> int) option" where
  "parse_iso_parts value =
     (if length value \<noteq> 10 \<or> value ! 4 \<noteq> CHR ''-'' \<or> value ! 7 \<noteq> CHR ''-'' then None
      else if \<not> list_all (\<lambda>(index, byte). if index = 4 \<or> index = 7 then byte = CHR ''-'' else is_ascii_digit byte)
                  (List.enumerate 0 value) then None
      else Some (digits_value (take 4 value), digits_value (take 2 (drop 5 value)),
                 digits_value (take 2 (drop 8 value))))"

definition parse_civil_day ::
    "string \<Rightarrow> calendar_bounds \<Rightarrow> calendar_error + (int \<times> int \<times> int)" where
  "parse_civil_day iso_day bounds =
     (case parse_iso_parts iso_day of
        None \<Rightarrow> Inl InvalidIsoDay
      | Some (year, month, day) \<Rightarrow>
          if year < cb_min_year bounds \<or> year > cb_max_year bounds then Inl CalOutOfBounds
          else if \<not> is_valid_civil_day year month day then Inl InvalidIsoDay
          else Inr (year, month, day))"

text \<open>\<open>{n:0w}\<close> of a signed integer: zeros after the sign, up to the total width.\<close>

definition pad_nat :: "nat \<Rightarrow> nat \<Rightarrow> string" where
  "pad_nat w n = replicate (w - length (show_nat n)) (CHR ''0'') @ show_nat n"

definition pad_int :: "nat \<Rightarrow> int \<Rightarrow> string" where
  "pad_int w n = (if n < 0 then CHR ''-'' # pad_nat (w - 1) (nat (- n)) else pad_nat w (nat n))"

definition format_day :: "int \<Rightarrow> int \<Rightarrow> int \<Rightarrow> string" where
  "format_day year month day =
     pad_int 4 year @ CHR ''-'' # pad_int 2 month @ CHR ''-'' # pad_int 2 day"

section \<open>Bounds from the ontology\<close>

definition trim_quotes :: "string \<Rightarrow> string" where
  "trim_quotes s = rev (dropWhile (\<lambda>c. c = CHR 0x22) (rev (dropWhile (\<lambda>c. c = CHR 0x22) s)))"

fun scalar_loop :: "string \<Rightarrow> string \<Rightarrow> bool \<Rightarrow> nat \<Rightarrow> string list \<Rightarrow> string option" where
  "scalar_loop section key in_section section_indent [] = None"
| "scalar_loop section key in_section section_indent (raw # rest) =
     (let trimmed = trim_end (takeWhile (\<lambda>c. c \<noteq> CHR ''#'') raw)
      in if str_trim trimmed = [] then scalar_loop section key in_section section_indent rest
      else
        let indent = length raw - length (trim_start raw)
        in if str_trim trimmed = section then scalar_loop section key True indent rest
        else
          let in_section =
            (if in_section \<and> indent \<le> section_indent \<and> ends_with '':'' (str_trim trimmed) then False
             else in_section)
          in case (if in_section then strip_prefix key (str_trim trimmed) else None) of
               None \<Rightarrow> scalar_loop section key in_section section_indent rest
             | Some tail \<Rightarrow>
                 let value = trim_quotes (str_trim tail)
                 in if value \<noteq> [] then Some value
                    else scalar_loop section key in_section section_indent rest)"

definition scalar_under :: "string \<Rightarrow> string \<Rightarrow> string \<Rightarrow> string option" where
  "scalar_under text section key = scalar_loop section key False 0 (str_lines text)"

text \<open>\<open>str::parse::<i32>()\<close>: an optional sign, at least one digit, the value in range.\<close>

definition parse_i32 :: "string \<Rightarrow> int option" where
  "parse_i32 s =
     (let negative = (s \<noteq> [] \<and> hd s = CHR ''-'');
          digits = (if s \<noteq> [] \<and> hd s \<in> set ''+-'' then List.tl s else s);
          value = (if negative then - digits_value digits else digits_value digits)
      in if digits = [] \<or> \<not> list_all is_ascii_digit digits then None
         else if value < -2147483648 \<or> value > 2147483647 then None
         else Some value)"

definition parse_calendar_bounds :: "string \<Rightarrow> calendar_error + calendar_bounds" where
  "parse_calendar_bounds text =
     (case scalar_under text ''calendar:'' ''clock:'' of
        None \<Rightarrow> Inl CatalogMissing
      | Some clock \<Rightarrow>
        if clock \<noteq> clock_as_str LegalActEffect then Inl ClockMismatch
        else case scalar_under text ''calendar:'' ''epoch:'' of
          None \<Rightarrow> Inl CatalogMissing
        | Some epoch \<Rightarrow>
          (case Option.bind (scalar_under text ''calendar:'' ''min_year:'') parse_i32 of
            None \<Rightarrow> Inl CatalogMissing
          | Some min_year \<Rightarrow>
            (case Option.bind (scalar_under text ''calendar:'' ''max_year:'') parse_i32 of
              None \<Rightarrow> Inl CatalogMissing
            | Some max_year \<Rightarrow>
              if min_year > max_year then Inl CatalogMissing
              else case parse_iso_parts epoch of
                None \<Rightarrow> Inl CatalogMissing
              | Some (epoch_year, epoch_month, epoch_day) \<Rightarrow>
                if epoch_year < min_year \<or> epoch_year > max_year \<or>
                   \<not> is_valid_civil_day epoch_year epoch_month epoch_day
                then Inl CatalogMissing
                else Inr \<lparr>cb_min_year = min_year, cb_max_year = max_year, cb_epoch_year = epoch_year,
                          cb_epoch_month = epoch_month, cb_epoch_day = epoch_day\<rparr>)))"

text \<open>The two public operations; \<open>text\<close> is the embedded ontology file.\<close>

definition legal_act_effect_day_to_ordinal :: "string \<Rightarrow> string \<Rightarrow> calendar_error + int" where
  "legal_act_effect_day_to_ordinal text iso_day =
     (case parse_calendar_bounds text of
        Inl e \<Rightarrow> Inl e
      | Inr bounds \<Rightarrow>
          (case parse_civil_day iso_day bounds of
             Inl e \<Rightarrow> Inl e
           | Inr (year, month, day) \<Rightarrow>
               Inr (days_from_civil year month day -
                    days_from_civil (cb_epoch_year bounds) (cb_epoch_month bounds) (cb_epoch_day bounds))))"

definition ordinal_to_legal_act_effect_day :: "string \<Rightarrow> int \<Rightarrow> (calendar_error + string) option" where
  "ordinal_to_legal_act_effect_day text ordinal =
     (case parse_calendar_bounds text of
        Inl e \<Rightarrow> Some (Inl e)
      | Inr bounds \<Rightarrow> do {
          let epoch =
            days_from_civil (cb_epoch_year bounds) (cb_epoch_month bounds) (cb_epoch_day bounds);
          days \<leftarrow> i64_checked (epoch + ordinal);
          (year, month, day) \<leftarrow> civil_from_days days;
          Some (if year < cb_min_year bounds \<or> year > cb_max_year bounds then Inl CalOutOfBounds
                else if \<not> is_valid_civil_day year month day then Inl InvalidIsoDay
                else Inr (format_day year month day))
        })"

section \<open>Days from civil: the closed form\<close>

text \<open>Days before the March-based year \<open>y\<close>, with flooring division and no eras.\<close>

definition march_start :: "int \<Rightarrow> int" where
  "march_start y = 365 * y + y div 4 - y div 100 + y div 400 - 719468"

definition march_doy :: "int \<Rightarrow> int \<Rightarrow> int" where
  "march_doy month day = (153 * (if month > 2 then month - 3 else month + 9) + 2) div 5 + day - 1"

definition march_year :: "int \<Rightarrow> int \<Rightarrow> int" where
  "march_year year month = (if month \<le> 2 then year - 1 else year)"

lemma sdiv_nonneg: "0 \<le> a \<Longrightarrow> a sdiv (numeral n :: int) = a div numeral n"
  by (cases "a = 0") (simp_all add: signed_divide_int_def)

text \<open>The one fact about division that the arithmetic below needs.\<close>

lemma div_eqI: "k * q \<le> n \<Longrightarrow> n < k * q + k \<Longrightarrow> n div k = (q :: int)"
  by (metis add.commute int_div_pos_eq diff_add_cancel diff_ge_0_iff_ge diff_less_eq)

lemma div_bounds: "0 < k \<Longrightarrow> k * (n div k) \<le> n \<and> n < k * (n div k) + (k :: int)"
  using mult_div_mod_eq [of k n] pos_mod_bound [of k n] pos_mod_sign [of k n] by linarith

lemma era_floor: "(if y \<ge> 0 then y else y - 399) sdiv 400 = (y :: int) div 400"
proof (cases "y \<ge> 0")
  case False
  have "(399 - y) div 400 = - (y div 400)"
    using div_bounds [of 400 y] by (intro div_eqI) simp_all
  with False show ?thesis by (simp add: signed_divide_int_def)
qed (simp add: sdiv_nonneg)

lemma march_start_era:
  "y div 400 * 146097 + ((y mod 400) * 365 + (y mod 400) div 4 - (y mod 400) div 100) - 719468 = march_start y"
proof -
  define e r where "e = y div 400" and "r = y mod 400"
  have y: "y = 400 * e + r" by (simp add: e_def r_def)
  have "(400 * e + r) div 4 = 100 * e + r div 4" "(400 * e + r) div 100 = 4 * e + r div 100"
    using div_bounds [of 4 r] div_bounds [of 100 r] by (auto intro!: div_eqI)
  then show ?thesis unfolding march_start_def e_def [symmetric] r_def [symmetric] by (simp add: y)
qed

lemma days_from_civil_closed:
  assumes "1 \<le> month"
  shows "days_from_civil year month day = march_start (march_year year month) + march_doy month day"
proof -
  define y where "y = march_year year month"
  have e: "(if y \<ge> 0 then y else y - 399) sdiv 400 = y div 400" by (rule era_floor)
  have r: "y - y div 400 * 400 = y mod 400" by (simp add: minus_div_mult_eq_mod)
  have mp: "0 \<le> 153 * (if month > 2 then month - 3 else month + 9) + (2 :: int)" using assms by simp
  show ?thesis
    using march_start_era [of y]
    unfolding days_from_civil_def Let_def march_year_def [of year month, symmetric] y_def [symmetric] e r
    by (simp add: sdiv_nonneg mp march_doy_def)
qed

lemma smod_zero_iff: "0 < k \<Longrightarrow> (y :: int) smod k = 0 \<longleftrightarrow> k dvd y"
  by (auto simp: smod_int_alt_def sgn_if abs_if dvd_eq_mod_eq_0 [symmetric])

lemma leap_iff: "is_leap_year y \<longleftrightarrow> 4 dvd y \<and> (\<not> 100 dvd y \<or> 400 dvd y)"
  by (simp add: is_leap_year_def smod_zero_iff)

lemma div_succ: "0 < k \<Longrightarrow> (y + 1) div k = y div k + (if k dvd y + 1 then 1 else (0 :: int))"
proof -
  assume k: "0 < k"
  show ?thesis
  proof (cases "k dvd y + 1")
    case True
    then obtain q where q: "y + 1 = k * q" by (elim dvdE)
    with k have "y div k = q - 1" by (intro div_eqI) (simp_all add: algebra_simps)
    with q k True show ?thesis by simp
  next
    case False
    then have "y + 1 \<noteq> k * (y div k) + k" by (metis dvd_add_triv_right_iff dvd_triv_left)
    with div_bounds [OF k, of y] have "(y + 1) div k = y div k" by (intro div_eqI) simp_all
    with False show ?thesis by simp
  qed
qed

lemma march_start_succ: "march_start (y + 1) = march_start y + 365 + (if is_leap_year (y + 1) then 1 else 0)"
proof -
  have dvd: "400 dvd z \<Longrightarrow> 100 dvd z" "100 dvd z \<Longrightarrow> 4 dvd z" for z :: int
    by (rule dvd_trans [of _ 400], simp, assumption) (rule dvd_trans [of _ 100], simp, assumption)
  have d: "(y + 1) div 4 = y div 4 + (if 4 dvd y + 1 then 1 else 0)"
    "(y + 1) div 100 = y div 100 + (if 100 dvd y + 1 then 1 else 0)"
    "(y + 1) div 400 = y div 400 + (if 400 dvd y + 1 then 1 else 0)"
    by (rule div_succ, simp)+
  show ?thesis unfolding march_start_def leap_iff d
    using dvd [of "y + 1"] by (cases "4 dvd y + 1"; cases "100 dvd y + 1"; cases "400 dvd y + 1") simp_all
qed

section \<open>The conversion is inverse and monotone\<close>

definition month_prime :: "int \<Rightarrow> int" where
  "month_prime month = (if month > 2 then month - 3 else month + 9)"

lemma valid_day_cases:
  assumes "is_valid_civil_day y m d"
  obtains "m = 1" | "m = 2" | "m = 3" | "m = 4" | "m = 5" | "m = 6" | "m = 7" | "m = 8" | "m = 9"
    | "m = 10" | "m = 11" | "m = 12"
  using assms by (auto simp: is_valid_civil_day_def days_in_month_def split: if_splits)

lemma valid_month: "is_valid_civil_day y m d \<Longrightarrow> 1 \<le> m \<and> m \<le> 12"
  by (erule valid_day_cases) simp_all

lemma valid_day: "is_valid_civil_day y m d \<Longrightarrow> 1 \<le> d \<and> d \<le> 31"
  by (auto simp: is_valid_civil_day_def days_in_month_def split: if_splits)

lemma march_doy_recover:
  assumes "is_valid_civil_day y m d"
  shows "(5 * march_doy m d + 2) div 153 = month_prime m \<and>
     march_doy m d - (153 * month_prime m + 2) div 5 + 1 = d"
proof -
  have d: "1 \<le> d" "d \<le> days_in_month y m" using assms by (auto simp: is_valid_civil_day_def)
  have b: "days_in_month y m \<le> 31" "m \<in> set [4, 6, 9, 11] \<Longrightarrow> days_in_month y m = 30"
    "m = 2 \<Longrightarrow> days_in_month y m \<le> 29" by (auto simp: days_in_month_def)
  have "(5 * march_doy m d + 2) div 153 = month_prime m"
    using assms by (rule valid_day_cases; intro div_eqI)
      (use d b in \<open>simp_all add: march_doy_def month_prime_def\<close>)
  then show ?thesis by (simp add: march_doy_def month_prime_def)
qed

lemma march_doy_range:
  assumes "is_valid_civil_day y m d"
  shows "0 \<le> march_doy m d \<and> march_doy m d \<le> 364 + (if is_leap_year (march_year y m + 1) then 1 else 0)"
proof -
  have d: "1 \<le> d" "d \<le> days_in_month y m" using assms by (auto simp: is_valid_civil_day_def)
  have b: "days_in_month y m \<le> 31" "m = 2 \<Longrightarrow> days_in_month y m = (if is_leap_year y then 29 else 28)"
    by (auto simp: days_in_month_def)
  show ?thesis
    using assms by (rule valid_day_cases) (use d b in \<open>simp_all add: march_doy_def march_year_def split: if_splits\<close>)
qed

text \<open>
  The year of an era: with \<open>year_of_era = 100 c + 4 q + r\<close> every division of the code has an explicit
  quotient.
\<close>

lemma year_of_era_recover:
  fixes doy :: int
  assumes "0 \<le> yoe" "yoe < 400" "0 \<le> doy" "doy \<le> 364 + (if is_leap_year (yoe + 1) then 1 else 0)"
  defines "doe \<equiv> 365 * yoe + yoe div 4 - yoe div 100 + doy"
  shows "(doe - doe div 1460 + doe div 36524 - doe div 146096) div 365 = yoe \<and> 0 \<le> doe \<and> doe < 146097"
proof -
  define c q r where "c = yoe div 100" and "q = yoe mod 100 div 4" and "r = yoe mod 4"
  have m: "yoe mod 100 mod 4 = r" by (simp add: r_def mod_mod_cancel)
  have y: "yoe = 100 * c + 4 * q + r"
    using mult_div_mod_eq [of 100 yoe] mult_div_mod_eq [of 4 "yoe mod 100"]
    unfolding c_def q_def m by linarith
  have rng: "0 \<le> c" "c \<le> 3" "0 \<le> q" "q \<le> 24" "0 \<le> r" "r \<le> 3"
    using assms(1,2) div_bounds [of 100 yoe] div_bounds [of 4 "yoe mod 100"] by (auto simp: c_def q_def r_def)
  have "yoe div 4 = 25 * c + q" using y rng by (intro div_eqI) simp_all
  then have doe: "doe = 36524 * c + 1461 * q + 365 * r + doy"
    unfolding doe_def c_def [symmetric] by (simp add: y)
  have leap: "is_leap_year (yoe + 1) \<Longrightarrow> r = 3 \<and> (q = 24 \<longrightarrow> c = 3)"
  proof -
    assume "is_leap_year (yoe + 1)"
    then have l: "4 dvd yoe + 1" "\<not> 100 dvd yoe + 1 \<or> 400 dvd yoe + 1" by (auto simp: leap_iff)
    from l(1) have "r = 3" unfolding r_def by presburger
    moreover have "q = 24 \<Longrightarrow> c = 3"
    proof -
      assume "q = 24"
      with y \<open>r = 3\<close> have e: "yoe + 1 = 100 * (c + 1)" by simp
      with l have "400 dvd 100 * (c + 1)" by (metis dvd_triv_left)
      then show "c = 3" using rng by presburger
    qed
    ultimately show ?thesis by blast
  qed
  have doy: "doy \<le> 364 \<or> doy = 365 \<and> r = 3 \<and> q \<le> 23 \<or> doy = 365 \<and> r = 3 \<and> q = 24 \<and> c = 3"
    using assms(4) leap rng(4) by (auto split: if_splits)
  have cases: "(doy \<le> 364 \<Longrightarrow> P) \<Longrightarrow> (doy = 365 \<Longrightarrow> r = 3 \<Longrightarrow> q \<le> 23 \<Longrightarrow> P) \<Longrightarrow>
      (doy = 365 \<Longrightarrow> r = 3 \<Longrightarrow> q = 24 \<Longrightarrow> c = 3 \<Longrightarrow> P) \<Longrightarrow> P" for P
    using doy by blast
  define last :: int where "last = (if c = 3 \<and> q = 24 \<and> r = 3 \<and> doy = 365 then 1 else 0)"
  define bump :: int where "bump = (if 24 * c + q + 365 * r + doy \<ge> 1460 then 1 else 0)"
  have small: "doy \<le> 364 \<Longrightarrow> last = 0" "q \<le> 23 \<Longrightarrow> last = 0"
    "doy = 365 \<and> r = 3 \<and> q = 24 \<and> c = 3 \<Longrightarrow> last = 1" by (auto simp: last_def)
  have dc: "doe div 36524 = c + last"
    by (rule div_eqI; rule cases) (use rng assms(3) small in \<open>simp_all add: doe\<close>)
  have dl: "doe div 146096 = last"
    by (rule div_eqI; rule cases) (use rng assms(3) small in \<open>simp_all add: doe\<close>)
  have db: "doe div 1460 = 25 * c + q + bump"
    by (rule div_eqI; rule cases)
      (use rng assms(3) in \<open>simp_all add: doe bump_def split: if_splits\<close>)
  have "(doe - doe div 1460 + doe div 36524 - doe div 146096) div 365 = yoe"
    unfolding dc dl db
    by (rule div_eqI; rule cases)
      (use rng assms(3) small in \<open>simp_all add: doe y bump_def split: if_splits\<close>)
  moreover have "0 \<le> doe \<and> doe < 146097"
    by (rule cases) (use rng assms(3) in \<open>simp_all add: doe\<close>)
  ultimately show ?thesis by blast
qed

lemma leap_period: "is_leap_year (y mod 400 + 1) \<longleftrightarrow> is_leap_year (y + 1)"
proof -
  have "k dvd 400 \<Longrightarrow> k dvd y mod 400 + 1 \<longleftrightarrow> k dvd y + 1" for k :: int
  proof -
    assume "k dvd 400"
    moreover have "y + 1 = 400 * (y div 400) + (y mod 400 + 1)" by simp
    ultimately show ?thesis by (metis dvd_add_right_iff dvd_mult2)
  qed
  then have "4 dvd y mod 400 + 1 \<longleftrightarrow> 4 dvd y + 1" "100 dvd y mod 400 + 1 \<longleftrightarrow> 100 dvd y + 1"
    "400 dvd y mod 400 + 1 \<longleftrightarrow> 400 dvd y + 1" by simp_all
  then show ?thesis by (simp only: leap_iff)
qed

lemma march_start_bounds:
  "-2147483649 \<le> y \<Longrightarrow> y < 2147483648 \<Longrightarrow> -800000000000 \<le> march_start y \<and> march_start y \<le> 800000000000"
  using div_bounds [of 4 y] div_bounds [of 100 y] div_bounds [of 400 y]
  unfolding march_start_def by simp

lemma civil_round_trip:
  assumes v: "is_valid_civil_day y m d" and rng: "-2147483648 \<le> y" "y < 2147483648"
  shows "civil_from_days (days_from_civil y m d) = Some (y, m, d)"
proof -
  define Y where "Y = march_year y m"
  define yoe where "yoe = Y mod 400"
  define doy where "doy = march_doy m d"
  define doe where "doe = 365 * yoe + yoe div 4 - yoe div 100 + doy"
  have doy: "0 \<le> doy" "doy \<le> 364 + (if is_leap_year (yoe + 1) then 1 else 0)"
    using march_doy_range [OF v] by (simp_all add: doy_def yoe_def leap_period Y_def)
  have yoe: "0 \<le> yoe" "yoe < 400" by (simp_all add: yoe_def)
  note y = year_of_era_recover [OF yoe doy, folded doe_def]
  have days: "days_from_civil y m d + 719468 = Y div 400 * 146097 + doe"
    using days_from_civil_closed [of m y d] valid_month [OF v] march_start_era [of Y, folded yoe_def]
    by (simp add: Y_def [symmetric] doy_def [symmetric] doe_def)
  have era: "(if n \<ge> 0 then n else n - 146096) sdiv 146097 = n div 146097" for n :: int
  proof (cases "n \<ge> 0")
    case False
    have "(146096 - n) div 146097 = - (n div 146097)"
      using div_bounds [of 146097 n] by (intro div_eqI) simp_all
    with False show ?thesis by (simp add: signed_divide_int_def)
  qed (simp add: sdiv_nonneg)
  have e: "(Y div 400 * 146097 + doe) div 146097 = Y div 400" using y by (intro div_eqI) simp_all
  have "-2147483649 \<le> Y" "Y < 2147483648" using rng by (simp_all add: Y_def march_year_def)
  from march_start_bounds [OF this] have "i64_checked (Y div 400 * 146097 + doe) = Some (Y div 400 * 146097 + doe)"
    using days_from_civil_closed [of m y d] valid_month [OF v] days doy
    by (auto simp: i64_checked_def Y_def [symmetric] doy_def [symmetric] split: if_splits)
  moreover note r = march_doy_recover [OF v, folded doy_def]
  have dd: "doe - (365 * yoe + yoe div 4 - yoe div 100) = doy" by (simp add: doe_def)
  have mm: "(if month_prime m < 10 then month_prime m + 3 else month_prime m - 9) = m"
    using valid_month [OF v] by (simp add: month_prime_def)
  have yy: "(if m \<le> 2 then yoe + Y div 400 * 400 + 1 else yoe + Y div 400 * 400) = y"
    using div_mult_mod_eq [of Y 400] by (simp add: yoe_def) (simp add: Y_def march_year_def)
  have "as_u8 m = m" "as_u8 d = d" "as_i32 y = y"
    using valid_month [OF v] valid_day [OF v] rng by (simp_all add: as_u8_id as_i32_id)
  ultimately show ?thesis
    unfolding civil_from_days_def days Let_def
    by (simp only: bind.bind_lunit era e add_diff_cancel_left' y r dd mm yy)
qed

lemma march_start_mono: "x < y \<Longrightarrow> march_start x + 365 + (if is_leap_year (x + 1) then 1 else 0) \<le> march_start y"
proof -
  have step: "march_start z < march_start (z + 1)" for z by (simp add: march_start_succ)
  have "x + 1 \<le> z \<Longrightarrow> march_start (x + 1) \<le> march_start z" for z
    by (induction z rule: int_ge_induct) (use step in \<open>auto intro: order_trans less_imp_le\<close>)
  then show "x < y \<Longrightarrow> ?thesis" by (simp add: march_start_succ [symmetric])
qed

lemma march_doy_step:
  assumes v: "is_valid_civil_day y m d" and v': "is_valid_civil_day y' m' d'"
    and lt: "month_prime m < month_prime m'"
  shows "march_doy m d < march_doy m' d'"
proof -
  have d: "d \<le> days_in_month y m" "days_in_month y m \<le> 31"
    "m \<in> set [4, 6, 9, 11] \<Longrightarrow> days_in_month y m = 30"
    using v by (auto simp: is_valid_civil_day_def days_in_month_def)
  have "month_prime m' \<le> 11" using valid_month [OF v'] by (simp add: month_prime_def)
  with lt have "m \<noteq> 2" by (auto simp: month_prime_def)
  with v have "march_doy m d < (153 * (month_prime m + 1) + 2) div 5"
    by (elim valid_day_cases) (use d in \<open>simp_all add: march_doy_def month_prime_def\<close>)
  also have "\<dots> \<le> (153 * month_prime m' + 2) div 5" using lt by (intro zdiv_mono1) simp_all
  also have "\<dots> \<le> march_doy m' d'"
    using valid_day [OF v'] by (simp add: march_doy_def month_prime_def)
  finally show ?thesis .
qed

text \<open>Day numbers are strictly increasing in the calendar order of dates.\<close>

lemma days_from_civil_mono:
  assumes v: "is_valid_civil_day y m d" and v': "is_valid_civil_day y' m' d'"
    and lt: "y < y' \<or> y = y' \<and> (m < m' \<or> m = m' \<and> d < d')"
  shows "days_from_civil y m d < days_from_civil y' m' d'"
proof -
  define Y Y' where "Y = march_year y m" and "Y' = march_year y' m'"
  have closed: "days_from_civil y m d = march_start Y + march_doy m d"
    "days_from_civil y' m' d' = march_start Y' + march_doy m' d'"
    using valid_month [OF v] valid_month [OF v'] by (simp_all add: days_from_civil_closed Y_def Y'_def)
  have mo: "Y < Y' \<Longrightarrow> ?thesis"
    using march_start_mono [of Y Y'] march_doy_range [OF v] march_doy_range [OF v']
    unfolding closed by (auto simp: Y_def Y'_def split: if_splits)
  have b: "d \<le> 31" "d' \<le> 31" "1 \<le> d" "1 \<le> d'" using valid_day [OF v] valid_day [OF v'] by auto
  have db: "d \<le> days_in_month y m" using v by (simp add: is_valid_civil_day_def)
  show ?thesis
  proof (cases "Y < Y'")
    case False
    then have eq: "Y = Y'" using lt valid_month [OF v] valid_month [OF v']
      by (auto simp: Y_def Y'_def march_year_def split: if_splits)
    then have "month_prime m < month_prime m' \<or> m = m' \<and> d < d'"
      using lt valid_month [OF v] valid_month [OF v']
      by (auto simp: Y_def Y'_def march_year_def month_prime_def split: if_splits)
    then have "march_doy m d < march_doy m' d'"
      using march_doy_step [OF v v'] by (auto simp: march_doy_def)
    with eq show ?thesis by (simp add: closed)
  qed (rule mo)
qed

section \<open>The calendar successor\<close>

definition next_day :: "int \<times> int \<times> int \<Rightarrow> int \<times> int \<times> int" where
  "next_day date = (case date of (y, m, d) \<Rightarrow>
     if d < days_in_month y m then (y, m, d + 1) else if m < 12 then (y, m + 1, 1) else (y + 1, 1, 1))"

definition civil_days :: "int \<times> int \<times> int \<Rightarrow> int" where
  "civil_days date = (case date of (y, m, d) \<Rightarrow> days_from_civil y m d)"

definition civil_valid :: "int \<times> int \<times> int \<Rightarrow> bool" where
  "civil_valid date = (case date of (y, m, d) \<Rightarrow> is_valid_civil_day y m d)"

lemma next_day_days:
  assumes "is_valid_civil_day y m d"
  shows "civil_days (next_day (y, m, d)) = days_from_civil y m d + 1"
proof -
  have r: "1 \<le> m" "m \<le> 12" using valid_month [OF assms] by auto
  have d: "d \<le> days_in_month y m" using assms by (simp add: is_valid_civil_day_def)
  show ?thesis
  proof (cases "d < days_in_month y m")
    case True
    then show ?thesis
      using r by (simp add: next_day_def civil_days_def days_from_civil_closed march_doy_def)
  next
    case False
    with d have d: "d = days_in_month y m" by simp
    show ?thesis
      using assms
      by (rule valid_day_cases; simp add: next_day_def civil_days_def days_from_civil_closed d)
        (simp_all add: days_in_month_def march_doy_def march_year_def march_start_succ [of "y - 1", simplified])
  qed
qed

lemma next_day_valid: "civil_valid date \<Longrightarrow> civil_valid (next_day date)"
  by (cases date) (auto simp: civil_valid_def next_day_def is_valid_civil_day_def days_in_month_def split: if_splits)

lemma march_start_le: "march_start y \<le> 367 * \<bar>y\<bar> - 719468 \<and> (y < 0 \<longrightarrow> march_start y \<le> 365 * y)"
  using div_bounds [of 4 y] div_bounds [of 100 y] div_bounds [of 400 y]
  unfolding march_start_def by linarith

lemma civil_days_surj: "\<exists>date. civil_valid date \<and> civil_days date = z"
proof -
  define y where "y = - \<bar>z\<bar> - 1"
  have v: "civil_valid (y, 3, 1)" by (simp add: civil_valid_def is_valid_civil_day_def days_in_month_def)
  have "days_from_civil y 3 1 = march_start y" by (simp add: days_from_civil_closed march_doy_def march_year_def)
  with march_start_le [of y] have le: "civil_days (y, 3, 1) \<le> z"
    by (cases "z < 0") (simp_all add: civil_days_def y_def)
  have "civil_days (y, 3, 1) \<le> k \<Longrightarrow> \<exists>date. civil_valid date \<and> civil_days date = k" for k
  proof (induction k rule: int_ge_induct)
    case base
    then show ?case using v by blast
  next
    case (step k)
    then obtain date where date: "civil_valid date" "civil_days date = k" by blast
    then have "civil_days (next_day date) = k + 1"
      by (cases date) (use next_day_days in \<open>auto simp: civil_valid_def civil_days_def\<close>)
    with date(1) show ?case using next_day_valid by blast
  qed
  from this [OF le] show ?thesis .
qed

section \<open>Rendering and reading a day\<close>

lemma is_ascii_digit_iff: "is_ascii_digit c \<longleftrightarrow> (\<exists>d<10. c = digit_char d)"
proof
  assume "is_ascii_digit c"
  then have "48 \<le> (of_char c :: nat)" "(of_char c :: nat) \<le> 57"
    by (simp_all add: is_ascii_digit_def less_eq_char_def)
  then have "c = digit_char (of_char c - 48)" "of_char c - 48 < (10 :: nat)" by (simp_all add: digit_char_def)
  then show "\<exists>d<10. c = digit_char d" by blast
next
  assume "\<exists>d<10. c = digit_char d"
  then show "is_ascii_digit c"
    by (auto simp: is_ascii_digit_def less_eq_char_def digit_char_def of_char_of)
qed

lemma show_nat_snoc: "0 < n \<Longrightarrow> d < 10 \<Longrightarrow> show_nat (10 * n + d) = show_nat n @ [digit_char d]"
  by (subst show_nat.simps) auto

lemma show_nat_digit: "d < 10 \<Longrightarrow> show_nat d = [digit_char d]"
  by (subst show_nat.simps) simp

lemma digit_char_0: "digit_char 0 = CHR ''0''"
  by code_simp

lemma digits_bound: "list_all is_ascii_digit s \<Longrightarrow> nat_of_digits 0 s < 10 ^ length s"
proof (induction s rule: rev_induct)
  case (snoc c s)
  then obtain d where "c = digit_char d" "d < 10" by (auto simp: is_ascii_digit_iff)
  with snoc show ?case by (simp add: nat_of_digits_append of_char_digit)
qed simp

text \<open>Zero padding restores the digits that the number forgets.\<close>

lemma pad_nat_digits:
  "list_all is_ascii_digit s \<Longrightarrow> s \<noteq> [] \<Longrightarrow> pad_nat (length s) (nat_of_digits 0 s) = s"
proof (induction s rule: rev_induct)
  case (snoc c s)
  then obtain d where d: "c = digit_char d" "d < 10" by (auto simp: is_ascii_digit_iff)
  define n where "n = nat_of_digits 0 s"
  have val: "nat_of_digits 0 (s @ [c]) = 10 * n + d"
    using d by (simp add: nat_of_digits_append n_def of_char_digit)
  show ?case
  proof (cases "s = []")
    case True
    with d val show ?thesis by (simp add: n_def pad_nat_def show_nat_digit)
  next
    case False
    with snoc have IH: "pad_nat (length s) n = s" by (simp add: n_def)
    show ?thesis
    proof (cases "n = 0")
      case True
      then have "pad_nat (length s) n = replicate (length s) (CHR ''0'')"
        using False by (cases s) (simp_all add: pad_nat_def show_nat_digit digit_char_0 replicate_append_same)
      with IH have rep: "replicate (length s) (CHR ''0'') = s" by metis
      have "pad_nat (Suc (length s)) d = replicate (length s) (CHR ''0'') @ [digit_char d]"
        using d by (simp add: pad_nat_def show_nat_digit)
      also have "\<dots> = s @ [c]" by (simp only: rep d)
      finally show ?thesis using True by (simp only: val) simp
    next
      case False
      have "pad_nat (Suc (length s)) (10 * n + d) = pad_nat (length s) n @ [digit_char d]"
        using d False by (simp add: pad_nat_def show_nat_snoc)
      also have "\<dots> = s @ [c]" by (simp only: IH d)
      finally show ?thesis by (simp only: val) simp
    qed
  qed
qed simp

lemma pad_int_digits:
  "list_all is_ascii_digit s \<Longrightarrow> s \<noteq> [] \<Longrightarrow> length s = w \<Longrightarrow> pad_int w (digits_value s) = s"
  using pad_nat_digits [of s] by (simp add: pad_int_def digits_value_def)

lemma parse_iso_format:
  assumes "parse_iso_parts s = Some (y, m, d)"
  shows "format_day y m d = s \<and> 0 \<le> y \<and> y \<le> 9999"
proof -
  have len: "length s = 10" using assms by (auto simp: parse_iso_parts_def split: if_splits)
  then obtain a b c e f g h i j k where s: "s = [a, b, c, e, f, g, h, i, j, k]"
    by (auto simp: numeral_eq_Suc length_Suc_conv)
  have dig: "f = CHR ''-''" "i = CHR ''-''" "list_all is_ascii_digit [a, b, c, e]"
    "list_all is_ascii_digit [g, h]" "list_all is_ascii_digit [j, k]"
    and val: "y = digits_value [a, b, c, e]" "m = digits_value [g, h]" "d = digits_value [j, k]"
    using assms by (auto simp: parse_iso_parts_def s split: if_splits)
  have "y \<le> 9999"
    using digits_bound [OF dig(3)] by (simp add: val(1) digits_value_def del: nat_of_digits.simps)
  moreover have "pad_int 4 y = [a, b, c, e]" "pad_int 2 m = [g, h]" "pad_int 2 d = [j, k]"
    unfolding val by (rule pad_int_digits; use dig in simp)+
  then have "format_day y m d = s" by (simp add: format_day_def s dig(1,2))
  ultimately show ?thesis by (simp add: val digits_value_def)
qed

section \<open>The ordinal of a day\<close>

lemma parse_bounds_epoch:
  assumes "parse_calendar_bounds text = Inr b"
  shows "is_valid_civil_day (cb_epoch_year b) (cb_epoch_month b) (cb_epoch_day b) \<and>
     0 \<le> cb_epoch_year b \<and> cb_epoch_year b \<le> 9999 \<and>
     cb_min_year b \<le> cb_epoch_year b \<and> cb_epoch_year b \<le> cb_max_year b"
proof -
  obtain epoch where "parse_iso_parts epoch = Some (cb_epoch_year b, cb_epoch_month b, cb_epoch_day b)"
    "is_valid_civil_day (cb_epoch_year b) (cb_epoch_month b) (cb_epoch_day b)"
    "cb_min_year b \<le> cb_epoch_year b" "cb_epoch_year b \<le> cb_max_year b"
    using assms by (auto simp: parse_calendar_bounds_def split: option.splits if_splits)
  with parse_iso_format show ?thesis by blast
qed

lemma days_bounds:
  assumes "is_valid_civil_day y m d" "0 \<le> y" "y \<le> 9999"
  shows "-800000000000 \<le> days_from_civil y m d \<and> days_from_civil y m d \<le> 800000000366"
proof -
  have "-2147483649 \<le> march_year y m" "march_year y m < 2147483648"
    using assms by (simp_all add: march_year_def)
  from march_start_bounds [OF this] march_doy_range [OF assms(1)] valid_month [OF assms(1)] show ?thesis
    by (auto simp: days_from_civil_closed split: if_splits)
qed

text \<open>C17. The two public operations of the calendar are inverse: the ordinal that
\<open>legal_act_effect_day_to_ordinal\<close> computes for an ISO day is turned back into the same string, without
a panic, whatever the bounds in the ontology text.\<close>

theorem calendar_ordinal_round_trip:
  assumes "legal_act_effect_day_to_ordinal text iso_day = Inr n"
  shows "ordinal_to_legal_act_effect_day text n = Some (Inr iso_day)"
proof -
  obtain b y m d where b: "parse_calendar_bounds text = Inr b"
    and p: "parse_civil_day iso_day b = Inr (y, m, d)"
    and n: "n = days_from_civil y m d -
      days_from_civil (cb_epoch_year b) (cb_epoch_month b) (cb_epoch_day b)"
    using assms by (auto simp: legal_act_effect_day_to_ordinal_def split: sum.splits)
  have iso: "parse_iso_parts iso_day = Some (y, m, d)" "cb_min_year b \<le> y" "y \<le> cb_max_year b"
    and v: "is_valid_civil_day y m d"
    using p by (auto simp: parse_civil_day_def split: option.splits if_splits)
  note f = parse_iso_format [OF iso(1)]
  have "i64_checked (days_from_civil y m d) = Some (days_from_civil y m d)"
    using days_bounds [OF v] f by (simp add: i64_checked_def)
  moreover have "civil_from_days (days_from_civil y m d) = Some (y, m, d)"
    using civil_round_trip [OF v] f by simp
  ultimately show ?thesis
    using iso v f by (simp add: ordinal_to_legal_act_effect_day_def b n)
qed

text \<open>The excerpt of \<open>prd/architecture/kb-ontology.yaml\<close> that holds the calendar catalog.\<close>

definition ONTOLOGY_CALENDAR :: string where
  "ONTOLOGY_CALENDAR = concat (map (\<lambda>line. line @ [CHR 0x0A])
     [''  calendar:'', ''    clock: legal_act_effect'',
      ''    epoch: '' @ [CHR 0x22] @ ''1800-01-01'' @ [CHR 0x22],
      ''    min_year: 1800'', ''    max_year: 2100'', ''    unit: civil_day'', ''    timezone: none'',
      ''    leap: proleptic_gregorian''])"

lemma ontology_calendar_bounds:
  "parse_calendar_bounds ONTOLOGY_CALENDAR =
     Inr \<lparr>cb_min_year = 1800, cb_max_year = 2100, cb_epoch_year = 1800, cb_epoch_month = 1, cb_epoch_day = 1\<rparr>"
  by code_simp

lemma leap_day_ordinal: "legal_act_effect_day_to_ordinal ONTOLOGY_CALENDAR ''2012-02-29'' = Inr 77490"
proof -
  have "parse_iso_parts ''2012-02-29'' = Some (2012, 2, 29)" by code_simp
  moreover have "is_valid_civil_day 2012 2 29" by code_simp
  moreover have "days_from_civil 2012 2 29 - days_from_civil 1800 1 1 = 77490" by code_simp
  ultimately show ?thesis
    by (simp add: legal_act_effect_day_to_ordinal_def ontology_calendar_bounds parse_civil_day_def)
qed

theorem calendar_ordinal_round_trip_witness:
  "ordinal_to_legal_act_effect_day ONTOLOGY_CALENDAR 77490 = Some (Inr ''2012-02-29'')"
  by (rule calendar_ordinal_round_trip) (rule leap_day_ordinal)

text \<open>Day numbers are the proleptic Gregorian calendar: 1970-01-01 is day 0, the calendar
successor of a valid date is the next number, and every number is the number of exactly one valid
date, which \<open>civil_from_days\<close> returns while the year fits in \<open>i32\<close>.\<close>

theorem calendar_days_characterised:
  "civil_days (1970, 1, 1) = 0 \<and>
   (\<forall>date. civil_valid date \<longrightarrow> civil_valid (next_day date) \<and> civil_days (next_day date) = civil_days date + 1) \<and>
   (\<forall>z. \<exists>!date. civil_valid date \<and> civil_days date = z) \<and>
   (\<forall>y m d. civil_valid (y, m, d) \<and> -2147483648 \<le> y \<and> y < 2147483648 \<longrightarrow>
      civil_from_days (civil_days (y, m, d)) = Some (y, m, d))"
proof (intro conjI allI impI)
  show "civil_days (1970, 1, 1) = 0" by code_simp
next
  fix date assume v: "civil_valid date"
  then show "civil_valid (next_day date)" by (rule next_day_valid)
  show "civil_days (next_day date) = civil_days date + 1"
    using v next_day_days by (cases date) (simp add: civil_valid_def civil_days_def)
next
  fix z
  have "a = b" if "civil_valid a" "civil_valid b" "civil_days a = civil_days b" for a b
  proof -
    obtain y m d y' m' d' where ab: "a = (y, m, d)" "b = (y', m', d')" by (metis prod_cases3)
    with that have v: "is_valid_civil_day y m d" "is_valid_civil_day y' m' d'"
      and eq: "days_from_civil y m d = days_from_civil y' m' d'"
      by (simp_all add: civil_valid_def civil_days_def)
    show ?thesis
      using days_from_civil_mono [OF v] days_from_civil_mono [OF v(2) v(1)] eq
      unfolding ab by (metis less_irrefl linorder_neqE)
  qed
  then show "\<exists>!date. civil_valid date \<and> civil_days date = z" using civil_days_surj [of z] by blast
next
  fix y m d assume "civil_valid (y, m, d) \<and> -2147483648 \<le> y \<and> y < 2147483648"
  then show "civil_from_days (civil_days (y, m, d)) = Some (y, m, d)"
    by (simp add: civil_valid_def civil_days_def civil_round_trip)
qed

theorem calendar_days_characterised_witness:
  "civil_valid (2012, 2, 29) \<and> civil_days (next_day (2012, 2, 29)) = civil_days (2012, 2, 29) + 1 \<and>
   next_day (2012, 2, 29) = (2012, 3, 1)"
proof -
  have v: "civil_valid (2012, 2, 29)" by code_simp
  moreover have "next_day (2012, 2, 29) = (2012, 3, 1)" by code_simp
  moreover have "civil_valid date \<Longrightarrow> civil_days (next_day date) = civil_days date + 1" for date
    using calendar_days_characterised by blast
  ultimately show ?thesis by blast
qed

section \<open>The narrowing cast\<close>

lemma as_i32_period: "as_i32 (n + 4294967296 * k) = as_i32 n"
  using mod_mult_self1 [of "n + 2147483648" k 4294967296]
  by (simp add: as_i32_def algebra_simps)

lemma era_of_days: "(if n \<ge> 0 then n else n - 146096) sdiv 146097 = (n :: int) div 146097"
proof (cases "n \<ge> 0")
  case False
  have "(146096 - n) div 146097 = - (n div 146097)"
    using div_bounds [of 146097 n] by (intro div_eqI) simp_all
  with False show ?thesis by (simp add: signed_divide_int_def)
qed (simp add: sdiv_nonneg)

lemma era_shift: "(n + 146097 * e) div 146097 = n div 146097 + (e :: int)"
  by simp

text \<open>Adding \<open>2 ^ 28\<close> eras moves the year by a multiple of \<open>2 ^ 32\<close>, which the cast drops.\<close>

lemma civil_from_days_wraps:
  assumes "i64_checked (z + 719468) = Some (z + 719468)"
    and "i64_checked (z + 719468 + 146097 * 268435456) = Some (z + 719468 + 146097 * 268435456)"
  shows "civil_from_days (z + 146097 * 268435456) = civil_from_days z"
proof -
  define n where "n = z + 719468"
  have e: "(if n + 146097 * 268435456 \<ge> 0 then n + 146097 * 268435456 else n + 146097 * 268435456 - 146096) sdiv 146097
      = n div 146097 + 268435456"
    by (simp only: era_of_days era_shift)
  have r: "n + 146097 * 268435456 - (n div 146097 + 268435456) * 146097 = n - n div 146097 * 146097" by simp
  have y: "as_i32 (if c then a + (n div 146097 + 268435456) * 400 + 1 else a + (n div 146097 + 268435456) * 400)
      = as_i32 (if c then a + n div 146097 * 400 + 1 else a + n div 146097 * 400)" for a c
    using as_i32_period [of "a + n div 146097 * 400 + 1" 25] as_i32_period [of "a + n div 146097 * 400" 25]
    by (simp add: algebra_simps)
  have s: "z + 146097 * 268435456 + 719468 = n + 146097 * 268435456" "z + 719468 = n" by (simp_all add: n_def)
  show ?thesis
    using assms unfolding civil_from_days_def s Let_def era_of_days
    by (simp only: bind.bind_lunit e r y era_shift)
qed

text \<open>The bounds check of \<open>ordinal_to_legal_act_effect_day\<close> comes after the year was narrowed
to \<open>i32\<close>: the ordinal \<open>146097 * 2 ^ 28\<close> days later, about 107 thousand million years, is accepted
and gives the same day, so the operation is not injective on \<open>i64\<close> and does not reject every
ordinal outside the catalog.\<close>

theorem calendar_ordinal_wraps:
  assumes "legal_act_effect_day_to_ordinal text iso_day = Inr n"
  shows "ordinal_to_legal_act_effect_day text (n + 146097 * 2 ^ 28) = Some (Inr iso_day)"
proof -
  obtain b y m d where b: "parse_calendar_bounds text = Inr b"
    and p: "parse_civil_day iso_day b = Inr (y, m, d)"
    and n: "n = days_from_civil y m d -
      days_from_civil (cb_epoch_year b) (cb_epoch_month b) (cb_epoch_day b)"
    using assms by (auto simp: legal_act_effect_day_to_ordinal_def split: sum.splits)
  have iso: "parse_iso_parts iso_day = Some (y, m, d)" "cb_min_year b \<le> y" "y \<le> cb_max_year b"
    and v: "is_valid_civil_day y m d"
    using p by (auto simp: parse_civil_day_def split: option.splits if_splits)
  note f = parse_iso_format [OF iso(1)]
  define z where "z = days_from_civil y m d"
  have i64: "i64_checked (z + k) = Some (z + k)" if "0 \<le> k" "k \<le> 80000000000000" for k
    using days_bounds [OF v] f that by (simp add: i64_checked_def z_def)
  have "civil_from_days (z + 146097 * 268435456) = civil_from_days z"
    by (rule civil_from_days_wraps) (use i64 [of 719468] i64 [of "719468 + 146097 * 268435456"] in \<open>simp_all add: ac_simps\<close>)
  moreover have "civil_from_days z = Some (y, m, d)"
    using civil_round_trip [OF v] f by (simp add: z_def)
  moreover have "i64_checked (z + 146097 * 268435456) = Some (z + 146097 * 268435456)"
    by (rule i64) simp_all
  ultimately show ?thesis
    using iso v f by (simp add: ordinal_to_legal_act_effect_day_def b n z_def [symmetric])
qed

theorem calendar_ordinal_wraps_witness:
  "ordinal_to_legal_act_effect_day ONTOLOGY_CALENDAR (77490 + 146097 * 2 ^ 28) = Some (Inr ''2012-02-29'')"
  by (rule calendar_ordinal_wraps) (rule leap_day_ordinal)

end
