(* ===== verification/LN_Membership.thy ===== *)
theory LN_Membership
  imports LN_Force
begin

text \<open>
  The structural membership graph of \<open>crates/ln-temporal/src/domain.rs\<close> (RC11-F08, TSG-003/013):
  edges from parent to child, the insertion guards, the industrial operations (renumber, move,
  split, merge) as plan and apply, the append-only structural event log, and the join of the force
  resolver with the graph. \<open>apply_industrial_op\<close> mutates its graph through a reference before its
  last guard, so its model returns the graph and the log on the error path, too.
\<close>

section \<open>The graph\<close>

datatype ctv_ops_error =
  CO_InvalidId id_error | CO_SelfMembership | CO_DuplicateMembership | CO_MembershipCycle
| CO_MultipleParents | CO_MissingProvenance | CO_InvalidArity | CO_UnknownSubject
| CO_TargetCollision | CO_WholeActIncomplete | CO_PlanMismatch | CO_DuplicateOpId
| CO_MembershipConflict

datatype ctv_industrial_op_kind = Renumber | MoveOp | Split | Merge

fun op_kind_as_str :: "ctv_industrial_op_kind \<Rightarrow> string" where
  "op_kind_as_str Renumber = ''renumber''"
| "op_kind_as_str MoveOp = ''move''"
| "op_kind_as_str Split = ''split''"
| "op_kind_as_str Merge = ''merge''"

record membership_edge =
  me_parent :: component_id
  me_child :: component_id

definition edge_try_new :: "component_id \<Rightarrow> component_id \<Rightarrow> ctv_ops_error + membership_edge" where
  "edge_try_new parent child =
     (if parent = child then Inl CO_SelfMembership
      else Inr \<lparr>me_parent = parent, me_child = child\<rparr>)"

type_synonym membership_graph = "membership_edge list"

definition graph_insert :: "membership_graph \<Rightarrow> membership_edge \<Rightarrow> ctv_ops_error + membership_graph" where
  "graph_insert edges edge =
     (if list_ex (\<lambda>e. me_parent e = me_parent edge \<and> me_child e = me_child edge) edges
        then Inl CO_DuplicateMembership
      else if list_ex (\<lambda>e. me_parent e = me_child edge \<and> me_child e = me_parent edge) edges
        then Inl CO_MembershipCycle
      else if list_ex (\<lambda>e. me_child e = me_child edge) edges then Inl CO_MultipleParents
      else Inr (edges @ [edge]))"

definition parent_of :: "membership_graph \<Rightarrow> component_id \<Rightarrow> component_id option" where
  "parent_of edges child = map_option me_parent (find (\<lambda>e. me_child e = child) edges)"

definition children_of :: "membership_graph \<Rightarrow> component_id \<Rightarrow> component_id list" where
  "children_of edges parent = map me_child (filter (\<lambda>e. me_parent e = parent) edges)"

definition is_endpoint :: "membership_graph \<Rightarrow> component_id \<Rightarrow> bool" where
  "is_endpoint edges c = list_ex (\<lambda>e. me_parent e = c \<or> me_child e = c) edges"

section \<open>Industrial operations\<close>

record industrial_op_request =
  oq_op_id :: string
  oq_kind :: ctv_industrial_op_kind
  oq_subjects :: "component_id list"
  oq_targets :: "component_id list"
  oq_provenance :: amending_act_id

record industrial_op_plan =
  op_op_id :: string
  op_kind :: ctv_industrial_op_kind
  op_provenance :: amending_act_id
  op_notes :: "string list"

definition F08_NON_CLAIMS :: "string list" where
  "F08_NON_CLAIMS =
     [''Structural membership and industrial ops are not full CTV temporal resolution'',
      ''Does not prove legal amendment correctness or real-corpus compilation'',
      ''Renumber/move/split/merge plans are structural only; not NormativeEffect events'',
      ''Whole-act compile remains fail-closed; incomplete membership never assembles partially'',
      ''Lifecycle [proposed]; not product readiness or legal validation'']"

text \<open>The loop over \<open>seen\<close>.\<close>

fun has_duplicate :: "string list \<Rightarrow> string list \<Rightarrow> bool" where
  "has_duplicate seen [] = False"
| "has_duplicate seen (x # xs) = (if x \<in> set seen then True else has_duplicate (seen @ [x]) xs)"

definition check_request :: "industrial_op_request \<Rightarrow> ctv_ops_error option" where
  "check_request request =
     (let subjects = oq_subjects request; targets = oq_targets request
      in case oq_kind request of
           Renumber \<Rightarrow>
             if length subjects \<noteq> 1 \<or> length targets \<noteq> 1 then Some CO_InvalidArity
             else if subjects ! 0 = targets ! 0 then Some CO_TargetCollision else None
         | MoveOp \<Rightarrow>
             if length subjects \<noteq> 1 \<or> length targets \<noteq> 1 then Some CO_InvalidArity
             else if subjects ! 0 = targets ! 0 then Some CO_TargetCollision else None
         | Split \<Rightarrow>
             if length subjects \<noteq> 1 \<or> length targets < 2 then Some CO_InvalidArity
             else if list_ex (\<lambda>t. t = subjects ! 0) targets then Some CO_TargetCollision
             else if has_duplicate [] targets then Some CO_TargetCollision else None
         | Merge \<Rightarrow>
             if length subjects < 2 \<or> length targets \<noteq> 1 then Some CO_InvalidArity
             else if list_ex (\<lambda>s. s = targets ! 0) subjects then Some CO_TargetCollision
             else if has_duplicate [] subjects then Some CO_TargetCollision else None)"

text \<open>The plan reads the graph only to discard the result, so it does not depend on it.\<close>

definition plan_industrial_op ::
    "membership_graph \<Rightarrow> industrial_op_request \<Rightarrow> ctv_ops_error + industrial_op_plan" where
  "plan_industrial_op graph request =
     (if oq_provenance request = [] then Inl CO_MissingProvenance
      else case check_request request of
        Some e \<Rightarrow> Inl e
      | None \<Rightarrow> Inr \<lparr>op_op_id = oq_op_id request, op_kind = oq_kind request,
                     op_provenance = oq_provenance request, op_notes = F08_NON_CLAIMS\<rparr>)"

fun whole_act_structural_compile :: "membership_graph \<Rightarrow> component_id list \<Rightarrow> ctv_ops_error + unit" where
  "whole_act_structural_compile graph [] = Inr ()"
| "whole_act_structural_compile graph (cc # rest) =
     (if \<not> is_endpoint graph cc then Inl CO_WholeActIncomplete
      else whole_act_structural_compile graph rest)"

record structural_industrial_event =
  se_op_id :: string
  se_kind :: ctv_industrial_op_kind
  se_subjects :: "component_id list"
  se_targets :: "component_id list"
  se_provenance :: amending_act_id

type_synonym structural_event_log = "structural_industrial_event list"

record industrial_op_apply_receipt =
  or_op_id :: string
  or_kind :: ctv_industrial_op_kind
  or_non_claims :: "string list"

definition S3_APPLY_NON_CLAIMS :: "string list" where
  "S3_APPLY_NON_CLAIMS =
     [''Structural membership apply is not full CTV temporal resolution'',
      ''Does not prove legal amendment correctness or real-corpus compilation'',
      ''Append-only structural events are not NormativeEffectEvent runtime'',
      ''Bounded offline apply only; lifecycle [proposed]; not product readiness'']"

definition contains_op :: "structural_event_log \<Rightarrow> string \<Rightarrow> bool" where
  "contains_op log op_id = list_ex (\<lambda>e. se_op_id e = op_id) log"

definition remove_edges_involving :: "membership_graph \<Rightarrow> component_id \<Rightarrow> membership_graph" where
  "remove_edges_involving graph cid = filter (\<lambda>e. me_parent e \<noteq> cid \<and> me_child e \<noteq> cid) graph"

definition rewrite_edge :: "component_id \<Rightarrow> component_id \<Rightarrow> membership_edge \<Rightarrow> membership_edge" where
  "rewrite_edge from to edge =
     (let edge = (if me_parent edge = from then edge\<lparr>me_parent := to\<rparr> else edge)
      in if me_child edge = from then edge\<lparr>me_child := to\<rparr> else edge)"

definition rewrite_component_id ::
    "membership_graph \<Rightarrow> component_id \<Rightarrow> component_id \<Rightarrow> ctv_ops_error + membership_graph" where
  "rewrite_component_id graph from to =
     (if from = to then Inl CO_TargetCollision
      else if is_endpoint graph to then Inl CO_TargetCollision
      else Inr (map (rewrite_edge from to) graph))"

text \<open>\<open>graph.insert(MembershipEdge::try_new(p, c)?)?\<close>: the graph afterwards and the error, if any.\<close>

definition insert_new :: "membership_graph \<Rightarrow> component_id \<Rightarrow> component_id \<Rightarrow> membership_graph \<times> ctv_ops_error option" where
  "insert_new graph p c =
     (case edge_try_new p c of
        Inl e \<Rightarrow> (graph, Some e)
      | Inr edge \<Rightarrow> (case graph_insert graph edge of Inl e \<Rightarrow> (graph, Some e) | Inr g \<Rightarrow> (g, None)))"

fun insert_targets ::
    "membership_graph \<Rightarrow> component_id \<Rightarrow> component_id list \<Rightarrow> membership_graph \<times> ctv_ops_error option" where
  "insert_targets graph p [] = (graph, None)"
| "insert_targets graph p (target # targets) =
     (case insert_new graph p target of
        (g, Some e) \<Rightarrow> (g, Some e)
      | (g, None) \<Rightarrow> insert_targets g p targets)"

fun first_parent :: "membership_graph \<Rightarrow> component_id list \<Rightarrow> component_id option" where
  "first_parent graph [] = None"
| "first_parent graph (s # ss) = (case parent_of graph s of Some p \<Rightarrow> Some p | None \<Rightarrow> first_parent graph ss)"

text \<open>The \<open>match\<close> on the kind: the graph that the reference holds afterwards, and the error.\<close>

definition apply_kind :: "membership_graph \<Rightarrow> industrial_op_request \<Rightarrow> membership_graph \<times> ctv_ops_error option" where
  "apply_kind graph request =
     (let subjects = oq_subjects request; targets = oq_targets request
      in case oq_kind request of
           MoveOp \<Rightarrow>
             let subject = subjects ! 0; new_parent = targets ! 0
             in insert_new (filter (\<lambda>e. me_child e \<noteq> subject) graph) new_parent subject
         | Renumber \<Rightarrow>
             (case rewrite_component_id graph (subjects ! 0) (targets ! 0) of
                Inl e \<Rightarrow> (graph, Some e) | Inr g \<Rightarrow> (g, None))
         | Split \<Rightarrow>
             let subject = subjects ! 0;
                 parent = parent_of graph subject;
                 graph = remove_edges_involving graph subject
             in (case parent of None \<Rightarrow> (graph, None) | Some p \<Rightarrow> insert_targets graph p targets)
         | Merge \<Rightarrow>
             let target = targets ! 0;
                 parent = first_parent graph subjects;
                 graph = foldl remove_edges_involving graph subjects
             in (case parent of None \<Rightarrow> (graph, None) | Some p \<Rightarrow> insert_new graph p target))"

definition apply_industrial_op ::
    "membership_graph \<Rightarrow> structural_event_log \<Rightarrow> industrial_op_request \<Rightarrow> industrial_op_plan \<Rightarrow>
     membership_graph \<times> structural_event_log \<times> (ctv_ops_error + industrial_op_apply_receipt)" where
  "apply_industrial_op graph log request plan =
     (if op_op_id plan \<noteq> oq_op_id request \<or> op_kind plan \<noteq> oq_kind request \<or>
         op_provenance plan \<noteq> oq_provenance request
      then (graph, log, Inl CO_PlanMismatch)
      else case plan_industrial_op graph request of
        Inl e \<Rightarrow> (graph, log, Inl e)
      | Inr _ \<Rightarrow>
          if contains_op log (oq_op_id request) then (graph, log, Inl CO_DuplicateOpId)
          else case apply_kind graph request of
            (graph', Some e) \<Rightarrow> (graph', log, Inl e)
          | (graph', None) \<Rightarrow>
              (graph',
               log @ [\<lparr>se_op_id = oq_op_id request, se_kind = oq_kind request,
                       se_subjects = oq_subjects request, se_targets = oq_targets request,
                       se_provenance = oq_provenance request\<rparr>],
               Inr \<lparr>or_op_id = oq_op_id request, or_kind = oq_kind request,
                    or_non_claims = F08_NON_CLAIMS @ S3_APPLY_NON_CLAIMS\<rparr>))"

section \<open>Join with the force resolver\<close>

record force_membership_join =
  fj_component :: component_id
  fj_as_of_day :: int
  fj_force :: force_status_resolution
  fj_structural_known :: bool
  fj_parent :: "component_id option"
  fj_children :: "component_id list"
  fj_claims_applicability :: bool
  fj_non_claims :: "string list"

definition FORCE_CTV_JOIN_NON_CLAIMS :: "string list" where
  "FORCE_CTV_JOIN_NON_CLAIMS =
     [''Force'' @ [CHR 0xE2, CHR 0x86, CHR 0x94] @ ''membership join is offline structural only; not CTV text edition store'',
      ''Structural membership does not imply ForceStatus InForce'',
      ''InForce after join still does not imply Applicability'',
      ''Not multi-provider identity, not corpus status edges, not product readiness'',
      ''Lifecycle [proposed]; KBO-R012 partial; not O3 fixture edges'']"

definition join_force_with_membership ::
    "force_status_timeline \<Rightarrow> membership_graph \<Rightarrow> component_id \<Rightarrow> int \<Rightarrow>
     normative_state_error + force_membership_join" where
  "join_force_with_membership timeline graph component as_of_day =
     (case resolve_force_status_at timeline component as_of_day of
        Inl e \<Rightarrow> Inl e
      | Inr force \<Rightarrow>
          let parent = parent_of graph component;
              children = children_of graph component;
              structural_known = (parent \<noteq> None \<or> children \<noteq> [] \<or> is_endpoint graph component)
          in Inr \<lparr>fj_component = component, fj_as_of_day = as_of_day, fj_force = force,
                  fj_structural_known = structural_known, fj_parent = parent, fj_children = children,
                  fj_claims_applicability = False,
                  fj_non_claims = F09_NON_CLAIMS @ FORCE_RESOLVER_NON_CLAIMS @ FORCE_CTV_JOIN_NON_CLAIMS\<rparr>)"

section \<open>Invariant\<close>

text \<open>One parent per child, no self edge, no pair of opposite edges.\<close>

definition graph_wf :: "membership_graph \<Rightarrow> bool" where
  "graph_wf g = (distinct (map me_child g) \<and>
     (\<forall>e \<in> set g. me_parent e \<noteq> me_child e) \<and>
     (\<forall>e \<in> set g. \<forall>f \<in> set g. \<not> (me_parent e = me_child f \<and> me_child e = me_parent f)))"

definition edge_pairs :: "membership_graph \<Rightarrow> (component_id \<times> component_id) set" where
  "edge_pairs g = (\<lambda>e. (me_parent e, me_child e)) ` set g"

lemma graph_insert_Inr:
  "graph_insert g e = Inr g' \<longleftrightarrow> g' = g @ [e] \<and> me_child e \<notin> me_child ` set g \<and>
     (\<forall>f \<in> set g. \<not> (me_parent f = me_child e \<and> me_child f = me_parent e))"
  by (simp add: graph_insert_def list_ex_iff image_iff) metis

lemma graph_insert_wf:
  "graph_wf g \<Longrightarrow> me_parent e \<noteq> me_child e \<Longrightarrow> graph_insert g e = Inr g' \<Longrightarrow> graph_wf g'"
  by (auto simp: graph_insert_Inr graph_wf_def)

lemma graph_wf_filter: "graph_wf g \<Longrightarrow> graph_wf (filter P g)"
  by (auto simp: graph_wf_def distinct_map_filter)

lemma insert_new_wf: "graph_wf g \<Longrightarrow> graph_wf (fst (insert_new g p c))"
  using graph_insert_wf [of g "\<lparr>me_parent = p, me_child = c\<rparr>"]
  by (auto simp: insert_new_def edge_try_new_def split: sum.split)

lemma insert_targets_wf: "graph_wf g \<Longrightarrow> graph_wf (fst (insert_targets g p ts))"
proof (induction ts arbitrary: g)
  case (Cons t ts)
  then show ?case using insert_new_wf [of g p t] by (auto split: prod.split option.split)
qed simp

lemma remove_edges_wf: "graph_wf g \<Longrightarrow> graph_wf (remove_edges_involving g c)"
  by (simp add: remove_edges_involving_def graph_wf_filter)

lemma remove_all_wf: "graph_wf g \<Longrightarrow> graph_wf (foldl remove_edges_involving g cs)"
  by (induction cs arbitrary: g) (simp_all add: remove_edges_wf)

definition renamed :: "component_id \<Rightarrow> component_id \<Rightarrow> component_id \<Rightarrow> component_id" where
  "renamed from to c = (if c = from then to else c)"

lemma rewrite_edge_fields [simp]:
  "me_parent (rewrite_edge from to e) = renamed from to (me_parent e)"
  "me_child (rewrite_edge from to e) = renamed from to (me_child e)"
  by (auto simp: rewrite_edge_def renamed_def Let_def)

lemma renamed_inj: "a \<noteq> to \<Longrightarrow> b \<noteq> to \<Longrightarrow> renamed from to a = renamed from to b \<longleftrightarrow> a = b"
  by (auto simp: renamed_def)

lemma rewrite_wf:
  assumes "graph_wf g" "rewrite_component_id g from to = Inr g'"
  shows "graph_wf g'"
proof -
  have g': "g' = map (rewrite_edge from to) g"
    and fresh: "\<And>e. e \<in> set g \<Longrightarrow> me_parent e \<noteq> to \<and> me_child e \<noteq> to"
    using assms(2) by (auto simp: rewrite_component_id_def is_endpoint_def list_ex_iff split: if_splits)
  have "map me_child g' = map (renamed from to) (map me_child g)" by (simp add: g')
  moreover have "inj_on (renamed from to) (set (map me_child g))"
    using fresh by (auto intro!: inj_onI simp: renamed_inj)
  ultimately have "distinct (map me_child g')"
    using assms(1) by (metis distinct_map graph_wf_def)
  with assms(1) fresh show ?thesis by (auto simp: graph_wf_def g' renamed_inj)
qed

lemma apply_kind_wf: "graph_wf g \<Longrightarrow> graph_wf (fst (apply_kind g request))"
  by (auto simp: apply_kind_def Let_def insert_new_wf graph_wf_filter insert_targets_wf remove_edges_wf
      remove_all_wf rewrite_wf split: ctv_industrial_op_kind.split option.split sum.split)

lemma has_duplicate_iff: "has_duplicate seen xs \<longleftrightarrow> \<not> distinct xs \<or> set seen \<inter> set xs \<noteq> {}"
  by (induction xs arbitrary: seen) auto

definition log_ids_distinct :: "structural_event_log \<Rightarrow> bool" where
  "log_ids_distinct log = distinct (map se_op_id log)"

lemma contains_op_iff: "contains_op log i \<longleftrightarrow> i \<in> se_op_id ` set log"
  by (auto simp: contains_op_def list_ex_iff)

lemma parent_of_eq_Some:
  "graph_wf g \<Longrightarrow> parent_of g c = Some p \<longleftrightarrow> (p, c) \<in> edge_pairs g"
proof (induction g)
  case (Cons e g)
  then have "graph_wf g" by (auto simp: graph_wf_def)
  with Cons show ?case by (auto simp: parent_of_def edge_pairs_def graph_wf_def image_iff)
qed (simp add: parent_of_def edge_pairs_def)

section \<open>What the operations do\<close>

lemma edge_pairs_append [simp]: "edge_pairs (g @ h) = edge_pairs g \<union> edge_pairs h"
  by (auto simp: edge_pairs_def)

lemma edge_pairs_single [simp]: "edge_pairs [e] = {(me_parent e, me_child e)}"
  by (simp add: edge_pairs_def)

lemma insert_new_None:
  "insert_new g p c = (g', None) \<Longrightarrow> edge_pairs g' = edge_pairs g \<union> {(p, c)}"
  by (auto simp: insert_new_def edge_try_new_def graph_insert_Inr split: sum.splits if_splits)

lemma insert_targets_None:
  "insert_targets g p ts = (g', None) \<Longrightarrow> edge_pairs g' = edge_pairs g \<union> {p} \<times> set ts"
proof (induction ts arbitrary: g)
  case (Cons t ts)
  then obtain h where "insert_new g p t = (h, None)" "insert_targets h p ts = (g', None)"
    by (auto split: prod.splits option.splits)
  with Cons.IH insert_new_None show ?case by fastforce
qed simp

lemma edge_pairs_remove_all:
  "edge_pairs (foldl remove_edges_involving g cs) = {(p, c) \<in> edge_pairs g. p \<notin> set cs \<and> c \<notin> set cs}"
  by (induction cs arbitrary: g) (auto simp: remove_edges_involving_def edge_pairs_def)

lemma edge_pairs_rewrite:
  "edge_pairs (map (rewrite_edge from to) g) = map_prod (renamed from to) (renamed from to) ` edge_pairs g"
  by (force simp: edge_pairs_def image_image)

text \<open>
  The specification of a successful operation, over the set of edges. The parents of some components are listed in the
  order of the components, and of the edges for each.
\<close>

definition parents_listed :: "membership_graph \<Rightarrow> component_id list \<Rightarrow> component_id list" where
  "parents_listed g cs = concat (map (\<lambda>c. map me_parent (filter (\<lambda>e. me_child e = c) g)) cs)"

lemma parent_of_listed: "parent_of g c = Some p \<longleftrightarrow> (\<exists>ps. parents_listed g [c] = p # ps)"
  by (induction g) (auto simp: parent_of_def parents_listed_def)

lemma first_parent_listed: "first_parent g cs = Some p \<longleftrightarrow> (\<exists>ps. parents_listed g cs = p # ps)"
proof (induction cs)
  case (Cons c cs)
  have split: "parents_listed g (c # cs) = parents_listed g [c] @ parents_listed g cs" by (simp add: parents_listed_def)
  show ?case
  proof (cases "parents_listed g [c]")
    case Nil
    then have "parent_of g c = None" using parent_of_listed [of g c] by (cases "parent_of g c") auto
    with Nil Cons.IH show ?thesis unfolding split by simp
  next
    case (Cons q qs)
    then have "parent_of g c = Some q" using parent_of_listed by blast
    with Cons show ?thesis unfolding split by auto
  qed
qed (simp add: parents_listed_def)

definition op_effect ::
    "industrial_op_request \<Rightarrow> membership_graph \<Rightarrow> (component_id \<times> component_id) set" where
  "op_effect request g =
     (let S = set (oq_subjects request); T = set (oq_targets request);
          s = oq_subjects request ! 0; t = oq_targets request ! 0;
          rest = {(p, c) \<in> edge_pairs g. p \<notin> S \<and> c \<notin> S}
      in case oq_kind request of
           MoveOp \<Rightarrow> {(p, c) \<in> edge_pairs g. c \<noteq> s} \<union> {(t, s)}
         | Renumber \<Rightarrow> map_prod (renamed s t) (renamed s t) ` edge_pairs g
         | Split \<Rightarrow> rest \<union> {(p, c). (\<exists>ps. parents_listed g [s] = p # ps) \<and> c \<in> T}
         | Merge \<Rightarrow> rest \<union> {(p, c). (\<exists>ps. parents_listed g (oq_subjects request) = p # ps) \<and> c = t})"

lemmas op_effect_coded = op_effect_def [folded parent_of_listed first_parent_listed]

lemma apply_kind_effect:
  assumes "apply_kind g request = (g', None)" "check_request request = None"
  shows "edge_pairs g' = op_effect request g"
proof (cases "oq_kind request")
  case MoveOp
  with assms(1) have "insert_new (filter (\<lambda>e. me_child e \<noteq> oq_subjects request ! 0) g)
      (oq_targets request ! 0) (oq_subjects request ! 0) = (g', None)"
    by (simp add: apply_kind_def Let_def)
  from insert_new_None [OF this] MoveOp show ?thesis
    by (auto simp: op_effect_coded Let_def edge_pairs_def)
next
  case Renumber
  with assms(1) show ?thesis
    by (auto simp: apply_kind_def Let_def op_effect_coded rewrite_component_id_def edge_pairs_rewrite
        split: sum.splits if_splits)
next
  case Split
  with assms(2) have S: "set (oq_subjects request) = {oq_subjects request ! 0}"
    by (cases "oq_subjects request") (auto simp: check_request_def Let_def split: if_splits)
  note rem = edge_pairs_remove_all [of g "[oq_subjects request ! 0]", simplified]
  show ?thesis
  proof (cases "parent_of g (oq_subjects request ! 0)")
    case None
    with Split assms(1) rem show ?thesis by (auto simp: apply_kind_def Let_def op_effect_coded S)
  next
    case (Some p)
    with Split assms(1) have "insert_targets (remove_edges_involving g (oq_subjects request ! 0)) p
        (oq_targets request) = (g', None)" by (simp add: apply_kind_def Let_def)
    from insert_targets_None [OF this] Some Split rem show ?thesis
      by (auto simp: op_effect_coded Let_def S)
  qed
next
  case Merge
  note rem = edge_pairs_remove_all [of g "oq_subjects request"]
  show ?thesis
  proof (cases "first_parent g (oq_subjects request)")
    case None
    with Merge assms(1) rem show ?thesis by (auto simp: apply_kind_def Let_def op_effect_coded)
  next
    case (Some p)
    with Merge assms(1) have "insert_new (foldl remove_edges_involving g (oq_subjects request)) p
        (oq_targets request ! 0) = (g', None)" by (simp add: apply_kind_def Let_def)
    from insert_new_None [OF this] Some Merge rem show ?thesis
      by (auto simp: op_effect_coded Let_def)
  qed
qed

lemma plan_Inr_check: "plan_industrial_op g request = Inr p \<Longrightarrow> check_request request = None"
  by (auto simp: plan_industrial_op_def split: if_splits option.splits)

text \<open>The outcomes of one application.\<close>

lemma apply_cases:
  assumes "apply_industrial_op g log request plan = (g', log', r)"
  obtains (refused) e where "r = Inl e" "g' = g" "log' = log"
  | (partial) e where "r = Inl e" "apply_kind g request = (g', Some e)" "log' = log"
  | (applied) receipt where "r = Inr receipt" "apply_kind g request = (g', None)"
      "check_request request = None" "\<not> contains_op log (oq_op_id request)"
      "log' = log @ [\<lparr>se_op_id = oq_op_id request, se_kind = oq_kind request,
         se_subjects = oq_subjects request, se_targets = oq_targets request,
         se_provenance = oq_provenance request\<rparr>]"
      "or_op_id receipt = oq_op_id request" "or_kind receipt = oq_kind request"
proof (cases "op_op_id plan \<noteq> oq_op_id request \<or> op_kind plan \<noteq> oq_kind request \<or>
    op_provenance plan \<noteq> oq_provenance request")
  case True
  with assms have "r = Inl CO_PlanMismatch" "g' = g" "log' = log"
    by (simp_all add: apply_industrial_op_def)
  then show thesis by (rule refused)
next
  case match: False
  show thesis
  proof (cases "plan_industrial_op g request")
    case (Inl e)
    with assms match have "r = Inl e" "g' = g" "log' = log" by (simp_all add: apply_industrial_op_def)
    then show thesis by (rule refused)
  next
    case (Inr p)
    show thesis
    proof (cases "contains_op log (oq_op_id request)")
      case True
      with assms match Inr have "r = Inl CO_DuplicateOpId" "g' = g" "log' = log"
        by (simp_all add: apply_industrial_op_def)
      then show thesis by (rule refused)
    next
      case fresh: False
      obtain g1 err where k: "apply_kind g request = (g1, err)" by (cases "apply_kind g request")
      show thesis
      proof (cases err)
        case None
        note out = assms [symmetric] and none = None
        show thesis
          by (rule applied [OF _ _ plan_Inr_check [OF Inr] fresh])
            (use out match Inr fresh k none in \<open>simp_all add: apply_industrial_op_def\<close>, simp_all)
      next
        case (Some e)
        with assms match Inr fresh k have "r = Inl e" "apply_kind g request = (g', Some e)" "log' = log"
          by (simp_all add: apply_industrial_op_def)
        then show thesis by (rule partial)
      qed
    qed
  qed
qed

text \<open>C38. Every call of \<open>apply_industrial_op\<close>, refused or not, keeps the structural invariant (one
parent per child, no self edge, no opposite pair) and the uniqueness of operation ids in the
append-only event log; a success adds exactly the request as the last event, with its kind, subjects, targets and
provenance, and its receipt names the operation; an error leaves the log as it was.\<close>

theorem apply_industrial_op_invariant:
  assumes "apply_industrial_op g log request plan = (g', log', r)"
    and "graph_wf g" "log_ids_distinct log"
  shows "graph_wf g' \<and> log_ids_distinct log' \<and>
     (case r of Inl _ \<Rightarrow> log' = log
      | Inr receipt \<Rightarrow> log' = log @
            [\<lparr>se_op_id = oq_op_id request, se_kind = oq_kind request, se_subjects = oq_subjects request,
              se_targets = oq_targets request, se_provenance = oq_provenance request\<rparr>] \<and>
          or_op_id receipt = oq_op_id request \<and> or_kind receipt = oq_kind request \<and>
          oq_op_id request \<notin> se_op_id ` set log)"
  using assms(1)
proof (cases rule: apply_cases)
  case refused
  with assms show ?thesis by simp
next
  case partial
  with assms(3) apply_kind_wf [OF assms(2), of request] show ?thesis by simp
next
  case applied
  with assms(3) apply_kind_wf [OF assms(2), of request] show ?thesis
    by (simp add: log_ids_distinct_def contains_op_iff)
qed

text \<open>C40. A successful application leaves exactly the edges that its kind asks for, whatever the graph was: a move
replaces the parents of its subject by its target; a renumbering renames both endpoints of every edge; a split
and a merge drop every edge that touches a subject and hang the targets under the parent of the subject, the
first parent that one of the subjects has, or under none when there is none.\<close>

theorem apply_industrial_op_effect:
  assumes "apply_industrial_op g log request plan = (g', log', Inr receipt)"
  shows "edge_pairs g' = op_effect request g"
  using assms by (elim apply_cases) (simp_all add: apply_kind_effect)

definition edge :: "component_id \<Rightarrow> component_id \<Rightarrow> membership_edge" where
  "edge p c = \<lparr>me_parent = p, me_child = c\<rparr>"

definition op_request :: "ctv_industrial_op_kind \<Rightarrow> component_id list \<Rightarrow> component_id list \<Rightarrow> industrial_op_request" where
  "op_request kind subjects targets = \<lparr>oq_op_id = ''op:1'', oq_kind = kind, oq_subjects = subjects,
     oq_targets = targets, oq_provenance = ''act:1''\<rparr>"

definition op_plan :: "ctv_industrial_op_kind \<Rightarrow> industrial_op_plan" where
  "op_plan kind = \<lparr>op_op_id = ''op:1'', op_kind = kind, op_provenance = ''act:1'',
     op_notes = F08_NON_CLAIMS\<rparr>"

theorem apply_industrial_op_invariant_witness:
  "graph_wf (fst (apply_industrial_op [edge ''r'' ''a'', edge ''r'' ''b''] []
     (op_request MoveOp [''a''] [''b'']) (op_plan MoveOp)))"
proof -
  let ?r = "apply_industrial_op [edge ''r'' ''a'', edge ''r'' ''b''] []
     (op_request MoveOp [''a''] [''b'']) (op_plan MoveOp)"
  have "?r = (fst ?r, fst (snd ?r), snd (snd ?r))" by simp
  moreover have "graph_wf [edge ''r'' ''a'', edge ''r'' ''b'']" by (simp add: graph_wf_def edge_def)
  moreover have "log_ids_distinct []" by (simp add: log_ids_distinct_def)
  ultimately show ?thesis by (rule apply_industrial_op_invariant [THEN conjunct1])
qed

lemma split_example:
  "apply_industrial_op [edge ''r'' ''a'', edge ''a'' ''x''] []
     (op_request Split [''a''] [''b'', ''c'']) (op_plan Split) =
   ([edge ''r'' ''b'', edge ''r'' ''c''],
    [\<lparr>se_op_id = ''op:1'', se_kind = Split, se_subjects = [''a''], se_targets = [''b'', ''c''],
      se_provenance = ''act:1''\<rparr>],
    Inr \<lparr>or_op_id = ''op:1'', or_kind = Split, or_non_claims = F08_NON_CLAIMS @ S3_APPLY_NON_CLAIMS\<rparr>)"
  by (simp add: apply_industrial_op_def plan_industrial_op_def check_request_def apply_kind_def
      op_request_def op_plan_def edge_def parent_of_def remove_edges_involving_def insert_new_def
      edge_try_new_def graph_insert_def contains_op_def)

theorem apply_industrial_op_effect_witness:
  "op_effect (op_request Split [''a''] [''b'', ''c'']) [edge ''r'' ''a'', edge ''a'' ''x''] =
     {(''r'', ''b''), (''r'', ''c'')}"
  using apply_industrial_op_effect [OF split_example] by (simp add: edge_pairs_def edge_def)

text \<open>An error of \<open>apply_industrial_op\<close> is not atomic: moving a component under its own child is
refused as a cycle after the old parent edge was dropped, so the graph has lost an edge that no event of the
log explains.\<close>

theorem apply_move_error_loses_edge:
  "apply_industrial_op [edge ''r'' ''a'', edge ''a'' ''b''] []
     (op_request MoveOp [''a''] [''b'']) (op_plan MoveOp) =
   ([edge ''a'' ''b''], [], Inl CO_MembershipCycle)"
  by (simp add: apply_industrial_op_def plan_industrial_op_def check_request_def apply_kind_def
      op_request_def op_plan_def edge_def insert_new_def edge_try_new_def graph_insert_def contains_op_def)

text \<open>The guards are local: moving a component under its grandchild succeeds and leaves a cycle
of three components, and a merge whose first parent is itself merged hangs the target under a component that
no longer exists.\<close>

theorem apply_accepts_cycle_and_dangling_parent:
  "fst (apply_industrial_op [edge ''a'' ''b'', edge ''b'' ''c''] []
     (op_request MoveOp [''a''] [''c'']) (op_plan MoveOp)) =
     [edge ''a'' ''b'', edge ''b'' ''c'', edge ''c'' ''a''] \<and>
   fst (apply_industrial_op [edge ''r'' ''b'', edge ''b'' ''a''] []
     (op_request Merge [''a'', ''b''] [''m'']) (op_plan Merge)) = [edge ''b'' ''m'']"
  by (simp add: apply_industrial_op_def plan_industrial_op_def check_request_def apply_kind_def
      op_request_def op_plan_def edge_def insert_new_def edge_try_new_def graph_insert_def contains_op_def Let_def
      parent_of_def remove_edges_involving_def)

text \<open>The join of the force resolver with the graph never changes what the resolver says: the
structural context is exactly the endpoint relation, it carries the resolver's status and conflict
unchanged, and applicability is never claimed.\<close>

theorem join_force_faithful:
  "join_force_with_membership timeline g c t =
     (case resolve_force_status_at timeline c t of
        Inl e \<Rightarrow> Inl e
      | Inr force \<Rightarrow> Inr \<lparr>fj_component = c, fj_as_of_day = t, fj_force = force,
          fj_structural_known = is_endpoint g c, fj_parent = parent_of g c, fj_children = children_of g c,
          fj_claims_applicability = False,
          fj_non_claims = F09_NON_CLAIMS @ FORCE_RESOLVER_NON_CLAIMS @ FORCE_CTV_JOIN_NON_CLAIMS\<rparr>)"
proof -
  have "parent_of g c \<noteq> None \<Longrightarrow> is_endpoint g c"
    by (auto simp: parent_of_def is_endpoint_def list_ex_iff find_Some_iff)
  moreover have "children_of g c \<noteq> [] \<Longrightarrow> is_endpoint g c"
    by (auto simp: children_of_def is_endpoint_def list_ex_iff filter_empty_conv)
  ultimately show ?thesis
    by (auto simp: join_force_with_membership_def Let_def split: sum.split)
qed

lemma whole_act_compile_iff:
  "whole_act_structural_compile g cs = (if list_all (is_endpoint g) cs then Inr () else Inl CO_WholeActIncomplete)"
  by (induction cs) auto

end
