(* ===== verification/LN_Fold.thy ===== *)
theory LN_Fold
  imports LN_Membership "HOL-Library.Product_Lexorder" "HOL-Library.Multiset"
begin

text \<open>
  The versioned membership log of \<open>crates/ln-temporal/src/domain.rs\<close> and its fold into a
  structural tree at an effect day (TSG-013). The recursion \<open>build_node\<close> of the code has no bound
  of its own: its model takes fuel, and the lemmas show that one more than the number of edges is
  always enough, from any root, and that its \<open>expect\<close> never fails on valid components.
\<close>

datatype membership_change_kind = Attach | Detach

fun change_as_str :: "membership_change_kind \<Rightarrow> string" where
  "change_as_str Attach = ''attach''"
| "change_as_str Detach = ''detach''"

record versioned_membership_event =
  vm_kind :: membership_change_kind
  vm_parent :: component_id
  vm_child :: component_id
  vm_effect_day :: int
  vm_provenance :: amending_act_id

definition versioned_try_new ::
    "membership_change_kind \<Rightarrow> component_id \<Rightarrow> component_id \<Rightarrow> int \<Rightarrow> amending_act_id \<Rightarrow>
     ctv_ops_error + versioned_membership_event" where
  "versioned_try_new kind parent child effect_day provenance =
     (if parent = child then Inl CO_SelfMembership
      else if provenance = [] then Inl CO_MissingProvenance
      else Inr \<lparr>vm_kind = kind, vm_parent = parent, vm_child = child, vm_effect_day = effect_day,
                vm_provenance = provenance\<rparr>)"

type_synonym versioned_membership_log = "versioned_membership_event list"

definition versioned_append ::
    "versioned_membership_log \<Rightarrow> versioned_membership_event \<Rightarrow> ctv_ops_error + versioned_membership_log" where
  "versioned_append log event = Inr (log @ [event])"

datatype structural_ast_node = AstNode (ast_component: component_id) (ast_children: "structural_ast_node list")

record structural_ast =
  sa_as_of_day :: int
  sa_roots :: "structural_ast_node list"
  sa_non_claims :: "string list"

text \<open>Keep the nodes that are present or have a kept child.\<close>

fun filter_node :: "string list \<Rightarrow> structural_ast_node \<Rightarrow> structural_ast_node option"
and filter_nodes :: "string list \<Rightarrow> structural_ast_node list \<Rightarrow> structural_ast_node list" where
  "filter_node present (AstNode component nodes) =
     (let children = filter_nodes present nodes;
          keep = (component \<in> set present \<or> children \<noteq> [])
      in if \<not> keep then None else Some (AstNode component children))"
| "filter_nodes present [] = []"
| "filter_nodes present (node # nodes) =
     (case filter_node present node of
        None \<Rightarrow> filter_nodes present nodes
      | Some n \<Rightarrow> n # filter_nodes present nodes)"

definition filter_to_components :: "structural_ast \<Rightarrow> component_id list \<Rightarrow> structural_ast" where
  "filter_to_components ast present =
     \<lparr>sa_as_of_day = sa_as_of_day ast, sa_roots = filter_nodes present (sa_roots ast),
      sa_non_claims = sa_non_claims ast\<rparr>"

definition FOLD_NON_CLAIMS :: "string list" where
  "FOLD_NON_CLAIMS =
     [''StructuralAst is a fold projection, not canon and not a stored document tree'',
      ''Versioned membership is not CTV text resolution or legal amendment correctness'',
      ''Tree presence does not imply ForceStatus InForce'',
      ''Not Expression binding, not Manifestation, not applicability, not corpus proof'',
      ''Lifecycle [proposed]; TSG-013 fold spine; not O3 representative fixtures'']"

section \<open>The fold\<close>

definition event_key :: "versioned_membership_event \<Rightarrow> int \<times> string \<times> component_id \<times> component_id" where
  "event_key e = (vm_effect_day e, change_as_str (vm_kind e), vm_child e, vm_parent e)"

definition attach_pairs :: "versioned_membership_event list \<Rightarrow> (component_id \<times> component_id) list" where
  "attach_pairs es = map (\<lambda>e. (vm_child e, vm_parent e)) (filter (\<lambda>e. vm_kind e = Attach) es)"

text \<open>The nested loops over the sorted attachments of one day: distinct parents of one child.\<close>

function conflict_scan :: "(component_id \<times> component_id) list \<Rightarrow> bool" where
  "conflict_scan [] = False"
| "conflict_scan ((child, parent) # rest) =
     (let same = takeWhile (\<lambda>x. fst x = child) rest;
          parents = push_unknown [parent] (map snd same)
      in if length parents > 1 then True else conflict_scan (dropWhile (\<lambda>x. fst x = child) rest))"
  by pat_completeness auto
termination
  by (relation "measure length") (auto simp: less_Suc_eq_le length_dropWhile_le)

definition apply_change ::
    "(component_id \<times> component_id) list \<Rightarrow> versioned_membership_event \<Rightarrow> (component_id \<times> component_id) list" where
  "apply_change po ev =
     (case vm_kind ev of
        Detach \<Rightarrow> filter (\<lambda>(c, p). \<not> (c = vm_child ev \<and> p = vm_parent ev)) po
      | Attach \<Rightarrow> filter (\<lambda>(c, p). c \<noteq> vm_child ev) po @ [(vm_child ev, vm_parent ev)])"

function fold_days ::
    "versioned_membership_event list \<Rightarrow> (component_id \<times> component_id) list \<Rightarrow>
     ctv_ops_error + (component_id \<times> component_id) list" where
  "fold_days [] po = Inr po"
| "fold_days (e # es) po =
     (let slice = takeWhile (\<lambda>x. vm_effect_day x = vm_effect_day e) (e # es);
          rest = dropWhile (\<lambda>x. vm_effect_day x = vm_effect_day e) (e # es)
      in if conflict_scan (sort (attach_pairs slice)) then Inl CO_MembershipConflict
         else fold_days rest (foldl apply_change po slice))"
  by pat_completeness auto
termination
  by (relation "measure (length \<circ> fst)") (auto simp: less_Suc_eq_le length_dropWhile_le)

section \<open>The tree\<close>

fun push_kid ::
    "component_id \<Rightarrow> component_id \<Rightarrow> (component_id \<times> component_id list) list \<Rightarrow>
     (component_id \<times> component_id list) list" where
  "push_kid parent child [] = [(parent, [child])]"
| "push_kid parent child ((p, kids) # rest) =
     (if p = parent then (p, if child \<in> set kids then kids else kids @ [child]) # rest
      else (p, kids) # push_kid parent child rest)"

definition children_map :: "(component_id \<times> component_id) list \<Rightarrow> (component_id \<times> component_id list) list" where
  "children_map po =
     map (\<lambda>(p, kids). (p, sort kids)) (foldl (\<lambda>co (child, parent). push_kid parent child co) [] po)"

definition root_ids :: "(component_id \<times> component_id) list \<Rightarrow> component_id list" where
  "root_ids po =
     (let child_set = push_unknown [] (map fst po);
          parent_set = push_unknown [] (map snd po)
      in sort (filter (\<lambda>p. p \<notin> set child_set) parent_set))"

definition kids_of :: "(component_id \<times> component_id list) list \<Rightarrow> component_id \<Rightarrow> component_id list" where
  "kids_of kids_map x = (case find (\<lambda>(p, k). p = x) kids_map of None \<Rightarrow> [] | Some (p, k) \<Rightarrow> k)"

fun build_node :: "nat \<Rightarrow> component_id \<Rightarrow> (component_id \<times> component_id list) list \<Rightarrow> structural_ast_node option" where
  "build_node 0 x kids_map = None"
| "build_node (Suc fuel) x kids_map =
     do { component \<leftarrow> expect (parse_component_concept_id x);
          children \<leftarrow> those (map (\<lambda>k. build_node fuel k kids_map) (kids_of kids_map x));
          Some (AstNode component children) }"

definition build_structural_ast :: "int \<Rightarrow> (component_id \<times> component_id) list \<Rightarrow> structural_ast option" where
  "build_structural_ast as_of_day po =
     do { nodes \<leftarrow> those (map (\<lambda>root. build_node (Suc (length po)) root (children_map po)) (root_ids po));
          Some \<lparr>sa_as_of_day = as_of_day, sa_roots = nodes, sa_non_claims = FOLD_NON_CLAIMS\<rparr> }"

definition fold_membership_at ::
    "versioned_membership_log \<Rightarrow> int \<Rightarrow> (ctv_ops_error + structural_ast) option" where
  "fold_membership_at log as_of_day =
     (let applicable = sort_key event_key (filter (\<lambda>e. vm_effect_day e \<le> as_of_day) log)
      in case fold_days applicable [] of
           Inl e \<Rightarrow> Some (Inl e)
         | Inr po \<Rightarrow> do { ast \<leftarrow> build_structural_ast as_of_day po; Some (Inr ast) })"

section \<open>Conflicts of one day\<close>

lemma many_parents: "1 < length (push_unknown [p] ps) \<longleftrightarrow> (\<exists>q \<in> set ps. q \<noteq> p)"
proof (cases "set ps \<subseteq> {p}")
  case True
  then have eq: "set [p] \<union> set ps = {p}" by auto
  have "length (push_unknown [p] ps) = card (set [p] \<union> set ps)" by (rule length_push_unknown) simp
  then have "length (push_unknown [p] ps) = 1" unfolding eq by simp
  with True show ?thesis by auto
next
  case False
  then obtain q where q: "q \<in> set ps" "q \<noteq> p" by auto
  then have "card {p, q} \<le> card (insert p (set ps))" by (intro card_mono) auto
  with q show ?thesis by (auto simp: length_push_unknown)
qed

text \<open>On sorted pairs the scan finds exactly a child with two parents.\<close>

lemma sorted_drop_fst:
  assumes "sorted ((c, p) # rest)" "x \<in> set (dropWhile (\<lambda>x. fst x = c) rest)"
  shows "fst x \<noteq> (c :: 'a :: linorder)"
proof
  assume eq: "fst x = c"
  obtain y ys where d: "dropWhile (\<lambda>x. fst x = c) rest = y # ys"
    using assms(2) by (cases "dropWhile (\<lambda>x. fst x = c) rest") auto
  then have y: "fst y \<noteq> c" using hd_dropWhile [of "\<lambda>x. fst x = c" rest] by simp
  have "y \<in> set (dropWhile (\<lambda>x. fst x = c) rest)" using d by simp
  then have "y \<in> set rest" by (rule set_dropWhileD)
  with assms(1) y have "c < fst y" by (auto simp: less_eq_prod_def)
  moreover have "sorted (y # ys)" using assms(1) d using sorted_dropWhile [of rest "\<lambda>x. fst x = c"] by simp
  then have "fst y \<le> fst x" using assms(2) d by (auto simp: less_eq_prod_def)
  ultimately show False using eq by simp
qed

lemma conflict_scan_iff:
  "sorted xs \<Longrightarrow> conflict_scan xs \<longleftrightarrow> (\<exists>c p q. (c, p) \<in> set xs \<and> (c, q) \<in> set xs \<and> p \<noteq> q)"
proof (induction xs rule: conflict_scan.induct)
  case (2 c p rest)
  define same where "same = takeWhile (\<lambda>x. fst x = c) rest"
  define later where "later = dropWhile (\<lambda>x. fst x = c) rest"
  have rest: "set rest = set same \<union> set later"
    unfolding same_def later_def set_append [symmetric] takeWhile_dropWhile_id ..
  have same: "x \<in> set same \<Longrightarrow> fst x = c" for x 
    using set_takeWhileD [of x "\<lambda>x. fst x = c" rest] by (simp add: same_def)
  have later: "x \<in> set later \<Longrightarrow> fst x \<noteq> c" for x
    unfolding later_def by (rule sorted_drop_fst [OF "2.prems"])
  show ?case
  proof (cases "1 < length (push_unknown [p] (map snd same))")
    case True
    then obtain x where x: "x \<in> set same" "snd x \<noteq> p" unfolding many_parents by auto
    with same have "(c, snd x) \<in> set rest" by (metis rest UnI1 prod.collapse)
    with True x(2) show ?thesis by (auto simp: same_def [symmetric])
  next
    case False
    then have eq: "x \<in> set same \<Longrightarrow> x = (c, p)" for x
      using same unfolding many_parents by (cases x) auto
    have "sorted later" using "2.prems" by (simp add: later_def sorted_dropWhile)
    with 2 False have IH: "conflict_scan later \<longleftrightarrow>
        (\<exists>c p q. (c, p) \<in> set later \<and> (c, q) \<in> set later \<and> p \<noteq> q)"
      by (simp add: same_def later_def)
    have "conflict_scan ((c, p) # rest) = conflict_scan later"
      using False by (simp add: same_def later_def)
    also have "\<dots> \<longleftrightarrow> (\<exists>d p' q. (d, p') \<in> set ((c, p) # rest) \<and> (d, q) \<in> set ((c, p) # rest) \<and> p' \<noteq> q)"
      unfolding IH using eq later by (simp add: rest) (metis Pair_inject fst_conv)
    finally show ?thesis .
  qed
qed simp

section \<open>One day\<close>

lemma map_of_filter_keep:
  "distinct (map fst po) \<Longrightarrow> map_of (filter (\<lambda>(c, p). P c p) po) c =
     (case map_of po c of None \<Rightarrow> None | Some p \<Rightarrow> if P c p then Some p else None)"
proof (induction po)
  case (Cons x po)
  moreover have "fst x \<notin> fst ` set po \<Longrightarrow> map_of po (fst x) = None" by (simp add: map_of_eq_None_iff)
  ultimately show ?case by (cases x) (auto split: option.splits)
qed simp

lemma distinct_fst_filter: "distinct (map fst po) \<Longrightarrow> distinct (map fst (filter P po))"
  by (simp add: distinct_map_filter)

lemma apply_change_distinct: "distinct (map fst po) \<Longrightarrow> distinct (map fst (apply_change po ev))"
  by (auto simp: apply_change_def distinct_fst_filter split: membership_change_kind.split)

lemma apply_change_get:
  assumes "distinct (map fst po)"
  shows "map_of (apply_change po ev) c =
     (case vm_kind ev of
        Attach \<Rightarrow> if c = vm_child ev then Some (vm_parent ev) else map_of po c
      | Detach \<Rightarrow> if c = vm_child ev \<and> map_of po c = Some (vm_parent ev) then None else map_of po c)"
  using assms
  by (auto simp: apply_change_def map_of_filter_keep map_add_def
      split: membership_change_kind.split option.split)

lemma foldl_change_distinct: "distinct (map fst po) \<Longrightarrow> distinct (map fst (foldl apply_change po es))"
  by (induction es arbitrary: po) (simp_all add: apply_change_distinct)

lemma attaches_get:
  assumes "distinct (map fst po)" "\<forall>e \<in> set es. vm_kind e = Attach"
    and "\<forall>e \<in> set es. vm_child e = c \<longrightarrow> vm_parent e = p"
  shows "map_of (foldl apply_change po es) c =
     (if \<exists>e \<in> set es. vm_child e = c then Some p else map_of po c)"
  using assms
proof (induction es arbitrary: po)
  case (Cons e es)
  have "\<forall>e \<in> set es. vm_kind e = Attach" "\<forall>e \<in> set es. vm_child e = c \<longrightarrow> vm_parent e = p"
    using Cons.prems(2,3) by simp_all
  note IH = Cons.IH [OF apply_change_distinct [OF Cons.prems(1), of e] this]
  have "map_of (apply_change po e) c = (if vm_child e = c then Some p else map_of po c)"
    using Cons.prems by (auto simp: apply_change_get)
  with IH show ?case by simp
qed simp

lemma detaches_get:
  assumes "distinct (map fst po)" "\<forall>e \<in> set es. vm_kind e = Detach"
  shows "map_of (foldl apply_change po es) c =
     (case map_of po c of None \<Rightarrow> None
      | Some p \<Rightarrow> if \<exists>e \<in> set es. vm_child e = c \<and> vm_parent e = p then None else Some p)"
  using assms
proof (induction es arbitrary: po)
  case (Cons e es)
  then have "map_of (foldl apply_change (apply_change po e) es) c =
      (case map_of (apply_change po e) c of None \<Rightarrow> None
      | Some p \<Rightarrow> if \<exists>e \<in> set es. vm_child e = c \<and> vm_parent e = p then None else Some p)"
    by (simp add: apply_change_distinct)
  with Cons.prems show ?case
    by (cases "map_of po c") (auto simp: apply_change_get)
qed (simp split: option.split)

text \<open>
  The specification of a day: an attachment of the day replaces the parent, and the parent is
  dropped when the day also detaches it.
\<close>

definition detached :: "versioned_membership_event list \<Rightarrow> int \<Rightarrow> component_id \<Rightarrow> component_id \<Rightarrow> bool" where
  "detached es d c p =
     list_ex (\<lambda>e. vm_effect_day e = d \<and> vm_kind e = Detach \<and> vm_child e = c \<and> vm_parent e = p) es"

definition attached :: "versioned_membership_event list \<Rightarrow> int \<Rightarrow> component_id \<Rightarrow> component_id option" where
  "attached es d c =
     map_option vm_parent (find (\<lambda>e. vm_effect_day e = d \<and> vm_kind e = Attach \<and> vm_child e = c) es)"

definition day_step ::
    "versioned_membership_event list \<Rightarrow> (component_id \<rightharpoonup> component_id) \<Rightarrow> int \<Rightarrow> (component_id \<rightharpoonup> component_id)" where
  "day_step es m d c =
     (case (case attached es d c of Some p \<Rightarrow> Some p | None \<Rightarrow> m c) of
        None \<Rightarrow> None
      | Some p \<Rightarrow> if detached es d c p then None else Some p)"

definition day_conflict :: "versioned_membership_event list \<Rightarrow> int \<Rightarrow> bool" where
  "day_conflict es d = (\<exists>e \<in> set es. \<exists>f \<in> set es. vm_effect_day e = d \<and> vm_effect_day f = d \<and>
     vm_kind e = Attach \<and> vm_kind f = Attach \<and> vm_child e = vm_child f \<and> vm_parent e \<noteq> vm_parent f)"

definition attach_in :: "versioned_membership_event list \<Rightarrow> int \<Rightarrow> component_id \<Rightarrow> component_id \<Rightarrow> bool" where
  "attach_in es d c p = (\<exists>e \<in> set es. vm_effect_day e = d \<and> vm_kind e = Attach \<and> vm_child e = c \<and> vm_parent e = p)"

lemma attached_eq_None: "attached es d c = None \<longleftrightarrow> (\<forall>p. \<not> attach_in es d c p)"
  unfolding attached_def attach_in_def option.map_disc_iff find_None_iff by blast

lemma attached_eq_Some:
  "\<not> day_conflict es d \<Longrightarrow> attached es d c = Some p \<longleftrightarrow> attach_in es d c p"
proof -
  assume nc: "\<not> day_conflict es d"
  show ?thesis
  proof (cases "find (\<lambda>e. vm_effect_day e = d \<and> vm_kind e = Attach \<and> vm_child e = c) es")
    case None
    then have "attached es d c = None" by (simp add: attached_def)
    then show ?thesis using attached_eq_None [of es d c] by simp
  next
    case (Some f)
    then have f: "f \<in> set es" "vm_effect_day f = d" "vm_kind f = Attach" "vm_child f = c"
      by (auto dest: find_Some_in)
    have only: "q = vm_parent f" if "attach_in es d c q" for q
    proof (rule ccontr)
      assume "q \<noteq> vm_parent f"
      moreover obtain e where "e \<in> set es" "vm_effect_day e = d" "vm_kind e = Attach" "vm_child e = c"
        "vm_parent e = q" using \<open>attach_in es d c q\<close> unfolding attach_in_def by blast
      ultimately have "day_conflict es d"
        unfolding day_conflict_def using f by (intro bexI [of _ e] bexI [of _ f] conjI) simp_all
      with nc show False ..
    qed
    have own: "attach_in es d c (vm_parent f)" using f unfolding attach_in_def by blast
    have "attached es d c = Some (vm_parent f)" by (simp add: attached_def Some)
    then show ?thesis using own only [of p] by (simp only: option.inject) blast
  qed
qed

text \<open>Without conflicts the step depends on what the log says, not on the order in which it says it.\<close>

lemma day_step_cong:
  assumes "\<And>c p. attach_in es d c p = attach_in fs d c p" "\<And>c p. detached es d c p = detached fs d c p"
    and "\<not> day_conflict es d" "\<not> day_conflict fs d"
  shows "day_step es m d = day_step fs m d"
proof -
  have "attached es d c = attached fs d c" for c
  proof (cases "attached es d c")
    case None
    then show ?thesis using attached_eq_None [of es d c] attached_eq_None [of fs d c] assms(1) by simp
  next
    case (Some p)
    then have "attach_in fs d c p" using attached_eq_Some [OF assms(3), of c p] assms(1) by simp
    then show ?thesis using Some attached_eq_Some [OF assms(4), of c p] by simp
  qed
  then have "attached es d = attached fs d" by (rule ext)
  moreover have "detached es d = detached fs d" by (intro ext) (rule assms(2))
  ultimately show ?thesis by (intro ext) (simp only: day_step_def)
qed

lemma change_str_less: "change_as_str Attach < change_as_str Detach"
  by code_simp

lemma day_keys_split:
  "sorted (map event_key es) \<Longrightarrow> \<forall>e \<in> set es. vm_effect_day e = d \<Longrightarrow>
     es = filter (\<lambda>e. vm_kind e = Attach) es @ filter (\<lambda>e. vm_kind e = Detach) es"
proof (induction es)
  case (Cons e es)
  then have IH: "es = filter (\<lambda>e. vm_kind e = Attach) es @ filter (\<lambda>e. vm_kind e = Detach) es" by simp
  show ?case
  proof (cases "vm_kind e")
    case Attach
    with IH show ?thesis by simp
  next
    case Detach
    have "vm_kind f = Detach" if f: "f \<in> set es" for f
    proof (rule ccontr)
      assume "vm_kind f \<noteq> Detach"
      then have "vm_kind f = Attach" by (cases "vm_kind f") auto
      moreover have "event_key e \<le> event_key f" using Cons.prems f by auto
      ultimately show False
        using Detach Cons.prems f change_str_less by (auto simp: event_key_def less_eq_prod_def)
    qed
    then have "filter (\<lambda>e. vm_kind e = Attach) es = []" "filter (\<lambda>e. vm_kind e = Detach) es = es"
      by (auto simp: filter_empty_conv filter_id_conv)
    with Detach show ?thesis by simp
  qed
qed simp

lemma slice_step:
  assumes "sorted (map event_key es)" "\<forall>e \<in> set es. vm_effect_day e = d" "distinct (map fst po)"
    and nc: "\<not> day_conflict es d"
  shows "map_of (foldl apply_change po es) = day_step es (map_of po) d"
proof
  fix c
  define as ds where "as = filter (\<lambda>e. vm_kind e = Attach) es" and "ds = filter (\<lambda>e. vm_kind e = Detach) es"
  have es: "es = as @ ds" unfolding as_def ds_def using assms(1,2) by (rule day_keys_split)
  define p where "p = (case attached es d c of Some p \<Rightarrow> p | None \<Rightarrow> [])"
  have "\<forall>e \<in> set as. vm_child e = c \<longrightarrow> vm_parent e = p"
  proof (intro ballI impI)
    fix e assume "e \<in> set as" "vm_child e = c"
    then have "attach_in es d c (vm_parent e)" using assms(2) by (auto simp: as_def attach_in_def)
    then have "attached es d c = Some (vm_parent e)" using attached_eq_Some [OF nc, of c] by simp
    then show "vm_parent e = p" by (simp add: p_def)
  qed
  with assms(3) have as: "map_of (foldl apply_change po as) c =
      (if \<exists>e \<in> set as. vm_child e = c then Some p else map_of po c)"
    by (intro attaches_get) (auto simp: as_def)
  have ex: "(\<exists>e \<in> set as. vm_child e = c) \<longleftrightarrow> attached es d c \<noteq> None"
    using assms(2) by (auto simp: attached_eq_None attach_in_def as_def)
  have det: "(\<exists>e \<in> set ds. vm_child e = c \<and> vm_parent e = q) \<longleftrightarrow> detached es d c q" for q
    using assms(2) by (auto simp: detached_def ds_def list_ex_iff)
  have "map_of (foldl apply_change po es) c =
      (case map_of (foldl apply_change po as) c of None \<Rightarrow> None
       | Some q \<Rightarrow> if \<exists>e \<in> set ds. vm_child e = c \<and> vm_parent e = q then None else Some q)"
    unfolding es foldl_append using assms(3)
    by (intro detaches_get) (auto simp: foldl_change_distinct ds_def)
  then show "map_of (foldl apply_change po es) c = day_step es (map_of po) d c"
    unfolding as ex det day_step_def by (cases "attached es d c") (auto simp: p_def split: option.splits)
qed

lemma attach_pairs_conflict:
  "\<forall>e \<in> set es. vm_effect_day e = d \<Longrightarrow> conflict_scan (sort (attach_pairs es)) \<longleftrightarrow> day_conflict es d"
  by (auto simp: conflict_scan_iff attach_pairs_def day_conflict_def image_iff)

section \<open>All days\<close>

lemma sorted_key_days: "sorted (map event_key es) \<Longrightarrow> sorted (map vm_effect_day es)"
  by (induction es) (auto simp: event_key_def less_eq_prod_def)

lemma day_conflict_append:
  assumes "\<forall>x \<in> set xs. vm_effect_day x = d" "\<forall>x \<in> set ys. vm_effect_day x \<noteq> d"
  shows "(\<exists>k. day_conflict (xs @ ys) k) \<longleftrightarrow> day_conflict xs d \<or> (\<exists>k. day_conflict ys k)"
proof
  assume "\<exists>k. day_conflict (xs @ ys) k"
  then obtain k e f where ef: "e \<in> set xs \<union> set ys" "f \<in> set xs \<union> set ys" "vm_effect_day e = k"
    "vm_effect_day f = k" "vm_kind e = Attach" "vm_kind f = Attach" "vm_child e = vm_child f"
    "vm_parent e \<noteq> vm_parent f" unfolding day_conflict_def set_append by blast
  show "day_conflict xs d \<or> (\<exists>k. day_conflict ys k)"
  proof (cases "k = d")
    case True
    then have "e \<in> set xs" "f \<in> set xs" using ef assms by auto
    with ef True have "day_conflict xs d" unfolding day_conflict_def by metis
    then show ?thesis ..
  next
    case False
    then have "e \<in> set ys" "f \<in> set ys" using ef assms by auto
    with ef have "day_conflict ys k" unfolding day_conflict_def by metis
    then show ?thesis by blast
  qed
next
  have "day_conflict xs k \<Longrightarrow> day_conflict (xs @ ys) k" "day_conflict ys k \<Longrightarrow> day_conflict (xs @ ys) k" for k
    unfolding day_conflict_def set_append by blast+
  then show "day_conflict xs d \<or> (\<exists>k. day_conflict ys k) \<Longrightarrow> \<exists>k. day_conflict (xs @ ys) k" by blast
qed

lemma fold_days_spec:
  "sorted (map event_key es) \<Longrightarrow> distinct (map fst po) \<Longrightarrow>
     (if \<exists>d. day_conflict es d then fold_days es po = Inl CO_MembershipConflict
      else \<exists>po'. fold_days es po = Inr po' \<and> distinct (map fst po') \<and>
        map_of po' = foldl (day_step es) (map_of po) (remdups_adj (map vm_effect_day es)))"
proof (induction es po rule: fold_days.induct)
  case (1 po)
  then show ?case by (simp add: day_conflict_def)
next
  case (2 e es po)
  define d where "d = vm_effect_day e"
  define slice where "slice = takeWhile (\<lambda>x. vm_effect_day x = d) (e # es)"
  define rest where "rest = dropWhile (\<lambda>x. vm_effect_day x = d) (e # es)"
  have all: "e # es = slice @ rest" by (simp add: slice_def rest_def del: takeWhile.simps dropWhile.simps)
  have srt: "sorted (map event_key slice)" "sorted (map event_key rest)"
    using "2.prems"(1) unfolding all by (auto simp: sorted_append)
  have in_slice: "\<forall>x \<in> set slice. vm_effect_day x = d"
    by (auto simp: slice_def dest: set_takeWhileD split: if_splits)
  have in_rest: "\<forall>x \<in> set rest. vm_effect_day x \<noteq> d"
  proof (cases rest)
    case (Cons y ys)
    then have y: "vm_effect_day y \<noteq> d"
      using hd_dropWhile [of "\<lambda>x. vm_effect_day x = d" "e # es"] by (simp add: rest_def)
    have srt_days: "sorted (map vm_effect_day (slice @ rest))"
      using sorted_key_days [OF "2.prems"(1)] unfolding all .
    moreover have "e \<in> set slice" by (simp add: slice_def d_def)
    ultimately have "d \<le> vm_effect_day y" by (auto simp: Cons sorted_append d_def)
    moreover have "vm_effect_day y \<le> vm_effect_day x" if "x \<in> set rest" for x
      using srt_days that by (auto simp: Cons sorted_append)
    ultimately show ?thesis using y by fastforce
  qed simp
  have conf: "(\<exists>k. day_conflict (e # es) k) \<longleftrightarrow> day_conflict slice d \<or> (\<exists>k. day_conflict rest k)"
    unfolding all by (rule day_conflict_append [OF in_slice in_rest])
  show ?case
  proof (cases "day_conflict slice d")
    case True
    then show ?thesis
      using conf attach_pairs_conflict [OF in_slice] by (auto simp: slice_def d_def)
  next
    case False
    then have step: "fold_days (e # es) po = fold_days rest (foldl apply_change po slice)"
      using attach_pairs_conflict [OF in_slice] by (simp add: slice_def rest_def d_def)
    have IH: "if \<exists>k. day_conflict rest k then fold_days rest (foldl apply_change po slice) = Inl CO_MembershipConflict
      else \<exists>po'. fold_days rest (foldl apply_change po slice) = Inr po' \<and> distinct (map fst po') \<and>
        map_of po' = foldl (day_step rest) (map_of (foldl apply_change po slice))
          (remdups_adj (map vm_effect_day rest))"
      using foldl_change_distinct [OF "2.prems"(2), of slice] False attach_pairs_conflict [OF in_slice]
      by (intro "2.IH" [OF refl refl, folded d_def, folded slice_def rest_def] srt(2)) simp_all
    show ?thesis
    proof (cases "\<exists>k. day_conflict rest k")
      case True
      with conf IH step show ?thesis by auto
    next
      case nc: False
      then obtain po' where po': "fold_days (e # es) po = Inr po'" "distinct (map fst po')"
        "map_of po' = foldl (day_step rest) (map_of (foldl apply_change po slice))
          (remdups_adj (map vm_effect_day rest))"
        using IH step by auto
      have none: "\<not> (\<exists>k. day_conflict (e # es) k)" using conf False nc by blast
      have "map_of (foldl apply_change po slice) = day_step slice (map_of po) d"
        using srt(1) in_slice "2.prems"(2) False by (rule slice_step)
      also have "\<dots> = day_step (e # es) (map_of po) d"
        by (rule day_step_cong) (use in_rest False none in \<open>auto simp: all attach_in_def detached_def list_ex_iff\<close>)
      finally have first: "map_of (foldl apply_change po slice) = day_step (e # es) (map_of po) d" .
      have later: "foldl (day_step rest) m ks = foldl (day_step (e # es)) m ks" if "d \<notin> set ks" for m ks
        using that
      proof (induction ks arbitrary: m)
        case (Cons k ks)
        have "day_step rest m k = day_step (e # es) m k"
          by (rule day_step_cong)
            (use Cons.prems in_slice nc none in \<open>auto simp: all attach_in_def detached_def list_ex_iff\<close>)
        with Cons show ?case by simp
      qed simp
      have "dropWhile (\<lambda>k. k = d) (map vm_effect_day es) = map vm_effect_day rest"
        by (simp add: rest_def d_def dropWhile_map comp_def)
      then have days: "remdups_adj (map vm_effect_day (e # es)) = d # remdups_adj (map vm_effect_day rest)"
        by (simp add: remdups_adj_Cons' d_def)
      have "d \<notin> set (remdups_adj (map vm_effect_day rest))" using in_rest by auto
      with po' first later none show ?thesis unfolding days by simp
    qed
  qed
qed

section \<open>The children lists\<close>

lemma find_pair: "find (\<lambda>(p, k). p = x) m = map_option (\<lambda>k. (x, k)) (map_of m x)"
  by (induction m) auto

lemma kids_of_alt: "kids_of m x = (case map_of m x of None \<Rightarrow> [] | Some k \<Rightarrow> k)"
  by (simp add: kids_of_def find_pair split: option.split)

lemma push_kid_get:
  "map_of (push_kid p c m) x =
     (if x = p then Some (case map_of m p of None \<Rightarrow> [c] | Some k \<Rightarrow> if c \<in> set k then k else k @ [c])
      else map_of m x)"
  by (induction p c m rule: push_kid.induct) auto

lemma kids_of_push:
  "kids_of (push_kid p c m) x =
     (if x = p then (if c \<in> set (kids_of m p) then kids_of m p else kids_of m p @ [c]) else kids_of m x)"
  by (auto simp: kids_of_alt push_kid_get split: option.split)

lemma kids_of_fold:
  "set (kids_of (foldl (\<lambda>co (c, p). push_kid p c co) m po) x) = set (kids_of m x) \<union> {c. (c, x) \<in> set po} \<and>
   (distinct (kids_of m x) \<longrightarrow> distinct (kids_of (foldl (\<lambda>co (c, p). push_kid p c co) m po) x))"
proof (induction po arbitrary: m)
  case (Cons y po)
  obtain a b where y: "y = (a, b)" by (cases y)
  have "set (kids_of (push_kid b a m) x) = set (kids_of m x) \<union> {c. (c, x) = y}"
    "distinct (kids_of m x) \<longrightarrow> distinct (kids_of (push_kid b a m) x)"
    by (auto simp: kids_of_push y)
  with Cons.IH [of "push_kid b a m"] show ?case by (auto simp: y)
qed simp

lemma map_of_sort: "map_of (map (\<lambda>(p, k). (p, sort k)) m) x = map_option sort (map_of m x)"
  by (induction m) auto

text \<open>The sorted list of the children of a node.\<close>

lemma kids_of_children_map:
  assumes "distinct (map fst po)"
  shows "kids_of (children_map po) x = sorted_list_of_set {c. map_of po c = Some x}"
proof -
  define m where "m = foldl (\<lambda>co (c, p). push_kid p c co) [] po"
  have eq: "kids_of (children_map po) x = sort (kids_of m x)"
    by (simp add: kids_of_alt children_map_def m_def [symmetric] map_of_sort kids_of_alt split: option.split)
  have none: "kids_of [] x = []" by (simp add: kids_of_alt)
  have "set (kids_of m x) = {c. (c, x) \<in> set po}" "distinct (kids_of m x)"
    using kids_of_fold [of "[]" po x] unfolding m_def none by auto
  moreover note this
  moreover have "{c. (c, x) \<in> set po} = {c. map_of po c = Some x}"
    using assms by simp
  ultimately show ?thesis
    unfolding eq by (metis distinct_sort set_sort sorted_list_of_set.idem_if_sorted_distinct sorted_sort)
qed

lemma root_ids_spec:
  assumes "distinct (map fst po)"
  shows "root_ids po = sorted_list_of_set {p. p \<in> ran (map_of po) \<and> p \<notin> dom (map_of po)}"
proof -
  define r where "r = filter (\<lambda>p. p \<notin> set (push_unknown [] (map fst po))) (push_unknown [] (map snd po))"
  have "set r = {p. p \<in> ran (map_of po) \<and> p \<notin> dom (map_of po)}"
    using assms by (auto simp: r_def ran_distinct dom_map_of_conv_image_fst)
  moreover have "distinct r" by (simp add: r_def distinct_push_unknown)
  moreover have "root_ids po = sort r" by (simp add: root_ids_def r_def)
  ultimately show ?thesis
    by (metis distinct_sort set_sort sorted_list_of_set.idem_if_sorted_distinct sorted_sort)
qed

section \<open>The tree lists every rooted component\<close>

text \<open>The chain of the components above a component, up to a root.\<close>

inductive chain :: "(component_id \<rightharpoonup> component_id) \<Rightarrow> component_id \<Rightarrow> component_id list \<Rightarrow> bool"
  for m r where
  chain_root: "r \<notin> dom m \<Longrightarrow> chain m r []"
| chain_step: "chain m r path \<Longrightarrow> m x = Some (hd (path @ [r])) \<Longrightarrow> chain m r (x # path)"

inductive_cases chain_ConsE: "chain m r (x # path)"

lemma chain_in_dom: "chain m r path \<Longrightarrow> set path \<subseteq> dom m \<and> r \<notin> dom m"
  by (induction rule: chain.induct) auto

lemma chain_unique: "chain m r (x # p) \<Longrightarrow> chain m r (x # q) \<Longrightarrow> p = q"
proof (induction p arbitrary: x q)
  case Nil
  then have "m x = Some r" "chain m r q" "m x = Some (hd (q @ [r]))" by (auto elim: chain_ConsE)
  then show ?case using chain_in_dom [of m r q] by (cases q) auto
next
  case (Cons y p)
  then have x: "m x = Some y" "m x = Some (hd (q @ [r]))" "chain m r (y # p)" "chain m r q"
    by (auto elim: chain_ConsE)
  then show ?case using chain_in_dom [of m r "y # p"] Cons.IH by (cases q) auto
qed

lemma chain_suffix: "chain m r (xs @ ys) \<Longrightarrow> chain m r ys"
  by (induction xs) (auto elim: chain_ConsE)

lemma chain_distinct: "chain m r path \<Longrightarrow> distinct path"
proof (induction rule: chain.induct)
  case (chain_step path x)
  have "x \<notin> set path"
  proof
    assume "x \<in> set path"
    then obtain ys zs where p: "path = ys @ x # zs" by (auto simp: in_set_conv_decomp)
    then have "chain m r (x # zs)" using chain_step.hyps(1) chain_suffix by blast
    then have "path = zs" using chain_unique chain.chain_step [OF chain_step.hyps] by blast
    with p show False by (metis append_self_conv2 impossible_Cons length_append le_add2 list.size(4) add_Suc_right)
  qed
  with chain_step.IH show ?case by simp
qed simp

lemma chain_length: "finite (dom m) \<Longrightarrow> chain m r path \<Longrightarrow> length path \<le> card (dom m)"
  using chain_in_dom [of m r path] chain_distinct [of m r path] card_mono [of "dom m" "set path"]
  by (simp add: distinct_card)

text \<open>A tree that shows the whole structure below its component: every node lists its children in order.\<close>

fun ast_ok :: "(component_id \<rightharpoonup> component_id) \<Rightarrow> structural_ast_node \<Rightarrow> bool"
and asts_ok :: "(component_id \<rightharpoonup> component_id) \<Rightarrow> structural_ast_node list \<Rightarrow> bool" where
  "ast_ok m (AstNode c nodes) =
     (map ast_component nodes = sorted_list_of_set {k. m k = Some c} \<and> asts_ok m nodes)"
| "asts_ok m [] = True"
| "asts_ok m (node # nodes) = (ast_ok m node \<and> asts_ok m nodes)"

lemma asts_ok_iff: "asts_ok m nodes \<longleftrightarrow> list_all (ast_ok m) nodes"
  by (induction nodes) auto

lemma those_map_Some:
  "(\<And>x. x \<in> set xs \<Longrightarrow> \<exists>y. f x = Some y \<and> P x y) \<Longrightarrow> \<exists>ys. those (map f xs) = Some ys \<and> list_all2 P xs ys"
proof (induction xs)
  case (Cons x xs)
  then obtain y ys where "f x = Some y" "P x y" "those (map f xs) = Some ys" "list_all2 P xs ys"
    by (metis list.set_intros)
  then show ?case by simp
qed simp

definition shows_node :: "(component_id \<rightharpoonup> component_id) \<Rightarrow> component_id \<Rightarrow> structural_ast_node \<Rightarrow> bool" where
  "shows_node m x t = (ast_component t = x \<and> ast_ok m t)"

lemma shows_nodes:
  assumes "list_all2 (shows_node m) xs ts"
  shows "map ast_component ts = xs \<and> asts_ok m ts"
  using assms by (induction rule: list_all2_induct) (auto simp: shows_node_def)

lemma build_node_shows:
  assumes po: "distinct (map fst po)" "\<forall>x \<in> dom (map_of po) \<union> ran (map_of po). valid_component x"
  defines "m \<equiv> map_of po"
  shows "chain m r path \<Longrightarrow> valid_component r \<Longrightarrow> n + length path = Suc (card (dom m)) \<Longrightarrow>
     \<exists>t. build_node n (hd (path @ [r])) (children_map po) = Some t \<and> shows_node m (hd (path @ [r])) t"
proof (induction n arbitrary: path)
  case 0
  then show ?case using chain_length [of m r path] by (simp add: m_def finite_dom_map_of)
next
  case (Suc n)
  define x where "x = hd (path @ [r])"
  have fin: "finite {k. m k = Some x}"
    by (rule finite_subset [of _ "dom m"]) (auto simp: m_def finite_dom_map_of)
  have "\<exists>t. build_node n k (children_map po) = Some t \<and> shows_node m k t"
    if "k \<in> set (sorted_list_of_set {k. m k = Some x})" for k
  proof -
    have "chain m r (k # path)" using that fin Suc.prems(1) by (auto simp: x_def intro: chain_step)
    from Suc.IH [OF this Suc.prems(2)] Suc.prems(3) show ?thesis by simp
  qed
  from those_map_Some [of "sorted_list_of_set {k. m k = Some x}" "\<lambda>k. build_node n k (children_map po)", OF this]
  obtain ts where ts: "those (map (\<lambda>k. build_node n k (children_map po)) (sorted_list_of_set {k. m k = Some x})) = Some ts"
    "list_all2 (shows_node m) (sorted_list_of_set {k. m k = Some x}) ts" by blast
  have "x \<in> set path \<or> x = r" unfolding x_def by (cases path) auto
  then have "valid_component x"
    using Suc.prems(1,2) chain_in_dom [of m r path] po(2) by (auto simp: m_def)
  then have "build_node (Suc n) x (children_map po) = Some (AstNode x ts)"
    using ts(1) by (simp add: kids_of_children_map [OF po(1)] m_def [symmetric] parse_component_valid)
  moreover have "shows_node m x (AstNode x ts)"
    using shows_nodes [OF ts(2)] by (simp add: shows_node_def)
  ultimately show ?case unfolding x_def by blast
qed

definition roots_of :: "(component_id \<rightharpoonup> component_id) \<Rightarrow> component_id set" where
  "roots_of m = {p. p \<in> ran m \<and> p \<notin> dom m}"

definition ast_of :: "(component_id \<rightharpoonup> component_id) \<Rightarrow> int \<Rightarrow> structural_ast \<Rightarrow> bool" where
  "ast_of m t ast = (sa_as_of_day ast = t \<and> sa_non_claims ast = FOLD_NON_CLAIMS \<and>
     map ast_component (sa_roots ast) = sorted_list_of_set (roots_of m) \<and> asts_ok m (sa_roots ast))"

lemma build_structural_ast_ok:
  assumes po: "distinct (map fst po)" "\<forall>x \<in> dom (map_of po) \<union> ran (map_of po). valid_component x"
  shows "\<exists>ast. build_structural_ast t po = Some ast \<and> ast_of (map_of po) t ast"
proof -
  have len: "length po = card (dom (map_of po))"
    using distinct_card [OF po(1)] by (simp add: dom_map_of_conv_image_fst)
  have fin: "finite (roots_of (map_of po))"
    by (rule finite_subset [of _ "ran (map_of po)"]) (auto simp: roots_of_def finite_ran finite_dom_map_of)
  have "\<exists>n. build_node (Suc (length po)) r (children_map po) = Some n \<and> shows_node (map_of po) r n"
    if "r \<in> set (sorted_list_of_set (roots_of (map_of po)))" for r
    using build_node_shows [OF po, of r "[]"] that fin po(2) chain_root [of r "map_of po"]
    by (auto simp: len roots_of_def)
  from those_map_Some [of _ "\<lambda>r. build_node (Suc (length po)) r (children_map po)", OF this]
  obtain ts where ts: "those (map (\<lambda>r. build_node (Suc (length po)) r (children_map po))
      (sorted_list_of_set (roots_of (map_of po)))) = Some ts"
    "list_all2 (shows_node (map_of po)) (sorted_list_of_set (roots_of (map_of po))) ts" by blast
  then show ?thesis
    using shows_nodes [OF ts(2)] root_ids_spec [OF po(1)]
    by (simp add: build_structural_ast_def ast_of_def roots_of_def)
qed

text \<open>The tree is determined by the parent map.\<close>

lemma ast_ok_unique:
  "ast_ok m a \<Longrightarrow> ast_ok m b \<Longrightarrow> ast_component a = ast_component b \<Longrightarrow> a = b"
  "asts_ok m as \<Longrightarrow> asts_ok m bs \<Longrightarrow> map ast_component as = map ast_component bs \<Longrightarrow> as = bs"
proof (induction m a and m as arbitrary: b and bs rule: ast_ok_asts_ok.induct)
  case (1 m c nodes)
  then show ?case by (cases b) auto
next
  case (3 m node nodes)
  then show ?case by (cases bs) auto
qed simp

lemma ast_of_unique: "ast_of m t a \<Longrightarrow> ast_of m t b \<Longrightarrow> a = b"
  unfolding ast_of_def using ast_ok_unique(2) [of m "sa_roots a" "sa_roots b"] by (cases a; cases b) auto

section \<open>The fold\<close>

text \<open>The specification: the days up to \<open>t\<close> in order, each applied as one step.\<close>

definition event_days :: "versioned_membership_log \<Rightarrow> int \<Rightarrow> int list" where
  "event_days log t = sorted_list_of_set (vm_effect_day ` {e \<in> set log. vm_effect_day e \<le> t})"

definition parent_map :: "versioned_membership_log \<Rightarrow> int \<Rightarrow> (component_id \<rightharpoonup> component_id)" where
  "parent_map log t = foldl (day_step log) (\<lambda>_. None) (event_days log t)"

definition membership_conflict :: "versioned_membership_log \<Rightarrow> int \<Rightarrow> bool" where
  "membership_conflict log t = (\<exists>d \<le> t. day_conflict log d)"

definition log_components_valid :: "versioned_membership_log \<Rightarrow> bool" where
  "log_components_valid log = list_all (\<lambda>e. valid_component (vm_parent e) \<and> valid_component (vm_child e)) log"

lemma day_step_entries:
  "day_step es m d c = Some p \<Longrightarrow> m c = Some p \<or> (\<exists>e \<in> set es. vm_child e = c \<and> vm_parent e = p)"
  by (auto simp: day_step_def attached_def split: option.splits if_splits dest: find_Some_in)

lemma day_steps_entries:
  "foldl (day_step es) m ds c = Some p \<Longrightarrow> m c = Some p \<or> (\<exists>e \<in> set es. vm_child e = c \<and> vm_parent e = p)"
  by (induction ds arbitrary: m) (auto dest: day_step_entries)

lemma day_conflict_attach:
  "day_conflict es d \<longleftrightarrow> (\<exists>c p q. attach_in es d c p \<and> attach_in es d c q \<and> p \<noteq> q)"
proof
  assume "day_conflict es d"
  then obtain e f where "e \<in> set es" "f \<in> set es" "vm_effect_day e = d" "vm_effect_day f = d"
    "vm_kind e = Attach" "vm_kind f = Attach" "vm_child f = vm_child e" "vm_parent e \<noteq> vm_parent f"
    unfolding day_conflict_def by (elim bexE conjE) simp
  then have "attach_in es d (vm_child e) (vm_parent e)" "attach_in es d (vm_child e) (vm_parent f)"
    "vm_parent e \<noteq> vm_parent f" unfolding attach_in_def by blast+
  then show "\<exists>c p q. attach_in es d c p \<and> attach_in es d c q \<and> p \<noteq> q" by blast
next
  assume "\<exists>c p q. attach_in es d c p \<and> attach_in es d c q \<and> p \<noteq> q"
  then obtain e f where ef: "e \<in> set es" "f \<in> set es" "vm_effect_day e = d" "vm_effect_day f = d"
    "vm_kind e = Attach" "vm_kind f = Attach" "vm_child e = vm_child f" "vm_parent e \<noteq> vm_parent f"
    unfolding attach_in_def by (elim exE conjE bexE) simp
  show "day_conflict es d"
    unfolding day_conflict_def by (rule bexI [OF _ ef(1)], rule bexI [OF _ ef(2)]) (intro conjI ef(3-))
qed

lemma fold_membership_cases:
  assumes "log_components_valid log"
  shows "if membership_conflict log t then fold_membership_at log t = Some (Inl CO_MembershipConflict)
    else \<exists>ast. fold_membership_at log t = Some (Inr ast) \<and> ast_of (parent_map log t) t ast"
proof -
  define es where "es = sort_key event_key (filter (\<lambda>e. vm_effect_day e \<le> t) log)"
  have set_es: "set es = {e \<in> set log. vm_effect_day e \<le> t}" by (simp add: es_def)
  have srt: "sorted (map event_key es)" by (simp add: es_def)
  have att: "attach_in es d c p \<longleftrightarrow> d \<le> t \<and> attach_in log d c p" for d c p
    by (auto simp: attach_in_def set_es)
  have conf: "day_conflict es d \<longleftrightarrow> d \<le> t \<and> day_conflict log d" for d
    unfolding day_conflict_attach att by blast
  have same: "day_step es m d = day_step log m d" if "d \<le> t" "\<not> day_conflict log d" for m d
    by (rule day_step_cong) (use that in \<open>auto simp: att detached_def list_ex_iff set_es conf\<close>)
  note spec = fold_days_spec [OF srt, of "[]"]
  show ?thesis
  proof (cases "membership_conflict log t")
    case True
    then have "\<exists>d. day_conflict es d" by (auto simp: membership_conflict_def conf)
    with spec True show ?thesis by (simp add: fold_membership_at_def es_def [symmetric])
  next
    case False
    then have nc: "\<not> (\<exists>d. day_conflict es d)" by (auto simp: membership_conflict_def conf)
    with spec obtain po where po: "fold_days es [] = Inr po" "distinct (map fst po)"
      "map_of po = foldl (day_step es) (\<lambda>_. None) (remdups_adj (map vm_effect_day es))" by auto
    have "remdups_adj (map vm_effect_day es) = event_days log t"
      unfolding event_days_def
      using remdups_adj_sorted_distinct [OF sorted_key_days [OF srt]] sorted_remdups_adj [OF sorted_key_days [OF srt]]
      by (metis (no_types, lifting) remdups_adj_set set_es set_map sorted_list_of_set.idem_if_sorted_distinct)
    moreover have "\<forall>d \<in> set ds. d \<le> t \<Longrightarrow> foldl (day_step es) m ds = foldl (day_step log) m ds" for m ds
      using False by (induction ds arbitrary: m) (simp_all add: same membership_conflict_def)
    moreover have "\<forall>d \<in> set (event_days log t). d \<le> t" by (auto simp: event_days_def)
    ultimately have m: "map_of po = parent_map log t" by (simp add: po(3) parent_map_def)
    have "\<forall>x \<in> dom (map_of po) \<union> ran (map_of po). valid_component x"
      using assms day_steps_entries [of log "\<lambda>_. None" "event_days log t"]
      by (fastforce simp: m parent_map_def log_components_valid_def list_all_iff dom_def ran_def)
    from build_structural_ast_ok [OF po(2) this, of t] False show ?thesis
      by (auto simp: fold_membership_at_def es_def [symmetric] po(1) m)
  qed
qed

section \<open>Properties\<close>

lemma change_str_inj: "change_as_str a = change_as_str b \<longleftrightarrow> a = b"
  by (cases a; cases b) simp_all

lemma attach_in_keys:
  "attach_in es d c p \<longleftrightarrow> (d, change_as_str Attach, c, p) \<in> event_key ` set es"
  by (auto simp: attach_in_def event_key_def image_iff change_str_inj simp del: change_as_str.simps)

lemma detached_keys:
  "detached es d c p \<longleftrightarrow> (d, change_as_str Detach, c, p) \<in> event_key ` set es"
  by (auto simp: detached_def event_key_def image_iff list_ex_iff change_str_inj simp del: change_as_str.simps)

lemma parent_map_cong:
  assumes keys: "event_key ` set log = event_key ` set log'" and nc: "\<not> membership_conflict log t"
  shows "parent_map log t = parent_map log' t"
proof -
  have att: "attach_in log d c p = attach_in log' d c p" and det: "detached log d c p = detached log' d c p" for d c p
    by (simp_all only: attach_in_keys detached_keys keys)
  have fst_days: "vm_effect_day ` {e \<in> set es. vm_effect_day e \<le> t} = fst ` {k \<in> event_key ` set es. fst k \<le> t}" for es
    by (force simp: event_key_def image_iff)
  have days: "event_days log t = event_days log' t"
    unfolding event_days_def fst_days keys ..
  have "foldl (day_step log) m ds = foldl (day_step log') m ds" if "\<forall>d \<in> set ds. d \<le> t" for m ds
    using that
  proof (induction ds arbitrary: m)
    case (Cons d ds)
    have "\<not> day_conflict log d" using Cons.prems nc by (auto simp: membership_conflict_def)
    then have "day_step log m d = day_step log' m d"
      by (intro day_step_cong) (simp_all add: att det day_conflict_attach)
    with Cons show ?case by simp
  qed simp
  moreover have "\<forall>d \<in> set (event_days log t). d \<le> t" by (auto simp: event_days_def)
  ultimately show ?thesis by (simp add: parent_map_def days)
qed

text \<open>C4. The fold of the versioned membership log never panics and always terminates: it refuses
exactly when some day up to \<open>t\<close> attaches one child to two parents, and otherwise its tree is the one
described by the parent map of the day-by-day specification, with the parents that have no parent as its roots, in
order, and under every node exactly the children of that node, in order.\<close>

theorem fold_membership_spec:
  assumes "log_components_valid log"
  shows "if membership_conflict log t then fold_membership_at log t = Some (Inl CO_MembershipConflict)
    else \<exists>ast. fold_membership_at log t = Some (Inr ast) \<and> ast_of (parent_map log t) t ast"
  using assms by (rule fold_membership_cases)

text \<open>The fold does not depend on the order in which events were appended, on repetitions or on
their provenance: two logs with the same set of dated attachments and detachments give the same result.\<close>

theorem fold_membership_order_independent:
  assumes "log_components_valid log" "log_components_valid log'"
    and keys: "event_key ` set log = event_key ` set log'"
  shows "fold_membership_at log t = fold_membership_at log' t"
proof -
  have conf: "membership_conflict log t \<longleftrightarrow> membership_conflict log' t"
    by (simp only: membership_conflict_def day_conflict_attach attach_in_keys keys)
  show ?thesis
  proof (cases "membership_conflict log t")
    case True
    with conf fold_membership_cases [OF assms(1), of t] fold_membership_cases [OF assms(2), of t]
    show ?thesis by simp
  next
    case False
    with conf fold_membership_cases [OF assms(1), of t] fold_membership_cases [OF assms(2), of t]
    show ?thesis using ast_of_unique parent_map_cong [OF keys False] by auto
  qed
qed

definition vm_event :: "membership_change_kind \<Rightarrow> component_id \<Rightarrow> component_id \<Rightarrow> int \<Rightarrow> versioned_membership_event" where
  "vm_event kind parent child day = \<lparr>vm_kind = kind, vm_parent = parent, vm_child = child,
     vm_effect_day = day, vm_provenance = ''act:1''\<rparr>"

lemma vm_event_fields [simp]:
  "vm_kind (vm_event k p c d) = k" "vm_parent (vm_event k p c d) = p" "vm_child (vm_event k p c d) = c"
  "vm_effect_day (vm_event k p c d) = d"
  by (simp_all add: vm_event_def)

lemma small_components: "valid_component ''a''" "valid_component ''b''" "valid_component ''c''"
  by code_simp+

theorem fold_membership_spec_witness:
  "\<exists>ast. fold_membership_at [vm_event Attach ''a'' ''b'' 1, vm_event Attach ''c'' ''b'' 2] 3 = Some (Inr ast) \<and>
     ast_of (parent_map [vm_event Attach ''a'' ''b'' 1, vm_event Attach ''c'' ''b'' 2] 3) 3 ast"
proof -
  let ?log = "[vm_event Attach ''a'' ''b'' 1, vm_event Attach ''c'' ''b'' 2]"
  have "log_components_valid ?log" by (simp add: log_components_valid_def small_components)
  moreover have "\<not> membership_conflict ?log 3"
    by (simp add: membership_conflict_def day_conflict_def)
  ultimately show ?thesis using fold_membership_spec [of ?log 3] by simp
qed

theorem fold_membership_order_independent_witness:
  "fold_membership_at [vm_event Attach ''a'' ''b'' 1, vm_event Attach ''c'' ''b'' 2] 3 =
     fold_membership_at [vm_event Attach ''c'' ''b'' 2, vm_event Attach ''a'' ''b'' 1] 3"
  by (rule fold_membership_order_independent)
    (auto simp: log_components_valid_def small_components)

text \<open>Cycles are not refused but vanish: two components that are each other's parent from
different days on are in no tree, and the fold reports success with no roots.\<close>

theorem fold_membership_cycle_vanishes:
  "fold_membership_at [vm_event Attach ''a'' ''b'' 1, vm_event Attach ''b'' ''a'' 2] 3 =
     Some (Inr \<lparr>sa_as_of_day = 3, sa_roots = [], sa_non_claims = FOLD_NON_CLAIMS\<rparr>)"
  by code_simp

section \<open>Filtering the tree\<close>

fun ast_components :: "structural_ast_node \<Rightarrow> component_id list"
and asts_components :: "structural_ast_node list \<Rightarrow> component_id list" where
  "ast_components (AstNode c nodes) = c # asts_components nodes"
| "asts_components [] = []"
| "asts_components (n # ns) = ast_components n @ asts_components ns"

fun leaves_in :: "component_id set \<Rightarrow> structural_ast_node \<Rightarrow> bool"
and all_leaves_in :: "component_id set \<Rightarrow> structural_ast_node list \<Rightarrow> bool" where
  "leaves_in S (AstNode c nodes) = (if nodes = [] then c \<in> S else all_leaves_in S nodes)"
| "all_leaves_in S [] = True"
| "all_leaves_in S (n # ns) = (leaves_in S n \<and> all_leaves_in S ns)"

lemma filter_node_spec:
  "(case filter_node present t of
      None \<Rightarrow> set (ast_components t) \<inter> set present = {}
    | Some t' \<Rightarrow> set (ast_components t') \<inter> set present = set (ast_components t) \<inter> set present \<and>
        set (ast_components t') \<subseteq> set (ast_components t) \<and> leaves_in (set present) t')"
  "set (asts_components (filter_nodes present ts)) \<inter> set present = set (asts_components ts) \<inter> set present \<and>
     set (asts_components (filter_nodes present ts)) \<subseteq> set (asts_components ts) \<and>
     all_leaves_in (set present) (filter_nodes present ts)"
proof (induction present t and present ts rule: filter_node_filter_nodes.induct)
  case (1 present c nodes)
  then show ?case by (auto simp: Let_def)
next
  case (3 present n ns)
  then show ?case by (auto split: option.splits)
qed simp

text \<open>Filtering a tree to the present components loses none of them, invents no component, and leaves no
branch that does not end in a present one.\<close>

theorem filter_to_components_spec:
  "set (asts_components (sa_roots (filter_to_components ast present))) \<inter> set present =
     set (asts_components (sa_roots ast)) \<inter> set present \<and>
   set (asts_components (sa_roots (filter_to_components ast present))) \<subseteq> set (asts_components (sa_roots ast)) \<and>
   all_leaves_in (set present) (sa_roots (filter_to_components ast present))"
  using filter_node_spec(2) [of present "sa_roots ast"] by (simp add: filter_to_components_def)

end
