(* ===== verification/LN_Promote.thy ===== *)
theory LN_Promote
  imports LN_Ids
begin

text \<open>
  Curated promotion, \<open>crates/ln-promote\<close> (HC-04): the application service
  \<open>CommitCuratedPromotion\<close> with its two authoritative ledgers, over the trait
  \<open>PromotionStorePort\<close>, and the in-memory adapter. The trait is the record \<open>promotion_store_ops\<close>
  of its methods over a store state; a method that mutates may panic (\<open>None\<close>). The service never
  reads the store, so its refinement of the ledger specification holds for every adapter; what an honest
  adapter adds is the locale \<open>promotion_store\<close>, interpreted on the in-memory one.
\<close>

datatype promotion_attempt_state = PA_InProgress | PA_Cancelled | PA_Committed

datatype promotion_outcome =
  PO_Cancelled | PO_Committed | PO_AlreadyCommitted | PO_RejectedMismatch | PO_Incomplete

datatype promotion_authority = PromotionAuthority

record promotion_record =
  pr_op_id :: string
  pr_accepted_set_id :: string
  pr_input_digest :: string
  pr_state :: promotion_attempt_state
  pr_commit_id :: "string option"
  pr_commit_digest :: "string option"
  pr_publication_authority :: "promotion_authority option"

record promotion_result =
  px_outcome :: promotion_outcome
  px_op_id :: string
  px_commit_id :: "string option"
  px_commit_digest :: "string option"
  px_publication_authority :: "promotion_authority option"

definition promotion_has_publication_authority :: "promotion_result \<Rightarrow> bool" where
  "promotion_has_publication_authority r = (px_publication_authority r \<noteq> None)"

record 's promotion_store_ops =
  ps_get :: "'s \<Rightarrow> string \<Rightarrow> promotion_record option"
  ps_put :: "promotion_record \<Rightarrow> 's \<Rightarrow> 's option"
  ps_next_commit_id :: "'s \<Rightarrow> ('s \<times> string) option"
  ps_committed_count :: "'s \<Rightarrow> nat"
  ps_has_curated_commit :: "'s \<Rightarrow> string \<Rightarrow> bool"
  ps_has_curated_effect_for :: "'s \<Rightarrow> string \<Rightarrow> bool"
  ps_commit_digest_for :: "'s \<Rightarrow> string \<Rightarrow> string option"

section \<open>The service\<close>

record 's commit_curated_promotion =
  cc_store :: 's
  cc_committed :: "(string, promotion_record) hashmap"
  cc_open :: "(string, promotion_record) hashmap"
  cc_next_seq :: nat

definition promotion_new :: "'s \<Rightarrow> 's commit_curated_promotion" where
  "promotion_new store = \<lparr>cc_store = store, cc_committed = [], cc_open = [], cc_next_seq = 0\<rparr>"

definition commit_name :: "nat \<Rightarrow> string" where
  "commit_name n = ''commit:'' @ show_nat n"

definition bare_result :: "promotion_outcome \<Rightarrow> string \<Rightarrow> promotion_result" where
  "bare_result outcome op_id = \<lparr>px_outcome = outcome, px_op_id = op_id, px_commit_id = None,
     px_commit_digest = None, px_publication_authority = None\<rparr>"

definition promotion_lookup :: "'s commit_curated_promotion \<Rightarrow> string \<Rightarrow> promotion_record option" where
  "promotion_lookup st op_id =
     (case hm_get (cc_committed st) op_id of Some r \<Rightarrow> Some r | None \<Rightarrow> hm_get (cc_open st) op_id)"

definition handle_existing :: "promotion_record \<Rightarrow> string \<Rightarrow> string \<Rightarrow> promotion_result" where
  "handle_existing existing accepted_set_id input_digest =
     (if pr_accepted_set_id existing \<noteq> accepted_set_id \<or> pr_input_digest existing \<noteq> input_digest
        then bare_result PO_RejectedMismatch (pr_op_id existing)
      else if pr_state existing = PA_Committed
        then \<lparr>px_outcome = PO_AlreadyCommitted, px_op_id = pr_op_id existing,
              px_commit_id = pr_commit_id existing, px_commit_digest = pr_commit_digest existing,
              px_publication_authority = None\<rparr>
      else bare_result PO_Incomplete (pr_op_id existing))"

definition promotion_begin ::
    "'s promotion_store_ops \<Rightarrow> 's commit_curated_promotion \<Rightarrow> string \<Rightarrow> string \<Rightarrow> string \<Rightarrow>
     ('s commit_curated_promotion \<times> promotion_result) option" where
  "promotion_begin ops st op_id accepted_set_id input_digest =
     (case promotion_lookup st op_id of
        Some existing \<Rightarrow> Some (st, handle_existing existing accepted_set_id input_digest)
      | None \<Rightarrow>
          let record = \<lparr>pr_op_id = op_id, pr_accepted_set_id = accepted_set_id,
                pr_input_digest = input_digest, pr_state = PA_InProgress, pr_commit_id = None,
                pr_commit_digest = None, pr_publication_authority = None\<rparr>
          in do {
            store \<leftarrow> ps_put ops record (cc_store st);
            Some (st\<lparr>cc_open := hm_insert op_id record (cc_open st), cc_store := store\<rparr>,
                  bare_result PO_Incomplete op_id)
          })"

definition promotion_cancel ::
    "'s promotion_store_ops \<Rightarrow> 's commit_curated_promotion \<Rightarrow> string \<Rightarrow>
     ('s commit_curated_promotion \<times> promotion_result) option" where
  "promotion_cancel ops st op_id =
     (case hm_get (cc_committed st) op_id of
        Some existing \<Rightarrow>
          Some (st, \<lparr>px_outcome = PO_AlreadyCommitted, px_op_id = op_id,
                     px_commit_id = pr_commit_id existing, px_commit_digest = pr_commit_digest existing,
                     px_publication_authority = None\<rparr>)
      | None \<Rightarrow>
          (case hm_get (cc_open st) op_id of
             None \<Rightarrow> Some (st, bare_result PO_Incomplete op_id)
           | Some existing \<Rightarrow>
               let open_map = hm_remove op_id (cc_open st);
                   existing = existing\<lparr>pr_state := PA_Cancelled, pr_commit_id := None,
                     pr_commit_digest := None, pr_publication_authority := None\<rparr>;
                   op = pr_op_id existing
               in do {
                 store \<leftarrow> ps_put ops existing (cc_store st);
                 Some (st\<lparr>cc_open := hm_insert op existing open_map, cc_store := store\<rparr>,
                       bare_result PO_Cancelled op)
               }))"

text \<open>The part of \<open>commit\<close> after the guards.\<close>

definition promotion_commit_new ::
    "'s promotion_store_ops \<Rightarrow> 's commit_curated_promotion \<Rightarrow> string \<Rightarrow> string \<Rightarrow> string \<Rightarrow>
     ('s commit_curated_promotion \<times> promotion_result) option" where
  "promotion_commit_new ops st op_id accepted_set_id input_digest =
     do {
       next_seq \<leftarrow> u64_succ (cc_next_seq st);
       commit_id \<leftarrow> expect (parse_id ''commit id'' (commit_name next_seq) MAX_ID_LEN);
       let record = \<lparr>pr_op_id = op_id, pr_accepted_set_id = accepted_set_id,
             pr_input_digest = input_digest, pr_state = PA_Committed, pr_commit_id = Some commit_id,
             pr_commit_digest = Some input_digest, pr_publication_authority = None\<rparr>;
       (store, _) \<leftarrow> ps_next_commit_id ops (cc_store st);
       store \<leftarrow> ps_put ops record store;
       Some (\<lparr>cc_store = store, cc_committed = hm_insert op_id record (cc_committed st),
              cc_open = hm_remove op_id (cc_open st), cc_next_seq = next_seq\<rparr>,
             \<lparr>px_outcome = PO_Committed, px_op_id = op_id, px_commit_id = Some commit_id,
              px_commit_digest = Some input_digest, px_publication_authority = None\<rparr>)
     }"

definition promotion_commit ::
    "'s promotion_store_ops \<Rightarrow> 's commit_curated_promotion \<Rightarrow> string \<Rightarrow> string \<Rightarrow> string \<Rightarrow>
     ('s commit_curated_promotion \<times> promotion_result) option" where
  "promotion_commit ops st op_id accepted_set_id input_digest =
     (case promotion_lookup st op_id of
        None \<Rightarrow> promotion_commit_new ops st op_id accepted_set_id input_digest
      | Some existing \<Rightarrow>
          if pr_state existing = PA_Committed
            then Some (st, handle_existing existing accepted_set_id input_digest)
          else if pr_accepted_set_id existing \<noteq> accepted_set_id \<or> pr_input_digest existing \<noteq> input_digest
            then Some (st, bare_result PO_RejectedMismatch op_id)
          else promotion_commit_new ops st op_id accepted_set_id input_digest)"

definition promotion_committed_count :: "'s commit_curated_promotion \<Rightarrow> nat" where
  "promotion_committed_count st = hm_len (cc_committed st)"

definition promotion_has_curated_effect_for :: "'s commit_curated_promotion \<Rightarrow> string \<Rightarrow> bool" where
  "promotion_has_curated_effect_for st op_id = hm_contains (cc_committed st) op_id"

text \<open>The public operations as calls, and their sequences.\<close>

datatype promotion_call =
  BeginPromotion string string string | CancelPromotion string | CommitPromotion string string string

fun promotion_step ::
    "'s promotion_store_ops \<Rightarrow> promotion_call \<Rightarrow> 's commit_curated_promotion \<Rightarrow>
     ('s commit_curated_promotion \<times> promotion_result) option" where
  "promotion_step ops (BeginPromotion op s d) st = promotion_begin ops st op s d"
| "promotion_step ops (CancelPromotion op) st = promotion_cancel ops st op"
| "promotion_step ops (CommitPromotion op s d) st = promotion_commit ops st op s d"

fun promotion_run ::
    "'s promotion_store_ops \<Rightarrow> promotion_call list \<Rightarrow> 's commit_curated_promotion \<Rightarrow>
     ('s commit_curated_promotion \<times> promotion_result list) option" where
  "promotion_run ops [] st = Some (st, [])"
| "promotion_run ops (call # calls) st =
     do { (st', r) \<leftarrow> promotion_step ops call st;
          (st'', rs) \<leftarrow> promotion_run ops calls st';
          Some (st'', r # rs) }"

section \<open>The in-memory store\<close>

record in_memory_promotion_store =
  im_records :: "(string, promotion_record) hashmap"
  im_commits :: "(string, string) hashmap"
  im_next_seq :: nat

definition in_memory_put ::
    "promotion_record \<Rightarrow> in_memory_promotion_store \<Rightarrow> in_memory_promotion_store option" where
  "in_memory_put record s =
     (let commits = (case (pr_commit_id record, pr_commit_digest record) of
            (Some commit_id, Some digest) \<Rightarrow> hm_insert commit_id digest (im_commits s)
          | _ \<Rightarrow> im_commits s);
          commits = (if pr_state record \<noteq> PA_Committed
            then case hm_get (im_records s) (pr_op_id record) of
                   None \<Rightarrow> commits
                 | Some prev \<Rightarrow>
                     (case pr_commit_id prev of
                        None \<Rightarrow> commits
                      | Some old_commit \<Rightarrow>
                          if pr_state prev = PA_Committed then hm_remove old_commit commits else commits)
            else commits)
      in Some \<lparr>im_records = hm_insert (pr_op_id record) record (im_records s),
               im_commits = commits, im_next_seq = im_next_seq s\<rparr>)"

definition in_memory_next_commit_id ::
    "in_memory_promotion_store \<Rightarrow> (in_memory_promotion_store \<times> string) option" where
  "in_memory_next_commit_id s =
     do { n \<leftarrow> u64_succ (im_next_seq s);
          commit_id \<leftarrow> expect (parse_id ''commit id'' (commit_name n) MAX_ID_LEN);
          Some (s\<lparr>im_next_seq := n\<rparr>, commit_id) }"

definition in_memory_ops :: "in_memory_promotion_store promotion_store_ops" where
  "in_memory_ops =
     \<lparr>ps_get = (\<lambda>s op_id. hm_get (im_records s) op_id),
      ps_put = in_memory_put,
      ps_next_commit_id = in_memory_next_commit_id,
      ps_committed_count = (\<lambda>s. length (filter (\<lambda>r. pr_state r = PA_Committed) (map snd (im_records s)))),
      ps_has_curated_commit = (\<lambda>s commit_id. hm_contains (im_commits s) commit_id),
      ps_has_curated_effect_for = (\<lambda>s op_id. case hm_get (im_records s) op_id of None \<Rightarrow> False
        | Some r \<Rightarrow> pr_state r = PA_Committed \<and> pr_commit_id r \<noteq> None),
      ps_commit_digest_for = (\<lambda>s commit_id. hm_get (im_commits s) commit_id)\<rparr>"

definition in_memory_empty :: in_memory_promotion_store where
  "in_memory_empty = \<lparr>im_records = [], im_commits = [], im_next_seq = 0\<rparr>"

section \<open>The ledger specification\<close>

text \<open>Per operation: nothing, an attempt with its inputs (open or cancelled), or a numbered commit.\<close>

datatype op_status =
  NoAttempt
| Attempt (attempt_set: string) (attempt_digest: string) (attempt_cancelled: bool)
| Done (done_set: string) (done_digest: string) (done_number: nat)

record promotion_ledger =
  pl_status :: "string \<Rightarrow> op_status"
  pl_count :: nat

definition done_result :: "promotion_outcome \<Rightarrow> string \<Rightarrow> string \<Rightarrow> nat \<Rightarrow> promotion_result" where
  "done_result outcome op d n = \<lparr>px_outcome = outcome, px_op_id = op, px_commit_id = Some (commit_name n),
     px_commit_digest = Some d, px_publication_authority = None\<rparr>"

fun ledger_step :: "promotion_call \<Rightarrow> promotion_ledger \<Rightarrow> promotion_ledger \<times> promotion_result" where
  "ledger_step (BeginPromotion op s d) l =
     (case pl_status l op of
        NoAttempt \<Rightarrow> (l\<lparr>pl_status := (pl_status l)(op := Attempt s d False)\<rparr>, bare_result PO_Incomplete op)
      | Attempt s' d' c \<Rightarrow> (l, bare_result (if s' = s \<and> d' = d then PO_Incomplete else PO_RejectedMismatch) op)
      | Done s' d' n \<Rightarrow> (l, if s' = s \<and> d' = d then done_result PO_AlreadyCommitted op d' n
                            else bare_result PO_RejectedMismatch op))"
| "ledger_step (CancelPromotion op) l =
     (case pl_status l op of
        NoAttempt \<Rightarrow> (l, bare_result PO_Incomplete op)
      | Attempt s d c \<Rightarrow> (l\<lparr>pl_status := (pl_status l)(op := Attempt s d True)\<rparr>, bare_result PO_Cancelled op)
      | Done s d n \<Rightarrow> (l, done_result PO_AlreadyCommitted op d n))"
| "ledger_step (CommitPromotion op s d) l =
     (let n = Suc (pl_count l);
          committed = (l\<lparr>pl_status := (pl_status l)(op := Done s d n), pl_count := n\<rparr>,
                       done_result PO_Committed op d n)
      in case pl_status l op of
           NoAttempt \<Rightarrow> committed
         | Attempt s' d' c \<Rightarrow> if s' = s \<and> d' = d then committed else (l, bare_result PO_RejectedMismatch op)
         | Done s' d' n \<Rightarrow> (l, if s' = s \<and> d' = d then done_result PO_AlreadyCommitted op d' n
                               else bare_result PO_RejectedMismatch op))"

fun ledger_run :: "promotion_call list \<Rightarrow> promotion_ledger \<Rightarrow> promotion_ledger \<times> promotion_result list" where
  "ledger_run [] l = (l, [])"
| "ledger_run (c # cs) l = (let (l', r) = ledger_step c l; (l'', rs) = ledger_run cs l' in (l'', r # rs))"

definition empty_ledger :: promotion_ledger where
  "empty_ledger = \<lparr>pl_status = (\<lambda>_. NoAttempt), pl_count = 0\<rparr>"

text \<open>What a record says of its operation.\<close>

definition open_record :: "string \<Rightarrow> string \<Rightarrow> string \<Rightarrow> bool \<Rightarrow> promotion_record" where
  "open_record op s d c = \<lparr>pr_op_id = op, pr_accepted_set_id = s, pr_input_digest = d,
     pr_state = (if c then PA_Cancelled else PA_InProgress), pr_commit_id = None,
     pr_commit_digest = None, pr_publication_authority = None\<rparr>"

definition done_record :: "string \<Rightarrow> string \<Rightarrow> string \<Rightarrow> nat \<Rightarrow> promotion_record" where
  "done_record op s d n = \<lparr>pr_op_id = op, pr_accepted_set_id = s, pr_input_digest = d,
     pr_state = PA_Committed, pr_commit_id = Some (commit_name n),
     pr_commit_digest = Some d, pr_publication_authority = None\<rparr>"

definition represents :: "'s commit_curated_promotion \<Rightarrow> promotion_ledger \<Rightarrow> bool" where
  "represents st l = (cc_next_seq st = pl_count l \<and> hm_len (cc_committed st) = pl_count l \<and>
     (\<forall>op. (case pl_status l op of
        NoAttempt \<Rightarrow> hm_get (cc_committed st) op = None \<and> hm_get (cc_open st) op = None
      | Attempt s d c \<Rightarrow> hm_get (cc_committed st) op = None \<and> hm_get (cc_open st) op = Some (open_record op s d c)
      | Done s d n \<Rightarrow> hm_get (cc_committed st) op = Some (done_record op s d n) \<and> hm_get (cc_open st) op = None)))"

lemma open_record_fields [simp]:
  "pr_op_id (open_record op s d c) = op" "pr_accepted_set_id (open_record op s d c) = s"
  "pr_input_digest (open_record op s d c) = d" "pr_state (open_record op s d c) \<noteq> PA_Committed"
  "(open_record op s d c)\<lparr>pr_state := PA_Cancelled, pr_commit_id := None, pr_commit_digest := None,
     pr_publication_authority := None\<rparr> = open_record op s d True"
  "pr_commit_id (open_record op s d c) = None" "pr_commit_digest (open_record op s d c) = None"
  by (simp_all add: open_record_def)

lemma done_record_fields [simp]:
  "pr_op_id (done_record op s d n) = op" "pr_accepted_set_id (done_record op s d n) = s"
  "pr_input_digest (done_record op s d n) = d" "pr_state (done_record op s d n) = PA_Committed"
  "pr_commit_id (done_record op s d n) = Some (commit_name n)" "pr_commit_digest (done_record op s d n) = Some d"
  by (simp_all add: done_record_def)

lemma represents_get:
  assumes "represents st l"
  shows "hm_get (cc_committed st) op = (case pl_status l op of Done s d n \<Rightarrow> Some (done_record op s d n) | _ \<Rightarrow> None)"
    and "hm_get (cc_open st) op = (case pl_status l op of Attempt s d c \<Rightarrow> Some (open_record op s d c) | _ \<Rightarrow> None)"
    and "cc_next_seq st = pl_count l" "hm_len (cc_committed st) = pl_count l"
  using assms by (auto simp: represents_def split: op_status.splits)

lemma representsI:
  assumes "cc_next_seq st = pl_count l" "hm_len (cc_committed st) = pl_count l"
    and "\<And>op. hm_get (cc_committed st) op = (case pl_status l op of Done s d n \<Rightarrow> Some (done_record op s d n) | _ \<Rightarrow> None)"
    and "\<And>op. hm_get (cc_open st) op = (case pl_status l op of Attempt s d c \<Rightarrow> Some (open_record op s d c) | _ \<Rightarrow> None)"
  shows "represents st l"
  using assms by (auto simp: represents_def split: op_status.splits)

lemma commit_name_valid: "n < u64_limit \<Longrightarrow> valid_id MAX_ID_LEN (commit_name n)"
  unfolding commit_name_def by (rule valid_id_counter) (simp_all add: id_char_def is_ascii_alphanumeric_def less_eq_char_def MAX_ID_LEN_def)

lemma commit_name_inj [simp]: "commit_name a = commit_name b \<longleftrightarrow> a = b"
  by (simp add: commit_name_def)

lemma commit_new_refines:
  assumes "represents st l" "promotion_commit_new ops st op s d = Some (st', r)"
    and fresh: "\<forall>s d n. pl_status l op \<noteq> Done s d n"
  shows "represents st' (l\<lparr>pl_status := (pl_status l)(op := Done s d (Suc (pl_count l))), pl_count := Suc (pl_count l)\<rparr>) \<and>
    r = done_result PO_Committed op d (Suc (pl_count l))"
proof -
  note g = represents_get [OF assms(1)]
  obtain s2 where st':
    "st' = \<lparr>cc_store = s2, cc_committed = hm_insert op (done_record op s d (Suc (pl_count l))) (cc_committed st),
       cc_open = hm_remove op (cc_open st), cc_next_seq = Suc (pl_count l)\<rparr>"
    and r: "r = done_result PO_Committed op d (Suc (pl_count l))"
    using assms(2) by (auto simp: promotion_commit_new_def bind_eq_Some_conv u64_succ_eq_Some g(3) Let_def
        parse_id_eq_Inr done_record_def done_result_def split: prod.splits)
  have "\<not> hm_contains (cc_committed st) op"
    using fresh by (auto simp: hm_contains_def g split: op_status.splits)
  then have "represents st' (l\<lparr>pl_status := (pl_status l)(op := Done s d (Suc (pl_count l))), pl_count := Suc (pl_count l)\<rparr>)"
    by (intro representsI) (simp_all add: st' g hm_len_insert)
  with r show ?thesis by simp
qed

lemma begin_refines:
  assumes "represents st l" "promotion_begin ops st op s d = Some (st', r)"
  shows "represents st' (fst (ledger_step (BeginPromotion op s d) l)) \<and> r = snd (ledger_step (BeginPromotion op s d) l)"
proof (cases "pl_status l op")
  case NoAttempt
  note g = represents_get [OF assms(1)]
  obtain s2 where "st' = st\<lparr>cc_open := hm_insert op (open_record op s d False) (cc_open st), cc_store := s2\<rparr>"
    "r = bare_result PO_Incomplete op"
    using assms(2) NoAttempt
    by (auto simp: promotion_begin_def promotion_lookup_def g Let_def bind_eq_Some_conv open_record_def)
  then show ?thesis using NoAttempt by (auto intro!: representsI simp: g)
next
  case (Attempt s' d' c)
  then show ?thesis using assms represents_get [OF assms(1)]
    by (auto simp: promotion_begin_def promotion_lookup_def handle_existing_def)
next
  case (Done s' d' n)
  then show ?thesis using assms represents_get [OF assms(1)]
    by (auto simp: promotion_begin_def promotion_lookup_def handle_existing_def done_result_def)
qed

lemma cancel_refines:
  assumes "represents st l" "promotion_cancel ops st op = Some (st', r)"
  shows "represents st' (fst (ledger_step (CancelPromotion op) l)) \<and> r = snd (ledger_step (CancelPromotion op) l)"
proof (cases "pl_status l op")
  case NoAttempt
  then show ?thesis using assms represents_get [OF assms(1)] by (auto simp: promotion_cancel_def)
next
  case (Attempt s d c)
  note g = represents_get [OF assms(1)]
  obtain s2 where "st' = st\<lparr>cc_open := hm_insert op (open_record op s d True) (hm_remove op (cc_open st)), cc_store := s2\<rparr>"
    "r = bare_result PO_Cancelled op"
    using assms(2) Attempt by (auto simp: promotion_cancel_def g Let_def bind_eq_Some_conv)
  then show ?thesis using Attempt by (auto intro!: representsI simp: g)
next
  case (Done s d n)
  then show ?thesis using assms represents_get [OF assms(1)]
    by (auto simp: promotion_cancel_def done_result_def)
qed

lemma commit_refines:
  assumes "represents st l" "promotion_commit ops st op s d = Some (st', r)"
  shows "represents st' (fst (ledger_step (CommitPromotion op s d) l)) \<and> r = snd (ledger_step (CommitPromotion op s d) l)"
proof (cases "pl_status l op")
  case NoAttempt
  then show ?thesis using assms represents_get [OF assms(1)] commit_new_refines [OF assms(1), of ops op s d st' r]
    by (auto simp: promotion_commit_def promotion_lookup_def Let_def)
next
  case (Attempt s' d' c)
  then show ?thesis using assms represents_get [OF assms(1)] commit_new_refines [OF assms(1), of ops op s d st' r]
    by (auto simp: promotion_commit_def promotion_lookup_def Let_def split: if_splits)
next
  case (Done s' d' n)
  then show ?thesis using assms represents_get [OF assms(1)]
    by (auto simp: promotion_commit_def promotion_lookup_def handle_existing_def done_result_def Let_def)
qed

lemma step_refines:
  "represents st l \<Longrightarrow> promotion_step ops call st = Some (st', r) \<Longrightarrow>
     represents st' (fst (ledger_step call l)) \<and> r = snd (ledger_step call l)"
  by (cases call) (simp_all only: promotion_step.simps begin_refines cancel_refines commit_refines)

lemma run_refines:
  "represents st l \<Longrightarrow> promotion_run ops calls st = Some (st', rs) \<Longrightarrow>
     represents st' (fst (ledger_run calls l)) \<and> rs = snd (ledger_run calls l)"
proof (induction calls arbitrary: st l rs)
  case (Cons call calls)
  then obtain st1 r rs1 where "promotion_step ops call st = Some (st1, r)"
    "promotion_run ops calls st1 = Some (st', rs1)" "rs = r # rs1"
    by (auto simp: bind_eq_Some_conv split: prod.splits)
  with Cons.IH step_refines [OF Cons.prems(1)] show ?case
    by (fastforce simp: Let_def split: prod.splits)
qed simp

lemma new_represents: "represents (promotion_new s0) empty_ledger"
  by (simp add: represents_def promotion_new_def empty_ledger_def)

section \<open>Commits are unique\<close>

abbreviation committed_results :: "promotion_result list \<Rightarrow> promotion_result list" where
  "committed_results rs \<equiv> filter (\<lambda>r. px_outcome r = PO_Committed) rs"

definition is_done :: "op_status \<Rightarrow> bool" where
  "is_done x = (\<exists>s d n. x = Done s d n)"

lemma result_fields [simp]:
  "px_outcome (done_result ou op d n) = ou" "px_op_id (done_result ou op d n) = op"
  "px_commit_id (done_result ou op d n) = Some (commit_name n)"
  "px_commit_digest (done_result ou op d n) = Some d" "px_publication_authority (done_result ou op d n) = None"
  "px_outcome (bare_result ou op) = ou" "px_op_id (bare_result ou op) = op"
  "px_commit_id (bare_result ou op) = None" "px_commit_digest (bare_result ou op) = None"
  "px_publication_authority (bare_result ou op) = None"
  by (simp_all add: done_result_def bare_result_def)

text \<open>One step: what its result and the next ledger are.\<close>

lemma ledger_step_cases:
  assumes "ledger_step call l = (l', r)"
  obtains (commit) op s d where "r = done_result PO_Committed op d (Suc (pl_count l))" "\<not> is_done (pl_status l op)"
      "l' = l\<lparr>pl_status := (pl_status l)(op := Done s d (Suc (pl_count l))), pl_count := Suc (pl_count l)\<rparr>"
  | (again) op s d n where "r = done_result PO_AlreadyCommitted op d n" "pl_status l op = Done s d n" "l' = l"
  | (other) ou op where "r = bare_result ou op" "ou \<noteq> PO_Committed" "ou \<noteq> PO_AlreadyCommitted"
      "pl_count l' = pl_count l" "\<forall>op. is_done (pl_status l op) \<or> is_done (pl_status l' op) \<longrightarrow> pl_status l' op = pl_status l op"
proof (cases call)
  case (BeginPromotion op s d)
  show thesis
  proof (cases "pl_status l op")
    case NoAttempt
    with BeginPromotion assms show thesis
      by (intro other [of PO_Incomplete op]) (auto simp: is_done_def split: if_splits)
  next
    case (Attempt s' d' c)
    with BeginPromotion assms show thesis
      by (intro other [of "if s' = s \<and> d' = d then PO_Incomplete else PO_RejectedMismatch" op]) auto
  next
    case (Done s' d' n)
    show thesis
    proof (cases "s' = s \<and> d' = d")
      case True
      with Done BeginPromotion assms show thesis by (intro again [of op d' n s']) auto
    next
      case False
      with Done BeginPromotion assms show thesis by (intro other [of PO_RejectedMismatch op]) auto
    qed
  qed
next
  case (CancelPromotion op)
  show thesis
  proof (cases "pl_status l op")
    case NoAttempt
    with CancelPromotion assms show thesis by (intro other [of PO_Incomplete op]) auto
  next
    case (Attempt s d c)
    with CancelPromotion assms show thesis
      by (intro other [of PO_Cancelled op]) (auto simp: is_done_def split: if_splits)
  next
    case (Done s d n)
    with CancelPromotion assms show thesis by (intro again [of op d n s]) auto
  qed
next
  case (CommitPromotion op s d)
  show thesis
  proof (cases "pl_status l op")
    case NoAttempt
    with CommitPromotion assms show thesis
      by (intro commit [of op d s]) (auto simp: is_done_def Let_def)
  next
    case (Attempt s' d' c)
    show thesis
    proof (cases "s' = s \<and> d' = d")
      case True
      with Attempt CommitPromotion assms show thesis
        by (intro commit [of op d s]) (auto simp: is_done_def Let_def)
    next
      case False
      with Attempt CommitPromotion assms show thesis
        by (intro other [of PO_RejectedMismatch op]) (auto simp: Let_def)
    qed
  next
    case (Done s' d' n)
    show thesis
    proof (cases "s' = s \<and> d' = d")
      case True
      with Done CommitPromotion assms show thesis by (intro again [of op d' n s']) auto
    next
      case False
      with Done CommitPromotion assms show thesis by (intro other [of PO_RejectedMismatch op]) auto
    qed
  qed
qed

definition commits_fresh :: "promotion_ledger \<Rightarrow> promotion_result list \<Rightarrow> bool" where
  "commits_fresh l rs =
     (distinct (map px_op_id (committed_results rs)) \<and> distinct (map px_commit_id (committed_results rs)) \<and>
      (\<forall>r \<in> set rs. px_outcome r = PO_Committed \<longrightarrow> (\<exists>op d n. r = done_result PO_Committed op d n \<and>
         pl_count l < n \<and> \<not> is_done (pl_status l op))))"

definition repeats_known :: "promotion_ledger \<Rightarrow> promotion_result list \<Rightarrow> bool" where
  "repeats_known l rs =
     (\<forall>r \<in> set rs. px_outcome r = PO_AlreadyCommitted \<longrightarrow> (\<exists>op s d n. r = done_result PO_AlreadyCommitted op d n \<and>
         (pl_status l op = Done s d n \<or> done_result PO_Committed op d n \<in> set rs)))"

definition result_shape :: "promotion_result \<Rightarrow> bool" where
  "result_shape r = (px_publication_authority r = None \<and>
     (px_commit_id r \<noteq> None \<longleftrightarrow> px_outcome r \<in> {PO_Committed, PO_AlreadyCommitted}))"

lemma ledger_run_shape: "ledger_run calls l = (l', rs) \<Longrightarrow> \<forall>r \<in> set rs. result_shape r"
proof (induction calls arbitrary: l rs)
  case (Cons call calls)
  obtain l1 r rs1 where step: "ledger_step call l = (l1, r)" and run: "ledger_run calls l1 = (l', rs1)" and rs: "rs = r # rs1"
    using Cons.prems by (auto simp: Let_def split: prod.splits)
  from step have "result_shape r" by (cases rule: ledger_step_cases) (simp_all add: result_shape_def)
  with Cons.IH [OF run] show ?case by (simp add: rs)
qed simp

lemma ledger_run_fresh:
  "ledger_run calls l = (l', rs) \<Longrightarrow>
     commits_fresh l rs \<and> pl_count l' = pl_count l + length (committed_results rs)"
proof (induction calls arbitrary: l rs)
  case Nil
  then show ?case by (simp add: commits_fresh_def)
next
  case (Cons call calls)
  obtain l1 r rs1 where step: "ledger_step call l = (l1, r)" and run: "ledger_run calls l1 = (l', rs1)" and rs: "rs = r # rs1"
    using Cons.prems by (auto simp: Let_def split: prod.splits)
  note IH = Cons.IH [OF run]
  then have fresh: "\<exists>op d n. r' = done_result PO_Committed op d n \<and> pl_count l1 < n \<and> \<not> is_done (pl_status l1 op)"
    if "r' \<in> set rs1" "px_outcome r' = PO_Committed" for r'
    using that by (simp add: commits_fresh_def)
  show ?case
    using step
  proof (cases rule: ledger_step_cases)
    case (commit op s d)
    have no: "px_op_id r' \<noteq> op \<and> px_commit_id r' \<noteq> Some (commit_name (Suc (pl_count l))) \<and>
        (\<exists>op d n. r' = done_result PO_Committed op d n \<and> pl_count l < n \<and> \<not> is_done (pl_status l op))"
      if "r' \<in> set rs1" "px_outcome r' = PO_Committed" for r'
    proof -
      obtain op' d' n' where r': "r' = done_result PO_Committed op' d' n'" "pl_count l1 < n'"
        "\<not> is_done (pl_status l1 op')" using fresh \<open>r' \<in> set rs1\<close> \<open>px_outcome r' = PO_Committed\<close> by blast
      then have "op' \<noteq> op" "pl_count l < n'" "n' \<noteq> Suc (pl_count l)" using commit by (auto simp: is_done_def)
      moreover have "\<not> is_done (pl_status l op')" using r'(3) \<open>op' \<noteq> op\<close> commit by simp
      ultimately show ?thesis using r'(1) by auto
    qed
    with IH commit show ?thesis unfolding commits_fresh_def rs by auto
  next
    case (again op s d n)
    then show ?thesis using IH unfolding commits_fresh_def rs by simp
  next
    case (other ou op)
    have "\<exists>op d n. r' = done_result PO_Committed op d n \<and> pl_count l < n \<and> \<not> is_done (pl_status l op)"
      if "r' \<in> set rs1" "px_outcome r' = PO_Committed" for r'
      using fresh [OF that] other(4,5) by metis
    then show ?thesis using IH other(1-4) unfolding commits_fresh_def rs by simp
  qed
qed

lemma ledger_run_repeats: "ledger_run calls l = (l', rs) \<Longrightarrow> repeats_known l rs"
proof (induction calls arbitrary: l rs)
  case Nil
  then show ?case by (simp add: repeats_known_def)
next
  case (Cons call calls)
  obtain l1 r rs1 where step: "ledger_step call l = (l1, r)" and run: "ledger_run calls l1 = (l', rs1)" and rs: "rs = r # rs1"
    using Cons.prems by (auto simp: Let_def split: prod.splits)
  have IH: "\<exists>op s d n. r' = done_result PO_AlreadyCommitted op d n \<and>
      (pl_status l1 op = Done s d n \<or> done_result PO_Committed op d n \<in> set rs1)"
    if "r' \<in> set rs1" "px_outcome r' = PO_AlreadyCommitted" for r'
    using Cons.IH [OF run] that by (simp add: repeats_known_def)
  have known: "pl_status l op = Done s d n \<or> done_result PO_Committed op d n = r"
    if "pl_status l1 op = Done s d n" for op s d n
    using step
  proof (cases rule: ledger_step_cases)
    case (commit op' s' d')
    with that show ?thesis by (auto split: if_splits)
  next
    case (again op' s' d' n')
    with that show ?thesis by simp
  next
    case (other ou op')
    then have "pl_status l1 op = pl_status l op" using that by (simp add: is_done_def)
    with that show ?thesis by simp
  qed
  have "\<exists>op s d n. r = done_result PO_AlreadyCommitted op d n \<and> pl_status l op = Done s d n"
    if "px_outcome r = PO_AlreadyCommitted"
    using step
  proof (cases rule: ledger_step_cases)
    case (commit op' s' d')
    with that show ?thesis by simp
  next
    case (again op' s' d' n')
    then show ?thesis by blast
  next
    case (other ou op')
    with that show ?thesis by simp
  qed
  then show ?case
    unfolding repeats_known_def rs using IH known by (metis list.set_intros set_ConsD)
qed

section \<open>An honest store\<close>

text \<open>
  The laws of a store that does not panic within its counter and returns what was put. The
  client lemmas: the service runs without a panic, and the store shows the service's ledgers.
\<close>

locale promotion_store =
  fixes ops :: "'s promotion_store_ops"
    and store_inv :: "'s \<Rightarrow> bool"
    and store_seq :: "'s \<Rightarrow> nat"
  assumes put_ok: "store_inv s \<Longrightarrow>
      \<exists>s'. ps_put ops r s = Some s' \<and> store_inv s' \<and> store_seq s' = store_seq s"
    and get_put: "store_inv s \<Longrightarrow> ps_put ops r s = Some s' \<Longrightarrow>
      ps_get ops s' op = (if op = pr_op_id r then Some r else ps_get ops s op)"
    and next_ok: "store_inv s \<Longrightarrow> Suc (store_seq s) < u64_limit \<Longrightarrow>
      \<exists>s' i. ps_next_commit_id ops s = Some (s', i) \<and> store_inv s' \<and> store_seq s' = Suc (store_seq s)"
    and get_next: "store_inv s \<Longrightarrow> ps_next_commit_id ops s = Some (s', i) \<Longrightarrow> ps_get ops s' op = ps_get ops s op"
begin

definition mirrored :: "'s commit_curated_promotion \<Rightarrow> bool" where
  "mirrored st = (store_inv (cc_store st) \<and> store_seq (cc_store st) = cc_next_seq st \<and>
     (\<forall>op. ps_get ops (cc_store st) op = promotion_lookup st op))"

lemma commit_new_mirrored:
  assumes "mirrored st" "Suc (cc_next_seq st) < u64_limit"
  shows "\<exists>st' r. promotion_commit_new ops st op s d = Some (st', r) \<and> mirrored st' \<and>
     cc_next_seq st' = Suc (cc_next_seq st)"
proof -
  obtain s1 i where s1: "ps_next_commit_id ops (cc_store st) = Some (s1, i)" "store_inv s1"
    "store_seq s1 = Suc (cc_next_seq st)" and g1: "\<And>op. ps_get ops s1 op = promotion_lookup st op"
    using assms next_ok [of "cc_store st"] get_next [of "cc_store st"] by (auto simp: mirrored_def)
  define rec where "rec = \<lparr>pr_op_id = op, pr_accepted_set_id = s, pr_input_digest = d, pr_state = PA_Committed,
      pr_commit_id = Some (commit_name (Suc (cc_next_seq st))), pr_commit_digest = Some d,
      pr_publication_authority = None\<rparr>"
  obtain s2 where s2: "ps_put ops rec s1 = Some s2" "store_inv s2" "store_seq s2 = store_seq s1"
    using put_ok [OF s1(2)] by blast
  have "u64_succ (cc_next_seq st) = Some (Suc (cc_next_seq st))" using assms(2) by (simp add: u64_succ_eq_Some)
  with assms(2) s1(1) s2(1) have eq: "promotion_commit_new ops st op s d =
      Some (\<lparr>cc_store = s2, cc_committed = hm_insert op rec (cc_committed st),
             cc_open = hm_remove op (cc_open st), cc_next_seq = Suc (cc_next_seq st)\<rparr>,
            done_result PO_Committed op d (Suc (cc_next_seq st)))"
    by (simp add: promotion_commit_new_def parse_id_valid commit_name_valid rec_def done_result_def)
  have "pr_op_id rec = op" by (simp add: rec_def)
  with s1 s2 get_put [OF s1(2) s2(1)] g1 show ?thesis
    unfolding eq by (auto simp: mirrored_def promotion_lookup_def split: option.split)
qed

lemma step_mirrored:
  assumes m: "mirrored st" and lim: "Suc (cc_next_seq st) < u64_limit"
    and ops_match: "\<And>op r. hm_get (cc_open st) op = Some r \<Longrightarrow> pr_op_id r = op"
  shows "\<exists>st' r. promotion_step ops call st = Some (st', r) \<and> mirrored st' \<and>
     cc_next_seq st' \<le> Suc (cc_next_seq st)"
proof (cases call)
  case (BeginPromotion op s d)
  show ?thesis
  proof (cases "promotion_lookup st op")
    case None
    define rec where "rec = \<lparr>pr_op_id = op, pr_accepted_set_id = s, pr_input_digest = d, pr_state = PA_InProgress,
      pr_commit_id = None, pr_commit_digest = None, pr_publication_authority = None\<rparr>"
    obtain s2 where "ps_put ops rec (cc_store st) = Some s2" "store_inv s2" "store_seq s2 = store_seq (cc_store st)"
      using m put_ok [of "cc_store st" rec] by (auto simp: mirrored_def)
    with m get_put [of "cc_store st" rec s2] None BeginPromotion show ?thesis
      by (auto simp: promotion_begin_def rec_def [symmetric] Let_def mirrored_def promotion_lookup_def
          split: option.splits) (auto simp: rec_def)
  qed (use BeginPromotion m in \<open>simp add: promotion_begin_def\<close>)
next
  case (CancelPromotion op)
  show ?thesis
  proof (cases "hm_get (cc_committed st) op")
    case None
    show ?thesis
    proof (cases "hm_get (cc_open st) op")
      case (Some r)
      define rec where "rec = r\<lparr>pr_state := PA_Cancelled, pr_commit_id := None, pr_commit_digest := None,
        pr_publication_authority := None\<rparr>"
      have id: "pr_op_id rec = op" using ops_match [OF Some] by (simp add: rec_def)
      obtain s2 where "ps_put ops rec (cc_store st) = Some s2" "store_inv s2" "store_seq s2 = store_seq (cc_store st)"
        using m put_ok [of "cc_store st" rec] by (auto simp: mirrored_def)
      with m get_put [of "cc_store st" rec s2] None Some CancelPromotion id show ?thesis
        by (auto simp: promotion_cancel_def rec_def [symmetric] Let_def mirrored_def promotion_lookup_def
            split: option.split)
    qed (use CancelPromotion m None in \<open>simp add: promotion_cancel_def\<close>)
  qed (use CancelPromotion m in \<open>simp add: promotion_cancel_def\<close>)
next
  case (CommitPromotion op s d)
  then show ?thesis
    using commit_new_mirrored [OF m lim, of op s d] m
    by (auto simp: promotion_commit_def split: option.split)
qed

lemma run_mirrored:
  "mirrored st \<Longrightarrow> represents st l \<Longrightarrow> cc_next_seq st + length calls < u64_limit \<Longrightarrow>
     \<exists>st' rs. promotion_run ops calls st = Some (st', rs) \<and> mirrored st'"
proof (induction calls arbitrary: st l)
  case (Cons call calls)
  have "\<And>op r. hm_get (cc_open st) op = Some r \<Longrightarrow> pr_op_id r = op"
    using represents_get(2) [OF Cons.prems(2)] by (auto split: op_status.splits)
  then obtain st1 r where s: "promotion_step ops call st = Some (st1, r)" "mirrored st1"
    "cc_next_seq st1 \<le> Suc (cc_next_seq st)"
    using step_mirrored [OF Cons.prems(1), of call] Cons.prems(3) by auto
  have "represents st1 (fst (ledger_step call l))" using step_refines [OF Cons.prems(2) s(1)] by simp
  from Cons.IH [OF s(2) this] s Cons.prems(3) show ?case by auto
qed simp

end

definition im_wf :: "in_memory_promotion_store \<Rightarrow> bool" where
  "im_wf s = hm_wf (im_records s)"

interpretation mem_promotion: promotion_store in_memory_ops im_wf im_next_seq
proof
  fix s :: in_memory_promotion_store and s' r op i
  show "im_wf s \<Longrightarrow> \<exists>s'. ps_put in_memory_ops r s = Some s' \<and> im_wf s' \<and> im_next_seq s' = im_next_seq s"
    by (simp add: in_memory_ops_def in_memory_put_def Let_def im_wf_def)
  show "im_wf s \<Longrightarrow> ps_put in_memory_ops r s = Some s' \<Longrightarrow>
      ps_get in_memory_ops s' op = (if op = pr_op_id r then Some r else ps_get in_memory_ops s op)"
    by (auto simp: in_memory_ops_def in_memory_put_def Let_def)
  show "im_wf s \<Longrightarrow> Suc (im_next_seq s) < u64_limit \<Longrightarrow>
      \<exists>s' i. ps_next_commit_id in_memory_ops s = Some (s', i) \<and> im_wf s' \<and> im_next_seq s' = Suc (im_next_seq s)"
    by (auto simp: in_memory_ops_def in_memory_next_commit_id_def u64_succ_eq_Some im_wf_def
        parse_id_valid commit_name_valid bind_eq_Some_conv)
  show "im_wf s \<Longrightarrow> ps_next_commit_id in_memory_ops s = Some (s', i) \<Longrightarrow>
      ps_get in_memory_ops s' op = ps_get in_memory_ops s op"
    by (auto simp: in_memory_ops_def in_memory_next_commit_id_def bind_eq_Some_conv)
qed

section \<open>Properties\<close>

text \<open>C5. Whatever the store does, a call of the promotion service that returns does what the abstract
ledger does: the same result and a state that represents the next ledger. So no store, honest or hostile, can
change a promotion outcome.\<close>

theorem promotion_refines_ledger:
  assumes "represents st l" "promotion_step ops call st = Some (st', r)"
  shows "represents st' (fst (ledger_step call l)) \<and> r = snd (ledger_step call l)"
  using assms by (rule step_refines)

text \<open>Over any sequence of calls on a new service and any store, every operation is committed at
most once, two commits never share an identity, every repeated answer \<open>AlreadyCommitted\<close> names the
identity and digest that were committed before, the ledger counts the commits, and no result ever carries
publication authority.\<close>

theorem promotion_commits_once:
  assumes "promotion_run ops calls (promotion_new s0) = Some (st, rs)"
  shows "distinct (map px_op_id (committed_results rs)) \<and>
    distinct (map px_commit_id (committed_results rs)) \<and>
    promotion_committed_count st = length (committed_results rs) \<and>
    (\<forall>r \<in> set rs. px_outcome r = PO_AlreadyCommitted \<longrightarrow>
       (\<exists>r' \<in> set (committed_results rs). px_op_id r' = px_op_id r \<and> px_commit_id r' = px_commit_id r \<and>
          px_commit_digest r' = px_commit_digest r)) \<and>
    (\<forall>r \<in> set rs. \<not> promotion_has_publication_authority r)"
proof -
  obtain l' where run: "ledger_run calls empty_ledger = (l', rs)" and rep: "represents st l'"
    using run_refines [OF new_represents assms] by (metis prod.collapse)
  have "promotion_committed_count st = length (committed_results rs)"
    using ledger_run_fresh [OF run] represents_get(4) [OF rep]
    by (simp add: promotion_committed_count_def empty_ledger_def)
  moreover have "\<exists>r' \<in> set (committed_results rs). px_op_id r' = px_op_id r \<and> px_commit_id r' = px_commit_id r \<and>
      px_commit_digest r' = px_commit_digest r" if known: "r \<in> set rs" "px_outcome r = PO_AlreadyCommitted" for r
  proof -
    obtain op d n where "r = done_result PO_AlreadyCommitted op d n" "done_result PO_Committed op d n \<in> set rs"
      using ledger_run_repeats [OF run, unfolded repeats_known_def, rule_format, OF known]
      by (auto simp: empty_ledger_def)
    then show ?thesis by (intro bexI [of _ "done_result PO_Committed op d n"]) simp_all
  qed
  ultimately show ?thesis
    using ledger_run_fresh [OF run] ledger_run_shape [OF run]
    by (auto simp: commits_fresh_def result_shape_def promotion_has_publication_authority_def)
qed

text \<open>On the in-memory store the service never panics within the range of its counter, and afterwards
the store answers \<open>get\<close> for every operation as the ledgers do.\<close>

theorem promotion_in_memory_total:
  assumes "length calls < u64_limit"
  shows "\<exists>st rs. promotion_run in_memory_ops calls (promotion_new in_memory_empty) = Some (st, rs) \<and>
    (\<forall>op. ps_get in_memory_ops (cc_store st) op = promotion_lookup st op)"
proof -
  have "mem_promotion.mirrored (promotion_new in_memory_empty)"
    unfolding mem_promotion.mirrored_def
    by (simp add: promotion_new_def in_memory_empty_def im_wf_def in_memory_ops_def promotion_lookup_def)
  from mem_promotion.run_mirrored [OF this new_represents, of calls] assms show ?thesis
    unfolding mem_promotion.mirrored_def by (auto simp: promotion_new_def)
qed

lemma promotion_example:
  "promotion_run in_memory_ops [BeginPromotion ''P1'' ''S1'' ''D1'', CommitPromotion ''P1'' ''S1'' ''D1'']
     (promotion_new in_memory_empty) =
   Some (\<lparr>cc_store = \<lparr>im_records = [(''P1'', done_record ''P1'' ''S1'' ''D1'' 1)],
            im_commits = [(commit_name 1, ''D1'')], im_next_seq = 1\<rparr>,
          cc_committed = [(''P1'', done_record ''P1'' ''S1'' ''D1'' 1)], cc_open = [], cc_next_seq = 1\<rparr>,
         [bare_result PO_Incomplete ''P1'', done_result PO_Committed ''P1'' ''D1'' 1])"
  by code_simp

theorem promotion_commits_once_witness:
  "distinct (map px_commit_id (committed_results [bare_result PO_Incomplete ''P1'', done_result PO_Committed ''P1'' ''D1'' 1]))"
  using promotion_commits_once [OF promotion_example] by blast

theorem promotion_in_memory_total_witness:
  "\<exists>st rs. promotion_run in_memory_ops [BeginPromotion ''P1'' ''S1'' ''D1'', CancelPromotion ''P1'']
     (promotion_new in_memory_empty) = Some (st, rs) \<and>
     (\<forall>op. ps_get in_memory_ops (cc_store st) op = promotion_lookup st op)"
  by (rule promotion_in_memory_total) (simp add: u64_limit_def)

theorem promotion_refines_ledger_witness:
  "represents (promotion_new in_memory_empty) (fst (ledger_step (CancelPromotion ''P1'') empty_ledger))"
proof -
  have "promotion_step in_memory_ops (CancelPromotion ''P1'') (promotion_new in_memory_empty) =
      Some (promotion_new in_memory_empty, bare_result PO_Incomplete ''P1'')" by code_simp
  from promotion_refines_ledger [OF new_represents this] show ?thesis by blast
qed

end
