(* ===== verification/LN_Replay.thy ===== *)
theory LN_Replay
  imports LN_Ids
begin

text \<open>
  \<open>crates/ln-replay\<close>: checkpoint replay (\<open>CoordinateCheckpointAndReplay\<close>, \<open>application.rs\<close>) over a
  checkpoint port and an external effect ledger, the in-memory and the duplicating ledger, and the
  durable JSONL ledger (\<open>adapters.rs\<close>) down to the bytes of its file. What the operating system does to an
  append is a \<open>disk_outcome\<close>; a \<open>File\<close> opened for appending is the content of the file.
\<close>

section \<open>Domain\<close>

datatype replay_outcome =
  RP_Applied | RP_Suppressed | RP_Corrupt | RP_IncompatibleRule | RP_Incomplete | RP_Mismatch

fun replay_as_str :: "replay_outcome \<Rightarrow> string" where
  "replay_as_str RP_Applied = ''applied''"
| "replay_as_str RP_Suppressed = ''suppressed''"
| "replay_as_str RP_Corrupt = ''corrupt''"
| "replay_as_str RP_IncompatibleRule = ''incompatible-rule''"
| "replay_as_str RP_Incomplete = ''incomplete''"
| "replay_as_str RP_Mismatch = ''mismatch''"

fun replay_is_success :: "replay_outcome \<Rightarrow> bool" where
  "replay_is_success RP_Applied = True"
| "replay_is_success RP_Suppressed = True"
| "replay_is_success _ = False"

definition REPLAY_POLICY_VERSION :: string where
  "REPLAY_POLICY_VERSION = ''hc14:checkpoint-replay:v1''"

datatype replay_authority = ReplayAuthority

record checkpoint_record =
  ck_checkpoint_id :: string
  ck_digest :: string
  ck_rule_version :: string
  ck_operation_id :: string
  ck_effect_id :: string
  ck_history_digest :: string

record replay_request =
  rq_request_id :: string
  rq_checkpoint_id :: string
  rq_expected_digest :: string
  rq_expected_rule_version :: string
  rq_operation_id :: string
  rq_effect_id :: string

record replay_trace =
  rt_policy_version :: string
  rt_request_id :: string
  rt_outcome :: replay_outcome
  rt_checkpoint_id :: string
  rt_expected_digest :: string
  rt_observed_digest :: "string option"
  rt_expected_rule_version :: string
  rt_observed_rule_version :: "string option"
  rt_operation_id :: string
  rt_effect_id :: string
  rt_prior_applied_digest :: "string option"
  rt_applied_count_before :: nat
  rt_applied_count_after :: nat
  rt_effect_suppressed :: bool
  rt_lineage_rewritten :: bool
  rt_publication_authority :: "replay_authority option"
  rt_publication_authority_changed :: bool

record replay_result =
  rx_outcome :: replay_outcome
  rx_applied_count :: nat
  rx_effect_suppressed :: bool
  rx_lineage_rewritten :: bool
  rx_publication_authority :: "replay_authority option"
  rx_publication_authority_changed :: bool
  rx_trace :: replay_trace

section \<open>The replay service\<close>

text \<open>The ledger port; \<open>try_apply\<close> is its only operation on \<open>&mut self\<close>.\<close>

record 'l effect_ledger_ops =
  el_applied_count :: "'l \<Rightarrow> nat"
  el_has_applied :: "'l \<Rightarrow> string \<Rightarrow> string \<Rightarrow> bool"
  el_prior_digest :: "'l \<Rightarrow> string \<Rightarrow> string \<Rightarrow> string option"
  el_try_apply :: "'l \<Rightarrow> string \<Rightarrow> string \<Rightarrow> string \<Rightarrow> 'l \<times> bool"

record 'l replay_service =
  rv_ledger :: 'l
  rv_applied :: "(string, string) hashmap"

definition replay_new :: "'l \<Rightarrow> 'l replay_service" where
  "replay_new ledger = \<lparr>rv_ledger = ledger, rv_applied = []\<rparr>"

definition replay_applied_count :: "'l replay_service \<Rightarrow> nat" where
  "replay_applied_count st = hm_len (rv_applied st)"

definition replay_finish ::
    "replay_request \<Rightarrow> replay_outcome \<Rightarrow> string option \<Rightarrow> string option \<Rightarrow> string option \<Rightarrow> nat \<Rightarrow> nat \<Rightarrow>
     bool \<Rightarrow> bool \<Rightarrow> replay_result" where
  "replay_finish request outcome observed_digest observed_rule_version prior_applied_digest
       applied_count_before applied_count_after effect_suppressed lineage_rewritten =
     \<lparr>rx_outcome = outcome, rx_applied_count = applied_count_after,
      rx_effect_suppressed = effect_suppressed, rx_lineage_rewritten = lineage_rewritten,
      rx_publication_authority = None, rx_publication_authority_changed = False,
      rx_trace = \<lparr>rt_policy_version = REPLAY_POLICY_VERSION, rt_request_id = rq_request_id request,
        rt_outcome = outcome, rt_checkpoint_id = rq_checkpoint_id request,
        rt_expected_digest = rq_expected_digest request, rt_observed_digest = observed_digest,
        rt_expected_rule_version = rq_expected_rule_version request,
        rt_observed_rule_version = observed_rule_version,
        rt_operation_id = rq_operation_id request, rt_effect_id = rq_effect_id request,
        rt_prior_applied_digest = prior_applied_digest,
        rt_applied_count_before = applied_count_before, rt_applied_count_after = applied_count_after,
        rt_effect_suppressed = effect_suppressed, rt_lineage_rewritten = lineage_rewritten,
        rt_publication_authority = None, rt_publication_authority_changed = False\<rparr>\<rparr>"

text \<open>
  One replay; \<open>load\<close> is what the checkpoint port answers. The answer of \<open>has_applied\<close> on the suppressed
  path and the answer of \<open>try_apply\<close> are discarded by the code.
\<close>

definition replay ::
    "'l effect_ledger_ops \<Rightarrow> (string \<Rightarrow> checkpoint_record option) \<Rightarrow> 'l replay_service \<Rightarrow> replay_request \<Rightarrow>
     'l replay_service \<times> replay_result" where
  "replay ops load st request =
     (let before = hm_len (rv_applied st)
      in case load (rq_checkpoint_id request) of
           None \<Rightarrow> (st, replay_finish request RP_Incomplete None None None before before False False)
         | Some record \<Rightarrow>
             let refuse = (\<lambda>outcome. (st, replay_finish request outcome (Some (ck_digest record))
                   (Some (ck_rule_version record)) None before before False False))
             in if ck_digest record \<noteq> rq_expected_digest request then refuse RP_Corrupt
                else if ck_rule_version record \<noteq> rq_expected_rule_version request then refuse RP_IncompatibleRule
                else if ck_operation_id record \<noteq> rq_operation_id request \<or>
                        ck_effect_id record \<noteq> rq_effect_id request then refuse RP_Mismatch
                else
                  let key = bar (rq_operation_id request) (rq_effect_id request)
                  in case hm_get (rv_applied st) key of
                       Some prior \<Rightarrow>
                         (st, replay_finish request RP_Suppressed (Some (ck_digest record))
                            (Some (ck_rule_version record)) (Some prior) before before True False)
                     | None \<Rightarrow>
                         let applied = hm_insert key (ck_digest record) (rv_applied st);
                             (ledger, _) = el_try_apply ops (rv_ledger st) (rq_operation_id request)
                               (rq_effect_id request) (ck_digest record);
                             after = hm_len applied
                         in (\<lparr>rv_ledger = ledger, rv_applied = applied\<rparr>,
                             replay_finish request RP_Applied (Some (ck_digest record))
                               (Some (ck_rule_version record)) None before after False False))"

text \<open>A sequence of replays; the checkpoint port may answer differently each time.\<close>

type_synonym replay_call = "(string \<Rightarrow> checkpoint_record option) \<times> replay_request"

fun replay_run ::
    "'l effect_ledger_ops \<Rightarrow> replay_call list \<Rightarrow> 'l replay_service \<Rightarrow> 'l replay_service \<times> replay_result list" where
  "replay_run ops [] st = (st, [])"
| "replay_run ops ((load, request) # calls) st =
     (let (st1, r) = replay ops load st request; (st2, rs) = replay_run ops calls st1 in (st2, r # rs))"

section \<open>In-memory adapters\<close>

type_synonym checkpoint_store = "(string, checkpoint_record) hashmap"

definition checkpoint_insert :: "checkpoint_record \<Rightarrow> checkpoint_store \<Rightarrow> checkpoint_store" where
  "checkpoint_insert record store = hm_insert (ck_checkpoint_id record) record store"

definition checkpoint_load :: "checkpoint_store \<Rightarrow> string \<Rightarrow> checkpoint_record option" where
  "checkpoint_load store checkpoint_id = hm_get store checkpoint_id"

definition sample_checkpoint ::
    "string \<Rightarrow> string \<Rightarrow> string \<Rightarrow> string \<Rightarrow> string \<Rightarrow> string \<Rightarrow> checkpoint_record option" where
  "sample_checkpoint checkpoint_id digest rules operation effect history = do {
     c \<leftarrow> expect (parse_id ''checkpoint id'' checkpoint_id MAX_ID_LEN);
     d \<leftarrow> expect (parse_id ''checkpoint digest'' digest MAX_ID_LEN);
     v \<leftarrow> expect (parse_id ''rule version'' rules MAX_ID_LEN);
     op \<leftarrow> expect (parse_id ''operation id'' operation MAX_ID_LEN);
     e \<leftarrow> expect (parse_id ''effect id'' effect MAX_ID_LEN);
     h \<leftarrow> expect (parse_id ''checkpoint digest'' history MAX_ID_LEN);
     Some \<lparr>ck_checkpoint_id = c, ck_digest = d, ck_rule_version = v, ck_operation_id = op,
           ck_effect_id = e, ck_history_digest = h\<rparr> }"

definition ledger_key :: "string \<Rightarrow> string \<Rightarrow> string" where
  "ledger_key operation_id effect_id = bar operation_id effect_id"

type_synonym memory_ledger = "(string, string) hashmap"

definition memory_try_apply :: "memory_ledger \<Rightarrow> string \<Rightarrow> string \<Rightarrow> string \<Rightarrow> memory_ledger \<times> bool" where
  "memory_try_apply l operation_id effect_id digest =
     (let key = ledger_key operation_id effect_id
      in if hm_contains l key then (l, False) else (hm_insert key digest l, True))"

definition memory_ledger_ops :: "memory_ledger effect_ledger_ops" where
  "memory_ledger_ops =
     \<lparr>el_applied_count = hm_len,
      el_has_applied = (\<lambda>l op e. hm_contains l (ledger_key op e)),
      el_prior_digest = (\<lambda>l op e. hm_get l (ledger_key op e)),
      el_try_apply = memory_try_apply\<rparr>"

record hostile_ledger =
  hl_inner :: memory_ledger
  hl_forced_applies :: nat

definition hostile_ledger_ops :: "hostile_ledger effect_ledger_ops" where
  "hostile_ledger_ops =
     \<lparr>el_applied_count = (\<lambda>l. hm_len (hl_inner l) + hl_forced_applies l),
      el_has_applied = (\<lambda>l op e. False),
      el_prior_digest = (\<lambda>l op e. hm_get (hl_inner l) (ledger_key op e)),
      el_try_apply = (\<lambda>l op e d.
        let (inner, first) = memory_try_apply (hl_inner l) op e d
        in if \<not> first then (l\<lparr>hl_inner := inner, hl_forced_applies := hl_forced_applies l + 1\<rparr>, True)
           else (l\<lparr>hl_inner := inner\<rparr>, True))\<rparr>"

section \<open>The JSONL ledger\<close>

text \<open>The operating system's error, as text.\<close>

type_synonym io_error = string

datatype effect_ledger_error =
  LedgerPathUnset
| LedgerIo string io_error
| CorruptRecord string nat string

definition RECORD_PREFIX :: string where
  "RECORD_PREFIX = [CHR ''{'', CHR 0x22] @ ''operation_id'' @ [CHR 0x22, CHR '':'']"

definition EFFECT_FIELD :: string where
  "EFFECT_FIELD = [CHR '','', CHR 0x22] @ ''effect_id'' @ [CHR 0x22, CHR '':'']"

definition DIGEST_FIELD :: string where
  "DIGEST_FIELD = [CHR '','', CHR 0x22] @ ''digest'' @ [CHR 0x22, CHR '':'']"

definition record_line :: "string \<Rightarrow> string \<Rightarrow> string \<Rightarrow> string" where
  "record_line operation_id effect_id digest =
     RECORD_PREFIX @ [CHR 0x22] @ operation_id @ [CHR 0x22] @
     EFFECT_FIELD @ [CHR 0x22] @ effect_id @ [CHR 0x22] @
     DIGEST_FIELD @ [CHR 0x22] @ digest @ [CHR 0x22] @ ''}''"

text \<open>Every refusal of the parser has the same reason.\<close>

definition parse_record_line :: "string \<Rightarrow> string + (string \<times> string \<times> string)" where
  "parse_record_line line =
     ok_or (do {
       rest \<leftarrow> strip_prefix RECORD_PREFIX line;
       rest \<leftarrow> strip_prefix [CHR 0x22] rest;
       (operation_id, rest) \<leftarrow> split_once (CHR 0x22) rest;
       rest \<leftarrow> strip_prefix EFFECT_FIELD rest;
       rest \<leftarrow> strip_prefix [CHR 0x22] rest;
       (effect_id, rest) \<leftarrow> split_once (CHR 0x22) rest;
       rest \<leftarrow> strip_prefix DIGEST_FIELD rest;
       rest \<leftarrow> strip_prefix [CHR 0x22] rest;
       (digest, rest) \<leftarrow> split_once (CHR 0x22) rest;
       if rest \<noteq> ''}'' then None else Some (operation_id, effect_id, digest)
     }) ''not canonical record''"

record jsonl_ledger =
  jl_path :: string
  jl_applied :: "(string, string) hashmap"
  jl_file :: string
  jl_last_error :: "effect_ledger_error option"

text \<open>The loop of \<open>open\<close> over the lines of the file, with the number of the current line.\<close>

fun hydrate ::
    "string \<Rightarrow> nat \<Rightarrow> string list \<Rightarrow> (string, string) hashmap \<Rightarrow>
     effect_ledger_error + (string, string) hashmap" where
  "hydrate path line_number [] applied = Inr applied"
| "hydrate path line_number (line # lines) applied =
     (if \<not> utf8_ok line then Inl (LedgerIo path ''stream did not contain valid UTF-8'')
      else if line = [] then hydrate path (line_number + 1) lines applied
      else case map_err (CorruptRecord path line_number) (parse_record_line line) of
        Inl e \<Rightarrow> Inl e
      | Inr (operation_id, effect_id, digest) \<Rightarrow>
          (case parse_id ''operation id'' operation_id MAX_ID_LEN of
             Inl _ \<Rightarrow> Inl (CorruptRecord path line_number ''invalid operation id'')
           | Inr operation_id \<Rightarrow>
          (case parse_id ''effect id'' effect_id MAX_ID_LEN of
             Inl _ \<Rightarrow> Inl (CorruptRecord path line_number ''invalid effect id'')
           | Inr effect_id \<Rightarrow>
          (case parse_id ''checkpoint digest'' digest MAX_ID_LEN of
             Inl _ \<Rightarrow> Inl (CorruptRecord path line_number ''invalid digest'')
           | Inr digest \<Rightarrow>
               if hm_contains applied (ledger_key operation_id effect_id)
               then Inl (CorruptRecord path line_number ''duplicate applied identity'')
               else hydrate path (line_number + 1) lines
                      (hm_insert (ledger_key operation_id effect_id) digest applied)))))"

text \<open>
  \<open>open\<close>: \<open>existing\<close> is what opening the file for reading gives if the path exists, \<open>append_result\<close> whether
  opening it for appending succeeds; a file that did not exist is created empty.
\<close>

definition jsonl_open ::
    "string \<Rightarrow> (io_error + string) option \<Rightarrow> io_error + unit \<Rightarrow> effect_ledger_error + jsonl_ledger" where
  "jsonl_open path existing append_result =
     (let hydrated = (case existing of
            None \<Rightarrow> Inr []
          | Some (Inl source) \<Rightarrow> Inl (LedgerIo path source)
          | Some (Inr content) \<Rightarrow> hydrate path 1 (str_lines content) [])
      in case hydrated of
           Inl e \<Rightarrow> Inl e
         | Inr applied \<Rightarrow>
             (case map_err (LedgerIo path) append_result of
                Inl e \<Rightarrow> Inl e
              | Inr _ \<Rightarrow>
                  Inr \<lparr>jl_path = path, jl_applied = applied,
                       jl_file = (case existing of Some (Inr content) \<Rightarrow> content | _ \<Rightarrow> []),
                       jl_last_error = None\<rparr>))"

text \<open>\<open>from_env\<close> up to the call of \<open>open\<close>: the path, when the variable is set to one.\<close>

definition ledger_env_path :: "string option \<Rightarrow> effect_ledger_error + string" where
  "ledger_env_path var =
     (case var of
        None \<Rightarrow> Inl LedgerPathUnset
      | Some raw \<Rightarrow> let trimmed = str_trim raw in if trimmed = [] then Inl LedgerPathUnset else Inr trimmed)"

text \<open>
  What the system does to one append: all bytes written and synced; an error after a number of bytes; or all
  bytes written and an error of the sync.
\<close>

datatype disk_outcome = Synced | WriteFailed nat io_error | SyncFailed io_error

definition jsonl_try_apply_checked ::
    "disk_outcome \<Rightarrow> jsonl_ledger \<Rightarrow> string \<Rightarrow> string \<Rightarrow> string \<Rightarrow>
     jsonl_ledger \<times> (effect_ledger_error + bool)" where
  "jsonl_try_apply_checked disk l operation_id effect_id digest =
     (let key = ledger_key operation_id effect_id
      in if hm_contains (jl_applied l) key then (l, Inr False)
         else
           let bytes = record_line operation_id effect_id digest @ [CHR 0x0A]
           in case disk of
                WriteFailed n source \<Rightarrow>
                  (l\<lparr>jl_file := jl_file l @ take n bytes\<rparr>, Inl (LedgerIo (jl_path l) source))
              | SyncFailed source \<Rightarrow>
                  (l\<lparr>jl_file := jl_file l @ bytes\<rparr>, Inl (LedgerIo (jl_path l) source))
              | Synced \<Rightarrow>
                  (l\<lparr>jl_file := jl_file l @ bytes, jl_applied := hm_insert key digest (jl_applied l)\<rparr>, Inr True))"

definition jsonl_try_apply ::
    "disk_outcome \<Rightarrow> jsonl_ledger \<Rightarrow> string \<Rightarrow> string \<Rightarrow> string \<Rightarrow> jsonl_ledger \<times> bool" where
  "jsonl_try_apply disk l operation_id effect_id digest =
     (case jsonl_try_apply_checked disk l operation_id effect_id digest of
        (l', Inr applied) \<Rightarrow> (l', applied)
      | (l', Inl error) \<Rightarrow> (l'\<lparr>jl_last_error := Some error\<rparr>, False))"

definition take_error :: "jsonl_ledger \<Rightarrow> jsonl_ledger \<times> effect_ledger_error option" where
  "take_error l = (l\<lparr>jl_last_error := None\<rparr>, jl_last_error l)"

definition jsonl_ledger_ops :: "disk_outcome \<Rightarrow> jsonl_ledger effect_ledger_ops" where
  "jsonl_ledger_ops disk =
     \<lparr>el_applied_count = (\<lambda>l. hm_len (jl_applied l)),
      el_has_applied = (\<lambda>l op e. hm_contains (jl_applied l) (ledger_key op e)),
      el_prior_digest = (\<lambda>l op e. hm_get (jl_applied l) (ledger_key op e)),
      el_try_apply = jsonl_try_apply disk\<rparr>"

section \<open>Exactly once\<close>

text \<open>What a request must match in the loaded checkpoint.\<close>

fun admissible :: "replay_call \<Rightarrow> bool" where
  "admissible (load, q) = (\<exists>c. load (rq_checkpoint_id q) = Some c \<and> ck_digest c = rq_expected_digest q \<and>
     ck_rule_version c = rq_expected_rule_version q \<and> ck_operation_id c = rq_operation_id q \<and>
     ck_effect_id c = rq_effect_id q)"

definition request_wf :: "replay_request \<Rightarrow> bool" where
  "request_wf q = (valid_id MAX_ID_LEN (rq_operation_id q) \<and> valid_id MAX_ID_LEN (rq_effect_id q) \<and>
     valid_id MAX_ID_LEN (rq_expected_digest q))"

definition identity :: "replay_result \<Rightarrow> string \<times> string" where
  "identity r = (rt_operation_id (rx_trace r), rt_effect_id (rx_trace r))"

abbreviation applied_results :: "replay_result list \<Rightarrow> replay_result list" where
  "applied_results rs \<equiv> filter (\<lambda>r. rx_outcome r = RP_Applied) rs"

text \<open>The map that a service holds, read by identity.\<close>

definition applied_digest :: "'l replay_service \<Rightarrow> string \<times> string \<Rightarrow> string option" where
  "applied_digest st i = hm_get (rv_applied st) (bar (fst i) (snd i))"

definition id_pair :: "string \<times> string \<Rightarrow> bool" where
  "id_pair i = (valid_id MAX_ID_LEN (fst i) \<and> valid_id MAX_ID_LEN (snd i))"

lemma bar_pair: "id_pair i \<Longrightarrow> id_pair j \<Longrightarrow> bar (fst i) (snd i) = bar (fst j) (snd j) \<longleftrightarrow> i = j"
  by (auto simp: id_pair_def bar_inject prod_eq_iff)

lemma replay_finish_fields [simp]:
  "rx_outcome (replay_finish q out od orv pd b a s lr) = out"
  "identity (replay_finish q out od orv pd b a s lr) = (rq_operation_id q, rq_effect_id q)"
  "rt_prior_applied_digest (rx_trace (replay_finish q out od orv pd b a s lr)) = pd"
  "rt_observed_digest (rx_trace (replay_finish q out od orv pd b a s lr)) = od"
  "rx_applied_count (replay_finish q out od orv pd b a s lr) = a"
  "rx_effect_suppressed (replay_finish q out od orv pd b a s lr) = s"
  "rx_lineage_rewritten (replay_finish q out od orv pd b a s lr) = lr"
  "rx_publication_authority (replay_finish q out od orv pd b a s lr) = None"
  "rx_publication_authority_changed (replay_finish q out od orv pd b a s lr) = False"
  by (simp_all add: replay_finish_def identity_def)

text \<open>A replay is one of three things.\<close>

lemma replay_cases [consumes 2, case_names applied suppressed refused]:
  assumes "replay ops load st q = (st', r)" "request_wf q"
  obtains
    "admissible (load, q)" "rx_outcome r = RP_Applied" "applied_digest st (identity r) = None"
      "rt_observed_digest (rx_trace r) = Some (rq_expected_digest q)"
      "rv_applied st' = hm_insert (bar (rq_operation_id q) (rq_effect_id q)) (rq_expected_digest q) (rv_applied st)"
      "rv_ledger st' = fst (el_try_apply ops (rv_ledger st) (rq_operation_id q) (rq_effect_id q) (rq_expected_digest q))"
      "identity r = (rq_operation_id q, rq_effect_id q)" "id_pair (identity r)"
      "\<not> rx_effect_suppressed r" "\<not> rx_lineage_rewritten r" "rx_publication_authority r = None"
      "rx_applied_count r = replay_applied_count st'"
  | d where "admissible (load, q)" "rx_outcome r = RP_Suppressed" "applied_digest st (identity r) = Some d"
      "rt_prior_applied_digest (rx_trace r) = Some d" "st' = st" "rx_effect_suppressed r"
      "\<not> rx_lineage_rewritten r" "rx_publication_authority r = None" "rx_applied_count r = replay_applied_count st'"
      "id_pair (identity r)"
  | "\<not> admissible (load, q)" "\<not> replay_is_success (rx_outcome r)" "st' = st" "\<not> rx_lineage_rewritten r"
      "\<not> rx_effect_suppressed r" "rx_publication_authority r = None" "rx_applied_count r = replay_applied_count st'"
proof (cases "load (rq_checkpoint_id q)")
  case None
  with assms that(3) show ?thesis by (auto simp: replay_def replay_applied_count_def Let_def)
next
  case (Some c)
  show ?thesis
  proof (cases "admissible (load, q)")
    case False
    with assms(1) Some that(3) show ?thesis
      by (auto simp: replay_def replay_applied_count_def Let_def split: if_splits)
  next
    case True
    with Some have c: "ck_digest c = rq_expected_digest q" "ck_rule_version c = rq_expected_rule_version q"
      "ck_operation_id c = rq_operation_id q" "ck_effect_id c = rq_effect_id q" by auto
    have pair: "id_pair (rq_operation_id q, rq_effect_id q)" using assms(2) by (simp add: request_wf_def id_pair_def)
    show ?thesis
    proof (cases "hm_get (rv_applied st) (bar (rq_operation_id q) (rq_effect_id q))")
      case None
      with assms(1) Some c have "st' = \<lparr>rv_ledger = fst (el_try_apply ops (rv_ledger st) (rq_operation_id q) (rq_effect_id q)
            (rq_expected_digest q)),
          rv_applied = hm_insert (bar (rq_operation_id q) (rq_effect_id q)) (rq_expected_digest q) (rv_applied st)\<rparr>"
        "r = replay_finish q RP_Applied (Some (rq_expected_digest q)) (Some (rq_expected_rule_version q)) None
           (hm_len (rv_applied st)) (hm_len (rv_applied st')) False False"
        by (auto simp: replay_def Let_def split: prod.splits)
      with None True pair show ?thesis
        by (intro that(1)) (simp_all add: applied_digest_def replay_applied_count_def)
    next
      case (Some d)
      with assms(1) \<open>load (rq_checkpoint_id q) = Some c\<close> c have "st' = st"
        "r = replay_finish q RP_Suppressed (Some (rq_expected_digest q)) (Some (rq_expected_rule_version q)) (Some d)
           (hm_len (rv_applied st)) (hm_len (rv_applied st)) True False"
        by (auto simp: replay_def Let_def)
      with Some True pair show ?thesis
        by (intro that(2) [of d]) (simp_all add: applied_digest_def replay_applied_count_def)
    qed
  qed
qed

text \<open>What a run from a state adds: relative to the digests applied before.\<close>

definition applies_once :: "'l replay_service \<Rightarrow> 'l replay_service \<Rightarrow> replay_result list \<Rightarrow> bool" where
  "applies_once st st' rs =
     (distinct (map identity (applied_results rs)) \<and>
      (\<forall>r \<in> set (applied_results rs). applied_digest st (identity r) = None \<and> id_pair (identity r)) \<and>
      replay_applied_count st' = replay_applied_count st + length (applied_results rs) \<and>
      (\<forall>i d. id_pair i \<longrightarrow> (applied_digest st' i = Some d \<longleftrightarrow> applied_digest st i = Some d \<or>
         (\<exists>r \<in> set (applied_results rs). identity r = i \<and> rt_observed_digest (rx_trace r) = Some d))))"

lemma applied_digest_insert:
  assumes "rv_applied st' = hm_insert (bar (fst i) (snd i)) d (rv_applied st)" "id_pair i" "id_pair j"
  shows "applied_digest st' j = (if j = i then Some d else applied_digest st j)"
  using assms bar_pair [of j i] by (simp add: applied_digest_def)

lemma replay_run_applies_once:
  "replay_run ops calls st = (st', rs) \<Longrightarrow> \<forall>(load, q) \<in> set calls. request_wf q \<Longrightarrow> applies_once st st' rs"
proof (induction calls arbitrary: st rs)
  case Nil
  then show ?case by (simp add: applies_once_def)
next
  case (Cons call calls)
  obtain load q where call: "call = (load, q)" by (cases call)
  obtain st1 r rs1 where step: "replay ops load st q = (st1, r)" and run: "replay_run ops calls st1 = (st', rs1)"
    and rs: "rs = r # rs1" using Cons.prems(1) by (auto simp: call Let_def split: prod.splits)
  have wf: "request_wf q" using Cons.prems(2) by (simp add: call)
  have IH: "applies_once st1 st' rs1" using Cons.IH [OF run] Cons.prems(2) by simp
  from step wf show ?case
  proof (cases rule: replay_cases)
    case applied
    let ?i = "identity r"
    have ins: "applied_digest st1 j = (if j = ?i then Some (rq_expected_digest q) else applied_digest st j)" if "id_pair j" for j
      using applied_digest_insert [of st1 ?i _ st j] applied that by simp
    have "replay_applied_count st1 = Suc (replay_applied_count st)"
      using applied(3,5,7) by (simp add: replay_applied_count_def hm_len_insert hm_contains_def applied_digest_def)
    moreover have "?i \<notin> identity ` set (applied_results rs1)"
      using IH ins [OF applied(8)] by (auto simp: applies_once_def)
    moreover have "applied_digest st (identity r') = None" if "r' \<in> set (applied_results rs1)" for r'
      using IH ins [of "identity r'"] that by (auto simp: applies_once_def split: if_splits)
    moreover have "applied_digest st' i = Some d \<longleftrightarrow> applied_digest st i = Some d \<or>
        (\<exists>r' \<in> set (applied_results rs). identity r' = i \<and> rt_observed_digest (rx_trace r') = Some d)"
      if i: "id_pair i" for i d
    proof -
      have "applied_digest st' i = Some d \<longleftrightarrow> applied_digest st1 i = Some d \<or>
          (\<exists>r' \<in> set (applied_results rs1). identity r' = i \<and> rt_observed_digest (rx_trace r') = Some d)"
        using IH i unfolding applies_once_def by blast
      with ins [OF i] applied(2-4) show ?thesis unfolding rs by (cases "i = ?i") auto
    qed
    ultimately show ?thesis
      using IH applied(2,3,8) unfolding applies_once_def by (simp add: rs)
  next
    case (suppressed d)
    then show ?thesis using IH unfolding applies_once_def rs by simp
  next
    case refused
    then show ?thesis using IH unfolding applies_once_def rs by auto
  qed
qed

definition suppressed_known :: "'l replay_service \<Rightarrow> replay_result list \<Rightarrow> bool" where
  "suppressed_known st rs = (\<forall>r \<in> set rs. rx_outcome r = RP_Suppressed \<longrightarrow>
     (\<exists>d. rt_prior_applied_digest (rx_trace r) = Some d \<and>
        (applied_digest st (identity r) = Some d \<or>
         (\<exists>r' \<in> set (applied_results rs). identity r' = identity r \<and> rt_observed_digest (rx_trace r') = Some d))))"

lemma replay_run_suppressed:
  "replay_run ops calls st = (st', rs) \<Longrightarrow> \<forall>(load, q) \<in> set calls. request_wf q \<Longrightarrow> suppressed_known st rs"
proof (induction calls arbitrary: st rs)
  case Nil
  then show ?case by (simp add: suppressed_known_def)
next
  case (Cons call calls)
  obtain load q where call: "call = (load, q)" by (cases call)
  obtain st1 r rs1 where step: "replay ops load st q = (st1, r)" and run: "replay_run ops calls st1 = (st', rs1)"
    and rs: "rs = r # rs1" using Cons.prems(1) by (auto simp: call Let_def split: prod.splits)
  have wf: "request_wf q" using Cons.prems(2) by (simp add: call)
  have IH: "suppressed_known st1 rs1" using Cons.IH [OF run] Cons.prems(2) by simp
  have ids: "id_pair (identity r')" if "r' \<in> set rs1" "rx_outcome r' = RP_Suppressed" for r'
    using run Cons.prems(2) that
  proof (induction calls arbitrary: st1 rs1)
    case (Cons c cs)
    then show ?case
      by (cases c) (auto simp: Let_def split: prod.splits elim!: replay_cases)
  qed simp
  from step wf show ?case
  proof (cases rule: replay_cases)
    case applied
    have ins: "applied_digest st1 j = Some d \<Longrightarrow> applied_digest st j = Some d \<or> j = identity r \<and> d = rq_expected_digest q"
      if "id_pair j" for j d
      using applied_digest_insert [of st1 "identity r" _ st j] applied that by (simp split: if_splits)
    have "\<exists>d. rt_prior_applied_digest (rx_trace r') = Some d \<and> (applied_digest st (identity r') = Some d \<or>
         (\<exists>r'' \<in> set (applied_results rs). identity r'' = identity r' \<and> rt_observed_digest (rx_trace r'') = Some d))"
      if r': "r' \<in> set rs1" "rx_outcome r' = RP_Suppressed" for r'
    proof -
      obtain d where d: "rt_prior_applied_digest (rx_trace r') = Some d" "applied_digest st1 (identity r') = Some d \<or>
         (\<exists>r'' \<in> set (applied_results rs1). identity r'' = identity r' \<and> rt_observed_digest (rx_trace r'') = Some d)"
        using IH r' unfolding suppressed_known_def by blast
      from d(2) ins [OF ids [OF r'], of d] applied(2,4) have "applied_digest st (identity r') = Some d \<or>
         (\<exists>r'' \<in> set (applied_results rs). identity r'' = identity r' \<and> rt_observed_digest (rx_trace r'') = Some d)"
        unfolding rs by auto
      with d(1) show ?thesis by blast
    qed
    with applied(2) show ?thesis unfolding suppressed_known_def by (simp add: rs)
  next
    case (suppressed d)
    then show ?thesis using IH unfolding suppressed_known_def rs by simp
  next
    case refused
    then show ?thesis using IH unfolding suppressed_known_def rs by auto
  qed
qed

lemma replay_run_outcomes:
  "replay_run ops calls st = (st', rs) \<Longrightarrow> \<forall>(load, q) \<in> set calls. request_wf q \<Longrightarrow>
     list_all2 (\<lambda>call r. replay_is_success (rx_outcome r) = admissible call \<and> \<not> rx_lineage_rewritten r \<and>
       rx_publication_authority r = None \<and> rx_effect_suppressed r = (rx_outcome r = RP_Suppressed)) calls rs"
proof (induction calls arbitrary: st rs)
  case (Cons call calls)
  obtain load q where call: "call = (load, q)" by (cases call)
  obtain st1 r rs1 where step: "replay ops load st q = (st1, r)" and run: "replay_run ops calls st1 = (st', rs1)"
    and rs: "rs = r # rs1" using Cons.prems(1) by (auto simp: call Let_def split: prod.splits)
  have wf: "request_wf q" using Cons.prems(2) by (simp add: call)
  from step wf have "replay_is_success (rx_outcome r) = admissible call \<and> \<not> rx_lineage_rewritten r \<and>
       rx_publication_authority r = None \<and> rx_effect_suppressed r = (rx_outcome r = RP_Suppressed)"
    by (cases rule: replay_cases) (auto simp: call)
  with Cons.IH [OF run] Cons.prems(2) show ?case by (simp add: rs)
qed simp

section \<open>An honest ledger\<close>

text \<open>
  The contract of \<open>EffectLedgerPort\<close>: an identity is recorded on its first apply and only then. Its
  client lemma: after any run the external ledger shows what the service has applied.
\<close>

locale effect_ledger =
  fixes ops :: "'l effect_ledger_ops"
    and inv :: "'l \<Rightarrow> bool"
  assumes apply_inv: "inv l \<Longrightarrow> valid_id MAX_ID_LEN op \<Longrightarrow> valid_id MAX_ID_LEN e \<Longrightarrow> valid_id MAX_ID_LEN d \<Longrightarrow>
      inv (fst (el_try_apply ops l op e d))"
    and apply_answer: "inv l \<Longrightarrow> snd (el_try_apply ops l op e d) = (el_prior_digest ops l op e = None)"
    and prior_after: "inv l \<Longrightarrow> id_pair (op, e) \<Longrightarrow> id_pair (op', e') \<Longrightarrow>
      el_prior_digest ops (fst (el_try_apply ops l op e d)) op' e' =
        (if op' = op \<and> e' = e \<and> el_prior_digest ops l op e = None then Some d else el_prior_digest ops l op' e')"
    and has_prior: "el_has_applied ops l op e = (el_prior_digest ops l op e \<noteq> None)"
    and count_after: "inv l \<Longrightarrow> el_applied_count ops (fst (el_try_apply ops l op e d)) =
      (if el_prior_digest ops l op e = None then Suc (el_applied_count ops l) else el_applied_count ops l)"
begin

definition mirrors :: "'l replay_service \<Rightarrow> bool" where
  "mirrors st = (inv (rv_ledger st) \<and> el_applied_count ops (rv_ledger st) = replay_applied_count st \<and>
     (\<forall>i. id_pair i \<longrightarrow> el_prior_digest ops (rv_ledger st) (fst i) (snd i) = applied_digest st i))"

lemma step_mirrors:
  assumes m: "mirrors st" and step: "replay ops load st q = (st', r)" and wf: "request_wf q"
  shows "mirrors st'"
  using step wf
proof (cases rule: replay_cases)
  case applied
  let ?i = "identity r"
  have none: "el_prior_digest ops (rv_ledger st) (fst ?i) (snd ?i) = None"
    using m applied(3,8) unfolding mirrors_def by metis
  have v: "valid_id MAX_ID_LEN (fst ?i)" "valid_id MAX_ID_LEN (snd ?i)" "valid_id MAX_ID_LEN (rq_expected_digest q)"
    using applied(8) wf by (simp_all add: id_pair_def request_wf_def)
  have l: "rv_ledger st' = fst (el_try_apply ops (rv_ledger st) (fst ?i) (snd ?i) (rq_expected_digest q))"
    using applied(6,7) by simp
  have i: "inv (rv_ledger st)" using m by (simp add: mirrors_def)
  have "el_prior_digest ops (rv_ledger st') (fst j) (snd j) = applied_digest st' j" if j: "id_pair j" for j
  proof -
    have "applied_digest st' j = (if j = ?i then Some (rq_expected_digest q) else applied_digest st j)"
      using applied_digest_insert [of st' ?i _ st j] applied(5,7,8) j by simp
    moreover have "el_prior_digest ops (rv_ledger st) (fst j) (snd j) = applied_digest st j"
      using m j unfolding mirrors_def by blast
    ultimately show ?thesis
      using prior_after [OF i, of "fst ?i" "snd ?i" "fst j" "snd j" "rq_expected_digest q"] applied(8) j none
      by (auto simp: l prod_eq_iff)
  qed
  moreover have "replay_applied_count st' = Suc (replay_applied_count st)"
    using applied(3,5,7) by (simp add: replay_applied_count_def hm_len_insert hm_contains_def applied_digest_def)
  ultimately show ?thesis
    using m apply_inv [OF i v] count_after [OF i, of "fst ?i" "snd ?i"] none
    by (simp add: mirrors_def l)
qed (use m in simp_all)

lemma run_mirrors:
  "replay_run ops calls st = (st', rs) \<Longrightarrow> \<forall>(load, q) \<in> set calls. request_wf q \<Longrightarrow> mirrors st \<Longrightarrow> mirrors st'"
proof (induction calls arbitrary: st rs)
  case (Cons call calls)
  obtain load q where call: "call = (load, q)" by (cases call)
  obtain st1 r rs1 where step: "replay ops load st q = (st1, r)" and run: "replay_run ops calls st1 = (st', rs1)"
    using Cons.prems(1) by (auto simp: call Let_def split: prod.splits)
  have "mirrors st1" using step_mirrors [OF Cons.prems(3) step] Cons.prems(2) by (simp add: call)
  with Cons.IH [OF run] Cons.prems(2) show ?case by simp
qed simp

end

lemma ledger_key_pair: "id_pair (op, e) \<Longrightarrow> id_pair (op', e') \<Longrightarrow>
    ledger_key op' e' = ledger_key op e \<longleftrightarrow> op' = op \<and> e' = e"
  using bar_pair [of "(op', e')" "(op, e)"] by (simp add: ledger_key_def)

interpretation memory_ledger: effect_ledger memory_ledger_ops "\<lambda>_. True"
  by unfold_locales
    (auto simp: memory_ledger_ops_def memory_try_apply_def Let_def hm_contains_def hm_len_insert ledger_key_pair)

section \<open>Record lines\<close>

lemmas record_line_fields = RECORD_PREFIX_def EFFECT_FIELD_def DIGEST_FIELD_def

text \<open>The parser accepts exactly the lines that the writer writes for fields without quotes.\<close>

lemma parse_record_line_iff:
  "parse_record_line line = Inr (op, e, d) \<longleftrightarrow>
     line = record_line op e d \<and> CHR 0x22 \<notin> set op \<and> CHR 0x22 \<notin> set e \<and> CHR 0x22 \<notin> set d"
  unfolding parse_record_line_def record_line_def ok_or_eq_Inr
  by (auto simp: bind_eq_Some_conv strip_prefix_eq_Some split_once_eq_Some split: if_splits)

lemma valid_no_quote: "valid_id n v \<Longrightarrow> CHR 0x22 \<notin> set v"
  by (simp add: valid_id_notin)

lemma id_char_ascii: "id_char c \<Longrightarrow> byte_in 0 0x7F c"
  by (auto simp: id_char_def is_ascii_alphanumeric_def less_eq_char_def byte_in_def)

lemma valid_ascii: "valid_id n v \<Longrightarrow> list_all (byte_in 0 0x7F) v"
  by (auto simp: valid_id_def list_all_iff intro: id_char_ascii)

definition valid_record :: "string \<times> string \<times> string \<Rightarrow> bool" where
  "valid_record x = (case x of (op, e, d) \<Rightarrow> id_pair (op, e) \<and> valid_id MAX_ID_LEN d)"

abbreviation line_of :: "string \<times> string \<times> string \<Rightarrow> string" where
  "line_of x \<equiv> (case x of (op, e, d) \<Rightarrow> record_line op e d)"

lemma record_line_ascii: "valid_record (op, e, d) \<Longrightarrow> list_all (byte_in 0 0x7F) (record_line op e d)"
  by (auto simp: record_line_def record_line_fields valid_record_def id_pair_def byte_in_def dest: valid_ascii)

lemma record_line_newline: "valid_record (op, e, d) \<Longrightarrow> CHR 0x0A \<notin> set (record_line op e d)"
  using valid_id_notin [of MAX_ID_LEN _ "CHR 0x0A"]
  by (auto simp: record_line_def record_line_fields valid_record_def id_pair_def)

lemma record_line_shape [simp]: "record_line op e d \<noteq> []" "last (record_line op e d) = CHR ''}''"
  by (simp_all add: record_line_def)

lemma parse_record_line_valid: "valid_record (op, e, d) \<Longrightarrow> parse_record_line (record_line op e d) = Inr (op, e, d)"
  by (auto simp: parse_record_line_iff valid_record_def id_pair_def dest: valid_no_quote)

section \<open>Hydration\<close>

lemma hydrate_append:
  "hydrate path n (xs @ ys) a = (case hydrate path n xs a of Inl e \<Rightarrow> Inl e | Inr a' \<Rightarrow> hydrate path (n + length xs) ys a')"
proof (induction xs arbitrary: n a)
  case (Cons x xs)
  show ?case by (auto simp: Cons.IH split: sum.split prod.split)
qed simp

lemma hydrate_record:
  assumes "valid_record (op, e, d)" "\<not> hm_contains a (ledger_key op e)"
  shows "hydrate path n [record_line op e d] a = Inr (hm_insert (ledger_key op e) d a)"
  using assms utf8_ok_ascii [OF record_line_ascii [OF assms(1)]] parse_record_line_valid [OF assms(1)]
  by (simp add: valid_record_def id_pair_def parse_id_valid)

definition load_records :: "(string \<times> string \<times> string) list \<Rightarrow> (string, string) hashmap \<Rightarrow> (string, string) hashmap" where
  "load_records xs a = foldl (\<lambda>a (op, e, d). hm_insert (ledger_key op e) d a) a xs"

lemma hydrate_line_cases:
  assumes "hydrate path n (line # lines) a = Inr a'" "line \<noteq> []"
  obtains op e d where "valid_record (op, e, d)" "line = record_line op e d" "\<not> hm_contains a (ledger_key op e)"
    "hydrate path (n + 1) lines (hm_insert (ledger_key op e) d a) = Inr a'"
proof -
  obtain op e d where parse: "parse_record_line line = Inr (op, e, d)"
    using assms by (cases "parse_record_line line") (auto split: if_splits)
  have v: "valid_id MAX_ID_LEN op" "valid_id MAX_ID_LEN e" "valid_id MAX_ID_LEN d"
    using assms parse
    by (auto simp: parse_id_eq_Inr split: if_splits sum.splits)
  with assms parse have "\<not> hm_contains a (ledger_key op e)"
    "hydrate path (n + 1) lines (hm_insert (ledger_key op e) d a) = Inr a'"
    by (auto simp: parse_id_valid split: if_splits)
  with v parse show ?thesis by (intro that [of op e d]) (simp_all add: valid_record_def id_pair_def parse_record_line_iff)
qed

text \<open>Hydration succeeds exactly on canonical records of distinct identities, blank lines aside.\<close>

fun key_of :: "string \<times> string \<times> string \<Rightarrow> string" where
  "key_of (op, e, d) = ledger_key op e"

definition fresh_records :: "(string, string) hashmap \<Rightarrow> (string \<times> string \<times> string) list \<Rightarrow> bool" where
  "fresh_records a xs = (list_all valid_record xs \<and> distinct (map key_of xs) \<and>
     (\<forall>x \<in> set xs. \<not> hm_contains a (key_of x)))"

lemma fresh_records_Nil [simp]: "fresh_records a []"
  by (simp add: fresh_records_def)

lemma fresh_records_Cons: "fresh_records a ((op, e, d) # xs) \<longleftrightarrow>
    valid_record (op, e, d) \<and> \<not> hm_contains a (ledger_key op e) \<and> fresh_records (hm_insert (ledger_key op e) d a) xs"
  unfolding fresh_records_def by (auto simp: image_iff)

lemma load_records_simps [simp]: "load_records [] a = a"
  "load_records ((op, e, d) # xs) a = load_records xs (hm_insert (ledger_key op e) d a)"
  by (simp_all add: load_records_def)

lemma hydrate_iff:
  "hydrate path n lines a = Inr a' \<longleftrightarrow>
     (\<exists>xs. fresh_records a xs \<and> filter (\<lambda>l. l \<noteq> []) lines = map line_of xs \<and> a' = load_records xs a)"
proof (induction lines arbitrary: n a)
  case Nil
  show ?case by auto
next
  case (Cons line lines)
  show ?case
  proof (cases "line = []")
    case True
    then show ?thesis using Cons.IH by simp
  next
    case False
    show ?thesis
    proof
      assume "hydrate path n (line # lines) a = Inr a'"
      then obtain op e d where h: "valid_record (op, e, d)" "line = record_line op e d" "\<not> hm_contains a (ledger_key op e)"
        "hydrate path (n + 1) lines (hm_insert (ledger_key op e) d a) = Inr a'"
        using False by (rule hydrate_line_cases)
      obtain xs where xs: "fresh_records (hm_insert (ledger_key op e) d a) xs"
        "filter (\<lambda>l. l \<noteq> []) lines = map line_of xs" "a' = load_records xs (hm_insert (ledger_key op e) d a)"
        using h(4) Cons.IH by blast
      show "\<exists>xs. fresh_records a xs \<and> filter (\<lambda>l. l \<noteq> []) (line # lines) = map line_of xs \<and> a' = load_records xs a"
        using h xs False by (intro exI [of _ "(op, e, d) # xs"]) (auto simp: fresh_records_Cons)
    next
      assume "\<exists>xs. fresh_records a xs \<and> filter (\<lambda>l. l \<noteq> []) (line # lines) = map line_of xs \<and> a' = load_records xs a"
      then obtain op e d xs where xs: "fresh_records a ((op, e, d) # xs)" "line = record_line op e d"
        "filter (\<lambda>l. l \<noteq> []) lines = map line_of xs" "a' = load_records ((op, e, d) # xs) a"
        using False by (auto simp: Cons_eq_map_conv)
      then have "hydrate path (n + 1) lines (hm_insert (ledger_key op e) d a) = Inr a'"
        unfolding Cons.IH by (intro exI [of _ xs]) (simp add: fresh_records_Cons)
      then show "hydrate path n (line # lines) a = Inr a'"
        using hydrate_append [of path n "[line]" lines a] xs(1) hydrate_record [of op e d a path n]
        by (simp add: xs(2) fresh_records_Cons)
    qed
  qed
qed

section \<open>Durability\<close>

lemma jsonl_open_iff:
  "jsonl_open path (Some (Inr content)) (Inr ()) = Inr l \<longleftrightarrow>
     (\<exists>xs. fresh_records [] xs \<and> filter (\<lambda>x. x \<noteq> []) (str_lines content) = map line_of xs \<and>
        l = \<lparr>jl_path = path, jl_applied = load_records xs [], jl_file = content, jl_last_error = None\<rparr>)"
proof -
  have "jsonl_open path (Some (Inr content)) (Inr ()) = Inr l \<longleftrightarrow>
      (\<exists>a. hydrate path 1 (str_lines content) [] = Inr a \<and>
         l = \<lparr>jl_path = path, jl_applied = a, jl_file = content, jl_last_error = None\<rparr>)"
    by (auto simp: jsonl_open_def Let_def split: sum.split)
  then show ?thesis unfolding hydrate_iff by auto
qed

text \<open>The ledger in memory is what opening its file again would give, and the file ends in a newline.\<close>

definition durable :: "jsonl_ledger \<Rightarrow> bool" where
  "durable l = (jsonl_open (jl_path l) (Some (Inr (jl_file l))) (Inr ()) = Inr (l\<lparr>jl_last_error := None\<rparr>) \<and>
     (jl_file l = [] \<or> last (jl_file l) = CHR 0x0A))"

lemma durable_hydrate:
  "durable l \<longleftrightarrow> hydrate (jl_path l) 1 (str_lines (jl_file l)) [] = Inr (jl_applied l) \<and>
     (jl_file l = [] \<or> last (jl_file l) = CHR 0x0A)"
  by (cases l) (auto simp: durable_def jsonl_open_def Let_def split: sum.split)

lemma durable_append:
  assumes "durable l" "valid_record (op, e, d)" "\<not> hm_contains (jl_applied l) (ledger_key op e)"
  shows "durable (l\<lparr>jl_file := jl_file l @ record_line op e d @ [CHR 0x0A],
     jl_applied := hm_insert (ledger_key op e) d (jl_applied l)\<rparr>)"
proof -
  have "str_lines (jl_file l @ record_line op e d @ [CHR 0x0A]) = str_lines (jl_file l) @ [record_line op e d]"
    using assms(1) record_line_newline [OF assms(2)]
    by (intro str_lines_append_line) (auto simp: durable_def)
  with assms hydrate_record [OF assms(2,3)] show ?thesis
    by (simp add: durable_hydrate hydrate_append)
qed

lemma hm_get_none_contains: "hm_get m k = None \<longleftrightarrow> \<not> hm_contains m k"
  by (simp add: hm_contains_def)

text \<open>On a disk that keeps what it acknowledges, the JSONL ledger satisfies the contract of the port.\<close>

interpretation jsonl_synced: effect_ledger "jsonl_ledger_ops Synced" durable
proof
  fix l op e d op' e'
  assume l: "durable l"
  show "valid_id MAX_ID_LEN op \<Longrightarrow> valid_id MAX_ID_LEN e \<Longrightarrow> valid_id MAX_ID_LEN d \<Longrightarrow>
      durable (fst (el_try_apply (jsonl_ledger_ops Synced) l op e d))"
    using l durable_append [of l op e d]
    by (simp add: jsonl_ledger_ops_def jsonl_try_apply_def jsonl_try_apply_checked_def Let_def valid_record_def id_pair_def)
  show "snd (el_try_apply (jsonl_ledger_ops Synced) l op e d) = (el_prior_digest (jsonl_ledger_ops Synced) l op e = None)"
    by (auto simp: jsonl_ledger_ops_def jsonl_try_apply_def jsonl_try_apply_checked_def Let_def hm_get_none_contains)
  show "id_pair (op, e) \<Longrightarrow> id_pair (op', e') \<Longrightarrow>
      el_prior_digest (jsonl_ledger_ops Synced) (fst (el_try_apply (jsonl_ledger_ops Synced) l op e d)) op' e' =
        (if op' = op \<and> e' = e \<and> el_prior_digest (jsonl_ledger_ops Synced) l op e = None then Some d
         else el_prior_digest (jsonl_ledger_ops Synced) l op' e')"
    by (auto simp: jsonl_ledger_ops_def jsonl_try_apply_def jsonl_try_apply_checked_def Let_def hm_get_none_contains
        ledger_key_pair)
  show "el_applied_count (jsonl_ledger_ops Synced) (fst (el_try_apply (jsonl_ledger_ops Synced) l op e d)) =
      (if el_prior_digest (jsonl_ledger_ops Synced) l op e = None then Suc (el_applied_count (jsonl_ledger_ops Synced) l)
       else el_applied_count (jsonl_ledger_ops Synced) l)"
    by (auto simp: jsonl_ledger_ops_def jsonl_try_apply_def jsonl_try_apply_checked_def Let_def hm_get_none_contains
        hm_len_insert)
qed (simp add: jsonl_ledger_ops_def hm_contains_def)

section \<open>The ledger never decides\<close>

lemma replay_same_ledger:
  assumes "rv_applied st1 = rv_applied st2"
  shows "snd (replay ops1 load st1 q) = snd (replay ops2 load st2 q) \<and>
    rv_applied (fst (replay ops1 load st1 q)) = rv_applied (fst (replay ops2 load st2 q))"
  using assms by (auto simp: replay_def Let_def split: option.split prod.split)

lemma replay_run_same_ledger:
  "rv_applied st1 = rv_applied st2 \<Longrightarrow> snd (replay_run ops1 calls st1) = snd (replay_run ops2 calls st2)"
proof (induction calls arbitrary: st1 st2)
  case (Cons call calls)
  obtain load q where call: "call = (load, q)" by (cases call)
  have step: "snd (replay ops1 load st1 q) = snd (replay ops2 load st2 q)"
    "rv_applied (fst (replay ops1 load st1 q)) = rv_applied (fst (replay ops2 load st2 q))"
    using replay_same_ledger [OF Cons.prems] by metis+
  from Cons.IH [OF step(2)] step(1) show ?case by (simp add: call case_prod_beta)
qed simp

section \<open>Broken files\<close>

lemma parse_record_line_tail:
  assumes "valid_record (op, e, d)"
  shows "parse_record_line (record_line op e d @ s) = (if s = [] then Inr (op, e, d) else Inl ''not canonical record'')"
proof -
  have "CHR 0x22 \<notin> set op" "CHR 0x22 \<notin> set e" "CHR 0x22 \<notin> set d"
    using assms by (auto simp: valid_record_def id_pair_def dest: valid_no_quote)
  moreover have "strip_prefix [c] (c # r) = Some r" for c r by (simp add: strip_prefix_def)
  ultimately show ?thesis by (simp add: parse_record_line_def record_line_def ok_or_def)
qed

lemma hydrate_duplicate:
  assumes "valid_record (op, e, d)" "hm_contains a (ledger_key op e)"
  shows "hydrate path n [record_line op e d] a = Inl (CorruptRecord path n ''duplicate applied identity'')"
  using assms utf8_ok_ascii [OF record_line_ascii [OF assms(1)]] parse_record_line_valid [OF assms(1)]
  by (simp add: valid_record_def id_pair_def parse_id_valid)

section \<open>Properties\<close>

text \<open>C7. Over any sequence of replays, whatever the checkpoint port and the external ledger answer, an
effect identity is applied at most once; a replay succeeds exactly when its checkpoint matches the request in
digest, rule, operation and effect; a suppressed one reports the digest of the earlier application; the count
is the number of applications, and no replay rewrites lineage or carries publication authority.\<close>

theorem replay_exactly_once:
  assumes "replay_run ops calls (replay_new ledger) = (st, rs)" "\<forall>(load, q) \<in> set calls. request_wf q"
  shows "distinct (map identity (applied_results rs)) \<and>
    replay_applied_count st = length (applied_results rs) \<and>
    list_all2 (\<lambda>call r. replay_is_success (rx_outcome r) = admissible call \<and> \<not> rx_lineage_rewritten r \<and>
       rx_publication_authority r = None \<and> rx_effect_suppressed r = (rx_outcome r = RP_Suppressed)) calls rs \<and>
    (\<forall>r \<in> set rs. rx_outcome r = RP_Suppressed \<longrightarrow>
       (\<exists>r' \<in> set (applied_results rs). identity r' = identity r \<and>
          rt_prior_applied_digest (rx_trace r) = rt_observed_digest (rx_trace r')))"
proof -
  have none: "applied_digest (replay_new ledger) i = None" "replay_applied_count (replay_new ledger) = 0" for i
    by (simp_all add: applied_digest_def replay_new_def replay_applied_count_def)
  have "\<exists>r' \<in> set (applied_results rs). identity r' = identity r \<and>
      rt_prior_applied_digest (rx_trace r) = rt_observed_digest (rx_trace r')"
    if "r \<in> set rs" "rx_outcome r = RP_Suppressed" for r
    using replay_run_suppressed [OF assms] that by (fastforce simp: suppressed_known_def none)
  then show ?thesis
    using replay_run_applies_once [OF assms] replay_run_outcomes [OF assms]
    by (simp add: applies_once_def none)
qed

text \<open>The external ledger never influences a replay: two services with any two ledgers answer any
sequence of calls alike. In particular a service created over a ledger that already records an effect, as
after a restart, applies it again.\<close>

theorem replay_ledger_noninterference:
  "snd (replay_run ops1 calls (replay_new ledger1)) = snd (replay_run ops2 calls (replay_new ledger2))"
  by (rule replay_run_same_ledger) (simp add: replay_new_def)

text \<open>Opening a ledger file accepts exactly the canonical files: apart from blank lines, every line is
the rendering of a record of three valid identifiers and no operation and effect pair repeats; the hydrated
map is then the one the records build.\<close>

theorem jsonl_open_exact:
  "jsonl_open path (Some (Inr content)) (Inr ()) = Inr l \<longleftrightarrow>
     (\<exists>xs. fresh_records [] xs \<and> filter (\<lambda>x. x \<noteq> []) (str_lines content) = map line_of xs \<and>
        l = \<lparr>jl_path = path, jl_applied = load_records xs [], jl_file = content, jl_last_error = None\<rparr>)"
  by (rule jsonl_open_iff)

text \<open>C30. Durability on a disk that keeps what it acknowledges: after any replays of a service over a
ledger on a new file, opening the file again succeeds and shows exactly the effects that the service
applied, each with its digest.\<close>

theorem jsonl_survives_restart:
  assumes "jsonl_open path None (Inr ()) = Inr ledger"
    and "replay_run (jsonl_ledger_ops Synced) calls (replay_new ledger) = (st, rs)"
    and "\<forall>(load, q) \<in> set calls. request_wf q"
  shows "\<exists>l'. jsonl_open (jl_path (rv_ledger st)) (Some (Inr (jl_file (rv_ledger st)))) (Inr ()) = Inr l' \<and>
    hm_len (jl_applied l') = replay_applied_count st \<and>
    (\<forall>op e. valid_id MAX_ID_LEN op \<and> valid_id MAX_ID_LEN e \<longrightarrow>
       hm_get (jl_applied l') (ledger_key op e) = applied_digest st (op, e))"
proof -
  have "ledger = \<lparr>jl_path = path, jl_applied = [], jl_file = [], jl_last_error = None\<rparr>"
    using assms(1) by (simp add: jsonl_open_def)
  then have "jsonl_synced.mirrors (replay_new ledger)"
    unfolding jsonl_synced.mirrors_def
    by (simp add: replay_new_def durable_hydrate jsonl_ledger_ops_def replay_applied_count_def
        applied_digest_def str_lines_def)
  from jsonl_synced.run_mirrors [OF assms(2,3) this] have "jsonl_synced.mirrors st" .
  then show ?thesis
    unfolding jsonl_synced.mirrors_def
    by (intro exI [of _ "(rv_ledger st)\<lparr>jl_last_error := None\<rparr>"])
      (auto simp: durable_def jsonl_ledger_ops_def id_pair_def)
qed

text \<open>A record whose sync failed is reported as not applied but is on disk: retrying it succeeds, and from
then on the ledger file cannot be opened, because the identity is in it twice.\<close>

theorem jsonl_retry_after_sync_failure:
  assumes "durable l" "valid_record (op, e, d)" "\<not> hm_contains (jl_applied l) (ledger_key op e)"
    and "jsonl_try_apply (SyncFailed source) l op e d = (l1, r1)" "jsonl_try_apply Synced l1 op e d = (l2, r2)"
  shows "\<not> r1 \<and> r2 \<and> (\<exists>n. jsonl_open (jl_path l) (Some (Inr (jl_file l2))) (Inr ()) =
    Inl (CorruptRecord (jl_path l) n ''duplicate applied identity''))"
proof -
  let ?line = "record_line op e d"
  have f1: "jl_file l1 = jl_file l @ ?line @ [CHR 0x0A]" and r: "\<not> r1" "r2"
    and f2: "jl_file l2 = jl_file l1 @ ?line @ [CHR 0x0A]"
    using assms(3-5) by (auto simp: jsonl_try_apply_def jsonl_try_apply_checked_def Let_def)
  have lines1: "str_lines (jl_file l1) = str_lines (jl_file l) @ [?line]"
    unfolding f1 using assms(1) record_line_newline [OF assms(2)]
    by (intro str_lines_append_line) (auto simp: durable_def)
  have lines2: "str_lines (jl_file l2) = str_lines (jl_file l1) @ [?line]"
    unfolding f2 using record_line_newline [OF assms(2)] by (intro str_lines_append_line) (auto simp: f1)
  have "hydrate (jl_path l) 1 (str_lines (jl_file l2)) [] =
      Inl (CorruptRecord (jl_path l) (2 + length (str_lines (jl_file l))) ''duplicate applied identity'')"
    unfolding lines2 lines1 hydrate_append
    using assms by (simp add: durable_hydrate hydrate_record hydrate_duplicate del: hydrate.simps)
  then show ?thesis using r by (simp add: jsonl_open_def)
qed

text \<open>A file whose last record lacks its newline (a torn append) is opened without complaint, and the
next record is acknowledged as durable; but the two records share a line, so the file cannot be opened again.\<close>

theorem jsonl_unterminated_record:
  assumes "valid_record (op, e, d)" "valid_record (op', e', d')" "(op, e) \<noteq> (op', e')"
  shows "\<exists>l l'. jsonl_open path (Some (Inr (record_line op e d))) (Inr ()) = Inr l \<and>
    jsonl_try_apply Synced l op' e' d' = (l', True) \<and>
    jsonl_open path (Some (Inr (jl_file l'))) (Inr ()) = Inl (CorruptRecord path 1 ''not canonical record'')"
proof -
  let ?a = "record_line op e d" and ?b = "record_line op' e' d'"
  let ?l = "\<lparr>jl_path = path, jl_applied = hm_insert (ledger_key op e) d [], jl_file = ?a, jl_last_error = None\<rparr>"
  have n: "CHR 0x0A \<notin> set (?a @ ?b)" using record_line_newline assms(1,2) by simp
  then have "str_lines ?a = [?a]" by (intro str_lines_no_newline) auto
  then have 1: "jsonl_open path (Some (Inr ?a)) (Inr ()) = Inr ?l"
    using hydrate_record [OF assms(1), of "[]" path 1] by (simp add: jsonl_open_def)
  have "ledger_key op' e' \<noteq> ledger_key op e"
    using ledger_key_pair [of op e op' e'] assms by (auto simp: valid_record_def)
  then have 2: "jsonl_try_apply Synced ?l op' e' d' =
      (?l\<lparr>jl_file := ?a @ ?b @ [CHR 0x0A], jl_applied := hm_insert (ledger_key op' e') d' (jl_applied ?l)\<rparr>, True)"
    by (simp add: jsonl_try_apply_def jsonl_try_apply_checked_def Let_def)
  have "str_lines ([] @ (?a @ ?b) @ [CHR 0x0A]) = str_lines [] @ [?a @ ?b]"
    using n by (intro str_lines_append_line) auto
  then have lines: "str_lines (?a @ ?b @ [CHR 0x0A]) = [?a @ ?b]" by (simp add: str_lines_def)
  have "utf8_ok (?a @ ?b)" using record_line_ascii assms(1,2) by (intro utf8_ok_ascii) simp
  then have 3: "jsonl_open path (Some (Inr (?a @ ?b @ [CHR 0x0A]))) (Inr ()) =
      Inl (CorruptRecord path 1 ''not canonical record'')"
    using parse_record_line_tail [OF assms(1), of ?b] by (simp add: jsonl_open_def lines)
  show ?thesis
    by (intro exI [of _ ?l] exI [of _ "?l\<lparr>jl_file := ?a @ ?b @ [CHR 0x0A],
        jl_applied := hm_insert (ledger_key op' e') d' (jl_applied ?l)\<rparr>"] conjI 1 2) (use 3 in simp)
qed

section \<open>Witnesses\<close>

definition sample_load :: "string \<Rightarrow> checkpoint_record option" where
  "sample_load = checkpoint_load (checkpoint_insert \<lparr>ck_checkpoint_id = ''cp1'', ck_digest = ''d1'',
     ck_rule_version = ''v1'', ck_operation_id = ''op1'', ck_effect_id = ''e1'', ck_history_digest = ''h1''\<rparr> [])"

definition sample_request :: replay_request where
  "sample_request = \<lparr>rq_request_id = ''r1'', rq_checkpoint_id = ''cp1'', rq_expected_digest = ''d1'',
     rq_expected_rule_version = ''v1'', rq_operation_id = ''op1'', rq_effect_id = ''e1''\<rparr>"

lemma sample_valid: "valid_id MAX_ID_LEN ''op1''" "valid_id MAX_ID_LEN ''e1''" "valid_id MAX_ID_LEN ''d1''"
  "valid_id MAX_ID_LEN ''op2''"
  by code_simp+

lemma sample_request_wf: "\<forall>(load, q) \<in> set [(sample_load, sample_request), (sample_load, sample_request)]. request_wf q"
  by (simp add: request_wf_def sample_request_def sample_valid)

theorem replay_exactly_once_witness:
  "replay_applied_count (fst (replay_run hostile_ledger_ops [(sample_load, sample_request), (sample_load, sample_request)]
     (replay_new \<lparr>hl_inner = [], hl_forced_applies = 0\<rparr>))) =
   length (applied_results (snd (replay_run hostile_ledger_ops [(sample_load, sample_request), (sample_load, sample_request)]
     (replay_new \<lparr>hl_inner = [], hl_forced_applies = 0\<rparr>))))"
  using replay_exactly_once [OF prod.collapse [symmetric] sample_request_wf, of hostile_ledger_ops
      "\<lparr>hl_inner = [], hl_forced_applies = 0\<rparr>"] by blast

theorem jsonl_survives_restart_witness:
  "\<exists>st rs l'. replay_run (jsonl_ledger_ops Synced) [(sample_load, sample_request), (sample_load, sample_request)]
      (replay_new \<lparr>jl_path = ''p'', jl_applied = [], jl_file = [], jl_last_error = None\<rparr>) = (st, rs) \<and>
     jsonl_open (jl_path (rv_ledger st)) (Some (Inr (jl_file (rv_ledger st)))) (Inr ()) = Inr l'"
proof -
  have "jsonl_open ''p'' None (Inr ()) = Inr \<lparr>jl_path = ''p'', jl_applied = [], jl_file = [], jl_last_error = None\<rparr>"
    by (simp add: jsonl_open_def)
  from jsonl_survives_restart [OF this prod.collapse [symmetric] sample_request_wf] show ?thesis
    by (metis prod.collapse)
qed

theorem jsonl_retry_after_sync_failure_witness:
  "\<exists>(l2 :: jsonl_ledger) n. jsonl_open ''p'' (Some (Inr (jl_file l2))) (Inr ()) = Inl (CorruptRecord ''p'' n ''duplicate applied identity'')"
proof -
  let ?l = "\<lparr>jl_path = ''p'', jl_applied = [], jl_file = [], jl_last_error = None\<rparr>"
  have "durable ?l" by (simp add: durable_hydrate str_lines_def)
  moreover have "valid_record (''op1'', ''e1'', ''d1'')" by (simp add: valid_record_def id_pair_def sample_valid)
  moreover have "\<not> hm_contains (jl_applied ?l) (ledger_key ''op1'' ''e1'')" by simp
  ultimately show ?thesis
    using jsonl_retry_after_sync_failure [OF _ _ _ prod.collapse [symmetric] prod.collapse [symmetric],
        of ?l "''op1''" "''e1''" "''d1''" "''EIO''"] by auto
qed

theorem jsonl_unterminated_record_witness:
  "\<exists>l l'. jsonl_open ''p'' (Some (Inr (record_line ''op1'' ''e1'' ''d1''))) (Inr ()) = Inr l \<and>
    jsonl_try_apply Synced l ''op2'' ''e1'' ''d1'' = (l', True) \<and>
    jsonl_open ''p'' (Some (Inr (jl_file l'))) (Inr ()) = Inl (CorruptRecord ''p'' 1 ''not canonical record'')"
  by (rule jsonl_unterminated_record) (simp_all add: valid_record_def id_pair_def sample_valid)

end
