(* ===== verification/LN_Publish.thy ===== *)
theory LN_Publish
  imports LN_Ids
begin

text \<open>
  \<open>crates/ln-publish\<close>: the publication authority for H1 units. \<open>PublishAuthoritativeH1\<close> with its
  operations \<open>publish\<close>, \<open>cancel\<close> and \<open>fail\<close> (\<open>application.rs\<close>) over any \<open>PublicationLedgerPort\<close>, and the
  in-memory and the dual-writer ledgers (\<open>adapters.rs\<close>). A panic is \<open>None\<close>; the ledger's \<open>put\<close> may panic.
\<close>

section \<open>Domain\<close>

definition PUBLICATION_POLICY_VERSION :: string where
  "PUBLICATION_POLICY_VERSION = ''hc15:publish-authoritative-h1:v1''"

datatype authority_surface = PublicationSurface

fun surface_as_str :: "authority_surface \<Rightarrow> string" where
  "surface_as_str PublicationSurface = ''publication''"

datatype publication_authority = PublicationAuthority

datatype completeness_evidence = Complete | Partial | MissingEvidence

fun completeness_as_str :: "completeness_evidence \<Rightarrow> string" where
  "completeness_as_str Complete = ''complete''"
| "completeness_as_str Partial = ''partial''"
| "completeness_as_str MissingEvidence = ''missing''"

definition is_complete :: "completeness_evidence \<Rightarrow> bool" where
  "is_complete c = (c = Complete)"

datatype publication_outcome =
  PB_Published | PB_Duplicate | PB_Incomplete | PB_Conflict | PB_Cancelled | PB_Failed | PB_CompetingWriterRejected

fun publication_as_str :: "publication_outcome \<Rightarrow> string" where
  "publication_as_str PB_Published = ''published''"
| "publication_as_str PB_Duplicate = ''duplicate''"
| "publication_as_str PB_Incomplete = ''incomplete''"
| "publication_as_str PB_Conflict = ''conflict''"
| "publication_as_str PB_Cancelled = ''cancelled''"
| "publication_as_str PB_Failed = ''failed''"
| "publication_as_str PB_CompetingWriterRejected = ''competing-writer-rejected''"

definition is_authoritative :: "publication_outcome \<Rightarrow> bool" where
  "is_authoritative o1 = (o1 = PB_Published \<or> o1 = PB_Duplicate)"

record publish_request =
  bq_operation_id :: string
  bq_writer_id :: string
  bq_scope_id :: string
  bq_cutoff_id :: string
  bq_rule_version :: string
  bq_input_digest :: string
  bq_completeness :: completeness_evidence

record publication_record =
  br_operation_id :: string
  br_writer_id :: string
  br_scope_id :: string
  br_cutoff_id :: string
  br_rule_version :: string
  br_input_digest :: string
  br_h1_unit_id :: string
  br_completeness :: completeness_evidence
  br_authoritative :: bool
  br_publication_authority :: "publication_authority option"
  br_authority_surface :: authority_surface

record publication_result =
  bx_outcome :: publication_outcome
  bx_operation_id :: string
  bx_writer_id :: string
  bx_scope_id :: string
  bx_h1_unit_id :: "string option"
  bx_input_digest :: "string option"
  bx_authoritative :: bool
  bx_publication_authority :: "publication_authority option"
  bx_authority_surface :: authority_surface
  bx_policy_version :: string

definition publication_has_authority :: "publication_result \<Rightarrow> bool" where
  "publication_has_authority r = (bx_publication_authority r \<noteq> None)"

section \<open>The service\<close>

text \<open>The ledger port; the service calls only \<open>put\<close>.\<close>

record 'l publication_ledger_ops =
  pg_get_by_operation :: "'l \<Rightarrow> string \<Rightarrow> publication_record option"
  pg_get_authoritative_for_scope :: "'l \<Rightarrow> string \<Rightarrow> publication_record option"
  pg_writer_for_scope :: "'l \<Rightarrow> string \<Rightarrow> string option"
  pg_put :: "publication_record \<Rightarrow> 'l \<Rightarrow> 'l option"
  pg_authoritative_count :: "'l \<Rightarrow> nat"
  pg_has_unit :: "'l \<Rightarrow> string \<Rightarrow> bool"

record 'l publish_service =
  ba_ledger :: 'l
  ba_by_operation :: "(string, publication_record) hashmap"
  ba_by_scope :: "(string, publication_record) hashmap"
  ba_writer_for_scope :: "(string, string) hashmap"
  ba_next_unit_seq :: nat

definition publish_new :: "'l \<Rightarrow> 'l publish_service" where
  "publish_new ledger = \<lparr>ba_ledger = ledger, ba_by_operation = [], ba_by_scope = [],
     ba_writer_for_scope = [], ba_next_unit_seq = 0\<rparr>"

definition authoritative_count :: "'l publish_service \<Rightarrow> nat" where
  "authoritative_count st = hm_len (ba_by_scope st)"

definition has_authoritative_for_scope :: "'l publish_service \<Rightarrow> string \<Rightarrow> bool" where
  "has_authoritative_for_scope st scope = hm_contains (ba_by_scope st) scope"

definition unit_for_scope :: "'l publish_service \<Rightarrow> string \<Rightarrow> string option" where
  "unit_for_scope st scope = map_option br_h1_unit_id (hm_get (ba_by_scope st) scope)"

definition writer_of_scope :: "'l publish_service \<Rightarrow> string \<Rightarrow> string option" where
  "writer_of_scope st scope = hm_get (ba_writer_for_scope st) scope"

definition publish_finish ::
    "publish_request \<Rightarrow> publication_outcome \<Rightarrow> string option \<Rightarrow> bool \<Rightarrow> publication_authority option \<Rightarrow>
     publication_result" where
  "publish_finish request outcome h1_unit_id authoritative authority =
     (let (authoritative, authority) =
            (if authoritative \<and> outcome \<in> {PB_Published, PB_Duplicate} then (True, authority) else (False, None))
      in \<lparr>bx_outcome = outcome, bx_operation_id = bq_operation_id request,
          bx_writer_id = bq_writer_id request, bx_scope_id = bq_scope_id request, bx_h1_unit_id = h1_unit_id,
          bx_input_digest =
            (if authoritative then Some (bq_input_digest request)
             else if outcome \<in> {PB_Conflict, PB_CompetingWriterRejected} then None
             else Some (bq_input_digest request)),
          bx_authoritative = authoritative, bx_publication_authority = authority,
          bx_authority_surface = PublicationSurface, bx_policy_version = PUBLICATION_POLICY_VERSION\<rparr>)"

definition handle_existing_operation :: "publish_request \<Rightarrow> publication_record \<Rightarrow> publication_result" where
  "handle_existing_operation request existing =
     (if br_writer_id existing \<noteq> bq_writer_id request
        then publish_finish request PB_CompetingWriterRejected (Some (br_h1_unit_id existing)) False None
      else if br_scope_id existing \<noteq> bq_scope_id request \<or> br_input_digest existing \<noteq> bq_input_digest request \<or>
              br_cutoff_id existing \<noteq> bq_cutoff_id request \<or> br_rule_version existing \<noteq> bq_rule_version request
        then publish_finish request PB_Conflict (Some (br_h1_unit_id existing)) False None
      else publish_finish request PB_Duplicate (Some (br_h1_unit_id existing)) True
             (br_publication_authority existing))"

text \<open>The branch of \<open>publish\<close> for a scope that already holds a unit.\<close>

definition handle_existing_scope :: "publish_request \<Rightarrow> publication_record \<Rightarrow> publication_result" where
  "handle_existing_scope request existing =
     (if br_writer_id existing \<noteq> bq_writer_id request
        then publish_finish request PB_CompetingWriterRejected (Some (br_h1_unit_id existing)) False None
      else if br_input_digest existing \<noteq> bq_input_digest request \<or>
              br_cutoff_id existing \<noteq> bq_cutoff_id request \<or> br_rule_version existing \<noteq> bq_rule_version request
        then publish_finish request PB_Conflict (Some (br_h1_unit_id existing)) False None
      else publish_finish request PB_Duplicate (Some (br_h1_unit_id existing)) True
             (br_publication_authority existing))"

definition unit_name :: "nat \<Rightarrow> string" where
  "unit_name n = ''h1:'' @ show_nat n"

text \<open>The end of \<open>publish\<close>: the first complete publication of a scope.\<close>

definition publish_first ::
    "'l publication_ledger_ops \<Rightarrow> 'l publish_service \<Rightarrow> publish_request \<Rightarrow>
     ('l publish_service \<times> publication_result) option" where
  "publish_first ops st request = do {
     seq \<leftarrow> u64_succ (ba_next_unit_seq st);
     h1_unit_id \<leftarrow> expect (parse_id ''h1 unit id'' (unit_name seq) MAX_ID_LEN);
     let record = \<lparr>br_operation_id = bq_operation_id request, br_writer_id = bq_writer_id request,
       br_scope_id = bq_scope_id request, br_cutoff_id = bq_cutoff_id request,
       br_rule_version = bq_rule_version request, br_input_digest = bq_input_digest request,
       br_h1_unit_id = h1_unit_id, br_completeness = Complete, br_authoritative = True,
       br_publication_authority = Some PublicationAuthority, br_authority_surface = PublicationSurface\<rparr>;
     ledger \<leftarrow> pg_put ops record (ba_ledger st);
     Some (\<lparr>ba_ledger = ledger,
            ba_by_operation = hm_insert (bq_operation_id request) record (ba_by_operation st),
            ba_by_scope = hm_insert (bq_scope_id request) record (ba_by_scope st),
            ba_writer_for_scope = hm_insert (bq_scope_id request) (bq_writer_id request) (ba_writer_for_scope st),
            ba_next_unit_seq = seq\<rparr>,
           publish_finish request PB_Published (Some h1_unit_id) True (Some PublicationAuthority))
   }"

definition publish ::
    "'l publication_ledger_ops \<Rightarrow> 'l publish_service \<Rightarrow> publish_request \<Rightarrow>
     ('l publish_service \<times> publication_result) option" where
  "publish ops st request =
     (if \<not> is_complete (bq_completeness request)
        then Some (st, publish_finish request PB_Incomplete None False None)
      else case hm_get (ba_by_operation st) (bq_operation_id request) of
        Some existing \<Rightarrow> Some (st, handle_existing_operation request existing)
      | None \<Rightarrow>
          (case hm_get (ba_by_scope st) (bq_scope_id request) of
             Some existing \<Rightarrow> Some (st, handle_existing_scope request existing)
           | None \<Rightarrow>
               (case hm_get (ba_writer_for_scope st) (bq_scope_id request) of
                  Some owner \<Rightarrow>
                    if owner \<noteq> bq_writer_id request
                    then Some (st, publish_finish request PB_CompetingWriterRejected None False None)
                    else publish_first ops st request
                | None \<Rightarrow> publish_first ops st request)))"

definition publish_cancel ::
    "'l publish_service \<Rightarrow> string \<Rightarrow> string \<Rightarrow> ('l publish_service \<times> publication_result) option" where
  "publish_cancel st operation_id writer_id =
     (case hm_get (ba_by_operation st) operation_id of
        Some existing \<Rightarrow>
          Some (st, \<lparr>bx_outcome = PB_Duplicate, bx_operation_id = operation_id, bx_writer_id = writer_id,
            bx_scope_id = br_scope_id existing, bx_h1_unit_id = Some (br_h1_unit_id existing),
            bx_input_digest = Some (br_input_digest existing), bx_authoritative = True,
            bx_publication_authority = br_publication_authority existing,
            bx_authority_surface = PublicationSurface, bx_policy_version = PUBLICATION_POLICY_VERSION\<rparr>)
      | None \<Rightarrow> do {
          scope \<leftarrow> expect (parse_id ''scope id'' ''scope:none'' MAX_ID_LEN);
          Some (st, \<lparr>bx_outcome = PB_Cancelled, bx_operation_id = operation_id, bx_writer_id = writer_id,
            bx_scope_id = scope, bx_h1_unit_id = None, bx_input_digest = None, bx_authoritative = False,
            bx_publication_authority = None, bx_authority_surface = PublicationSurface,
            bx_policy_version = PUBLICATION_POLICY_VERSION\<rparr>) })"

definition publish_fail ::
    "'l publish_service \<Rightarrow> publish_request \<Rightarrow> ('l publish_service \<times> publication_result) option" where
  "publish_fail st request = Some (st, publish_finish request PB_Failed None False None)"

datatype publish_call = PublishH1 publish_request | CancelH1 string string | FailH1 publish_request

fun publish_step ::
    "'l publication_ledger_ops \<Rightarrow> publish_call \<Rightarrow> 'l publish_service \<Rightarrow>
     ('l publish_service \<times> publication_result) option" where
  "publish_step ops (PublishH1 q) st = publish ops st q"
| "publish_step ops (CancelH1 op w) st = publish_cancel st op w"
| "publish_step ops (FailH1 q) st = publish_fail st q"

fun publish_run ::
    "'l publication_ledger_ops \<Rightarrow> publish_call list \<Rightarrow> 'l publish_service \<Rightarrow>
     ('l publish_service \<times> publication_result list) option" where
  "publish_run ops [] st = Some (st, [])"
| "publish_run ops (call # calls) st =
     do { (st1, r) \<leftarrow> publish_step ops call st;
          (st2, rs) \<leftarrow> publish_run ops calls st1;
          Some (st2, r # rs) }"

section \<open>Ledgers\<close>

record publication_memory =
  lm_by_operation :: "(string, publication_record) hashmap"
  lm_by_scope :: "(string, publication_record) hashmap"
  lm_writer_for_scope :: "(string, string) hashmap"
  lm_units :: "(string, publication_record) hashmap"

definition publication_memory_empty :: publication_memory where
  "publication_memory_empty = \<lparr>lm_by_operation = [], lm_by_scope = [], lm_writer_for_scope = [], lm_units = []\<rparr>"

definition publication_memory_put :: "publication_record \<Rightarrow> publication_memory \<Rightarrow> publication_memory" where
  "publication_memory_put record l =
     (let l1 = l\<lparr>lm_by_operation := hm_insert (br_operation_id record) record (lm_by_operation l)\<rparr>;
          l2 = (if br_authoritative record
                then l1\<lparr>lm_by_scope := hm_insert (br_scope_id record) record (lm_by_scope l1),
                        lm_writer_for_scope :=
                          hm_insert (br_scope_id record) (br_writer_id record) (lm_writer_for_scope l1)\<rparr>
                else l1)
      in l2\<lparr>lm_units := hm_insert (br_h1_unit_id record) record (lm_units l2)\<rparr>)"

definition memory_authoritative :: "publication_memory \<Rightarrow> string \<Rightarrow> publication_record option" where
  "memory_authoritative l scope =
     (case hm_get (lm_by_scope l) scope of None \<Rightarrow> None | Some r \<Rightarrow> if br_authoritative r then Some r else None)"

definition memory_authoritative_count :: "publication_memory \<Rightarrow> nat" where
  "memory_authoritative_count l = length (filter br_authoritative (map snd (lm_by_scope l)))"

definition publication_memory_ops :: "publication_memory publication_ledger_ops" where
  "publication_memory_ops =
     \<lparr>pg_get_by_operation = (\<lambda>l op. hm_get (lm_by_operation l) op),
      pg_get_authoritative_for_scope = memory_authoritative,
      pg_writer_for_scope = (\<lambda>l scope. hm_get (lm_writer_for_scope l) scope),
      pg_put = (\<lambda>record l. Some (publication_memory_put record l)),
      pg_authoritative_count = memory_authoritative_count,
      pg_has_unit = (\<lambda>l unit_id. hm_contains (lm_units l) unit_id)\<rparr>"

record dual_writer_ledger =
  dw_inner :: publication_memory
  dw_attempts :: nat

definition dual_writer_put :: "publication_record \<Rightarrow> dual_writer_ledger \<Rightarrow> dual_writer_ledger option" where
  "dual_writer_put record l = do {
     let inner = publication_memory_put record (dw_inner l);
     attempts \<leftarrow> u64_succ (dw_attempts l);
     writer \<leftarrow> expect (parse_id ''writer id'' ''writer:hostile-second'' MAX_ID_LEN);
     unit_id \<leftarrow> expect (parse_id ''h1 unit id'' (''h1:hostile:'' @ show_nat attempts) MAX_ID_LEN);
     op \<leftarrow> expect (parse_id ''operation id'' (''op:hostile:'' @ show_nat attempts) MAX_ID_LEN);
     let record = record\<lparr>br_writer_id := writer, br_h1_unit_id := unit_id, br_authoritative := True,
       br_publication_authority := Some PublicationAuthority, br_operation_id := op\<rparr>;
     Some \<lparr>dw_inner = publication_memory_put record inner, dw_attempts = attempts\<rparr> }"

definition dual_writer_ops :: "dual_writer_ledger publication_ledger_ops" where
  "dual_writer_ops =
     \<lparr>pg_get_by_operation = (\<lambda>l op. hm_get (lm_by_operation (dw_inner l)) op),
      pg_get_authoritative_for_scope = (\<lambda>l scope. memory_authoritative (dw_inner l) scope),
      pg_writer_for_scope = (\<lambda>l scope. None),
      pg_put = dual_writer_put,
      pg_authoritative_count =
        (\<lambda>l. max (min (memory_authoritative_count (dw_inner l) * 2) (u64_limit - 1)) 99),
      pg_has_unit = (\<lambda>l unit_id. hm_contains (lm_units (dw_inner l)) unit_id)\<rparr>"

section \<open>Invariant\<close>

definition publish_inv :: "'l publish_service \<Rightarrow> bool" where
  "publish_inv st =
     (hm_len (ba_by_scope st) = ba_next_unit_seq st \<and>
      (\<forall>op r. hm_get (ba_by_operation st) op = Some r \<longrightarrow>
         br_operation_id r = op \<and> hm_get (ba_by_scope st) (br_scope_id r) = Some r) \<and>
      (\<forall>s r. hm_get (ba_by_scope st) s = Some r \<longrightarrow>
         br_scope_id r = s \<and> hm_get (ba_by_operation st) (br_operation_id r) = Some r \<and>
         hm_get (ba_writer_for_scope st) s = Some (br_writer_id r) \<and>
         br_publication_authority r = Some PublicationAuthority \<and>
         (\<exists>n \<le> ba_next_unit_seq st. br_h1_unit_id r = unit_name n)) \<and>
      (\<forall>s. hm_contains (ba_writer_for_scope st) s \<longrightarrow> hm_contains (ba_by_scope st) s) \<and>
      (\<forall>s1 s2 r1 r2. hm_get (ba_by_scope st) s1 = Some r1 \<longrightarrow> hm_get (ba_by_scope st) s2 = Some r2 \<longrightarrow>
         br_h1_unit_id r1 = br_h1_unit_id r2 \<longrightarrow> s1 = s2))"

lemma publish_inv_new [simp]: "publish_inv (publish_new l)"
  by (simp add: publish_inv_def publish_new_def)

lemma publish_inv_len: "publish_inv st \<Longrightarrow> hm_len (ba_by_scope st) = ba_next_unit_seq st"
  by (simp add: publish_inv_def)

lemma publish_inv_op: "publish_inv st \<Longrightarrow> hm_get (ba_by_operation st) op = Some r \<Longrightarrow>
    br_operation_id r = op \<and> hm_get (ba_by_scope st) (br_scope_id r) = Some r"
  unfolding publish_inv_def by blast

lemma publish_inv_scope: "publish_inv st \<Longrightarrow> hm_get (ba_by_scope st) s = Some r \<Longrightarrow>
    br_scope_id r = s \<and> hm_get (ba_by_operation st) (br_operation_id r) = Some r \<and>
    hm_get (ba_writer_for_scope st) s = Some (br_writer_id r) \<and> br_publication_authority r = Some PublicationAuthority \<and>
    (\<exists>n \<le> ba_next_unit_seq st. br_h1_unit_id r = unit_name n)"
  unfolding publish_inv_def by blast

lemma publish_inv_unit: "publish_inv st \<Longrightarrow> hm_get (ba_by_scope st) s1 = Some r1 \<Longrightarrow>
    hm_get (ba_by_scope st) s2 = Some r2 \<Longrightarrow> br_h1_unit_id r1 = br_h1_unit_id r2 \<Longrightarrow> s1 = s2"
  unfolding publish_inv_def by blast

lemma publish_inv_writer: "publish_inv st \<Longrightarrow> hm_get (ba_by_scope st) s = None \<Longrightarrow> hm_get (ba_writer_for_scope st) s = None"
  unfolding publish_inv_def by (metis hm_contains_def)

lemma publish_inv_authority:
  "publish_inv st \<Longrightarrow> hm_get (ba_by_operation st) op = Some r \<Longrightarrow> br_publication_authority r = Some PublicationAuthority"
  using publish_inv_op publish_inv_scope by blast

lemma unit_name_inj [simp]: "unit_name a = unit_name b \<longleftrightarrow> a = b"
  by (simp add: unit_name_def)

lemma unit_name_valid: "n < u64_limit \<Longrightarrow> valid_id MAX_ID_LEN (unit_name n)"
  unfolding unit_name_def by (rule valid_id_counter) (simp_all add: id_char_def is_ascii_alphanumeric_def less_eq_char_def MAX_ID_LEN_def)

lemma publish_finish_fields [simp]:
  "bx_outcome (publish_finish q out u a p) = out" "bx_scope_id (publish_finish q out u a p) = bq_scope_id q"
  "bx_writer_id (publish_finish q out u a p) = bq_writer_id q" "bx_operation_id (publish_finish q out u a p) = bq_operation_id q"
  "bx_h1_unit_id (publish_finish q out u a p) = u"
  "bx_authoritative (publish_finish q out u a p) = (a \<and> is_authoritative out)"
  "bx_publication_authority (publish_finish q out u a p) = (if a \<and> is_authoritative out then p else None)"
  "a \<Longrightarrow> is_authoritative out \<Longrightarrow> bx_input_digest (publish_finish q out u a p) = Some (bq_input_digest q)"
  by (auto simp: publish_finish_def is_authoritative_def Let_def)

lemma is_authoritative_simps [simp]:
  "is_authoritative PB_Published" "is_authoritative PB_Duplicate" "\<not> is_authoritative PB_Incomplete"
  "\<not> is_authoritative PB_Conflict" "\<not> is_authoritative PB_Cancelled" "\<not> is_authoritative PB_Failed"
  "\<not> is_authoritative PB_CompetingWriterRejected"
  by (simp_all add: is_authoritative_def)

text \<open>What a state says of a result: authority comes with the unit that the scope holds.\<close>

definition agrees :: "'l publish_service \<Rightarrow> publication_result \<Rightarrow> bool" where
  "agrees st r = (bx_authoritative r = is_authoritative (bx_outcome r) \<and>
     (bx_publication_authority r \<noteq> None) = bx_authoritative r \<and>
     (bx_authoritative r \<longrightarrow> (\<exists>u. hm_get (ba_by_scope st) (bx_scope_id r) = Some u \<and>
        bx_h1_unit_id r = Some (br_h1_unit_id u) \<and> bx_input_digest r = Some (br_input_digest u))))"

text \<open>An authoritative answer to \<open>publish\<close> is to the unit's writer and to a complete candidate.\<close>

definition writer_agrees :: "'l publish_service \<Rightarrow> publish_call \<Rightarrow> publication_result \<Rightarrow> bool" where
  "writer_agrees st call r = (\<forall>q. call = PublishH1 q \<longrightarrow> bx_authoritative r \<longrightarrow>
     bq_completeness q = Complete \<and> bx_writer_id r = bq_writer_id q \<and> bx_scope_id r = bq_scope_id q \<and>
     (\<exists>u. hm_get (ba_by_scope st) (bx_scope_id r) = Some u \<and> br_writer_id u = bq_writer_id q))"

definition extends :: "'l publish_service \<Rightarrow> 'l publish_service \<Rightarrow> bool" where
  "extends st st' = ((\<forall>s r. hm_get (ba_by_scope st) s = Some r \<longrightarrow> hm_get (ba_by_scope st') s = Some r) \<and>
     (\<forall>op r. hm_get (ba_by_operation st) op = Some r \<longrightarrow> hm_get (ba_by_operation st') op = Some r))"

lemma extends_refl [simp]: "extends st st"
  by (simp add: extends_def)

lemma extends_trans: "extends a b \<Longrightarrow> extends b c \<Longrightarrow> extends a c"
  unfolding extends_def by blast

lemma agrees_mono: "agrees st r \<Longrightarrow> extends st st' \<Longrightarrow> agrees st' r"
  unfolding agrees_def extends_def by blast

lemma writer_agrees_mono: "writer_agrees st c r \<Longrightarrow> extends st st' \<Longrightarrow> writer_agrees st' c r"
  unfolding writer_agrees_def extends_def by blast

definition unit_record :: "publish_request \<Rightarrow> nat \<Rightarrow> publication_record" where
  "unit_record q n = \<lparr>br_operation_id = bq_operation_id q, br_writer_id = bq_writer_id q,
     br_scope_id = bq_scope_id q, br_cutoff_id = bq_cutoff_id q, br_rule_version = bq_rule_version q,
     br_input_digest = bq_input_digest q, br_h1_unit_id = unit_name n, br_completeness = Complete,
     br_authoritative = True, br_publication_authority = Some PublicationAuthority,
     br_authority_surface = PublicationSurface\<rparr>"

lemma unit_record_fields [simp]:
  "br_operation_id (unit_record q n) = bq_operation_id q" "br_writer_id (unit_record q n) = bq_writer_id q"
  "br_scope_id (unit_record q n) = bq_scope_id q" "br_input_digest (unit_record q n) = bq_input_digest q"
  "br_cutoff_id (unit_record q n) = bq_cutoff_id q" "br_rule_version (unit_record q n) = bq_rule_version q"
  "br_h1_unit_id (unit_record q n) = unit_name n" "br_publication_authority (unit_record q n) = Some PublicationAuthority"
  "br_authoritative (unit_record q n)"
  by (simp_all add: unit_record_def)

text \<open>The state after the first publication of a scope.\<close>

definition with_unit :: "'l publish_service \<Rightarrow> publish_request \<Rightarrow> 'l \<Rightarrow> 'l publish_service" where
  "with_unit st q ledger =
     (let u = unit_record q (Suc (ba_next_unit_seq st))
      in \<lparr>ba_ledger = ledger, ba_by_operation = hm_insert (bq_operation_id q) u (ba_by_operation st),
          ba_by_scope = hm_insert (bq_scope_id q) u (ba_by_scope st),
          ba_writer_for_scope = hm_insert (bq_scope_id q) (bq_writer_id q) (ba_writer_for_scope st),
          ba_next_unit_seq = Suc (ba_next_unit_seq st)\<rparr>)"

lemma publish_first_eq:
  "publish_first ops st q = Some (st', r) \<longleftrightarrow>
     (\<exists>ledger. Suc (ba_next_unit_seq st) < u64_limit \<and>
        pg_put ops (unit_record q (Suc (ba_next_unit_seq st))) (ba_ledger st) = Some ledger \<and> st' = with_unit st q ledger \<and>
        r = publish_finish q PB_Published (Some (unit_name (Suc (ba_next_unit_seq st)))) True (Some PublicationAuthority))"
  by (auto simp: publish_first_def u64_succ_eq_Some bind_eq_Some_conv parse_id_valid unit_name_valid Let_def
      unit_record_def with_unit_def)

lemma with_unit_inv:
  assumes "publish_inv st" "hm_get (ba_by_operation st) (bq_operation_id q) = None"
    "hm_get (ba_by_scope st) (bq_scope_id q) = None"
  shows "publish_inv (with_unit st q l)" "extends st (with_unit st q l)"
proof -
  have "hm_len (ba_by_scope (with_unit st q l)) = ba_next_unit_seq (with_unit st q l)"
    using assms(3) publish_inv_len [OF assms(1)] by (simp add: with_unit_def Let_def hm_len_insert hm_contains_def)
  moreover have "br_h1_unit_id r \<noteq> unit_name (Suc (ba_next_unit_seq st))" if "hm_get (ba_by_scope st) s = Some r" for s r
    using publish_inv_scope [OF assms(1) that] by auto
  ultimately show "publish_inv (with_unit st q l)"
    using assms publish_inv_op [OF assms(1)] publish_inv_scope [OF assms(1)] publish_inv_unit [OF assms(1)]
      publish_inv_writer [OF assms(1)]
    unfolding publish_inv_def hm_contains_def with_unit_def Let_def
    by (auto split: if_splits) (metis le_SucI not_None_eq option.distinct(1))+
  show "extends st (with_unit st q l)" using assms(2,3) by (auto simp: extends_def with_unit_def Let_def)
qed

lemma publish_step_cases [consumes 2, case_names published same]:
  assumes "publish_inv st" "publish_step ops call st = Some (st', r)"
  obtains q ledger where "call = PublishH1 q" "bq_completeness q = Complete"
      "hm_get (ba_by_operation st) (bq_operation_id q) = None" "hm_get (ba_by_scope st) (bq_scope_id q) = None"
      "publish_first ops st q = Some (st', r)" "bx_outcome r = PB_Published" "bx_scope_id r = bq_scope_id q"
      "st' = with_unit st q ledger" "agrees st' r" "writer_agrees st' call r"
  | "st' = st" "bx_outcome r \<noteq> PB_Published" "agrees st r" "writer_agrees st call r"
proof (cases call)
  case (PublishH1 q)
  note step = assms(2) [unfolded PublishH1 publish_step.simps publish_def is_complete_def]
  show ?thesis
  proof (cases "bq_completeness q = Complete")
    case False
    with step PublishH1 that(2) show ?thesis by (auto simp: agrees_def writer_agrees_def)
  next
    case complete: True
    show ?thesis
    proof (cases "hm_get (ba_by_operation st) (bq_operation_id q)")
      case (Some u)
      with step complete PublishH1 that(2) publish_inv_op [OF assms(1) Some] publish_inv_authority [OF assms(1) Some]
      show ?thesis
        by (auto simp: handle_existing_operation_def agrees_def writer_agrees_def split: if_splits)
    next
      case no_op: None
      show ?thesis
      proof (cases "hm_get (ba_by_scope st) (bq_scope_id q)")
        case (Some u)
        with step complete no_op PublishH1 that(2) publish_inv_scope [OF assms(1) Some] show ?thesis
          by (auto simp: handle_existing_scope_def agrees_def writer_agrees_def split: if_splits)
      next
        case None
        with step complete no_op publish_inv_writer [OF assms(1) None] have first: "publish_first ops st q = Some (st', r)"
          by simp
        then obtain ledger where "st' = with_unit st q ledger"
          "r = publish_finish q PB_Published (Some (unit_name (Suc (ba_next_unit_seq st)))) True (Some PublicationAuthority)"
          unfolding publish_first_eq by blast
        with that(1) first PublishH1 complete no_op None show ?thesis
          by (auto simp: agrees_def writer_agrees_def with_unit_def Let_def)
      qed
    qed
  qed
next
  case (CancelH1 op w)
  show ?thesis
  proof (cases "hm_get (ba_by_operation st) op")
    case None
    with CancelH1 assms(2) that(2) show ?thesis
      by (auto simp: publish_cancel_def agrees_def writer_agrees_def bind_eq_Some_conv)
  next
    case (Some u)
    with CancelH1 assms(2) that(2) publish_inv_op [OF assms(1) Some] publish_inv_authority [OF assms(1) Some]
    show ?thesis by (auto simp: publish_cancel_def agrees_def writer_agrees_def)
  qed
next
  case (FailH1 q)
  with assms(2) that(2) show ?thesis by (auto simp: publish_fail_def agrees_def writer_agrees_def)
qed

abbreviation published :: "publication_result list \<Rightarrow> publication_result list" where
  "published rs \<equiv> filter (\<lambda>r. bx_outcome r = PB_Published) rs"

lemma publish_run_facts:
  "publish_run ops calls st = Some (st', rs) \<Longrightarrow> publish_inv st \<Longrightarrow>
     publish_inv st' \<and> extends st st' \<and> (\<forall>r \<in> set rs. agrees st' r) \<and>
     list_all2 (writer_agrees st') calls rs \<and> distinct (map bx_scope_id (published rs)) \<and>
     (\<forall>r \<in> set (published rs). hm_get (ba_by_scope st) (bx_scope_id r) = None) \<and>
     authoritative_count st' = authoritative_count st + length (published rs)"
proof (induction calls arbitrary: st rs)
  case (Cons call calls)
  obtain st1 r rs1 where step: "publish_step ops call st = Some (st1, r)" and run: "publish_run ops calls st1 = Some (st', rs1)"
    and rs: "rs = r # rs1" using Cons.prems(1) by (auto simp: bind_eq_Some_conv)
  from Cons.prems(2) step show ?case
  proof (cases rule: publish_step_cases)
    case (published q ledger)
    have inv1: "publish_inv st1" "extends st st1"
      unfolding published(8) using with_unit_inv [OF Cons.prems(2) published(3,4)] by auto
    have IH: "publish_inv st'" "extends st1 st'" "\<forall>r \<in> set rs1. agrees st' r" "list_all2 (writer_agrees st') calls rs1"
      "distinct (map bx_scope_id (published rs1))" "\<forall>r \<in> set (published rs1). hm_get (ba_by_scope st1) (bx_scope_id r) = None"
      "authoritative_count st' = authoritative_count st1 + length (published rs1)"
      using Cons.IH [OF run inv1(1)] by auto
    have "agrees st' r" "writer_agrees st' call r"
      using agrees_mono [OF published(9) IH(2)] writer_agrees_mono [OF published(10) IH(2)] by auto
    moreover have "authoritative_count st1 = Suc (authoritative_count st)"
      using published(4) unfolding published(8)
      by (simp add: authoritative_count_def with_unit_def Let_def hm_len_insert hm_contains_def)
    moreover have "bx_scope_id r \<notin> bx_scope_id ` set (published rs1)"
      using IH(6) unfolding published(7,8) by (auto simp: with_unit_def Let_def)
    moreover have "\<forall>r \<in> set (published rs1). hm_get (ba_by_scope st) (bx_scope_id r) = None"
      using IH(6) inv1(2) by (metis extends_def not_None_eq)
    ultimately show ?thesis
      using IH extends_trans [OF inv1(2) IH(2)] published(4,6,7) unfolding rs by auto
  next
    case same
    then show ?thesis
      using Cons.IH [OF run] Cons.prems(2) agrees_mono writer_agrees_mono unfolding rs by auto
  qed
qed simp

section \<open>An honest ledger\<close>

text \<open>
  The contract of \<open>PublicationLedgerPort\<close> for authoritative records, and its client lemmas: on such a
  ledger the service never panics within its counter, and the ledger shows the service's registry.
\<close>

locale publication_ledger =
  fixes ops :: "'l publication_ledger_ops"
    and inv :: "'l \<Rightarrow> bool"
  assumes put_ok: "inv l \<Longrightarrow> br_authoritative r \<Longrightarrow> \<exists>l'. pg_put ops r l = Some l' \<and> inv l'"
    and operation_put: "pg_put ops r l = Some l' \<Longrightarrow>
      pg_get_by_operation ops l' op = (if op = br_operation_id r then Some r else pg_get_by_operation ops l op)"
    and scope_put: "inv l \<Longrightarrow> br_authoritative r \<Longrightarrow> pg_put ops r l = Some l' \<Longrightarrow>
      pg_get_authoritative_for_scope ops l' s =
        (if s = br_scope_id r then Some r else pg_get_authoritative_for_scope ops l s)"
    and writer_put: "inv l \<Longrightarrow> br_authoritative r \<Longrightarrow> pg_put ops r l = Some l' \<Longrightarrow>
      pg_writer_for_scope ops l' s = (if s = br_scope_id r then Some (br_writer_id r) else pg_writer_for_scope ops l s)"
    and count_put: "inv l \<Longrightarrow> br_authoritative r \<Longrightarrow> pg_put ops r l = Some l' \<Longrightarrow>
      pg_get_authoritative_for_scope ops l (br_scope_id r) = None \<Longrightarrow>
      pg_authoritative_count ops l' = Suc (pg_authoritative_count ops l)"
begin

definition mirrors :: "'l publish_service \<Rightarrow> bool" where
  "mirrors st = (inv (ba_ledger st) \<and> pg_authoritative_count ops (ba_ledger st) = authoritative_count st \<and>
     (\<forall>op. pg_get_by_operation ops (ba_ledger st) op = hm_get (ba_by_operation st) op) \<and>
     (\<forall>s. pg_get_authoritative_for_scope ops (ba_ledger st) s = hm_get (ba_by_scope st) s) \<and>
     (\<forall>s. pg_writer_for_scope ops (ba_ledger st) s = hm_get (ba_writer_for_scope st) s))"

lemma publish_first_mirrors:
  assumes "mirrors st" "Suc (ba_next_unit_seq st) < u64_limit" "hm_get (ba_by_scope st) (bq_scope_id q) = None"
  shows "\<exists>st' r. publish_first ops st q = Some (st', r) \<and> mirrors st' \<and> ba_next_unit_seq st' = Suc (ba_next_unit_seq st)"
proof -
  let ?u = "unit_record q (Suc (ba_next_unit_seq st))"
  obtain l where l: "pg_put ops ?u (ba_ledger st) = Some l" "inv l"
    using put_ok [of "ba_ledger st" ?u] assms(1) by (auto simp: mirrors_def)
  have "mirrors (with_unit st q l)"
    using assms(1,3) l operation_put [OF l(1)] scope_put [OF _ _ l(1)] writer_put [OF _ _ l(1)] count_put [OF _ _ l(1)]
    by (auto simp: mirrors_def with_unit_def Let_def authoritative_count_def hm_len_insert hm_contains_def)
  with assms(2) l(1) show ?thesis
    unfolding publish_first_eq by (intro exI conjI) (auto simp: with_unit_def Let_def)
qed

lemma step_mirrors:
  assumes "mirrors st" "Suc (ba_next_unit_seq st) < u64_limit" "publish_inv st"
  shows "\<exists>st' r. publish_step ops call st = Some (st', r) \<and> mirrors st' \<and> ba_next_unit_seq st' \<le> Suc (ba_next_unit_seq st)"
proof (cases call)
  case (PublishH1 q)
  have "\<exists>st' r. publish_first ops st q = Some (st', r) \<and> mirrors st' \<and> ba_next_unit_seq st' \<le> Suc (ba_next_unit_seq st)"
    if "hm_get (ba_by_scope st) (bq_scope_id q) = None"
    using publish_first_mirrors [OF assms(1,2) that] by auto
  with assms publish_inv_writer [OF assms(3)] show ?thesis
    by (auto simp: PublishH1 publish_def split: option.split)
next
  case (CancelH1 op w)
  have "valid_id MAX_ID_LEN ''scope:none''" by code_simp
  with assms show ?thesis by (auto simp: CancelH1 publish_cancel_def parse_id_valid split: option.split)
qed (use assms in \<open>simp add: publish_fail_def\<close>)

lemma run_mirrors:
  "mirrors st \<Longrightarrow> publish_inv st \<Longrightarrow> ba_next_unit_seq st + length calls < u64_limit \<Longrightarrow>
     \<exists>st' rs. publish_run ops calls st = Some (st', rs) \<and> mirrors st'"
proof (induction calls arbitrary: st)
  case (Cons call calls)
  then obtain st1 r where s: "publish_step ops call st = Some (st1, r)" "mirrors st1"
    "ba_next_unit_seq st1 \<le> Suc (ba_next_unit_seq st)"
    using step_mirrors [of st call] by auto
  have "publish_run ops [call] st = Some (st1, [r])" using s(1) by simp
  then have "publish_inv st1" using publish_run_facts Cons.prems(2) by blast
  from Cons.IH [OF s(2) this] s Cons.prems(3) show ?case by auto
qed simp

end

definition memory_wf :: "publication_memory \<Rightarrow> bool" where
  "memory_wf l = (hm_wf (lm_by_scope l) \<and> (\<forall>s r. hm_get (lm_by_scope l) s = Some r \<longrightarrow> br_authoritative r))"

lemma memory_count: "memory_wf l \<Longrightarrow> memory_authoritative_count l = hm_len (lm_by_scope l)"
proof -
  assume wf: "memory_wf l"
  have "\<forall>r \<in> set (map snd (lm_by_scope l)). br_authoritative r"
  proof
    fix r assume "r \<in> set (map snd (lm_by_scope l))"
    then obtain s where "(s, r) \<in> set (lm_by_scope l)" by auto
    with wf show "br_authoritative r" unfolding memory_wf_def hm_wf_def hm_get_def by (metis map_of_is_SomeI)
  qed
  then show ?thesis by (simp add: memory_authoritative_count_def hm_len_def)
qed

lemma memory_authoritative_wf: "memory_wf l \<Longrightarrow> memory_authoritative l s = hm_get (lm_by_scope l) s"
  by (auto simp: memory_authoritative_def memory_wf_def split: option.split)

lemma memory_put_wf: "memory_wf l \<Longrightarrow> br_authoritative r \<Longrightarrow> memory_wf (publication_memory_put r l)"
  by (auto simp: memory_wf_def publication_memory_put_def Let_def)

interpretation memory_publication: publication_ledger publication_memory_ops memory_wf
proof
  fix l l' :: publication_memory and r op s
  show "memory_wf l \<Longrightarrow> br_authoritative r \<Longrightarrow> \<exists>l'. pg_put publication_memory_ops r l = Some l' \<and> memory_wf l'"
    by (simp add: publication_memory_ops_def memory_put_wf)
  show "pg_put publication_memory_ops r l = Some l' \<Longrightarrow> pg_get_by_operation publication_memory_ops l' op =
      (if op = br_operation_id r then Some r else pg_get_by_operation publication_memory_ops l op)"
    by (auto simp: publication_memory_ops_def publication_memory_put_def Let_def)
  assume l: "memory_wf l" "br_authoritative r" "pg_put publication_memory_ops r l = Some l'"
  then have l': "l' = publication_memory_put r l" "memory_wf l'"
    by (auto simp: publication_memory_ops_def memory_put_wf)
  show "pg_get_authoritative_for_scope publication_memory_ops l' s =
      (if s = br_scope_id r then Some r else pg_get_authoritative_for_scope publication_memory_ops l s)"
    using l l' by (simp add: publication_memory_ops_def memory_authoritative_wf) (simp add: publication_memory_put_def Let_def)
  show "pg_writer_for_scope publication_memory_ops l' s =
      (if s = br_scope_id r then Some (br_writer_id r) else pg_writer_for_scope publication_memory_ops l s)"
    using l l' by (simp add: publication_memory_ops_def publication_memory_put_def Let_def)
  assume "pg_get_authoritative_for_scope publication_memory_ops l (br_scope_id r) = None"
  then show "pg_authoritative_count publication_memory_ops l' = Suc (pg_authoritative_count publication_memory_ops l)"
    using l l'
    by (simp add: publication_memory_ops_def memory_count memory_authoritative_wf)
      (simp add: publication_memory_put_def Let_def hm_len_insert hm_contains_def)
qed

section \<open>Properties\<close>

lemma publish_run_new:
  assumes "publish_run ops calls (publish_new ledger) = Some (st, rs)"
  shows "publish_inv st" "\<forall>r \<in> set rs. agrees st r" "list_all2 (writer_agrees st) calls rs"
    "distinct (map bx_scope_id (published rs))" "authoritative_count st = length (published rs)"
  using publish_run_facts [OF assms publish_inv_new] by (simp_all add: authoritative_count_def publish_new_def)

text \<open>C6. Whatever the external ledger does, there is one authoritative unit per scope: over any calls on a
new service a scope is published at most once, every authoritative answer about a scope names the same unit
and input, different scopes have different units, authority accompanies exactly the published and duplicate
outcomes, and publications are answered with authority to complete candidates of one writer only.\<close>

theorem publication_single_authority:
  assumes "publish_run ops calls (publish_new ledger) = Some (st, rs)"
  shows "distinct (map bx_scope_id (published rs)) \<and> authoritative_count st = length (published rs) \<and>
    (\<forall>r \<in> set rs. bx_authoritative r = is_authoritative (bx_outcome r) \<and> publication_has_authority r = bx_authoritative r) \<and>
    (\<forall>r1 \<in> set rs. \<forall>r2 \<in> set rs. bx_authoritative r1 \<and> bx_authoritative r2 \<longrightarrow>
       (bx_h1_unit_id r1 = bx_h1_unit_id r2 \<longleftrightarrow> bx_scope_id r1 = bx_scope_id r2) \<and>
       (bx_scope_id r1 = bx_scope_id r2 \<longrightarrow> bx_input_digest r1 = bx_input_digest r2)) \<and>
    (\<forall>(c1, r1) \<in> set (zip calls rs). \<forall>(c2, r2) \<in> set (zip calls rs). \<forall>q1 q2.
       c1 = PublishH1 q1 \<and> c2 = PublishH1 q2 \<and> bx_authoritative r1 \<and> bx_authoritative r2 \<and>
       bq_scope_id q1 = bq_scope_id q2 \<longrightarrow>
       bq_completeness q1 = Complete \<and> bq_writer_id q1 = bq_writer_id q2)"
proof -
  note facts = publish_run_new [OF assms]
  have unit: "\<exists>u. hm_get (ba_by_scope st) (bx_scope_id r) = Some u \<and> bx_h1_unit_id r = Some (br_h1_unit_id u) \<and>
      bx_input_digest r = Some (br_input_digest u)" if "r \<in> set rs" "bx_authoritative r" for r
    using facts(2) that unfolding agrees_def by blast
  have "(bx_h1_unit_id r1 = bx_h1_unit_id r2 \<longleftrightarrow> bx_scope_id r1 = bx_scope_id r2) \<and>
       (bx_scope_id r1 = bx_scope_id r2 \<longrightarrow> bx_input_digest r1 = bx_input_digest r2)"
    if r: "r1 \<in> set rs" "r2 \<in> set rs" "bx_authoritative r1" "bx_authoritative r2" for r1 r2
  proof -
    obtain u1 u2 where u: "hm_get (ba_by_scope st) (bx_scope_id r1) = Some u1" "bx_h1_unit_id r1 = Some (br_h1_unit_id u1)"
      "bx_input_digest r1 = Some (br_input_digest u1)" "hm_get (ba_by_scope st) (bx_scope_id r2) = Some u2"
      "bx_h1_unit_id r2 = Some (br_h1_unit_id u2)" "bx_input_digest r2 = Some (br_input_digest u2)"
      using unit [OF r(1,3)] unit [OF r(2,4)] by blast
    with publish_inv_unit [OF facts(1) u(1,4)] show ?thesis by auto
  qed
  moreover have "bq_completeness q1 = Complete \<and> bq_writer_id q1 = bq_writer_id q2"
    if z: "(PublishH1 q1, r1) \<in> set (zip calls rs)" "(PublishH1 q2, r2) \<in> set (zip calls rs)"
      "bx_authoritative r1" "bx_authoritative r2" "bq_scope_id q1 = bq_scope_id q2" for q1 q2 r1 r2
  proof -
    have "writer_agrees st (PublishH1 q1) r1" "writer_agrees st (PublishH1 q2) r2"
      using facts(3) z(1,2) by (auto simp: list_all2_iff)
    with z(3-5) show ?thesis by (auto simp: writer_agrees_def)
  qed
  moreover have "bx_authoritative r = is_authoritative (bx_outcome r) \<and> publication_has_authority r = bx_authoritative r"
    if "r \<in> set rs" for r
    using facts(2) that by (simp add: agrees_def publication_has_authority_def)
  ultimately show ?thesis
    using facts(4,5) by (intro conjI ballI allI impI) (simp, simp, blast, blast, blast, blast, clarify, (metis+)?)
qed

text \<open>Publishing is idempotent for good: once a request was published, the identical request is answered
as a duplicate with the same unit at any later time, without a change of state.\<close>

theorem publish_retry_is_duplicate:
  assumes "publish_run ops calls (publish_new ledger) = Some (st, rs)"
    and "publish ops st q = Some (st1, r1)" "bx_outcome r1 = PB_Published"
    and "publish_run ops calls' st1 = Some (st2, rs')"
  shows "\<exists>r2. publish ops st2 q = Some (st2, r2) \<and> bx_outcome r2 = PB_Duplicate \<and> bx_authoritative r2 \<and>
    bx_h1_unit_id r2 = bx_h1_unit_id r1"
proof -
  have step: "publish_step ops (PublishH1 q) st = Some (st1, r1)" using assms(2) by simp
  from publish_run_new(1) [OF assms(1)] step show ?thesis
  proof (cases rule: publish_step_cases)
    case (published q' ledger')
    then have [simp]: "q' = q" by simp
    let ?u = "unit_record q (Suc (ba_next_unit_seq st))"
    have r1: "bx_h1_unit_id r1 = Some (br_h1_unit_id ?u)" using published(5) unfolding publish_first_eq by auto
    have st1: "publish_inv st1" "hm_get (ba_by_operation st1) (bq_operation_id q) = Some ?u"
      using with_unit_inv [OF publish_run_new(1) [OF assms(1)] published(3,4)] published(8)
      by (auto simp: with_unit_def Let_def)
    then have "hm_get (ba_by_operation st2) (bq_operation_id q) = Some ?u"
      using publish_run_facts [OF assms(4)] by (auto simp: extends_def)
    with published(2) r1 show ?thesis
      by (simp add: publish_def is_complete_def handle_existing_operation_def)
  next
    case same
    with assms(3) show ?thesis by simp
  qed
qed

text \<open>On the in-memory ledger the service never panics within its counter, and afterwards the ledger
answers every query by operation, by scope, by writer and for the count as the service's own registry does.\<close>

theorem publication_memory_total:
  assumes "length calls < u64_limit"
  shows "\<exists>st rs. publish_run publication_memory_ops calls (publish_new publication_memory_empty) = Some (st, rs) \<and>
    memory_authoritative_count (ba_ledger st) = authoritative_count st \<and>
    (\<forall>op. hm_get (lm_by_operation (ba_ledger st)) op = hm_get (ba_by_operation st) op) \<and>
    (\<forall>s. memory_authoritative (ba_ledger st) s = hm_get (ba_by_scope st) s) \<and>
    (\<forall>s. hm_get (lm_writer_for_scope (ba_ledger st)) s = hm_get (ba_writer_for_scope st) s)"
proof -
  have "memory_publication.mirrors (publish_new publication_memory_empty)"
    unfolding memory_publication.mirrors_def
    by (simp add: publish_new_def publication_memory_empty_def memory_wf_def publication_memory_ops_def
        memory_authoritative_def memory_authoritative_count_def authoritative_count_def)
  moreover have "ba_next_unit_seq (publish_new publication_memory_empty) + length calls < u64_limit"
    using assms by (simp add: publish_new_def)
  ultimately obtain st rs where "publish_run publication_memory_ops calls (publish_new publication_memory_empty) = Some (st, rs)"
    "memory_publication.mirrors st"
    using memory_publication.run_mirrors [OF _ publish_inv_new] by blast
  then show ?thesis
    unfolding memory_publication.mirrors_def
    by (intro exI [of _ st] exI [of _ rs]) (simp add: publication_memory_ops_def)
qed

text \<open>\<open>cancel\<close> does not look at its writer: whoever cancels a published operation gets a result in his own
name that is authoritative and carries publication authority for the other writer's unit.\<close>

theorem cancel_hands_out_authority:
  assumes "publish_run ops calls (publish_new ledger) = Some (st, rs)"
    and "publish ops st q = Some (st1, r1)" "bx_outcome r1 = PB_Published"
  shows "\<exists>r2. publish_cancel st1 (bq_operation_id q) other = Some (st1, r2) \<and> bx_writer_id r2 = other \<and>
    bx_authoritative r2 \<and> publication_has_authority r2 \<and> bx_h1_unit_id r2 = bx_h1_unit_id r1"
proof -
  have step: "publish_step ops (PublishH1 q) st = Some (st1, r1)" using assms(2) by simp
  from publish_run_new(1) [OF assms(1)] step show ?thesis
  proof (cases rule: publish_step_cases)
    case (published q' ledger')
    then show ?thesis
      unfolding publish_first_eq
      by (auto simp: publish_cancel_def with_unit_def Let_def publication_has_authority_def)
  next
    case same
    with assms(3) show ?thesis by simp
  qed
qed

text \<open>
  An operation that was answered as a duplicate of its scope's unit is not recorded: it can be used again
  for another scope, and then its own retry is refused as a conflict.
\<close>

definition sample_publish :: "string \<Rightarrow> string \<Rightarrow> publish_request" where
  "sample_publish op scope = \<lparr>bq_operation_id = op, bq_writer_id = ''w1'', bq_scope_id = scope,
     bq_cutoff_id = ''c1'', bq_rule_version = ''v1'', bq_input_digest = ''d1'', bq_completeness = Complete\<rparr>"

lemma publish_duplicate_not_recorded:
  "map_option (map bx_outcome \<circ> snd) (publish_run publication_memory_ops
     [PublishH1 (sample_publish ''o1'' ''s1''), PublishH1 (sample_publish ''o2'' ''s1''),
      PublishH1 (sample_publish ''o2'' ''s2''), PublishH1 (sample_publish ''o2'' ''s1'')]
     (publish_new publication_memory_empty)) =
   Some [PB_Published, PB_Duplicate, PB_Published, PB_Conflict]"
  by code_simp

section \<open>Witnesses\<close>

lemma publish_example:
  "\<exists>st r. publish publication_memory_ops (publish_new publication_memory_empty) (sample_publish ''o1'' ''s1'') = Some (st, r) \<and>
     bx_outcome r = PB_Published"
proof -
  have "map_option (bx_outcome \<circ> snd)
      (publish publication_memory_ops (publish_new publication_memory_empty) (sample_publish ''o1'' ''s1'')) = Some PB_Published"
    by code_simp
  then show ?thesis by auto
qed

theorem publication_single_authority_witness:
  "\<exists>st rs. publish_run publication_memory_ops [PublishH1 (sample_publish ''o1'' ''s1''), CancelH1 ''o1'' ''w2'']
      (publish_new publication_memory_empty) = Some (st, rs) \<and> authoritative_count st = length (published rs)"
proof -
  have "publish_run publication_memory_ops [PublishH1 (sample_publish ''o1'' ''s1''), CancelH1 ''o1'' ''w2'']
      (publish_new publication_memory_empty) \<noteq> None" by code_simp
  then obtain st rs where run: "publish_run publication_memory_ops
      [PublishH1 (sample_publish ''o1'' ''s1''), CancelH1 ''o1'' ''w2''] (publish_new publication_memory_empty) = Some (st, rs)"
    by auto
  with publication_single_authority [OF run] show ?thesis by blast
qed

theorem publish_retry_is_duplicate_witness:
  "\<exists>st r. publish publication_memory_ops st (sample_publish ''o1'' ''s1'') = Some (st, r) \<and> bx_outcome r = PB_Duplicate"
proof -
  obtain st r where p: "publish publication_memory_ops (publish_new publication_memory_empty) (sample_publish ''o1'' ''s1'') = Some (st, r)"
    "bx_outcome r = PB_Published" using publish_example by blast
  have "publish_run publication_memory_ops [] (publish_new publication_memory_empty) = Some (publish_new publication_memory_empty, [])"
    "publish_run publication_memory_ops [] st = Some (st, [])" by simp_all
  from publish_retry_is_duplicate [OF this(1) p this(2)] show ?thesis by blast
qed

theorem publication_memory_total_witness:
  "\<exists>st rs. publish_run publication_memory_ops [PublishH1 (sample_publish ''o1'' ''s1''), FailH1 (sample_publish ''o2'' ''s2'')]
     (publish_new publication_memory_empty) = Some (st, rs)"
proof -
  have "length [PublishH1 (sample_publish ''o1'' ''s1''), FailH1 (sample_publish ''o2'' ''s2'')] < u64_limit"
    by (simp add: u64_limit_def)
  from publication_memory_total [OF this] show ?thesis by blast
qed

theorem cancel_hands_out_authority_witness:
  "\<exists>(st :: publication_memory publish_service) r. publish_cancel st ''o1'' ''w2'' = Some (st, r) \<and> bx_writer_id r = ''w2'' \<and> publication_has_authority r"
proof -
  obtain st r where p: "publish publication_memory_ops (publish_new publication_memory_empty) (sample_publish ''o1'' ''s1'') = Some (st, r)"
    "bx_outcome r = PB_Published" using publish_example by blast
  have "publish_run publication_memory_ops [] (publish_new publication_memory_empty) = Some (publish_new publication_memory_empty, [])"
    by simp
  from cancel_hands_out_authority [OF this p, of "''w2''"] show ?thesis by (auto simp: sample_publish_def)
qed

end
