(* ===== verification/LN_Work.thy ===== *)
theory LN_Work
  imports LN_Ids
begin

text \<open>
  \<open>crates/ln-work\<close>: the processing state of work units. The transition table (\<open>next_state\<close>, \<open>domain.rs\<close>),
  the service \<open>TransitionWorkState\<close> with \<open>open\<close> and \<open>transition\<close> (\<open>application.rs\<close>) over a port that reads
  domain evidence, and the fixed and the mutating evidence (\<open>adapters.rs\<close>). The mutating adapter counts its
  reads in an atomic, so a read of the port is a step of its state; a panic is \<open>None\<close>.
\<close>

section \<open>Domain\<close>

definition WORK_POLICY_VERSION :: string where
  "WORK_POLICY_VERSION = ''hc10:work-state:v1''"

datatype work_state =
  WS_Requested | WS_Running | WS_Cancelling | WS_Cancelled | WS_Failed | WS_Committed | WS_Stale

fun work_state_as_str :: "work_state \<Rightarrow> string" where
  "work_state_as_str WS_Requested = ''requested''"
| "work_state_as_str WS_Running = ''running''"
| "work_state_as_str WS_Cancelling = ''cancelling''"
| "work_state_as_str WS_Cancelled = ''cancelled''"
| "work_state_as_str WS_Failed = ''failed''"
| "work_state_as_str WS_Committed = ''committed''"
| "work_state_as_str WS_Stale = ''stale''"

datatype work_event =
  WE_Start | WE_Cancel | WE_CancelAck | WE_Resume | WE_Fail | WE_Commit | WE_MarkStale

fun work_event_as_str :: "work_event \<Rightarrow> string" where
  "work_event_as_str WE_Start = ''start''"
| "work_event_as_str WE_Cancel = ''cancel''"
| "work_event_as_str WE_CancelAck = ''cancel_ack''"
| "work_event_as_str WE_Resume = ''resume''"
| "work_event_as_str WE_Fail = ''fail''"
| "work_event_as_str WE_Commit = ''commit''"
| "work_event_as_str WE_MarkStale = ''mark_stale''"

datatype transition_outcome =
  TO_Transitioned | TO_InvalidTransition | TO_StaleCheckpoint | TO_RetryExhausted | TO_LegalMutationRejected

fun transition_as_str :: "transition_outcome \<Rightarrow> string" where
  "transition_as_str TO_Transitioned = ''transitioned''"
| "transition_as_str TO_InvalidTransition = ''invalid-transition''"
| "transition_as_str TO_StaleCheckpoint = ''stale''"
| "transition_as_str TO_RetryExhausted = ''retry-exhausted''"
| "transition_as_str TO_LegalMutationRejected = ''legal-mutation-rejected''"

datatype legal_mapping_attempt =
  NoMapping | ProgressAsVerified | ProgressAsCurrent | ProgressAsLegalState | MutateLifecycle |
  MutateClock | MutateIdentity | MutateRelation | MutateAuthority

fun mapping_as_str :: "legal_mapping_attempt \<Rightarrow> string" where
  "mapping_as_str NoMapping = ''none''"
| "mapping_as_str ProgressAsVerified = ''progress_as_verified''"
| "mapping_as_str ProgressAsCurrent = ''progress_as_current''"
| "mapping_as_str ProgressAsLegalState = ''progress_as_legal_state''"
| "mapping_as_str MutateLifecycle = ''mutate_lifecycle''"
| "mapping_as_str MutateClock = ''mutate_clock''"
| "mapping_as_str MutateIdentity = ''mutate_identity''"
| "mapping_as_str MutateRelation = ''mutate_relation''"
| "mapping_as_str MutateAuthority = ''mutate_authority''"

definition mapping_is_forbidden :: "legal_mapping_attempt \<Rightarrow> bool" where
  "mapping_is_forbidden m = (m \<noteq> NoMapping)"

record transition_request =
  wq_work_unit_id :: string
  wq_event :: work_event
  wq_expected_checkpoint :: "string option"
  wq_legal_mapping :: legal_mapping_attempt

record transition_trace =
  wt_policy_version :: string
  wt_work_unit_id :: string
  wt_event :: work_event
  wt_from_state :: work_state
  wt_to_state :: work_state
  wt_prior_checkpoint :: string
  wt_new_checkpoint :: string
  wt_domain_snapshot_before :: string
  wt_domain_snapshot_after :: string
  wt_publication_snapshot_before :: string
  wt_publication_snapshot_after :: string
  wt_domain_unchanged :: bool
  wt_publication_unchanged :: bool
  wt_legal_mapping_attempt :: legal_mapping_attempt
  wt_legal_mapping_applied :: bool

record transition_result =
  wx_outcome :: transition_outcome
  wx_state :: work_state
  wx_checkpoint :: string
  wx_domain_snapshot :: string
  wx_publication_snapshot :: string
  wx_domain_unchanged :: bool
  wx_publication_unchanged :: bool
  wx_legal_mapping_applied :: bool
  wx_trace :: transition_trace

fun next_state :: "work_state \<Rightarrow> work_event \<Rightarrow> work_state option" where
  "next_state WS_Requested WE_Start = Some WS_Running"
| "next_state WS_Requested WE_Cancel = Some WS_Cancelling"
| "next_state WS_Requested WE_Fail = Some WS_Failed"
| "next_state WS_Running WE_Cancel = Some WS_Cancelling"
| "next_state WS_Running WE_Fail = Some WS_Failed"
| "next_state WS_Running WE_Commit = Some WS_Committed"
| "next_state WS_Running WE_MarkStale = Some WS_Stale"
| "next_state WS_Cancelling WE_CancelAck = Some WS_Cancelled"
| "next_state WS_Cancelling WE_Fail = Some WS_Failed"
| "next_state WS_Cancelled WE_Resume = Some WS_Running"
| "next_state WS_Cancelled WE_MarkStale = Some WS_Stale"
| "next_state WS_Failed WE_Resume = Some WS_Running"
| "next_state WS_Failed WE_MarkStale = Some WS_Stale"
| "next_state WS_Stale WE_Resume = Some WS_Running"
| "next_state WS_Stale WE_Cancel = Some WS_Cancelling"
| "next_state WS_Committed WE_MarkStale = Some WS_Stale"
| "next_state _ _ = None"

section \<open>The service\<close>

record 'e domain_evidence_ops =
  de_domain_snapshot :: "'e \<Rightarrow> string \<Rightarrow> ('e \<times> string) option"
  de_publication_snapshot :: "'e \<Rightarrow> string \<Rightarrow> ('e \<times> string) option"

record work_record =
  wr_state :: work_state
  wr_checkpoint :: string
  wr_domain_snapshot :: string
  wr_publication_snapshot :: string
  wr_checkpoint_seq :: nat

record 'e work_service =
  wk_evidence :: 'e
  wk_units :: "(string, work_record) hashmap"

definition work_new :: "'e \<Rightarrow> 'e work_service" where
  "work_new evidence = \<lparr>wk_evidence = evidence, wk_units = []\<rparr>"

definition result_for ::
    "string \<Rightarrow> work_event \<Rightarrow> transition_outcome \<Rightarrow> work_state \<Rightarrow> work_state \<Rightarrow> work_record \<Rightarrow> work_record \<Rightarrow>
     legal_mapping_attempt \<Rightarrow> bool \<Rightarrow> string \<Rightarrow> string \<Rightarrow> transition_result" where
  "result_for work_unit_id event outcome from_state to_state before after legal_mapping legal_mapping_applied
       prior_checkpoint new_checkpoint =
     (let domain_unchanged = (wr_domain_snapshot before = wr_domain_snapshot after);
          publication_unchanged = (wr_publication_snapshot before = wr_publication_snapshot after)
      in \<lparr>wx_outcome = outcome, wx_state = wr_state after, wx_checkpoint = wr_checkpoint after,
          wx_domain_snapshot = wr_domain_snapshot after,
          wx_publication_snapshot = wr_publication_snapshot after,
          wx_domain_unchanged = domain_unchanged, wx_publication_unchanged = publication_unchanged,
          wx_legal_mapping_applied = legal_mapping_applied,
          wx_trace = \<lparr>wt_policy_version = WORK_POLICY_VERSION, wt_work_unit_id = work_unit_id,
            wt_event = event, wt_from_state = from_state, wt_to_state = to_state,
            wt_prior_checkpoint = prior_checkpoint, wt_new_checkpoint = new_checkpoint,
            wt_domain_snapshot_before = wr_domain_snapshot before,
            wt_domain_snapshot_after = wr_domain_snapshot after,
            wt_publication_snapshot_before = wr_publication_snapshot before,
            wt_publication_snapshot_after = wr_publication_snapshot after,
            wt_domain_unchanged = domain_unchanged, wt_publication_unchanged = publication_unchanged,
            wt_legal_mapping_attempt = legal_mapping, wt_legal_mapping_applied = legal_mapping_applied\<rparr>\<rparr>)"

definition work_open ::
    "'e domain_evidence_ops \<Rightarrow> 'e work_service \<Rightarrow> string \<Rightarrow> ('e work_service \<times> transition_result) option" where
  "work_open ops st work_unit_id = do {
     (ev, domain) \<leftarrow> de_domain_snapshot ops (wk_evidence st) work_unit_id;
     (ev, publication) \<leftarrow> de_publication_snapshot ops ev work_unit_id;
     checkpoint \<leftarrow> expect (parse_id ''checkpoint id'' ''cp:0'' MAX_ID_LEN);
     let record = \<lparr>wr_state = WS_Requested, wr_checkpoint = checkpoint, wr_domain_snapshot = domain,
       wr_publication_snapshot = publication, wr_checkpoint_seq = 0\<rparr>;
     Some (\<lparr>wk_evidence = ev, wk_units = hm_insert work_unit_id record (wk_units st)\<rparr>,
           result_for work_unit_id WE_Start TO_Transitioned WS_Requested WS_Requested record record
             NoMapping False checkpoint checkpoint) }"

definition state_of :: "'e work_service \<Rightarrow> string \<Rightarrow> work_state option" where
  "state_of st work_unit_id = map_option wr_state (hm_get (wk_units st) work_unit_id)"

definition domain_snapshot_of :: "'e work_service \<Rightarrow> string \<Rightarrow> string option" where
  "domain_snapshot_of st work_unit_id = map_option wr_domain_snapshot (hm_get (wk_units st) work_unit_id)"

definition publication_snapshot_of :: "'e work_service \<Rightarrow> string \<Rightarrow> string option" where
  "publication_snapshot_of st work_unit_id = map_option wr_publication_snapshot (hm_get (wk_units st) work_unit_id)"

text \<open>The answer about an unknown unit.\<close>

definition unknown_unit :: "transition_request \<Rightarrow> transition_result option" where
  "unknown_unit request = do {
     empty_domain \<leftarrow> expect (parse_id ''domain snapshot id'' ''domain:unknown-unit'' MAX_ID_LEN);
     empty_pub \<leftarrow> expect (parse_id ''publication snapshot id'' ''publication:unknown-unit'' MAX_ID_LEN);
     cp \<leftarrow> expect (parse_id ''checkpoint id'' ''cp:none'' MAX_ID_LEN);
     Some \<lparr>wx_outcome = TO_InvalidTransition, wx_state = WS_Failed, wx_checkpoint = cp,
           wx_domain_snapshot = empty_domain, wx_publication_snapshot = empty_pub,
           wx_domain_unchanged = True, wx_publication_unchanged = True, wx_legal_mapping_applied = False,
           wx_trace = \<lparr>wt_policy_version = WORK_POLICY_VERSION, wt_work_unit_id = wq_work_unit_id request,
             wt_event = wq_event request, wt_from_state = WS_Failed, wt_to_state = WS_Failed,
             wt_prior_checkpoint = cp, wt_new_checkpoint = cp,
             wt_domain_snapshot_before = empty_domain, wt_domain_snapshot_after = empty_domain,
             wt_publication_snapshot_before = empty_pub, wt_publication_snapshot_after = empty_pub,
             wt_domain_unchanged = True, wt_publication_unchanged = True,
             wt_legal_mapping_attempt = wq_legal_mapping request, wt_legal_mapping_applied = False\<rparr>\<rparr> }"

definition checkpoint_name :: "nat \<Rightarrow> string" where
  "checkpoint_name n = ''cp:'' @ show_nat n"

definition transition ::
    "'e domain_evidence_ops \<Rightarrow> 'e work_service \<Rightarrow> transition_request \<Rightarrow>
     ('e work_service \<times> transition_result) option" where
  "transition ops st request =
     (case hm_get (wk_units st) (wq_work_unit_id request) of
        None \<Rightarrow> map_option (\<lambda>r. (st, r)) (unknown_unit request)
      | Some prior \<Rightarrow>
          let refuse = (\<lambda>outcome. result_for (wq_work_unit_id request) (wq_event request) outcome (wr_state prior)
                (wr_state prior) prior prior (wq_legal_mapping request) False (wr_checkpoint prior) (wr_checkpoint prior))
          in if (case wq_expected_checkpoint request of None \<Rightarrow> False | Some expected \<Rightarrow> expected \<noteq> wr_checkpoint prior)
               then Some (st, refuse TO_StaleCheckpoint)
             else if mapping_is_forbidden (wq_legal_mapping request)
               then do { (ev, _) \<leftarrow> de_domain_snapshot ops (wk_evidence st) (wq_work_unit_id request);
                         Some (st\<lparr>wk_evidence := ev\<rparr>, refuse TO_LegalMutationRejected) }
             else case next_state (wr_state prior) (wq_event request) of
               None \<Rightarrow> Some (st, refuse TO_InvalidTransition)
             | Some next \<Rightarrow> do {
                 new_seq \<leftarrow> u64_succ (wr_checkpoint_seq prior);
                 new_checkpoint \<leftarrow> expect (parse_id ''checkpoint id'' (checkpoint_name new_seq) MAX_ID_LEN);
                 let updated = \<lparr>wr_state = next, wr_checkpoint = new_checkpoint,
                   wr_domain_snapshot = wr_domain_snapshot prior,
                   wr_publication_snapshot = wr_publication_snapshot prior, wr_checkpoint_seq = new_seq\<rparr>;
                 (ev, _) \<leftarrow> de_domain_snapshot ops (wk_evidence st) (wq_work_unit_id request);
                 Some (\<lparr>wk_evidence = ev, wk_units = hm_insert (wq_work_unit_id request) updated (wk_units st)\<rparr>,
                       result_for (wq_work_unit_id request) (wq_event request) TO_Transitioned (wr_state prior) next
                         prior updated (wq_legal_mapping request) False (wr_checkpoint prior) new_checkpoint) })"

datatype work_call = OpenUnit string | TransitionUnit transition_request

fun work_step :: "'e domain_evidence_ops \<Rightarrow> work_call \<Rightarrow> 'e work_service \<Rightarrow> ('e work_service \<times> transition_result) option" where
  "work_step ops (OpenUnit u) st = work_open ops st u"
| "work_step ops (TransitionUnit q) st = transition ops st q"

fun work_run ::
    "'e domain_evidence_ops \<Rightarrow> work_call list \<Rightarrow> 'e work_service \<Rightarrow> ('e work_service \<times> transition_result list) option" where
  "work_run ops [] st = Some (st, [])"
| "work_run ops (call # calls) st =
     do { (st1, r) \<leftarrow> work_step ops call st;
          (st2, rs) \<leftarrow> work_run ops calls st1;
          Some (st2, r # rs) }"

section \<open>Evidence adapters\<close>

type_synonym fixed_evidence = "(string, string \<times> string) hashmap"

definition fixed_with_unit :: "string \<Rightarrow> string \<Rightarrow> string \<Rightarrow> fixed_evidence" where
  "fixed_with_unit work_unit domain publication = hm_insert work_unit (domain, publication) []"

definition fixed_evidence_ops :: "fixed_evidence domain_evidence_ops" where
  "fixed_evidence_ops =
     \<lparr>de_domain_snapshot = (\<lambda>ev u. case hm_get ev u of
        Some (domain, _) \<Rightarrow> Some (ev, domain)
      | None \<Rightarrow> do { d \<leftarrow> expect (parse_id ''domain snapshot id'' ''domain:missing'' MAX_ID_LEN); Some (ev, d) }),
      de_publication_snapshot = (\<lambda>ev u. case hm_get ev u of
        Some (_, publication) \<Rightarrow> Some (ev, publication)
      | None \<Rightarrow> do { p \<leftarrow> expect (parse_id ''publication snapshot id'' ''publication:missing'' MAX_ID_LEN); Some (ev, p) })\<rparr>"

record mutating_evidence =
  mv_work_unit :: string
  mv_base_domain :: string
  mv_base_publication :: string
  mv_read_count :: nat
  mv_claimed_mutations :: nat

definition mutating_new :: "string \<Rightarrow> string \<Rightarrow> string \<Rightarrow> mutating_evidence" where
  "mutating_new work_unit domain publication = \<lparr>mv_work_unit = work_unit, mv_base_domain = domain,
     mv_base_publication = publication, mv_read_count = 0, mv_claimed_mutations = 0\<rparr>"

text \<open>\<open>fetch_add\<close> wraps.\<close>

definition claim_mutation :: "mutating_evidence \<Rightarrow> mutating_evidence" where
  "claim_mutation ev = ev\<lparr>mv_claimed_mutations := Suc (mv_claimed_mutations ev) mod u64_limit\<rparr>"

definition mutating_evidence_ops :: "mutating_evidence domain_evidence_ops" where
  "mutating_evidence_ops =
     \<lparr>de_domain_snapshot = (\<lambda>ev u.
        if u \<noteq> mv_work_unit ev
        then do { d \<leftarrow> expect (parse_id ''domain snapshot id'' ''domain:other'' MAX_ID_LEN); Some (ev, d) }
        else
          let n = mv_read_count ev; ev = ev\<lparr>mv_read_count := Suc n mod u64_limit\<rparr>
          in if n = 0 then Some (ev, mv_base_domain ev)
             else do {
               d \<leftarrow> expect (parse_id ''domain snapshot id'' (mv_base_domain ev @ '':mutated:'' @ show_nat n) MAX_ID_LEN);
               Some (ev, d) }),
      de_publication_snapshot = (\<lambda>ev u.
        if u \<noteq> mv_work_unit ev
        then do { p \<leftarrow> expect (parse_id ''publication snapshot id'' ''publication:other'' MAX_ID_LEN); Some (ev, p) }
        else Some (ev, mv_base_publication ev))\<rparr>"

section \<open>Histories\<close>

text \<open>The table as a step relation, and a history as a path in it.\<close>

inductive work_path :: "work_state \<Rightarrow> work_event list \<Rightarrow> work_state \<Rightarrow> bool" where
  path_nil: "work_path s [] s"
| path_cons: "next_state s e = Some s1 \<Longrightarrow> work_path s1 es s2 \<Longrightarrow> work_path s (e # es) s2"

inductive_simps work_path_Nil [simp]: "work_path s [] t"
inductive_simps work_path_Cons [simp]: "work_path s (e # es) t"

lemma work_path_append: "work_path s es t \<Longrightarrow> work_path t fs u \<Longrightarrow> work_path s (es @ fs) u"
  by (induction rule: work_path.induct) auto

text \<open>The accepted requests of one unit in a run, with their results.\<close>

fun accepted :: "string \<Rightarrow> work_call list \<Rightarrow> transition_result list \<Rightarrow> (transition_request \<times> transition_result) list" where
  "accepted u (TransitionUnit q # calls) (r # rs) =
     (if wq_work_unit_id q = u \<and> wx_outcome r = TO_Transitioned then (q, r) # accepted u calls rs
      else accepted u calls rs)"
| "accepted u (OpenUnit v # calls) (r # rs) = accepted u calls rs"
| "accepted u _ _ = []"

abbreviation accepted_events :: "string \<Rightarrow> work_call list \<Rightarrow> transition_result list \<Rightarrow> work_event list" where
  "accepted_events u calls rs \<equiv> map (wq_event \<circ> fst) (accepted u calls rs)"

definition numbered :: "work_record \<Rightarrow> bool" where
  "numbered rec = (wr_checkpoint rec = checkpoint_name (wr_checkpoint_seq rec))"

lemma checkpoint_name_inj [simp]: "checkpoint_name a = checkpoint_name b \<longleftrightarrow> a = b"
  by (simp add: checkpoint_name_def)

lemma checkpoint_name_valid: "n < u64_limit \<Longrightarrow> valid_id MAX_ID_LEN (checkpoint_name n)"
  unfolding checkpoint_name_def
  by (rule valid_id_counter) (simp_all add: id_char_def is_ascii_alphanumeric_def less_eq_char_def MAX_ID_LEN_def)

lemma checkpoint_name_0: "checkpoint_name 0 = ''cp:0''"
  by code_simp

lemma result_for_fields [simp]:
  "wx_outcome (result_for u e out f s b a m ap p n) = out"
  "wx_checkpoint (result_for u e out f s b a m ap p n) = wr_checkpoint a"
  "wx_domain_snapshot (result_for u e out f s b a m ap p n) = wr_domain_snapshot a"
  "wx_publication_snapshot (result_for u e out f s b a m ap p n) = wr_publication_snapshot a"
  "wx_state (result_for u e out f s b a m ap p n) = wr_state a"
  "wx_legal_mapping_applied (result_for u e out f s b a m ap p n) = ap"
  "wx_domain_unchanged (result_for u e out f s b a m ap p n) = (wr_domain_snapshot b = wr_domain_snapshot a)"
  "wx_publication_unchanged (result_for u e out f s b a m ap p n) = (wr_publication_snapshot b = wr_publication_snapshot a)"
  "wt_prior_checkpoint (wx_trace (result_for u e out f s b a m ap p n)) = p"
  by (simp_all add: result_for_def Let_def)

text \<open>A transition of a known unit is accepted along the table, or changes no unit.\<close>

definition advanced :: "work_record \<Rightarrow> work_state \<Rightarrow> work_record" where
  "advanced rec s = rec\<lparr>wr_state := s, wr_checkpoint := checkpoint_name (Suc (wr_checkpoint_seq rec)),
     wr_checkpoint_seq := Suc (wr_checkpoint_seq rec)\<rparr>"

lemma advanced_fields [simp]:
  "wr_state (advanced rec s) = s" "wr_checkpoint_seq (advanced rec s) = Suc (wr_checkpoint_seq rec)"
  "wr_domain_snapshot (advanced rec s) = wr_domain_snapshot rec"
  "wr_publication_snapshot (advanced rec s) = wr_publication_snapshot rec"
  "numbered (advanced rec s)" "wr_checkpoint (advanced rec s) = checkpoint_name (Suc (wr_checkpoint_seq rec))"
  by (simp_all add: advanced_def numbered_def)

lemma unknown_unit_result:
  "unknown_unit q = Some r \<Longrightarrow> wx_outcome r = TO_InvalidTransition \<and> \<not> wx_legal_mapping_applied r \<and>
     wx_domain_unchanged r \<and> wx_publication_unchanged r"
  unfolding unknown_unit_def bind_eq_Some_conv by (elim exE conjE) (simp, elim subst, simp)

lemma transition_cases [consumes 1, case_names accepted refused unknown]:
  assumes "transition ops st q = Some (st', r)"
  obtains rec s where "hm_get (wk_units st) (wq_work_unit_id q) = Some rec"
      "next_state (wr_state rec) (wq_event q) = Some s" "wx_outcome r = TO_Transitioned"
      "wk_units st' = hm_insert (wq_work_unit_id q) (advanced rec s) (wk_units st)"
      "\<forall>c. wq_expected_checkpoint q = Some c \<longrightarrow> c = wr_checkpoint rec"
      "wt_prior_checkpoint (wx_trace r) = wr_checkpoint rec"
      "wx_domain_snapshot r = wr_domain_snapshot rec" "wx_publication_snapshot r = wr_publication_snapshot rec"
      "\<not> wx_legal_mapping_applied r" "wx_domain_unchanged r" "wx_publication_unchanged r"
      "wq_legal_mapping q = NoMapping"
  | rec where "hm_get (wk_units st) (wq_work_unit_id q) = Some rec" "wk_units st' = wk_units st"
      "wx_outcome r \<in> {TO_StaleCheckpoint, TO_LegalMutationRejected, TO_InvalidTransition}"
      "wx_domain_snapshot r = wr_domain_snapshot rec" "wx_publication_snapshot r = wr_publication_snapshot rec"
      "\<not> wx_legal_mapping_applied r" "wx_domain_unchanged r" "wx_publication_unchanged r"
  | "hm_get (wk_units st) (wq_work_unit_id q) = None" "wk_units st' = wk_units st"
      "wx_outcome r = TO_InvalidTransition" "\<not> wx_legal_mapping_applied r" "wx_domain_unchanged r" "wx_publication_unchanged r"
proof (cases "hm_get (wk_units st) (wq_work_unit_id q)")
  case None
  then have "st' = st" "unknown_unit q = Some r" using assms by (auto simp: transition_def)
  with None unknown_unit_result show ?thesis by (intro that(3)) simp_all
next
  case (Some rec)
  let ?stale = "case wq_expected_checkpoint q of None \<Rightarrow> False | Some c \<Rightarrow> c \<noteq> wr_checkpoint rec"
  show ?thesis
  proof (cases "?stale \<or> mapping_is_forbidden (wq_legal_mapping q) \<or> next_state (wr_state rec) (wq_event q) = None")
    case True
    with assms Some that(2) [of rec] show ?thesis
      by (auto simp: transition_def Let_def bind_eq_Some_conv split: if_splits)
  next
    case False
    then obtain s where s: "next_state (wr_state rec) (wq_event q) = Some s" by auto
    from False assms Some s obtain seq ev d where
      seq: "seq = Suc (wr_checkpoint_seq rec)" "seq < u64_limit"
      and st': "wk_units st' = hm_insert (wq_work_unit_id q)
        \<lparr>wr_state = s, wr_checkpoint = checkpoint_name seq, wr_domain_snapshot = wr_domain_snapshot rec,
         wr_publication_snapshot = wr_publication_snapshot rec, wr_checkpoint_seq = seq\<rparr> (wk_units st)"
      and r: "r = result_for (wq_work_unit_id q) (wq_event q) TO_Transitioned (wr_state rec) s rec
        \<lparr>wr_state = s, wr_checkpoint = checkpoint_name seq, wr_domain_snapshot = wr_domain_snapshot rec,
         wr_publication_snapshot = wr_publication_snapshot rec, wr_checkpoint_seq = seq\<rparr>
        (wq_legal_mapping q) False (wr_checkpoint rec) (checkpoint_name seq)"
      by (auto simp: transition_def Let_def bind_eq_Some_conv u64_succ_eq_Some parse_id_eq_Inr)
    have "\<lparr>wr_state = s, wr_checkpoint = checkpoint_name seq, wr_domain_snapshot = wr_domain_snapshot rec,
         wr_publication_snapshot = wr_publication_snapshot rec, wr_checkpoint_seq = seq\<rparr> = advanced rec s"
      by (cases rec) (simp add: advanced_def seq(1))
    with Some s False st' r show ?thesis
      by (intro that(1) [of rec s]) (auto simp: mapping_is_forbidden_def split: option.splits)
  qed
qed

lemma work_run_history:
  "work_run ops calls st = Some (st', rs) \<Longrightarrow> hm_get (wk_units st) u = Some rec \<Longrightarrow> OpenUnit u \<notin> set calls \<Longrightarrow>
   numbered rec \<Longrightarrow>
     \<exists>rec'. hm_get (wk_units st') u = Some rec' \<and> numbered rec' \<and>
       work_path (wr_state rec) (accepted_events u calls rs) (wr_state rec') \<and>
       wr_checkpoint_seq rec' = wr_checkpoint_seq rec + length (accepted u calls rs) \<and>
       wr_domain_snapshot rec' = wr_domain_snapshot rec \<and> wr_publication_snapshot rec' = wr_publication_snapshot rec \<and>
       map (wt_prior_checkpoint \<circ> wx_trace \<circ> snd) (accepted u calls rs) =
         map checkpoint_name [wr_checkpoint_seq rec..<wr_checkpoint_seq rec'] \<and>
       (\<forall>(q, r) \<in> set (accepted u calls rs). (\<forall>c. wq_expected_checkpoint q = Some c \<longrightarrow>
          c = wt_prior_checkpoint (wx_trace r)) \<and> wx_domain_snapshot r = wr_domain_snapshot rec \<and>
          wx_publication_snapshot r = wr_publication_snapshot rec)"
proof (induction calls arbitrary: st rs rec)
  case (Cons call calls)
  obtain st1 r rs1 where step: "work_step ops call st = Some (st1, r)" and run: "work_run ops calls st1 = Some (st', rs1)"
    and rs: "rs = r # rs1" using Cons.prems(1) by (auto simp: bind_eq_Some_conv)
  have no: "OpenUnit u \<notin> set calls" using Cons.prems(3) by simp
  show ?case
  proof (cases call)
    case (OpenUnit v)
    with Cons.prems(3) have "v \<noteq> u" by auto
    with step OpenUnit Cons.prems(2) have "hm_get (wk_units st1) u = Some rec"
      by (auto simp: work_open_def bind_eq_Some_conv Let_def)
    from Cons.IH [OF run this no Cons.prems(4)] show ?thesis by (simp add: rs OpenUnit)
  next
    case (TransitionUnit q)
    then have tr: "transition ops st q = Some (st1, r)" using step by simp
    show ?thesis
    proof (cases "wq_work_unit_id q = u \<and> wx_outcome r = TO_Transitioned")
      case False
      from tr have "hm_get (wk_units st1) u = Some rec"
        by (cases rule: transition_cases) (use False Cons.prems(2) in auto)
      moreover have "accepted u (call # calls) rs = accepted u calls rs1" using False by (auto simp: rs TransitionUnit)
      ultimately show ?thesis using Cons.IH [OF run _ no Cons.prems(4)] by simp
    next
      case True
      from tr have "\<exists>s. next_state (wr_state rec) (wq_event q) = Some s \<and>
        hm_get (wk_units st1) u = Some (advanced rec s) \<and> (\<forall>c. wq_expected_checkpoint q = Some c \<longrightarrow> c = wr_checkpoint rec) \<and>
        wt_prior_checkpoint (wx_trace r) = wr_checkpoint rec \<and> wx_domain_snapshot r = wr_domain_snapshot rec \<and>
        wx_publication_snapshot r = wr_publication_snapshot rec"
      proof (cases rule: transition_cases)
        case (accepted rec1 s)
        with True Cons.prems(2) have "rec1 = rec" by simp
        with accepted True show ?thesis by (intro exI [of _ s]) simp
      qed (use True in auto)
      then obtain s where s: "next_state (wr_state rec) (wq_event q) = Some s"
        "hm_get (wk_units st1) u = Some (advanced rec s)" "\<forall>c. wq_expected_checkpoint q = Some c \<longrightarrow> c = wr_checkpoint rec"
        "wt_prior_checkpoint (wx_trace r) = wr_checkpoint rec" "wx_domain_snapshot r = wr_domain_snapshot rec"
        "wx_publication_snapshot r = wr_publication_snapshot rec" by blast
      from Cons.IH [OF run s(2) no advanced_fields(5), unfolded advanced_fields] obtain rec' where IH: "hm_get (wk_units st') u = Some rec'" "numbered rec'"
        "work_path s (accepted_events u calls rs1) (wr_state rec')"
        "wr_checkpoint_seq rec' = Suc (wr_checkpoint_seq rec) + length (accepted u calls rs1)"
        "wr_domain_snapshot rec' = wr_domain_snapshot rec" "wr_publication_snapshot rec' = wr_publication_snapshot rec"
        "map (wt_prior_checkpoint \<circ> wx_trace \<circ> snd) (accepted u calls rs1) =
          map checkpoint_name [Suc (wr_checkpoint_seq rec)..<wr_checkpoint_seq rec']"
        "\<forall>(q, r) \<in> set (accepted u calls rs1). (\<forall>c. wq_expected_checkpoint q = Some c \<longrightarrow>
          c = wt_prior_checkpoint (wx_trace r)) \<and> wx_domain_snapshot r = wr_domain_snapshot rec \<and>
          wx_publication_snapshot r = wr_publication_snapshot rec"
        by blast
      have "[wr_checkpoint_seq rec..<wr_checkpoint_seq rec'] =
          wr_checkpoint_seq rec # [Suc (wr_checkpoint_seq rec)..<wr_checkpoint_seq rec']"
        using IH(4) by (intro upt_conv_Cons) simp
      moreover have "accepted u (call # calls) rs = (q, r) # accepted u calls rs1" using True by (simp add: rs TransitionUnit)
      ultimately show ?thesis
        using IH s Cons.prems(4) by (intro exI [of _ rec']) (simp add: numbered_def comp_def del: upt_Suc)
    qed
  qed
qed simp

lemma work_open_record:
  assumes "work_open ops st u = Some (st', r)"
  obtains rec where "hm_get (wk_units st') u = Some rec" "wr_state rec = WS_Requested" "wr_checkpoint_seq rec = 0"
    "numbered rec" "wr_domain_snapshot rec = wx_domain_snapshot r" "wr_publication_snapshot rec = wx_publication_snapshot r"
    "wx_outcome r = TO_Transitioned" "wx_checkpoint r = checkpoint_name 0"
proof -
  from assms obtain ev d ev' p where st': "st' = \<lparr>wk_evidence = ev', wk_units = hm_insert u \<lparr>wr_state = WS_Requested,
      wr_checkpoint = ''cp:0'', wr_domain_snapshot = d, wr_publication_snapshot = p, wr_checkpoint_seq = 0\<rparr> (wk_units st)\<rparr>"
    and r: "wx_domain_snapshot r = d" "wx_publication_snapshot r = p" "wx_outcome r = TO_Transitioned" "wx_checkpoint r = ''cp:0''"
    by (auto simp: work_open_def bind_eq_Some_conv Let_def parse_id_eq_Inr)
  show ?thesis
    by (rule that [of "\<lparr>wr_state = WS_Requested, wr_checkpoint = ''cp:0'', wr_domain_snapshot = d,
        wr_publication_snapshot = p, wr_checkpoint_seq = 0\<rparr>"])
      (simp_all add: st' r numbered_def checkpoint_name_0)
qed

section \<open>An honest evidence port\<close>

text \<open>A port that answers without a panic and always alike; on it the service is total and freezes its answers.\<close>

locale domain_evidence =
  fixes ops :: "'e domain_evidence_ops"
    and dom_of pub_of :: "'e \<Rightarrow> string \<Rightarrow> string"
  assumes read_domain: "\<exists>ev'. de_domain_snapshot ops ev u = Some (ev', dom_of ev u) \<and>
      dom_of ev' = dom_of ev \<and> pub_of ev' = pub_of ev"
    and read_publication: "\<exists>ev'. de_publication_snapshot ops ev u = Some (ev', pub_of ev u) \<and>
      dom_of ev' = dom_of ev \<and> pub_of ev' = pub_of ev"
begin

definition frozen :: "('e \<times> nat) \<Rightarrow> 'e work_service \<Rightarrow> bool" where
  "frozen x st = (dom_of (wk_evidence st) = dom_of (fst x) \<and> pub_of (wk_evidence st) = pub_of (fst x) \<and>
     (\<forall>u rec. hm_get (wk_units st) u = Some rec \<longrightarrow> wr_domain_snapshot rec = dom_of (fst x) u \<and>
        wr_publication_snapshot rec = pub_of (fst x) u \<and> wr_checkpoint_seq rec \<le> snd x))"

lemma open_frozen:
  assumes "frozen (e, n) st"
  shows "\<exists>st' r. work_open ops st u = Some (st', r) \<and> frozen (e, Suc n) st'"
proof -
  have cp: "valid_id MAX_ID_LEN ''cp:0''" by code_simp
  obtain ev1 where ev1: "de_domain_snapshot ops (wk_evidence st) u = Some (ev1, dom_of (wk_evidence st) u)"
    "dom_of ev1 = dom_of (wk_evidence st)" "pub_of ev1 = pub_of (wk_evidence st)" using read_domain by blast
  obtain ev2 where ev2: "de_publication_snapshot ops ev1 u = Some (ev2, pub_of ev1 u)"
    "dom_of ev2 = dom_of ev1" "pub_of ev2 = pub_of ev1" using read_publication by blast
  from assms ev1 ev2 cp show ?thesis
    by (auto simp: work_open_def parse_id_valid Let_def frozen_def le_SucI split: if_splits)
qed

lemma transition_frozen:
  assumes fr: "frozen (e, n) st" and lim: "Suc n < u64_limit"
  shows "\<exists>st' r. transition ops st q = Some (st', r) \<and> frozen (e, Suc n) st'"
proof -
  let ?u = "wq_work_unit_id q"
  have ids: "valid_id MAX_ID_LEN ''domain:unknown-unit''" "valid_id MAX_ID_LEN ''publication:unknown-unit''"
    "valid_id MAX_ID_LEN ''cp:none''" by code_simp+
  obtain ev1 where ev1: "de_domain_snapshot ops (wk_evidence st) ?u = Some (ev1, dom_of (wk_evidence st) ?u)"
    "dom_of ev1 = dom_of (wk_evidence st)" "pub_of ev1 = pub_of (wk_evidence st)" using read_domain by blast
  have more: "frozen (e, Suc n) st" using fr by (auto simp: frozen_def intro: le_SucI)
  have reads: "frozen (e, Suc n) (st\<lparr>wk_evidence := ev1\<rparr>)" using more ev1 by (simp add: frozen_def)
  show ?thesis
  proof (cases "hm_get (wk_units st) ?u")
    case None
    with more ids show ?thesis by (simp add: transition_def unknown_unit_def parse_id_valid)
  next
    case (Some rec)
    then have rec: "wr_domain_snapshot rec = dom_of e ?u" "wr_publication_snapshot rec = pub_of e ?u" "wr_checkpoint_seq rec \<le> n"
      using fr by (auto simp: frozen_def)
    then have seq: "Suc (wr_checkpoint_seq rec) < u64_limit" using lim by simp
    then have "u64_succ (wr_checkpoint_seq rec) = Some (Suc (wr_checkpoint_seq rec))" by (simp add: u64_succ_eq_Some)
    with Some more reads ev1 rec parse_id_valid [OF checkpoint_name_valid [OF seq]] show ?thesis
      by (auto simp: transition_def Let_def frozen_def split: option.split if_splits)
  qed
qed

lemma run_frozen:
  "frozen (e, n) st \<Longrightarrow> n + length calls < u64_limit \<Longrightarrow>
     \<exists>st' rs. work_run ops calls st = Some (st', rs) \<and> frozen (e, n + length calls) st'"
proof (induction calls arbitrary: st n)
  case (Cons call calls)
  have "Suc n < u64_limit" using Cons.prems(2) by simp
  then have "\<exists>st1 r. work_step ops call st = Some (st1, r) \<and> frozen (e, Suc n) st1"
    using open_frozen [OF Cons.prems(1)] transition_frozen [OF Cons.prems(1)] by (cases call) auto
  then obtain st1 r where s: "work_step ops call st = Some (st1, r)" "frozen (e, Suc n) st1" by blast
  from Cons.IH [OF s(2)] Cons.prems(2) s(1) show ?case by auto
qed simp

end

definition fixed_domain :: "fixed_evidence \<Rightarrow> string \<Rightarrow> string" where
  "fixed_domain ev u = (case hm_get ev u of Some (domain, _) \<Rightarrow> domain | None \<Rightarrow> ''domain:missing'')"

definition fixed_publication :: "fixed_evidence \<Rightarrow> string \<Rightarrow> string" where
  "fixed_publication ev u = (case hm_get ev u of Some (_, publication) \<Rightarrow> publication | None \<Rightarrow> ''publication:missing'')"

lemma missing_ids: "valid_id MAX_ID_LEN ''domain:missing''" "valid_id MAX_ID_LEN ''publication:missing''"
  by code_simp+

interpretation fixed: domain_evidence fixed_evidence_ops fixed_domain fixed_publication
  by unfold_locales
    (auto simp: fixed_evidence_ops_def fixed_domain_def fixed_publication_def parse_id_valid missing_ids
      split: option.split)

section \<open>Properties\<close>

text \<open>C26. The state of a work unit is its history: after it was opened, and as long as it is not opened again,
its state is reached from \<open>requested\<close> by the accepted events along the transition table, its checkpoint is the
number of accepted events, and its domain and publication identities are those read when it was opened, whatever
the evidence port answers later.\<close>

theorem work_state_is_history:
  assumes "work_open ops st u = Some (st1, r0)" "work_run ops calls st1 = Some (st2, rs)" "OpenUnit u \<notin> set calls"
  shows "\<exists>rec. hm_get (wk_units st2) u = Some rec \<and>
    work_path WS_Requested (accepted_events u calls rs) (wr_state rec) \<and>
    wr_checkpoint rec = checkpoint_name (length (accepted u calls rs)) \<and>
    wr_domain_snapshot rec = wx_domain_snapshot r0 \<and> wr_publication_snapshot rec = wx_publication_snapshot r0"
proof -
  obtain rec where rec: "hm_get (wk_units st1) u = Some rec" "wr_state rec = WS_Requested" "wr_checkpoint_seq rec = 0"
    "numbered rec" "wr_domain_snapshot rec = wx_domain_snapshot r0" "wr_publication_snapshot rec = wx_publication_snapshot r0"
    using assms(1) by (rule work_open_record)
  from work_run_history [OF assms(2) rec(1) assms(3) rec(4)] rec(2,3,5,6) show ?thesis
    by (auto simp: numbered_def)
qed

text \<open>Checkpoints are a compare-and-swap: of the requests on a unit that name an expected checkpoint, no
two that name the same one are accepted (as long as the unit is not opened again).\<close>

theorem checkpoint_is_compare_and_swap:
  assumes "work_open ops st u = Some (st1, r0)" "work_run ops calls st1 = Some (st2, rs)" "OpenUnit u \<notin> set calls"
  shows "distinct [c. (q, r) \<leftarrow> accepted u calls rs, Some c \<leftarrow> [wq_expected_checkpoint q]]"
proof -
  obtain rec where rec: "hm_get (wk_units st1) u = Some rec" "numbered rec" "wr_checkpoint_seq rec = 0"
    using assms(1) by (rule work_open_record)
  let ?prior = "wt_prior_checkpoint \<circ> wx_trace \<circ> snd"
  from work_run_history [OF assms(2) rec(1) assms(3) rec(2)] have
    prior: "\<exists>n. map ?prior (accepted u calls rs) = map checkpoint_name [0..<n]"
    and expected: "\<forall>(q, r) \<in> set (accepted u calls rs). \<forall>c. wq_expected_checkpoint q = Some c \<longrightarrow>
      c = wt_prior_checkpoint (wx_trace r)"
    using rec(3) by auto
  have flat: "[c. (q, r) \<leftarrow> xs, Some c \<leftarrow> [wq_expected_checkpoint q]] =
      map ?prior (filter (\<lambda>(q, r). wq_expected_checkpoint q \<noteq> None) xs)"
    if "\<forall>(q, r) \<in> set xs. \<forall>c. wq_expected_checkpoint q = Some c \<longrightarrow> c = wt_prior_checkpoint (wx_trace r)" for xs
    using that by (induction xs) auto
  note flat [OF expected]
  moreover have "distinct (map ?prior (accepted u calls rs))"
  proof -
    obtain n where n: "map ?prior (accepted u calls rs) = map checkpoint_name [0..<n]" using prior by blast
    show ?thesis unfolding n by (simp add: distinct_map inj_on_def)
  qed
  ultimately show ?thesis by (simp add: distinct_map_filter)
qed

text \<open>Processing never reaches the legal domain: no call of any sequence, on any evidence, applies a legal
mapping or changes a domain or publication identity, every request with a mapping attempt is refused, and no call is
ever answered as an exhausted retry (the outcome exists but the code has no retry limit).\<close>

theorem work_never_touches_domain:
  assumes "work_run ops calls st = Some (st', rs)"
  shows "list_all2 (\<lambda>call r. \<not> wx_legal_mapping_applied r \<and> wx_domain_unchanged r \<and> wx_publication_unchanged r \<and>
    wx_outcome r \<noteq> TO_RetryExhausted \<and>
    (\<forall>q. call = TransitionUnit q \<and> wq_legal_mapping q \<noteq> NoMapping \<longrightarrow> wx_outcome r \<noteq> TO_Transitioned)) calls rs"
  using assms
proof (induction calls arbitrary: st rs)
  case (Cons call calls)
  obtain st1 r rs1 where step: "work_step ops call st = Some (st1, r)" and run: "work_run ops calls st1 = Some (st', rs1)"
    and rs: "rs = r # rs1" using Cons.prems by (auto simp: bind_eq_Some_conv)
  have "\<not> wx_legal_mapping_applied r \<and> wx_domain_unchanged r \<and> wx_publication_unchanged r \<and>
    wx_outcome r \<noteq> TO_RetryExhausted \<and>
    (\<forall>q. call = TransitionUnit q \<and> wq_legal_mapping q \<noteq> NoMapping \<longrightarrow> wx_outcome r \<noteq> TO_Transitioned)"
  proof (cases call)
    case (OpenUnit u)
    with step show ?thesis by (auto simp: work_open_def bind_eq_Some_conv Let_def)
  next
    case (TransitionUnit q)
    with step have "transition ops st q = Some (st1, r)" by simp
    then show ?thesis by (cases rule: transition_cases) (auto simp: TransitionUnit)
  qed
  with Cons.IH [OF run] show ?case by (simp add: rs)
qed simp

text \<open>On fixed evidence the service never panics within the range of its counters, and every unit carries
the identities that the evidence holds for it.\<close>

theorem work_fixed_evidence_total:
  assumes "length calls < u64_limit"
  shows "\<exists>st rs. work_run fixed_evidence_ops calls (work_new ev) = Some (st, rs) \<and>
    (\<forall>u. case hm_get (wk_units st) u of None \<Rightarrow> True | Some rec \<Rightarrow>
       wr_domain_snapshot rec = fixed_domain ev u \<and> wr_publication_snapshot rec = fixed_publication ev u)"
proof -
  have "fixed.frozen (ev, 0) (work_new ev)" unfolding fixed.frozen_def by (simp add: work_new_def)
  from fixed.run_frozen [OF this, of calls] assms obtain st rs where
    "work_run fixed_evidence_ops calls (work_new ev) = Some (st, rs)" "fixed.frozen (ev, length calls) st"
    unfolding add_0 by blast
  then show ?thesis unfolding fixed.frozen_def by (auto split: option.split)
qed

lemma reopen_ids: "valid_id MAX_ID_LEN ''cp:0''" "valid_id MAX_ID_LEN ''domain:1:mutated:1''" "show_nat (Suc 0) = ''1''"
  by code_simp+

text \<open>\<open>open\<close> does not check that the unit is new: opening a known unit, committed or not, discards its
state and starts again at checkpoint 0, and on evidence that changes it reads new identities, so the identities of
the unit are not frozen.\<close>

theorem work_open_again_resets:
  assumes "hm_get (wk_units st) u = Some rec" "work_open ops st u = Some (st', r)"
  shows "wx_outcome r = TO_Transitioned \<and> state_of st' u = Some WS_Requested \<and> wx_checkpoint r = checkpoint_name 0 \<and>
    map_option (\<lambda>(st, rs). map wx_domain_snapshot rs) (work_run mutating_evidence_ops [OpenUnit ''u'', OpenUnit ''u'']
      (work_new (mutating_new ''u'' ''domain:1'' ''pub:1''))) = Some [''domain:1'', ''domain:1:mutated:1'']"
proof -
  obtain rec' where "hm_get (wk_units st') u = Some rec'" "wr_state rec' = WS_Requested" "wx_outcome r = TO_Transitioned"
    "wx_checkpoint r = checkpoint_name 0" using assms(2) by (rule work_open_record)
  moreover have "map_option (\<lambda>(st, rs). map wx_domain_snapshot rs) (work_run mutating_evidence_ops [OpenUnit ''u'', OpenUnit ''u'']
      (work_new (mutating_new ''u'' ''domain:1'' ''pub:1''))) = Some [''domain:1'', ''domain:1:mutated:1'']"
    using reopen_ids
    by (simp add: work_open_def mutating_evidence_ops_def mutating_new_def work_new_def parse_id_valid Let_def u64_limit_def)
  ultimately show ?thesis by (simp add: state_of_def)
qed

section \<open>Witnesses\<close>

definition work_request :: "work_event \<Rightarrow> string option \<Rightarrow> transition_request" where
  "work_request e c = \<lparr>wq_work_unit_id = ''u'', wq_event = e, wq_expected_checkpoint = c, wq_legal_mapping = NoMapping\<rparr>"

definition sample_calls :: "work_call list" where
  "sample_calls = [TransitionUnit (work_request WE_Start (Some ''cp:0'')), TransitionUnit (work_request WE_Commit (Some ''cp:0''))]"

lemma sample_open: "\<exists>st r. work_open fixed_evidence_ops (work_new []) ''u'' = Some (st, r) \<and>
    (\<exists>st2 rs. work_run fixed_evidence_ops sample_calls st = Some (st2, rs))"
proof -
  obtain st rs where run: "work_run fixed_evidence_ops (OpenUnit ''u'' # sample_calls) (work_new []) = Some (st, rs)"
    using fixed.run_frozen [of "[]" 0 "work_new []" "OpenUnit ''u'' # sample_calls"]
    unfolding fixed.frozen_def by (auto simp: work_new_def sample_calls_def u64_limit_def)
  then show ?thesis by (auto simp: bind_eq_Some_conv)
qed

theorem work_state_is_history_witness:
  "\<exists>(st :: fixed_evidence work_service) rec rs. hm_get (wk_units st) ''u'' = Some rec \<and>
     work_path WS_Requested (accepted_events ''u'' sample_calls rs) (wr_state rec)"
proof -
  obtain st1 r0 st2 rs where o: "work_open fixed_evidence_ops (work_new []) ''u'' = Some (st1, r0)"
    "work_run fixed_evidence_ops sample_calls st1 = Some (st2, rs)" using sample_open by blast
  have "OpenUnit ''u'' \<notin> set sample_calls" by (simp add: sample_calls_def)
  from work_state_is_history [OF o this] show ?thesis by blast
qed

theorem checkpoint_is_compare_and_swap_witness:
  "\<exists>rs :: transition_result list. distinct [c. (q, r) \<leftarrow> accepted ''u'' sample_calls rs, Some c \<leftarrow> [wq_expected_checkpoint q]]"
proof -
  obtain st1 r0 st2 rs where o: "work_open fixed_evidence_ops (work_new []) ''u'' = Some (st1, r0)"
    "work_run fixed_evidence_ops sample_calls st1 = Some (st2, rs)" using sample_open by blast
  have "OpenUnit ''u'' \<notin> set sample_calls" by (simp add: sample_calls_def)
  from checkpoint_is_compare_and_swap [OF o this] show ?thesis by blast
qed

theorem work_never_touches_domain_witness:
  "\<exists>rs :: transition_result list. list_all2 (\<lambda>call r. \<not> wx_legal_mapping_applied r \<and> wx_domain_unchanged r) sample_calls rs"
proof -
  obtain st1 r0 st2 rs where "work_run fixed_evidence_ops sample_calls st1 = Some (st2, rs)" using sample_open by blast
  from work_never_touches_domain [OF this] have
    "list_all2 (\<lambda>call r. \<not> wx_legal_mapping_applied r \<and> wx_domain_unchanged r) sample_calls rs"
    by (rule list_all2_mono) blast
  then show ?thesis by blast
qed

theorem work_fixed_evidence_total_witness:
  "\<exists>st rs. work_run fixed_evidence_ops (OpenUnit ''u'' # sample_calls) (work_new []) = Some (st, rs)"
proof -
  have "length (OpenUnit ''u'' # sample_calls) < u64_limit" by (simp add: sample_calls_def u64_limit_def)
  from work_fixed_evidence_total [OF this] show ?thesis by blast
qed

theorem work_open_again_resets_witness:
  "\<exists>(st :: fixed_evidence work_service) (r :: transition_result). wx_outcome r = TO_Transitioned \<and> state_of st ''u'' = Some WS_Requested"
proof -
  obtain st1 r0 where o: "work_open fixed_evidence_ops (work_new []) ''u'' = Some (st1, r0)" using sample_open by blast
  obtain rec where rec: "hm_get (wk_units st1) ''u'' = Some rec" using o by (rule work_open_record)
  have "fixed.frozen ([], 0) (work_new [])" unfolding fixed.frozen_def by (simp add: work_new_def)
  from fixed.open_frozen [OF this, of "''u''"] o have "fixed.frozen ([], Suc 0) st1" by auto
  from fixed.open_frozen [OF this] obtain st2 r where "work_open fixed_evidence_ops st1 ''u'' = Some (st2, r)" by blast
  from work_open_again_resets [OF rec this] show ?thesis by blast
qed

section \<open>Progress\<close>

text \<open>A request without conditions, and the way to a commit from each state.\<close>

definition plain_request :: "string \<Rightarrow> work_event \<Rightarrow> transition_request" where
  "plain_request u e = \<lparr>wq_work_unit_id = u, wq_event = e, wq_expected_checkpoint = None, wq_legal_mapping = NoMapping\<rparr>"

fun way_to_commit :: "work_state \<Rightarrow> work_event list" where
  "way_to_commit WS_Requested = [WE_Start, WE_Commit]"
| "way_to_commit WS_Running = [WE_Commit]"
| "way_to_commit WS_Cancelling = [WE_CancelAck, WE_Resume, WE_Commit]"
| "way_to_commit WS_Committed = []"
| "way_to_commit _ = [WE_Resume, WE_Commit]"

lemma way_to_commit: "work_path s (way_to_commit s) WS_Committed \<and> length (way_to_commit s) \<le> 3"
  by (cases s) simp_all

lemma plain_request_accepted:
  assumes "transition ops st (plain_request u e) = Some (st', r)" "hm_get (wk_units st) u = Some rec"
    "next_state (wr_state rec) e = Some s"
  shows "wx_outcome r = TO_Transitioned \<and> hm_get (wk_units st') u = Some (advanced rec s)"
proof -
  have "wx_outcome r = TO_Transitioned"
    using assms by (auto simp: transition_def plain_request_def mapping_is_forbidden_def Let_def bind_eq_Some_conv)
  from assms(1) show ?thesis
    by (cases rule: transition_cases) (use assms(2,3) \<open>wx_outcome r = TO_Transitioned\<close> in \<open>auto simp: plain_request_def\<close>)
qed

lemma drive_path:
  "work_path s es t \<Longrightarrow> fixed.frozen (ev, n) st \<Longrightarrow> n + length es < u64_limit \<Longrightarrow> hm_get (wk_units st) u = Some rec \<Longrightarrow>
     wr_state rec = s \<Longrightarrow>
   \<exists>st' rs. work_run fixed_evidence_ops (map (TransitionUnit \<circ> plain_request u) es) st = Some (st', rs) \<and>
     state_of st' u = Some t \<and> list_all (\<lambda>r. wx_outcome r = TO_Transitioned) rs"
proof (induction arbitrary: st n rec rule: work_path.induct)
  case (path_nil s)
  then show ?case by (simp add: state_of_def)
next
  case (path_cons s e s1 es s2)
  have "Suc n < u64_limit" using path_cons.prems(2) by simp
  from fixed.transition_frozen [OF path_cons.prems(1) this, of "plain_request u e"] obtain st1 r where
    tr: "transition fixed_evidence_ops st (plain_request u e) = Some (st1, r)" "fixed.frozen (ev, Suc n) st1" by blast
  have "next_state (wr_state rec) e = Some s1" using path_cons.hyps(1) path_cons.prems(4) by simp
  from plain_request_accepted [OF tr(1) path_cons.prems(3) this] have
    r: "wx_outcome r = TO_Transitioned" "hm_get (wk_units st1) u = Some (advanced rec s1)" by simp_all
  have "Suc n + length es < u64_limit" using path_cons.prems(2) by simp
  from path_cons.IH [OF tr(2) this r(2)] tr(1) r(1) show ?case by auto
qed

text \<open>C27. 
  Work is never stuck: after any sequence of calls on fixed evidence, within the range of the counters, every known unit,
  whatever its state, can still be committed by at most three requests, all of which are accepted.
\<close>

theorem every_unit_can_commit:
  assumes "work_run fixed_evidence_ops calls (work_new ev) = Some (st, rs)" "length calls + 3 < u64_limit"
    "hm_get (wk_units st) u = Some rec"
  shows "\<exists>es st' rs'. length es \<le> 3 \<and>
    work_run fixed_evidence_ops (map (TransitionUnit \<circ> plain_request u) es) st = Some (st', rs') \<and>
    state_of st' u = Some WS_Committed \<and> list_all (\<lambda>r. wx_outcome r = TO_Transitioned) rs'"
proof -
  have "fixed.frozen (ev, 0) (work_new ev)" unfolding fixed.frozen_def by (simp add: work_new_def)
  from fixed.run_frozen [OF this, of calls] assms(1,2) have fr: "fixed.frozen (ev, length calls) st" by simp
  have "length calls + length (way_to_commit (wr_state rec)) < u64_limit"
    using way_to_commit [of "wr_state rec"] assms(2) by linarith
  from drive_path [OF conjunct1 [OF way_to_commit] fr this assms(3) refl] way_to_commit [of "wr_state rec"]
  show ?thesis by blast
qed

theorem every_unit_can_commit_witness:
  "\<exists>st es st' rs'. work_run fixed_evidence_ops [OpenUnit ''u''] (work_new ([] :: fixed_evidence)) = Some st \<and>
     work_run fixed_evidence_ops (map (TransitionUnit \<circ> plain_request ''u'') es) (fst st) = Some (st', rs') \<and>
     state_of st' ''u'' = Some WS_Committed"
proof -
  obtain st1 r0 where o: "work_open fixed_evidence_ops (work_new []) ''u'' = Some (st1, r0)" using sample_open by blast
  obtain rec where rec: "hm_get (wk_units st1) ''u'' = Some rec" using o by (rule work_open_record)
  have run: "work_run fixed_evidence_ops [OpenUnit ''u''] (work_new []) = Some (st1, [r0])" using o by simp
  have "length [OpenUnit ''u''] + 3 < u64_limit" by (simp add: u64_limit_def)
  from every_unit_can_commit [OF run this rec] run show ?thesis by (metis fst_conv)
qed

end
