(* ===== verification/LN_Admission.thy ===== *)
theory LN_Admission
  imports LN_Ids
begin

text \<open>
  \<open>crates/ln-admission\<close>: the admission decision (\<open>DecideAdmission::decide\<close>, \<open>application.rs\<close>) over a port that
  observes a local bound, with the honest and the vendor adapters (\<open>adapters.rs\<close>). The observation is a step of
  the port's state, so that the model shows when it is read at all.
\<close>

definition ADMISSION_POLICY_VERSION :: string where
  "ADMISSION_POLICY_VERSION = ''hc13:decide-admission:v1''"

definition RETRY_AMPLIFICATION_THRESHOLD :: nat where
  "RETRY_AMPLIFICATION_THRESHOLD = 3"

datatype admission_decision = Admitted | Paused | Rejected

fun decision_as_str :: "admission_decision \<Rightarrow> string" where
  "decision_as_str Admitted = ''admitted''"
| "decision_as_str Paused = ''paused''"
| "decision_as_str Rejected = ''rejected''"

datatype admission_reason =
  MeasuredBound | BoundUnknown | SaturatedBound | RetryAmplification | VendorCapacityRejected |
  CompletenessClaimRejected | LegalDelayClaimRejected

fun reason_as_str :: "admission_reason \<Rightarrow> string" where
  "reason_as_str MeasuredBound = ''measured-bound''"
| "reason_as_str BoundUnknown = ''bound-unknown''"
| "reason_as_str SaturatedBound = ''saturated''"
| "reason_as_str RetryAmplification = ''retry-amplification''"
| "reason_as_str VendorCapacityRejected = ''vendor-capacity-rejected''"
| "reason_as_str CompletenessClaimRejected = ''completeness-claim-rejected''"
| "reason_as_str LegalDelayClaimRejected = ''legal-delay-claim-rejected''"

datatype capacity_state = CapacityUnknown | BoundedLocal

fun capacity_state_as_str :: "capacity_state \<Rightarrow> string" where
  "capacity_state_as_str CapacityUnknown = ''unknown''"
| "capacity_state_as_str BoundedLocal = ''bounded-local''"

definition capacity_is_unknown :: "capacity_state \<Rightarrow> bool" where
  "capacity_is_unknown c = (c = CapacityUnknown)"

datatype bound_observation_kind = UnknownBound | ObservedSaturated | Measured

datatype forbidden_inference =
  NoInference | LegalDelay | Completeness | VendorThroughput | VendorLatency | VendorStoragePrecision

fun inference_as_str :: "forbidden_inference \<Rightarrow> string" where
  "inference_as_str NoInference = ''none''"
| "inference_as_str LegalDelay = ''legal-delay''"
| "inference_as_str Completeness = ''completeness''"
| "inference_as_str VendorThroughput = ''vendor-throughput''"
| "inference_as_str VendorLatency = ''vendor-latency''"
| "inference_as_str VendorStoragePrecision = ''vendor-storage-precision''"

definition inference_is_forbidden :: "forbidden_inference \<Rightarrow> bool" where
  "inference_is_forbidden i = (i \<noteq> NoInference)"

record admission_request =
  aq_request_id :: string
  aq_work_class :: string
  aq_retry_count :: nat
  aq_forbidden_inference :: forbidden_inference

record bound_observation =
  bo_kind :: bound_observation_kind
  bo_bound_id :: "string option"
  bo_vendor_throughput_claim :: "nat option"
  bo_vendor_latency_claim :: "nat option"
  bo_vendor_storage_claim :: "nat option"

record admission_trace =
  at_policy_version :: string
  at_request_id :: string
  at_decision :: admission_decision
  at_reason :: admission_reason
  at_capacity :: capacity_state
  at_bound_id :: "string option"
  at_retry_count :: nat
  at_forbidden_inference :: forbidden_inference
  at_forbidden_inference_applied :: bool
  at_vendor_number_used :: bool
  at_legal_delay_inferred :: bool
  at_completeness_inferred :: bool

record admission_result =
  ax_decision :: admission_decision
  ax_reason :: admission_reason
  ax_capacity :: capacity_state
  ax_bound_id :: "string option"
  ax_vendor_number_used :: bool
  ax_legal_delay_inferred :: bool
  ax_completeness_inferred :: bool
  ax_trace :: admission_trace

definition admission_finish ::
    "admission_request \<Rightarrow> admission_decision \<Rightarrow> admission_reason \<Rightarrow> capacity_state \<Rightarrow> string option \<Rightarrow> bool \<Rightarrow>
     admission_result" where
  "admission_finish request decision reason capacity bound_id vendor_number_used =
     \<lparr>ax_decision = decision, ax_reason = reason, ax_capacity = capacity, ax_bound_id = bound_id,
      ax_vendor_number_used = vendor_number_used, ax_legal_delay_inferred = False,
      ax_completeness_inferred = False,
      ax_trace = \<lparr>at_policy_version = ADMISSION_POLICY_VERSION, at_request_id = aq_request_id request,
        at_decision = decision, at_reason = reason, at_capacity = capacity, at_bound_id = bound_id,
        at_retry_count = aq_retry_count request, at_forbidden_inference = aq_forbidden_inference request,
        at_forbidden_inference_applied = False, at_vendor_number_used = vendor_number_used,
        at_legal_delay_inferred = False, at_completeness_inferred = False\<rparr>\<rparr>"

fun inference_reason :: "forbidden_inference \<Rightarrow> admission_reason" where
  "inference_reason LegalDelay = LegalDelayClaimRejected"
| "inference_reason Completeness = CompletenessClaimRejected"
| "inference_reason VendorThroughput = VendorCapacityRejected"
| "inference_reason VendorLatency = VendorCapacityRejected"
| "inference_reason VendorStoragePrecision = VendorCapacityRejected"
| "inference_reason NoInference = BoundUnknown"

definition decide ::
    "('o \<Rightarrow> 'o \<times> bound_observation) \<Rightarrow> 'o \<Rightarrow> admission_request \<Rightarrow> 'o \<times> admission_result" where
  "decide observe port request =
     (if inference_is_forbidden (aq_forbidden_inference request)
        then (port, admission_finish request Rejected (inference_reason (aq_forbidden_inference request))
                CapacityUnknown None False)
      else if RETRY_AMPLIFICATION_THRESHOLD \<le> aq_retry_count request
        then (port, admission_finish request Rejected RetryAmplification CapacityUnknown None False)
      else
        let (port, obs) = observe port;
            vendor_present = (bo_vendor_throughput_claim obs \<noteq> None \<or> bo_vendor_latency_claim obs \<noteq> None \<or>
              bo_vendor_storage_claim obs \<noteq> None)
        in (port,
            if vendor_present
              then admission_finish request Rejected VendorCapacityRejected CapacityUnknown None False
            else case bo_kind obs of
              UnknownBound \<Rightarrow> admission_finish request Paused BoundUnknown CapacityUnknown None False
            | ObservedSaturated \<Rightarrow> admission_finish request Rejected SaturatedBound CapacityUnknown None False
            | Measured \<Rightarrow>
                (case bo_bound_id obs of
                   Some bound_id \<Rightarrow>
                     admission_finish request Admitted MeasuredBound BoundedLocal (Some bound_id) False
                 | None \<Rightarrow> admission_finish request Paused BoundUnknown CapacityUnknown None False)))"

section \<open>Adapters\<close>

definition honest_unknown :: bound_observation where
  "honest_unknown = \<lparr>bo_kind = UnknownBound, bo_bound_id = None, bo_vendor_throughput_claim = None,
     bo_vendor_latency_claim = None, bo_vendor_storage_claim = None\<rparr>"

definition honest_saturated :: bound_observation where
  "honest_saturated = \<lparr>bo_kind = ObservedSaturated, bo_bound_id = None, bo_vendor_throughput_claim = None,
     bo_vendor_latency_claim = None, bo_vendor_storage_claim = None\<rparr>"

definition honest_measured :: "string \<Rightarrow> bound_observation" where
  "honest_measured bound_id = \<lparr>bo_kind = Measured, bo_bound_id = Some bound_id, bo_vendor_throughput_claim = None,
     bo_vendor_latency_claim = None, bo_vendor_storage_claim = None\<rparr>"

definition honest_observe :: "bound_observation \<Rightarrow> bound_observation \<times> bound_observation" where
  "honest_observe observation = (observation, observation)"

record hostile_vendor_capacity =
  hv_pretend_measured :: bool
  hv_bound_id :: "string option"

definition hostile_observe :: "hostile_vendor_capacity \<Rightarrow> hostile_vendor_capacity \<times> bound_observation" where
  "hostile_observe h = (h, \<lparr>bo_kind = (if hv_pretend_measured h then Measured else UnknownBound),
     bo_bound_id = hv_bound_id h, bo_vendor_throughput_claim = Some 100000,
     bo_vendor_latency_claim = Some 12, bo_vendor_storage_claim = Some 1000000000\<rparr>)"

section \<open>Properties\<close>

lemma admission_finish_fields [simp]:
  "ax_decision (admission_finish q d r c b v) = d" "ax_reason (admission_finish q d r c b v) = r"
  "ax_capacity (admission_finish q d r c b v) = c" "ax_bound_id (admission_finish q d r c b v) = b"
  "ax_vendor_number_used (admission_finish q d r c b v) = v" "\<not> ax_legal_delay_inferred (admission_finish q d r c b v)"
  "\<not> ax_completeness_inferred (admission_finish q d r c b v)"
  by (simp_all add: admission_finish_def)

definition vendor_free :: "bound_observation \<Rightarrow> bool" where
  "vendor_free obs = (bo_vendor_throughput_claim obs = None \<and> bo_vendor_latency_claim obs = None \<and>
     bo_vendor_storage_claim obs = None)"

text \<open>C31. Admission is granted exactly to a request without a forbidden claim and below the retry threshold whose
observation is measured, names its bound and carries no vendor number; it then reports that bound. Everything else is
paused or rejected with unknown capacity, paused exactly when the observation alone is missing; and the port is read
only for requests that pass the first two guards.\<close>

theorem admission_granted_iff:
  "(ax_decision (snd (decide observe port q)) = Admitted \<longleftrightarrow>
      aq_forbidden_inference q = NoInference \<and> aq_retry_count q < 3 \<and> vendor_free (snd (observe port)) \<and>
      bo_kind (snd (observe port)) = Measured \<and> bo_bound_id (snd (observe port)) \<noteq> None) \<and>
   (ax_decision (snd (decide observe port q)) = Paused \<longleftrightarrow>
      aq_forbidden_inference q = NoInference \<and> aq_retry_count q < 3 \<and> vendor_free (snd (observe port)) \<and>
      (bo_kind (snd (observe port)) = UnknownBound \<or>
       bo_kind (snd (observe port)) = Measured \<and> bo_bound_id (snd (observe port)) = None)) \<and>
   ax_capacity (snd (decide observe port q)) =
     (if ax_decision (snd (decide observe port q)) = Admitted then BoundedLocal else CapacityUnknown) \<and>
   ax_bound_id (snd (decide observe port q)) =
     (if ax_decision (snd (decide observe port q)) = Admitted then bo_bound_id (snd (observe port)) else None) \<and>
   fst (decide observe port q) =
     (if aq_forbidden_inference q = NoInference \<and> aq_retry_count q < 3 then fst (observe port) else port)"
  by (cases "bo_kind (snd (observe port))")
    (auto simp: decide_def vendor_free_def inference_is_forbidden_def RETRY_AMPLIFICATION_THRESHOLD_def Let_def
      case_prod_beta split: option.split)

end
