(* ===== verification/LN_Relation.thy ===== *)
theory LN_Relation
  imports LN_Ids
begin

text \<open>
  \<open>crates/ln-relation\<close>: the registry gate for relation proposals (\<open>ValidateRelation\<close>, \<open>application.rs\<close>) over any
  \<open>RelationRegistryPort\<close>, the digest of a proposal (\<open>domain.rs\<close>) and the closed and the hostile registries
  (\<open>adapters.rs\<close>). A panic is \<open>None\<close>; storing a fact is the only step of the port's state.
\<close>

section \<open>Domain\<close>

definition C13_GATE_VERSION :: string where
  "C13_GATE_VERSION = ''c13:v1''"

definition DEFAULT_REGISTRY_VERSION :: string where
  "DEFAULT_REGISTRY_VERSION = ''R1''"

datatype relation_outcome = RO_Accepted | RO_UnknownPredicate | RO_WrongOwner | RO_InsufficientEvidence

fun relation_as_str :: "relation_outcome \<Rightarrow> string" where
  "relation_as_str RO_Accepted = ''accepted''"
| "relation_as_str RO_UnknownPredicate = ''unknown-predicate''"
| "relation_as_str RO_WrongOwner = ''wrong-owner''"
| "relation_as_str RO_InsufficientEvidence = ''insufficient-evidence''"

definition is_rejection :: "relation_outcome \<Rightarrow> bool" where
  "is_rejection x = (x \<noteq> RO_Accepted)"

record registered_predicate =
  rp_predicate_id :: string
  rp_owner_family :: string

record relation_proposal =
  lp_predicate_id :: string
  lp_subject :: string
  lp_object :: string
  lp_proposed_owner :: string
  lp_evidence_refs :: "string list"

record relation_fact =
  lf_predicate_id :: string
  lf_subject :: string
  lf_object :: string
  lf_owner_family :: string

record relation_validation =
  lv_c13_version :: string
  lv_registry_version :: string
  lv_outcome :: relation_outcome
  lv_predicate_id :: string
  lv_subject :: string
  lv_object :: string
  lv_proposed_owner :: string
  lv_registry_unchanged :: bool
  lv_stored_as_fact :: bool
  lv_exposed_as_query_fact :: bool
  lv_input_chain_digest :: string

definition proposal_material :: "relation_proposal \<Rightarrow> string" where
  "proposal_material p =
     foldl (\<lambda>material item. material @ CHR ''|'' # item)
       (bar (lp_predicate_id p) (bar (lp_subject p) (bar (lp_object p) (lp_proposed_owner p))))
       (lp_evidence_refs p)"

definition digest_proposal :: "relation_proposal \<Rightarrow> string option" where
  "digest_proposal p = expect (parse_id ''input chain digest'' (digest_bytes (proposal_material p)) MAX_ID_LEN)"

section \<open>The gate\<close>

record 'r relation_registry_ops =
  rr_registry_version :: "'r \<Rightarrow> string"
  rr_lookup :: "'r \<Rightarrow> string \<Rightarrow> registered_predicate option"
  rr_registered_count :: "'r \<Rightarrow> nat"
  rr_try_store_fact :: "relation_fact \<Rightarrow> 'r \<Rightarrow> ('r \<times> bool) option"
  rr_fact_count :: "'r \<Rightarrow> nat"
  rr_contains_fact :: "'r \<Rightarrow> string \<Rightarrow> string \<Rightarrow> string \<Rightarrow> bool"

record 'r validate_relation =
  vr_registry :: 'r
  vr_accepted_facts :: "(string, relation_fact) hashmap"
  vr_initial_registered_count :: nat

definition relation_new :: "'r relation_registry_ops \<Rightarrow> 'r \<Rightarrow> 'r validate_relation" where
  "relation_new ops registry = \<lparr>vr_registry = registry, vr_accepted_facts = [],
     vr_initial_registered_count = rr_registered_count ops registry\<rparr>"

definition fact_key :: "string \<Rightarrow> string \<Rightarrow> string \<Rightarrow> string" where
  "fact_key predicate_id subject object = bar predicate_id (bar subject object)"

definition query_has_fact :: "'r validate_relation \<Rightarrow> string \<Rightarrow> string \<Rightarrow> string \<Rightarrow> bool" where
  "query_has_fact st predicate_id subject object =
     hm_contains (vr_accepted_facts st) (fact_key predicate_id subject object)"

definition accepted_fact_count :: "'r validate_relation \<Rightarrow> nat" where
  "accepted_fact_count st = hm_len (vr_accepted_facts st)"

text \<open>The \<open>match\<close> on the registry entry: the outcome and, for an accepted proposal, the stores.\<close>

definition relation_decide ::
    "'r relation_registry_ops \<Rightarrow> 'r validate_relation \<Rightarrow> relation_proposal \<Rightarrow>
     ('r validate_relation \<times> relation_outcome) option" where
  "relation_decide ops st p =
     (case rr_lookup ops (vr_registry st) (lp_predicate_id p) of
        None \<Rightarrow> Some (st, RO_UnknownPredicate)
      | Some registered \<Rightarrow>
          if rp_owner_family registered \<noteq> lp_proposed_owner p then Some (st, RO_WrongOwner)
          else if lp_evidence_refs p = [] then Some (st, RO_InsufficientEvidence)
          else
            let f = \<lparr>lf_predicate_id = lp_predicate_id p, lf_subject = lp_subject p, lf_object = lp_object p,
                  lf_owner_family = rp_owner_family registered\<rparr>;
                key = fact_key (lf_predicate_id f) (lf_subject f) (lf_object f)
            in do {
              (registry, _) \<leftarrow> rr_try_store_fact ops f (vr_registry st);
              Some (st\<lparr>vr_registry := registry, vr_accepted_facts := hm_insert key f (vr_accepted_facts st)\<rparr>,
                    RO_Accepted) })"

definition relation_validate ::
    "'r relation_registry_ops \<Rightarrow> 'r validate_relation \<Rightarrow> relation_proposal \<Rightarrow>
     ('r validate_relation \<times> relation_validation) option" where
  "relation_validate ops st p = do {
     digest \<leftarrow> digest_proposal p;
     let registry_version = rr_registry_version ops (vr_registry st);
     let registered_before = rr_registered_count ops (vr_registry st);
     (st', outcome) \<leftarrow> relation_decide ops st p;
     let stored_as_fact = (outcome = RO_Accepted \<and>
           hm_contains (vr_accepted_facts st') (fact_key (lp_predicate_id p) (lp_subject p) (lp_object p)));
     let exposed_as_query_fact = (stored_as_fact \<and> query_has_fact st' (lp_predicate_id p) (lp_subject p) (lp_object p));
     let registry_unchanged = (rr_registered_count ops (vr_registry st') = registered_before \<and>
           rr_registered_count ops (vr_registry st') = vr_initial_registered_count st');
     Some (st', \<lparr>lv_c13_version = C13_GATE_VERSION, lv_registry_version = registry_version, lv_outcome = outcome,
       lv_predicate_id = lp_predicate_id p, lv_subject = lp_subject p, lv_object = lp_object p,
       lv_proposed_owner = lp_proposed_owner p, lv_registry_unchanged = registry_unchanged,
       lv_stored_as_fact = stored_as_fact, lv_exposed_as_query_fact = exposed_as_query_fact,
       lv_input_chain_digest = digest\<rparr>) }"

fun relation_run ::
    "'r relation_registry_ops \<Rightarrow> relation_proposal list \<Rightarrow> 'r validate_relation \<Rightarrow>
     ('r validate_relation \<times> relation_validation list) option" where
  "relation_run ops [] st = Some (st, [])"
| "relation_run ops (p # ps) st =
     do { (st1, v) \<leftarrow> relation_validate ops st p;
          (st2, vs) \<leftarrow> relation_run ops ps st1;
          Some (st2, v # vs) }"

section \<open>Registries\<close>

record closed_registry =
  cg_version :: string
  cg_predicates :: "(string, registered_predicate) hashmap"
  cg_facts :: "(string, relation_fact) hashmap"

definition with_family_a_predicate :: "closed_registry option" where
  "with_family_a_predicate = do {
     predicate_id \<leftarrow> expect (parse_id ''predicate id'' ''amends'' MAX_ID_LEN);
     owner \<leftarrow> expect (parse_id ''family id'' ''family-A'' MAX_ID_LEN);
     version \<leftarrow> expect (parse_id ''registry version'' DEFAULT_REGISTRY_VERSION MAX_ID_LEN);
     Some \<lparr>cg_version = version,
           cg_predicates = hm_insert predicate_id \<lparr>rp_predicate_id = predicate_id, rp_owner_family = owner\<rparr> [],
           cg_facts = []\<rparr> }"

definition closed_store_fact :: "relation_fact \<Rightarrow> closed_registry \<Rightarrow> closed_registry \<times> bool" where
  "closed_store_fact f r =
     (r\<lparr>cg_facts := hm_insert (fact_key (lf_predicate_id f) (lf_subject f) (lf_object f)) f (cg_facts r)\<rparr>, True)"

definition closed_registry_ops :: "closed_registry relation_registry_ops" where
  "closed_registry_ops =
     \<lparr>rr_registry_version = cg_version,
      rr_lookup = (\<lambda>r p. hm_get (cg_predicates r) p),
      rr_registered_count = (\<lambda>r. hm_len (cg_predicates r)),
      rr_try_store_fact = (\<lambda>f r. Some (closed_store_fact f r)),
      rr_fact_count = (\<lambda>r. hm_len (cg_facts r)),
      rr_contains_fact = (\<lambda>r p s ob. hm_contains (cg_facts r) (fact_key p s ob))\<rparr>"

record open_registry =
  og_inner :: closed_registry
  og_illicit_facts :: nat

definition open_registry_ops :: "open_registry relation_registry_ops" where
  "open_registry_ops =
     \<lparr>rr_registry_version = (\<lambda>r. cg_version (og_inner r)),
      rr_lookup = (\<lambda>r p. hm_get (cg_predicates (og_inner r)) p),
      rr_registered_count = (\<lambda>r. hm_len (cg_predicates (og_inner r))),
      rr_try_store_fact = (\<lambda>f r. do {
        n \<leftarrow> u64_succ (og_illicit_facts r);
        let (inner, stored) = closed_store_fact f (og_inner r);
        Some (\<lparr>og_inner = inner, og_illicit_facts = n\<rparr>, stored) }),
      rr_fact_count = (\<lambda>r. hm_len (cg_facts (og_inner r))),
      rr_contains_fact = (\<lambda>r p s ob. hm_contains (cg_facts (og_inner r)) (fact_key p s ob))\<rparr>"

section \<open>Facts and results\<close>

definition proposal_wf :: "relation_proposal \<Rightarrow> bool" where
  "proposal_wf p = (valid_id MAX_ID_LEN (lp_predicate_id p) \<and> valid_id MAX_ID_LEN (lp_subject p) \<and>
     valid_id MAX_ID_LEN (lp_object p) \<and> valid_id MAX_ID_LEN (lp_proposed_owner p) \<and>
     list_all (valid_id MAX_ID_LEN) (lp_evidence_refs p))"

definition triple :: "relation_validation \<Rightarrow> string \<times> string \<times> string" where
  "triple v = (lv_predicate_id v, lv_subject v, lv_object v)"

definition triple_wf :: "string \<times> string \<times> string \<Rightarrow> bool" where
  "triple_wf t = (case t of (p, s, ob) \<Rightarrow> valid_id MAX_ID_LEN p \<and> valid_id MAX_ID_LEN s \<and> valid_id MAX_ID_LEN ob)"

definition has_fact :: "'r validate_relation \<Rightarrow> string \<times> string \<times> string \<Rightarrow> bool" where
  "has_fact st t = (case t of (p, s, ob) \<Rightarrow> query_has_fact st p s ob)"

lemmas bar_ids = bar_inject [of MAX_ID_LEN _ MAX_ID_LEN]

lemma fact_key_inject:
  "triple_wf (p, s, ob) \<Longrightarrow> triple_wf (p', s', ob') \<Longrightarrow>
     fact_key p s ob = fact_key p' s' ob' \<longleftrightarrow> p = p' \<and> s = s' \<and> ob = ob'"
  by (simp add: fact_key_def triple_wf_def bar_ids)

lemma digest_proposal_total: "digest_proposal p = Some (digest_bytes (proposal_material p))"
proof -
  have "valid_id MAX_ID_LEN (digest_bytes (proposal_material p))"
    by (simp add: digest_bytes_def valid_fnv_label MAX_ID_LEN_def)
  then show ?thesis by (simp add: digest_proposal_def parse_id_valid)
qed

text \<open>When a registry entry lets a proposal pass.\<close>

definition entry_outcome :: "registered_predicate option \<Rightarrow> relation_proposal \<Rightarrow> relation_outcome" where
  "entry_outcome entry p =
     (case entry of
        None \<Rightarrow> RO_UnknownPredicate
      | Some reg \<Rightarrow> if rp_owner_family reg \<noteq> lp_proposed_owner p then RO_WrongOwner
          else if lp_evidence_refs p = [] then RO_InsufficientEvidence else RO_Accepted)"

definition fact_of :: "relation_proposal \<Rightarrow> relation_fact" where
  "fact_of p = \<lparr>lf_predicate_id = lp_predicate_id p, lf_subject = lp_subject p, lf_object = lp_object p,
     lf_owner_family = lp_proposed_owner p\<rparr>"

lemma relation_decide_eq:
  "relation_decide ops st p =
     (let out = entry_outcome (rr_lookup ops (vr_registry st) (lp_predicate_id p)) p
      in if out = RO_Accepted
         then (case rr_try_store_fact ops (fact_of p) (vr_registry st) of
                 None \<Rightarrow> None
               | Some (r, _) \<Rightarrow> Some (st\<lparr>vr_registry := r, vr_accepted_facts :=
                   hm_insert (fact_key (lp_predicate_id p) (lp_subject p) (lp_object p)) (fact_of p) (vr_accepted_facts st)\<rparr>, out))
         else Some (st, out))"
  by (auto simp: relation_decide_def entry_outcome_def fact_of_def Let_def split: option.split)

lemma relation_validate_cases:
  assumes "relation_validate ops st p = Some (st', v)" "proposal_wf p"
  shows "triple v = (lp_predicate_id p, lp_subject p, lp_object p)" "triple_wf (triple v)"
    "lv_outcome v = entry_outcome (rr_lookup ops (vr_registry st) (lp_predicate_id p)) p"
    "lv_stored_as_fact v = (lv_outcome v = RO_Accepted)" "lv_exposed_as_query_fact v = (lv_outcome v = RO_Accepted)"
    "triple_wf t \<Longrightarrow> has_fact st' t \<longleftrightarrow> has_fact st t \<or> (lv_outcome v = RO_Accepted \<and> t = triple v)"
    "lv_input_chain_digest v = digest_bytes (proposal_material p)"
proof -
  from assms(1) obtain out where d: "relation_decide ops st p = Some (st', out)"
    and v: "lv_outcome v = out" "triple v = (lp_predicate_id p, lp_subject p, lp_object p)"
      "lv_stored_as_fact v = (out = RO_Accepted \<and>
         hm_contains (vr_accepted_facts st') (fact_key (lp_predicate_id p) (lp_subject p) (lp_object p)))"
      "lv_exposed_as_query_fact v = (lv_stored_as_fact v \<and>
         query_has_fact st' (lp_predicate_id p) (lp_subject p) (lp_object p))"
      "lv_input_chain_digest v = digest_bytes (proposal_material p)"
    by (auto simp: relation_validate_def digest_proposal_total Let_def triple_def bind_eq_Some_conv)
  show "triple v = (lp_predicate_id p, lp_subject p, lp_object p)"
    "lv_input_chain_digest v = digest_bytes (proposal_material p)" by (fact v)+
  show wf: "triple_wf (triple v)" using v(2) assms(2) by (simp add: triple_wf_def proposal_wf_def)
  show "lv_outcome v = entry_outcome (rr_lookup ops (vr_registry st) (lp_predicate_id p)) p"
    using d by (auto simp: v(1) relation_decide_eq Let_def split: if_splits option.splits)
  show "lv_stored_as_fact v = (lv_outcome v = RO_Accepted)" "lv_exposed_as_query_fact v = (lv_outcome v = RO_Accepted)"
    using d v by (auto simp: relation_decide_eq Let_def query_has_fact_def split: if_splits option.splits)
  show "has_fact st' t \<longleftrightarrow> has_fact st t \<or> (lv_outcome v = RO_Accepted \<and> t = triple v)" if "triple_wf t"
  proof (cases "out = RO_Accepted")
    case True
    with d have facts: "vr_accepted_facts st' =
        hm_insert (fact_key (lp_predicate_id p) (lp_subject p) (lp_object p)) (fact_of p) (vr_accepted_facts st)"
      by (auto simp: relation_decide_eq Let_def split: if_splits option.splits)
    obtain a b c where t: "t = (a, b, c)" by (cases t) auto
    have "fact_key a b c = fact_key (lp_predicate_id p) (lp_subject p) (lp_object p) \<longleftrightarrow> t = triple v"
      using fact_key_inject [of a b c "lp_predicate_id p" "lp_subject p" "lp_object p"] that wf v(2) by (simp add: t)
    with True v(1) show ?thesis by (auto simp: has_fact_def query_has_fact_def facts t)
  next
    case False
    with d v(1) show ?thesis by (auto simp: relation_decide_eq Let_def split: if_splits option.splits)
  qed
qed

lemma relation_run_facts:
  "relation_run ops ps st = Some (st', vs) \<Longrightarrow> \<forall>p \<in> set ps. proposal_wf p \<Longrightarrow>
     (\<forall>t. triple_wf t \<longrightarrow> (has_fact st' t \<longleftrightarrow> has_fact st t \<or> (\<exists>v \<in> set vs. lv_outcome v = RO_Accepted \<and> triple v = t))) \<and>
     (\<forall>v \<in> set vs. lv_stored_as_fact v = (lv_outcome v = RO_Accepted) \<and>
        lv_exposed_as_query_fact v = (lv_outcome v = RO_Accepted))"
proof (induction ps arbitrary: st vs)
  case (Cons p ps)
  obtain st1 v vs1 where step: "relation_validate ops st p = Some (st1, v)" and run: "relation_run ops ps st1 = Some (st', vs1)"
    and vs: "vs = v # vs1" using Cons.prems(1) by (auto simp: bind_eq_Some_conv)
  have wf: "proposal_wf p" using Cons.prems(2) by simp
  note c = relation_validate_cases [OF step wf]
  from Cons.IH [OF run] Cons.prems(2) have IH:
    "\<And>t. triple_wf t \<Longrightarrow> has_fact st' t \<longleftrightarrow> has_fact st1 t \<or> (\<exists>v \<in> set vs1. lv_outcome v = RO_Accepted \<and> triple v = t)"
    "\<forall>v \<in> set vs1. lv_stored_as_fact v = (lv_outcome v = RO_Accepted) \<and>
        lv_exposed_as_query_fact v = (lv_outcome v = RO_Accepted)" by auto
  have "has_fact st' t \<longleftrightarrow> has_fact st t \<or> (\<exists>v \<in> set vs. lv_outcome v = RO_Accepted \<and> triple v = t)"
    if "triple_wf t" for t
    using IH(1) [OF that] c(6) [OF that] unfolding vs by auto
  with IH(2) c(4,5) show ?case unfolding vs by simp
qed simp

section \<open>The closed registry\<close>

text \<open>
  The contract of a closed registry: storing a fact does not panic, changes no entry and makes exactly
  that fact known. On it the gate is a function of the proposal alone.
\<close>

locale closed_relation_registry =
  fixes ops :: "'r relation_registry_ops"
  assumes store_ok: "\<exists>r' b. rr_try_store_fact ops f r = Some (r', b)"
    and store_lookup: "rr_try_store_fact ops f r = Some (r', b) \<Longrightarrow> rr_lookup ops r' = rr_lookup ops r"
    and store_count: "rr_try_store_fact ops f r = Some (r', b) \<Longrightarrow> rr_registered_count ops r' = rr_registered_count ops r"
    and store_fact: "rr_try_store_fact ops f r = Some (r', b) \<Longrightarrow>
      rr_contains_fact ops r' p s ob \<longleftrightarrow>
        rr_contains_fact ops r p s ob \<or> fact_key p s ob = fact_key (lf_predicate_id f) (lf_subject f) (lf_object f)"
begin

definition same_registry :: "'r validate_relation \<Rightarrow> 'r validate_relation \<Rightarrow> bool" where
  "same_registry st0 st = (rr_lookup ops (vr_registry st) = rr_lookup ops (vr_registry st0) \<and>
     rr_registered_count ops (vr_registry st) = vr_initial_registered_count st \<and>
     (\<forall>p s ob. rr_contains_fact ops (vr_registry st) p s ob = query_has_fact st p s ob))"

lemma validate_closed:
  assumes "same_registry st0 st"
  shows "\<exists>st' v. relation_validate ops st p = Some (st', v) \<and> same_registry st0 st' \<and> lv_registry_unchanged v \<and>
    lv_outcome v = entry_outcome (rr_lookup ops (vr_registry st0) (lp_predicate_id p)) p"
proof -
  let ?out = "entry_outcome (rr_lookup ops (vr_registry st0) (lp_predicate_id p)) p"
  obtain r' b where s: "rr_try_store_fact ops (fact_of p) (vr_registry st) = Some (r', b)" using store_ok by blast
  define st1 where "st1 = (if ?out = RO_Accepted then st\<lparr>vr_registry := r', vr_accepted_facts :=
      hm_insert (fact_key (lp_predicate_id p) (lp_subject p) (lp_object p)) (fact_of p) (vr_accepted_facts st)\<rparr> else st)"
  have d: "relation_decide ops st p = Some (st1, ?out)"
    using assms s by (simp add: relation_decide_eq same_registry_def st1_def Let_def)
  have "same_registry st0 st1"
    using assms store_lookup [OF s] store_count [OF s] store_fact [OF s]
    by (auto simp: same_registry_def st1_def query_has_fact_def fact_of_def)
  moreover have "rr_registered_count ops (vr_registry st1) = rr_registered_count ops (vr_registry st)"
    using store_count [OF s] by (simp add: st1_def)
  ultimately show ?thesis
    by (simp add: relation_validate_def digest_proposal_total d Let_def same_registry_def)
qed

lemma run_closed:
  "same_registry st0 st \<Longrightarrow> \<exists>st' vs. relation_run ops ps st = Some (st', vs) \<and> same_registry st0 st' \<and>
     list_all lv_registry_unchanged vs \<and>
     map lv_outcome vs = map (\<lambda>p. entry_outcome (rr_lookup ops (vr_registry st0) (lp_predicate_id p)) p) ps"
proof (induction ps arbitrary: st)
  case (Cons p ps)
  obtain st1 v where s: "relation_validate ops st p = Some (st1, v)" "same_registry st0 st1" "lv_registry_unchanged v"
    "lv_outcome v = entry_outcome (rr_lookup ops (vr_registry st0) (lp_predicate_id p)) p"
    using validate_closed [OF Cons.prems] by blast
  from Cons.IH [OF s(2)] s show ?case by auto
qed simp

end

interpretation closed: closed_relation_registry closed_registry_ops
  by unfold_locales (auto simp: closed_registry_ops_def closed_store_fact_def)

section \<open>Properties\<close>

text \<open>The gate's query surface holds exactly what it accepted: after any proposals to a new gate over any
registry, a triple is a query fact exactly when some proposal of it was accepted, and every result reports storage
and exposure exactly for the accepted outcome.\<close>

theorem relation_query_facts_exact:
  assumes "relation_run ops ps (relation_new ops registry) = Some (st, vs)" "\<forall>p \<in> set ps. proposal_wf p"
  shows "(\<forall>p s ob. valid_id MAX_ID_LEN p \<and> valid_id MAX_ID_LEN s \<and> valid_id MAX_ID_LEN ob \<longrightarrow>
      (query_has_fact st p s ob \<longleftrightarrow> (\<exists>v \<in> set vs. lv_outcome v = RO_Accepted \<and> triple v = (p, s, ob)))) \<and>
    (\<forall>v \<in> set vs. lv_stored_as_fact v = (lv_outcome v = RO_Accepted) \<and>
       lv_exposed_as_query_fact v = (lv_outcome v = RO_Accepted))"
proof -
  have "\<not> has_fact (relation_new ops registry) t" for t
    by (cases t) (simp add: has_fact_def query_has_fact_def relation_new_def)
  with relation_run_facts [OF assms] show ?thesis
    by (fastforce simp: triple_wf_def has_fact_def)
qed

text \<open>On the closed registry the gate never panics and is a function of each proposal alone, in any order and
however often: accepted exactly when the registered owner proposes it with evidence. The registry stays as it was, and
its own facts are those of the gate.\<close>

theorem relation_closed_registry:
  assumes "cg_facts registry = []"
  shows "\<exists>st vs. relation_run closed_registry_ops ps (relation_new closed_registry_ops registry) = Some (st, vs) \<and>
    map lv_outcome vs = map (\<lambda>p. entry_outcome (hm_get (cg_predicates registry) (lp_predicate_id p)) p) ps \<and>
    list_all lv_registry_unchanged vs \<and>
    (\<forall>p. hm_get (cg_predicates (vr_registry st)) p = hm_get (cg_predicates registry) p) \<and>
    (\<forall>p s ob. hm_contains (cg_facts (vr_registry st)) (fact_key p s ob) = query_has_fact st p s ob)"
proof -
  let ?st = "relation_new closed_registry_ops registry"
  have "closed.same_registry ?st ?st"
    unfolding closed.same_registry_def
    using assms by (simp add: relation_new_def closed_registry_ops_def query_has_fact_def)
  from closed.run_closed [OF this, of ps] obtain st vs where
    "relation_run closed_registry_ops ps ?st = Some (st, vs)" "closed.same_registry ?st st"
    "list_all lv_registry_unchanged vs"
    "map lv_outcome vs = map (\<lambda>p. entry_outcome (rr_lookup closed_registry_ops (vr_registry ?st) (lp_predicate_id p)) p) ps"
    by blast
  then show ?thesis
    unfolding closed.same_registry_def
    by (intro exI [of _ st] exI [of _ vs]) (simp add: closed_registry_ops_def relation_new_def fun_eq_iff)
qed

lemma material_evidence_inject:
  assumes "list_all (valid_id MAX_ID_LEN) xs" "list_all (valid_id MAX_ID_LEN) ys" "valid_id MAX_ID_LEN a" "valid_id MAX_ID_LEN b"
  shows "a @ concat (map (\<lambda>x. CHR ''|'' # x) xs) = b @ concat (map (\<lambda>x. CHR ''|'' # x) ys) \<longleftrightarrow> a = b \<and> xs = ys"
  using assms
proof (induction xs arbitrary: a b ys)
  case Nil
  show ?case
  proof (cases ys)
    case (Cons y ys')
    have "CHR ''|'' \<notin> set a" using Nil.prems(3) by (rule valid_id_notin) simp
    then show ?thesis by (auto simp: Cons)
  qed simp
next
  case (Cons x xs)
  have a: "CHR ''|'' \<notin> set a" "CHR ''|'' \<notin> set b" using Cons.prems(3,4) by (simp_all add: valid_id_notin [of MAX_ID_LEN])
  show ?case
  proof (cases ys)
    case Nil
    with a show ?thesis by auto
  next
    case (Cons y ys')
    then show ?thesis
      using Cons.IH [of ys' x y] Cons.prems sep_append_inject [OF a] by auto
  qed
qed

lemma proposal_material_eq:
  "proposal_material p = bar (lp_predicate_id p) (bar (lp_subject p) (bar (lp_object p)
     (lp_proposed_owner p @ concat (map (\<lambda>x. CHR ''|'' # x) (lp_evidence_refs p)))))"
proof -
  have "foldl (\<lambda>m x. m @ CHR ''|'' # x) m xs = m @ concat (map (\<lambda>x. CHR ''|'' # x) xs)" for m and xs :: "string list"
    by (induction xs arbitrary: m) simp_all
  then show ?thesis by (simp add: proposal_material_def bar_def)
qed

text \<open>The digest input determines the proposal: two proposals of validated identifiers with the same hashed
material are equal, evidence lists of different lengths included, so only a hash collision can identify two.\<close>

theorem proposal_material_injective:
  assumes "proposal_wf p" "proposal_wf q"
  shows "proposal_material p = proposal_material q \<longleftrightarrow> p = q"
proof -
  have "proposal_material p = proposal_material q \<longleftrightarrow>
      lp_predicate_id p = lp_predicate_id q \<and> lp_subject p = lp_subject q \<and> lp_object p = lp_object q \<and>
      lp_proposed_owner p = lp_proposed_owner q \<and> lp_evidence_refs p = lp_evidence_refs q"
    using assms unfolding proposal_wf_def proposal_material_eq
    by (simp add: bar_ids material_evidence_inject)
  then show ?thesis by (cases p, cases q) auto
qed

section \<open>Witnesses\<close>

definition sample_proposal :: "string list \<Rightarrow> relation_proposal" where
  "sample_proposal ev = \<lparr>lp_predicate_id = ''amends'', lp_subject = ''a'', lp_object = ''b'',
     lp_proposed_owner = ''family-A'', lp_evidence_refs = ev\<rparr>"

lemma sample_proposal_wf: "proposal_wf (sample_proposal [])" "proposal_wf (sample_proposal [''e''])"
proof -
  have "valid_id MAX_ID_LEN ''amends''" "valid_id MAX_ID_LEN ''a''" "valid_id MAX_ID_LEN ''b''"
    "valid_id MAX_ID_LEN ''family-A''" "valid_id MAX_ID_LEN ''e''" by code_simp+
  then show "proposal_wf (sample_proposal [])" "proposal_wf (sample_proposal [''e''])"
    by (simp_all add: proposal_wf_def sample_proposal_def)
qed

definition sample_registry :: closed_registry where
  "sample_registry = \<lparr>cg_version = ''R1'',
     cg_predicates = [(''amends'', \<lparr>rp_predicate_id = ''amends'', rp_owner_family = ''family-A''\<rparr>)], cg_facts = []\<rparr>"

theorem relation_closed_registry_witness:
  "\<exists>st vs. relation_run closed_registry_ops [sample_proposal [''e''], sample_proposal []]
      (relation_new closed_registry_ops sample_registry) = Some (st, vs) \<and>
     map lv_outcome vs = [RO_Accepted, RO_InsufficientEvidence]"
proof -
  have "cg_facts sample_registry = []" by (simp add: sample_registry_def)
  from relation_closed_registry [OF this, of "[sample_proposal [''e''], sample_proposal []]"] show ?thesis
    by (force simp: entry_outcome_def sample_registry_def sample_proposal_def hm_get_def)
qed

theorem relation_query_facts_exact_witness:
  "\<exists>(st :: closed_registry validate_relation) vs. query_has_fact st ''amends'' ''a'' ''b'' \<longleftrightarrow>
     (\<exists>v \<in> set vs. lv_outcome v = RO_Accepted \<and> triple v = (''amends'', ''a'', ''b''))"
proof -
  have "cg_facts sample_registry = []" by (simp add: sample_registry_def)
  then have "closed.same_registry (relation_new closed_registry_ops sample_registry) (relation_new closed_registry_ops sample_registry)"
    unfolding closed.same_registry_def by (simp add: relation_new_def closed_registry_ops_def query_has_fact_def)
  from closed.run_closed [OF this] obtain st vs where run: "relation_run closed_registry_ops [sample_proposal [''e'']]
      (relation_new closed_registry_ops sample_registry) = Some (st, vs)" by blast
  have "\<forall>p \<in> set [sample_proposal [''e'']]. proposal_wf p" by (simp add: sample_proposal_wf)
  from relation_query_facts_exact [OF run this] sample_proposal_wf(1) show ?thesis
    by (intro exI [of _ st] exI [of _ vs]) (simp add: proposal_wf_def sample_proposal_def)
qed

theorem proposal_material_injective_witness:
  "proposal_material (sample_proposal []) \<noteq> proposal_material (sample_proposal [''e''])"
  using proposal_material_injective [OF sample_proposal_wf] by (simp add: sample_proposal_def)

end
