(* ===== verification/LN_Closure.thy ===== *)
theory LN_Closure
  imports LN_Ids
begin

text \<open>
  \<open>crates/ln-closure\<close>: the dependency closure of a change (\<open>ComputeDependencyClosure::compute\<close>,
  \<open>application.rs\<close>) over any \<open>DependencyEvidencePort\<close>, and the fixed and the progress-claiming evidence
  (\<open>adapters.rs\<close>). Every read of the port is a step of its state. The breadth-first loop is a \<open>function\<close>:
  its termination needs only the fan-out bound, not the acyclicity of the dependencies.
\<close>

section \<open>Domain\<close>

definition CLOSURE_POLICY_VERSION :: string where
  "CLOSURE_POLICY_VERSION = ''hc11:dependency-closure:v1''"

definition MAX_BOUNDED_FANOUT :: nat where
  "MAX_BOUNDED_FANOUT = 8"

datatype closure_status =
  CS_Complete | CS_Incomplete | CS_Unknown | CS_Unbounded | CS_RuleVersionMismatch

fun closure_status_as_str :: "closure_status \<Rightarrow> string" where
  "closure_status_as_str CS_Complete = ''complete''"
| "closure_status_as_str CS_Incomplete = ''incomplete''"
| "closure_status_as_str CS_Unknown = ''unknown''"
| "closure_status_as_str CS_Unbounded = ''unbounded''"
| "closure_status_as_str CS_RuleVersionMismatch = ''rule-version-mismatch''"

definition closure_is_complete :: "closure_status \<Rightarrow> bool" where
  "closure_is_complete s = (s = CS_Complete)"

datatype publication_eligibility = Eligible | Blocked

fun eligibility_as_str :: "publication_eligibility \<Rightarrow> string" where
  "eligibility_as_str Eligible = ''eligible''"
| "eligibility_as_str Blocked = ''blocked''"

definition is_blocked :: "publication_eligibility \<Rightarrow> bool" where
  "is_blocked e = (e = Blocked)"

datatype completeness_claim = NoClaim | ProgressAsComplete | QueueDepthAsComplete | InventedAffectedSet

fun claim_as_str :: "completeness_claim \<Rightarrow> string" where
  "claim_as_str NoClaim = ''none''"
| "claim_as_str ProgressAsComplete = ''progress_as_complete''"
| "claim_as_str QueueDepthAsComplete = ''queue_depth_as_complete''"
| "claim_as_str InventedAffectedSet = ''invented_affected_set''"

definition claim_is_forbidden :: "completeness_claim \<Rightarrow> bool" where
  "claim_is_forbidden c = (c \<noteq> NoClaim)"

record closure_request =
  uq_request_id :: string
  uq_changed :: "string list"
  uq_expected_rule_version :: string
  uq_completeness_claim :: completeness_claim
  uq_request_incremental_publication :: bool

record closure_trace =
  ut_policy_version :: string
  ut_request_id :: string
  ut_status :: closure_status
  ut_publication_eligibility :: publication_eligibility
  ut_changed :: "string list"
  ut_affected :: "string list"
  ut_missing :: "string list"
  ut_stale :: "string list"
  ut_observed_rule_version :: "string option"
  ut_expected_rule_version :: string
  ut_completeness_claim :: completeness_claim
  ut_completeness_claim_applied :: bool
  ut_progress_used_as_completeness :: bool
  ut_queue_depth_used_as_completeness :: bool
  ut_fanout :: nat

record closure_result =
  ux_status :: closure_status
  ux_publication_eligibility :: publication_eligibility
  ux_changed :: "string list"
  ux_affected :: "string list"
  ux_missing :: "string list"
  ux_stale :: "string list"
  ux_completeness_claim_applied :: bool
  ux_progress_used_as_completeness :: bool
  ux_queue_depth_used_as_completeness :: bool
  ux_trace :: closure_trace

section \<open>The service\<close>

record 'e dependency_evidence_ops =
  dp_rule_version :: "'e \<Rightarrow> 'e \<times> string"
  dp_registered_nodes :: "'e \<Rightarrow> ('e \<times> string list) option"
  dp_dependencies_of :: "'e \<Rightarrow> string \<Rightarrow> 'e \<times> string list option"
  dp_progress_count :: "'e \<Rightarrow> 'e \<times> nat"
  dp_queue_depth :: "'e \<Rightarrow> 'e \<times> nat"

definition closure_finish ::
    "'e dependency_evidence_ops \<Rightarrow> 'e \<Rightarrow> closure_request \<Rightarrow> closure_status \<Rightarrow> publication_eligibility \<Rightarrow>
     string list \<Rightarrow> string list \<Rightarrow> string list \<Rightarrow> bool \<Rightarrow> bool \<Rightarrow> bool \<Rightarrow> 'e \<times> closure_result" where
  "closure_finish ops ev request status eligibility affected missing stale claim_applied progress_used queue_used =
     (let eligibility = (if closure_is_complete status then eligibility else Blocked);
          fanout = length affected;
          (ev, observed) = dp_rule_version ops ev
      in (ev, \<lparr>ux_status = status, ux_publication_eligibility = eligibility, ux_changed = uq_changed request,
               ux_affected = affected, ux_missing = missing, ux_stale = stale,
               ux_completeness_claim_applied = claim_applied, ux_progress_used_as_completeness = progress_used,
               ux_queue_depth_used_as_completeness = queue_used,
               ux_trace = \<lparr>ut_policy_version = CLOSURE_POLICY_VERSION, ut_request_id = uq_request_id request,
                 ut_status = status, ut_publication_eligibility = eligibility, ut_changed = uq_changed request,
                 ut_affected = affected, ut_missing = missing, ut_stale = stale,
                 ut_observed_rule_version = Some observed,
                 ut_expected_rule_version = uq_expected_rule_version request,
                 ut_completeness_claim = uq_completeness_claim request,
                 ut_completeness_claim_applied = claim_applied,
                 ut_progress_used_as_completeness = progress_used,
                 ut_queue_depth_used_as_completeness = queue_used, ut_fanout = fanout\<rparr>\<rparr>))"

text \<open>The evidence as frozen at the start: the registered nodes and their dependencies.\<close>

type_synonym frozen_evidence = "string list \<times> (string, string list) hashmap"

fun freeze_nodes ::
    "'e dependency_evidence_ops \<Rightarrow> 'e \<Rightarrow> string list \<Rightarrow> frozen_evidence \<Rightarrow> 'e \<times> frozen_evidence" where
  "freeze_nodes ops ev [] frozen = (ev, frozen)"
| "freeze_nodes ops ev (node # nodes) (registered, deps) =
     (let (ev, found) = dp_dependencies_of ops ev node
      in freeze_nodes ops ev nodes
           (List.insert node registered,
            hm_insert node (case found of Some ds \<Rightarrow> ds | None \<Rightarrow> []) deps))"

definition closure_freeze ::
    "'e dependency_evidence_ops \<Rightarrow> 'e \<Rightarrow> ('e \<times> string \<times> frozen_evidence) option" where
  "closure_freeze ops ev = do {
     let (ev, version) = dp_rule_version ops ev;
     (ev, nodes) \<leftarrow> dp_registered_nodes ops ev;
     let (ev, frozen) = freeze_nodes ops ev nodes ([], []);
     let (ev, _) = dp_progress_count ops ev;
     let (ev, _) = dp_queue_depth ops ev;
     Some (ev, version, frozen) }"

definition is_registered :: "frozen_evidence \<Rightarrow> string \<Rightarrow> bool" where
  "is_registered frozen node = (node \<in> set (fst frozen))"

definition frozen_deps :: "frozen_evidence \<Rightarrow> string \<Rightarrow> string list" where
  "frozen_deps frozen node = (case hm_get (snd frozen) node of Some ds \<Rightarrow> ds | None \<Rightarrow> [])"

text \<open>The loop over the changed nodes: those not registered, and whether there are any.\<close>

fun seed_missing :: "frozen_evidence \<Rightarrow> string list \<Rightarrow> string list \<Rightarrow> string list" where
  "seed_missing frozen [] missing = missing"
| "seed_missing frozen (node # nodes) missing =
     seed_missing frozen nodes
       (if \<not> is_registered frozen node \<and> node \<notin> set missing then missing @ [node] else missing)"

definition unknown_seed :: "frozen_evidence \<Rightarrow> string list \<Rightarrow> bool" where
  "unknown_seed frozen changed = list_ex (\<lambda>node. \<not> is_registered frozen node) changed"

text \<open>The loop over the dependencies of one node, on the missing nodes and the queue.\<close>

fun expand_deps ::
    "frozen_evidence \<Rightarrow> string list \<Rightarrow> string list \<Rightarrow> string list \<Rightarrow> string list \<Rightarrow> string list \<times> string list" where
  "expand_deps frozen seen [] missing queue = (missing, queue)"
| "expand_deps frozen seen (dep # deps) missing queue =
     (if dep \<in> set seen then expand_deps frozen seen deps missing queue
      else if \<not> is_registered frozen dep
        then expand_deps frozen seen deps (if dep \<in> set missing then missing else missing @ [dep]) queue
      else expand_deps frozen seen deps missing (queue @ [dep]))"

text \<open>The loop over the queue: \<open>Inl\<close> when the fan-out bound is passed.\<close>

function closure_loop ::
    "frozen_evidence \<Rightarrow> string list \<Rightarrow> string list \<Rightarrow> string list \<Rightarrow> string list \<Rightarrow> string list \<Rightarrow>
     (string list \<times> string list) + (string list \<times> string list)" where
  "closure_loop frozen changed affected missing seen [] = Inr (affected, missing)"
| "closure_loop frozen changed affected missing seen (node # queue) =
     (if node \<in> set seen then closure_loop frozen changed affected missing seen queue
      else if length (affected @ [node]) > MAX_BOUNDED_FANOUT then Inl (affected @ [node], missing)
      else if \<not> is_registered frozen node
        then closure_loop frozen changed (affected @ [node])
               (if node \<notin> set changed \<and> node \<notin> set missing then missing @ [node] else missing) (node # seen) queue
      else let (missing', queue') = expand_deps frozen (node # seen) (frozen_deps frozen node) missing queue
           in closure_loop frozen changed (affected @ [node]) missing' (node # seen) queue')"
  by pat_completeness auto
termination
  by (relation "measures [\<lambda>(f, c, affected, m, s, q). Suc MAX_BOUNDED_FANOUT - length affected,
      \<lambda>(f, c, a, m, s, queue). length queue]") auto

definition closure_compute ::
    "'e dependency_evidence_ops \<Rightarrow> 'e \<Rightarrow> closure_request \<Rightarrow> ('e \<times> closure_result) option" where
  "closure_compute ops ev request =
     (if claim_is_forbidden (uq_completeness_claim request)
        then Some (closure_finish ops ev request CS_Incomplete Blocked [] (uq_changed request) [] False False False)
      else do {
        (ev, frozen_version, frozen) \<leftarrow> closure_freeze ops ev;
        if frozen_version \<noteq> uq_expected_rule_version request
          then Some (closure_finish ops ev request CS_RuleVersionMismatch Blocked [] [] [] False False False)
        else
          let changed = uq_changed request in
          case closure_loop frozen changed [] (seed_missing frozen changed []) [] changed of
            Inl (affected, missing) \<Rightarrow>
              Some (closure_finish ops ev request CS_Unbounded Blocked affected missing [] False False False)
          | Inr (affected, missing) \<Rightarrow>
              if unknown_seed frozen changed
                then Some (closure_finish ops ev request CS_Unknown Blocked affected missing [] False False False)
              else if missing \<noteq> []
                then Some (closure_finish ops ev request CS_Incomplete Blocked affected missing [] False False False)
              else Some (closure_finish ops ev request CS_Complete Eligible affected missing [] False False False) })"

section \<open>Evidence adapters\<close>

record fixed_dependency_evidence =
  fd_rule_version :: string
  fd_deps :: "(string, string list) hashmap"
  fd_progress_count :: nat
  fd_queue_depth :: nat

definition fixed_new :: "string \<Rightarrow> fixed_dependency_evidence" where
  "fixed_new version = \<lparr>fd_rule_version = version, fd_deps = [], fd_progress_count = 0, fd_queue_depth = 0\<rparr>"

definition fixed_with_node :: "string \<Rightarrow> string list \<Rightarrow> fixed_dependency_evidence \<Rightarrow> fixed_dependency_evidence" where
  "fixed_with_node node deps ev = ev\<lparr>fd_deps := hm_insert node deps (fd_deps ev)\<rparr>"

definition fixed_with_progress :: "nat \<Rightarrow> nat \<Rightarrow> fixed_dependency_evidence \<Rightarrow> fixed_dependency_evidence" where
  "fixed_with_progress progress queue ev = ev\<lparr>fd_progress_count := progress, fd_queue_depth := queue\<rparr>"

definition fixed_registered_nodes :: "fixed_dependency_evidence \<Rightarrow> string list option" where
  "fixed_registered_nodes ev =
     those (map (\<lambda>k. expect (parse_id ''node id'' k MAX_ID_LEN)) (hm_keys (fd_deps ev)))"

definition fixed_dependency_ops :: "fixed_dependency_evidence dependency_evidence_ops" where
  "fixed_dependency_ops =
     \<lparr>dp_rule_version = (\<lambda>ev. (ev, fd_rule_version ev)),
      dp_registered_nodes = (\<lambda>ev. map_option (Pair ev) (fixed_registered_nodes ev)),
      dp_dependencies_of = (\<lambda>ev node. (ev, hm_get (fd_deps ev) node)),
      dp_progress_count = (\<lambda>ev. (ev, fd_progress_count ev)),
      dp_queue_depth = (\<lambda>ev. (ev, fd_queue_depth ev))\<rparr>"

definition hostile_progress_ops :: "fixed_dependency_evidence dependency_evidence_ops" where
  "hostile_progress_ops =
     \<lparr>dp_rule_version = (\<lambda>ev. (ev, fd_rule_version ev)),
      dp_registered_nodes = (\<lambda>ev. map_option (Pair ev) (fixed_registered_nodes ev)),
      dp_dependencies_of = (\<lambda>ev node. (ev, Some (case hm_get (fd_deps ev) node of Some ds \<Rightarrow> ds | None \<Rightarrow> []))),
      dp_progress_count = (\<lambda>ev. (ev, 10000)),
      dp_queue_depth = (\<lambda>ev. (ev, 0))\<rparr>"

section \<open>Specification: reachability\<close>

text \<open>The reference: the transitive closure of the registered edges, from the changed nodes.\<close>

definition evidence_reach :: "string set \<Rightarrow> (string \<Rightarrow> string list) \<Rightarrow> string list \<Rightarrow> string set" where
  "evidence_reach nodes deps changed = {(a, b). a \<in> nodes \<and> b \<in> set (deps a)}\<^sup>* `` set changed"

definition expected_affected :: "string set \<Rightarrow> (string \<Rightarrow> string list) \<Rightarrow> string list \<Rightarrow> string set" where
  "expected_affected nodes deps changed = evidence_reach nodes deps changed \<inter> (nodes \<union> set changed)"

definition expected_status ::
    "string \<Rightarrow> string set \<Rightarrow> (string \<Rightarrow> string list) \<Rightarrow> closure_request \<Rightarrow> closure_status" where
  "expected_status version nodes deps request =
     (if uq_completeness_claim request \<noteq> NoClaim then CS_Incomplete
      else if version \<noteq> uq_expected_rule_version request then CS_RuleVersionMismatch
      else if MAX_BOUNDED_FANOUT < card (expected_affected nodes deps (uq_changed request)) then CS_Unbounded
      else if \<not> set (uq_changed request) \<subseteq> nodes then CS_Unknown
      else if \<not> evidence_reach nodes deps (uq_changed request) \<subseteq> nodes then CS_Incomplete
      else CS_Complete)"

text \<open>The same on the frozen evidence.\<close>

definition dependency :: "frozen_evidence \<Rightarrow> (string \<times> string) set" where
  "dependency frozen = {(a, b). is_registered frozen a \<and> b \<in> set (frozen_deps frozen a)}"

definition reached :: "frozen_evidence \<Rightarrow> string list \<Rightarrow> string set" where
  "reached frozen changed = (dependency frozen)\<^sup>* `` set changed"

text \<open>What the search visits: reached nodes that are registered or changed; what it misses: the unregistered.\<close>

definition visited :: "frozen_evidence \<Rightarrow> string list \<Rightarrow> string set" where
  "visited frozen changed = {x \<in> reached frozen changed. is_registered frozen x \<or> x \<in> set changed}"

definition unregistered :: "frozen_evidence \<Rightarrow> string list \<Rightarrow> string set" where
  "unregistered frozen changed = {x \<in> reached frozen changed. \<not> is_registered frozen x}"

lemma finite_visited: "finite (visited frozen changed)"
proof -
  have "visited frozen changed \<subseteq> set (fst frozen) \<union> set changed" by (auto simp: visited_def is_registered_def)
  then show ?thesis by (rule finite_subset) simp
qed

lemma changed_reached: "set changed \<subseteq> reached frozen changed"
  by (auto simp: reached_def)

lemma reached_step: "x \<in> reached frozen changed \<Longrightarrow> is_registered frozen x \<Longrightarrow> y \<in> set (frozen_deps frozen x) \<Longrightarrow>
    y \<in> reached frozen changed"
  by (auto simp: reached_def dependency_def intro: rtrancl_into_rtrancl)

lemma seed_missing_props:
  "distinct m \<Longrightarrow> distinct (seed_missing f ns m) \<and> set (seed_missing f ns m) = set m \<union> {x \<in> set ns. \<not> is_registered f x}"
proof (induction ns arbitrary: m)
  case (Cons n ns)
  have "distinct (if \<not> is_registered f n \<and> n \<notin> set m then m @ [n] else m)" using Cons.prems by simp
  from Cons.IH [OF this] show ?case by auto
qed simp

lemma expand_deps_props:
  "expand_deps f seen deps m q = (m', q') \<Longrightarrow> distinct m \<Longrightarrow>
     distinct m' \<and> set m' = set m \<union> {y \<in> set deps. y \<notin> set seen \<and> \<not> is_registered f y} \<and>
     set q' = set q \<union> {y \<in> set deps. y \<notin> set seen \<and> is_registered f y}"
proof (induction deps arbitrary: m q)
  case (Cons d deps)
  then show ?case by (fastforce split: if_splits)
qed simp

text \<open>The invariant of the queue loop.\<close>

definition covered :: "frozen_evidence \<Rightarrow> string list \<Rightarrow> string set \<Rightarrow> string list \<Rightarrow> bool" where
  "covered f affected known missing = (\<forall>x y. x \<in> set affected \<and> (x, y) \<in> dependency f \<longrightarrow>
     (if is_registered f y then y \<in> known else y \<in> set missing))"

lemma coveredD: "covered f a k m \<Longrightarrow> x \<in> set a \<Longrightarrow> (x, y) \<in> dependency f \<Longrightarrow>
    if is_registered f y then y \<in> k else y \<in> set m"
  unfolding covered_def by blast

definition loop_inv ::
    "frozen_evidence \<Rightarrow> string list \<Rightarrow> string list \<Rightarrow> string list \<Rightarrow> string list \<Rightarrow> string list \<Rightarrow> bool" where
  "loop_inv f changed affected missing seen queue =
     (set seen = set affected \<and> distinct affected \<and> length affected \<le> MAX_BOUNDED_FANOUT \<and>
      set affected \<union> set queue \<subseteq> visited f changed \<and> set changed \<subseteq> set affected \<union> set queue \<and>
      covered f affected (set affected \<union> set queue) missing \<and>
      distinct missing \<and> set missing \<subseteq> unregistered f changed \<and>
      (\<forall>x \<in> set changed. \<not> is_registered f x \<longrightarrow> x \<in> set missing))"

lemma loop_inv_done:
  assumes inv: "loop_inv f changed affected missing seen []"
  shows "set affected = visited f changed" "set missing = unregistered f changed"
proof -
  have step: "(is_registered f x \<or> x \<in> set changed \<longrightarrow> x \<in> set affected) \<and> (\<not> is_registered f x \<longrightarrow> x \<in> set missing)"
    if "x \<in> reached f changed" for x
  proof -
    from that obtain s where "s \<in> set changed" "(s, x) \<in> (dependency f)\<^sup>*" by (auto simp: reached_def)
    from this(2,1) show ?thesis
    proof (induction rule: rtrancl_induct)
      case base
      then show ?case using inv by (auto simp: loop_inv_def)
    next
      case (step y z)
      then have "y \<in> set affected" by (auto simp: dependency_def)
      with step(2) inv have "if is_registered f z then z \<in> set affected \<union> set [] else z \<in> set missing"
        by (intro coveredD [of f affected]) (simp_all add: loop_inv_def)
      then show ?case using inv by (auto simp: loop_inv_def split: if_splits)
    qed
  qed
  show "set affected = visited f changed"
    using inv step by (auto simp: loop_inv_def visited_def)
  show "set missing = unregistered f changed"
    using inv step by (auto simp: loop_inv_def unregistered_def)
qed

lemma loop_inv_skip:
  "loop_inv f c a m s (n # q) \<Longrightarrow> n \<in> set s \<Longrightarrow> loop_inv f c a m s q"
  unfolding loop_inv_def by (auto simp: insert_absorb)

lemma loop_inv_leaf:
  assumes "loop_inv f c a m s (n # q)" "n \<notin> set s" "length a < MAX_BOUNDED_FANOUT" "\<not> is_registered f n"
  shows "loop_inv f c (a @ [n]) (if n \<notin> set c \<and> n \<notin> set m then m @ [n] else m) (n # s) q"
proof -
  have n: "n \<in> set c" using assms(1,4) by (auto simp: loop_inv_def visited_def)
  have "covered f (a @ [n]) (set (a @ [n]) \<union> set q) m"
    unfolding covered_def
  proof (intro allI impI)
    fix x y assume x: "x \<in> set (a @ [n]) \<and> (x, y) \<in> dependency f"
    with assms(4) have "x \<in> set a" by (auto simp: dependency_def)
    with x assms(1) have "if is_registered f y then y \<in> set a \<union> set (n # q) else y \<in> set m"
      by (intro coveredD [of f a]) (simp_all add: loop_inv_def)
    then show "if is_registered f y then y \<in> set (a @ [n]) \<union> set q else y \<in> set m" by (auto split: if_splits)
  qed
  with assms n show ?thesis unfolding loop_inv_def by auto
qed

lemma loop_inv_expand:
  assumes inv: "loop_inv f c a m s (n # q)" and n: "n \<notin> set s" "length a < MAX_BOUNDED_FANOUT" "is_registered f n"
    and e: "expand_deps f (n # s) (frozen_deps f n) m q = (m', q')"
  shows "loop_inv f c (a @ [n]) m' (n # s) q'"
proof -
  have m: "distinct m" "set s = set a" "n \<in> visited f c" using inv by (auto simp: loop_inv_def)
  note ex = expand_deps_props [OF e m(1)]
  have new: "y \<in> reached f c" if "y \<in> set (frozen_deps f n)" for y
    using m(3) n(3) that by (auto simp: visited_def intro: reached_step)
  have old: "y \<in> set m" if "y \<in> set (n # s)" "\<not> is_registered f y" for y
    using inv that n(3) by (auto simp: loop_inv_def visited_def)
  have dist: "distinct m'" and m'_eq: "set m' = set m \<union> {y \<in> set (frozen_deps f n). y \<notin> set (n # s) \<and> \<not> is_registered f y}"
    and q'_eq: "set q' = set q \<union> {y \<in> set (frozen_deps f n). y \<notin> set (n # s) \<and> is_registered f y}"
    using ex by auto
  have vis: "set (a @ [n]) \<union> set q' \<subseteq> visited f c"
    using inv m(3) new by (auto simp: loop_inv_def q'_eq visited_def)
  have unreg: "set m' \<subseteq> unregistered f c"
    using inv new by (auto simp: loop_inv_def m'_eq unregistered_def)
  have "covered f (a @ [n]) (set (a @ [n]) \<union> set q') m'"
    unfolding covered_def
  proof (intro allI impI)
    fix x y assume x: "x \<in> set (a @ [n]) \<and> (x, y) \<in> dependency f"
    show "if is_registered f y then y \<in> set (a @ [n]) \<union> set q' else y \<in> set m'"
    proof (cases "x = n")
      case True
      with x have "y \<in> set (frozen_deps f n)" by (simp add: dependency_def)
      with old [of y] m(2) show ?thesis by (auto simp: m'_eq q'_eq)
    next
      case False
      with x inv have "if is_registered f y then y \<in> set a \<union> set (n # q) else y \<in> set m"
        by (intro coveredD [of f a _ m x y]) (simp_all add: loop_inv_def)
      then show ?thesis by (auto simp: m'_eq q'_eq split: if_splits)
    qed
  qed
  moreover have "set c \<subseteq> set (a @ [n]) \<union> set q'" "\<forall>x \<in> set c. \<not> is_registered f x \<longrightarrow> x \<in> set m'"
    using inv by (auto simp: loop_inv_def m'_eq q'_eq)
  moreover have "distinct (a @ [n])" "length (a @ [n]) \<le> MAX_BOUNDED_FANOUT" "set (n # s) = set (a @ [n])"
    using inv n(1,2) m(2) by (auto simp: loop_inv_def)
  ultimately show ?thesis
    unfolding loop_inv_def using vis unreg dist by (intro conjI)
qed

lemma closure_loop_spec:
  "loop_inv f c a m s q \<Longrightarrow>
     (case closure_loop f c a m s q of
        Inl (a', m') \<Rightarrow> MAX_BOUNDED_FANOUT < card (visited f c) \<and> distinct a' \<and> set a' \<subseteq> visited f c
      | Inr (a', m') \<Rightarrow> card (visited f c) \<le> MAX_BOUNDED_FANOUT \<and> distinct a' \<and> distinct m' \<and>
          set a' = visited f c \<and> set m' = unregistered f c)"
proof (induction f c a m s q rule: closure_loop.induct)
  case (1 f c a m s)
  with loop_inv_done [OF 1] distinct_card [of a] show ?case by (simp add: loop_inv_def)
next
  case (2 f c a m s n q)
  show ?case
  proof (cases "n \<in> set s")
    case True
    with 2 loop_inv_skip [OF "2.prems" True] show ?thesis by simp
  next
    case new: False
    show ?thesis
    proof (cases "length (a @ [n]) > MAX_BOUNDED_FANOUT")
      case True
      have "set (a @ [n]) \<subseteq> visited f c" "distinct (a @ [n])" using "2.prems" new by (auto simp: loop_inv_def)
      with True card_mono [OF finite_visited this(1)] distinct_card [of "a @ [n]"] new show ?thesis by simp
    next
      case False
      then have len: "length a < MAX_BOUNDED_FANOUT" by simp
      show ?thesis
      proof (cases "is_registered f n")
        case reg: True
        obtain m' q' where e: "expand_deps f (n # s) (frozen_deps f n) m q = (m', q')" by fastforce
        from "2.IH"(3) [OF new False _ e [symmetric] refl] loop_inv_expand [OF "2.prems" new len reg e] reg
        show ?thesis using new False e by simp
      next
        case reg: False
        from "2.IH"(2) [OF new False reg] loop_inv_leaf [OF "2.prems" new len reg]
        show ?thesis using new False reg by simp
      qed
    qed
  qed
qed

lemma loop_inv_start: "loop_inv f c [] (seed_missing f c []) [] c"
  using seed_missing_props [of "[]" f c] changed_reached [of c f]
  by (auto simp: loop_inv_def covered_def visited_def unregistered_def MAX_BOUNDED_FANOUT_def)


lemma freeze_nodes_registered:
  "snd (freeze_nodes ops ev nodes (r, d)) = (r', d') \<Longrightarrow> set r' = set r \<union> set nodes"
proof (induction nodes arbitrary: ev r d)
  case (Cons n nodes)
  from Cons.prems Cons.IH [of _ "List.insert n r"] show ?case
    by (auto simp: case_prod_beta Let_def)
qed simp

lemma visited_expected:
  assumes "set (fst f) = nodes" "\<And>n. n \<in> nodes \<Longrightarrow> frozen_deps f n = deps n"
  shows "reached f changed = evidence_reach nodes deps changed"
    "visited f changed = expected_affected nodes deps changed"
    "unregistered f changed = evidence_reach nodes deps changed - nodes"
proof -
  have "dependency f = {(a, b). a \<in> nodes \<and> b \<in> set (deps a)}"
    using assms by (auto simp: dependency_def is_registered_def)
  then show r: "reached f changed = evidence_reach nodes deps changed"
    by (simp add: reached_def evidence_reach_def)
  show "visited f changed = expected_affected nodes deps changed"
    using assms(1) by (auto simp: visited_def r expected_affected_def is_registered_def)
  show "unregistered f changed = evidence_reach nodes deps changed - nodes"
    using assms(1) by (auto simp: unregistered_def r is_registered_def)
qed

lemma unknown_seed_iff: "unknown_seed f changed \<longleftrightarrow> \<not> set changed \<subseteq> set (fst f)"
  by (auto simp: unknown_seed_def is_registered_def list_ex_iff)

section \<open>The evidence contract\<close>

text \<open>
  What the port promises a caller: reads leave the evidence as it is, and a registered node has a list of
  dependencies. The progress and queue counts are free.
\<close>

locale dependency_evidence =
  fixes ops :: "'e dependency_evidence_ops"
    and ok :: "'e \<Rightarrow> bool"
    and version_of :: "'e \<Rightarrow> string"
    and nodes_of :: "'e \<Rightarrow> string list"
    and deps_of :: "'e \<Rightarrow> string \<Rightarrow> string list"
  assumes version: "dp_rule_version ops e = (e, version_of e)"
    and nodes: "ok e \<Longrightarrow> dp_registered_nodes ops e = Some (e, nodes_of e)"
    and dependencies: "n \<in> set (nodes_of e) \<Longrightarrow> dp_dependencies_of ops e n = (e, Some (deps_of e n))"
    and counts: "fst (dp_progress_count ops e) = e" "fst (dp_queue_depth ops e) = e"
begin

lemma freeze_nodes_stable:
  "set ns \<subseteq> set (nodes_of e) \<Longrightarrow> (\<exists>frozen'. freeze_nodes ops e ns frozen = (e, frozen') \<and>
     set (fst frozen') = set (fst frozen) \<union> set ns \<and>
     (\<forall>n. frozen_deps frozen' n = (if n \<in> set ns then deps_of e n else frozen_deps frozen n)))"
proof (induction ns arbitrary: frozen)
  case (Cons n ns)
  obtain r d where f: "frozen = (r, d)" by fastforce
  from Cons.prems have "dp_dependencies_of ops e n = (e, Some (deps_of e n))" by (simp add: dependencies)
  with Cons.IH [of "(List.insert n r, hm_insert n (deps_of e n) d)"] Cons.prems f show ?case
    by (auto simp: frozen_deps_def)
qed simp

lemma freeze:
  assumes "ok e"
  shows "\<exists>f. closure_freeze ops e = Some (e, version_of e, f) \<and> set (fst f) = set (nodes_of e) \<and>
    (\<forall>n \<in> set (nodes_of e). frozen_deps f n = deps_of e n)"
proof -
  obtain f where "freeze_nodes ops e (nodes_of e) ([], []) = (e, f)" "set (fst f) = set (nodes_of e)"
    "\<forall>n \<in> set (nodes_of e). frozen_deps f n = deps_of e n"
    using freeze_nodes_stable [of "nodes_of e" e "([], [])"] by auto
  with assms counts [of e] show ?thesis
    by (auto simp: closure_freeze_def version nodes case_prod_beta)
qed

lemma finish_stable: "fst (closure_finish ops e request st el a m s c p q) = e"
  by (simp add: closure_finish_def version Let_def)

lemma loop_outcome:
  assumes "ok e"
  obtains f where "closure_freeze ops e = Some (e, version_of e, f)" "set (fst f) = set (nodes_of e)"
    "case closure_loop f c [] (seed_missing f c []) [] c of
        Inl (a, m) \<Rightarrow> MAX_BOUNDED_FANOUT < card (expected_affected (set (nodes_of e)) (deps_of e) c)
      | Inr (a, m) \<Rightarrow> card (expected_affected (set (nodes_of e)) (deps_of e) c) \<le> MAX_BOUNDED_FANOUT \<and>
          distinct a \<and> distinct m \<and> set a = expected_affected (set (nodes_of e)) (deps_of e) c \<and>
          set m = evidence_reach (set (nodes_of e)) (deps_of e) c - set (nodes_of e)"
proof -
  obtain f where f: "closure_freeze ops e = Some (e, version_of e, f)" "set (fst f) = set (nodes_of e)"
    "\<And>n. n \<in> set (nodes_of e) \<Longrightarrow> frozen_deps f n = deps_of e n"
    using freeze [OF assms] by blast
  have "visited f c = expected_affected (set (nodes_of e)) (deps_of e) c"
    "unregistered f c = evidence_reach (set (nodes_of e)) (deps_of e) c - set (nodes_of e)"
    using visited_expected [OF f(2,3)] by simp_all
  note spec = closure_loop_spec [OF loop_inv_start [of f c], unfolded this]
  show ?thesis
    by (rule that [OF f(1,2)]) (use spec in \<open>auto split: sum.splits\<close>)
qed

lemma finish_fields:
  "closure_finish ops e request st el a m s c p q = (e', res) \<Longrightarrow> e' = e \<and> ux_status res = st \<and>
     ux_publication_eligibility res = (if st = CS_Complete then el else Blocked) \<and>
     ux_affected res = a \<and> ux_missing res = m"
  by (auto simp: closure_finish_def version closure_is_complete_def Let_def)

lemma compute_exact:
  assumes "ok e"
  obtains res where "closure_compute ops e request = Some (e, res)"
    "ux_status res = expected_status (version_of e) (set (nodes_of e)) (deps_of e) request"
    "ux_publication_eligibility res = (if ux_status res = CS_Complete then Eligible else Blocked)"
    "uq_completeness_claim request = NoClaim \<Longrightarrow> uq_expected_rule_version request = version_of e \<Longrightarrow>
      ux_status res \<noteq> CS_Unbounded \<Longrightarrow> distinct (ux_affected res) \<and> distinct (ux_missing res) \<and>
      set (ux_affected res) = expected_affected (set (nodes_of e)) (deps_of e) (uq_changed request) \<and>
      set (ux_missing res) = evidence_reach (set (nodes_of e)) (deps_of e) (uq_changed request) - set (nodes_of e)"
proof -
  let ?c = "uq_changed request" and ?st = "expected_status (version_of e) (set (nodes_of e)) (deps_of e) request"
  obtain f where f: "closure_freeze ops e = Some (e, version_of e, f)" "set (fst f) = set (nodes_of e)"
    and spec: "case closure_loop f ?c [] (seed_missing f ?c []) [] ?c of
        Inl (a, m) \<Rightarrow> MAX_BOUNDED_FANOUT < card (expected_affected (set (nodes_of e)) (deps_of e) ?c)
      | Inr (a, m) \<Rightarrow> card (expected_affected (set (nodes_of e)) (deps_of e) ?c) \<le> MAX_BOUNDED_FANOUT \<and>
          distinct a \<and> distinct m \<and> set a = expected_affected (set (nodes_of e)) (deps_of e) ?c \<and>
          set m = evidence_reach (set (nodes_of e)) (deps_of e) ?c - set (nodes_of e)"
    by (rule loop_outcome [OF assms, of ?c])
  note exact = that
  have result: thesis
    if eq: "closure_compute ops e request =
        Some (closure_finish ops e request ?st (if ?st = CS_Complete then Eligible else Blocked) a m [] False False False)"
      and sets: "uq_completeness_claim request = NoClaim \<longrightarrow> uq_expected_rule_version request = version_of e \<longrightarrow>
        ?st \<noteq> CS_Unbounded \<longrightarrow> distinct a \<and> distinct m \<and>
        set a = expected_affected (set (nodes_of e)) (deps_of e) ?c \<and>
        set m = evidence_reach (set (nodes_of e)) (deps_of e) ?c - set (nodes_of e)" for a m
  proof -
    obtain e' res where fin: "closure_finish ops e request ?st (if ?st = CS_Complete then Eligible else Blocked) a m []
      False False False = (e', res)" by fastforce
    show thesis
      by (rule exact [of res]) (use eq fin finish_fields [OF fin] sets in auto)
  qed
  consider (claim) "uq_completeness_claim request \<noteq> NoClaim"
    | (mismatch) "uq_completeness_claim request = NoClaim" "version_of e \<noteq> uq_expected_rule_version request"
    | (admissible) "uq_completeness_claim request = NoClaim" "version_of e = uq_expected_rule_version request"
    by blast
  then show thesis
  proof cases
    case claim
    then show thesis
      by (intro result [of "[]" ?c]) (simp_all add: closure_compute_def expected_status_def claim_is_forbidden_def)
  next
    case mismatch
    then show thesis
      by (intro result [of "[]" "[]"]) (simp_all add: closure_compute_def expected_status_def claim_is_forbidden_def f(1))
  next
    case admissible
    note unfold = closure_compute_def expected_status_def claim_is_forbidden_def f(1) Let_def admissible
    show thesis
    proof (cases "closure_loop f ?c [] (seed_missing f ?c []) [] ?c")
      case (Inl r)
      then obtain a m where r: "closure_loop f ?c [] (seed_missing f ?c []) [] ?c = Inl (a, m)" by (cases r) auto
      with spec show thesis by (intro result [of a m]) (simp_all add: unfold)
    next
      case (Inr r)
      then obtain a m where r: "closure_loop f ?c [] (seed_missing f ?c []) [] ?c = Inr (a, m)" by (cases r) auto
      have "m \<noteq> [] \<longleftrightarrow> \<not> evidence_reach (set (nodes_of e)) (deps_of e) ?c \<subseteq> set (nodes_of e)"
        using spec unfolding r by (cases m) auto
      with spec r show thesis by (intro result [of a m]) (simp_all add: unfold unknown_seed_iff f(2))
    qed
  qed
qed

end

text \<open>Both adapters keep the contract when the stored node names are identifiers, which \<open>with_node\<close> takes.\<close>

definition evidence_ok :: "fixed_dependency_evidence \<Rightarrow> bool" where
  "evidence_ok ev = list_all (valid_id MAX_ID_LEN) (hm_keys (fd_deps ev))"

definition evidence_deps :: "fixed_dependency_evidence \<Rightarrow> string \<Rightarrow> string list" where
  "evidence_deps ev node = (case hm_get (fd_deps ev) node of Some ds \<Rightarrow> ds | None \<Rightarrow> [])"

lemma those_map_parse: "list_all (valid_id n) ks \<Longrightarrow> those (map (\<lambda>k. expect (parse_id kind k n)) ks) = Some ks"
  by (induction ks) (simp_all add: parse_id_valid)

lemma fixed_nodes_ok: "evidence_ok ev \<Longrightarrow> fixed_registered_nodes ev = Some (hm_keys (fd_deps ev))"
  by (simp add: evidence_ok_def fixed_registered_nodes_def those_map_parse)

lemma hm_get_of_key: "k \<in> set (hm_keys m) \<Longrightarrow> \<exists>v. hm_get m k = Some v"
  using hm_contains_keys [of m k] hm_contains_iff [of m k] by simp

interpretation fixed: dependency_evidence fixed_dependency_ops evidence_ok fd_rule_version
    "\<lambda>ev. hm_keys (fd_deps ev)" evidence_deps
  by unfold_locales
    (auto simp: fixed_dependency_ops_def fixed_nodes_ok evidence_deps_def dest: hm_get_of_key)

interpretation hostile: dependency_evidence hostile_progress_ops evidence_ok fd_rule_version
    "\<lambda>ev. hm_keys (fd_deps ev)" evidence_deps
  by unfold_locales
    (auto simp: hostile_progress_ops_def fixed_nodes_ok evidence_deps_def)

lemma evidence_ok_new: "evidence_ok (fixed_new v)"
  by (simp add: evidence_ok_def fixed_new_def hm_keys_def)

lemma evidence_ok_with_node: "evidence_ok ev \<Longrightarrow> valid_id MAX_ID_LEN n \<Longrightarrow> evidence_ok (fixed_with_node n ds ev)"
  by (auto simp: evidence_ok_def fixed_with_node_def hm_keys_def hm_insert_def list_all_iff dom_update)

section \<open>Properties\<close>

text \<open>C8. The status of a closure is decided by reachability: over evidence with identifiers for names, a request
always returns and leaves the evidence as it was; its status is \<open>incomplete\<close> for a forbidden claim,
\<open>rule-version-mismatch\<close> for another rule version, \<open>unbounded\<close> when more than eight nodes are reached over registered
edges from the changed ones, \<open>unknown\<close> when a changed node is not registered, \<open>incomplete\<close> when a reached node is
not registered and \<open>complete\<close> otherwise; only \<open>complete\<close> is eligible for publication. The dependencies may be
cyclic.\<close>

theorem closure_status_exact:
  assumes "evidence_ok ev"
  shows "\<exists>res. closure_compute fixed_dependency_ops ev request = Some (ev, res) \<and>
    ux_status res = expected_status (fd_rule_version ev) (set (hm_keys (fd_deps ev))) (evidence_deps ev) request \<and>
    ux_publication_eligibility res = (if ux_status res = CS_Complete then Eligible else Blocked)"
  by (rule fixed.compute_exact [OF assms, of request]) blast

definition cyclic_evidence :: fixed_dependency_evidence where
  "cyclic_evidence = fixed_with_node ''b'' [''a''] (fixed_with_node ''a'' [''b''] (fixed_new ''r1''))"

definition cyclic_request :: closure_request where
  "cyclic_request = \<lparr>uq_request_id = ''q'', uq_changed = [''a''], uq_expected_rule_version = ''r1'',
     uq_completeness_claim = NoClaim, uq_request_incremental_publication = True\<rparr>"

lemma single_ids: "valid_id MAX_ID_LEN ''a''" "valid_id MAX_ID_LEN ''b''"
  by code_simp+

lemma cyclic_ok: "evidence_ok cyclic_evidence"
  unfolding cyclic_evidence_def by (intro evidence_ok_with_node evidence_ok_new single_ids)

theorem closure_status_exact_witness:
  "\<exists>res. closure_compute fixed_dependency_ops cyclic_evidence cyclic_request = Some (cyclic_evidence, res) \<and>
    ux_status res = expected_status (fd_rule_version cyclic_evidence) (set (hm_keys (fd_deps cyclic_evidence)))
      (evidence_deps cyclic_evidence) cyclic_request \<and>
    ux_publication_eligibility res = (if ux_status res = CS_Complete then Eligible else Blocked)"
  by (rule closure_status_exact [OF cyclic_ok])

text \<open>Unless the fan-out bound stops it, a closure of an admissible request lists the affected nodes and the
missing nodes exactly and once each: the affected ones are those reached from the changed nodes over registered
edges that are registered or changed themselves, the missing ones those reached that are not registered.\<close>

theorem closure_sets_exact:
  assumes "evidence_ok ev" "uq_completeness_claim request = NoClaim"
    "uq_expected_rule_version request = fd_rule_version ev"
    "closure_compute fixed_dependency_ops ev request = Some (ev', res)" "ux_status res \<noteq> CS_Unbounded"
  shows "distinct (ux_affected res) \<and> distinct (ux_missing res) \<and>
    set (ux_affected res) =
      expected_affected (set (hm_keys (fd_deps ev))) (evidence_deps ev) (uq_changed request) \<and>
    set (ux_missing res) =
      evidence_reach (set (hm_keys (fd_deps ev))) (evidence_deps ev) (uq_changed request) - set (hm_keys (fd_deps ev))"
  by (rule fixed.compute_exact [OF assms(1), of request]) (use assms in auto)

lemma cyclic_run:
  "map_option (\<lambda>(e, r). (e = cyclic_evidence, ux_status r, ux_affected r))
     (closure_compute fixed_dependency_ops cyclic_evidence cyclic_request) = Some (True, CS_Complete, [''a'', ''b''])"
  by code_simp

theorem closure_sets_exact_witness:
  "\<exists>res. closure_compute fixed_dependency_ops cyclic_evidence cyclic_request = Some (cyclic_evidence, res) \<and>
    distinct (ux_missing res) \<and> {''a'', ''b''} =
      expected_affected (set (hm_keys (fd_deps cyclic_evidence))) (evidence_deps cyclic_evidence) [''a'']"
proof -
  obtain res where r: "closure_compute fixed_dependency_ops cyclic_evidence cyclic_request = Some (cyclic_evidence, res)"
    "ux_status res = CS_Complete" "ux_affected res = [''a'', ''b'']"
    using cyclic_run by auto
  with closure_sets_exact [OF cyclic_ok _ _ r(1)] show ?thesis
    by (auto simp: cyclic_request_def cyclic_evidence_def fixed_with_node_def fixed_new_def)
qed

text \<open>Progress is not evidence: the adapter that reports ten thousand processed items, an empty queue and an
empty list of dependencies for every node it does not know gives, on every evidence and request, the result of the
honest adapter.\<close>

theorem closure_ignores_progress:
  "closure_compute hostile_progress_ops ev request = closure_compute fixed_dependency_ops ev request"
proof -
  have freeze: "freeze_nodes hostile_progress_ops ev ns frozen = freeze_nodes fixed_dependency_ops ev ns frozen"
    for ns frozen
  proof (induction ns arbitrary: frozen)
    case (Cons n ns)
    then show ?case
      by (cases frozen) (simp add: hostile_progress_ops_def fixed_dependency_ops_def split: option.split)
  qed simp
  have fin: "closure_finish hostile_progress_ops = closure_finish fixed_dependency_ops"
    by (intro ext) (simp add: closure_finish_def hostile_progress_ops_def fixed_dependency_ops_def)
  have "closure_freeze hostile_progress_ops ev = closure_freeze fixed_dependency_ops ev"
    unfolding closure_freeze_def
    by (cases "fixed_registered_nodes ev")
      (simp_all add: hostile_progress_ops_def fixed_dependency_ops_def
        freeze [unfolded hostile_progress_ops_def fixed_dependency_ops_def])
  then show ?thesis
    unfolding closure_compute_def fin by simp
qed

text \<open>A registered node without dependency evidence counts as a node without dependencies: when the port
answers None for the only changed node, although it lists the node as registered, the closure of an admissible
request is complete and eligible for publication, with that node as its whole affected set.\<close>

theorem closure_without_evidence_completes:
  assumes reads: "\<And>e. dp_rule_version ops e = (e, v)" "\<And>e. dp_registered_nodes ops e = Some (e, [n])"
      "\<And>e. dp_dependencies_of ops e n = (e, None)"
    and request: "uq_completeness_claim request = NoClaim" "uq_expected_rule_version request = v"
      "uq_changed request = [n]"
  shows "map_option (\<lambda>(_, r). (ux_status r, ux_publication_eligibility r, ux_affected r, ux_missing r))
    (closure_compute ops ev request) = Some (CS_Complete, Eligible, [n], [])"
  using request
  by (simp add: closure_compute_def closure_freeze_def reads Let_def is_registered_def frozen_deps_def case_prod_beta
    closure_finish_def closure_is_complete_def claim_is_forbidden_def unknown_seed_def MAX_BOUNDED_FANOUT_def)

definition silent_ops :: "unit dependency_evidence_ops" where
  "silent_ops = \<lparr>dp_rule_version = (\<lambda>e. (e, ''r1'')), dp_registered_nodes = (\<lambda>e. Some (e, [''a''])),
     dp_dependencies_of = (\<lambda>e n. (e, None)), dp_progress_count = (\<lambda>e. (e, 0)), dp_queue_depth = (\<lambda>e. (e, 0))\<rparr>"

theorem closure_without_evidence_completes_witness:
  "map_option (\<lambda>(_, r). (ux_status r, ux_publication_eligibility r, ux_affected r, ux_missing r))
    (closure_compute silent_ops () cyclic_request) = Some (CS_Complete, Eligible, [''a''], [])"
  by (rule closure_without_evidence_completes [of _ "''r1''"]) (simp_all add: silent_ops_def cyclic_request_def)

end
