(* ===== verification/LN_Gate.thy ===== *)
theory LN_Gate
  imports LN_Ids
begin

text \<open>
  \<open>crates/ln-gate\<close>: the C10 lifecycle gate (\<open>GateLifecycle\<close>, \<open>application.rs\<close>) over any
  \<open>CandidateStorePort\<close>, the digest of an evidence chain (\<open>domain.rs\<close>) and the in-memory and the rewriting
  stores (\<open>adapters.rs\<close>). The gate only writes to its store, so a store is its \<open>put\<close>. A panic is \<open>None\<close>.
\<close>

section \<open>Domain\<close>

definition C10_GATE_VERSION :: string where
  "C10_GATE_VERSION = ''c10:v1''"

datatype lifecycle_type = ExtractedCandidate | VerifiedAssertion

fun lifecycle_as_str :: "lifecycle_type \<Rightarrow> string" where
  "lifecycle_as_str ExtractedCandidate = ''extracted-candidate''"
| "lifecycle_as_str VerifiedAssertion = ''verified-assertion''"

datatype gate_outcome = GO_InsufficientEvidence | GO_InvalidTransition | GO_AcceptedNewOutcome

fun gate_outcome_as_str :: "gate_outcome \<Rightarrow> string" where
  "gate_outcome_as_str GO_InsufficientEvidence = ''insufficient-evidence''"
| "gate_outcome_as_str GO_InvalidTransition = ''invalid-transition''"
| "gate_outcome_as_str GO_AcceptedNewOutcome = ''accepted-new-outcome''"

datatype gate_reason = GR_ConfidenceOnly | GR_InPlaceMutation | GR_MissingEvidenceChain | GR_EvidenceChainSatisfied

fun gate_reason_as_str :: "gate_reason \<Rightarrow> string" where
  "gate_reason_as_str GR_ConfidenceOnly = ''confidence-only''"
| "gate_reason_as_str GR_InPlaceMutation = ''in-place-mutation''"
| "gate_reason_as_str GR_MissingEvidenceChain = ''missing-evidence-chain''"
| "gate_reason_as_str GR_EvidenceChainSatisfied = ''evidence-chain-satisfied''"

record candidate_record =
  cd_candidate_id :: string
  cd_lifecycle_type :: lifecycle_type
  cd_evidence_refs :: "string list"
  cd_predecessor :: "string option"

record gate_request =
  gq_candidate_id :: string
  gq_requested_type :: lifecycle_type
  gq_confidence :: "8 word"
  gq_evidence_refs :: "string list"
  gq_in_place :: bool

record gate_result =
  gx_gate_version :: string
  gx_outcome :: gate_outcome
  gx_reason :: gate_reason
  gx_original_id :: string
  gx_original_type :: lifecycle_type
  gx_resulting_id :: string
  gx_resulting_type :: lifecycle_type
  gx_predecessor :: "string option"
  gx_input_chain_digest :: string
  gx_confidence_used_as_authority :: bool

definition digest_chain :: "string \<Rightarrow> string list \<Rightarrow> string option" where
  "digest_chain candidate_id evidence_refs =
     expect (parse_id ''input chain digest''
       (digest_bytes (foldl (\<lambda>material item. material @ CHR ''|'' # item) candidate_id evidence_refs)) MAX_ID_LEN)"

section \<open>The gate\<close>

type_synonym 's candidate_put = "candidate_record \<Rightarrow> 's \<Rightarrow> 's"

record 's gate_lifecycle =
  gl_store :: 's
  gl_records :: "(string, candidate_record) hashmap"
  gl_next_seq :: nat

definition gate_new :: "'s \<Rightarrow> 's gate_lifecycle" where
  "gate_new store = \<lparr>gl_store = store, gl_records = [], gl_next_seq = 0\<rparr>"

definition seed_extracted ::
    "'s candidate_put \<Rightarrow> string \<Rightarrow> string list \<Rightarrow> 's gate_lifecycle \<Rightarrow> 's gate_lifecycle \<times> candidate_record" where
  "seed_extracted put candidate_id evidence_refs st =
     (let record = \<lparr>cd_candidate_id = candidate_id, cd_lifecycle_type = ExtractedCandidate,
            cd_evidence_refs = evidence_refs, cd_predecessor = None\<rparr>
      in (st\<lparr>gl_records := hm_insert candidate_id record (gl_records st), gl_store := put record (gl_store st)\<rparr>,
          record))"

text \<open>The name of a new outcome.\<close>

definition version_name :: "string \<Rightarrow> nat \<Rightarrow> string" where
  "version_name original seq = original @ '':v'' @ show_nat seq"

definition gate_original :: "'s gate_lifecycle \<Rightarrow> string \<Rightarrow> candidate_record" where
  "gate_original st candidate_id =
     (case hm_get (gl_records st) candidate_id of
        Some record \<Rightarrow> record
      | None \<Rightarrow> \<lparr>cd_candidate_id = candidate_id, cd_lifecycle_type = ExtractedCandidate, cd_evidence_refs = [],
                 cd_predecessor = None\<rparr>)"

definition request_transition ::
    "'s candidate_put \<Rightarrow> gate_request \<Rightarrow> 's gate_lifecycle \<Rightarrow> ('s gate_lifecycle \<times> gate_result) option" where
  "request_transition put request st = do {
     let original = gate_original st (gq_candidate_id request);
     digest \<leftarrow> digest_chain (gq_candidate_id request) (gq_evidence_refs request);
     gate_version \<leftarrow> expect (parse_id ''gate version'' C10_GATE_VERSION MAX_ID_LEN);
     let refused = (\<lambda>outcome reason authority.
       \<lparr>gx_gate_version = gate_version, gx_outcome = outcome, gx_reason = reason,
        gx_original_id = cd_candidate_id original, gx_original_type = cd_lifecycle_type original,
        gx_resulting_id = cd_candidate_id original, gx_resulting_type = cd_lifecycle_type original,
        gx_predecessor = cd_predecessor original, gx_input_chain_digest = digest,
        gx_confidence_used_as_authority = authority\<rparr>);
     if gq_in_place request then Some (st, refused GO_InvalidTransition GR_InPlaceMutation False)
     else if gq_evidence_refs request = []
       then Some (st, refused GO_InsufficientEvidence
              (if gq_confidence request \<ge> 90 then GR_ConfidenceOnly else GR_MissingEvidenceChain)
              (gq_confidence request \<ge> 90))
     else do {
       seq \<leftarrow> u64_succ (gl_next_seq st);
       new_id \<leftarrow> expect (parse_id ''candidate id'' (version_name (cd_candidate_id original) seq) MAX_ID_LEN);
       let new_record = \<lparr>cd_candidate_id = new_id, cd_lifecycle_type = gq_requested_type request,
         cd_evidence_refs = gq_evidence_refs request, cd_predecessor = Some (cd_candidate_id original)\<rparr>;
       Some (\<lparr>gl_store = put new_record (gl_store st), gl_records = hm_insert new_id new_record (gl_records st),
              gl_next_seq = seq\<rparr>,
             \<lparr>gx_gate_version = gate_version, gx_outcome = GO_AcceptedNewOutcome,
              gx_reason = GR_EvidenceChainSatisfied, gx_original_id = cd_candidate_id original,
              gx_original_type = cd_lifecycle_type original, gx_resulting_id = new_id,
              gx_resulting_type = gq_requested_type request, gx_predecessor = Some (cd_candidate_id original),
              gx_input_chain_digest = digest, gx_confidence_used_as_authority = False\<rparr>) } }"

definition gate_get :: "'s gate_lifecycle \<Rightarrow> string \<Rightarrow> candidate_record option" where
  "gate_get st candidate_id = hm_get (gl_records st) candidate_id"

text \<open>A history of calls.\<close>

datatype gate_call = Seed string "string list" | Transition gate_request

fun gate_run :: "'s candidate_put \<Rightarrow> gate_call list \<Rightarrow> 's gate_lifecycle \<Rightarrow> 's gate_lifecycle option" where
  "gate_run put [] st = Some st"
| "gate_run put (Seed i ev # calls) st = gate_run put calls (fst (seed_extracted put i ev st))"
| "gate_run put (Transition request # calls) st =
     do { (st', _) \<leftarrow> request_transition put request st; gate_run put calls st' }"

section \<open>Stores\<close>

type_synonym candidate_store = "(string, candidate_record) hashmap"

definition in_memory_put :: "candidate_record \<Rightarrow> candidate_store \<Rightarrow> candidate_store" where
  "in_memory_put record items = hm_insert (cd_candidate_id record) record items"

definition mutating_put :: "candidate_record \<Rightarrow> candidate_store \<Rightarrow> candidate_store" where
  "mutating_put record items =
     (let record = record\<lparr>cd_lifecycle_type := VerifiedAssertion\<rparr>
      in hm_insert (cd_candidate_id record) record items)"

section \<open>Names\<close>

lemma digest_chain_total: "\<exists>d. digest_chain c es = Some d"
  by (simp add: digest_chain_def digest_bytes_def valid_fnv_label MAX_ID_LEN_def parse_id_valid)

lemma gate_version_parses: "parse_id k C10_GATE_VERSION MAX_ID_LEN = Inr C10_GATE_VERSION"
proof -
  have "valid_id MAX_ID_LEN C10_GATE_VERSION" by code_simp
  then show ?thesis by (rule parse_id_valid)
qed

lemma show_nat_no_v: "CHR ''v'' \<notin> set (show_nat n)"
proof
  assume "CHR ''v'' \<in> set (show_nat n)"
  then obtain d where d: "d < 10" "CHR ''v'' = digit_char d" using show_nat_digits by blast
  then have "of_char (CHR ''v'') = 48 + d" using of_char_digit [of d] by simp
  with d(1) show False by simp
qed

text \<open>Two generated names are the same only for the same sequence number and the same original.\<close>

lemma version_name_inject: "version_name a n = version_name b m \<longleftrightarrow> a = b \<and> n = m"
proof
  assume "version_name a n = version_name b m"
  then have "rev (version_name a n) = rev (version_name b m)" by (rule arg_cong)
  then have "rev (show_nat n) @ CHR ''v'' # CHR '':'' # rev a = rev (show_nat m) @ CHR ''v'' # CHR '':'' # rev b"
    by (simp add: version_name_def)
  then have "rev (show_nat n) = rev (show_nat m) \<and> CHR '':'' # rev a = CHR '':'' # rev b"
    by (subst (asm) sep_append_inject) (simp_all add: show_nat_no_v)
  then show "a = b \<and> n = m" by simp
qed simp

lemma length_version_name: "length (version_name a n) = length a + 2 + length (show_nat n)"
  by (simp add: version_name_def)

lemma valid_version_name:
  "valid_id MAX_ID_LEN a \<Longrightarrow> valid_id MAX_ID_LEN (version_name a n) \<longleftrightarrow> length (version_name a n) \<le> MAX_ID_LEN"
  using show_nat_id [of n] by (auto simp: version_name_def valid_id_def id_char_def is_ascii_alphanumeric_def less_eq_char_def)

text \<open>\<open>generated\<close>: the shape of a name the gate mints.\<close>

definition generated :: "string \<Rightarrow> bool" where
  "generated k = (\<exists>a n. k = version_name a n)"

section \<open>Lineage\<close>

definition request_wf :: "gate_request \<Rightarrow> bool" where
  "request_wf request = valid_id MAX_ID_LEN (gq_candidate_id request)"

fun call_wf :: "gate_call \<Rightarrow> bool" where
  "call_wf (Seed i ev) = valid_id MAX_ID_LEN i"
| "call_wf (Transition request) = request_wf request"

text \<open>A record is filed under its own name; only the gate's own outcomes have a predecessor or are verified.\<close>

definition lineage_ok :: "nat \<Rightarrow> string \<Rightarrow> candidate_record \<Rightarrow> bool" where
  "lineage_ok seq k r =
     (cd_candidate_id r = k \<and> valid_id MAX_ID_LEN k \<and>
      (case cd_predecessor r of
         None \<Rightarrow> cd_lifecycle_type r = ExtractedCandidate
       | Some p \<Rightarrow> cd_evidence_refs r \<noteq> [] \<and> (\<exists>n. 1 \<le> n \<and> n \<le> seq \<and> k = version_name p n)))"

definition gate_inv :: "'s gate_lifecycle \<Rightarrow> bool" where
  "gate_inv st = (\<forall>k r. gate_get st k = Some r \<longrightarrow> lineage_ok (gl_next_seq st) k r)"

lemma lineage_ok_mono: "lineage_ok n k r \<Longrightarrow> n \<le> m \<Longrightarrow> lineage_ok m k r"
  by (auto simp: lineage_ok_def split: option.splits intro: order_trans)

lemma gate_inv_new: "gate_inv (gate_new s)"
  by (simp add: gate_inv_def gate_get_def gate_new_def)

lemma gate_inv_seed:
  "gate_inv st \<Longrightarrow> valid_id MAX_ID_LEN i \<Longrightarrow> gate_inv (fst (seed_extracted put i ev st))"
  by (auto simp: gate_inv_def gate_get_def seed_extracted_def lineage_ok_def Let_def)

lemma gate_original_id: "gate_inv st \<Longrightarrow> cd_candidate_id (gate_original st i) = i"
  by (auto simp: gate_original_def gate_inv_def gate_get_def lineage_ok_def split: option.split)

text \<open>The three ways a request ends.\<close>

lemma transition_refused:
  "gq_in_place request \<or> gq_evidence_refs request = [] \<Longrightarrow>
     \<exists>res. request_transition put request st = Some (st, res) \<and> gx_outcome res \<noteq> GO_AcceptedNewOutcome \<and>
       gx_resulting_id res = cd_candidate_id (gate_original st (gq_candidate_id request)) \<and>
       gx_resulting_type res = cd_lifecycle_type (gate_original st (gq_candidate_id request))"
  using digest_chain_total [of "gq_candidate_id request" "gq_evidence_refs request"]
  by (auto simp: request_transition_def gate_version_parses Let_def)

lemma transition_accepted:
  assumes "gate_inv st" "request_wf request" "\<not> gq_in_place request" "gq_evidence_refs request \<noteq> []"
  shows "request_transition put request st = Some (st', res) \<longleftrightarrow>
     (\<exists>d. digest_chain (gq_candidate_id request) (gq_evidence_refs request) = Some d \<and>
       Suc (gl_next_seq st) < u64_limit \<and>
       length (version_name (gq_candidate_id request) (Suc (gl_next_seq st))) \<le> MAX_ID_LEN \<and>
       (let new = \<lparr>cd_candidate_id = version_name (gq_candidate_id request) (Suc (gl_next_seq st)),
              cd_lifecycle_type = gq_requested_type request, cd_evidence_refs = gq_evidence_refs request,
              cd_predecessor = Some (gq_candidate_id request)\<rparr>
        in st' = \<lparr>gl_store = put new (gl_store st), gl_records = hm_insert (cd_candidate_id new) new (gl_records st),
              gl_next_seq = Suc (gl_next_seq st)\<rparr> \<and>
           res = \<lparr>gx_gate_version = C10_GATE_VERSION, gx_outcome = GO_AcceptedNewOutcome,
              gx_reason = GR_EvidenceChainSatisfied, gx_original_id = gq_candidate_id request,
              gx_original_type = cd_lifecycle_type (gate_original st (gq_candidate_id request)),
              gx_resulting_id = cd_candidate_id new, gx_resulting_type = gq_requested_type request,
              gx_predecessor = Some (gq_candidate_id request), gx_input_chain_digest = d,
              gx_confidence_used_as_authority = False\<rparr>))"
  using assms digest_chain_total [of "gq_candidate_id request" "gq_evidence_refs request"]
  by (auto simp: request_transition_def gate_version_parses Let_def gate_original_id u64_succ_eq_Some
    parse_id_eq_Inr valid_version_name request_wf_def bind_eq_Some_conv)

lemma gate_inv_transition:
  assumes "gate_inv st" "request_wf request" "request_transition put request st = Some (st', res)"
  shows "gate_inv st'"
proof (cases "gq_in_place request \<or> gq_evidence_refs request = []")
  case True
  with transition_refused [OF this, of put st] assms show ?thesis by auto
next
  case False
  then have "request_transition put request st = Some (st', res)" "\<not> gq_in_place request" "gq_evidence_refs request \<noteq> []"
    using assms(3) by auto
  note acc = this(1) [unfolded transition_accepted [OF assms(1,2) this(2,3)]]
  have new: "valid_id MAX_ID_LEN (version_name (gq_candidate_id request) (Suc (gl_next_seq st)))"
    using acc assms(2) by (auto simp: valid_version_name request_wf_def Let_def)
  have old: "lineage_ok (Suc (gl_next_seq st)) k r" if "gate_get st k = Some r" for k r
    using assms(1) that lineage_ok_mono [of "gl_next_seq st" k r "Suc (gl_next_seq st)"] by (simp add: gate_inv_def)
  have "lineage_ok (Suc (gl_next_seq st)) k r" if "gate_get st' k = Some r" for k r
  proof (cases "k = version_name (gq_candidate_id request) (Suc (gl_next_seq st))")
    case True
    have "\<exists>n. 1 \<le> n \<and> n \<le> Suc (gl_next_seq st) \<and> k = version_name (gq_candidate_id request) n"
      using True by (intro exI [of _ "Suc (gl_next_seq st)"]) simp
    moreover have "r = \<lparr>cd_candidate_id = k, cd_lifecycle_type = gq_requested_type request,
        cd_evidence_refs = gq_evidence_refs request, cd_predecessor = Some (gq_candidate_id request)\<rparr>"
      using True acc that by (auto simp: gate_get_def Let_def)
    ultimately show ?thesis using False new by (simp add: lineage_ok_def True)
  next
    case False
    with acc that old [of k r] show ?thesis by (auto simp: gate_get_def Let_def)
  qed
  then show ?thesis using acc by (auto simp: gate_inv_def Let_def)
qed

lemma gate_inv_run:
  "gate_run put calls st = Some st' \<Longrightarrow> gate_inv st \<Longrightarrow> list_all call_wf calls \<Longrightarrow> gate_inv st'"
proof (induction put calls st rule: gate_run.induct)
  case (2 put i ev calls st)
  then show ?case using gate_inv_seed [of st i put ev] by simp
next
  case (3 put request calls st)
  then show ?case using gate_inv_transition [of st request put] by (fastforce simp: bind_eq_Some_conv)
qed simp

section \<open>Immutability\<close>

text \<open>Without seeds under generated names, a generated name on file carries a past sequence number.\<close>

fun seeds_plain :: "gate_call \<Rightarrow> bool" where
  "seeds_plain (Seed i ev) = (\<not> generated i)"
| "seeds_plain (Transition request) = True"

fun seeds :: "gate_call \<Rightarrow> string option" where
  "seeds (Seed i ev) = Some i"
| "seeds (Transition request) = None"

definition numbered_past :: "'s gate_lifecycle \<Rightarrow> bool" where
  "numbered_past st = (\<forall>a n. hm_contains (gl_records st) (version_name a n) \<longrightarrow> n \<le> gl_next_seq st)"

lemma numbered_pastD: "numbered_past st \<Longrightarrow> hm_get (gl_records st) (version_name a n) = Some y \<Longrightarrow> n \<le> gl_next_seq st"
  by (auto simp: numbered_past_def hm_contains_def)

lemma numbered_past_new: "numbered_past (gate_new s)"
  by (simp add: numbered_past_def gate_new_def hm_contains_def)

lemma numbered_past_seed:
  "numbered_past st \<Longrightarrow> \<not> generated i \<Longrightarrow> numbered_past (fst (seed_extracted put i ev st))"
  by (auto simp: numbered_past_def seed_extracted_def generated_def Let_def)

lemma transition_step:
  assumes "gate_inv st" "request_wf request" "request_transition put request st = Some (st', res)"
  shows "st' = st \<or> (gl_next_seq st' = Suc (gl_next_seq st) \<and>
    (\<exists>new. gl_records st' = hm_insert (version_name (gq_candidate_id request) (Suc (gl_next_seq st))) new (gl_records st)))"
proof (cases "gq_in_place request \<or> gq_evidence_refs request = []")
  case True
  with transition_refused [OF this, of put st] assms show ?thesis by auto
next
  case False
  then have "request_transition put request st = Some (st', res)" "\<not> gq_in_place request" "gq_evidence_refs request \<noteq> []"
    using assms(3) by auto
  from this(1) [unfolded transition_accepted [OF assms(1,2) this(2,3)]] show ?thesis by (auto simp: Let_def)
qed

lemma numbered_past_transition:
  assumes "gate_inv st" "request_wf request" "numbered_past st" "request_transition put request st = Some (st', res)"
  shows "numbered_past st'" "gate_get st k = Some r \<Longrightarrow> gate_get st' k = Some r"
  using transition_step [OF assms(1,2,4)] assms(3)
  by (auto simp: numbered_past_def [of st'] version_name_inject gate_get_def hm_contains_def le_SucI
    dest: numbered_pastD split: if_splits)

lemma numbered_past_run:
  "gate_run put calls st = Some st' \<Longrightarrow> gate_inv st \<Longrightarrow> list_all call_wf calls \<Longrightarrow> numbered_past st \<Longrightarrow>
     list_all seeds_plain calls \<Longrightarrow>
     numbered_past st' \<and> (gate_get st k = Some r \<longrightarrow> Some k \<notin> seeds ` set calls \<longrightarrow> gate_get st' k = Some r)"
proof (induction put calls st rule: gate_run.induct)
  case (2 put i ev calls st)
  then have "gate_get st k = Some r \<longrightarrow> k \<noteq> i \<longrightarrow> gate_get (fst (seed_extracted put i ev st)) k = Some r"
    by (simp add: gate_get_def seed_extracted_def Let_def)
  with 2 gate_inv_seed [of st i put ev] numbered_past_seed [of st i put ev] show ?case by auto
next
  case (3 put request calls st)
  then obtain st1 res where t: "request_transition put request st = Some (st1, res)" "gate_run put calls st1 = Some st'"
    by (auto simp: bind_eq_Some_conv)
  have w: "request_wf request" using 3 by simp
  from "3.IH" [OF t(1) refl t(2)] gate_inv_transition [OF "3.prems"(2) w t(1)]
    numbered_past_transition(1) [OF "3.prems"(2) w "3.prems"(4) t(1)]
    numbered_past_transition(2) [OF "3.prems"(2) w "3.prems"(4) t(1), of k r] "3.prems"
  show ?case by auto
qed simp

section \<open>Properties\<close>

text \<open>Lineage: in every history of the gate, with any store, a candidate on file as verified, or with a
predecessor, is an outcome that the gate minted: it carries a non-empty evidence chain and its name is its
predecessor's followed by a version number that the gate has given out; a seeded candidate is an extracted one
without predecessor.\<close>

theorem gate_lineage:
  assumes "gate_run put calls (gate_new s) = Some st" "list_all call_wf calls" "gate_get st k = Some r"
  shows "cd_candidate_id r = k \<and>
    (cd_lifecycle_type r = VerifiedAssertion \<longrightarrow> cd_predecessor r \<noteq> None) \<and>
    (\<forall>p. cd_predecessor r = Some p \<longrightarrow> cd_evidence_refs r \<noteq> [] \<and>
       (\<exists>n. 1 \<le> n \<and> n \<le> gl_next_seq st \<and> k = version_name p n))"
proof -
  have "lineage_ok (gl_next_seq st) k r"
    using gate_inv_run [OF assms(1) gate_inv_new assms(2)] assms(3) by (simp add: gate_inv_def)
  then show ?thesis by (cases "cd_predecessor r") (auto simp: lineage_ok_def)
qed

text \<open>C12. No mutation in place: when no candidate is seeded under a name of the gate's own form, a record stays as
it is through every later call that does not seed that very name, and whatever the store does.\<close>

theorem gate_records_immutable:
  assumes "gate_run put (calls @ later) (gate_new s) = Some st'" "gate_run put calls (gate_new s) = Some st"
    and "list_all call_wf (calls @ later)" "list_all seeds_plain (calls @ later)"
    and "gate_get st k = Some r" "Some k \<notin> seeds ` set later"
  shows "gate_get st' k = Some r"
proof -
  have split: "gate_run put (c @ m) x = Option.bind (gate_run put c x) (gate_run put m)" for c m x
    by (induction put c x rule: gate_run.induct) (auto split: Option.bind_splits)
  have inv: "gate_inv st" "numbered_past st"
    using assms gate_inv_run [OF assms(2) gate_inv_new] numbered_past_run [OF assms(2) gate_inv_new _ numbered_past_new]
    by auto
  show ?thesis
    using numbered_past_run [of put later st st' k r] inv assms split [of calls later "gate_new s"] by simp
qed

text \<open>When the gate panics: in a state that histories reach, a request on a valid name has no answer exactly
when it asks for a new outcome with evidence and the counter is exhausted or the name with \<open>:v\<close> and the version
number is longer than 64 bytes.\<close>

theorem gate_panics_iff:
  assumes "gate_run put calls (gate_new s) = Some st" "list_all call_wf calls" "request_wf request"
  shows "request_transition put request st = None \<longleftrightarrow>
    \<not> gq_in_place request \<and> gq_evidence_refs request \<noteq> [] \<and>
    (Suc (gl_next_seq st) \<ge> u64_limit \<or>
     length (gq_candidate_id request) + 2 + length (show_nat (Suc (gl_next_seq st))) > MAX_ID_LEN)"
proof (cases "gq_in_place request \<or> gq_evidence_refs request = []")
  case True
  with transition_refused [OF this, of put st] show ?thesis by auto
next
  case False
  have inv: "gate_inv st" by (rule gate_inv_run [OF assms(1) gate_inv_new assms(2)])
  have "(\<exists>y. request_transition put request st = Some y) \<longleftrightarrow> Suc (gl_next_seq st) < u64_limit \<and>
    length (gq_candidate_id request) + 2 + length (show_nat (Suc (gl_next_seq st))) \<le> MAX_ID_LEN"
    using False transition_accepted [OF inv assms(3), of put] digest_chain_total
    by (auto simp: Let_def length_version_name)
  with False show ?thesis by (cases "request_transition put request st") (auto simp: not_less not_le)
qed

text \<open>A seeded candidate whose name has the form of a minted one is overwritten: after \<open>a:v1\<close> is seeded as an
extracted candidate, the first accepted transition of \<open>a\<close> files its own outcome under \<open>a:v1\<close>, and the seeded record is
gone.\<close>

theorem gate_overwrites_seed:
  assumes "valid_id MAX_ID_LEN a" "length a \<le> 61" "refs \<noteq> []"
  shows "\<exists>st. gate_run put
      [Seed (version_name a 1) ev,
       Transition \<lparr>gq_candidate_id = a, gq_requested_type = t, gq_confidence = c, gq_evidence_refs = refs,
         gq_in_place = False\<rparr>] (gate_new s) = Some st \<and>
    gate_get st (version_name a 1) =
      Some \<lparr>cd_candidate_id = version_name a 1, cd_lifecycle_type = t, cd_evidence_refs = refs, cd_predecessor = Some a\<rparr>"
proof -
  let ?q = "\<lparr>gq_candidate_id = a, gq_requested_type = t, gq_confidence = c, gq_evidence_refs = refs, gq_in_place = False\<rparr>"
  let ?st = "fst (seed_extracted put (version_name a 1) ev (gate_new s))"
  have "length (show_nat (Suc 0)) = 1" by code_simp
  then have len: "length (version_name a (Suc 0)) \<le> MAX_ID_LEN"
    using assms(2) by (simp add: version_name_def MAX_ID_LEN_def)
  have "valid_id MAX_ID_LEN (version_name a 1)" using assms(1) len by (simp add: valid_version_name)
  then have inv: "gate_inv ?st" by (intro gate_inv_seed gate_inv_new)
  have wf: "request_wf ?q" using assms(1) by (simp add: request_wf_def)
  obtain d where d: "digest_chain a refs = Some d" using digest_chain_total by blast
  have seq: "gl_next_seq (fst (seed_extracted put i ev (gate_new s))) = 0" for i
    by (simp add: seed_extracted_def gate_new_def Let_def)
  have "\<exists>st' res. request_transition put ?q ?st = Some (st', res) \<and> gate_get st' (version_name a 1) =
      Some \<lparr>cd_candidate_id = version_name a 1, cd_lifecycle_type = t, cd_evidence_refs = refs, cd_predecessor = Some a\<rparr>"
    using d len assms(3)
    by (subst transition_accepted [OF inv wf]) (simp_all add: seq Let_def gate_get_def u64_limit_def)
  then show ?thesis by (auto simp: bind_eq_Some_conv)
qed

section \<open>Instances\<close>

definition sample_transition :: gate_request where
  "sample_transition = \<lparr>gq_candidate_id = ''a'', gq_requested_type = VerifiedAssertion, gq_confidence = 95,
     gq_evidence_refs = [''e''], gq_in_place = False\<rparr>"

definition sample_calls :: "gate_call list" where
  "sample_calls = [Seed ''a'' [], Transition sample_transition]"

lemma sample_run:
  "map_option (\<lambda>st. (gl_next_seq st, gate_get st ''a:v1'', gate_get st ''a''))
     (gate_run mutating_put sample_calls (gate_new [])) =
   Some (1, Some \<lparr>cd_candidate_id = ''a:v1'', cd_lifecycle_type = VerifiedAssertion, cd_evidence_refs = [''e''],
              cd_predecessor = Some ''a''\<rparr>,
         Some \<lparr>cd_candidate_id = ''a'', cd_lifecycle_type = ExtractedCandidate, cd_evidence_refs = [],
              cd_predecessor = None\<rparr>)"
  by code_simp

lemma sample_calls_wf: "list_all call_wf sample_calls"
  by code_simp

theorem gate_lineage_witness:
  "\<exists>st r. gate_run mutating_put sample_calls (gate_new []) = Some st \<and> gate_get st ''a:v1'' = Some r \<and>
    cd_evidence_refs r \<noteq> []"
proof -
  obtain st r where st: "gate_run mutating_put sample_calls (gate_new []) = Some st" "gate_get st ''a:v1'' = Some r"
    "cd_predecessor r = Some ''a''"
    using sample_run by auto
  from gate_lineage [OF st(1) sample_calls_wf st(2)] st show ?thesis by auto
qed

lemma not_generated: "CHR '':'' \<notin> set k \<Longrightarrow> \<not> generated k"
  by (auto simp: generated_def version_name_def)

theorem gate_records_immutable_witness:
  "\<exists>st st'. gate_run mutating_put [Seed ''a'' []] (gate_new []) = Some st \<and>
    gate_run mutating_put sample_calls (gate_new []) = Some st' \<and> gate_get st' ''a'' = gate_get st ''a'' \<and>
    gate_get st ''a'' \<noteq> None"
proof -
  obtain st' where st': "gate_run mutating_put sample_calls (gate_new []) = Some st'" using sample_run by auto
  obtain st r where st: "gate_run mutating_put [Seed ''a'' []] (gate_new []) = Some st" "gate_get st ''a'' = Some r"
    by (auto simp: seed_extracted_def gate_new_def gate_get_def Let_def)
  have eq: "[Seed ''a'' []] @ [Transition sample_transition] = sample_calls" by (simp add: sample_calls_def)
  have "list_all call_wf ([Seed ''a'' []] @ [Transition sample_transition])"
    "list_all seeds_plain ([Seed ''a'' []] @ [Transition sample_transition])"
    using sample_calls_wf by (simp_all add: sample_calls_def not_generated)
  from gate_records_immutable [OF _ st(1) this st(2), of st', unfolded eq, OF st'] have "gate_get st' ''a'' = Some r"
    by simp
  with st' st show ?thesis by auto
qed

definition long_name :: string where
  "long_name = replicate 62 (CHR ''a'')"

theorem gate_panics_iff_witness:
  "request_transition mutating_put (sample_transition\<lparr>gq_candidate_id := long_name\<rparr>) (gate_new []) = None"
proof -
  have len: "length (show_nat (Suc 0)) = 1" by code_simp
  have "valid_id MAX_ID_LEN long_name"
    by (simp add: valid_id_def long_name_def MAX_ID_LEN_def list_all_iff id_char_def is_ascii_alphanumeric_def less_eq_char_def)
  then have wf: "request_wf (sample_transition\<lparr>gq_candidate_id := long_name\<rparr>)" by (simp add: request_wf_def)
  show ?thesis
    using gate_panics_iff [of mutating_put "[]" "[]" _ "sample_transition\<lparr>gq_candidate_id := long_name\<rparr>", OF _ _ wf] len
    by (simp add: sample_transition_def gate_new_def long_name_def MAX_ID_LEN_def)
qed

theorem gate_overwrites_seed_witness:
  "\<exists>st. gate_run mutating_put
      [Seed (version_name ''a'' 1) [],
       Transition \<lparr>gq_candidate_id = ''a'', gq_requested_type = VerifiedAssertion, gq_confidence = 95,
         gq_evidence_refs = [''e''], gq_in_place = False\<rparr>] (gate_new []) = Some st \<and>
    gate_get st (version_name ''a'' 1) =
      Some \<lparr>cd_candidate_id = version_name ''a'' 1, cd_lifecycle_type = VerifiedAssertion, cd_evidence_refs = [''e''],
        cd_predecessor = Some ''a''\<rparr>"
proof -
  have "valid_id MAX_ID_LEN ''a''" by code_simp
  then show ?thesis by (rule gate_overwrites_seed) simp_all
qed

end
