(* ===== verification/LN_Identity.thy ===== *)
theory LN_Identity
  imports LN_Calendar
begin

text \<open>
  \<open>crates/ln-identity\<close>: the C12 identity policy (\<open>AssertIdentity\<close>, \<open>application.rs\<close>) over any
  \<open>IdentityStorePort\<close>, and the FRBR work and expression identities (\<open>mint_work\<close>, \<open>mint_expression\<close>,
  \<open>compare_work_identities\<close>, \<open>domain.rs\<close>). The policy only writes to its store. The embedded ontology file is the
  parameter \<open>text\<close>, as in the theory of the legal calendar, whose scanner and civil-day functions the crate repeats.
\<close>

section \<open>Domain of the C12 policy\<close>

definition C12_GATE_VERSION :: string where
  "C12_GATE_VERSION = ''c12:v1''"

datatype evidence_side = SideLeft | SideRight | Bilateral

record evidence_contribution =
  ec_contribution_id :: string
  ec_family_id :: string
  ec_side :: evidence_side
  ec_evidence_ceiling :: string

datatype identity_outcome =
  IO_Same | IO_Different | IO_Candidate | IO_Ambiguous | IO_Conflict | IO_NotResolvable

fun identity_outcome_as_str :: "identity_outcome \<Rightarrow> string" where
  "identity_outcome_as_str IO_Same = ''same''"
| "identity_outcome_as_str IO_Different = ''different''"
| "identity_outcome_as_str IO_Candidate = ''candidate''"
| "identity_outcome_as_str IO_Ambiguous = ''ambiguous''"
| "identity_outcome_as_str IO_Conflict = ''conflict''"
| "identity_outcome_as_str IO_NotResolvable = ''not-resolvable''"

datatype identity_reason =
  OneSidedEvidence | SimilarityOnly | MissingIdentityEvidence | BilateralSameEvidence
| BilateralDifferentEvidence | ConflictingEvidence

fun identity_reason_as_str :: "identity_reason \<Rightarrow> string" where
  "identity_reason_as_str OneSidedEvidence = ''one-sided-evidence''"
| "identity_reason_as_str SimilarityOnly = ''similarity-only''"
| "identity_reason_as_str MissingIdentityEvidence = ''missing-evidence''"
| "identity_reason_as_str BilateralSameEvidence = ''bilateral-same-evidence''"
| "identity_reason_as_str BilateralDifferentEvidence = ''bilateral-different-evidence''"
| "identity_reason_as_str ConflictingEvidence = ''conflicting-evidence''"

record identity_record =
  ir_identity_id :: string
  ir_label :: string

record assert_request =
  iq_left_id :: string
  iq_right_id :: string
  iq_contributions :: "evidence_contribution list"
  iq_claim_same :: bool
  iq_similarity_score :: "8 word option"
  iq_method :: string
  iq_scope :: string

record identity_assertion =
  ia_c12_version :: string
  ia_outcome :: identity_outcome
  ia_reason :: identity_reason
  ia_left_id :: string
  ia_right_id :: string
  ia_left_survives :: bool
  ia_right_survives :: bool
  ia_merge_performed :: bool
  ia_no_merge_observation :: bool
  ia_contribution_ids :: "string list"
  ia_input_chain_digest :: string
  ia_method :: string
  ia_scope :: string
  ia_evidence_ceiling_visible :: bool

definition pair_material :: "string \<Rightarrow> string \<Rightarrow> evidence_contribution list \<Rightarrow> string" where
  "pair_material left_id right_id contributions =
     foldl (\<lambda>material item. material @ CHR ''|'' # ec_contribution_id item @ CHR '':'' # ec_family_id item)
       (bar left_id right_id) contributions"

definition digest_pair :: "string \<Rightarrow> string \<Rightarrow> evidence_contribution list \<Rightarrow> string option" where
  "digest_pair left_id right_id contributions =
     expect (parse_id ''input chain digest'' (digest_bytes (pair_material left_id right_id contributions)) MAX_ID_LEN)"

section \<open>The C12 policy\<close>

type_synonym 's identity_put = "identity_record \<Rightarrow> 's \<Rightarrow> 's"

record 's assert_identity =
  as_store :: 's
  as_identities :: "(string, identity_record) hashmap"

definition identity_new :: "'s \<Rightarrow> 's assert_identity" where
  "identity_new store = \<lparr>as_store = store, as_identities = []\<rparr>"

definition identity_seed ::
    "'s identity_put \<Rightarrow> string \<Rightarrow> string \<Rightarrow> 's assert_identity \<Rightarrow> 's assert_identity \<times> identity_record" where
  "identity_seed put identity_id label st =
     (let record = \<lparr>ir_identity_id = identity_id, ir_label = label\<rparr>
      in (st\<lparr>as_identities := hm_insert identity_id record (as_identities st), as_store := put record (as_store st)\<rparr>,
          record))"

definition ensure_present :: "'s identity_put \<Rightarrow> string \<Rightarrow> 's assert_identity \<Rightarrow> 's assert_identity" where
  "ensure_present put identity_id st =
     (if hm_contains (as_identities st) identity_id then st
      else let record = \<lparr>ir_identity_id = identity_id, ir_label = identity_id\<rparr>
           in st\<lparr>as_identities := hm_insert identity_id record (as_identities st), as_store := put record (as_store st)\<rparr>)"

text \<open>The evidence sides and the decision of \<open>assert_pair\<close>.\<close>

definition has_bilateral :: "evidence_contribution list \<Rightarrow> bool" where
  "has_bilateral cs =
     (let has_left = list_ex (\<lambda>c. ec_side c \<in> {SideLeft, Bilateral}) cs;
          has_right = list_ex (\<lambda>c. ec_side c \<in> {SideRight, Bilateral}) cs
      in list_ex (\<lambda>c. ec_side c = Bilateral) cs \<or> (has_left \<and> has_right))"

definition identity_decision :: "assert_request \<Rightarrow> identity_outcome \<times> identity_reason" where
  "identity_decision request =
     (let has_any_evidence = (iq_contributions request \<noteq> []);
          similarity_only = (iq_similarity_score request \<noteq> None \<and> \<not> has_any_evidence)
      in if iq_claim_same request
           then if similarity_only then (IO_Ambiguous, SimilarityOnly)
                else if \<not> has_any_evidence then (IO_NotResolvable, MissingIdentityEvidence)
                else if \<not> has_bilateral (iq_contributions request) then (IO_Candidate, OneSidedEvidence)
                else (IO_Same, BilateralSameEvidence)
         else if has_bilateral (iq_contributions request) then (IO_Different, BilateralDifferentEvidence)
         else if has_any_evidence then (IO_Ambiguous, OneSidedEvidence)
         else if similarity_only then (IO_Ambiguous, SimilarityOnly)
         else (IO_NotResolvable, MissingIdentityEvidence))"

definition assert_pair ::
    "'s identity_put \<Rightarrow> assert_request \<Rightarrow> 's assert_identity \<Rightarrow> ('s assert_identity \<times> identity_assertion) option" where
  "assert_pair put request st = do {
     let st = ensure_present put (iq_right_id request) (ensure_present put (iq_left_id request) st);
     digest \<leftarrow> digest_pair (iq_left_id request) (iq_right_id request) (iq_contributions request);
     let (outcome, reason) = identity_decision request;
     version \<leftarrow> expect (parse_id ''c12 version'' C12_GATE_VERSION MAX_ID_LEN);
     Some (st, \<lparr>ia_c12_version = version, ia_outcome = outcome, ia_reason = reason, ia_left_id = iq_left_id request,
       ia_right_id = iq_right_id request, ia_left_survives = hm_contains (as_identities st) (iq_left_id request),
       ia_right_survives = hm_contains (as_identities st) (iq_right_id request), ia_merge_performed = False,
       ia_no_merge_observation = True, ia_contribution_ids = map ec_contribution_id (iq_contributions request),
       ia_input_chain_digest = digest, ia_method = iq_method request, ia_scope = iq_scope request,
       ia_evidence_ceiling_visible =
         (list_ex (\<lambda>c. ec_evidence_ceiling c \<noteq> []) (iq_contributions request) \<or> iq_contributions request = [])\<rparr>) }"

definition identity_get :: "'s assert_identity \<Rightarrow> string \<Rightarrow> identity_record option" where
  "identity_get st identity_id = hm_get (as_identities st) identity_id"

definition identity_contains :: "'s assert_identity \<Rightarrow> string \<Rightarrow> bool" where
  "identity_contains st identity_id = hm_contains (as_identities st) identity_id"

fun assert_run ::
    "'s identity_put \<Rightarrow> assert_request list \<Rightarrow> 's assert_identity \<Rightarrow>
     ('s assert_identity \<times> identity_assertion list) option" where
  "assert_run put [] st = Some (st, [])"
| "assert_run put (request # requests) st =
     do { (st1, a) \<leftarrow> assert_pair put request st;
          (st2, as) \<leftarrow> assert_run put requests st1;
          Some (st2, a # as) }"

section \<open>FRBR identities\<close>

datatype frbr_error =
  MissingAuthority | InvalidAuthority | MissingEnactmentDate | InvalidEnactmentDate
| MissingActNumber | InvalidActNumber | InvalidEffectDay | InvalidId id_error

definition id_error_display :: "id_error \<Rightarrow> string" where
  "id_error_display e = ''invalid '' @ ie_kind e @ '': '' @ ie_reason e"

fun frbr_error_display :: "frbr_error \<Rightarrow> string" where
  "frbr_error_display MissingAuthority = ''work identity requires issuing authority''"
| "frbr_error_display InvalidAuthority = ''issuing authority token is invalid''"
| "frbr_error_display MissingEnactmentDate = ''work identity requires enactment date''"
| "frbr_error_display InvalidEnactmentDate = ''enactment date must be ISO YYYY-MM-DD''"
| "frbr_error_display MissingActNumber = ''work identity requires act number''"
| "frbr_error_display InvalidActNumber = ''act number token is invalid''"
| "frbr_error_display InvalidEffectDay = ''expression effect day must be ISO YYYY-MM-DD''"
| "frbr_error_display (InvalidId err) = id_error_display err"

definition is_ascii_lowercase :: "char \<Rightarrow> bool" where
  "is_ascii_lowercase c = (CHR ''a'' \<le> c \<and> c \<le> CHR ''z'')"

definition parse_issuing_authority :: "string \<Rightarrow> frbr_error + string" where
  "parse_issuing_authority value =
     (if value = [] then Inl MissingAuthority
      else if length value > 32 then Inl InvalidAuthority
      else if \<not> list_all (\<lambda>b. is_ascii_lowercase b \<or> is_ascii_digit b \<or> b = CHR ''-'') value
        then Inl InvalidAuthority
      else Inr value)"

definition parse_act_number :: "string \<Rightarrow> frbr_error + string" where
  "parse_act_number value =
     (if value = [] then Inl MissingActNumber
      else if length value > 24 then Inl InvalidActNumber
      else if \<not> list_all (\<lambda>b. is_ascii_lowercase b \<or> is_ascii_digit b \<or> b \<in> set ''-.'') value
        then Inl InvalidActNumber
      else Inr value)"

definition calendar_year_bounds :: "string \<Rightarrow> (int \<times> int) option" where
  "calendar_year_bounds text = do {
     min_year \<leftarrow> Option.bind (scalar_under text ''calendar:'' ''min_year:'') parse_i32;
     max_year \<leftarrow> Option.bind (scalar_under text ''calendar:'' ''max_year:'') parse_i32;
     if min_year \<le> max_year then Some (min_year, max_year) else None }"

definition is_iso_day :: "string \<Rightarrow> string \<Rightarrow> bool" where
  "is_iso_day text value =
     (case parse_iso_parts value of
        None \<Rightarrow> False
      | Some (year, month, day) \<Rightarrow>
          (case calendar_year_bounds text of
             None \<Rightarrow> False
           | Some (min_year, max_year) \<Rightarrow>
               min_year \<le> year \<and> year \<le> max_year \<and> day \<ge> 1 \<and> day \<le> days_in_month year month))"

definition FRBR_NON_CLAIMS :: "string list" where
  "FRBR_NON_CLAIMS =
     [''FRBR Work/Expression spine is structural identity only; not C12 digest merge'',
      ''Work identity does not imply ForceStatus InForce'',
      ''Work/Expression presence does not imply Applicability'',
      ''ELI URN is a compatibility projection, not project-local canon'',
      ''Not corpus identity stability, not Manifestation/Item store, not legal validation'',
      ''Lifecycle [proposed]; KBO-R011 S2; not O3 fixture edges'']"

record frbr_work =
  fw_work_id :: string
  fw_authority :: string
  fw_enactment_date :: string
  fw_act_number :: string
  fw_kind :: string
  fw_non_claims :: "string list"

definition eli_projection :: "frbr_work \<Rightarrow> string" where
  "eli_projection w = ''urn:lex:ru:'' @ fw_authority w @ '':'' @ fw_kind w @ '':'' @ fw_enactment_date w @ '';'' @
     fw_act_number w"

record frbr_expression =
  fx_expression_id :: string
  fx_work_id :: string
  fx_legal_act_effect_day :: string
  fx_non_claims :: "string list"

datatype frbr_compare_outcome = FC_Same | FC_Different | FC_Conflict

fun frbr_compare_as_str :: "frbr_compare_outcome \<Rightarrow> string" where
  "frbr_compare_as_str FC_Same = ''same''"
| "frbr_compare_as_str FC_Different = ''different''"
| "frbr_compare_as_str FC_Conflict = ''conflict''"

record frbr_compare_result =
  fr_outcome :: frbr_compare_outcome
  fr_used_c12_digest :: bool
  fr_non_claims :: "string list"

definition work_name :: "string \<Rightarrow> string \<Rightarrow> string \<Rightarrow> string \<Rightarrow> string" where
  "work_name authority kind date number =
     ''work:ru:'' @ authority @ CHR '':'' # kind @ CHR '':'' # date @ CHR '':'' # number"

definition expression_name :: "frbr_work \<Rightarrow> string \<Rightarrow> string" where
  "expression_name w day =
     ''expr:ru:'' @ fw_authority w @ CHR '':'' # fw_kind w @ CHR '':'' # fw_enactment_date w @ CHR '':'' #
     fw_act_number w @ CHR '':'' # day"

definition mint_work :: "string \<Rightarrow> string \<Rightarrow> string \<Rightarrow> string \<Rightarrow> frbr_error + frbr_work" where
  "mint_work text authority enactment_date act_number =
     (case parse_issuing_authority authority of
        Inl e \<Rightarrow> Inl e
      | Inr authority \<Rightarrow>
          if enactment_date = [] then Inl MissingEnactmentDate
          else if \<not> is_iso_day text enactment_date then Inl InvalidEnactmentDate
          else case parse_act_number act_number of
            Inl e \<Rightarrow> Inl e
          | Inr act_number \<Rightarrow>
              (let kind = ''zakon''
               in case map_err InvalidId
                    (parse_id ''work id'' (work_name authority kind enactment_date act_number) MAX_ID_LEN) of
                    Inl e \<Rightarrow> Inl e
                  | Inr work_id \<Rightarrow>
                      Inr \<lparr>fw_work_id = work_id, fw_authority = authority, fw_enactment_date = enactment_date,
                           fw_act_number = act_number, fw_kind = kind, fw_non_claims = FRBR_NON_CLAIMS\<rparr>))"

definition mint_expression :: "string \<Rightarrow> frbr_work \<Rightarrow> string \<Rightarrow> frbr_error + frbr_expression" where
  "mint_expression text w day =
     (if day = [] \<or> \<not> is_iso_day text day then Inl InvalidEffectDay
      else case map_err InvalidId (parse_id ''expression id'' (expression_name w day) MAX_ID_LEN) of
        Inl e \<Rightarrow> Inl e
      | Inr expression_id \<Rightarrow>
          Inr \<lparr>fx_expression_id = expression_id, fx_work_id = fw_work_id w, fx_legal_act_effect_day = day,
               fx_non_claims = FRBR_NON_CLAIMS\<rparr>)"

definition compare_work_identities :: "frbr_work \<Rightarrow> frbr_work \<Rightarrow> frbr_compare_result" where
  "compare_work_identities left right =
     (let outcome =
        (if fw_work_id left = fw_work_id right then FC_Same
         else if fw_act_number left = fw_act_number right then FC_Conflict
         else FC_Different)
      in \<lparr>fr_outcome = outcome, fr_used_c12_digest = False, fr_non_claims = FRBR_NON_CLAIMS\<rparr>)"

section \<open>Stores\<close>

type_synonym identity_store = "(string, identity_record) hashmap"

definition identity_memory_put :: "identity_record \<Rightarrow> identity_store \<Rightarrow> identity_store" where
  "identity_memory_put record items = hm_insert (ir_identity_id record) record items"

record erasing_store =
  er_items :: identity_store
  er_right_to_erase :: "string option"

definition targeting_right :: "string \<Rightarrow> erasing_store" where
  "targeting_right right_id = \<lparr>er_items = [], er_right_to_erase = Some right_id\<rparr>"

definition erasing_put :: "identity_record \<Rightarrow> erasing_store \<Rightarrow> erasing_store" where
  "erasing_put record st =
     (let items = hm_insert (ir_identity_id record) record (er_items st)
      in st\<lparr>er_items := (case er_right_to_erase st of Some right \<Rightarrow> hm_remove right items | None \<Rightarrow> items)\<rparr>)"

section \<open>The identities on file\<close>

lemma digest_pair_total: "\<exists>d. digest_pair l r cs = Some d"
  by (simp add: digest_pair_def digest_bytes_def valid_fnv_label MAX_ID_LEN_def parse_id_valid)

lemma c12_version_parses: "parse_id k C12_GATE_VERSION MAX_ID_LEN = Inr C12_GATE_VERSION"
proof -
  have "valid_id MAX_ID_LEN C12_GATE_VERSION" by code_simp
  then show ?thesis by (rule parse_id_valid)
qed

lemma get_ensure_present:
  "identity_get (ensure_present put i st) k =
     (if k = i \<and> identity_get st i = None then Some \<lparr>ir_identity_id = i, ir_label = i\<rparr> else identity_get st k)"
  by (auto simp: identity_get_def ensure_present_def hm_contains_def Let_def)

lemma assert_pair_eq:
  "\<exists>a. assert_pair put request st =
       Some (ensure_present put (iq_right_id request) (ensure_present put (iq_left_id request) st), a) \<and>
     ia_outcome a = fst (identity_decision request) \<and> ia_reason a = snd (identity_decision request) \<and>
     ia_left_survives a \<and> ia_right_survives a \<and> \<not> ia_merge_performed a \<and>
     ia_left_id a = iq_left_id request \<and> ia_right_id a = iq_right_id request"
  using digest_pair_total [of "iq_left_id request" "iq_right_id request" "iq_contributions request"]
  by (auto simp: assert_pair_def c12_version_parses Let_def ensure_present_def case_prod_beta)

text \<open>The store contract, and what it gives: the store holds every identity of the ledger.\<close>

locale identity_store_port =
  fixes put :: "identity_record \<Rightarrow> 's \<Rightarrow> 's"
    and get :: "'s \<Rightarrow> string \<Rightarrow> identity_record option"
  assumes get_put: "get (put r s) k = (if k = ir_identity_id r then Some r else get s k)"
begin

definition agrees :: "'s assert_identity \<Rightarrow> bool" where
  "agrees st = (\<forall>k r. identity_get st k = Some r \<longrightarrow> get (as_store st) k = Some r)"

lemma agrees_new: "agrees (identity_new s)"
  by (simp add: agrees_def identity_new_def identity_get_def)

lemma agrees_ensure: "agrees st \<Longrightarrow> agrees (ensure_present put i st)"
  by (auto simp: agrees_def get_put ensure_present_def identity_get_def hm_contains_def Let_def split: if_splits)

lemma agrees_run: "assert_run put requests st = Some (st', as) \<Longrightarrow> agrees st \<Longrightarrow> agrees st'"
proof (induction requests arbitrary: st as)
  case (Cons request requests)
  obtain a where a: "assert_pair put request st =
      Some (ensure_present put (iq_right_id request) (ensure_present put (iq_left_id request) st), a)"
    using assert_pair_eq by blast
  with Cons show ?case by (auto simp: bind_eq_Some_conv agrees_ensure)
qed simp

end

interpretation identity_memory: identity_store_port identity_memory_put hm_get
  by unfold_locales (simp add: identity_memory_put_def)

section \<open>Names of works\<close>

lemma not_colon:
  "\<not> is_ascii_lowercase (CHR '':'')" "\<not> is_ascii_digit (CHR '':'')"
  by (simp_all add: is_ascii_lowercase_def is_ascii_digit_def less_eq_char_def)

lemma lower_digit_id: "is_ascii_lowercase c \<or> is_ascii_digit c \<Longrightarrow> id_char c"
  by (auto simp: is_ascii_lowercase_def is_ascii_digit_def id_char_def is_ascii_alphanumeric_def)

definition authority_ok :: "string \<Rightarrow> bool" where
  "authority_ok v = (v \<noteq> [] \<and> length v \<le> 32 \<and> list_all (\<lambda>b. is_ascii_lowercase b \<or> is_ascii_digit b \<or> b = CHR ''-'') v)"

definition number_ok :: "string \<Rightarrow> bool" where
  "number_ok v = (v \<noteq> [] \<and> length v \<le> 24 \<and> list_all (\<lambda>b. is_ascii_lowercase b \<or> is_ascii_digit b \<or> b \<in> set ''-.'') v)"

lemma parse_issuing_authority_Inr: "parse_issuing_authority v = Inr a \<longleftrightarrow> a = v \<and> authority_ok v"
  by (auto simp: parse_issuing_authority_def authority_ok_def)

lemma parse_act_number_Inr: "parse_act_number v = Inr a \<longleftrightarrow> a = v \<and> number_ok v"
  unfolding parse_act_number_def number_ok_def by auto

lemma authority_no_colon: "authority_ok a \<Longrightarrow> CHR '':'' \<notin> set a"
  using not_colon by (auto simp: authority_ok_def list_all_iff)

lemma iso_day_shape:
  assumes "is_iso_day text d"
  shows "length d = 10" "list_all (\<lambda>c. is_ascii_digit c \<or> c = CHR ''-'') d"
proof -
  let ?digits = "list_all (\<lambda>(index, byte).
      if index = 4 \<or> index = 7 then byte = CHR ''-'' else is_ascii_digit byte) (List.enumerate 0 d)"
  have all: ?digits
  proof (rule ccontr)
    assume n: "\<not> ?digits"
    have "parse_iso_parts d = None"
      unfolding parse_iso_parts_def by (simp only: n not_False_eq_True if_True if_cancel)
    with assms show False by (simp add: is_iso_day_def)
  qed
  have len: "length d = 10" using assms by (auto simp: is_iso_day_def parse_iso_parts_def split: if_splits)
  show "length d = 10" by (rule len)
  have "is_ascii_digit (d ! i) \<or> d ! i = CHR ''-''" if "i < length d" for i
    using all that by (auto simp: list_all_length nth_enumerate_eq split: if_splits)
  then show "list_all (\<lambda>c. is_ascii_digit c \<or> c = CHR ''-'') d" by (simp add: list_all_length)
qed

lemma day_no_colon: "is_iso_day text d \<Longrightarrow> CHR '':'' \<notin> set d"
  using iso_day_shape(2) [of "text" d] not_colon by (auto simp: list_all_iff)

lemma work_name_inject:
  assumes "authority_ok a" "authority_ok a'" "is_iso_day text d" "is_iso_day text d'"
  shows "work_name a k d n = work_name a' k d' n' \<longleftrightarrow> a = a' \<and> d = d' \<and> n = n'"
  using assms by (simp add: work_name_def sep_append_inject authority_no_colon day_no_colon)

lemma length_work_name: "length (work_name a ''zakon'' d n) = 16 + length a + length d + length n"
  by (simp add: work_name_def)

lemma tokens_id:
  assumes "authority_ok a" "is_iso_day text d" "number_ok n"
  shows "list_all id_char a" "list_all id_char d" "list_all id_char n"
  using assms iso_day_shape(2) [of "text" d] lower_digit_id
  by (auto simp: authority_ok_def number_ok_def list_all_iff id_char_def)

lemma valid_work_name:
  assumes "authority_ok a" "is_iso_day text d" "number_ok n"
  shows "valid_id MAX_ID_LEN (work_name a ''zakon'' d n) \<longleftrightarrow> length a + length n \<le> 38"
  using tokens_id [OF assms] iso_day_shape(1) [OF assms(2)]
  by (auto simp: valid_id_def work_name_def MAX_ID_LEN_def id_char_def is_ascii_alphanumeric_def less_eq_char_def)

lemma mint_work_Inr:
  "mint_work text a d n = Inr w \<longleftrightarrow>
     authority_ok a \<and> is_iso_day text d \<and> number_ok n \<and> length a + length n \<le> 38 \<and>
     w = \<lparr>fw_work_id = work_name a ''zakon'' d n, fw_authority = a, fw_enactment_date = d, fw_act_number = n,
          fw_kind = ''zakon'', fw_non_claims = FRBR_NON_CLAIMS\<rparr>"
proof -
  have d: "d \<noteq> []" if "is_iso_day text d" using iso_day_shape(1) [OF that] by auto
  show ?thesis
  proof
    assume "mint_work text a d n = Inr w"
    with d valid_work_name [of a "text" d n]
    show "authority_ok a \<and> is_iso_day text d \<and> number_ok n \<and> length a + length n \<le> 38 \<and>
      w = \<lparr>fw_work_id = work_name a ''zakon'' d n, fw_authority = a, fw_enactment_date = d, fw_act_number = n,
          fw_kind = ''zakon'', fw_non_claims = FRBR_NON_CLAIMS\<rparr>"
      by (auto simp: mint_work_def Let_def parse_issuing_authority_Inr parse_act_number_Inr parse_id_eq_Inr
        split: sum.splits if_splits)
  next
    assume r: "authority_ok a \<and> is_iso_day text d \<and> number_ok n \<and> length a + length n \<le> 38 \<and>
      w = \<lparr>fw_work_id = work_name a ''zakon'' d n, fw_authority = a, fw_enactment_date = d, fw_act_number = n,
          fw_kind = ''zakon'', fw_non_claims = FRBR_NON_CLAIMS\<rparr>"
    then have "parse_issuing_authority a = Inr a" "parse_act_number n = Inr n"
      "parse_id ''work id'' (work_name a ''zakon'' d n) MAX_ID_LEN = Inr (work_name a ''zakon'' d n)"
      using valid_work_name [of a "text" d n]
      by (simp_all add: parse_issuing_authority_Inr parse_act_number_Inr parse_id_valid)
    with r d show "mint_work text a d n = Inr w" by (simp add: mint_work_def Let_def)
  qed
qed

lemma mint_expression_Inr:
  assumes "mint_work text a d n = Inr w"
  shows "mint_expression text w day = Inr x \<longleftrightarrow>
     is_iso_day text day \<and> length a + length n \<le> 27 \<and>
     x = \<lparr>fx_expression_id = expression_name w day, fx_work_id = fw_work_id w, fx_legal_act_effect_day = day,
          fx_non_claims = FRBR_NON_CLAIMS\<rparr>"
proof (cases "is_iso_day text day")
  case True
  have w: "authority_ok a" "is_iso_day text d" "number_ok n" and
    eq: "w = \<lparr>fw_work_id = work_name a ''zakon'' d n, fw_authority = a, fw_enactment_date = d, fw_act_number = n,
          fw_kind = ''zakon'', fw_non_claims = FRBR_NON_CLAIMS\<rparr>"
    using assms by (auto simp: mint_work_Inr)
  have len: "length d = 10" "length day = 10" by (rule iso_day_shape(1) [OF w(2)], rule iso_day_shape(1) [OF True])
  have "list_all id_char day" using tokens_id(2) [OF w(1) True w(3)] .
  then have "valid_id MAX_ID_LEN (expression_name w day) \<longleftrightarrow> length a + length n \<le> 27"
    using tokens_id [OF w] len
    by (auto simp: valid_id_def expression_name_def eq MAX_ID_LEN_def id_char_def is_ascii_alphanumeric_def less_eq_char_def)
  then show ?thesis
    using True len
    by (cases "parse_id ''expression id'' (expression_name w day) MAX_ID_LEN")
      (auto simp: mint_expression_def parse_id_eq_Inr parse_id_valid)
qed (auto simp: mint_expression_def)

section \<open>Properties\<close>

text \<open>C14. The C12 policy never merges and never forgets: in every history of assertions, with any store (one that
erases identities included), the policy answers every request; both identities of a request survive; an identity on
file keeps its record; and the outcome is \<open>same\<close> exactly when the caller claims it and the contributions speak for
both sides.\<close>

theorem identity_never_merges:
  "\<exists>st' answers. assert_run put requests st = Some (st', answers) \<and> length answers = length requests \<and>
    (\<forall>k r. identity_get st k = Some r \<longrightarrow> identity_get st' k = Some r) \<and>
    (\<forall>i < length requests.
       ia_left_survives (answers ! i) \<and> ia_right_survives (answers ! i) \<and> \<not> ia_merge_performed (answers ! i) \<and>
       identity_contains st' (iq_left_id (requests ! i)) \<and> identity_contains st' (iq_right_id (requests ! i)) \<and>
       (ia_outcome (answers ! i) = IO_Same \<longleftrightarrow>
          iq_claim_same (requests ! i) \<and> has_bilateral (iq_contributions (requests ! i))))"
proof (induction requests arbitrary: st)
  case (Cons q qs)
  let ?st1 = "ensure_present put (iq_right_id q) (ensure_present put (iq_left_id q) st)"
  obtain a where a: "assert_pair put q st = Some (?st1, a)" "ia_outcome a = fst (identity_decision q)"
    "ia_left_survives a" "ia_right_survives a" "\<not> ia_merge_performed a"
    using assert_pair_eq by blast
  obtain st' answers where r: "assert_run put qs ?st1 = Some (st', answers)" "length answers = length qs"
    and keep: "\<And>k r. identity_get ?st1 k = Some r \<Longrightarrow> identity_get st' k = Some r"
    and rest: "\<And>i. i < length qs \<Longrightarrow>
       ia_left_survives (answers ! i) \<and> ia_right_survives (answers ! i) \<and> \<not> ia_merge_performed (answers ! i) \<and>
       identity_contains st' (iq_left_id (qs ! i)) \<and> identity_contains st' (iq_right_id (qs ! i)) \<and>
       (ia_outcome (answers ! i) = IO_Same \<longleftrightarrow> iq_claim_same (qs ! i) \<and> has_bilateral (iq_contributions (qs ! i)))"
    using Cons.IH [of ?st1] by blast
  have old: "identity_get st' k = Some r" if "identity_get st k = Some r" for k r
    using that by (intro keep) (auto simp: get_ensure_present)
  have "\<exists>r. identity_get ?st1 k = Some r" if "k \<in> {iq_left_id q, iq_right_id q}" for k
    using that by (cases "identity_get st k") (auto simp: get_ensure_present)
  then have both: "identity_contains st' k" if "k \<in> {iq_left_id q, iq_right_id q}" for k
    using keep that by (fastforce simp: identity_contains_def hm_contains_iff identity_get_def)
  have same: "ia_outcome a = IO_Same \<longleftrightarrow> iq_claim_same q \<and> has_bilateral (iq_contributions q)"
    unfolding a(2) by (auto simp: identity_decision_def has_bilateral_def Let_def)
  show ?case
  proof (intro exI conjI allI impI)
    show "assert_run put (q # qs) st = Some (st', a # answers)" using a(1) r(1) by simp
  next
    fix i assume "i < length (q # qs)"
    then show "ia_left_survives ((a # answers) ! i)" "ia_right_survives ((a # answers) ! i)"
      "\<not> ia_merge_performed ((a # answers) ! i)"
      "identity_contains st' (iq_left_id ((q # qs) ! i))" "identity_contains st' (iq_right_id ((q # qs) ! i))"
      "(ia_outcome ((a # answers) ! i) = IO_Same) =
        (iq_claim_same ((q # qs) ! i) \<and> has_bilateral (iq_contributions ((q # qs) ! i)))"
      using a rest both same by (cases i; simp)+
  qed (use r(2) old in auto)
qed simp

text \<open>A work is its authority, date and number: two minted works are compared as the same exactly when all three
agree, and as a conflict exactly when only the act number does.\<close>

theorem frbr_work_identity:
  assumes "mint_work text a d n = Inr w" "mint_work text a' d' n' = Inr w'"
  shows "(fr_outcome (compare_work_identities w w') = FC_Same \<longleftrightarrow> a = a' \<and> d = d' \<and> n = n') \<and>
    (fr_outcome (compare_work_identities w w') = FC_Conflict \<longleftrightarrow> n = n' \<and> (a \<noteq> a' \<or> d \<noteq> d'))"
proof -
  from assms have w: "authority_ok a" "is_iso_day text d" "authority_ok a'" "is_iso_day text d'"
    "fw_work_id w = work_name a ''zakon'' d n" "fw_work_id w' = work_name a' ''zakon'' d' n'"
    "fw_act_number w = n" "fw_act_number w' = n'"
    by (auto simp: mint_work_Inr)
  then show ?thesis by (auto simp: compare_work_identities_def Let_def work_name_inject [of a a' "text" d d'])
qed

text \<open>What can be minted: a work exactly for an authority token, an ISO day within the catalogued years and an
act number whose lengths add up to at most 38 bytes, although the tokens alone may take 32 and 24; an expression of
that work on a catalogued day exactly when they add up to at most 27, so longer works have no expression at all.\<close>

theorem frbr_minting_bounds:
  "((\<exists>w. mint_work text a d n = Inr w) \<longleftrightarrow>
      (\<exists>v. parse_issuing_authority a = Inr v) \<and> is_iso_day text d \<and> (\<exists>v. parse_act_number n = Inr v) \<and>
      length a + length n \<le> 38) \<and>
   (\<forall>w day. mint_work text a d n = Inr w \<longrightarrow>
      (\<exists>x. mint_expression text w day = Inr x) = (is_iso_day text day \<and> length a + length n \<le> 27))"
proof (intro conjI allI impI)
  fix w day assume "mint_work text a d n = Inr w"
  from mint_expression_Inr [OF this]
  show "(\<exists>x. mint_expression text w day = Inr x) = (is_iso_day text day \<and> length a + length n \<le> 27)" by simp
qed (auto simp: mint_work_Inr parse_issuing_authority_Inr parse_act_number_Inr)

text \<open>The two calendars agree: over an ontology text whose calendar catalog reads, the days that the identity
crate accepts for a work or an expression are exactly those that the temporal crate turns into an ordinal.\<close>

theorem iso_day_matches_calendar:
  assumes "parse_calendar_bounds text = Inr b"
  shows "is_iso_day text v \<longleftrightarrow> (\<exists>n. legal_act_effect_day_to_ordinal text v = Inr n)"
proof -
  have bounds: "calendar_year_bounds text = Some (cb_min_year b, cb_max_year b)"
    using assms
    by (auto simp: parse_calendar_bounds_def calendar_year_bounds_def simp del: bind_assoc split: option.splits if_splits)
  show ?thesis
    by (auto simp: is_iso_day_def bounds legal_act_effect_day_to_ordinal_def assms parse_civil_day_def
      is_valid_civil_day_def split: option.splits)
qed

section \<open>Instances\<close>

lemma sample_days: "is_iso_day ONTOLOGY_CALENDAR ''2013-04-05''" "is_iso_day ONTOLOGY_CALENDAR ''2014-01-01''"
proof -
  have b: "calendar_year_bounds ONTOLOGY_CALENDAR = Some (1800, 2100)" by code_simp
  have p: "parse_iso_parts ''2013-04-05'' = Some (2013, 4, 5)" "parse_iso_parts ''2014-01-01'' = Some (2014, 1, 1)"
    by code_simp+
  show "is_iso_day ONTOLOGY_CALENDAR ''2013-04-05''" "is_iso_day ONTOLOGY_CALENDAR ''2014-01-01''"
    by (simp_all add: is_iso_day_def b p days_in_month_def)
qed

lemma sample_tokens: "authority_ok ''duma''" "number_ok ''44-fz''" "number_ok ''45-fz''"
  by code_simp+

lemma sample_works:
  "\<exists>w w'. mint_work ONTOLOGY_CALENDAR ''duma'' ''2013-04-05'' ''44-fz'' = Inr w \<and>
     mint_work ONTOLOGY_CALENDAR ''duma'' ''2014-01-01'' ''44-fz'' = Inr w'"
  using sample_days sample_tokens by (simp add: mint_work_Inr)

theorem frbr_work_identity_witness:
  "\<exists>w w'. mint_work ONTOLOGY_CALENDAR ''duma'' ''2013-04-05'' ''44-fz'' = Inr w \<and>
     mint_work ONTOLOGY_CALENDAR ''duma'' ''2014-01-01'' ''44-fz'' = Inr w' \<and>
     fr_outcome (compare_work_identities w w') = FC_Conflict"
proof -
  obtain w w' where w: "mint_work ONTOLOGY_CALENDAR ''duma'' ''2013-04-05'' ''44-fz'' = Inr w"
    "mint_work ONTOLOGY_CALENDAR ''duma'' ''2014-01-01'' ''44-fz'' = Inr w'"
    using sample_works by blast
  from frbr_work_identity [OF w] w show ?thesis by auto
qed

theorem frbr_minting_bounds_witness:
  "\<exists>w. mint_work ONTOLOGY_CALENDAR ''duma'' ''2013-04-05'' ''44-fz'' = Inr w \<and>
     (\<exists>x. mint_expression ONTOLOGY_CALENDAR w ''2014-01-01'' = Inr x)"
proof -
  obtain w where w: "mint_work ONTOLOGY_CALENDAR ''duma'' ''2013-04-05'' ''44-fz'' = Inr w" using sample_works by blast
  from frbr_minting_bounds [of ONTOLOGY_CALENDAR "''duma''" "''2013-04-05''" "''44-fz''"] w sample_days(2)
  show ?thesis by auto
qed

theorem iso_day_matches_calendar_witness:
  "\<exists>n. legal_act_effect_day_to_ordinal ONTOLOGY_CALENDAR ''2013-04-05'' = Inr n"
  using iso_day_matches_calendar [OF ontology_calendar_bounds, of "''2013-04-05''"] sample_days by simp

theorem identity_never_merges_witness:
  "\<exists>st' answers. assert_run erasing_put
      [\<lparr>iq_left_id = ''l'', iq_right_id = ''r'', iq_contributions = [], iq_claim_same = True,
        iq_similarity_score = Some 99, iq_method = [], iq_scope = []\<rparr>]
      (identity_new (targeting_right ''r'')) = Some (st', answers) \<and>
    ia_right_survives (hd answers) \<and> identity_contains st' ''r'' \<and> ia_outcome (hd answers) \<noteq> IO_Same"
proof -
  let ?q = "\<lparr>iq_left_id = ''l'', iq_right_id = ''r'', iq_contributions = [], iq_claim_same = True,
        iq_similarity_score = Some 99, iq_method = [], iq_scope = []\<rparr>"
  from identity_never_merges [of erasing_put "[?q]" "identity_new (targeting_right ''r'')"]
  obtain st' a where "assert_run erasing_put [?q] (identity_new (targeting_right ''r'')) = Some (st', [a])"
    "ia_right_survives a" "identity_contains st' ''r''" "ia_outcome a = IO_Same \<longleftrightarrow> has_bilateral []"
    by (auto simp: length_Suc_conv)
  then show ?thesis by (auto simp: has_bilateral_def)
qed

end
