(* ===== verification/LN_Applicability.thy ===== *)
theory LN_Applicability
  imports LN_Calendar
begin

text \<open>
  \<open>crates/ln-applicability\<close>: the intermediate representation of a norm rule and its constructors, the algebra of
  predicates over a set of case facts (\<open>domain.rs\<close>), the capability inventory and the abstaining evaluator
  (\<open>EvaluateApplicability\<close>, \<open>application.rs\<close>). An early return from a loop is \<open>Inl\<close> of the result.
\<close>

section \<open>The representation of a norm rule\<close>

definition APPLICABILITY_ID_LEN :: nat where
  "APPLICABILITY_ID_LEN = 128"

definition PROTOCOL_VERSION :: string where
  "PROTOCOL_VERSION = ''applicability-protocol:v0-abstain-only''"

datatype norm_rule_ir_error =
  EmptyConditions | InvertedTemporalScope | InvalidTemporalDate | UnsupportedConditionKind
| UnsupportedExceptionKind | UnsupportedDefeaterKind | IrInvalidId id_error

fun ir_error_display :: "norm_rule_ir_error \<Rightarrow> string" where
  "ir_error_display EmptyConditions = ''norm rule IR requires at least one condition''"
| "ir_error_display InvertedTemporalScope = ''temporal scope effective_from must be <= effective_to''"
| "ir_error_display InvalidTemporalDate = ''temporal date must be YYYY-MM-DD or empty bound''"
| "ir_error_display UnsupportedConditionKind = ''unsupported condition kind''"
| "ir_error_display UnsupportedExceptionKind = ''unsupported exception kind''"
| "ir_error_display UnsupportedDefeaterKind = ''unsupported defeater kind''"
| "ir_error_display (IrInvalidId err) = ''invalid '' @ ie_kind err @ '': '' @ ie_reason err"

definition CLOSED_CONDITION_KINDS :: "string list" where
  "CLOSED_CONDITION_KINDS = [''fact_required'', ''fact_forbidden'', ''status_required'']"

definition CLOSED_EXCEPTION_KINDS :: "string list" where
  "CLOSED_EXCEPTION_KINDS = [''exception_clause'', ''carve_out'']"

definition CLOSED_DEFEATER_KINDS :: "string list" where
  "CLOSED_DEFEATER_KINDS = [''special_norm_defeats'', ''higher_rank_defeats'']"

definition is_yyyy_mm_dd :: "string \<Rightarrow> bool" where
  "is_yyyy_mm_dd value =
     (length value = 10 \<and> value ! 4 = CHR ''-'' \<and> value ! 7 = CHR ''-'' \<and>
      list_all is_ascii_digit (take 4 value) \<and> list_all is_ascii_digit (take 2 (drop 5 value)) \<and>
      list_all is_ascii_digit (take 2 (drop 8 value)))"

record temporal_scope =
  sc_effective_from :: "string option"
  sc_effective_to :: "string option"

definition scope_unbounded :: temporal_scope where
  "scope_unbounded = \<lparr>sc_effective_from = None, sc_effective_to = None\<rparr>"

definition scope_bound :: "string option \<Rightarrow> norm_rule_ir_error + string option" where
  "scope_bound b =
     (case b of None \<Rightarrow> Inr None
      | Some value \<Rightarrow> if is_yyyy_mm_dd value then Inr (Some value) else Inl InvalidTemporalDate)"

definition scope_try_new :: "string option \<Rightarrow> string option \<Rightarrow> norm_rule_ir_error + temporal_scope" where
  "scope_try_new effective_from effective_to =
     (case scope_bound effective_from of
        Inl e \<Rightarrow> Inl e
      | Inr from_day \<Rightarrow>
          (case scope_bound effective_to of
             Inl e \<Rightarrow> Inl e
           | Inr to_day \<Rightarrow>
               if (case (from_day, to_day) of (Some start, Some end_day) \<Rightarrow> start > end_day | _ \<Rightarrow> False)
               then Inl InvertedTemporalScope
               else Inr \<lparr>sc_effective_from = from_day, sc_effective_to = to_day\<rparr>))"

record norm_rule_condition =
  rc_id :: string
  rc_kind :: string

record rule_exception =
  re_id :: string
  re_kind :: string

record rule_defeater =
  rd_id :: string
  rd_kind :: string

definition condition_try_new :: "string \<Rightarrow> string \<Rightarrow> norm_rule_ir_error + norm_rule_condition" where
  "condition_try_new i kind =
     (case map_err IrInvalidId (parse_id ''condition id'' i APPLICABILITY_ID_LEN) of
        Inl e \<Rightarrow> Inl e
      | Inr i \<Rightarrow> if kind \<notin> set CLOSED_CONDITION_KINDS then Inl UnsupportedConditionKind
                else Inr \<lparr>rc_id = i, rc_kind = kind\<rparr>)"

definition exception_try_new :: "string \<Rightarrow> string \<Rightarrow> norm_rule_ir_error + rule_exception" where
  "exception_try_new i kind =
     (case map_err IrInvalidId (parse_id ''exception id'' i APPLICABILITY_ID_LEN) of
        Inl e \<Rightarrow> Inl e
      | Inr i \<Rightarrow> if kind \<notin> set CLOSED_EXCEPTION_KINDS then Inl UnsupportedExceptionKind
                else Inr \<lparr>re_id = i, re_kind = kind\<rparr>)"

definition defeater_try_new :: "string \<Rightarrow> string \<Rightarrow> norm_rule_ir_error + rule_defeater" where
  "defeater_try_new i kind =
     (case map_err IrInvalidId (parse_id ''defeater id'' i APPLICABILITY_ID_LEN) of
        Inl e \<Rightarrow> Inl e
      | Inr i \<Rightarrow> if kind \<notin> set CLOSED_DEFEATER_KINDS then Inl UnsupportedDefeaterKind
                else Inr \<lparr>rd_id = i, rd_kind = kind\<rparr>)"

record norm_rule =
  nr_id :: string
  nr_revision :: string
  nr_conditions :: "norm_rule_condition list"
  nr_exceptions :: "rule_exception list"
  nr_defeaters :: "rule_defeater list"
  nr_temporal_scope :: temporal_scope

definition norm_rule_try_new ::
    "string \<Rightarrow> string \<Rightarrow> norm_rule_condition list \<Rightarrow> rule_exception list \<Rightarrow> rule_defeater list \<Rightarrow> temporal_scope \<Rightarrow>
     norm_rule_ir_error + norm_rule" where
  "norm_rule_try_new i revision conditions exceptions defeaters temporal_scope =
     (if conditions = [] then Inl EmptyConditions
      else Inr \<lparr>nr_id = i, nr_revision = revision, nr_conditions = conditions, nr_exceptions = exceptions,
                nr_defeaters = defeaters, nr_temporal_scope = temporal_scope\<rparr>)"

section \<open>Requests, decisions and traces\<close>

datatype abstention_kind =
  MissingCtv | MissingNormativeState | UnresolvedTransitional | MissingProvenance | MissingOrAmbiguousFacts
| UnknownProfileOrPredicateRevision | UnsupportedPredicateKind | ProtocolUnimplemented

fun abstention_as_str :: "abstention_kind \<Rightarrow> string" where
  "abstention_as_str MissingCtv = ''missing_ctv''"
| "abstention_as_str MissingNormativeState = ''missing_normative_state''"
| "abstention_as_str UnresolvedTransitional = ''unresolved_transitional''"
| "abstention_as_str MissingProvenance = ''missing_provenance''"
| "abstention_as_str MissingOrAmbiguousFacts = ''missing_or_ambiguous_facts''"
| "abstention_as_str UnknownProfileOrPredicateRevision = ''unknown_profile_or_predicate_revision''"
| "abstention_as_str UnsupportedPredicateKind = ''unsupported_predicate_kind''"
| "abstention_as_str ProtocolUnimplemented = ''protocol_unimplemented''"

datatype applicability_decision = Applicable | NotApplicable | AD_Abstain abstention_kind

record prerequisite_snapshot =
  pr_ctv_present :: bool
  pr_normative_state_present :: bool
  pr_transitional_resolved :: bool
  pr_provenance_present :: bool

definition prerequisites_empty :: prerequisite_snapshot where
  "prerequisites_empty = \<lparr>pr_ctv_present = False, pr_normative_state_present = False,
     pr_transitional_resolved = False, pr_provenance_present = False\<rparr>"

record applicability_request =
  aq_rule_id :: string
  aq_predicate_registry_revision :: string
  aq_case_facts_revision :: string
  aq_profile_input_revision :: string
  aq_prerequisites :: prerequisite_snapshot

record predicate_step =
  ps_predicate_id :: string
  ps_outcome :: string

record explainable_trace =
  xt_protocol_version :: string
  xt_rule_id :: string
  xt_predicate_registry_revision :: string
  xt_case_facts_revision :: string
  xt_profile_input_revision :: string
  xt_prerequisites :: prerequisite_snapshot
  xt_predicate_steps :: "predicate_step list"
  xt_decision :: applicability_decision
  xt_non_claims :: "string list"

record applicability_result =
  ax_decision :: applicability_decision
  ax_trace :: explainable_trace

definition first_prerequisite_abstention :: "prerequisite_snapshot \<Rightarrow> abstention_kind option" where
  "first_prerequisite_abstention p =
     (if \<not> pr_ctv_present p then Some MissingCtv
      else if \<not> pr_normative_state_present p then Some MissingNormativeState
      else if \<not> pr_transitional_resolved p then Some UnresolvedTransitional
      else if \<not> pr_provenance_present p then Some MissingProvenance
      else None)"

definition default_non_claims :: "string list" where
  "default_non_claims =
     [''Non-authoritative applicability protocol evaluation'',
      ''Abstention is not Applicable and not NotApplicable'',
      ''Does not prove legal correctness or product readiness'',
      ''CaseFactSet is synthetic structural input, not legal fact authority'',
      ''NormRule IR and predicate algebra are not product applicability decisions'',
      ''Lifecycle [proposed]; positive applicability claims remain deferred'']"

section \<open>The algebra of predicates\<close>

datatype predicate_outcome = Satisfied | Unsatisfied | PO_Abstain abstention_kind

fun predicate_as_str :: "predicate_outcome \<Rightarrow> string" where
  "predicate_as_str Satisfied = ''satisfied''"
| "predicate_as_str Unsatisfied = ''unsatisfied''"
| "predicate_as_str (PO_Abstain k) = ''abstain''"

type_synonym case_fact_set = "(string \<times> bool) list"

fun facts_from_pairs :: "(string \<times> bool) list \<Rightarrow> case_fact_set \<Rightarrow> id_error + case_fact_set" where
  "facts_from_pairs [] facts = Inr facts"
| "facts_from_pairs ((i, v) # pairs) facts =
     (case parse_id ''case fact id'' i APPLICABILITY_ID_LEN of
        Inl e \<Rightarrow> Inl e
      | Inr i \<Rightarrow> facts_from_pairs pairs (facts @ [(i, v)]))"

definition try_from_pairs :: "(string \<times> bool) list \<Rightarrow> id_error + case_fact_set" where
  "try_from_pairs pairs = facts_from_pairs pairs []"

definition fact_get :: "case_fact_set \<Rightarrow> string \<Rightarrow> bool option" where
  "fact_get facts i = map_option snd (find (\<lambda>(key, _). key = i) facts)"

record composed_predicate_result =
  cp_outcome :: predicate_outcome
  cp_steps :: "predicate_step list"

definition lookup_bool :: "case_fact_set \<Rightarrow> string \<Rightarrow> abstention_kind + bool" where
  "lookup_bool facts i = (case fact_get facts i of Some v \<Rightarrow> Inr v | None \<Rightarrow> Inl MissingOrAmbiguousFacts)"

definition evaluate_condition :: "norm_rule_condition \<Rightarrow> case_fact_set \<Rightarrow> predicate_outcome" where
  "evaluate_condition c facts =
     (if rc_kind c = ''fact_required'' then
        (case lookup_bool facts (rc_id c) of
           Inr v \<Rightarrow> if v then Satisfied else Unsatisfied | Inl kind \<Rightarrow> PO_Abstain kind)
      else if rc_kind c = ''fact_forbidden'' then
        (case lookup_bool facts (rc_id c) of
           Inr v \<Rightarrow> if v then Unsatisfied else Satisfied | Inl kind \<Rightarrow> PO_Abstain kind)
      else if rc_kind c = ''status_required'' then
        (case lookup_bool facts (rc_id c) of
           Inr v \<Rightarrow> if v then Satisfied else Unsatisfied | Inl kind \<Rightarrow> PO_Abstain kind)
      else PO_Abstain UnsupportedPredicateKind)"

definition evaluate_exception :: "rule_exception \<Rightarrow> case_fact_set \<Rightarrow> predicate_outcome" where
  "evaluate_exception x facts =
     (case fact_get facts (re_id x) of Some v \<Rightarrow> if v then Satisfied else Unsatisfied | None \<Rightarrow> Unsatisfied)"

definition evaluate_defeater :: "rule_defeater \<Rightarrow> case_fact_set \<Rightarrow> predicate_outcome" where
  "evaluate_defeater x facts =
     (case fact_get facts (rd_id x) of Some v \<Rightarrow> if v then Satisfied else Unsatisfied | None \<Rightarrow> Unsatisfied)"

fun condition_loop ::
    "case_fact_set \<Rightarrow> norm_rule_condition list \<Rightarrow> predicate_step list \<Rightarrow> predicate_outcome \<Rightarrow>
     composed_predicate_result + predicate_step list \<times> predicate_outcome" where
  "condition_loop facts [] steps condition_outcome = Inr (steps, condition_outcome)"
| "condition_loop facts (c # cs) steps condition_outcome =
     (let outcome = evaluate_condition c facts;
          steps = steps @ [\<lparr>ps_predicate_id = rc_id c, ps_outcome = ''algebra:'' @ predicate_as_str outcome\<rparr>]
      in case outcome of
           PO_Abstain kind \<Rightarrow> Inl \<lparr>cp_outcome = PO_Abstain kind, cp_steps = steps\<rparr>
         | Unsatisfied \<Rightarrow> condition_loop facts cs steps Unsatisfied
         | Satisfied \<Rightarrow> condition_loop facts cs steps condition_outcome)"

text \<open>Both loops over the exceptions; \<open>carved\<close> is only read after the first one.\<close>

fun exception_loop ::
    "case_fact_set \<Rightarrow> rule_exception list \<Rightarrow> predicate_step list \<Rightarrow> bool \<Rightarrow>
     composed_predicate_result + predicate_step list \<times> bool" where
  "exception_loop facts [] steps carved = Inr (steps, carved)"
| "exception_loop facts (x # xs) steps carved =
     (let outcome = evaluate_exception x facts;
          steps = steps @ [\<lparr>ps_predicate_id = re_id x, ps_outcome = ''algebra:exception:'' @ predicate_as_str outcome\<rparr>]
      in case outcome of
           PO_Abstain kind \<Rightarrow> Inl \<lparr>cp_outcome = PO_Abstain kind, cp_steps = steps\<rparr>
         | Satisfied \<Rightarrow> exception_loop facts xs steps True
         | Unsatisfied \<Rightarrow> exception_loop facts xs steps carved)"

fun defeater_loop ::
    "case_fact_set \<Rightarrow> rule_defeater list \<Rightarrow> predicate_step list \<Rightarrow>
     composed_predicate_result + predicate_step list" where
  "defeater_loop facts [] steps = Inr steps"
| "defeater_loop facts (x # xs) steps =
     (let outcome = evaluate_defeater x facts;
          steps = steps @ [\<lparr>ps_predicate_id = rd_id x, ps_outcome = ''algebra:defeater:'' @ predicate_as_str outcome\<rparr>]
      in case outcome of
           PO_Abstain kind \<Rightarrow> Inl \<lparr>cp_outcome = PO_Abstain kind, cp_steps = steps\<rparr>
         | Satisfied \<Rightarrow> Inl \<lparr>cp_outcome = Unsatisfied, cp_steps = steps\<rparr>
         | Unsatisfied \<Rightarrow> defeater_loop facts xs steps)"

definition compose_norm_rule_predicates :: "norm_rule \<Rightarrow> case_fact_set \<Rightarrow> composed_predicate_result" where
  "compose_norm_rule_predicates rule facts =
     (case condition_loop facts (nr_conditions rule) [] Satisfied of
        Inl r \<Rightarrow> r
      | Inr (steps, condition_outcome) \<Rightarrow>
          (case exception_loop facts (nr_exceptions rule) steps False of
             Inl r \<Rightarrow> r
           | Inr (steps, carved) \<Rightarrow>
               let condition_outcome =
                 (if condition_outcome = Unsatisfied \<and> carved then Satisfied else condition_outcome)
               in case defeater_loop facts (nr_defeaters rule) steps of
                    Inl r \<Rightarrow> r
                  | Inr steps \<Rightarrow> \<lparr>cp_outcome = condition_outcome, cp_steps = steps\<rparr>))"

section \<open>The evaluator\<close>

definition applicability_finish ::
    "applicability_request \<Rightarrow> applicability_decision \<Rightarrow> predicate_step list \<Rightarrow> applicability_result" where
  "applicability_finish request decision steps =
     \<lparr>ax_decision = decision,
      ax_trace = \<lparr>xt_protocol_version = PROTOCOL_VERSION, xt_rule_id = aq_rule_id request,
        xt_predicate_registry_revision = aq_predicate_registry_revision request,
        xt_case_facts_revision = aq_case_facts_revision request,
        xt_profile_input_revision = aq_profile_input_revision request,
        xt_prerequisites = aq_prerequisites request, xt_predicate_steps = steps, xt_decision = decision,
        xt_non_claims = default_non_claims\<rparr>\<rparr>"

definition rule_step :: "norm_rule \<Rightarrow> predicate_step" where
  "rule_step rule =
     \<lparr>ps_predicate_id = ''norm_rule_ir:'' @ nr_revision rule,
      ps_outcome = ''ir_present_conditions='' @ show_nat (length (nr_conditions rule)) @
        '';exceptions='' @ show_nat (length (nr_exceptions rule)) @
        '';defeaters='' @ show_nat (length (nr_defeaters rule))\<rparr>"

definition composed_step :: "predicate_outcome \<Rightarrow> predicate_step" where
  "composed_step outcome =
     \<lparr>ps_predicate_id = ''algebra:composed'',
      ps_outcome = (case outcome of
          Satisfied \<Rightarrow> ''algebra:satisfied''
        | Unsatisfied \<Rightarrow> ''algebra:unsatisfied''
        | PO_Abstain kind \<Rightarrow> ''algebra:abstain:'' @ abstention_as_str kind)\<rparr>"

definition evaluate_inner ::
    "applicability_request \<Rightarrow> norm_rule option \<Rightarrow> case_fact_set option \<Rightarrow> applicability_result" where
  "evaluate_inner request rule facts =
     (case first_prerequisite_abstention (aq_prerequisites request) of
        Some kind \<Rightarrow> applicability_finish request (AD_Abstain kind) []
      | None \<Rightarrow>
          applicability_finish request (AD_Abstain ProtocolUnimplemented)
            (case rule of
               None \<Rightarrow> []
             | Some rule \<Rightarrow>
                 (case facts of
                    Some facts \<Rightarrow>
                      let composed = compose_norm_rule_predicates rule facts
                      in rule_step rule # cp_steps composed @ [composed_step (cp_outcome composed)]
                  | None \<Rightarrow>
                      [rule_step rule,
                       \<lparr>ps_predicate_id = ''algebra:skipped'', ps_outcome = ''no_case_facts_supplied''\<rparr>])))"

definition evaluate :: "applicability_request \<Rightarrow> applicability_result" where
  "evaluate request = evaluate_inner request None None"

definition evaluate_with_norm_rule :: "applicability_request \<Rightarrow> norm_rule \<Rightarrow> applicability_result" where
  "evaluate_with_norm_rule request rule = evaluate_inner request (Some rule) None"

definition evaluate_with_norm_rule_and_facts ::
    "applicability_request \<Rightarrow> norm_rule \<Rightarrow> case_fact_set \<Rightarrow> applicability_result" where
  "evaluate_with_norm_rule_and_facts request rule facts = evaluate_inner request (Some rule) (Some facts)"

section \<open>The capability inventory\<close>

datatype applicability_capability =
  AbstentionKernel | NormRuleIr | PredicateAlgebraSpine | PositiveApplicabilityDecision
| ProductCaseFactsPipeline | ProfileSpecialPredicates | RealCaseEvidenceAcceptance

fun applicability_capability_as_str :: "applicability_capability \<Rightarrow> string" where
  "applicability_capability_as_str AbstentionKernel = ''abstention_kernel''"
| "applicability_capability_as_str NormRuleIr = ''norm_rule_ir''"
| "applicability_capability_as_str PredicateAlgebraSpine = ''predicate_algebra_spine''"
| "applicability_capability_as_str PositiveApplicabilityDecision = ''positive_applicability_decision''"
| "applicability_capability_as_str ProductCaseFactsPipeline = ''product_case_facts_pipeline''"
| "applicability_capability_as_str ProfileSpecialPredicates = ''profile_special_predicates''"
| "applicability_capability_as_str RealCaseEvidenceAcceptance = ''real_case_evidence_acceptance''"

definition applicability_capability_all :: "applicability_capability list" where
  "applicability_capability_all =
     [AbstentionKernel, NormRuleIr, PredicateAlgebraSpine, PositiveApplicabilityDecision,
      ProductCaseFactsPipeline, ProfileSpecialPredicates, RealCaseEvidenceAcceptance]"

datatype applicability_capability_class = LandedSpine | DeferredProduct

fun applicability_class_as_str :: "applicability_capability_class \<Rightarrow> string" where
  "applicability_class_as_str LandedSpine = ''landed_spine''"
| "applicability_class_as_str DeferredProduct = ''deferred_product''"

record applicability_boundary =
  ab_capability :: applicability_capability
  ab_class :: applicability_capability_class
  ab_non_claims :: "string list"

definition F05_NON_CLAIMS :: "string list" where
  "F05_NON_CLAIMS =
     [''Landed applicability spines are not product Applicable/NotApplicable decisions'',
      ''NormRule IR and predicate algebra do not prove legal correctness'',
      ''Ownership under ADR-0023 is not complete runtime product readiness'',
      ''Positive applicability remains deferred while lifecycle is [proposed]'',
      ''Synthetic CaseFactSet is not product CaseFacts authority'',
      ''TSG-006 remains open for real-case evidence and human acceptance'']"

definition classify_applicability_capability :: "applicability_capability \<Rightarrow> applicability_boundary" where
  "classify_applicability_capability capability =
     \<lparr>ab_capability = capability,
      ab_class =
        (case capability of
           AbstentionKernel \<Rightarrow> LandedSpine
         | NormRuleIr \<Rightarrow> LandedSpine
         | PredicateAlgebraSpine \<Rightarrow> LandedSpine
         | _ \<Rightarrow> DeferredProduct),
      ab_non_claims = F05_NON_CLAIMS\<rparr>"

definition reject_algebra_satisfied_as_applicable :: applicability_boundary where
  "reject_algebra_satisfied_as_applicable =
     (classify_applicability_capability PositiveApplicabilityDecision)
       \<lparr>ab_non_claims := F05_NON_CLAIMS @
         [''PredicateOutcome::Satisfied does not mint ApplicabilityDecision::Applicable'',
          ''Hostile substitution of algebra success for product Applicable is rejected'']\<rparr>"

definition reject_norm_rule_ir_as_product_runtime :: applicability_boundary where
  "reject_norm_rule_ir_as_product_runtime =
     (classify_applicability_capability NormRuleIr)
       \<lparr>ab_non_claims := F05_NON_CLAIMS @
         [''NormRule IR presence is not product applicability runtime completeness'',
          ''Hostile substitution of IR inventory for TSG-006 closure is rejected'']\<rparr>"

section \<open>The meaning of the algebra\<close>

definition condition_holds :: "case_fact_set \<Rightarrow> norm_rule_condition \<Rightarrow> bool" where
  "condition_holds facts c = (fact_get facts (rc_id c) = Some (rc_kind c \<noteq> ''fact_forbidden''))"

definition algebra_meaning :: "norm_rule \<Rightarrow> case_fact_set \<Rightarrow> predicate_outcome" where
  "algebra_meaning rule facts =
     (if \<exists>c \<in> set (nr_conditions rule). fact_get facts (rc_id c) = None then PO_Abstain MissingOrAmbiguousFacts
      else if \<exists>d \<in> set (nr_defeaters rule). fact_get facts (rd_id d) = Some True then Unsatisfied
      else if (\<forall>c \<in> set (nr_conditions rule). condition_holds facts c) \<or>
              (\<exists>x \<in> set (nr_exceptions rule). fact_get facts (re_id x) = Some True) then Satisfied
      else Unsatisfied)"

definition rule_closed :: "norm_rule \<Rightarrow> bool" where
  "rule_closed rule = (\<forall>c \<in> set (nr_conditions rule). \<exists>i k. condition_try_new i k = Inr c)"

lemma fact_get_map_of: "fact_get facts i = map_of facts i"
  by (induction facts) (auto simp: fact_get_def)

lemma closed_kind: "condition_try_new i k = Inr c \<Longrightarrow> rc_kind c \<in> set CLOSED_CONDITION_KINDS"
  by (auto simp: condition_try_new_def split: sum.splits if_splits)

lemma evaluate_condition_eq:
  assumes "rc_kind c \<in> set CLOSED_CONDITION_KINDS"
  shows "evaluate_condition c facts =
    (if fact_get facts (rc_id c) = None then PO_Abstain MissingOrAmbiguousFacts
     else if condition_holds facts c then Satisfied else Unsatisfied)"
  using assms
  by (cases "fact_get facts (rc_id c)")
    (auto simp: evaluate_condition_def lookup_bool_def condition_holds_def CLOSED_CONDITION_KINDS_def)

lemma evaluate_exception_eq:
  "evaluate_exception x facts = (if fact_get facts (re_id x) = Some True then Satisfied else Unsatisfied)"
  by (simp add: evaluate_exception_def split: option.split)

lemma evaluate_defeater_eq:
  "evaluate_defeater x facts = (if fact_get facts (rd_id x) = Some True then Satisfied else Unsatisfied)"
  by (simp add: evaluate_defeater_def split: option.split)

lemma condition_loop_spec:
  "\<forall>c \<in> set cs. rc_kind c \<in> set CLOSED_CONDITION_KINDS \<Longrightarrow>
   (case condition_loop facts cs steps acc of
      Inl r \<Rightarrow> (\<exists>c \<in> set cs. fact_get facts (rc_id c) = None) \<and> cp_outcome r = PO_Abstain MissingOrAmbiguousFacts \<and>
        (\<exists>n. map ps_predicate_id (cp_steps r) = map ps_predicate_id steps @ map rc_id (take n cs))
    | Inr (steps', acc') \<Rightarrow> (\<forall>c \<in> set cs. fact_get facts (rc_id c) \<noteq> None) \<and>
        acc' = (if \<forall>c \<in> set cs. condition_holds facts c then acc else Unsatisfied) \<and>
        map ps_predicate_id steps' = map ps_predicate_id steps @ map rc_id cs)"
proof (induction cs arbitrary: steps acc)
  case (Cons c cs)
  show ?case
  proof (cases "fact_get facts (rc_id c) = None")
    case True
    then have "\<exists>n. map ps_predicate_id (steps @ [\<lparr>ps_predicate_id = rc_id c, ps_outcome = o'\<rparr>]) =
      map ps_predicate_id steps @ map rc_id (take n (c # cs))" for o'
      by (intro exI [of _ 1]) simp
    with True Cons.prems show ?thesis by (simp add: evaluate_condition_eq)
  next
    case False
    have n: "\<exists>n. map rc_id (take m cs) = [] @ map rc_id (take n cs)" for m by (rule exI [of _ m]) simp
    have take: "rc_id c # map rc_id (take m cs) = map rc_id (take (Suc m) (c # cs))" for m by simp
    from False Cons.prems
      Cons.IH [of "steps @ [\<lparr>ps_predicate_id = rc_id c, ps_outcome = ''algebra:'' @ predicate_as_str Satisfied\<rparr>]" acc]
      Cons.IH [of "steps @ [\<lparr>ps_predicate_id = rc_id c, ps_outcome = ''algebra:'' @ predicate_as_str Unsatisfied\<rparr>]" Unsatisfied]
    show ?thesis
      by (cases "condition_holds facts c")
        (auto simp: evaluate_condition_eq take simp del: take_Suc_Cons split: sum.splits prod.splits)
  qed
qed simp

lemma exception_loop_spec:
  "\<exists>steps'. exception_loop facts xs steps carved =
      Inr (steps', carved \<or> (\<exists>x \<in> set xs. fact_get facts (re_id x) = Some True)) \<and>
     map ps_predicate_id steps' = map ps_predicate_id steps @ map re_id xs"
proof (induction xs arbitrary: steps carved)
  case (Cons x xs)
  from Cons.IH [of "steps @ [\<lparr>ps_predicate_id = re_id x, ps_outcome = ''algebra:exception:'' @ predicate_as_str Satisfied\<rparr>]" True]
    Cons.IH [of "steps @ [\<lparr>ps_predicate_id = re_id x, ps_outcome = ''algebra:exception:'' @ predicate_as_str Unsatisfied\<rparr>]" carved]
  show ?case by (auto simp: evaluate_exception_eq)
qed simp

lemma defeater_loop_spec:
  "case defeater_loop facts xs steps of
      Inl r \<Rightarrow> (\<exists>x \<in> set xs. fact_get facts (rd_id x) = Some True) \<and> cp_outcome r = Unsatisfied \<and>
        (\<exists>n. map ps_predicate_id (cp_steps r) = map ps_predicate_id steps @ map rd_id (take n xs))
    | Inr steps' \<Rightarrow> \<not> (\<exists>x \<in> set xs. fact_get facts (rd_id x) = Some True) \<and>
        map ps_predicate_id steps' = map ps_predicate_id steps @ map rd_id xs"
proof (induction xs arbitrary: steps)
  case (Cons x xs)
  show ?case
  proof (cases "fact_get facts (rd_id x) = Some True")
    case True
    then have "\<exists>n. map ps_predicate_id (steps @ [\<lparr>ps_predicate_id = rd_id x, ps_outcome = o'\<rparr>]) =
      map ps_predicate_id steps @ map rd_id (take n (x # xs))" for o'
      by (intro exI [of _ 1]) simp
    with True show ?thesis by (simp add: evaluate_defeater_eq)
  next
    case False
    have take: "rd_id x # map rd_id (take m xs) = map rd_id (take (Suc m) (x # xs))" for m by simp
    from False Cons.IH [of "steps @ [\<lparr>ps_predicate_id = rd_id x, ps_outcome = ''algebra:defeater:'' @ predicate_as_str Unsatisfied\<rparr>]"]
    show ?thesis by (auto simp: evaluate_defeater_eq take simp del: take_Suc_Cons split: sum.splits)
  qed
qed simp

section \<open>The order of days\<close>

lemma lex_append:
  "length a = length b \<Longrightarrow> (a @ s \<le> b @ t) \<longleftrightarrow> a < b \<or> (a = b \<and> s \<le> (t :: 'a :: order list))"
proof (induction a b rule: list_induct2)
  case (Cons x xs y ys)
  then show ?case by (auto simp: less_le_not_le)
qed simp

lemma digits_less:
  "length s = length t \<Longrightarrow> list_all is_ascii_digit s \<Longrightarrow> list_all is_ascii_digit t \<Longrightarrow>
     (a < b \<longrightarrow> nat_of_digits a s < nat_of_digits b t) \<and> (s < t \<longrightarrow> nat_of_digits a s < nat_of_digits a t)"
proof (induction s t arbitrary: a b rule: list_induct2)
  case (Cons x xs y ys)
  obtain d e where d: "d < 10" "x = digit_char d" and e: "e < 10" "y = digit_char e"
    using Cons.prems by (auto simp: is_ascii_digit_iff)
  then have v: "of_char x - 48 = d" "of_char y - 48 = e" by (simp_all add: of_char_digit)
  have xy: "x < y \<longleftrightarrow> d < e" using d e by (simp add: less_char_def of_char_digit)
  have ih: "a < b \<Longrightarrow> nat_of_digits a xs < nat_of_digits b ys" "xs < ys \<Longrightarrow> nat_of_digits a xs < nat_of_digits a ys" for a b
    using Cons.IH [of a b] Cons.prems by auto
  show ?case
    using ih(1) [of "10 * a + d" "10 * b + e"] ih(1) [of "10 * a + d" "10 * a + e"] ih(2) [of "10 * a + d"] d(1) e(1) xy v
    by auto
qed simp

lemma digits_le_iff:
  assumes "length s = length t" "list_all is_ascii_digit s" "list_all is_ascii_digit t"
  shows "s < t \<longleftrightarrow> digits_value s < digits_value t" "s = t \<longleftrightarrow> digits_value s = digits_value t"
    "s \<le> t \<longleftrightarrow> digits_value s \<le> digits_value t"
  using digits_less [OF assms, where a = 0 and b = 0]
    digits_less [OF assms(1) [symmetric] assms(3,2), where a = 0 and b = 0]
  by (auto simp: digits_value_def not_le [symmetric] elim: linorder_cases [of s t])

definition day_key :: "string \<Rightarrow> int \<times> int \<times> int" where
  "day_key v = (digits_value (take 4 v), digits_value (take 2 (drop 5 v)), digits_value (take 2 (drop 8 v)))"

fun day_le :: "int \<times> int \<times> int \<Rightarrow> int \<times> int \<times> int \<Rightarrow> bool" where
  "day_le (y, m, d) (y', m', d') = (y < y' \<or> (y = y' \<and> (m < m' \<or> (m = m' \<and> d \<le> d'))))"

lemma day_split:
  assumes "is_yyyy_mm_dd v"
  shows "v = take 4 v @ CHR ''-'' # take 2 (drop 5 v) @ CHR ''-'' # take 2 (drop 8 v)"
proof -
  have len: "length v = 10" "v ! 4 = CHR ''-''" "v ! 7 = CHR ''-''" using assms by (simp_all add: is_yyyy_mm_dd_def)
  have "v = take 4 v @ v ! 4 # take 2 (drop 5 v) @ v ! 7 # drop 8 v"
    using len by (auto simp: eval_nat_numeral length_Suc_conv)
  moreover have "drop 8 v = take 2 (drop 8 v)" using len(1) by simp
  ultimately show ?thesis using len(2,3) by metis
qed

lemma day_order:
  assumes "is_yyyy_mm_dd v" "is_yyyy_mm_dd w"
  shows "v \<le> w \<longleftrightarrow> day_le (day_key v) (day_key w)"
proof -
  have l: "length (take 4 v) = length (take 4 w)" "length (take 2 (drop 5 v)) = length (take 2 (drop 5 w))"
    "length (take 2 (drop 8 v)) = length (take 2 (drop 8 w))"
    using assms by (simp_all add: is_yyyy_mm_dd_def)
  have d: "list_all is_ascii_digit (take 4 v)" "list_all is_ascii_digit (take 4 w)"
    "list_all is_ascii_digit (take 2 (drop 5 v))" "list_all is_ascii_digit (take 2 (drop 5 w))"
    "list_all is_ascii_digit (take 2 (drop 8 v))" "list_all is_ascii_digit (take 2 (drop 8 w))"
    using assms unfolding is_yyyy_mm_dd_def by blast+
  have "v \<le> w \<longleftrightarrow> take 4 v < take 4 w \<or> (take 4 v = take 4 w \<and> (take 2 (drop 5 v) < take 2 (drop 5 w) \<or>
      (take 2 (drop 5 v) = take 2 (drop 5 w) \<and> take 2 (drop 8 v) \<le> take 2 (drop 8 w))))"
    by (subst day_split [OF assms(1)], subst day_split [OF assms(2)])
      (simp only: lex_append [OF l(1)] lex_append [OF l(2)] Cons_le_Cons less_irrefl simp_thms)
  then show ?thesis
    by (simp add: day_key_def digits_le_iff [OF l(1) d(1,2)] digits_le_iff [OF l(2) d(3,4)] digits_le_iff [OF l(3) d(5,6)])
qed

section \<open>Properties\<close>

text \<open>C13. The algebra means what its rule says: for a rule with conditions of the closed kinds and any facts, the
composed outcome is an abstention for missing facts as soon as one condition has no fact, whatever the others; otherwise
\<open>unsatisfied\<close> when a defeater's fact is true; otherwise \<open>satisfied\<close> when every condition holds or some
exception's fact is true, and \<open>unsatisfied\<close> in the remaining case.\<close>

theorem algebra_outcome:
  assumes "rule_closed rule"
  shows "cp_outcome (compose_norm_rule_predicates rule facts) = algebra_meaning rule facts"
proof -
  have closed: "\<forall>c \<in> set (nr_conditions rule). rc_kind c \<in> set CLOSED_CONDITION_KINDS"
    using assms closed_kind by (auto simp: rule_closed_def)
  note cond = condition_loop_spec [OF closed, where facts = facts and steps = "[]" and acc = Satisfied]
  show ?thesis
  proof (cases "condition_loop facts (nr_conditions rule) [] Satisfied")
    case (Inl r)
    with cond show ?thesis by (simp add: compose_norm_rule_predicates_def algebra_meaning_def)
  next
    case (Inr p)
    obtain steps out where p: "p = (steps, out)" by fastforce
    obtain steps2 where ex: "exception_loop facts (nr_exceptions rule) steps False =
        Inr (steps2, \<exists>x \<in> set (nr_exceptions rule). fact_get facts (re_id x) = Some True)"
      using exception_loop_spec [of facts "nr_exceptions rule" steps False] by auto
    show ?thesis
      using cond Inr p ex defeater_loop_spec [where facts = facts and xs = "nr_defeaters rule" and steps = steps2]
      by (auto simp: compose_norm_rule_predicates_def algebra_meaning_def Let_def split: sum.splits)
  qed
qed

text \<open>The trace of the algebra: its steps name, in the order of the rule, a prefix of the conditions, then the
exceptions, then the defeaters; the whole of them when every condition has a fact and no defeater fires.\<close>

theorem algebra_trace:
  assumes "rule_closed rule"
  shows "\<exists>n. map ps_predicate_id (cp_steps (compose_norm_rule_predicates rule facts)) =
      take n (map rc_id (nr_conditions rule) @ map re_id (nr_exceptions rule) @ map rd_id (nr_defeaters rule)) \<and>
    ((\<forall>c \<in> set (nr_conditions rule). fact_get facts (rc_id c) \<noteq> None) \<and>
     \<not> (\<exists>d \<in> set (nr_defeaters rule). fact_get facts (rd_id d) = Some True) \<longrightarrow>
       map ps_predicate_id (cp_steps (compose_norm_rule_predicates rule facts)) =
       map rc_id (nr_conditions rule) @ map re_id (nr_exceptions rule) @ map rd_id (nr_defeaters rule))"
proof -
  let ?c = "map rc_id (nr_conditions rule)" and ?e = "map re_id (nr_exceptions rule)" and ?d = "map rd_id (nr_defeaters rule)"
  have closed: "\<forall>c \<in> set (nr_conditions rule). rc_kind c \<in> set CLOSED_CONDITION_KINDS"
    using assms closed_kind by (auto simp: rule_closed_def)
  note cond = condition_loop_spec [OF closed, where facts = facts and steps = "[]" and acc = Satisfied]
  show ?thesis
  proof (cases "condition_loop facts (nr_conditions rule) [] Satisfied")
    case (Inl r)
    with cond obtain n where n: "map ps_predicate_id (cp_steps r) = map rc_id (take n (nr_conditions rule))" by auto
    have "map rc_id (take n (nr_conditions rule)) = take (min n (length ?c)) (?c @ ?e @ ?d)"
      by (cases "n \<le> length ?c") (simp_all add: take_map)
    moreover have "compose_norm_rule_predicates rule facts = r"
      "\<exists>c \<in> set (nr_conditions rule). fact_get facts (rc_id c) = None"
      using Inl cond by (auto simp: compose_norm_rule_predicates_def)
    ultimately show ?thesis using n by metis
  next
    case (Inr p)
    obtain steps out where p: "p = (steps, out)" by fastforce
    obtain steps2 where ex: "exception_loop facts (nr_exceptions rule) steps False =
        Inr (steps2, \<exists>x \<in> set (nr_exceptions rule). fact_get facts (re_id x) = Some True)"
      "map ps_predicate_id steps2 = ?c @ ?e"
      using exception_loop_spec [of facts "nr_exceptions rule" steps False] cond Inr p by auto
    note def = defeater_loop_spec [where facts = facts and xs = "nr_defeaters rule" and steps = steps2]
    show ?thesis
    proof (cases "defeater_loop facts (nr_defeaters rule) steps2")
      case (Inl r)
      with def ex obtain n where n: "map ps_predicate_id (cp_steps r) = ?c @ ?e @ map rd_id (take n (nr_defeaters rule))"
        by auto
      have "?c @ ?e @ map rd_id (take n (nr_defeaters rule)) = take (length ?c + (length ?e + n)) (?c @ ?e @ ?d)"
        by (simp add: take_map)
      moreover have "compose_norm_rule_predicates rule facts = r"
        "\<exists>d \<in> set (nr_defeaters rule). fact_get facts (rd_id d) = Some True"
        using Inl Inr p ex def by (simp_all add: compose_norm_rule_predicates_def Let_def)
      ultimately show ?thesis using n by metis
    next
      case def': (Inr r)
      then have "map ps_predicate_id r = take (length (?c @ ?e @ ?d)) (?c @ ?e @ ?d)" using def ex by simp
      moreover have "cp_steps (compose_norm_rule_predicates rule facts) = r"
        using def' Inr p ex by (simp add: compose_norm_rule_predicates_def Let_def)
      ultimately show ?thesis by (metis take_all order_refl)
    qed
  qed
qed

text \<open>The evaluator only abstains: its decision, the one its trace records, is the first missing prerequisite, or
that the protocol is not implemented, and does not depend on the rule or the facts.\<close>

theorem applicability_never_positive:
  "ax_decision (evaluate_inner request rule facts) =
     AD_Abstain (case first_prerequisite_abstention (aq_prerequisites request) of
       Some kind \<Rightarrow> kind | None \<Rightarrow> ProtocolUnimplemented) \<and>
   xt_decision (ax_trace (evaluate_inner request rule facts)) = ax_decision (evaluate_inner request rule facts) \<and>
   (first_prerequisite_abstention (aq_prerequisites request) \<noteq> None \<longrightarrow>
     evaluate_inner request rule facts = evaluate request)"
  by (auto simp: evaluate_inner_def evaluate_def applicability_finish_def split: option.split)

text \<open>A temporal scope is built exactly from bounds of the form YYYY-MM-DD that are in chronological order: the
comparison of the texts is the comparison of their years, months and days as numbers.\<close>

theorem temporal_scope_chronological:
  "(\<exists>sc. scope_try_new f t = Inr sc) \<longleftrightarrow>
     (\<forall>v \<in> set_option f \<union> set_option t. is_yyyy_mm_dd v) \<and>
     (\<forall>v \<in> set_option f. \<forall>w \<in> set_option t. day_le (day_key v) (day_key w))"
  by (cases f; cases t) (auto simp: scope_try_new_def scope_bound_def day_order [symmetric] not_less)

text \<open>Contradictory facts do not make the algebra abstain: a fact set that gives an identifier first one value and
then the other is accepted, and a rule that requires the fact is decided by the first of them.\<close>

theorem contradictory_facts_decide:
  assumes "valid_id APPLICABILITY_ID_LEN i" "nr_conditions rule = [\<lparr>rc_id = i, rc_kind = ''fact_required''\<rparr>]"
    "nr_exceptions rule = []" "nr_defeaters rule = []"
  shows "\<exists>facts. try_from_pairs [(i, v), (i, \<not> v)] = Inr facts \<and>
    cp_outcome (compose_norm_rule_predicates rule facts) = (if v then Satisfied else Unsatisfied)"
  using assms
  by (simp add: try_from_pairs_def parse_id_valid compose_norm_rule_predicates_def evaluate_condition_def
    lookup_bool_def fact_get_def Let_def)

section \<open>Instances\<close>

definition sample_rule :: norm_rule where
  "sample_rule = \<lparr>nr_id = ''r'', nr_revision = ''v1'',
     nr_conditions = [\<lparr>rc_id = ''f'', rc_kind = ''fact_required''\<rparr>], nr_exceptions = [], nr_defeaters = [],
     nr_temporal_scope = scope_unbounded\<rparr>"

lemma sample_rule_closed: "rule_closed sample_rule"
proof -
  have "condition_try_new ''f'' ''fact_required'' = Inr \<lparr>rc_id = ''f'', rc_kind = ''fact_required''\<rparr>" by code_simp
  then show ?thesis by (auto simp: rule_closed_def sample_rule_def)
qed

theorem algebra_outcome_witness:
  "cp_outcome (compose_norm_rule_predicates sample_rule [(''f'', True)]) = Satisfied"
  unfolding algebra_outcome [OF sample_rule_closed]
  by (simp add: algebra_meaning_def sample_rule_def fact_get_def condition_holds_def)

theorem algebra_trace_witness:
  "map ps_predicate_id (cp_steps (compose_norm_rule_predicates sample_rule [(''f'', True)])) = [''f'']"
  using algebra_trace [OF sample_rule_closed, of "[(''f'', True)]"] by (auto simp: sample_rule_def fact_get_def)

theorem applicability_never_positive_witness:
  "ax_decision (evaluate \<lparr>aq_rule_id = ''r'', aq_predicate_registry_revision = ''p'', aq_case_facts_revision = ''c'',
     aq_profile_input_revision = ''i'', aq_prerequisites = prerequisites_empty\<rparr>) = AD_Abstain MissingCtv"
  using applicability_never_positive [of "\<lparr>aq_rule_id = ''r'', aq_predicate_registry_revision = ''p'',
     aq_case_facts_revision = ''c'', aq_profile_input_revision = ''i'', aq_prerequisites = prerequisites_empty\<rparr>" None None]
  by (simp add: first_prerequisite_abstention_def prerequisites_empty_def evaluate_def)

theorem temporal_scope_chronological_witness:
  "\<not> (\<exists>sc. scope_try_new (Some ''2014-01-01'') (Some ''2013-12-31'') = Inr sc)"
proof -
  have "\<not> day_le (day_key ''2014-01-01'') (day_key ''2013-12-31'')" by code_simp
  then show ?thesis by (simp add: temporal_scope_chronological)
qed

theorem contradictory_facts_decide_witness:
  "\<exists>facts. try_from_pairs [(''f'', True), (''f'', False)] = Inr facts \<and>
    cp_outcome (compose_norm_rule_predicates sample_rule facts) = Satisfied"
proof -
  have "valid_id APPLICABILITY_ID_LEN ''f''" by code_simp
  from contradictory_facts_decide [OF this, of sample_rule True] show ?thesis by (simp add: sample_rule_def)
qed

end
