(* ===== verification/LN_Intake.thy ===== *)
theory LN_Intake
  imports LN_Ids
begin

text \<open>
  The intake crates. \<open>crates/ln-observe\<close>: one observation of a source (\<open>ObserveSource::execute\<close>) over a
  source port, a work-state port and a diagnostic port. \<open>crates/ln-inventory\<close>: the append-only history of
  observation attempts (\<open>InventoryImmutableIntake::inventory\<close>). \<open>crates/ln-dispose\<close>: review dispositions and
  the promotion gate (\<open>DisposeReview\<close>). A panic is \<open>None\<close>.
\<close>

section \<open>Observation\<close>

definition GENERATED_ID_LEN :: nat where
  "GENERATED_ID_LEN = 80"

record observation_request =
  ob_request_id :: string
  ob_source_channel_id :: string

datatype transport_outcome =
  Unavailable | Timeout | TransportCancelled | TransportOrTlsFailure | AccessRestricted | Completed

fun diagnostic_category :: "transport_outcome \<Rightarrow> string" where
  "diagnostic_category Unavailable = ''unavailable''"
| "diagnostic_category Timeout = ''timeout''"
| "diagnostic_category TransportCancelled = ''cancelled''"
| "diagnostic_category TransportOrTlsFailure = ''transport-or-tls-failure''"
| "diagnostic_category AccessRestricted = ''access-restricted''"
| "diagnostic_category Completed = ''completed''"

definition retryable :: "transport_outcome \<Rightarrow> bool" where
  "retryable t = (t \<in> set [Unavailable, Timeout, TransportOrTlsFailure])"

record partial_summary =
  pm_byte_count :: nat
  pm_fingerprint :: string

definition partial_none :: partial_summary where
  "partial_none = \<lparr>pm_byte_count = 0, pm_fingerprint = []\<rparr>"

definition partial_from_bytes :: "string \<Rightarrow> partial_summary" where
  "partial_from_bytes bytes = \<lparr>pm_byte_count = length bytes, pm_fingerprint = digest_bytes bytes\<rparr>"

record transport_observation =
  to_outcome :: transport_outcome
  to_partial :: partial_summary

datatype work_phase = Started | ObservationFailed | ObservationCompleted

record work_transition =
  wn_request_id :: string
  wn_phase :: work_phase

record diagnostic_event =
  dg_diagnostic_id :: string
  dg_observation_id :: string
  dg_source_channel_id :: string
  dg_phase :: string
  dg_category :: string
  dg_retryable :: bool
  dg_partial_byte_count :: nat
  dg_partial_fingerprint :: string

datatype authority_absence = AuthorityAbsence

text \<open>The optional anchors of a result are of sealed types of which the code builds no value.\<close>

record observe_result =
  ox_observation_id :: string
  ox_transport_outcome :: transport_outcome
  ox_work_trace :: "work_transition list"
  ox_diagnostics :: "diagnostic_event list"
  ox_authority :: authority_absence
  ox_legal_clock_anchor :: "unit option"
  ox_promotion_id :: "unit option"
  ox_publication_id :: "unit option"

record ('s, 'w, 'd) observe_source =
  os_source :: 's
  os_work_state :: 'w
  os_diagnostics :: 'd

record ('s, 'w, 'd) observe_ops =
  oo_observe :: "observation_request \<Rightarrow> 's \<Rightarrow> 's \<times> transport_observation"
  oo_record_transition :: "work_transition \<Rightarrow> 'w \<Rightarrow> 'w"
  oo_emit :: "diagnostic_event \<Rightarrow> 'd \<Rightarrow> 'd"

definition observe_execute ::
    "('s, 'w, 'd) observe_ops \<Rightarrow> observation_request \<Rightarrow> ('s, 'w, 'd) observe_source \<Rightarrow>
     (('s, 'w, 'd) observe_source \<times> observe_result) option" where
  "observe_execute ops request st = do {
     observation_id \<leftarrow> expect (parse_id ''observation id'' (''observation:'' @ ob_request_id request) GENERATED_ID_LEN);
     diagnostic_id \<leftarrow> expect (parse_id ''diagnostic id'' (''diagnostic:'' @ ob_request_id request) GENERATED_ID_LEN);
     let started = \<lparr>wn_request_id = ob_request_id request, wn_phase = Started\<rparr>;
     let work = oo_record_transition ops started (os_work_state st);
     let (source, observation) = oo_observe ops request (os_source st);
     let outcome = (if to_outcome observation = Completed \<and> pm_byte_count (to_partial observation) > 0
       then TransportOrTlsFailure else to_outcome observation);
     let finished = \<lparr>wn_request_id = ob_request_id request,
       wn_phase = (if outcome = Completed then ObservationCompleted else ObservationFailed)\<rparr>;
     let work = oo_record_transition ops finished work;
     let event = \<lparr>dg_diagnostic_id = diagnostic_id, dg_observation_id = observation_id,
       dg_source_channel_id = ob_source_channel_id request, dg_phase = ''observe-source'',
       dg_category = diagnostic_category outcome, dg_retryable = retryable outcome,
       dg_partial_byte_count = pm_byte_count (to_partial observation),
       dg_partial_fingerprint = pm_fingerprint (to_partial observation)\<rparr>;
     Some (\<lparr>os_source = source, os_work_state = work, os_diagnostics = oo_emit ops event (os_diagnostics st)\<rparr>,
           \<lparr>ox_observation_id = observation_id, ox_transport_outcome = outcome, ox_work_trace = [started, finished],
            ox_diagnostics = [event], ox_authority = AuthorityAbsence, ox_legal_clock_anchor = None,
            ox_promotion_id = None, ox_publication_id = None\<rparr>) }"

text \<open>The adapters: an interrupted source, and the vectors of transitions and events.\<close>

definition interrupted :: "transport_outcome \<Rightarrow> string \<Rightarrow> transport_observation" where
  "interrupted outcome partial_bytes = \<lparr>to_outcome = outcome, to_partial = partial_from_bytes partial_bytes\<rparr>"

definition timeout_after :: "string \<Rightarrow> transport_observation" where
  "timeout_after bytes = interrupted Timeout bytes"

definition cancelled_after :: "string \<Rightarrow> transport_observation" where
  "cancelled_after bytes = interrupted TransportCancelled bytes"

definition transport_failure_after :: "string \<Rightarrow> transport_observation" where
  "transport_failure_after bytes = interrupted TransportOrTlsFailure bytes"

definition access_restricted_after :: "string \<Rightarrow> transport_observation" where
  "access_restricted_after bytes = interrupted AccessRestricted bytes"

definition interruptible_observe ::
    "observation_request \<Rightarrow> transport_observation \<Rightarrow> transport_observation \<times> transport_observation" where
  "interruptible_observe request observation = (observation, observation)"

definition memory_record_transition :: "work_transition \<Rightarrow> work_transition list \<Rightarrow> work_transition list" where
  "memory_record_transition t transitions = transitions @ [t]"

definition memory_emit :: "diagnostic_event \<Rightarrow> diagnostic_event list \<Rightarrow> diagnostic_event list" where
  "memory_emit e events = events @ [e]"

definition memory_observe_ops ::
    "(transport_observation, work_transition list, diagnostic_event list) observe_ops" where
  "memory_observe_ops = \<lparr>oo_observe = interruptible_observe, oo_record_transition = memory_record_transition,
     oo_emit = memory_emit\<rparr>"

section \<open>Inventory\<close>

record inventory_request =
  nq_request_id :: string
  nq_drop_reference :: string
  nq_input_digest :: string

definition inventory_request_new :: "string \<Rightarrow> string \<Rightarrow> string \<Rightarrow> inventory_request" where
  "inventory_request_new request_id drop_reference bytes =
     \<lparr>nq_request_id = request_id, nq_drop_reference = drop_reference, nq_input_digest = digest_bytes bytes\<rparr>"

datatype inventory_disposition =
  InventoryPending | ReviewRequired | IntegrityFailed | MetadataMismatch | AmbiguousIdentity

datatype inventory_visibility = InventoryReview

record observation_attempt =
  oa_attempt_id :: string
  oa_request_id :: string
  oa_drop_reference :: string
  oa_input_digest :: string

record inventory_result =
  nx_item_id :: string
  nx_input_digest :: string
  nx_disposition :: inventory_disposition
  nx_visibility :: inventory_visibility
  nx_observation_attempts :: "observation_attempt list"
  nx_curated_label :: "unit option"
  nx_current_label :: "unit option"
  nx_promotion_id :: "unit option"
  nx_publication_id :: "unit option"

text \<open>The store's answer is discarded, the visibility answer too: a store is its \<open>append_attempt\<close>.\<close>

record 's inventory_intake =
  nt_store :: 's
  nt_history :: "(string, observation_attempt list) hashmap"

definition inventory_new :: "'s \<Rightarrow> 's inventory_intake" where
  "inventory_new store = \<lparr>nt_store = store, nt_history = []\<rparr>"

definition item_name :: "string \<Rightarrow> string \<Rightarrow> string" where
  "item_name drop_reference digest = ''item:'' @ drop_reference @ CHR '':'' # digest"

definition resolve_item_id :: "inventory_request \<Rightarrow> string option" where
  "resolve_item_id request =
     expect (parse_id ''inventory item id'' (item_name (nq_drop_reference request) (nq_input_digest request)) GENERATED_ID_LEN)"

definition next_attempt_id :: "nat \<Rightarrow> string option" where
  "next_attempt_id existing_attempts = do {
     n \<leftarrow> u64_succ existing_attempts;
     expect (parse_id ''observation attempt id'' (''attempt:'' @ show_nat n) GENERATED_ID_LEN) }"

definition inventory ::
    "(string \<Rightarrow> observation_attempt \<Rightarrow> 's \<Rightarrow> 's) \<Rightarrow> inventory_request \<Rightarrow> 's inventory_intake \<Rightarrow>
     ('s inventory_intake \<times> inventory_result) option" where
  "inventory append_attempt request st = do {
     item_id \<leftarrow> resolve_item_id request;
     let existing = (case hm_get (nt_history st) item_id of Some attempts \<Rightarrow> attempts | None \<Rightarrow> []);
     attempt_id \<leftarrow> next_attempt_id (length existing);
     let attempt = \<lparr>oa_attempt_id = attempt_id, oa_request_id = nq_request_id request,
       oa_drop_reference = nq_drop_reference request, oa_input_digest = nq_input_digest request\<rparr>;
     let attempts = existing @ [attempt];
     Some (\<lparr>nt_store = append_attempt item_id attempt (nt_store st),
            nt_history = hm_insert item_id attempts (nt_history st)\<rparr>,
           \<lparr>nx_item_id = item_id, nx_input_digest = nq_input_digest request, nx_disposition = InventoryPending,
            nx_visibility = InventoryReview, nx_observation_attempts = attempts, nx_curated_label = None,
            nx_current_label = None, nx_promotion_id = None, nx_publication_id = None\<rparr>) }"

fun inventory_run ::
    "(string \<Rightarrow> observation_attempt \<Rightarrow> 's \<Rightarrow> 's) \<Rightarrow> inventory_request list \<Rightarrow> 's inventory_intake \<Rightarrow>
     's inventory_intake option" where
  "inventory_run append_attempt [] st = Some st"
| "inventory_run append_attempt (request # requests) st =
     do { (st', _) \<leftarrow> inventory append_attempt request st; inventory_run append_attempt requests st' }"

type_synonym inventory_store = "(string, observation_attempt list) hashmap"

definition attempts_for :: "inventory_store \<Rightarrow> string \<Rightarrow> observation_attempt list" where
  "attempts_for attempts item_id = (case hm_get attempts item_id of Some xs \<Rightarrow> xs | None \<Rightarrow> [])"

definition memory_append_attempt :: "string \<Rightarrow> observation_attempt \<Rightarrow> inventory_store \<Rightarrow> inventory_store" where
  "memory_append_attempt item_id attempt attempts =
     hm_insert item_id (attempts_for attempts item_id @ [attempt]) attempts"

section \<open>Disposition\<close>

datatype disposition_state = DispositionPending | Quarantined | DispositionAccepted | DispositionRejected

definition disposition_is_accepted :: "disposition_state \<Rightarrow> bool" where
  "disposition_is_accepted s = (s = DispositionAccepted)"

datatype disposition_reason = DR_Incomplete | DR_Conflict | DR_Unauthorized | DR_Accepted | DR_RejectedReasonCoded

datatype promotion_identity = PromotionIdentity

record disposition =
  ds_item_id :: string
  ds_state :: disposition_state
  ds_reason :: disposition_reason
  ds_evidence_ids :: "string list"
  ds_accepted_commit_id :: "string option"
  ds_promotion_identity :: "promotion_identity option"

datatype gate_promotion_outcome = PromotionRejected | PromotionCommitted

record gate_promotion_result =
  gp_outcome :: gate_promotion_outcome
  gp_reason :: disposition_reason
  gp_commit_id :: "string option"
  gp_promotion_identity :: "promotion_identity option"

record ('s, 'g) dispose_ops =
  dz_set_disposition :: "disposition \<Rightarrow> 's \<Rightarrow> 's"
  dz_get_disposition :: "'s \<Rightarrow> string \<Rightarrow> disposition option"
  dz_attempt_promotion :: "string \<Rightarrow> bool \<Rightarrow> 'g \<Rightarrow> ('g \<times> gate_promotion_result) option"

record ('s, 'g) dispose_review =
  dv_store :: 's
  dv_gate :: 'g

definition dispose_set ::
    "('s, 'g) dispose_ops \<Rightarrow> disposition \<Rightarrow> ('s, 'g) dispose_review \<Rightarrow> ('s, 'g) dispose_review" where
  "dispose_set ops d st = st\<lparr>dv_store := dz_set_disposition ops d (dv_store st)\<rparr>"

definition set_pending ::
    "('s, 'g) dispose_ops \<Rightarrow> string \<Rightarrow> string list \<Rightarrow> ('s, 'g) dispose_review \<Rightarrow>
     ('s, 'g) dispose_review \<times> disposition" where
  "set_pending ops item_id evidence_ids st =
     (let d = \<lparr>ds_item_id = item_id, ds_state = DispositionPending, ds_reason = DR_Incomplete,
            ds_evidence_ids = evidence_ids, ds_accepted_commit_id = None, ds_promotion_identity = None\<rparr>
      in (dispose_set ops d st, d))"

definition set_quarantined ::
    "('s, 'g) dispose_ops \<Rightarrow> string \<Rightarrow> string list \<Rightarrow> ('s, 'g) dispose_review \<Rightarrow>
     ('s, 'g) dispose_review \<times> disposition" where
  "set_quarantined ops item_id evidence_ids st =
     (let d = \<lparr>ds_item_id = item_id, ds_state = Quarantined, ds_reason = DR_Conflict,
            ds_evidence_ids = evidence_ids, ds_accepted_commit_id = None, ds_promotion_identity = None\<rparr>
      in (dispose_set ops d st, d))"

definition store_set_accepted ::
    "('s, 'g) dispose_ops \<Rightarrow> string \<Rightarrow> ('s, 'g) dispose_review \<Rightarrow> ('s, 'g) dispose_review" where
  "store_set_accepted ops item_id st =
     dispose_set ops \<lparr>ds_item_id = item_id, ds_state = DispositionAccepted, ds_reason = DR_Accepted,
       ds_evidence_ids = [], ds_accepted_commit_id = None, ds_promotion_identity = None\<rparr> st"

definition attempt_promotion ::
    "('s, 'g) dispose_ops \<Rightarrow> string \<Rightarrow> ('s, 'g) dispose_review \<Rightarrow>
     (('s, 'g) dispose_review \<times> gate_promotion_result) option" where
  "attempt_promotion ops item_id st = do {
     let d = dz_get_disposition ops (dv_store st) item_id;
     let accepted = (case d of Some d \<Rightarrow> disposition_is_accepted (ds_state d) | None \<Rightarrow> False);
     (gate, result) \<leftarrow> dz_attempt_promotion ops item_id accepted (dv_gate st);
     let st = st\<lparr>dv_gate := gate\<rparr>;
     Some (st, if gp_outcome result = PromotionRejected
       then \<lparr>gp_outcome = gp_outcome result,
             gp_reason = (case d of Some d \<Rightarrow> ds_reason d | None \<Rightarrow> DR_Incomplete),
             gp_commit_id = None, gp_promotion_identity = None\<rparr>
       else result) }"

definition disposition_of :: "('s, 'g) dispose_ops \<Rightarrow> ('s, 'g) dispose_review \<Rightarrow> string \<Rightarrow> disposition" where
  "disposition_of ops st item_id =
     (case dz_get_disposition ops (dv_store st) item_id of
        Some d \<Rightarrow> d
      | None \<Rightarrow> \<lparr>ds_item_id = item_id, ds_state = DispositionPending, ds_reason = DR_Incomplete, ds_evidence_ids = [],
                ds_accepted_commit_id = None, ds_promotion_identity = None\<rparr>)"

text \<open>The in-memory store and the honest gate.\<close>

type_synonym disposition_store = "(string, disposition) hashmap"

definition memory_gate :: "string \<Rightarrow> bool \<Rightarrow> unit \<Rightarrow> (unit \<times> gate_promotion_result) option" where
  "memory_gate item_id accepted g =
     (if accepted
      then do {
        commit \<leftarrow> expect (parse_id ''commit id'' ''commit:synthetic-1'' MAX_ID_LEN);
        Some (g, \<lparr>gp_outcome = PromotionCommitted, gp_reason = DR_Accepted, gp_commit_id = Some commit,
                  gp_promotion_identity = Some PromotionIdentity\<rparr>) }
      else Some (g, \<lparr>gp_outcome = PromotionRejected, gp_reason = DR_Incomplete, gp_commit_id = None,
                     gp_promotion_identity = None\<rparr>))"

definition memory_dispose_ops :: "(disposition_store, unit) dispose_ops" where
  "memory_dispose_ops =
     \<lparr>dz_set_disposition = (\<lambda>d items. hm_insert (ds_item_id d) d items),
      dz_get_disposition = hm_get,
      dz_attempt_promotion = memory_gate\<rparr>"

section \<open>Append-only logs\<close>

text \<open>The contract of the work-state port and of the diagnostic port: what is written is read back, in order.\<close>

locale append_log =
  fixes add :: "'t \<Rightarrow> 'w \<Rightarrow> 'w"
    and entries :: "'w \<Rightarrow> 't list"
  assumes entries_add: "entries (add t w) = entries w @ [t]"
begin

lemma entries_fold: "entries (fold add ts w) = entries w @ ts"
  by (induction ts arbitrary: w) (simp_all add: entries_add)

end

interpretation work_log: append_log memory_record_transition "\<lambda>w. w"
  by unfold_locales (simp add: memory_record_transition_def)

interpretation diagnostic_log: append_log memory_emit "\<lambda>d. d"
  by unfold_locales (simp add: memory_emit_def)

definition memory_logs_with ::
    "(observation_request \<Rightarrow> 's \<Rightarrow> 's \<times> transport_observation) \<Rightarrow>
     ('s, work_transition list, diagnostic_event list) observe_ops" where
  "memory_logs_with obs = \<lparr>oo_observe = obs, oo_record_transition = memory_record_transition, oo_emit = memory_emit\<rparr>"

lemma generated_observe_ids:
  assumes "valid_id MAX_ID_LEN r"
  shows "valid_id GENERATED_ID_LEN (''observation:'' @ r)" "valid_id GENERATED_ID_LEN (''diagnostic:'' @ r)"
  using assms
  by (auto simp: valid_id_def MAX_ID_LEN_def GENERATED_ID_LEN_def id_char_def is_ascii_alphanumeric_def less_eq_char_def)

text \<open>The contract of the inventory store.\<close>

locale attempt_store =
  fixes append_attempt :: "string \<Rightarrow> observation_attempt \<Rightarrow> 's \<Rightarrow> 's"
    and attempts_of :: "'s \<Rightarrow> string \<Rightarrow> observation_attempt list"
  assumes attempts_append:
    "attempts_of (append_attempt i a s) k = (if k = i then attempts_of s i @ [a] else attempts_of s k)"
begin

lemma store_mirrors_history:
  "inventory_run append_attempt requests st = Some st' \<Longrightarrow>
     (\<And>k. attempts_of (nt_store st) k = attempts_for (nt_history st) k) \<Longrightarrow>
     attempts_of (nt_store st') k = attempts_for (nt_history st') k"
proof (induction requests arbitrary: st)
  case (Cons q qs)
  then obtain st1 r where s: "inventory append_attempt q st = Some (st1, r)" "inventory_run append_attempt qs st1 = Some st'"
    by (auto simp: bind_eq_Some_conv)
  from s(1) Cons.prems(2) have "attempts_of (nt_store st1) k = attempts_for (nt_history st1) k" for k
    by (auto simp: inventory_def bind_eq_Some_conv Let_def attempts_append attempts_for_def)
  from Cons.IH [OF s(2) this] show ?case .
qed simp

end

interpretation memory_attempts: attempt_store memory_append_attempt attempts_for
  by unfold_locales (auto simp: memory_append_attempt_def attempts_for_def)

section \<open>The history of an item\<close>

definition request_item :: "inventory_request \<Rightarrow> string" where
  "request_item request = item_name (nq_drop_reference request) (nq_input_digest request)"

definition attempt_of :: "nat \<Rightarrow> inventory_request \<Rightarrow> observation_attempt" where
  "attempt_of n request = \<lparr>oa_attempt_id = ''attempt:'' @ show_nat n, oa_request_id = nq_request_id request,
     oa_drop_reference = nq_drop_reference request, oa_input_digest = nq_input_digest request\<rparr>"

text \<open>Requests numbered from \<open>n\<close>.\<close>

fun number_attempts :: "nat \<Rightarrow> inventory_request list \<Rightarrow> observation_attempt list" where
  "number_attempts n [] = []"
| "number_attempts n (q # qs) = attempt_of n q # number_attempts (Suc n) qs"

lemma inventory_step:
  assumes "inventory append_attempt q st = Some (st', r)"
  shows "attempts_for (nt_history st') k =
    (if k = request_item q then attempts_for (nt_history st) k @ [attempt_of (Suc (length (attempts_for (nt_history st) k))) q]
     else attempts_for (nt_history st) k)"
  using assms
  by (auto simp: inventory_def bind_eq_Some_conv Let_def resolve_item_id_def parse_id_eq_Inr next_attempt_id_def
    u64_succ_eq_Some attempts_for_def request_item_def attempt_of_def)

lemma inventory_run_history:
  "inventory_run append_attempt requests st = Some st' \<Longrightarrow>
     attempts_for (nt_history st') k = attempts_for (nt_history st) k @
       number_attempts (Suc (length (attempts_for (nt_history st) k))) (filter (\<lambda>q. request_item q = k) requests)"
proof (induction requests arbitrary: st)
  case (Cons q qs)
  then obtain st1 r where s: "inventory append_attempt q st = Some (st1, r)" "inventory_run append_attempt qs st1 = Some st'"
    by (auto simp: bind_eq_Some_conv)
  from Cons.IH [OF s(2)] inventory_step [OF s(1), of k] show ?case by auto
qed simp

section \<open>Properties\<close>

text \<open>An observation always completes, fail-closed: with any source adapter and the in-memory logs, a request
under a valid identifier returns; exactly two work transitions and one diagnostic event are appended; the outcome is
\<open>completed\<close> only when the adapter said so and delivered no partial bytes, and only then is the final phase a
completion; nothing is retryable that the adapter did not leave unavailable, timed out or failed; and no clock anchor,
promotion or publication comes out.\<close>

theorem observation_fails_closed:
  assumes "valid_id MAX_ID_LEN (ob_request_id request)" "obs request (os_source st) = (source, report)"
  shows "\<exists>st' res. observe_execute (memory_logs_with obs) request st = Some (st', res) \<and>
    os_work_state st' = os_work_state st @ ox_work_trace res \<and> map wn_phase (ox_work_trace res) =
      [Started, if ox_transport_outcome res = Completed then ObservationCompleted else ObservationFailed] \<and>
    (\<exists>e. ox_diagnostics res = [e] \<and> os_diagnostics st' = os_diagnostics st @ [e] \<and>
       dg_retryable e = retryable (ox_transport_outcome res)) \<and>
    (ox_transport_outcome res = Completed \<longleftrightarrow> to_outcome report = Completed \<and> pm_byte_count (to_partial report) = 0) \<and>
    ox_legal_clock_anchor res = None \<and> ox_promotion_id res = None \<and> ox_publication_id res = None"
  using assms(2) generated_observe_ids [OF assms(1)]
  by (simp add: observe_execute_def memory_logs_with_def parse_id_valid Let_def work_log.entries_add
    diagnostic_log.entries_add) blast

text \<open>Inventory is append-only: after any run of requests, and whatever the store does, the history of an item
is the list of the requests that named it, in order, as attempts numbered from one; none is lost or rewritten.\<close>

theorem inventory_history_exact:
  assumes "inventory_run append_attempt requests (inventory_new s) = Some st"
  shows "attempts_for (nt_history st) k = number_attempts 1 (filter (\<lambda>q. request_item q = k) requests)"
  using inventory_run_history [OF assms, of k] by (simp add: inventory_new_def attempts_for_def)

text \<open>Two inventory requests are of the same item exactly when their drop reference and their digest agree.\<close>

theorem inventory_item_identity:
  "request_item (inventory_request_new r d bytes) = request_item (inventory_request_new r' d' bytes') \<longleftrightarrow>
     d = d' \<and> digest_bytes bytes = digest_bytes bytes'"
proof
  assume "request_item (inventory_request_new r d bytes) = request_item (inventory_request_new r' d' bytes')"
  then have "d @ CHR '':'' # digest_bytes bytes = d' @ CHR '':'' # digest_bytes bytes'"
    by (simp add: request_item_def inventory_request_new_def item_name_def)
  moreover have "length (CHR '':'' # digest_bytes bytes) = length (CHR '':'' # digest_bytes bytes')"
    by (simp add: digest_bytes_def)
  ultimately show "d = d' \<and> digest_bytes bytes = digest_bytes bytes'" by simp
qed (simp add: request_item_def inventory_request_new_def)

text \<open>When inventory panics: a request with a valid drop reference, to a history with room for another attempt,
has no answer exactly when the drop reference is longer than 50 bytes, although references may take 64.\<close>

theorem inventory_panics_iff:
  assumes "valid_id MAX_ID_LEN d" "Suc (length (attempts_for (nt_history st) (item_name d (digest_bytes bytes)))) < u64_limit"
  shows "inventory append_attempt (inventory_request_new r d bytes) st = None \<longleftrightarrow> length d > 50"
proof -
  have "valid_id 24 (digest_bytes bytes)" by (simp add: digest_bytes_def valid_fnv_label)
  then have item: "valid_id GENERATED_ID_LEN (item_name d (digest_bytes bytes)) \<longleftrightarrow> length d \<le> 50"
    using assms(1)
    by (auto simp: valid_id_def item_name_def GENERATED_ID_LEN_def digest_bytes_def id_char_def
      is_ascii_alphanumeric_def less_eq_char_def)
  have attempt: "valid_id GENERATED_ID_LEN (''attempt:'' @ show_nat n)" if "n < u64_limit" for n
    using that by (intro valid_id_counter)
      (simp_all add: GENERATED_ID_LEN_def id_char_def is_ascii_alphanumeric_def less_eq_char_def)
  show ?thesis
  proof (cases "length d \<le> 50")
    case True
    then have "resolve_item_id (inventory_request_new r d bytes) = Some (item_name d (digest_bytes bytes))"
      using item by (simp add: resolve_item_id_def inventory_request_new_def parse_id_valid)
    moreover have "next_attempt_id (length (attempts_for (nt_history st) (item_name d (digest_bytes bytes)))) \<noteq> None"
      using assms(2) attempt [OF assms(2)]
      by (auto simp: next_attempt_id_def u64_succ_def u64_limit_def parse_id_valid)
    ultimately show ?thesis using True
      by (auto simp: inventory_def Let_def attempts_for_def)
  next
    case False
    then have "\<not> valid_id GENERATED_ID_LEN (item_name d (digest_bytes bytes))" using item by simp
    then have "resolve_item_id (inventory_request_new r d bytes) = None"
      by (auto simp: resolve_item_id_def inventory_request_new_def expect_def parse_id_def valid_id_def split: if_splits)
    with False show ?thesis by (simp add: inventory_def)
  qed
qed

text \<open>Only accepted items are promoted, by the honest gate: an attempt returns without touching any disposition,
commits exactly when the item's disposition is accepted, and otherwise gives the disposition's reason, or
\<open>incomplete\<close> for an item without one.\<close>

theorem promotion_needs_acceptance:
  "\<exists>st' res. attempt_promotion memory_dispose_ops item_id st = Some (st', res) \<and> dv_store st' = dv_store st \<and>
    (gp_outcome res = PromotionCommitted \<longleftrightarrow> ds_state (disposition_of memory_dispose_ops st item_id) = DispositionAccepted) \<and>
    (gp_outcome res = PromotionRejected \<longrightarrow>
       gp_reason res = ds_reason (disposition_of memory_dispose_ops st item_id) \<and> gp_commit_id res = None)"
proof -
  have "valid_id MAX_ID_LEN ''commit:synthetic-1''" by code_simp
  then show ?thesis
    by (auto simp: attempt_promotion_def memory_dispose_ops_def memory_gate_def disposition_of_def
      disposition_is_accepted_def parse_id_valid Let_def split: option.splits)
qed

text \<open>The service trusts its gate: when the gate commits an item that is not accepted, the attempt returns the
gate's commit as it is, whatever the disposition.\<close>

theorem dispose_trusts_gate:
  assumes "dz_get_disposition ops (dv_store st) item_id = Some d" "ds_state d \<noteq> DispositionAccepted"
    "dz_attempt_promotion ops item_id False (dv_gate st) = Some (g, res)" "gp_outcome res = PromotionCommitted"
  shows "attempt_promotion ops item_id st = Some (st\<lparr>dv_gate := g\<rparr>, res)"
  using assms by (simp add: attempt_promotion_def disposition_is_accepted_def Let_def)

section \<open>Instances\<close>

definition sample_observation :: observation_request where
  "sample_observation = \<lparr>ob_request_id = ''r'', ob_source_channel_id = ''c''\<rparr>"

lemma sample_observation_valid: "valid_id MAX_ID_LEN (ob_request_id sample_observation)"
  by code_simp

theorem observation_fails_closed_witness:
  "\<exists>st' res. observe_execute (memory_logs_with interruptible_observe) sample_observation
      \<lparr>os_source = timeout_after ''partial'', os_work_state = [], os_diagnostics = []\<rparr> = Some (st', res) \<and>
    ox_transport_outcome res \<noteq> Completed \<and> length (os_work_state st') = 2"
proof -
  let ?st = "\<lparr>os_source = timeout_after ''partial'', os_work_state = [] :: work_transition list,
    os_diagnostics = [] :: diagnostic_event list\<rparr>"
  have "interruptible_observe sample_observation (os_source ?st) = (timeout_after ''partial'', timeout_after ''partial'')"
    by (simp add: interruptible_observe_def)
  from observation_fails_closed [where obs = interruptible_observe and st = ?st, OF sample_observation_valid this]
  show ?thesis
  proof (elim exE conjE)
    fix st' :: "(transport_observation, work_transition list, diagnostic_event list) observe_source" and res e
    assume r: "observe_execute (memory_logs_with interruptible_observe) sample_observation ?st = Some (st', res)"
      and w: "os_work_state st' = os_work_state ?st @ ox_work_trace res"
      and m: "map wn_phase (ox_work_trace res) =
        [Started, if ox_transport_outcome res = Completed then ObservationCompleted else ObservationFailed]"
      and c: "(ox_transport_outcome res = Completed) =
        (to_outcome (timeout_after ''partial'') = Completed \<and> pm_byte_count (to_partial (timeout_after ''partial'')) = 0)"
    from arg_cong [OF m, of length] have "length (ox_work_trace res) = 2" by simp
    moreover have "ox_transport_outcome res \<noteq> Completed" using c by (simp add: timeout_after_def interrupted_def)
    ultimately show ?thesis using r w by auto
  qed
qed

definition sample_requests :: "inventory_request list" where
  "sample_requests = [inventory_request_new ''r1'' ''d'' ''x'', inventory_request_new ''r2'' ''d'' ''x'']"

lemma sample_inventory: "\<exists>st. inventory_run memory_append_attempt sample_requests (inventory_new []) = Some st"
proof -
  have "inventory_run memory_append_attempt sample_requests (inventory_new []) \<noteq> None" by code_simp
  then show ?thesis by simp
qed

theorem inventory_history_exact_witness:
  "\<exists>st. inventory_run memory_append_attempt sample_requests (inventory_new []) = Some st \<and>
    map oa_attempt_id (attempts_for (nt_history st) (request_item (hd sample_requests))) = [''attempt:1'', ''attempt:2'']"
proof -
  obtain st where st: "inventory_run memory_append_attempt sample_requests (inventory_new []) = Some st"
    using sample_inventory by blast
  have "show_nat 1 = ''1''" "show_nat 2 = ''2''" by code_simp+
  with inventory_history_exact [OF st, of "request_item (hd sample_requests)"] st show ?thesis
    by (simp add: sample_requests_def attempt_of_def request_item_def inventory_request_new_def numeral_2_eq_2)
qed

theorem inventory_panics_iff_witness:
  "inventory memory_append_attempt (inventory_request_new ''r'' (replicate 60 (CHR ''d'')) ''x'') (inventory_new []) = None"
proof -
  have "valid_id MAX_ID_LEN (replicate 60 (CHR ''d''))"
    by (simp add: valid_id_def MAX_ID_LEN_def list_all_iff id_char_def is_ascii_alphanumeric_def less_eq_char_def)
  then show ?thesis
    by (subst inventory_panics_iff) (simp_all add: inventory_new_def attempts_for_def u64_limit_def)
qed

definition eager_gate_ops :: "(disposition_store, unit) dispose_ops" where
  "eager_gate_ops = memory_dispose_ops\<lparr>dz_attempt_promotion := (\<lambda>item accepted g. memory_gate item True g)\<rparr>"

theorem dispose_trusts_gate_witness:
  "\<exists>st res. attempt_promotion eager_gate_ops ''i'' (fst (set_pending eager_gate_ops ''i'' [] \<lparr>dv_store = [], dv_gate = ()\<rparr>)) =
     Some (st, res) \<and> gp_outcome res = PromotionCommitted"
proof -
  let ?st = "fst (set_pending eager_gate_ops ''i'' [] \<lparr>dv_store = [], dv_gate = ()\<rparr>)"
  have v: "valid_id MAX_ID_LEN ''commit:synthetic-1''" by code_simp
  have ops: "dz_get_disposition eager_gate_ops (dv_store ?st) ''i'' =
      Some \<lparr>ds_item_id = ''i'', ds_state = DispositionPending, ds_reason = DR_Incomplete, ds_evidence_ids = [],
        ds_accepted_commit_id = None, ds_promotion_identity = None\<rparr>"
    by (simp add: eager_gate_ops_def memory_dispose_ops_def set_pending_def dispose_set_def Let_def)
  have gate: "dz_attempt_promotion eager_gate_ops ''i'' False (dv_gate ?st) =
      Some ((), \<lparr>gp_outcome = PromotionCommitted, gp_reason = DR_Accepted, gp_commit_id = Some ''commit:synthetic-1'',
        gp_promotion_identity = Some PromotionIdentity\<rparr>)"
    using v by (simp add: eager_gate_ops_def memory_gate_def parse_id_valid)
  from dispose_trusts_gate [OF ops _ gate] show ?thesis by auto
qed

end
