(* ===== verification/LN_Outward.thy ===== *)
theory LN_Outward
  imports LN_Ids
begin

text \<open>
  The outward policies, each over one port: \<open>crates/ln-projection\<close> (disposable rebuild),
  \<open>crates/ln-accelerate\<close> (provisional acceleration), \<open>crates/ln-query\<close> (evidence-bounded query,
  \<open>application.rs\<close>), \<open>crates/ln-citation\<close> (citation resolution), \<open>crates/ln-diagnostic\<close> (safe
  diagnostics) and \<open>crates/ln-conformance\<close> (the conformance verdict), with their in-memory and hostile adapters. Full
  Unicode \<open>str::to_lowercase\<close>, on which the diagnostics depend, is a parameter.
\<close>

section \<open>Disposable projection (HC-12)\<close>

definition PROJECTION_POLICY_VERSION :: string where
  "PROJECTION_POLICY_VERSION = ''hc12:disposable-projection:v1''"

datatype rebuild_outcome = RebuiltDisposable | RebuildPartial | StaleInput | RebuildCancelled | RebuildFailed

fun rebuild_as_str :: "rebuild_outcome \<Rightarrow> string" where
  "rebuild_as_str RebuiltDisposable = ''rebuilt-disposable''"
| "rebuild_as_str RebuildPartial = ''partial''"
| "rebuild_as_str StaleInput = ''stale-input''"
| "rebuild_as_str RebuildCancelled = ''cancelled''"
| "rebuild_as_str RebuildFailed = ''failed''"

definition is_success_disposable :: "rebuild_outcome \<Rightarrow> bool" where
  "is_success_disposable r = (r = RebuiltDisposable)"

datatype completeness_label = LabelIncomplete | CompleteClaimed

fun completeness_label_as_str :: "completeness_label \<Rightarrow> string" where
  "completeness_label_as_str LabelIncomplete = ''incomplete''"
| "completeness_label_as_str CompleteClaimed = ''complete-claimed''"

datatype currency_label = NotCurrent | CurrentClaimed

fun currency_label_as_str :: "currency_label \<Rightarrow> string" where
  "currency_label_as_str NotCurrent = ''not-current''"
| "currency_label_as_str CurrentClaimed = ''current-claimed''"

datatype projection_authority = ProjectionAuthority

record ceiling_metadata =
  cm_authoritative :: bool
  cm_completeness :: completeness_label
  cm_currency :: currency_label
  cm_baseline :: string
  cm_scope :: string
  cm_cutoff :: string
  cm_rules :: string
  cm_stale :: "string list"
  cm_gaps :: "string list"

record rebuild_request =
  bq_request_id :: string
  bq_baseline :: string
  bq_scope :: string
  bq_cutoff :: string
  bq_rules :: string
  bq_known_gaps :: "string list"

record executor_report =
  ex_outcome :: rebuild_outcome
  ex_claims_complete :: bool
  ex_claims_current :: bool
  ex_claims_authoritative :: bool
  ex_invents_fact :: bool
  ex_hides_gaps :: bool
  ex_publication_authority_granted :: bool
  ex_extra_stale :: "string list"
  ex_residual_gaps :: "string list"

record rebuild_trace =
  bt_policy_version :: string
  bt_request_id :: string
  bt_outcome :: rebuild_outcome
  bt_ceiling :: ceiling_metadata
  bt_publication_authority :: "projection_authority option"
  bt_publication_authority_changed :: bool
  bt_executor_claimed_complete :: bool
  bt_executor_claimed_current :: bool
  bt_executor_claimed_authoritative :: bool
  bt_executor_invented_fact :: bool
  bt_executor_hid_gaps :: bool
  bt_demoted :: bool

record rebuild_result =
  bx_outcome :: rebuild_outcome
  bx_ceiling :: ceiling_metadata
  bx_publication_authority :: "projection_authority option"
  bx_publication_authority_changed :: bool
  bx_demoted :: bool
  bx_trace :: rebuild_trace

definition normalize_outcome :: "executor_report \<Rightarrow> bool \<Rightarrow> rebuild_outcome" where
  "normalize_outcome report demoted =
     (if demoted \<and> ex_outcome report = RebuiltDisposable then RebuildFailed else ex_outcome report)"

fun push_missing :: "string list \<Rightarrow> string list \<Rightarrow> string list" where
  "push_missing out [] = out"
| "push_missing out (g # gs) = push_missing (if g \<in> set out then out else out @ [g]) gs"

definition merge_gaps :: "string list \<Rightarrow> executor_report \<Rightarrow> string list" where
  "merge_gaps known report =
     (if \<not> ex_hides_gaps report then push_missing known (ex_residual_gaps report) else push_missing known known)"

definition rebuild :: "(rebuild_request \<Rightarrow> executor_report) \<Rightarrow> rebuild_request \<Rightarrow> rebuild_result" where
  "rebuild execute request =
     (let report = execute request;
          demoted = (ex_claims_complete report \<or> ex_claims_current report \<or> ex_claims_authoritative report \<or>
            ex_invents_fact report \<or> ex_hides_gaps report \<or> ex_publication_authority_granted report);
          outcome = normalize_outcome report demoted;
          gaps = merge_gaps (bq_known_gaps request) report;
          ceiling = \<lparr>cm_authoritative = False, cm_completeness = LabelIncomplete, cm_currency = NotCurrent,
            cm_baseline = bq_baseline request, cm_scope = bq_scope request, cm_cutoff = bq_cutoff request,
            cm_rules = bq_rules request, cm_stale = ex_extra_stale report, cm_gaps = gaps\<rparr>
      in \<lparr>bx_outcome = outcome, bx_ceiling = ceiling, bx_publication_authority = None,
          bx_publication_authority_changed = False, bx_demoted = demoted,
          bx_trace = \<lparr>bt_policy_version = PROJECTION_POLICY_VERSION, bt_request_id = bq_request_id request,
            bt_outcome = outcome, bt_ceiling = ceiling, bt_publication_authority = None,
            bt_publication_authority_changed = False, bt_executor_claimed_complete = ex_claims_complete report,
            bt_executor_claimed_current = ex_claims_current report,
            bt_executor_claimed_authoritative = ex_claims_authoritative report,
            bt_executor_invented_fact = ex_invents_fact report, bt_executor_hid_gaps = ex_hides_gaps report,
            bt_demoted = demoted\<rparr>\<rparr>)"

record honest_executor =
  he_outcome :: rebuild_outcome
  he_residual_gaps :: "string list"
  he_extra_stale :: "string list"

definition honest_execute :: "honest_executor \<Rightarrow> rebuild_request \<Rightarrow> executor_report" where
  "honest_execute e request =
     \<lparr>ex_outcome = he_outcome e, ex_claims_complete = False, ex_claims_current = False,
      ex_claims_authoritative = False, ex_invents_fact = False, ex_hides_gaps = False,
      ex_publication_authority_granted = False, ex_extra_stale = he_extra_stale e,
      ex_residual_gaps = (if he_residual_gaps e = [] then bq_known_gaps request else he_residual_gaps e)\<rparr>"

definition hostile_execute :: "rebuild_outcome \<Rightarrow> rebuild_request \<Rightarrow> executor_report" where
  "hostile_execute base_outcome request =
     \<lparr>ex_outcome = base_outcome, ex_claims_complete = True, ex_claims_current = True,
      ex_claims_authoritative = True, ex_invents_fact = True, ex_hides_gaps = True,
      ex_publication_authority_granted = True, ex_extra_stale = [], ex_residual_gaps = []\<rparr>"

section \<open>Provisional acceleration (HC-16)\<close>

definition ACCELERATION_POLICY_VERSION :: string where
  "ACCELERATION_POLICY_VERSION = ''hc16:provisional-acceleration:v1''"

datatype acceleration_outcome =
  AC_Accelerated | AC_Superseded | AC_DirectPromotionRejected | AC_LabelMutationRejected | AC_Expired | AC_Cancelled

fun acceleration_as_str :: "acceleration_outcome \<Rightarrow> string" where
  "acceleration_as_str AC_Accelerated = ''accelerated''"
| "acceleration_as_str AC_Superseded = ''superseded''"
| "acceleration_as_str AC_DirectPromotionRejected = ''direct-promotion-rejected''"
| "acceleration_as_str AC_LabelMutationRejected = ''label-mutation-rejected''"
| "acceleration_as_str AC_Expired = ''expired''"
| "acceleration_as_str AC_Cancelled = ''cancelled''"

definition is_provisional :: "acceleration_outcome \<Rightarrow> bool" where
  "is_provisional a = (a = AC_Accelerated \<or> a = AC_Superseded)"

datatype provisional_tier = TierAccelerated | TierNormal

record acceleration_request =
  kq_provisional_id :: string
  kq_scope_id :: string
  kq_writer_id :: string
  kq_label :: string
  kq_tier :: provisional_tier
  kq_direct_promotion_attempt :: bool
  kq_label_mutation_attempt :: bool

record acceleration_result =
  kx_outcome :: acceleration_outcome
  kx_provisional_id :: string
  kx_authoritative :: bool
  kx_policy_version :: string

text \<open>The service writes to its ledger and asks it for a count.\<close>

record 'l acceleration_ops =
  ko_put :: "acceleration_request \<Rightarrow> 'l \<Rightarrow> 'l"
  ko_provisional_count :: "'l \<Rightarrow> nat"

record 'l acceleration =
  kl_ledger :: 'l
  kl_labels :: "(string, string) hashmap"

definition acceleration_new :: "'l \<Rightarrow> 'l acceleration" where
  "acceleration_new ledger = \<lparr>kl_ledger = ledger, kl_labels = []\<rparr>"

definition accelerate ::
    "'l acceleration_ops \<Rightarrow> acceleration_request \<Rightarrow> 'l acceleration \<Rightarrow> 'l acceleration \<times> acceleration_result" where
  "accelerate ops request st =
     (let result = (\<lambda>outcome. \<lparr>kx_outcome = outcome, kx_provisional_id = kq_provisional_id request,
            kx_authoritative = False, kx_policy_version = ACCELERATION_POLICY_VERSION\<rparr>)
      in if kq_direct_promotion_attempt request then (st, result AC_DirectPromotionRejected)
         else if kq_label_mutation_attempt request then (st, result AC_LabelMutationRejected)
         else (\<lparr>kl_ledger = ko_put ops request (kl_ledger st),
                kl_labels = hm_insert (kq_provisional_id request) (kq_label request) (kl_labels st)\<rparr>,
               result AC_Accelerated))"

definition acceleration_count :: "'l acceleration_ops \<Rightarrow> 'l acceleration \<Rightarrow> nat" where
  "acceleration_count ops st = ko_provisional_count ops (kl_ledger st)"

definition acceleration_authoritative_count :: "'l acceleration \<Rightarrow> nat" where
  "acceleration_authoritative_count st = 0"

definition acceleration_label_for :: "'l acceleration \<Rightarrow> string \<Rightarrow> string option" where
  "acceleration_label_for st i = hm_get (kl_labels st) i"

fun accelerate_run :: "'l acceleration_ops \<Rightarrow> acceleration_request list \<Rightarrow> 'l acceleration \<Rightarrow> 'l acceleration" where
  "accelerate_run ops [] st = st"
| "accelerate_run ops (q # qs) st = accelerate_run ops qs (fst (accelerate ops q st))"

type_synonym acceleration_ledger = "(string, acceleration_request) hashmap"

definition memory_acceleration_ops :: "acceleration_ledger acceleration_ops" where
  "memory_acceleration_ops =
     \<lparr>ko_put = (\<lambda>request l. hm_insert (kq_provisional_id request) request l), ko_provisional_count = hm_len\<rparr>"

definition memory_label_for :: "acceleration_ledger \<Rightarrow> string \<Rightarrow> string option" where
  "memory_label_for l i = map_option kq_label (hm_get l i)"

definition mutator_label_for :: "acceleration_ledger \<Rightarrow> string \<Rightarrow> string option" where
  "mutator_label_for l i = map_option (\<lambda>_. ''authoritative:mutated'') (memory_label_for l i)"

section \<open>Evidence-bounded query (HC-17)\<close>

definition QUERY_POLICY_VERSION :: string where
  "QUERY_POLICY_VERSION = ''hc17:evidence-bounded-query:v1''"

datatype query_outcome = QO_Answered | QO_NoAnswer | QO_Partial | QO_InventedRejected

fun query_outcome_as_str :: "query_outcome \<Rightarrow> string" where
  "query_outcome_as_str QO_Answered = ''answered''"
| "query_outcome_as_str QO_NoAnswer = ''no-answer''"
| "query_outcome_as_str QO_Partial = ''partial''"
| "query_outcome_as_str QO_InventedRejected = ''invented-rejected''"

record query_request =
  qq_query_id :: string
  qq_scope_id :: string
  qq_requested_evidence :: "string list"
  qq_invention_attempt :: bool
  qq_fabrication_attempt :: bool

record query_result =
  qx_outcome :: query_outcome
  qx_query_id :: string
  qx_returned_evidence :: "string list"
  qx_authoritative :: bool
  qx_policy_version :: string

fun evidence_loop :: "(string \<Rightarrow> bool) \<Rightarrow> string list \<Rightarrow> string list \<Rightarrow> bool \<Rightarrow> string list \<times> bool" where
  "evidence_loop has_evidence [] found all_found = (found, all_found)"
| "evidence_loop has_evidence (eid # eids) found all_found =
     (if has_evidence eid then evidence_loop has_evidence eids (found @ [eid]) all_found
      else evidence_loop has_evidence eids found False)"

definition query :: "(string \<Rightarrow> bool) \<Rightarrow> query_request \<Rightarrow> query_result" where
  "query has_evidence request =
     (if qq_invention_attempt request \<or> qq_fabrication_attempt request
      then \<lparr>qx_outcome = QO_InventedRejected, qx_query_id = qq_query_id request, qx_returned_evidence = [],
            qx_authoritative = False, qx_policy_version = QUERY_POLICY_VERSION\<rparr>
      else
        let (found, all_found) = evidence_loop has_evidence (qq_requested_evidence request) [] True
        in \<lparr>qx_outcome = (if all_found \<and> found \<noteq> [] then QO_Answered else if found \<noteq> [] then QO_Partial else QO_NoAnswer),
            qx_query_id = qq_query_id request, qx_returned_evidence = found, qx_authoritative = False,
            qx_policy_version = QUERY_POLICY_VERSION\<rparr>)"

definition memory_has_evidence :: "string list \<Rightarrow> string \<Rightarrow> bool" where
  "memory_has_evidence evidence i = (i \<in> set evidence)"

definition inventor_has_evidence :: "string list \<Rightarrow> string \<Rightarrow> bool" where
  "inventor_has_evidence evidence i = True"

section \<open>Citation (HC-18)\<close>

definition CITATION_POLICY_VERSION :: string where
  "CITATION_POLICY_VERSION = ''hc18:resolve-citation:v1''"

datatype source_authority = Official | Mirror | Unverified

datatype citation_outcome =
  CO_Resolved | CO_Missing | CO_Invalid | CO_MirrorRelabelRejected | CO_AnchorInventionRejected

fun citation_as_str :: "citation_outcome \<Rightarrow> string" where
  "citation_as_str CO_Resolved = ''resolved''"
| "citation_as_str CO_Missing = ''missing''"
| "citation_as_str CO_Invalid = ''invalid''"
| "citation_as_str CO_MirrorRelabelRejected = ''mirror-relabel-rejected''"
| "citation_as_str CO_AnchorInventionRejected = ''anchor-invention-rejected''"

record citation_request =
  zq_citation_id :: string
  zq_source_ref :: string
  zq_requested_authority :: source_authority
  zq_anchor_invention_attempt :: bool
  zq_mirror_relabel_attempt :: bool

record citation_result =
  zx_outcome :: citation_outcome
  zx_citation_id :: string
  zx_resolved_anchor :: "string option"
  zx_authoritative :: bool
  zx_policy_version :: string

definition resolve_citation ::
    "(string \<Rightarrow> (string \<times> source_authority) option) \<Rightarrow> citation_request \<Rightarrow> citation_result" where
  "resolve_citation source request =
     (let refuse = (\<lambda>outcome. \<lparr>zx_outcome = outcome, zx_citation_id = zq_citation_id request, zx_resolved_anchor = None,
            zx_authoritative = False, zx_policy_version = CITATION_POLICY_VERSION\<rparr>)
      in if zq_anchor_invention_attempt request then refuse CO_AnchorInventionRejected
         else if zq_mirror_relabel_attempt request then refuse CO_MirrorRelabelRejected
         else case source (zq_source_ref request) of
           Some (anchor, authority) \<Rightarrow>
             let is_official = (authority = Official)
             in \<lparr>zx_outcome = (if is_official then CO_Resolved else CO_Invalid), zx_citation_id = zq_citation_id request,
                 zx_resolved_anchor = Some anchor, zx_authoritative = is_official,
                 zx_policy_version = CITATION_POLICY_VERSION\<rparr>
         | None \<Rightarrow> refuse CO_Missing)"

type_synonym citation_source = "(string, string \<times> source_authority) hashmap"

definition citation_with :: "string \<Rightarrow> string \<Rightarrow> source_authority \<Rightarrow> citation_source \<Rightarrow> citation_source option" where
  "citation_with source anchor authority entries = do {
     anchor \<leftarrow> expect (parse_id ''anchor id'' anchor MAX_ID_LEN);
     Some (hm_insert source (anchor, authority) entries) }"

definition memory_resolve :: "citation_source \<Rightarrow> string \<Rightarrow> (string \<times> source_authority) option" where
  "memory_resolve entries source = hm_get entries source"

definition relabeler_resolve :: "citation_source \<Rightarrow> string \<Rightarrow> (string \<times> source_authority) option" where
  "relabeler_resolve entries source = map_option (\<lambda>(anchor, _). (anchor, Official)) (memory_resolve entries source)"

section \<open>Safe diagnostics (HC-19)\<close>

definition DIAGNOSTIC_POLICY_VERSION :: string where
  "DIAGNOSTIC_POLICY_VERSION = ''hc19:safe-diagnostics:v1''"

datatype diagnostic_outcome = DO_Emitted | DO_Redacted | DO_Blocked | DO_Failed

fun diagnostic_outcome_as_str :: "diagnostic_outcome \<Rightarrow> string" where
  "diagnostic_outcome_as_str DO_Emitted = ''emitted''"
| "diagnostic_outcome_as_str DO_Redacted = ''redacted''"
| "diagnostic_outcome_as_str DO_Blocked = ''blocked''"
| "diagnostic_outcome_as_str DO_Failed = ''failed''"

record diagnostic_entry =
  de_diagnostic_id :: string
  de_sink :: string
  de_content :: string
  de_contains_secret :: bool
  de_contains_raw_legal_text :: bool
  de_contains_injection :: bool

record diagnostic_result =
  dx_outcome :: diagnostic_outcome
  dx_diagnostic_id :: string
  dx_emitted_content :: "string option"
  dx_policy_version :: string

definition FORBIDDEN_MARKERS :: "string list" where
  "FORBIDDEN_MARKERS = [''secret'', ''password'', ''token'', ''api_key'', ''private_key'', ''credential'']"

definition str_contains :: "string \<Rightarrow> string \<Rightarrow> bool" where
  "str_contains hay needle = list_ex (\<lambda>i. take (length needle) (drop i hay) = needle) [0..<Suc (length hay)]"

record 's diagnostic_sink_ops =
  si_is_allowed :: "'s \<Rightarrow> string \<Rightarrow> bool"
  si_emit :: "string \<Rightarrow> string \<Rightarrow> 's \<Rightarrow> 's"

definition diagnostic_emit ::
    "(string \<Rightarrow> string) \<Rightarrow> 's diagnostic_sink_ops \<Rightarrow> diagnostic_entry \<Rightarrow> 's \<Rightarrow> 's \<times> diagnostic_result" where
  "diagnostic_emit to_lowercase ops entry sink =
     (let result = (\<lambda>outcome content. \<lparr>dx_outcome = outcome, dx_diagnostic_id = de_diagnostic_id entry,
            dx_emitted_content = content, dx_policy_version = DIAGNOSTIC_POLICY_VERSION\<rparr>)
      in if de_contains_injection entry then (sink, result DO_Blocked None)
         else if de_contains_secret entry \<or> de_contains_raw_legal_text entry then (sink, result DO_Blocked None)
         else if list_ex (\<lambda>marker. str_contains (to_lowercase (de_content entry)) marker) FORBIDDEN_MARKERS
           then (sink, result DO_Blocked None)
         else if \<not> si_is_allowed ops sink (de_sink entry) then (sink, result DO_Blocked None)
         else (si_emit ops (de_sink entry) (de_content entry) sink, result DO_Emitted (Some (de_content entry))))"

record memory_sink =
  ms_allowed :: "string list"
  ms_emitted :: "(string \<times> string) list"

definition memory_sink_ops :: "memory_sink diagnostic_sink_ops" where
  "memory_sink_ops = \<lparr>si_is_allowed = (\<lambda>s sink. sink \<in> set (ms_allowed s)),
     si_emit = (\<lambda>sink content s. s\<lparr>ms_emitted := ms_emitted s @ [(sink, content)]\<rparr>)\<rparr>"

definition canary_sink_ops :: "memory_sink diagnostic_sink_ops" where
  "canary_sink_ops = memory_sink_ops\<lparr>si_is_allowed := (\<lambda>s sink. True)\<rparr>"

section \<open>Conformance (HC-20)\<close>

definition CONFORMANCE_POLICY_VERSION :: string where
  "CONFORMANCE_POLICY_VERSION = ''hc20:evaluate-conformance:v1''"

datatype case_verdict = VerdictPass | VerdictFail | VerdictUnsupported

fun verdict_as_str :: "case_verdict \<Rightarrow> string" where
  "verdict_as_str VerdictPass = ''pass''"
| "verdict_as_str VerdictFail = ''fail''"
| "verdict_as_str VerdictUnsupported = ''unsupported''"

record case_result =
  cx_case_id :: string
  cx_verdict :: case_verdict

record conformance_result =
  fz_schema :: string
  fz_total_cases :: nat
  fz_pass_count :: nat
  fz_fail_count :: nat
  fz_unsupported_count :: nat
  fz_cases :: "case_result list"
  fz_overall_verdict :: case_verdict
  fz_policy_version :: string

fun conformance_loop ::
    "(string \<Rightarrow> case_verdict) \<Rightarrow> string list \<Rightarrow> case_result list \<Rightarrow> nat \<Rightarrow> nat \<Rightarrow> nat \<Rightarrow>
     case_result list \<times> nat \<times> nat \<times> nat" where
  "conformance_loop verdict [] cases p f u = (cases, p, f, u)"
| "conformance_loop verdict (i # is) cases p f u =
     (let v = verdict i; cases = cases @ [\<lparr>cx_case_id = i, cx_verdict = v\<rparr>]
      in case v of
           VerdictPass \<Rightarrow> conformance_loop verdict is cases (p + 1) f u
         | VerdictFail \<Rightarrow> conformance_loop verdict is cases p (f + 1) u
         | VerdictUnsupported \<Rightarrow> conformance_loop verdict is cases p f (u + 1))"

definition evaluate_conformance :: "string list \<Rightarrow> (string \<Rightarrow> case_verdict) \<Rightarrow> conformance_result" where
  "evaluate_conformance case_ids verdict =
     (let (cases, p, f, u) = conformance_loop verdict case_ids [] 0 0 0
      in \<lparr>fz_schema = ''law-nexus-hc20-conformance/v1'', fz_total_cases = length case_ids, fz_pass_count = p,
          fz_fail_count = f, fz_unsupported_count = u, fz_cases = cases,
          fz_overall_verdict = (if f > 0 then VerdictFail else if u > 0 then VerdictUnsupported else VerdictPass),
          fz_policy_version = CONFORMANCE_POLICY_VERSION\<rparr>)"

type_synonym conformance_oracle = "(string \<times> case_verdict) list"

definition oracle_with :: "string \<Rightarrow> case_verdict \<Rightarrow> conformance_oracle \<Rightarrow> conformance_oracle" where
  "oracle_with case_id verdict cases = cases @ [(case_id, verdict)]"

definition hc_case_name :: "nat \<Rightarrow> string" where
  "hc_case_name i = ''HC-'' @ (if i < 10 then ''0'' else []) @ show_nat i"

definition oracle_all_pass :: "nat \<Rightarrow> conformance_oracle" where
  "oracle_all_pass count = foldl (\<lambda>oracle i. oracle_with (hc_case_name i) VerdictPass oracle) [] [1..<Suc count]"

definition oracle_verdict :: "conformance_oracle \<Rightarrow> string \<Rightarrow> case_verdict" where
  "oracle_verdict cases case_id =
     (case find (\<lambda>(i, _). i = case_id) cases of Some (_, v) \<Rightarrow> v | None \<Rightarrow> VerdictUnsupported)"

definition oracle_case_ids :: "conformance_oracle \<Rightarrow> string list" where
  "oracle_case_ids cases = map fst cases"

definition inflator_verdict :: "conformance_oracle \<Rightarrow> string \<Rightarrow> case_verdict" where
  "inflator_verdict cases case_id = VerdictPass"

section \<open>Loops\<close>

lemma push_missing_spec:
  "set (push_missing out gs) = set out \<union> set gs" "\<exists>new. push_missing out gs = out @ new"
  "distinct out \<Longrightarrow> distinct (push_missing out gs)"
proof -
  show "set (push_missing out gs) = set out \<union> set gs" by (induction gs arbitrary: out) auto
  show "\<exists>new. push_missing out gs = out @ new"
  proof (induction gs arbitrary: out)
    case (Cons g gs)
    from Cons [of out] Cons [of "out @ [g]"] show ?case by auto
  qed simp
  show "distinct out \<Longrightarrow> distinct (push_missing out gs)" by (induction gs arbitrary: out) auto
qed

lemma push_missing_self: "set gs \<subseteq> set out \<Longrightarrow> push_missing out gs = out"
  by (induction gs) auto

lemma evidence_loop_spec:
  "evidence_loop has eids found all_found = (found @ filter has eids, all_found \<and> list_all has eids)"
  by (induction eids arbitrary: found all_found) auto

lemma conformance_loop_spec:
  "conformance_loop verdict is cases p f u =
     (cases @ map (\<lambda>i. \<lparr>cx_case_id = i, cx_verdict = verdict i\<rparr>) is,
      p + length (filter (\<lambda>i. verdict i = VerdictPass) is), f + length (filter (\<lambda>i. verdict i = VerdictFail) is),
      u + length (filter (\<lambda>i. verdict i = VerdictUnsupported) is))"
proof (induction "is" arbitrary: cases p f u)
  case (Cons i "is")
  then show ?case by (cases "verdict i") simp_all
qed simp

section \<open>Properties\<close>

text \<open>A rebuild is never authoritative and hides no known gap: for any executor the result is labelled
incomplete and not current, carries no publication authority, keeps every gap known at request time, in order, before
any new one, and is a success exactly when the executor reported one and made none of the claims that demote it.\<close>

theorem rebuild_never_authoritative:
  "\<not> cm_authoritative (bx_ceiling (rebuild execute request)) \<and>
   cm_completeness (bx_ceiling (rebuild execute request)) = LabelIncomplete \<and>
   cm_currency (bx_ceiling (rebuild execute request)) = NotCurrent \<and>
   bx_publication_authority (rebuild execute request) = None \<and>
   (\<exists>new. cm_gaps (bx_ceiling (rebuild execute request)) = bq_known_gaps request @ new) \<and>
   (bx_outcome (rebuild execute request) = RebuiltDisposable \<longleftrightarrow>
      ex_outcome (execute request) = RebuiltDisposable \<and> \<not> bx_demoted (rebuild execute request)) \<and>
   (bx_demoted (rebuild execute request) \<longleftrightarrow>
      ex_claims_complete (execute request) \<or> ex_claims_current (execute request) \<or>
      ex_claims_authoritative (execute request) \<or> ex_invents_fact (execute request) \<or>
      ex_hides_gaps (execute request) \<or> ex_publication_authority_granted (execute request))"
  using push_missing_spec(2)
  by (auto simp: rebuild_def Let_def merge_gaps_def normalize_outcome_def)

text \<open>A residual gap is lost when it is reported together with hidden gaps: the result of an executor that admits
to hiding gaps lists exactly the gaps of the request, whatever residual gaps the report names.\<close>

theorem residual_gaps_dropped:
  assumes "ex_hides_gaps (execute request)"
  shows "cm_gaps (bx_ceiling (rebuild execute request)) = bq_known_gaps request"
  using assms by (simp add: rebuild_def Let_def merge_gaps_def push_missing_self)

text \<open>A query returns evidence and nothing else: for any state, an admissible query returns, in the order of the
request, exactly the requested evidence the state has; it is answered when that is all of a non-empty request, partial
when it is some of it and without answer otherwise; an invention or fabrication attempt returns nothing.\<close>

theorem query_returns_evidence:
  "qx_returned_evidence (query has request) =
     (if qq_invention_attempt request \<or> qq_fabrication_attempt request then []
      else filter has (qq_requested_evidence request)) \<and>
   qx_outcome (query has request) =
     (if qq_invention_attempt request \<or> qq_fabrication_attempt request then QO_InventedRejected
      else if filter has (qq_requested_evidence request) = [] then QO_NoAnswer
      else if filter has (qq_requested_evidence request) = qq_requested_evidence request then QO_Answered
      else QO_Partial) \<and>
   \<not> qx_authoritative (query has request)"
  by (auto simp: query_def evidence_loop_spec Let_def list_all_iff filter_empty_conv filter_id_conv)

text \<open>Labels are the service's own: after any run of requests, with any ledger, the label of a provisional
identifier is that of the last request for it that attempted neither a promotion nor a label mutation.\<close>

theorem acceleration_labels_own:
  "acceleration_label_for (accelerate_run ops requests (acceleration_new l)) i =
     map_option kq_label (find (\<lambda>q. kq_provisional_id q = i \<and> \<not> kq_direct_promotion_attempt q \<and>
       \<not> kq_label_mutation_attempt q) (rev requests))"
proof -
  have run: "accelerate_run ops (qs @ [q]) st = fst (accelerate ops q (accelerate_run ops qs st))" for qs q st
    by (induction qs arbitrary: st) simp_all
  show ?thesis
  proof (induction requests rule: rev_induct)
    case (snoc q qs)
    then show ?case by (simp add: run acceleration_label_for_def accelerate_def Let_def)
  qed (simp add: acceleration_label_for_def acceleration_new_def)
qed

text \<open>A citation is authoritative exactly when the source calls it official: for any source, an admissible
request resolves if and only if the source has an official entry, keeps the source's anchor for any other entry but as
invalid, and is missing without one; a relabelling source therefore makes every mirror authoritative.\<close>

theorem citation_follows_source:
  "(zx_authoritative (resolve_citation source request) \<longleftrightarrow> zx_outcome (resolve_citation source request) = CO_Resolved) \<and>
   (zx_outcome (resolve_citation source request) = CO_Resolved \<longleftrightarrow>
      \<not> zq_anchor_invention_attempt request \<and> \<not> zq_mirror_relabel_attempt request \<and>
      (\<exists>anchor. source (zq_source_ref request) = Some (anchor, Official))) \<and>
   (zx_resolved_anchor (resolve_citation source request) =
      (if zq_anchor_invention_attempt request \<or> zq_mirror_relabel_attempt request then None
       else map_option fst (source (zq_source_ref request))))"
  by (auto simp: resolve_citation_def Let_def split: option.split)

text \<open>Nothing marked is emitted: with any sink and any lower-casing, content reaches the sink exactly when no
flag is set, its lower-cased text has none of the forbidden markers and the sink is allowed; the answer then carries
that content, and otherwise the sink is untouched and the answer is blocked and empty.\<close>

theorem diagnostics_emit_iff_safe:
  "(let safe = (\<not> de_contains_injection entry \<and> \<not> de_contains_secret entry \<and> \<not> de_contains_raw_legal_text entry \<and>
        (\<forall>marker \<in> set FORBIDDEN_MARKERS. \<not> str_contains (lower (de_content entry)) marker) \<and>
        si_is_allowed ops sink (de_sink entry))
    in diagnostic_emit lower ops entry sink =
      ((if safe then si_emit ops (de_sink entry) (de_content entry) sink else sink),
       \<lparr>dx_outcome = (if safe then DO_Emitted else DO_Blocked), dx_diagnostic_id = de_diagnostic_id entry,
        dx_emitted_content = (if safe then Some (de_content entry) else None),
        dx_policy_version = DIAGNOSTIC_POLICY_VERSION\<rparr>))"
  by (auto simp: diagnostic_emit_def Let_def list_ex_iff)

text \<open>The conformance verdict: the three counts add up to the number of cases, every case is listed in order with
the oracle's verdict, and the whole passes exactly when every case does, so also when there is no case.\<close>

theorem conformance_verdict_exact:
  "fz_pass_count (evaluate_conformance is v) + fz_fail_count (evaluate_conformance is v) +
     fz_unsupported_count (evaluate_conformance is v) = fz_total_cases (evaluate_conformance is v) \<and>
   map cx_case_id (fz_cases (evaluate_conformance is v)) = is \<and>
   map cx_verdict (fz_cases (evaluate_conformance is v)) = map v is \<and>
   (fz_overall_verdict (evaluate_conformance is v) = VerdictPass \<longleftrightarrow> (\<forall>i \<in> set is. v i = VerdictPass)) \<and>
   (fz_overall_verdict (evaluate_conformance is v) = VerdictFail \<longleftrightarrow> (\<exists>i \<in> set is. v i = VerdictFail))"
proof -
  have sum: "length (filter (\<lambda>i. v i = VerdictPass) is) + length (filter (\<lambda>i. v i = VerdictFail) is) +
      length (filter (\<lambda>i. v i = VerdictUnsupported) is) = length is"
  proof (induction "is")
    case (Cons i "is")
    then show ?case by (cases "v i") simp_all
  qed simp
  have other: "v i = VerdictPass \<longleftrightarrow> v i \<noteq> VerdictFail \<and> v i \<noteq> VerdictUnsupported" for i by (cases "v i") simp_all
  show ?thesis
    using sum
    by (auto simp: evaluate_conformance_def conformance_loop_spec Let_def filter_empty_conv o_def other)
qed

text \<open>A repeated case hides its second verdict: the in-memory oracle answers the first verdict entered for a case
both times, so a failure entered after a pass of the same case does not fail the whole.\<close>

theorem repeated_case_hides_failure:
  "fz_overall_verdict (evaluate_conformance (oracle_case_ids [(i, VerdictPass), (i, VerdictFail)])
     (oracle_verdict [(i, VerdictPass), (i, VerdictFail)])) = VerdictPass"
  by (simp add: oracle_case_ids_def evaluate_conformance_def conformance_loop_spec oracle_verdict_def)

section \<open>Instances\<close>

definition sample_rebuild :: rebuild_request where
  "sample_rebuild = \<lparr>bq_request_id = ''r'', bq_baseline = ''b'', bq_scope = ''s'', bq_cutoff = ''c'', bq_rules = ''v'',
     bq_known_gaps = [''g'']\<rparr>"

theorem residual_gaps_dropped_witness:
  "cm_gaps (bx_ceiling (rebuild (\<lambda>q. hostile_execute RebuiltDisposable q\<lparr>ex_residual_gaps := [''h'']\<rparr>) sample_rebuild)) = [''g'']"
  by (subst residual_gaps_dropped) (simp_all add: hostile_execute_def sample_rebuild_def)

definition sample_entry :: diagnostic_entry where
  "sample_entry = \<lparr>de_diagnostic_id = ''d'', de_sink = ''log'', de_content = ''ok'', de_contains_secret = False,
     de_contains_raw_legal_text = False, de_contains_injection = False\<rparr>"

theorem diagnostics_emit_iff_safe_witness:
  "dx_outcome (snd (diagnostic_emit (\<lambda>s. s) canary_sink_ops sample_entry \<lparr>ms_allowed = [], ms_emitted = []\<rparr>)) = DO_Emitted"
proof -
  have "\<forall>marker \<in> set FORBIDDEN_MARKERS. \<not> str_contains ''ok'' marker" by code_simp
  then show ?thesis
    using diagnostics_emit_iff_safe [of sample_entry "\<lambda>s. s" canary_sink_ops "\<lparr>ms_allowed = [], ms_emitted = []\<rparr>"]
    by (simp add: sample_entry_def canary_sink_ops_def)
qed

theorem conformance_verdict_exact_witness:
  "fz_overall_verdict (evaluate_conformance [''HC-01'', ''HC-02''] (oracle_verdict (oracle_all_pass 2))) = VerdictPass"
proof -
  have "\<forall>i \<in> set [''HC-01'', ''HC-02'']. oracle_verdict (oracle_all_pass 2) i = VerdictPass" by code_simp
  then show ?thesis using conformance_verdict_exact [of "[''HC-01'', ''HC-02'']" "oracle_verdict (oracle_all_pass 2)"]
    by blast
qed

end
