(* ===== verification/LN_Text.thy ===== *)
theory LN_Text
  imports LN_Prelude
begin

text \<open>
  Text as the parsers of law-nexus read it: the characters of a \<open>str\<close> with their byte offsets, slices on character
  boundaries, and substring search. A character is the list of bytes that encodes it, so \<open>len_utf8\<close> is \<open>length\<close>. The
  tables of Unicode behind \<open>char::is_alphanumeric\<close> and \<open>char::to_lowercase\<close> are a parameter (\<open>unicode\<close>).
\<close>

section \<open>Characters and boundaries\<close>

text \<open>\<open>str::char_indices\<close>, from a byte offset: a character begins at each byte that is not a continuation byte.\<close>

function chars_from :: "nat \<Rightarrow> string \<Rightarrow> (nat \<times> string) list" where
  "chars_from i [] = []"
| "chars_from i (c # s) =
     (i, c # takeWhile cont s) # chars_from (i + Suc (length (takeWhile cont s))) (dropWhile cont s)"
  by pat_completeness auto
termination
  by (relation "measure (length \<circ> snd)") (auto simp: less_Suc_eq_le length_dropWhile_le)

definition char_indices :: "string \<Rightarrow> (nat \<times> string) list" where
  "char_indices s = chars_from 0 s"

definition str_chars :: "string \<Rightarrow> string list" where
  "str_chars s = map snd (char_indices s)"

text \<open>\<open>str::is_char_boundary\<close>.\<close>

definition is_char_boundary :: "string \<Rightarrow> nat \<Rightarrow> bool" where
  "is_char_boundary s i = (i = 0 \<or> i = length s \<or> (i < length s \<and> \<not> cont (s ! i)))"

text \<open>\<open>str::get(a..b)\<close>; the slice \<open>&s[a..b]\<close> panics where this is \<open>None\<close>.\<close>

definition str_get :: "string \<Rightarrow> nat \<Rightarrow> nat \<Rightarrow> string option" where
  "str_get s a b =
     (if a \<le> b \<and> is_char_boundary s a \<and> is_char_boundary s b then Some (take (b - a) (drop a s)) else None)"

text \<open>The characters \<open>chars().next()\<close> and \<open>chars().next_back()\<close>.\<close>

definition first_char :: "string \<Rightarrow> string option" where
  "first_char s = (case str_chars s of [] \<Rightarrow> None | c # _ \<Rightarrow> Some c)"

definition last_char :: "string \<Rightarrow> string option" where
  "last_char s = (case rev (str_chars s) of [] \<Rightarrow> None | c # _ \<Rightarrow> Some c)"

lemma chars_from_split:
  assumes "chars_from i s = pre @ (j, c) # post"
  obtains p q where "s = p @ c @ q" "j = i + length p" "c \<noteq> []" "post = chars_from (j + length c) q"
    "pre = chars_from i p" "q = [] \<or> \<not> cont (hd q)" "p = [] \<or> \<not> cont (hd c)" "list_all cont (tl c)"
  using assms
proof (induction i s arbitrary: pre thesis rule: chars_from.induct)
  case (1 i)
  then show ?case by simp
next
  case (2 i d s)
  let ?w = "takeWhile cont s" and ?r = "dropWhile cont s"
  have r: "?r = [] \<or> \<not> cont (hd ?r)" using hd_dropWhile [of cont s] by auto
  show ?case
  proof (cases pre)
    case Nil
    with "2.prems"(2) have "j = i" "c = d # ?w" "post = chars_from (i + Suc (length ?w)) ?r" by auto
    with r Nil show ?thesis by (intro "2.prems"(1) [of "[]" ?r]) (auto simp: list_all_iff dest: set_takeWhileD)
  next
    case (Cons x pre')
    with "2.prems"(2) have x: "x = (i, d # ?w)"
      and rest: "chars_from (i + Suc (length ?w)) ?r = pre' @ (j, c) # post" by auto
    show ?thesis
    proof (rule "2.IH" [OF _ rest])
      fix p q assume h: "?r = p @ c @ q" "j = i + Suc (length ?w) + length p" "c \<noteq> []"
        "post = chars_from (j + length c) q" "pre' = chars_from (i + Suc (length ?w)) p"
        "q = [] \<or> \<not> cont (hd q)" "p = [] \<or> \<not> cont (hd c)" "list_all cont (tl c)"
      have s: "s = ?w @ p @ c @ q" using h(1) takeWhile_dropWhile_id [of cont s] by simp
      have hd: "p @ c = [] \<or> \<not> cont (hd (p @ c))" using r h(1,3) by (auto simp: hd_append split: if_splits)
      have w: "takeWhile cont (?w @ p) = ?w" "dropWhile cont (?w @ p) = p"
        using hd h(3) by (cases p; auto simp: takeWhile_append dropWhile_append list_all_iff dest: set_takeWhileD)+
      have pre: "pre = chars_from i (d # ?w @ p)" using Cons x h(5) w by simp
      have ncont: "\<not> cont (hd c)" using hd h(3,7) by (cases p) auto
      show thesis
        by (rule "2.prems"(1) [of "d # ?w @ p" q]) (use s h pre ncont in auto)
    qed
  qed
qed

lemma chars_from_concat [simp]: "concat (map snd (chars_from i s)) = s"
  by (induction i s rule: chars_from.induct) simp_all

lemma char_indices_split:
  assumes "char_indices s = pre @ (j, c) # post"
  shows "s = take j s @ c @ drop (j + length c) s" "c \<noteq> []" "is_char_boundary s j"
    "is_char_boundary s (j + length c)" "j + length c \<le> length s" "pre = char_indices (take j s)"
    "post = chars_from (j + length c) (drop (j + length c) s)"
proof -
  obtain p q where s: "s = p @ c @ q" "j = length p" "c \<noteq> []" "post = chars_from (j + length c) q"
    "pre = chars_from 0 p" "q = [] \<or> \<not> cont (hd q)" "p = [] \<or> \<not> cont (hd c)"
    using chars_from_split [OF assms [unfolded char_indices_def]] by (metis add_0)
  have d: "drop (length p + length c) (p @ c @ q) = q"
    by (metis append.assoc append_eq_conv_conj length_append)
  show "s = take j s @ c @ drop (j + length c) s" "c \<noteq> []" "is_char_boundary s j"
    "is_char_boundary s (j + length c)" "j + length c \<le> length s" "pre = char_indices (take j s)"
    "post = chars_from (j + length c) (drop (j + length c) s)"
    using s d by (auto simp: is_char_boundary_def nth_append hd_conv_nth char_indices_def)
qed

lemma char_indices_mem:
  assumes "(j, c) \<in> set (char_indices s)"
  shows "str_get s j (j + length c) = Some c" "c \<noteq> []" "is_char_boundary s j"
    "is_char_boundary s (j + length c)" "j + length c \<le> length s"
proof -
  from assms obtain pre post where "char_indices s = pre @ (j, c) # post" by (meson split_list)
  note split = char_indices_split [OF this]
  then show "c \<noteq> []" "is_char_boundary s j" "is_char_boundary s (j + length c)" "j + length c \<le> length s"
    by simp_all
  have "drop j s = c @ drop (j + length c) s"
    by (subst split(1)) (use split(5) in \<open>simp add: min_def\<close>)
  then show "str_get s j (j + length c) = Some c"
    using split(3,4) by (simp add: str_get_def)
qed

lemma str_get_Some:
  "str_get s a b = Some t \<Longrightarrow> a \<le> b \<and> b \<le> length s \<and> t = take (b - a) (drop a s) \<and> length t = b - a"
  by (auto simp: str_get_def is_char_boundary_def split: if_splits)

text \<open>
  The characters of a text, without their offsets: a cut between two characters is a boundary, and both sides keep
  their characters.
\<close>

lemma map_snd_chars_from: "map snd (chars_from i s) = str_chars s"
proof -
  have "map snd (chars_from i s) = map snd (chars_from j s)" for j
    by (induction i s arbitrary: j rule: chars_from.induct) simp_all
  then show ?thesis by (simp add: str_chars_def char_indices_def)
qed

lemma str_chars_simps:
  "str_chars [] = []"
  "str_chars (c # s) = (c # takeWhile cont s) # str_chars (dropWhile cont s)"
  by (simp_all add: map_snd_chars_from [symmetric, of _ 0] del: chars_from.simps(2))
    (simp add: map_snd_chars_from)

lemma concat_str_chars [simp]: "concat (str_chars s) = s"
  by (simp add: str_chars_def char_indices_def)

lemma str_chars_nonempty: "[] \<notin> set (str_chars s)"
proof (induction s rule: length_induct)
  case (1 s)
  then show ?case by (cases s) (auto simp: str_chars_simps less_Suc_eq_le length_dropWhile_le)
qed

lemma cont_run_append:
  assumes "q = [] \<or> \<not> cont (hd q)"
  shows "takeWhile cont (w @ q) = takeWhile cont w" "dropWhile cont (w @ q) = dropWhile cont w @ q"
  using assms by (induction w) (auto split: if_splits; cases q; simp)+

lemma dropWhile_takeWhile_Nil: "dropWhile P (takeWhile P xs) = []"
  by (auto simp: dropWhile_eq_Nil_conv dest: set_takeWhileD)

lemma str_chars_append:
  assumes "q = [] \<or> \<not> cont (hd q)"
  shows "str_chars (p @ q) = str_chars p @ str_chars q"
proof (induction p rule: length_induct)
  case (1 p)
  show ?case
  proof (cases p)
    case Nil
    then show ?thesis by (simp add: str_chars_simps)
  next
    case (Cons c r)
    have "takeWhile cont (r @ q) = takeWhile cont r \<and> dropWhile cont (r @ q) = dropWhile cont r @ q"
      using cont_run_append [OF assms] by simp
    moreover have "str_chars (dropWhile cont r @ q) = str_chars (dropWhile cont r) @ str_chars q"
      using 1 Cons by (simp add: less_Suc_eq_le length_dropWhile_le)
    ultimately show ?thesis using Cons by (simp add: str_chars_simps)
  qed
qed

lemma str_chars_cut:
  assumes "str_chars s = xs @ ys"
  shows "str_chars (concat xs) = xs" "str_chars (concat ys) = ys"
    "xs = [] \<or> concat ys = [] \<or> \<not> cont (hd (concat ys))"
proof -
  have "str_chars (concat xs) = xs \<and> str_chars (concat ys) = ys \<and>
      (xs = [] \<or> concat ys = [] \<or> \<not> cont (hd (concat ys)))"
    using assms
  proof (induction xs arbitrary: s)
    case Nil
    then show ?case by (metis concat.simps(1) concat_str_chars self_append_conv2 str_chars_simps(1))
  next
    case (Cons x xs)
    then obtain c r where s: "s = c # r" by (cases s) (auto simp: str_chars_simps)
    with Cons.prems have x: "x = c # takeWhile cont r" and tail: "str_chars (dropWhile cont r) = xs @ ys"
      by (simp_all add: str_chars_simps)
    from tail have d: "dropWhile cont r = concat xs @ concat ys" by (metis concat_append concat_str_chars)
    have hd: "dropWhile cont r = [] \<or> \<not> cont (hd (dropWhile cont r))" using hd_dropWhile [of cont r] by blast
    then have "concat xs = [] \<or> \<not> cont (hd (concat xs))" unfolding d by (metis append_is_Nil_conv hd_append2)
    note cut = cont_run_append [OF this, of "takeWhile cont r"]
    have w: "takeWhile cont (takeWhile cont r @ concat xs) = takeWhile cont r"
      using cut(1) by (simp only: takeWhile_idem)
    have w': "dropWhile cont (takeWhile cont r @ concat xs) = concat xs"
      using cut(2) by (simp only: dropWhile_takeWhile_Nil append_Nil)
    from Cons.IH [OF tail] have ih: "str_chars (concat xs) = xs" "str_chars (concat ys) = ys"
      "xs = [] \<or> concat ys = [] \<or> \<not> cont (hd (concat ys))" by simp_all
    have "xs = [] \<Longrightarrow> concat ys = [] \<or> \<not> cont (hd (concat ys))" using hd unfolding d by simp
    moreover have "str_chars (concat (x # xs)) = x # xs"
      using x ih(1) by (simp add: str_chars_simps w w' del: concat_eq_Nil_conv)
    ultimately show ?case using ih(2,3) by auto
  qed
  then show "str_chars (concat xs) = xs" "str_chars (concat ys) = ys"
    "xs = [] \<or> concat ys = [] \<or> \<not> cont (hd (concat ys))" by auto
qed

lemma boundary_cut:
  assumes "str_chars s = xs @ ys"
  shows "is_char_boundary s (length (concat xs))"
proof -
  have s: "s = concat xs @ concat ys" using assms by (metis concat_append concat_str_chars)
  from str_chars_cut(3) [OF assms] have "is_char_boundary (concat xs @ concat ys) (length (concat xs))"
    by (cases "concat ys") (auto simp: is_char_boundary_def nth_append)
  with s show ?thesis by simp
qed

lemma str_get_cut:
  assumes "str_chars s = xs @ cs @ ys"
  shows "str_get s (length (concat xs)) (length (concat xs) + length (concat cs)) = Some (concat cs)"
proof -
  have s: "s = concat xs @ concat cs @ concat ys" using assms by (metis concat_append concat_str_chars)
  have "is_char_boundary s (length (concat (xs @ cs)))" using assms by (intro boundary_cut [of _ _ ys]) simp
  with boundary_cut [OF assms] show ?thesis
    by (simp add: str_get_def) (subst s, simp)
qed

lemma str_get_tail: "str_chars s = xs @ ys \<Longrightarrow> str_get s (length (concat xs)) (length s) = Some (concat ys)"
  using str_get_cut [of s xs ys "[]"] arg_cong [OF concat_str_chars [of s], of length] by simp

lemma str_get_head: "str_chars s = xs @ ys \<Longrightarrow> str_get s 0 (length (concat xs)) = Some (concat xs)"
  using str_get_cut [of s "[]" xs ys] by simp

lemma char_indices_iff:
  "(j, c) \<in> set (char_indices s) \<longleftrightarrow> (\<exists>xs ys. str_chars s = xs @ c # ys \<and> j = length (concat xs))"
proof
  assume "(j, c) \<in> set (char_indices s)"
  then obtain pre post where p: "char_indices s = pre @ (j, c) # post" by (meson split_list)
  from char_indices_split(6) [OF p] have "concat (map snd pre) = take j s" by (simp only: char_indices_def chars_from_concat)
  moreover from char_indices_split(5) [OF p] have "j \<le> length s" by simp
  ultimately have "length (concat (map snd pre)) = j" by simp
  moreover have "str_chars s = map snd pre @ c # map snd post" by (simp add: str_chars_def p)
  ultimately show "\<exists>xs ys. str_chars s = xs @ c # ys \<and> j = length (concat xs)" by blast
next
  assume "\<exists>xs ys. str_chars s = xs @ c # ys \<and> j = length (concat xs)"
  then obtain xs ys where x: "str_chars s = xs @ c # ys" "j = length (concat xs)" by blast
  from x(1) have "map snd (char_indices s) = xs @ c # ys" by (simp add: str_chars_def)
  then obtain pre jc post where p: "char_indices s = pre @ jc # post" "map snd pre = xs" "snd jc = c"
    by (auto simp: map_eq_append_conv)
  obtain k where jc: "jc = (k, c)" using p(3) by (cases jc) simp
  note split = char_indices_split [OF p(1) [unfolded jc]]
  from split(6) have "concat (map snd pre) = take k s" by (simp only: char_indices_def chars_from_concat)
  moreover from split(5) have "k \<le> length s" by simp
  ultimately have "k = j" using x(2) p(2) by simp
  with p(1) jc show "(j, c) \<in> set (char_indices s)" by simp
qed

lemma first_char_chars: "str_chars s = c # cs \<Longrightarrow> first_char s = Some c"
  by (simp add: first_char_def)

lemma first_char_eq: "first_char s = (case str_chars s of [] \<Rightarrow> None | c # _ \<Rightarrow> Some c)"
  by (simp add: first_char_def)

lemma last_char_eq: "last_char s = (if str_chars s = [] then None else Some (last (str_chars s)))"
  by (cases "str_chars s" rule: rev_cases) (simp_all add: last_char_def)

section \<open>Searching\<close>

text \<open>\<open>str::find\<close> of a string, and \<open>str::contains\<close>.\<close>

fun find_from :: "nat \<Rightarrow> string \<Rightarrow> string \<Rightarrow> nat option" where
  "find_from i p [] = (if p = [] then Some i else None)"
| "find_from i p (c # s) = (if starts_with p (c # s) then Some i else find_from (Suc i) p s)"

definition str_find :: "string \<Rightarrow> string \<Rightarrow> nat option" where
  "str_find s p = find_from 0 p s"

definition str_contains :: "string \<Rightarrow> string \<Rightarrow> bool" where
  "str_contains s p = (str_find s p \<noteq> None)"

lemma find_from_Some:
  "find_from i p s = Some k \<longleftrightarrow>
     (\<exists>j. k = i + j \<and> j \<le> length s \<and> starts_with p (drop j s) \<and> (\<forall>l<j. \<not> starts_with p (drop l s)))"
proof (induction i p s rule: find_from.induct)
  case (1 i p)
  then show ?case by (auto simp: starts_with_def)
next
  case (2 i p c s)
  show ?case
  proof (cases "starts_with p (c # s)")
    case True
    then have "j = 0" if "\<forall>l<j. \<not> starts_with p (drop l (c # s))" for j using that by (cases j) auto
    with True show ?thesis by auto
  next
    case False
    have "(\<exists>j. k = i + j \<and> j \<le> length (c # s) \<and> starts_with p (drop j (c # s)) \<and>
        (\<forall>l<j. \<not> starts_with p (drop l (c # s)))) \<longleftrightarrow>
      (\<exists>j. k = Suc i + j \<and> j \<le> length s \<and> starts_with p (drop j s) \<and> (\<forall>l<j. \<not> starts_with p (drop l s)))"
    proof (intro iffI; elim exE conjE)
      fix j assume j: "k = i + j" "j \<le> length (c # s)" "starts_with p (drop j (c # s))"
        "\<forall>l<j. \<not> starts_with p (drop l (c # s))"
      then obtain m where m: "j = Suc m" using False by (cases j) auto
      have "\<not> starts_with p (drop l s)" if "l < m" for l using j(4) that m by force
      with j m show "\<exists>j. k = Suc i + j \<and> j \<le> length s \<and> starts_with p (drop j s) \<and> (\<forall>l<j. \<not> starts_with p (drop l s))"
        by auto
    next
      fix j assume j: "k = Suc i + j" "j \<le> length s" "starts_with p (drop j s)" "\<forall>l<j. \<not> starts_with p (drop l s)"
      then have "\<not> starts_with p (drop l (c # s))" if "l < Suc j" for l using False that by (cases l) auto
      with j show "\<exists>j. k = i + j \<and> j \<le> length (c # s) \<and> starts_with p (drop j (c # s)) \<and>
        (\<forall>l<j. \<not> starts_with p (drop l (c # s)))" by (intro exI [of _ "Suc j"]) auto
    qed
    with False 2 show ?thesis by simp
  qed
qed

text \<open>The first occurrence, as bytes.\<close>

lemma str_find_Some:
  "str_find s p = Some k \<longleftrightarrow>
     k + length p \<le> length s \<and> take (length p) (drop k s) = p \<and> (\<forall>l<k. take (length p) (drop l s) \<noteq> p)"
proof -
  have "k \<le> length s \<and> take (length p) (drop k s) = p \<longleftrightarrow> k + length p \<le> length s \<and> take (length p) (drop k s) = p"
    by (auto dest: arg_cong [where f = length])
  then show ?thesis by (auto simp: str_find_def find_from_Some starts_with_def)
qed

section \<open>Unicode\<close>

text \<open>
  What the code asks of a character, given by its bytes: \<open>char::is_alphanumeric\<close> and the bytes of
  \<open>char::to_lowercase\<close>. \<open>char::is_whitespace\<close> and \<open>char::is_control\<close> are small enough to be written out.
\<close>

record unicode =
  uni_alphanumeric :: "string \<Rightarrow> bool"
  uni_lower :: "string \<Rightarrow> string"

definition is_whitespace :: "string \<Rightarrow> bool" where
  "is_whitespace c = (c \<in> set white_space)"

definition is_ascii_digit_char :: "string \<Rightarrow> bool" where
  "is_ascii_digit_char c = (case c of [d] \<Rightarrow> byte_in 48 57 d | _ \<Rightarrow> False)"

text \<open>\<open>char::is_control\<close>: the code points below 32, 127, and 128 to 159.\<close>

definition is_control :: "string \<Rightarrow> bool" where
  "is_control c =
     (case c of
        [a] \<Rightarrow> byte_in 0 31 a \<or> byte_in 127 127 a
      | [a, b] \<Rightarrow> byte_in 0xC2 0xC2 a \<and> byte_in 0x80 0x9F b
      | _ \<Rightarrow> False)"

text \<open>Strings joined by a separator.\<close>

definition str_join :: "string \<Rightarrow> string list \<Rightarrow> string" where
  "str_join sep xs = (case xs of [] \<Rightarrow> [] | y # ys \<Rightarrow> concat (y # map (\<lambda>x. sep @ x) ys))"

text \<open>The UTF-8 encoding of code points, to write the Russian surfaces down.\<close>

definition utf8_of :: "nat \<Rightarrow> string" where
  "utf8_of n =
     (if n < 0x80 then [char_of n]
      else if n < 0x800 then [char_of (0xC0 + n div 64), char_of (0x80 + n mod 64)]
      else if n < 0x10000
      then [char_of (0xE0 + n div 4096), char_of (0x80 + n div 64 mod 64), char_of (0x80 + n mod 64)]
      else [char_of (0xF0 + n div 262144), char_of (0x80 + n div 4096 mod 64),
            char_of (0x80 + n div 64 mod 64), char_of (0x80 + n mod 64)])"

definition utf8 :: "nat list \<Rightarrow> string" where
  "utf8 ns = concat (map utf8_of ns)"

lemma str_join_simps [simp]:
  "str_join sep [] = []" "str_join sep [x] = x" "str_join sep (x # y # ys) = x @ sep @ str_join sep (y # ys)"
  by (simp_all add: str_join_def)

text \<open>Parts without the separator are recovered from the joined text.\<close>

lemma str_join_inject:
  assumes "list_all (\<lambda>x. c \<notin> set x) xs" "list_all (\<lambda>y. c \<notin> set y) ys" "xs \<noteq> []" "ys \<noteq> []"
    and "str_join [c] xs = str_join [c] ys"
  shows "xs = ys"
  using assms
proof (induction xs arbitrary: ys)
  case (Cons x xs)
  obtain y ys' where ys: "ys = y # ys'" using Cons.prems by (cases ys) auto
  have split: "x @ c # p = y @ c # q \<Longrightarrow> x = y \<and> p = q" for p q
    using Cons.prems(1,2) ys by (metis list.pred_inject(2) split_once_append option.inject prod.inject)
  show ?case
  proof (cases xs; cases ys')
    assume e: "xs = []" "ys' = []"
    with Cons.prems ys show ?thesis by simp
  next
    fix z zs assume e: "xs = []" "ys' = z # zs"
    with Cons.prems ys have "c \<in> set x" by simp
    with Cons.prems show ?thesis by simp
  next
    fix z zs assume e: "xs = z # zs" "ys' = []"
    with Cons.prems ys have "c \<in> set y" by (metis append_is_Nil_conv in_set_conv_decomp str_join_simps(2,3) append_Cons append_Nil)
    with Cons.prems ys show ?thesis by simp
  next
    fix z zs w ws assume e: "xs = z # zs" "ys' = w # ws"
    with Cons.prems(5) ys split have "x = y" "str_join [c] xs = str_join [c] ys'" by auto
    with Cons.IH [of ys'] Cons.prems ys e show ?thesis by simp
  qed
qed simp

section \<open>Characters by number\<close>

text \<open>Where a character starts, and slices from one character to another.\<close>

definition char_start :: "string list \<Rightarrow> nat \<Rightarrow> nat" where
  "char_start xs i = length (concat (take i xs))"

lemma char_start_Suc: "k < length xs \<Longrightarrow> char_start xs (Suc k) = char_start xs k + length (xs ! k)"
  by (simp add: char_start_def take_Suc_conv_app_nth)

lemma char_start_mono: "i \<le> j \<Longrightarrow> char_start xs i \<le> char_start xs j"
proof -
  assume "i \<le> j"
  then have "take j xs = take i xs @ take (j - i) (drop i xs)" by (metis le_add_diff_inverse take_add)
  then show ?thesis by (simp add: char_start_def)
qed

lemma char_start_less: "[] \<notin> set xs \<Longrightarrow> i < j \<Longrightarrow> j \<le> length xs \<Longrightarrow> char_start xs i < char_start xs j"
proof -
  assume a: "[] \<notin> set xs" "i < j" "j \<le> length xs"
  then have "xs ! i \<noteq> []" by (metis less_le_trans nth_mem)
  with a have "char_start xs i < char_start xs (Suc i)" by (simp add: char_start_Suc)
  with a char_start_mono [of "Suc i" j xs] show ?thesis by simp
qed

lemma char_indices_nth:
  assumes "i < length (str_chars s)"
  shows "char_indices s ! i = (char_start (str_chars s) i, str_chars s ! i)"
proof -
  let ?pre = "take i (char_indices s)" and ?jc = "char_indices s ! i" and ?post = "drop (Suc i) (char_indices s)"
  have i: "i < length (char_indices s)" using assms by (simp add: str_chars_def)
  then have split: "char_indices s = ?pre @ (fst ?jc, snd ?jc) # ?post" by (simp add: id_take_nth_drop)
  from char_indices_split(6) [OF split] have "concat (map snd ?pre) = take (fst ?jc) s"
    by (simp only: char_indices_def chars_from_concat)
  moreover from char_indices_split(5) [OF split] have "fst ?jc \<le> length s" by simp
  moreover have "map snd ?pre = take i (str_chars s)" by (simp add: str_chars_def take_map)
  ultimately have "fst ?jc = char_start (str_chars s) i" by (simp add: char_start_def)
  moreover have "snd ?jc = str_chars s ! i" using i by (simp add: str_chars_def)
  ultimately show ?thesis by (metis prod.collapse)
qed

lemma str_get_chars:
  assumes "i \<le> j" "j \<le> length (str_chars s)"
  shows "str_get s (char_start (str_chars s) i) (char_start (str_chars s) j) = Some (concat (take (j - i) (drop i (str_chars s))))"
proof -
  let ?xs = "str_chars s"
  have "?xs = take i ?xs @ take (j - i) (drop i ?xs) @ drop j ?xs"
    using assms by (metis append_assoc append_take_drop_id le_add_diff_inverse take_add)
  note cut = str_get_cut [OF this]
  have "char_start ?xs j = char_start ?xs i + length (concat (take (j - i) (drop i ?xs)))"
    using assms by (simp add: char_start_def) (metis concat_append le_add_diff_inverse length_append take_add)
  with cut show ?thesis by (simp add: char_start_def)
qed

lemma str_chars_slice:
  assumes "i \<le> j" "j \<le> length (str_chars s)"
  shows "str_chars (concat (take (j - i) (drop i (str_chars s)))) = take (j - i) (drop i (str_chars s))"
proof -
  let ?xs = "str_chars s"
  have "?xs = (take i ?xs @ take (j - i) (drop i ?xs)) @ drop j ?xs"
    using assms by (metis append_take_drop_id le_add_diff_inverse take_add)
  from str_chars_cut(1) [OF this] have "str_chars (concat (take i ?xs @ take (j - i) (drop i ?xs))) =
      take i ?xs @ take (j - i) (drop i ?xs)" .
  from str_chars_cut(2) [OF this] show ?thesis .
qed

section \<open>Well-formed UTF-8\<close>

text \<open>Characters as UTF-8 cuts them: one byte of ASCII, or a lead byte with its continuation.\<close>

definition utf8_char :: "string \<Rightarrow> bool" where
  "utf8_char c = ((\<exists>a. c = [a] \<and> (of_char a :: nat) < 128) \<or> (\<exists>a w. c = a # w \<and> w \<noteq> [] \<and> (of_char a :: nat) \<ge> 128 \<and> list_all cont w))"

lemma utf8_ok_first:
  "utf8_ok (a # s) \<Longrightarrow> byte_in 0 0x7F a \<or> byte_in 0xC2 0xDF a \<or> byte_in 0xE0 0xEF a \<or> byte_in 0xF0 0xF4 a"
  by (subst (asm) utf8_ok.simps) (auto simp del: utf8_ok.simps split: list.splits if_splits)

lemma utf8_ok_head: "utf8_ok s \<Longrightarrow> s \<noteq> [] \<Longrightarrow> \<not> cont (hd s)"
  using utf8_ok_first [of "hd s" "tl s"] by (auto simp: cont_def byte_in_def)

lemma utf8_ok_step:
  assumes "utf8_ok (a # s)" "\<not> byte_in 0 0x7F a"
  shows "\<exists>w r. s = w @ r \<and> w \<noteq> [] \<and> list_all cont w \<and> utf8_ok r"
proof -
  obtain b s2 where s: "s = b # s2" using assms by (cases s) auto
  consider "byte_in 0xC2 0xDF a" | "\<not> byte_in 0xC2 0xDF a" "byte_in 0xE0 0xEF a" | "\<not> byte_in 0xC2 0xDF a" "\<not> byte_in 0xE0 0xEF a"
    by blast
  then show ?thesis
  proof cases
    case 1
    then show ?thesis using assms s by (intro exI [of _ "[b]"] exI [of _ s2]) simp
  next
    case 2
    then obtain c s3 where "s2 = c # s3" using assms s by (cases s2) auto
    then show ?thesis using assms s 2 by (intro exI [of _ "[b, c]"] exI [of _ s3]) simp
  next
    case 3
    then obtain c s3 where s3: "s2 = c # s3" using assms s by (cases s2) auto
    then obtain d s4 where "s3 = d # s4" using assms s 3 by (cases s3) auto
    then show ?thesis using assms s s3 3 by (intro exI [of _ "[b, c, d]"] exI [of _ s4]) simp
  qed
qed

lemma str_chars_utf8: "utf8_ok s \<Longrightarrow> \<forall>c\<in>set (str_chars s). utf8_char c"
proof (induction s rule: length_induct)
  case (1 s)
  have cut: "takeWhile cont (w @ r) = w \<and> dropWhile cont (w @ r) = r" if "list_all cont w" "utf8_ok r" for w r
    using that utf8_ok_head [of r] by (cases r) (auto simp: takeWhile_append dropWhile_append list_all_iff)
  show ?case
  proof (cases s)
    case (Cons a t)
    obtain w r where t: "t = w @ r" "list_all cont w" "utf8_ok r" "byte_in 0 0x7F a \<longleftrightarrow> w = []"
      using utf8_ok_step [of a t] "1.prems" Cons by (cases "byte_in 0 0x7F a") auto
    then have "\<forall>c\<in>set (str_chars r). utf8_char c" using "1.IH" [rule_format, of r] Cons by simp
    with cut [OF t(2,3)] t show ?thesis by (auto simp: Cons str_chars_simps utf8_char_def byte_in_def)
  qed (simp add: str_chars_simps)
qed

lemma boundary_drop:
  assumes "is_char_boundary s p" "p \<le> length s"
  shows "drop p s = [] \<or> p = 0 \<or> \<not> cont (hd (drop p s))"
  using assms by (auto simp: is_char_boundary_def hd_drop_conv_nth)

lemma str_chars_at:
  assumes "is_char_boundary s p" "p \<le> length s"
  shows "str_chars s = str_chars (take p s) @ str_chars (drop p s)"
proof (cases "p = 0")
  case True
  then show ?thesis by (simp add: str_chars_simps)
next
  case False
  with boundary_drop [OF assms] have "drop p s = [] \<or> \<not> cont (hd (drop p s))" by blast
  from str_chars_append [OF this, of "take p s"] show ?thesis by simp
qed

lemma boundary_add:
  assumes "is_char_boundary s p" "p \<le> length s" "is_char_boundary (drop p s) q"
  shows "is_char_boundary s (p + q)"
  using assms by (auto simp: is_char_boundary_def)

text \<open>An ASCII byte of well-formed text is a character of its own.\<close>

lemma utf8_ok_append: "utf8_ok a \<Longrightarrow> utf8_ok (a @ b) = utf8_ok b"
proof (induction a rule: length_induct)
  case (1 a)
  show ?case
  proof (cases a)
    case (Cons x t)
    consider "byte_in 0 0x7F x" | "\<not> byte_in 0 0x7F x" "byte_in 0xC2 0xDF x"
      | "\<not> byte_in 0 0x7F x" "\<not> byte_in 0xC2 0xDF x" "byte_in 0xE0 0xEF x"
      | "\<not> byte_in 0 0x7F x" "\<not> byte_in 0xC2 0xDF x" "\<not> byte_in 0xE0 0xEF x" by blast
    then show ?thesis
    proof cases
      case 1
      with "1.IH" "1.prems" Cons show ?thesis by simp
    next
      case 2
      with "1.prems" Cons obtain b t2 where "t = b # t2" by (cases t) auto
      with 2 "1.IH" "1.prems" Cons show ?thesis by auto
    next
      case 3
      with "1.prems" Cons obtain b t2 where t: "t = b # t2" by (cases t) auto
      with 3 "1.prems" Cons obtain c t3 where "t2 = c # t3" by (cases t2) auto
      with t 3 "1.IH" "1.prems" Cons show ?thesis by auto
    next
      case 4
      with "1.prems" Cons obtain b t2 where t: "t = b # t2" by (cases t) auto
      with 4 "1.prems" Cons obtain c t3 where t2: "t2 = c # t3" by (cases t2) auto
      with t 4 "1.prems" Cons obtain d t4 where "t3 = d # t4" by (cases t3) auto
      with t t2 4 "1.IH" "1.prems" Cons show ?thesis by auto
    qed
  qed simp
qed

lemma utf8_ok_cons:
  assumes "utf8_ok (a # s)"
  shows "\<exists>w r. s = w @ r \<and> list_all cont w \<and> utf8_ok (a # w) \<and> utf8_ok r \<and> (w = [] \<longleftrightarrow> byte_in 0 0x7F a)"
proof (cases "byte_in 0 0x7F a")
  case True
  with assms show ?thesis by (intro exI [of _ "[]"] exI [of _ s]) simp
next
  case False
  from assms False obtain b s2 where s: "s = b # s2" by (cases s) auto
  consider "byte_in 0xC2 0xDF a" | "\<not> byte_in 0xC2 0xDF a" "byte_in 0xE0 0xEF a" | "\<not> byte_in 0xC2 0xDF a" "\<not> byte_in 0xE0 0xEF a"
    by blast
  then show ?thesis
  proof cases
    case 1
    with assms False s show ?thesis by (intro exI [of _ "[b]"] exI [of _ s2]) simp
  next
    case 2
    with assms False s obtain c s3 where "s2 = c # s3" by (cases s2) auto
    with assms False s 2 show ?thesis by (intro exI [of _ "[b, c]"] exI [of _ s3]) simp
  next
    case 3
    with assms False s obtain c s3 where s3: "s2 = c # s3" by (cases s2) auto
    with assms False s 3 obtain d s4 where "s3 = d # s4" by (cases s3) auto
    with assms False s s3 3 show ?thesis by (intro exI [of _ "[b, c, d]"] exI [of _ s4]) simp
  qed
qed

lemma utf8_ok_cut:
  assumes "utf8_ok s" "is_char_boundary s p" "p \<le> length s"
  shows "utf8_ok (take p s) \<and> utf8_ok (drop p s)"
  using assms
proof (induction s arbitrary: p rule: length_induct)
  case (1 s)
  show ?case
  proof (cases "p = 0")
    case False
    with "1.prems" obtain a t where s: "s = a # t" by (cases s) auto
    from utf8_ok_cons [OF "1.prems"(1) [unfolded s]] obtain w r where
      wr: "t = w @ r" "list_all cont w" "utf8_ok (a # w)" "utf8_ok r" by blast
    have "\<not> p \<le> length w"
    proof
      assume le: "p \<le> length w"
      then have "s ! p = w ! (p - 1)" "p < length s" using False by (auto simp: s wr(1) nth_Cons' nth_append)
      moreover have "p - 1 < length w" using le False by simp
      ultimately have "cont (s ! p)" "p < length s" using wr(2) by (auto simp: list_all_length)
      with "1.prems"(2) False show False by (simp add: is_char_boundary_def)
    qed
    then obtain q where q: "p = Suc (length w) + q" by (metis Suc_leI not_le le_iff_add)
    have "is_char_boundary r q" "q \<le> length r"
      using "1.prems"(2,3) q by (auto simp: s wr(1) is_char_boundary_def nth_append)
    moreover have "length r < length s" by (simp add: s wr(1))
    ultimately have "utf8_ok (take q r) \<and> utf8_ok (drop q r)" using "1.IH" wr(4) by blast
    moreover have "take p s = (a # w) @ take q r" "drop p s = drop q r" by (simp_all add: s wr(1) q)
    ultimately show ?thesis using utf8_ok_append [OF wr(3)] by metis
  qed (use "1.prems" in simp)
qed

lemma boundary_after_ascii:
  assumes "utf8_ok s" "i < length s" "(of_char (s ! i) :: nat) < 128"
  shows "is_char_boundary s i \<and> is_char_boundary s (Suc i)"
proof -
  have i: "is_char_boundary s i" using assms by (auto simp: is_char_boundary_def cont_def byte_in_def)
  from utf8_ok_cut [OF assms(1) i] assms(2) have ok: "utf8_ok (s ! i # drop (Suc i) s)"
    by (simp add: Cons_nth_drop_Suc)
  have "byte_in 0 0x7F (s ! i)" using assms(3) by (simp add: byte_in_def)
  with ok have "utf8_ok (drop (Suc i) s)" by simp
  then have "Suc i < length s \<Longrightarrow> \<not> cont (s ! Suc i)" using utf8_ok_head [of "drop (Suc i) s"] by (simp add: hd_drop_conv_nth)
  moreover have "Suc i = length s \<or> Suc i < length s" using assms(2) by auto
  ultimately show ?thesis using i by (auto simp: is_char_boundary_def)
qed

lemma prefix_boundary:
  assumes "utf8_ok s" "is_char_boundary s p" "p \<le> length s" "starts_with w (drop p s)" "utf8_ok w"
  shows "p + length w \<le> length s \<and> is_char_boundary s (p + length w)"
proof -
  from assms(4) obtain r where r: "drop p s = w @ r" unfolding starts_with_def by (metis append_take_drop_id)
  from utf8_ok_cut [OF assms(1-3)] r utf8_ok_append [OF assms(5)] have "utf8_ok r" by simp
  then have "r = [] \<or> \<not> cont (hd r)" using utf8_ok_head by blast
  then have "is_char_boundary (drop p s) (length w)" unfolding r by (cases r) (auto simp: is_char_boundary_def)
  moreover have "length (drop p s) = length w + length r" using r by simp
  ultimately show ?thesis using boundary_add [OF assms(2,3)] assms(3) by simp
qed

end
