(* ===== verification/LN_Context.thy ===== *)
theory LN_Context
  imports LN_Text "HOL-Library.Product_Lexorder"
begin

text \<open>
  The bounded document context of \<open>crates/ln-temporal/src/document_context.rs\<close>: the structure index of a document
  with its ancestor paths, the analysis overlay of frames, the resolver of context requests with its worklist, the
  four reference constructions (RC28-F12), and the detectors of self-references and edition relations. A block, a
  frame and a container are named by their numbers; a \<open>BTreeMap\<close> is an association list as for hash maps.
\<close>

section \<open>Spans and blocks\<close>

type_synonym block_id = nat
type_synonym frame_id = nat
type_synonym container_id = nat

datatype context_error = InvalidDocumentVersion | InvalidSpan | EmptyDocument | DuplicateBlock
  | NonContiguousOrder | MissingContainer | ConflictingStructure | EmptyAliasWording | UnknownFrame

definition document_version_new :: "string \<Rightarrow> context_error + string" where
  "document_version_new value = (if str_trim value = [] then Inl InvalidDocumentVersion else Inr value)"

datatype text_span = TextSpan (span_start: nat) (span_end: nat)

definition span_new :: "nat \<Rightarrow> nat \<Rightarrow> context_error + text_span" where
  "span_new s e = (if s > e then Inl InvalidSpan else Inr (TextSpan s e))"

text \<open>The derived order of spans: by start, then by end.\<close>

definition span_key :: "text_span \<Rightarrow> nat \<times> nat" where
  "span_key s = (span_start s, span_end s)"

lemma span_key_inject [simp]: "span_key a = span_key b \<longleftrightarrow> a = b"
  by (cases a; cases b) (simp add: span_key_def)

instantiation text_span :: linorder
begin

definition less_eq_text_span :: "text_span \<Rightarrow> text_span \<Rightarrow> bool" where
  "less_eq_text_span a b = (span_key a \<le> span_key b)"

definition less_text_span :: "text_span \<Rightarrow> text_span \<Rightarrow> bool" where
  "less_text_span a b = (span_key a < span_key b)"

instance
  by standard (auto simp: less_eq_text_span_def less_text_span_def less_le_not_le linear)

end

text \<open>An anchor as the identifiers of candidates write it, \<open>block:start-end\<close>; the text determines the anchor.\<close>

definition anchor_text :: "block_id \<Rightarrow> text_span \<Rightarrow> string" where
  "anchor_text block span = show_nat block @ '':'' @ show_nat (span_start span) @ ''-'' @ show_nat (span_end span)"

lemma show_nat_chars: "c \<in> set (show_nat n) \<Longrightarrow> c \<notin> {CHR '':'', CHR ''-'', CHR ''|''}"
  by (auto dest!: show_nat_digits dest: arg_cong [where f = "of_char :: char \<Rightarrow> nat"] simp: of_char_digit)

lemma anchor_text_inject: "anchor_text b s = anchor_text b' s' \<longleftrightarrow> b = b' \<and> s = s'"
proof
  assume eq: "anchor_text b s = anchor_text b' s'"
  have colon: "CHR '':'' \<notin> set (show_nat n)" and dash: "CHR ''-'' \<notin> set (show_nat n)" for n
    using show_nat_chars by blast+
  from eq have "split_once CHR '':'' (anchor_text b s) = split_once CHR '':'' (anchor_text b' s')" by simp
  then have "show_nat b = show_nat b'"
    "show_nat (span_start s) @ ''-'' @ show_nat (span_end s) = show_nat (span_start s') @ ''-'' @ show_nat (span_end s')"
    by (simp_all add: anchor_text_def colon)
  with append_Cons_eq_iff [OF dash dash] show "b = b' \<and> s = s'" by (cases s; cases s') simp
qed simp

lemma anchor_text_no_bar: "CHR ''|'' \<notin> set (anchor_text b s)"
  using show_nat_chars by (auto simp: anchor_text_def)

lemma anchor_list_inject:
  assumes "str_join ''|'' (map (\<lambda>(b, s). anchor_text b s) xs) = str_join ''|'' (map (\<lambda>(b, s). anchor_text b s) ys)"
    "xs \<noteq> []" "ys \<noteq> []"
  shows "xs = ys"
proof -
  have "map (\<lambda>(b, s). anchor_text b s) xs = map (\<lambda>(b, s). anchor_text b s) ys"
    by (rule str_join_inject [of "CHR ''|''"]) (use assms in \<open>auto simp: list_all_iff anchor_text_no_bar\<close>)
  then show ?thesis
    by (rule map_injective) (auto simp: inj_def anchor_text_inject)
qed

record source_block =
  sb_id :: block_id
  sb_order :: nat
  sb_text :: string

datatype container_role = CDocument | CSection | CArticle | CRequisites

record container =
  ct_id :: container_id
  ct_role :: container_role
  ct_parent :: "container_id option"

record structure_index =
  si_version :: string
  si_blocks :: "source_block list"
  si_containers :: "container list"
  si_membership :: "(block_id, container_id) hashmap"

text \<open>\<open>DocumentStructureIndex::build\<close>: the loop over the blocks and the two checks of the containers.\<close>

fun check_blocks :: "nat \<Rightarrow> block_id list \<Rightarrow> source_block list \<Rightarrow> context_error + unit" where
  "check_blocks expected ids [] = Inr ()"
| "check_blocks expected ids (b # bs) =
     (if sb_id b \<in> set ids then Inl DuplicateBlock
      else if sb_order b \<noteq> expected then Inl NonContiguousOrder
      else check_blocks (Suc expected) (sb_id b # ids) bs)"

definition has_container :: "container list \<Rightarrow> container_id \<Rightarrow> bool" where
  "has_container cs i = list_ex (\<lambda>c. ct_id c = i) cs"

definition index_build :: "string \<Rightarrow> source_block list \<Rightarrow> container list \<Rightarrow> (block_id, container_id) hashmap \<Rightarrow>
    context_error + structure_index" where
  "index_build version blocks containers membership =
     (if blocks = [] then Inl EmptyDocument
      else case check_blocks 0 [] blocks of
        Inl e \<Rightarrow> Inl e
      | Inr _ \<Rightarrow>
          if list_ex (\<lambda>c. case ct_parent c of None \<Rightarrow> False | Some p \<Rightarrow> \<not> has_container containers p) containers
          then Inl MissingContainer
          else if list_ex (\<lambda>b. b \<notin> set (map sb_id blocks)) (hm_keys membership) \<or>
            list_ex (\<lambda>c. \<not> has_container containers c) (map snd membership)
          then Inl MissingContainer
          else Inr \<lparr>si_version = version, si_blocks = blocks, si_containers = containers,
            si_membership = membership\<rparr>)"

text \<open>
  The loop of \<open>ancestor_path\<close>. The set \<open>seen\<close> of the code is the set of the path so far, so a path that does not
  repeat ends because it stays within the containers.
\<close>

definition find_container :: "container list \<Rightarrow> container_id \<Rightarrow> container option" where
  "find_container cs i = find (\<lambda>c. ct_id c = i) cs"

lemma find_container_mem: "find_container cs i = Some c \<Longrightarrow> c \<in> set cs \<and> ct_id c = i"
  by (auto simp: find_container_def dest: find_Some_in)

function ancestor_loop :: "container list \<Rightarrow> container_id list \<Rightarrow> container_id \<Rightarrow> context_error + container_id list" where
  "ancestor_loop cs path current =
     (if current \<in> set path then Inl ConflictingStructure
      else case find_container cs current of
        None \<Rightarrow> Inl MissingContainer
      | Some c \<Rightarrow>
          (case ct_parent c of
             None \<Rightarrow> Inr (path @ [current])
           | Some parent \<Rightarrow> ancestor_loop cs (path @ [current]) parent))"
  by pat_completeness auto
termination
proof (relation "measure (\<lambda>(cs, path, current). card (ct_id ` set cs - set path))")
  fix cs path current c parent
  assume "current \<notin> set path" "find_container cs current = Some c" "ct_parent c = Some parent"
  then have "current \<in> ct_id ` set cs - set path" by (auto dest: find_container_mem)
  moreover have "ct_id ` set cs - set (path @ [current]) = ct_id ` set cs - set path - {current}" by auto
  ultimately show "((cs, path @ [current], parent), cs, path, current)
      \<in> measure (\<lambda>(cs, path, current). card (ct_id ` set cs - set path))"
    using card_Diff1_less [of "ct_id ` set cs - set path" current] by (simp del: set_append card_Diff_insert)
qed simp

declare ancestor_loop.simps [simp del]

definition ancestor_path :: "structure_index \<Rightarrow> block_id \<Rightarrow> context_error + container_id list" where
  "ancestor_path index block =
     (case hm_get (si_membership index) block of
        None \<Rightarrow> Inl MissingContainer
      | Some current \<Rightarrow> ancestor_loop (si_containers index) [] current)"

definition abs_diff :: "nat \<Rightarrow> nat \<Rightarrow> nat" where
  "abs_diff a b = (if a \<le> b then b - a else a - b)"

definition adjacent :: "structure_index \<Rightarrow> block_id \<Rightarrow> nat \<Rightarrow> block_id list" where
  "adjacent index block radius =
     (case find (\<lambda>b. sb_id b = block) (si_blocks index) of
        None \<Rightarrow> []
      | Some source \<Rightarrow>
          map sb_id (filter (\<lambda>b. sb_id b \<noteq> block \<and> abs_diff (sb_order b) (sb_order source) \<le> radius)
            (si_blocks index)))"

section \<open>Self-references\<close>

record this_ref =
  tr_span :: text_span
  tr_surface :: string

text \<open>
  The six genitive surfaces of \<open>detect_this_ref\<close>, in the order of the code: of this Federal Law, of this Law, of this
  order, of this Procedure, of this regulation, of this article.
\<close>

definition this_ref_surfaces :: "string list" where
  "this_ref_surfaces =
     [utf8 [0x43D, 0x430, 0x441, 0x442, 0x43E, 0x44F, 0x449, 0x435, 0x433, 0x43E, 0x20, 0x424, 0x435, 0x434, 0x435,
      0x440, 0x430, 0x43B, 0x44C, 0x43D, 0x43E, 0x433, 0x43E, 0x20, 0x437, 0x430, 0x43A, 0x43E, 0x43D, 0x430],
      utf8 [0x43D, 0x430, 0x441, 0x442, 0x43E, 0x44F, 0x449, 0x435, 0x433, 0x43E, 0x20, 0x417, 0x430, 0x43A, 0x43E,
      0x43D, 0x430],
      utf8 [0x43D, 0x430, 0x441, 0x442, 0x43E, 0x44F, 0x449, 0x435, 0x433, 0x43E, 0x20, 0x43F, 0x440, 0x438, 0x43A,
      0x430, 0x437, 0x430],
      utf8 [0x43D, 0x430, 0x441, 0x442, 0x43E, 0x44F, 0x449, 0x435, 0x433, 0x43E, 0x20, 0x41F, 0x43E, 0x440, 0x44F,
      0x434, 0x43A, 0x430],
      utf8 [0x43D, 0x430, 0x441, 0x442, 0x43E, 0x44F, 0x449, 0x435, 0x433, 0x43E, 0x20, 0x43F, 0x43E, 0x43B, 0x43E,
      0x436, 0x435, 0x43D, 0x438, 0x44F],
      utf8 [0x43D, 0x430, 0x441, 0x442, 0x43E, 0x44F, 0x449, 0x435, 0x439, 0x20, 0x441, 0x442, 0x430, 0x442, 0x44C,
      0x438]]"

definition detect_this_ref :: "string \<Rightarrow> this_ref list" where
  "detect_this_ref s =
     List.map_filter
       (\<lambda>surface. case str_find s surface of
          None \<Rightarrow> None
        | Some k \<Rightarrow>
            (case span_new k (k + length surface) of
               Inl _ \<Rightarrow> None
             | Inr sp \<Rightarrow> Some \<lparr>tr_span = sp, tr_surface = surface\<rparr>))
       this_ref_surfaces"

section \<open>The analysis overlay\<close>

record frame =
  fr_id :: frame_id
  fr_block :: block_id
  fr_opens_series :: bool
  fr_continues :: bool

record scoped_alias =
  sa_wording :: string
  sa_scope :: nat
  sa_frame :: frame_id
  sa_anchor :: text_span

definition scoped_alias_new :: "string \<Rightarrow> nat \<Rightarrow> frame_id \<Rightarrow> text_span \<Rightarrow> context_error + scoped_alias" where
  "scoped_alias_new wording scope frame anchor =
     (if str_trim wording = [] then Inl EmptyAliasWording
      else if span_start anchor = span_end anchor then Inl InvalidSpan
      else Inr \<lparr>sa_wording = wording, sa_scope = scope, sa_frame = frame, sa_anchor = anchor\<rparr>)"

record overlay =
  ov_frames :: "frame list"
  ov_aliases :: "(string, frame_id) hashmap"
  ov_heads :: "(frame_id, frame_id list) hashmap"
  ov_declarations :: "scoped_alias list"

definition overlay_new :: "frame list \<Rightarrow> (string, frame_id) hashmap \<Rightarrow> (frame_id, frame_id list) hashmap \<Rightarrow>
    context_error + overlay" where
  "overlay_new frames aliases heads =
     (let ids = map fr_id frames in
      if length (remdups ids) \<noteq> length frames \<or> list_ex (\<lambda>i. i \<notin> set ids) (concat (map snd heads))
      then Inl ConflictingStructure
      else Inr \<lparr>ov_frames = frames, ov_aliases = aliases, ov_heads = heads, ov_declarations = []\<rparr>)"

definition with_scoped_aliases :: "overlay \<Rightarrow> scoped_alias list \<Rightarrow> context_error + overlay" where
  "with_scoped_aliases ov declarations =
     (if list_ex (\<lambda>d. sa_frame d \<notin> set (map fr_id (ov_frames ov))) declarations then Inl UnknownFrame
      else Inr (ov\<lparr>ov_declarations := declarations\<rparr>))"

definition continuation_heads :: "overlay \<Rightarrow> frame_id \<Rightarrow> frame_id list" where
  "continuation_heads ov f = (case hm_get (ov_heads ov) f of None \<Rightarrow> [] | Some hs \<Rightarrow> hs)"

definition overlay_frame :: "overlay \<Rightarrow> frame_id \<Rightarrow> frame option" where
  "overlay_frame ov i = find (\<lambda>f. fr_id f = i) (ov_frames ov)"

section \<open>Context requests\<close>

datatype request_kind = AncestorPath | AdjacentBlocks | OpenSeriesHead | ScopedAlias
  | CurrentDocumentRequisites | ExplicitAnchorLookup

record context_request =
  cr_kind :: request_kind
  cr_origin :: frame_id
  cr_key :: "string option"
  cr_scope :: "nat option"
  cr_path :: "frame_id list"
  cr_evidence :: "this_ref list"

definition request_new :: "request_kind \<Rightarrow> frame_id \<Rightarrow> context_request" where
  "request_new kind origin =
     \<lparr>cr_kind = kind, cr_origin = origin, cr_key = None, cr_scope = None, cr_path = [], cr_evidence = []\<rparr>"

datatype terminal = TResolved | TPartial | TConflicting | TUnavailable | TCycle | TLimit

record context_result =
  cx_terminal :: terminal
  cx_provenance :: "string list"
  cx_candidates :: "frame_id list"

record context_run =
  rn_results :: "(context_request, context_result) hashmap"
  rn_steps :: nat
  rn_memo_hits :: nat

definition context_outcome :: "terminal \<Rightarrow> string list \<Rightarrow> frame_id list \<Rightarrow> context_result" where
  "context_outcome t p cs = \<lparr>cx_terminal = t, cx_provenance = p, cx_candidates = cs\<rparr>"

text \<open>\<open>resolve\<close>. The number of the origin frame is read as a block number for ancestors and neighbours.\<close>

definition resolve :: "context_request \<Rightarrow> structure_index \<Rightarrow> overlay \<Rightarrow> bool \<Rightarrow> nat \<Rightarrow> context_result" where
  "resolve request index ov requisites_available max_steps =
     (let provenance = [''document:'' @ si_version index, ''frame:'' @ show_nat (cr_origin request)] in
      if cr_origin request \<in> set (cr_path request) then context_outcome TCycle provenance []
      else if max_steps = 0 then context_outcome TLimit provenance []
      else case cr_kind request of
        AncestorPath \<Rightarrow>
          (case ancestor_path index (cr_origin request) of
             Inr path \<Rightarrow> context_outcome TResolved (map (\<lambda>x. ''container:'' @ show_nat x) path) []
           | Inl _ \<Rightarrow> context_outcome TUnavailable provenance [])
      | AdjacentBlocks \<Rightarrow>
          (let candidates = adjacent index (cr_origin request) 1 in
           context_outcome (if candidates = [] then TUnavailable else TResolved) provenance candidates)
      | OpenSeriesHead \<Rightarrow>
          (let candidates = continuation_heads ov (cr_origin request) in
           context_outcome
             (case length candidates of 0 \<Rightarrow> TUnavailable | Suc 0 \<Rightarrow> TResolved | _ \<Rightarrow> TConflicting)
             provenance candidates)
      | CurrentDocumentRequisites \<Rightarrow>
          context_outcome
            (if \<not> requisites_available then TUnavailable
             else if cr_evidence request = [] then TPartial
             else TResolved) provenance []
      | ScopedAlias \<Rightarrow>
          context_outcome (if cr_key request \<noteq> None then TResolved else TUnavailable) provenance []
      | ExplicitAnchorLookup \<Rightarrow>
          context_outcome (if cr_key request \<noteq> None then TResolved else TUnavailable) provenance [])"

text \<open>\<open>run_worklist\<close>: one pass over the requests with a memo and a step budget.\<close>

definition limit_reached :: context_result where
  "limit_reached = context_outcome TLimit [''diagnostic:context_query_limit_reached''] []"

definition worklist_step :: "structure_index \<Rightarrow> overlay \<Rightarrow> bool \<Rightarrow> nat \<Rightarrow> context_request \<Rightarrow> context_run \<Rightarrow>
    context_run" where
  "worklist_step index ov requisites_available max_steps request run =
     (if hm_contains (rn_results run) request then run\<lparr>rn_memo_hits := rn_memo_hits run + 1\<rparr>
      else if rn_steps run \<ge> max_steps
      then run\<lparr>rn_results := hm_insert request limit_reached (rn_results run)\<rparr>
      else let steps = rn_steps run + 1 in
        run\<lparr>rn_steps := steps,
          rn_results := hm_insert request (resolve request index ov requisites_available (max_steps - steps))
            (rn_results run)\<rparr>)"

definition run_worklist :: "context_request list \<Rightarrow> structure_index \<Rightarrow> overlay \<Rightarrow> bool \<Rightarrow> nat \<Rightarrow> context_run" where
  "run_worklist requests index ov requisites_available max_steps =
     fold (worklist_step index ov requisites_available max_steps) requests
       \<lparr>rn_results = [], rn_steps = 0, rn_memo_hits = 0\<rparr>"

section \<open>Reference constructions\<close>

datatype reference_construction = CurrentDocumentSelf | EarlierCitedAct | DeclaredScopedAlias | CoordinatingHead

datatype construction_abstention = MissingSelfEvidence | MissingRequisites | MissingAntecedent
  | AntecedentNotEarlier | AnchorOutOfBlock | UndeclaredAlias | MissingAliasWording

record source_anchor =
  an_block :: block_id
  an_span :: text_span

definition source_anchor_new :: "block_id \<Rightarrow> text_span \<Rightarrow> context_error + source_anchor" where
  "source_anchor_new block span =
     (if span_start span = span_end span then Inl InvalidSpan else Inr \<lparr>an_block = block, an_span = span\<rparr>)"

record construction_request =
  kr_construction :: reference_construction
  kr_origin :: frame_id
  kr_scope :: nat
  kr_key :: "string option"
  kr_anchor :: "source_anchor option"
  kr_explicit_target :: "frame_id option"
  kr_evidence :: "this_ref list"

definition construction_request_new :: "reference_construction \<Rightarrow> frame_id \<Rightarrow> nat \<Rightarrow> construction_request" where
  "construction_request_new construction origin scope =
     \<lparr>kr_construction = construction, kr_origin = origin, kr_scope = scope, kr_key = None, kr_anchor = None,
      kr_explicit_target = None, kr_evidence = []\<rparr>"

datatype construction_outcome =
    CResolved reference_construction frame_id "text_span list"
  | CConflicting reference_construction "frame_id list" "text_span list"
  | COutOfScope reference_construction string
  | CUnproven reference_construction construction_abstention

fun outcome_construction :: "construction_outcome \<Rightarrow> reference_construction" where
  "outcome_construction (CResolved c _ _) = c"
| "outcome_construction (CConflicting c _ _) = c"
| "outcome_construction (COutOfScope c _) = c"
| "outcome_construction (CUnproven c _) = c"

fun outcome_terminal :: "construction_outcome \<Rightarrow> terminal" where
  "outcome_terminal (CResolved _ _ _) = TResolved"
| "outcome_terminal (CConflicting _ _ _) = TConflicting"
| "outcome_terminal (COutOfScope _ _) = TUnavailable"
| "outcome_terminal (CUnproven _ _) = TPartial"

fun outcome_is_resolved :: "construction_outcome \<Rightarrow> bool" where
  "outcome_is_resolved (CResolved _ _ _) = True"
| "outcome_is_resolved _ = False"

definition frame_order :: "structure_index \<Rightarrow> overlay \<Rightarrow> frame_id \<Rightarrow> nat option" where
  "frame_order index ov f =
     (case overlay_frame ov f of
        None \<Rightarrow> None
      | Some fr \<Rightarrow> map_option sb_order (find (\<lambda>b. sb_id b = fr_block fr) (si_blocks index)))"

definition frame_source :: "structure_index \<Rightarrow> overlay \<Rightarrow> frame_id \<Rightarrow> string option" where
  "frame_source index ov f =
     (case overlay_frame ov f of
        None \<Rightarrow> None
      | Some fr \<Rightarrow> map_option sb_text (find (\<lambda>b. sb_id b = fr_block fr) (si_blocks index)))"

definition anchor_is_source_backed :: "string \<Rightarrow> text_span \<Rightarrow> bool" where
  "anchor_is_source_backed s anchor =
     (span_start anchor < span_end anchor \<and> span_end anchor \<le> length s \<and>
      is_char_boundary s (span_start anchor) \<and> is_char_boundary s (span_end anchor))"

text \<open>The four arms of \<open>resolve_construction\<close>.\<close>

definition resolve_self :: "construction_request \<Rightarrow> bool \<Rightarrow> construction_outcome" where
  "resolve_self request requisites_available =
     (if \<not> requisites_available then CUnproven CurrentDocumentSelf MissingRequisites
      else if kr_evidence request = [] then CUnproven CurrentDocumentSelf MissingSelfEvidence
      else CResolved CurrentDocumentSelf (kr_origin request) (map tr_span (kr_evidence request)))"

definition resolve_earlier :: "construction_request \<Rightarrow> structure_index \<Rightarrow> overlay \<Rightarrow> construction_outcome" where
  "resolve_earlier request index ov =
     (case kr_explicit_target request of
        None \<Rightarrow> CUnproven EarlierCitedAct MissingAntecedent
      | Some target \<Rightarrow>
          if overlay_frame ov target = None then CUnproven EarlierCitedAct MissingAntecedent
          else case kr_anchor request of
            None \<Rightarrow> CUnproven EarlierCitedAct AnchorOutOfBlock
          | Some anchor \<Rightarrow>
              (case frame_source index ov target of
                 None \<Rightarrow> CUnproven EarlierCitedAct MissingAntecedent
               | Some target_text \<Rightarrow>
                   if map_option fr_block (overlay_frame ov target) \<noteq> Some (an_block anchor) \<or>
                     \<not> anchor_is_source_backed target_text (an_span anchor)
                   then CUnproven EarlierCitedAct AnchorOutOfBlock
                   else case (frame_order index ov target, frame_order index ov (kr_origin request)) of
                     (Some target_order, Some origin_order) \<Rightarrow>
                       if target_order \<ge> origin_order then CUnproven EarlierCitedAct AntecedentNotEarlier
                       else CResolved EarlierCitedAct target [an_span anchor]
                   | _ \<Rightarrow> CUnproven EarlierCitedAct MissingAntecedent))"

definition resolve_alias :: "construction_request \<Rightarrow> overlay \<Rightarrow> construction_outcome" where
  "resolve_alias request ov =
     (case kr_key request of
        None \<Rightarrow> CUnproven DeclaredScopedAlias MissingAliasWording
      | Some wording \<Rightarrow>
          let matching = filter (\<lambda>d. sa_wording d = wording) (ov_declarations ov) in
          if matching = [] then CUnproven DeclaredScopedAlias UndeclaredAlias
          else case filter (\<lambda>d. sa_scope d = kr_scope request) matching of
            [] \<Rightarrow> COutOfScope DeclaredScopedAlias wording
          | [d] \<Rightarrow> CResolved DeclaredScopedAlias (sa_frame d) [sa_anchor d]
          | ds \<Rightarrow> CConflicting DeclaredScopedAlias (map sa_frame ds) (map sa_anchor ds))"

definition resolve_head :: "construction_request \<Rightarrow> overlay \<Rightarrow> construction_outcome" where
  "resolve_head request ov =
     (case continuation_heads ov (kr_origin request) of
        [] \<Rightarrow> CUnproven CoordinatingHead MissingAntecedent
      | [h] \<Rightarrow> CResolved CoordinatingHead h []
      | hs \<Rightarrow> CConflicting CoordinatingHead hs [])"

definition resolve_construction :: "construction_request \<Rightarrow> structure_index \<Rightarrow> overlay \<Rightarrow> bool \<Rightarrow>
    construction_outcome" where
  "resolve_construction request index ov requisites_available =
     (case kr_construction request of
        CurrentDocumentSelf \<Rightarrow> resolve_self request requisites_available
      | EarlierCitedAct \<Rightarrow> resolve_earlier request index ov
      | DeclaredScopedAlias \<Rightarrow> resolve_alias request ov
      | CoordinatingHead \<Rightarrow> resolve_head request ov)"

section \<open>Edition relations\<close>

record edition_relation =
  er_anchor :: text_span
  er_surface :: string

text \<open>\<open>match_surface_case_insensitive\<close>: the loop over the characters of the surface with the cursor.\<close>

fun match_surface :: "unicode \<Rightarrow> string \<Rightarrow> nat \<Rightarrow> string list \<Rightarrow> nat option" where
  "match_surface u s cursor [] = Some cursor"
| "match_surface u s cursor (e # es) =
     (case str_get s cursor (length s) of
        None \<Rightarrow> None
      | Some rest \<Rightarrow>
          (case first_char rest of
             None \<Rightarrow> None
           | Some actual \<Rightarrow>
               if uni_lower u actual = uni_lower u e then match_surface u s (cursor + length actual) es else None))"

definition boundary_before :: "unicode \<Rightarrow> string \<Rightarrow> nat \<Rightarrow> bool" where
  "boundary_before u s start =
     (case Option.bind (str_get s 0 start) last_char of None \<Rightarrow> True | Some c \<Rightarrow> \<not> uni_alphanumeric u c)"

definition boundary_after :: "unicode \<Rightarrow> string \<Rightarrow> nat \<Rightarrow> bool" where
  "boundary_after u s e =
     (case Option.bind (str_get s e (length s)) first_char of None \<Rightarrow> True | Some c \<Rightarrow> \<not> uni_alphanumeric u c)"

text \<open>The two surfaces, \<open>v red.\<close> and \<open>v redaktsii\<close> in Cyrillic letters.\<close>

definition edition_surfaces :: "string list" where
  "edition_surfaces =
     [utf8 [0x432, 0x20, 0x440, 0x435, 0x434, 0x2E],
      utf8 [0x432, 0x20, 0x440, 0x435, 0x434, 0x430, 0x43A, 0x446, 0x438, 0x438]]"

definition edition_at :: "unicode \<Rightarrow> string \<Rightarrow> nat \<Rightarrow> string \<Rightarrow> edition_relation option option" where
  "edition_at u s start surface =
     (case match_surface u s start (str_chars surface) of
        None \<Rightarrow> Some None
      | Some e \<Rightarrow>
          if \<not> boundary_before u s start \<or> \<not> boundary_after u s e then Some None
          else case span_new start e of
            Inl _ \<Rightarrow> Some None
          | Inr anchor \<Rightarrow>
              (case str_get s start e of
                 None \<Rightarrow> None
               | Some surf \<Rightarrow> Some (Some \<lparr>er_anchor = anchor, er_surface = surf\<rparr>)))"

definition detect_edition_relations :: "unicode \<Rightarrow> string \<Rightarrow> edition_relation list option" where
  "detect_edition_relations u s =
     map_option (\<lambda>found. remdups_adj (sort_key (\<lambda>c. span_key (er_anchor c)) (List.map_filter (\<lambda>x. x) found)))
       (those (concat (map (\<lambda>(start, _). map (edition_at u s start) edition_surfaces) (char_indices s))))"

section \<open>Ancestor paths\<close>

text \<open>A path of containers from child to parent that ends in a root: the first container with a number counts.\<close>

inductive parent_chain :: "container list \<Rightarrow> container_id \<Rightarrow> container_id list \<Rightarrow> bool" for cs where
  chain_root: "find_container cs i = Some c \<Longrightarrow> ct_parent c = None \<Longrightarrow> parent_chain cs i [i]"
| chain_step: "find_container cs i = Some c \<Longrightarrow> ct_parent c = Some p \<Longrightarrow> parent_chain cs p path \<Longrightarrow>
    parent_chain cs i (i # path)"

inductive_cases parent_chain_cases: "parent_chain cs i path"

lemma parent_chain_unique: "parent_chain cs i p \<Longrightarrow> parent_chain cs i q \<Longrightarrow> p = q"
proof (induction arbitrary: q rule: parent_chain.induct)
  case (chain_root i c)
  from chain_root.prems show ?case by (rule parent_chain_cases) (use chain_root.hyps in auto)
next
  case (chain_step i c p path)
  from chain_step.prems show ?case
  proof (rule parent_chain_cases)
    fix c' p' path' assume "q = i # path'" "find_container cs i = Some c'" "ct_parent c' = Some p'" "parent_chain cs p' path'"
    with chain_step.hyps chain_step.IH [of path'] show ?thesis by simp
  qed (use chain_step.hyps in simp)
qed

lemma parent_chain_suffix: "parent_chain cs i p \<Longrightarrow> j \<in> set p \<Longrightarrow> \<exists>q r. p = q @ r \<and> parent_chain cs j r"
proof (induction rule: parent_chain.induct)
  case (chain_root i c)
  then show ?case by (auto intro: parent_chain.chain_root)
next
  case (chain_step i c p path)
  show ?case
  proof (cases "j = i")
    case True
    with chain_step.hyps show ?thesis by (metis append_Nil parent_chain.chain_step)
  next
    case False
    with chain_step show ?thesis by (metis append_Cons set_ConsD)
  qed
qed

lemma parent_chain_distinct: "parent_chain cs i p \<Longrightarrow> distinct p"
proof (induction rule: parent_chain.induct)
  case (chain_step i c p path)
  have "i \<notin> set path"
  proof
    assume "i \<in> set path"
    then obtain q r where r: "path = q @ r" "parent_chain cs i r"
      using parent_chain_suffix [OF chain_step.hyps(3)] by blast
    moreover have "parent_chain cs i (i # path)" using chain_step.hyps by (rule parent_chain.chain_step)
    ultimately have "i # path = r" by (blast dest: parent_chain_unique)
    with r(1) show False using arg_cong [of "i # path" r length] by simp
  qed
  with chain_step show ?case by simp
qed simp

lemma ancestor_loop_sound: "ancestor_loop cs path i = Inr r \<Longrightarrow> \<exists>q. r = path @ q \<and> parent_chain cs i q"
proof (induction cs path i arbitrary: r rule: ancestor_loop.induct)
  case (1 cs path i)
  note eq = "1.prems" [unfolded ancestor_loop.simps [of cs path i]]
  show ?case
  proof (cases "find_container cs i")
    case None
    with eq show ?thesis by (simp split: if_splits)
  next
    case (Some c)
    note c = this
    show ?thesis
    proof (cases "ct_parent c")
      case None
      with eq c show ?thesis by (auto split: if_splits intro: chain_root)
    next
      case (Some p)
      with eq c have "i \<notin> set path" "ancestor_loop cs (path @ [i]) p = Inr r" by (simp_all split: if_splits)
      from "1.IH" [OF this(1) c Some this(2)] obtain q where "r = (path @ [i]) @ q" "parent_chain cs p q" by blast
      with chain_step [OF c Some] show ?thesis by auto
    qed
  qed
qed

lemma ancestor_loop_complete:
  "parent_chain cs i q \<Longrightarrow> set q \<inter> set path = {} \<Longrightarrow> ancestor_loop cs path i = Inr (path @ q)"
proof (induction arbitrary: path rule: parent_chain.induct)
  case (chain_root i c)
  then show ?case by (subst ancestor_loop.simps) simp
next
  case (chain_step i c p q)
  have "i \<notin> set q" using parent_chain.chain_step [OF chain_step.hyps] by (auto dest: parent_chain_distinct)
  with chain_step.prems chain_step.IH [of "path @ [i]"] have "ancestor_loop cs (path @ [i]) p = Inr (path @ i # q)" by auto
  with chain_step show ?case by (subst ancestor_loop.simps) simp
qed

lemma ancestor_loop_closed:
  assumes "\<forall>c\<in>set cs. \<forall>p. ct_parent c = Some p \<longrightarrow> has_container cs p"
  shows "has_container cs i \<Longrightarrow> ancestor_loop cs path i = Inl e \<Longrightarrow> e = ConflictingStructure"
  using assms
proof (induction cs path i rule: ancestor_loop.induct)
  case (1 cs path i)
  from "1.prems"(1) obtain c where c: "find_container cs i = Some c"
    by (cases "find_container cs i") (auto simp: find_container_def has_container_def find_None_iff list_ex_iff)
  note eq = "1.prems"(2) [unfolded ancestor_loop.simps [of cs path i]]
  show ?case
  proof (cases "ct_parent c")
    case None
    with eq c show ?thesis by (simp split: if_splits)
  next
    case (Some p)
    then have "has_container cs p" using c "1.prems"(3) by (blast dest: find_container_mem)
    with eq c Some "1.IH" [OF _ c Some] "1.prems"(3) show ?thesis by (auto split: if_splits)
  qed
qed

lemma check_blocks_Inr:
  "check_blocks n ids bs = Inr u \<longleftrightarrow>
     distinct (map sb_id bs) \<and> set ids \<inter> set (map sb_id bs) = {} \<and> map sb_order bs = [n..<n + length bs]"
proof (induction n ids bs rule: check_blocks.induct)
  case (2 n ids b bs)
  have "[n..<n + length (b # bs)] = n # [Suc n..<Suc n + length bs]" by (simp add: upt_rec)
  with 2 show ?case by auto
qed simp

lemma index_build_Inr:
  "index_build v bs cs m = Inr index \<longleftrightarrow>
     bs \<noteq> [] \<and> distinct (map sb_id bs) \<and> map sb_order bs = [0..<length bs] \<and>
     (\<forall>c\<in>set cs. \<forall>p. ct_parent c = Some p \<longrightarrow> has_container cs p) \<and>
     (\<forall>(b, c)\<in>set m. b \<in> set (map sb_id bs) \<and> has_container cs c) \<and>
     index = \<lparr>si_version = v, si_blocks = bs, si_containers = cs, si_membership = m\<rparr>"
proof -
  have "check_blocks 0 [] bs = Inr () \<longleftrightarrow> distinct (map sb_id bs) \<and> map sb_order bs = [0..<length bs]"
    by (simp add: check_blocks_Inr)
  moreover have "list_ex (\<lambda>c. case ct_parent c of None \<Rightarrow> False | Some p \<Rightarrow> \<not> has_container cs p) cs \<longleftrightarrow>
      \<not> (\<forall>c\<in>set cs. \<forall>p. ct_parent c = Some p \<longrightarrow> has_container cs p)"
    by (auto simp: list_ex_iff split: option.splits)
  moreover have "list_ex (\<lambda>b. b \<notin> set (map sb_id bs)) (hm_keys m) \<or> list_ex (\<lambda>c. \<not> has_container cs c) (map snd m) \<longleftrightarrow>
      \<not> (\<forall>(b, c)\<in>set m. b \<in> set (map sb_id bs) \<and> has_container cs c)"
    by (fastforce simp: list_ex_iff hm_keys_def)
  moreover obtain r where r: "check_blocks 0 [] bs = r" by blast
  ultimately show ?thesis
    unfolding index_build_def r by (cases r) (simp_all split: if_splits, blast?, auto)
qed

text \<open>
  Ancestors of a block in an index that was built. The loop always ends: it returns the one chain of parents from the
  block's container to a root when there is one, and reports a conflicting structure exactly when the parents never
  reach a root. A container is reported missing only for a block that belongs to none. So the checks of \<open>build\<close> are
  enough for everything but circles of containers, which they let pass.
\<close>

theorem ancestor_path_exact:
  assumes built: "index_build v bs cs m = Inr index"
  shows "(ancestor_path index b = Inr path \<longleftrightarrow> (\<exists>i. hm_get m b = Some i \<and> parent_chain cs i path)) \<and>
    (ancestor_path index b = Inl e \<longleftrightarrow>
       hm_get m b = None \<and> e = MissingContainer \<or>
       (\<exists>i. hm_get m b = Some i \<and> (\<nexists>path. parent_chain cs i path)) \<and> e = ConflictingStructure) \<and>
    (ancestor_path index b = Inr path \<longrightarrow> path \<noteq> [] \<and> distinct path)"
proof (cases "hm_get m b")
  case None
  with built show ?thesis by (auto simp: ancestor_path_def index_build_Inr)
next
  case (Some i)
  then have "(b, i) \<in> set m" by (auto simp: hm_get_def dest: map_of_SomeD)
  with built have i: "has_container cs i" and closed: "\<forall>c\<in>set cs. \<forall>p. ct_parent c = Some p \<longrightarrow> has_container cs p"
    by (auto simp: index_build_Inr)
  have loop: "ancestor_path index b = ancestor_loop cs [] i"
    using built Some by (auto simp: ancestor_path_def index_build_Inr)
  have exact: "ancestor_loop cs [] i = Inr p \<longleftrightarrow> parent_chain cs i p" for p
    using ancestor_loop_sound [of cs "[]" i p] ancestor_loop_complete [of cs i p "[]"] by auto
  have error: "ancestor_loop cs [] i = Inl e \<longleftrightarrow> (\<nexists>p. parent_chain cs i p) \<and> e = ConflictingStructure" for e
    using ancestor_loop_closed [OF closed i, of "[]"] exact by (cases "ancestor_loop cs [] i") auto
  have "parent_chain cs i p \<Longrightarrow> p \<noteq> []" for p by (cases rule: parent_chain_cases) auto
  with Some loop exact error show ?thesis by (auto dest: parent_chain_distinct)
qed

section \<open>The worklist\<close>

text \<open>The requests without their repetitions, in the order of their first occurrence.\<close>

definition first_occurrences :: "'a list \<Rightarrow> 'a list" where
  "first_occurrences xs = rev (remdups (rev xs))"

lemma first_occurrences_snoc:
  "first_occurrences (xs @ [x]) = (if x \<in> set xs then first_occurrences xs else first_occurrences xs @ [x])"
  by (simp add: first_occurrences_def)

lemma set_first_occurrences [simp]: "set (first_occurrences xs) = set xs"
  by (simp add: first_occurrences_def)

lemma distinct_first_occurrences [simp]: "distinct (first_occurrences xs)"
  by (simp add: first_occurrences_def)

lemma worklist_results:
  "let run = run_worklist rs index ov avail n; ds = first_occurrences rs in
     rn_steps run = min n (length ds) \<and> rn_memo_hits run + length ds = length rs \<and>
     (\<forall>r. r \<notin> set rs \<longrightarrow> hm_get (rn_results run) r = None) \<and>
     (\<forall>i<length ds. hm_get (rn_results run) (ds ! i) =
        Some (if i < n then resolve (ds ! i) index ov avail (n - Suc i) else limit_reached))"
proof (induction rs rule: rev_induct)
  case Nil
  then show ?case by (simp add: run_worklist_def first_occurrences_def)
next
  case (snoc r rs)
  define run where "run = run_worklist rs index ov avail n"
  define ds where "ds = first_occurrences rs"
  note IH = snoc.IH [unfolded Let_def, folded run_def ds_def]
  have step: "run_worklist (rs @ [r]) index ov avail n = worklist_step index ov avail n r run"
    by (simp add: run_worklist_def run_def)
  have ds: "set ds = set rs" "distinct ds" by (simp_all add: ds_def)
  show ?case
  proof (cases "r \<in> set rs")
    case True
    with ds obtain i where "i < length ds" "r = ds ! i" by (metis in_set_conv_nth)
    with IH have "hm_contains (rn_results run) r" by (auto simp: hm_contains_def)
    with IH True show ?thesis by (simp add: step worklist_step_def first_occurrences_snoc ds_def)
  next
    case False
    with IH have new: "\<not> hm_contains (rn_results run) r" by (simp add: hm_contains_def)
    have nth: "ds ! i \<noteq> r" if "i < length ds" for i using that ds False by (metis nth_mem)
    have fo: "first_occurrences (rs @ [r]) = ds @ [r]" using False by (simp add: first_occurrences_snoc ds_def)
    show ?thesis
    proof (cases "length ds < n")
      case True
      with IH have "rn_steps run = length ds" by simp
      with IH new nth True show ?thesis
        by (auto simp: step fo worklist_step_def Let_def nth_append less_Suc_eq)
    next
      case False
      with IH have "rn_steps run = n" by simp
      with IH new nth False show ?thesis
        by (auto simp: step fo worklist_step_def Let_def nth_append less_Suc_eq)
    qed
  qed
qed

text \<open>
  What the worklist computes. It does as many steps as there are different requests, up to its budget, and a repetition
  costs a memo hit instead. The request that comes \<open>i\<close>-th among the different ones (counting from zero) is answered by
  the resolver with the budget that is left after it, and by a limit from the budget on. Since the resolver answers a
  limit when nothing is left, the last step of the budget never resolves anything: a budget of \<open>n\<close> answers \<open>n - 1\<close>
  requests, and of the first \<open>n - 1\<close> none by a limit.
\<close>

theorem worklist_exact:
  fixes index ov avail n rs
  defines "run \<equiv> run_worklist rs index ov avail n" and "ds \<equiv> first_occurrences rs"
  shows "rn_steps run = min n (card (set rs)) \<and> rn_memo_hits run = length rs - card (set rs) \<and>
    (\<forall>r. hm_contains (rn_results run) r = (r \<in> set rs)) \<and>
    (\<forall>i. i < length ds \<longrightarrow> hm_get (rn_results run) (ds ! i) =
       Some (if i < n then resolve (ds ! i) index ov avail (n - Suc i) else limit_reached)) \<and>
    (\<forall>i a. i < length ds \<longrightarrow> hm_get (rn_results run) (ds ! i) = Some a \<longrightarrow>
       (cx_terminal a = TLimit) = (n \<le> i \<or> n = Suc i \<and> cr_origin (ds ! i) \<notin> set (cr_path (ds ! i))))"
proof -
  have card: "card (set rs) = length ds" using distinct_card [of ds] by (simp add: ds_def)
  note facts = worklist_results [of rs index ov avail n, unfolded Let_def, folded run_def ds_def]
  have contains: "hm_contains (rn_results run) r = (r \<in> set rs)" for r
  proof (cases "r \<in> set rs")
    case True
    then obtain i where "i < length ds" "r = ds ! i" by (metis ds_def in_set_conv_nth set_first_occurrences)
    with facts True show ?thesis by (simp add: hm_contains_def)
  qed (use facts in \<open>simp add: hm_contains_def\<close>)
  have "cx_terminal (resolve r index ov avail k) = TLimit \<longleftrightarrow> k = 0 \<and> cr_origin r \<notin> set (cr_path r)" for r k
    by (auto simp: resolve_def Let_def context_outcome_def split: request_kind.splits sum.splits nat.splits)
  then show ?thesis using facts contains card by (auto simp: limit_reached_def context_outcome_def split: if_splits)
qed

section \<open>Self-references and edition relations\<close>

text \<open>
  Self-references are found exactly: the wordings that are reported are those of the closed list that occur in the text,
  in the order of the list and once each, and every report is anchored at the first occurrence of its wording, byte by
  byte.
\<close>

theorem this_ref_exact:
  "map tr_surface (detect_this_ref s) = filter (str_contains s) this_ref_surfaces \<and>
   (\<forall>e\<in>set (detect_this_ref s).
      \<exists>k. tr_span e = TextSpan k (k + length (tr_surface e)) \<and> k + length (tr_surface e) \<le> length s \<and>
        take (length (tr_surface e)) (drop k s) = tr_surface e \<and>
        (\<forall>l<k. take (length (tr_surface e)) (drop l s) \<noteq> tr_surface e))"
proof -
  let ?f = "\<lambda>surface. map_option (\<lambda>k. \<lparr>tr_span = TextSpan k (k + length surface), tr_surface = surface\<rparr>)
    (str_find s surface)"
  have detect: "detect_this_ref s = List.map_filter ?f this_ref_surfaces"
    unfolding detect_this_ref_def by (rule arg_cong [where f = "\<lambda>f. List.map_filter f this_ref_surfaces"])
      (auto simp: span_new_def split: option.split)
  have "map tr_surface (List.map_filter ?f ss) = filter (str_contains s) ss" for ss
    by (induction ss) (auto simp: List.map_filter_simps str_contains_def split: option.split)
  moreover have "\<exists>k. tr_span e = TextSpan k (k + length (tr_surface e)) \<and> str_find s (tr_surface e) = Some k"
    if "e \<in> set (List.map_filter ?f ss)" for e ss using that by (auto simp: map_filter_def)
  ultimately show ?thesis unfolding detect by (simp add: str_find_Some)
qed

lemma map_prefix_Cons:
  "(\<exists>cs post. c # rest = cs @ post \<and> map f cs = y # ys \<and> P cs) \<longleftrightarrow>
     f c = y \<and> (\<exists>cs post. rest = cs @ post \<and> map f cs = ys \<and> P (c # cs))"
  (is "?lhs \<longleftrightarrow> ?rhs")
proof
  assume ?rhs
  then obtain cs post where "f c = y" "rest = cs @ post" "map f cs = ys" "P (c # cs)" by blast
  then show ?lhs by (intro exI [of _ "c # cs"] exI [of _ post]) simp
qed (auto simp: Cons_eq_append_conv)

lemma match_surface_spec:
  "str_chars s = pre @ rest \<Longrightarrow>
   match_surface u s (length (concat pre)) es = Some e \<longleftrightarrow>
     (\<exists>cs post. rest = cs @ post \<and> map (uni_lower u) cs = map (uni_lower u) es \<and> e = length (concat (pre @ cs)))"
proof (induction es arbitrary: pre rest)
  case Nil
  then show ?case by auto
next
  case (Cons x es)
  have tail: "str_get s (length (concat pre)) (length s) = Some (concat rest)" "str_chars (concat rest) = rest"
    using Cons.prems by (simp_all add: str_get_tail str_chars_cut(2))
  show ?case
  proof (cases rest)
    case Nil
    with tail show ?thesis by (simp add: first_char_eq)
  next
    case (Cons c rest')
    have "str_chars s = (pre @ [c]) @ rest'" using Cons.prems Cons by simp
    note IH = Cons.IH [OF this]
    show ?thesis
    proof (cases "uni_lower u c = uni_lower u x")
      case True
      then have "match_surface u s (length (concat pre)) (x # es) = match_surface u s (length (concat (pre @ [c]))) es"
        using tail Cons by (simp add: first_char_eq)
      with IH True show ?thesis unfolding Cons list.map map_prefix_Cons by simp
    next
      case False
      with tail Cons show ?thesis unfolding Cons list.map map_prefix_Cons by (simp add: first_char_eq)
    qed
  qed
qed

lemma boundary_before_spec:
  "str_chars s = pre @ rest \<Longrightarrow>
   boundary_before u s (length (concat pre)) \<longleftrightarrow> pre = [] \<or> \<not> uni_alphanumeric u (last pre)"
  by (simp add: boundary_before_def str_get_head str_chars_cut(1) last_char_eq)

lemma boundary_after_spec:
  "str_chars s = pre @ rest \<Longrightarrow>
   boundary_after u s (length (concat pre)) \<longleftrightarrow> rest = [] \<or> \<not> uni_alphanumeric u (hd rest)"
proof -
  assume s: "str_chars s = pre @ rest"
  have "first_char (concat rest) = (case rest of [] \<Rightarrow> None | c # _ \<Rightarrow> Some c)"
    using str_chars_cut(2) [OF s] by (simp add: first_char_eq)
  with str_get_tail [OF s] show ?thesis by (cases rest) (simp_all add: boundary_after_def)
qed

text \<open>
  An occurrence of an edition wording: characters that are the wording up to case, with no letter or digit before or
  after them; its span is theirs.
\<close>

definition edition_occurrence :: "unicode \<Rightarrow> string \<Rightarrow> edition_relation \<Rightarrow> bool" where
  "edition_occurrence u s r =
     (\<exists>pre cs post. str_chars s = pre @ cs @ post \<and> cs \<noteq> [] \<and>
        map (uni_lower u) cs \<in> (\<lambda>w. map (uni_lower u) (str_chars w)) ` set edition_surfaces \<and>
        (pre = [] \<or> \<not> uni_alphanumeric u (last pre)) \<and> (post = [] \<or> \<not> uni_alphanumeric u (hd post)) \<and>
        er_anchor r = TextSpan (length (concat pre)) (length (concat pre) + length (concat cs)) \<and>
        er_surface r = concat cs)"

lemma edition_at_total: "str_chars s = pre @ rest \<Longrightarrow> \<exists>r. edition_at u s (length (concat pre)) w = Some r"
proof (cases "match_surface u s (length (concat pre)) (str_chars w)")
  case (Some e)
  assume s: "str_chars s = pre @ rest"
  from Some obtain cs post where "rest = cs @ post" "e = length (concat (pre @ cs))"
    by (auto simp: match_surface_spec [OF s])
  with s str_get_cut [of s pre cs post] Some show ?thesis by (auto simp: edition_at_def span_new_def)
qed (simp add: edition_at_def)

lemma edition_at_Some:
  assumes s: "str_chars s = pre @ rest"
  shows "edition_at u s (length (concat pre)) w = Some (Some r) \<longleftrightarrow>
    (\<exists>cs post. rest = cs @ post \<and> map (uni_lower u) cs = map (uni_lower u) (str_chars w) \<and>
       (pre = [] \<or> \<not> uni_alphanumeric u (last pre)) \<and> (post = [] \<or> \<not> uni_alphanumeric u (hd post)) \<and>
       er_anchor r = TextSpan (length (concat pre)) (length (concat pre) + length (concat cs)) \<and>
       er_surface r = concat cs)" (is "_ \<longleftrightarrow> ?rhs")
proof -
  have one: "(if \<not> boundary_before u s (length (concat pre)) \<or> \<not> boundary_after u s e then Some None
      else case span_new (length (concat pre)) e of Inl _ \<Rightarrow> Some None
        | Inr anchor \<Rightarrow> (case str_get s (length (concat pre)) e of None \<Rightarrow> None
            | Some surf \<Rightarrow> Some (Some \<lparr>er_anchor = anchor, er_surface = surf\<rparr>))) = Some (Some r) \<longleftrightarrow>
      (pre = [] \<or> \<not> uni_alphanumeric u (last pre)) \<and> (post = [] \<or> \<not> uni_alphanumeric u (hd post)) \<and>
       er_anchor r = TextSpan (length (concat pre)) (length (concat pre) + length (concat cs)) \<and>
       er_surface r = concat cs" if "rest = cs @ post" "e = length (concat (pre @ cs))" for cs post e
  proof -
    have "str_chars s = (pre @ cs) @ post" using s that by simp
    with that boundary_before_spec [OF s, of u] boundary_after_spec [OF this, of u] str_get_cut [of s pre cs post] s
    show ?thesis by (cases r) (auto simp: span_new_def)
  qed
  show ?thesis
  proof (cases "match_surface u s (length (concat pre)) (str_chars w)")
    case None
    then have "\<not> (\<exists>cs post. rest = cs @ post \<and> map (uni_lower u) cs = map (uni_lower u) (str_chars w))"
      using match_surface_spec [OF s, of u "str_chars w"] by (metis option.distinct(1))
    with None show ?thesis by (auto simp: edition_at_def)
  next
    case (Some e)
    then obtain cs post where cs: "rest = cs @ post" "map (uni_lower u) cs = map (uni_lower u) (str_chars w)"
      "e = length (concat (pre @ cs))" by (auto simp: match_surface_spec [OF s])
    have "cs' = cs \<and> post' = post" if "rest = cs' @ post'" "map (uni_lower u) cs' = map (uni_lower u) (str_chars w)"
      for cs' post' using that cs by (metis append_eq_append_conv length_map)
    note unique = this
    have "edition_at u s (length (concat pre)) w = Some (Some r) \<longleftrightarrow>
        (pre = [] \<or> \<not> uni_alphanumeric u (last pre)) \<and> (post = [] \<or> \<not> uni_alphanumeric u (hd post)) \<and>
        er_anchor r = TextSpan (length (concat pre)) (length (concat pre) + length (concat cs)) \<and>
        er_surface r = concat cs"
      using one [OF cs(1,3)] unfolding edition_at_def Some option.case .
    also have "\<dots> \<longleftrightarrow> ?rhs"
      by (rule iffI) (use cs(1,2) in blast, use unique in blast)
    finally show ?thesis .
  qed
qed

lemma remdups_adj_same_key:
  assumes "sorted (map f xs)" "\<And>x y. x \<in> set xs \<Longrightarrow> y \<in> set xs \<Longrightarrow> f x = f y \<Longrightarrow> x = y"
  shows "sorted_wrt (\<lambda>x y. f x < f y) (remdups_adj xs)"
  using assms
proof (induction xs rule: remdups_adj.induct)
  case (3 x y xs)
  show ?case
  proof (cases "x = y")
    case True
    with 3 show ?thesis by simp
  next
    case False
    have "f x \<le> f y" "f x \<noteq> f y" using "3.prems"(1) "3.prems"(2) [of x y] False by auto
    moreover have "\<forall>z\<in>set (y # xs). f y \<le> f z" using "3.prems"(1) by auto
    ultimately have less: "\<forall>z\<in>set (remdups_adj (y # xs)). f x < f z" unfolding remdups_adj_set by fastforce
    have "sorted (map f (y # xs))" using "3.prems"(1) by simp
    moreover have "a = b" if "a \<in> set (y # xs)" "b \<in> set (y # xs)" "f a = f b" for a b
      by (rule "3.prems"(2)) (use that in auto)
    ultimately have "sorted_wrt (\<lambda>x y. f x < f y) (remdups_adj (y # xs))" by (rule "3.IH"(2) [OF False])
    with less show ?thesis unfolding remdups_adj.simps(3) if_not_P [OF False] sorted_wrt.simps(2) by (rule conjI)
  qed
qed simp_all

text \<open>
  Edition relations are found exactly. The detector never slices a text off a character boundary, whatever the tables
  of Unicode say, and reports precisely the occurrences of the two wordings as whole words up to case, each once, in
  the order of the text, with the original spelling.
\<close>

theorem edition_relations_exact:
  "\<exists>found. detect_edition_relations u s = Some found \<and> (\<forall>r. r \<in> set found \<longleftrightarrow> edition_occurrence u s r) \<and>
     sorted_wrt (\<lambda>a b. er_anchor a < er_anchor b) found"
proof -
  let ?calls = "concat (map (\<lambda>(start, _). map (edition_at u s start) edition_surfaces) (char_indices s))"
  have calls: "c \<in> set ?calls \<longleftrightarrow> (\<exists>pre x post. \<exists>w\<in>set edition_surfaces. str_chars s = pre @ x # post \<and>
      c = edition_at u s (length (concat pre)) w)" (is "_ \<longleftrightarrow> ?call c") for c
  proof -
    have "c \<in> set ?calls \<longleftrightarrow> (\<exists>j x. (j, x) \<in> set (char_indices s) \<and> (\<exists>w\<in>set edition_surfaces. c = edition_at u s j w))"
      by force
    also have "\<dots> \<longleftrightarrow> ?call c" unfolding char_indices_iff by blast
    finally show ?thesis .
  qed
  then have "\<forall>c\<in>set ?calls. c \<noteq> None" using edition_at_total by (metis option.distinct(1))
  then obtain rs where rs: "those ?calls = Some rs" "map Some rs = ?calls"
  proof -
    have "\<forall>c\<in>set cs. c \<noteq> None \<Longrightarrow> \<exists>rs. those cs = Some rs \<and> map Some rs = cs" for cs :: "'a option list"
      by (induction cs) auto
    with \<open>\<forall>c\<in>set ?calls. c \<noteq> None\<close> that show ?thesis by blast
  qed
  define hits where "hits = List.map_filter (\<lambda>x. x) rs"
  have nonempty: "str_chars w \<noteq> []" if "w \<in> set edition_surfaces" for w
    using that by (auto simp: edition_surfaces_def utf8_def utf8_of_def str_chars_simps)
  have hit: "r \<in> set hits \<longleftrightarrow> edition_occurrence u s r" for r
  proof -
    have "r \<in> set hits \<longleftrightarrow> Some (Some r) \<in> Some ` set rs" by (force simp: hits_def map_filter_def)
    also have "\<dots> \<longleftrightarrow> Some (Some r) \<in> set ?calls" by (metis list.set_map rs(2))
    also have "\<dots> \<longleftrightarrow> edition_occurrence u s r"
      unfolding calls edition_occurrence_def
    proof (intro iffI; elim exE conjE bexE)
      fix pre x post w assume a: "w \<in> set edition_surfaces" "str_chars s = pre @ x # post"
        "Some (Some r) = edition_at u s (length (concat pre)) w"
      then show "\<exists>pre cs post. str_chars s = pre @ cs @ post \<and> cs \<noteq> [] \<and>
        map (uni_lower u) cs \<in> (\<lambda>w. map (uni_lower u) (str_chars w)) ` set edition_surfaces \<and>
        (pre = [] \<or> \<not> uni_alphanumeric u (last pre)) \<and> (post = [] \<or> \<not> uni_alphanumeric u (hd post)) \<and>
        er_anchor r = TextSpan (length (concat pre)) (length (concat pre) + length (concat cs)) \<and>
        er_surface r = concat cs"
        using edition_at_Some [OF a(2), of u w r] nonempty [OF a(1)] by (metis (no_types, lifting) Nil_is_map_conv imageI)
    next
      fix pre cs post assume a: "str_chars s = pre @ cs @ post" "cs \<noteq> []"
        "map (uni_lower u) cs \<in> (\<lambda>w. map (uni_lower u) (str_chars w)) ` set edition_surfaces"
        "pre = [] \<or> \<not> uni_alphanumeric u (last pre)" "post = [] \<or> \<not> uni_alphanumeric u (hd post)"
        "er_anchor r = TextSpan (length (concat pre)) (length (concat pre) + length (concat cs))" "er_surface r = concat cs"
      then obtain w where w: "w \<in> set edition_surfaces" "map (uni_lower u) cs = map (uni_lower u) (str_chars w)" by blast
      with a edition_at_Some [OF a(1), of u w r] have "edition_at u s (length (concat pre)) w = Some (Some r)" by blast
      moreover obtain x cs' where "cs = x # cs'" using a(2) by (cases cs) auto
      ultimately show "\<exists>pre x post. \<exists>w\<in>set edition_surfaces. str_chars s = pre @ x # post \<and>
          Some (Some r) = edition_at u s (length (concat pre)) w"
        using a(1) w(1) by (metis append_Cons)
    qed
    finally show ?thesis .
  qed
  have surface: "er_surface r = take (span_end (er_anchor r) - span_start (er_anchor r)) (drop (span_start (er_anchor r)) s)"
    if "edition_occurrence u s r" for r
    using that str_get_cut str_get_Some unfolding edition_occurrence_def
    by (metis (no_types, lifting) text_span.sel)
  let ?key = "\<lambda>c. span_key (er_anchor c)"
  have same: "a = b" if "a \<in> set (sort_key ?key hits)" "b \<in> set (sort_key ?key hits)" "?key a = ?key b" for a b
  proof -
    from that have occ: "edition_occurrence u s a" "edition_occurrence u s b" and eq: "er_anchor a = er_anchor b"
      by (simp_all add: hit)
    from surface [OF occ(1)] surface [OF occ(2)] eq have "er_surface a = er_surface b" by simp
    with eq show "a = b" by (intro edition_relation.equality) simp_all
  qed
  have "sorted_wrt (\<lambda>a b. ?key a < ?key b) (remdups_adj (sort_key ?key hits))"
    using same by (intro remdups_adj_same_key) auto
  moreover have "detect_edition_relations u s = Some (remdups_adj (sort_key ?key hits))"
    by (simp only: detect_edition_relations_def rs(1) option.map hits_def)
  ultimately show ?thesis by (simp add: hit less_text_span_def)
qed

section \<open>What authorizes a construction\<close>

text \<open>The frame \<open>f\<close> lies in the block at position \<open>k\<close> of the document.\<close>

definition at_position :: "structure_index \<Rightarrow> overlay \<Rightarrow> frame_id \<Rightarrow> nat \<Rightarrow> bool" where
  "at_position index ov f k =
     (\<exists>fr. overlay_frame ov f = Some fr \<and> k < length (si_blocks index) \<and> sb_id (si_blocks index ! k) = fr_block fr)"

definition authorized :: "construction_request \<Rightarrow> structure_index \<Rightarrow> overlay \<Rightarrow> bool \<Rightarrow> frame_id \<Rightarrow> text_span list \<Rightarrow>
    bool" where
  "authorized r index ov requisites t evidence =
     (case kr_construction r of
        CurrentDocumentSelf \<Rightarrow>
          requisites \<and> kr_evidence r \<noteq> [] \<and> t = kr_origin r \<and> evidence = map tr_span (kr_evidence r)
      | EarlierCitedAct \<Rightarrow>
          (\<exists>a k l. kr_explicit_target r = Some t \<and> kr_anchor r = Some a \<and> evidence = [an_span a] \<and>
             at_position index ov t k \<and> at_position index ov (kr_origin r) l \<and> k < l \<and>
             an_block a = sb_id (si_blocks index ! k) \<and>
             (\<exists>c. c \<noteq> [] \<and>
                str_get (sb_text (si_blocks index ! k)) (span_start (an_span a)) (span_end (an_span a)) = Some c))
      | DeclaredScopedAlias \<Rightarrow>
          (\<exists>w d. kr_key r = Some w \<and> t = sa_frame d \<and> evidence = [sa_anchor d] \<and>
             filter (\<lambda>d. sa_wording d = w \<and> sa_scope d = kr_scope r) (ov_declarations ov) = [d])
      | CoordinatingHead \<Rightarrow> continuation_heads ov (kr_origin r) = [t] \<and> evidence = [])"

lemma at_position_find:
  assumes "distinct (map sb_id bs)"
  shows "find (\<lambda>b. sb_id b = i) bs = Some b \<longleftrightarrow> (\<exists>k<length bs. bs ! k = b \<and> sb_id b = i)"
proof
  assume "\<exists>k<length bs. bs ! k = b \<and> sb_id b = i"
  then obtain k where k: "k < length bs" "bs ! k = b" "sb_id b = i" by blast
  have "sb_id (bs ! j) \<noteq> i" if "j < k" for j
    using that k nth_eq_iff_index_eq [OF assms, of j k] by auto
  with k show "find (\<lambda>b. sb_id b = i) bs = Some b" by (auto simp: find_Some_iff)
qed (auto simp: find_Some_iff)

lemma frame_order_position:
  assumes "index_build v bs cs m = Inr index"
  shows "frame_order index ov f = Some k \<longleftrightarrow> at_position index ov f k"
    and "frame_source index ov f = Some s \<longleftrightarrow> (\<exists>k. at_position index ov f k \<and> sb_text (bs ! k) = s)"
proof -
  from assms have d: "distinct (map sb_id bs)" "map sb_order bs = [0..<length bs]" "si_blocks index = bs"
    by (auto simp: index_build_Inr)
  have order: "sb_order (bs ! k) = k" if "k < length bs" for k
    using arg_cong [OF d(2), of "\<lambda>xs. xs ! k"] that by simp
  note find = at_position_find [OF d(1)]
  show "frame_order index ov f = Some k \<longleftrightarrow> at_position index ov f k"
    using order by (cases "overlay_frame ov f") (auto simp: frame_order_def at_position_def d(3) find)
  show "frame_source index ov f = Some s \<longleftrightarrow> (\<exists>k. at_position index ov f k \<and> sb_text (bs ! k) = s)"
    by (cases "overlay_frame ov f") (auto simp: frame_source_def at_position_def d(3) find)
qed

lemma at_position_unique:
  assumes "index_build v bs cs m = Inr index"
  shows "at_position index ov f k \<Longrightarrow> at_position index ov f l \<Longrightarrow> k = l"
  using frame_order_position(1) [OF assms, of ov f] by (metis option.sel)

lemma source_backed_get:
  "anchor_is_source_backed s a \<longleftrightarrow> (\<exists>c. c \<noteq> [] \<and> str_get s (span_start a) (span_end a) = Some c)"
  by (auto simp: anchor_is_source_backed_def str_get_def is_char_boundary_def)

lemma resolve_earlier_iff:
  assumes built: "index_build v bs cs m = Inr index"
  shows "resolve_earlier r index ov = CResolved c t evidence \<longleftrightarrow> c = EarlierCitedAct \<and>
    (\<exists>a k l. kr_explicit_target r = Some t \<and> kr_anchor r = Some a \<and> evidence = [an_span a] \<and>
       at_position index ov t k \<and> at_position index ov (kr_origin r) l \<and> k < l \<and>
       an_block a = sb_id (si_blocks index ! k) \<and>
       (\<exists>c. c \<noteq> [] \<and> str_get (sb_text (si_blocks index ! k)) (span_start (an_span a)) (span_end (an_span a)) = Some c))"
    (is "_ \<longleftrightarrow> _ \<and> ?rhs")
proof (cases "kr_explicit_target r")
  case None
  then show ?thesis by (simp add: resolve_earlier_def)
next
  case (Some u)
  note u = this
  note pos = frame_order_position [OF built] and unique = at_position_unique [OF built]
  have blocks: "si_blocks index = bs" using built by (simp add: index_build_Inr)
  show ?thesis
  proof (cases "\<exists>a k. kr_anchor r = Some a \<and> at_position index ov u k")
    case True
    then obtain a k where a: "kr_anchor r = Some a" and k: "at_position index ov u k" by blast
    then obtain fr where fr: "overlay_frame ov u = Some fr" "sb_id (bs ! k) = fr_block fr"
      by (auto simp: at_position_def blocks)
    have src: "frame_source index ov u = Some (sb_text (bs ! k))" and ord: "frame_order index ov u = Some k"
      using pos k by auto
    have target: "at_position index ov u k' \<longleftrightarrow> k' = k" for k' using k unique [OF k] by blast
    have origin: "at_position index ov (kr_origin r) l \<longleftrightarrow> frame_order index ov (kr_origin r) = Some l" for l
      by (simp add: pos(1))
    have rhs: "?rhs \<longleftrightarrow> t = u \<and> evidence = [an_span a] \<and>
        (\<exists>l. frame_order index ov (kr_origin r) = Some l \<and> k < l) \<and> an_block a = fr_block fr \<and>
        anchor_is_source_backed (sb_text (bs ! k)) (an_span a)"
      by (cases "t = u") (auto simp: u a target origin blocks fr source_backed_get)
    show ?thesis unfolding rhs
      by (cases "frame_order index ov (kr_origin r)") (auto simp: resolve_earlier_def u a fr src ord)
  next
    case False
    then have "frame_source index ov u \<noteq> Some s \<or> kr_anchor r \<noteq> Some a" for s a using pos(2) by blast
    with False u show ?thesis by (auto simp: resolve_earlier_def split: option.splits)
  qed
qed

text \<open>C22. 
  The four constructions share no authorization. In an index that was built, a request is resolved exactly when its own
  construction authorizes it, for the target and with the evidence that it says: a self-reference by requisites and
  grammar evidence; an earlier act by a target frame whose block stands before the origin's in the document, with an
  anchor in that very block that cuts a non-empty text out on character boundaries; an alias by the one declaration of
  its wording in its scope; a coordinating head by being the only one.
\<close>

theorem construction_resolved_iff:
  assumes built: "index_build v bs cs m = Inr index"
  shows "resolve_construction r index ov requisites = CResolved c t evidence \<longleftrightarrow>
    c = kr_construction r \<and> authorized r index ov requisites t evidence"
proof (cases "kr_construction r")
  case CurrentDocumentSelf
  then show ?thesis by (auto simp: resolve_construction_def authorized_def resolve_self_def)
next
  case EarlierCitedAct
  then show ?thesis by (simp add: resolve_construction_def authorized_def resolve_earlier_iff [OF built])
next
  case DeclaredScopedAlias
  have "filter (\<lambda>d. sa_scope d = kr_scope r) (filter (\<lambda>d. sa_wording d = w) ds) =
      filter (\<lambda>d. sa_wording d = w \<and> sa_scope d = kr_scope r) ds" for w ds
    by (simp add: conj_commute)
  then show ?thesis using DeclaredScopedAlias
    by (auto simp: resolve_construction_def authorized_def resolve_alias_def Let_def filter_empty_conv
        split: option.splits list.splits)
next
  case CoordinatingHead
  then show ?thesis
    by (auto simp: resolve_construction_def authorized_def resolve_head_def split: list.splits)
qed

section \<open>Witnesses\<close>

text \<open>A document of two blocks in an article of its own, with a frame in each block.\<close>

definition sample_blocks :: "source_block list" where
  "sample_blocks =
     [\<lparr>sb_id = 0, sb_order = 0, sb_text = ''act''\<rparr>, \<lparr>sb_id = 5, sb_order = 1, sb_text = ''that act''\<rparr>]"

definition sample_containers :: "container list" where
  "sample_containers =
     [\<lparr>ct_id = 0, ct_role = CDocument, ct_parent = None\<rparr>, \<lparr>ct_id = 1, ct_role = CArticle, ct_parent = Some 0\<rparr>]"

definition sample_index :: structure_index where
  "sample_index = \<lparr>si_version = ''v'', si_blocks = sample_blocks, si_containers = sample_containers,
     si_membership = [(0, 0), (5, 1)]\<rparr>"

definition sample_overlay :: overlay where
  "sample_overlay =
     \<lparr>ov_frames =
        [\<lparr>fr_id = 1, fr_block = 0, fr_opens_series = True, fr_continues = False\<rparr>,
         \<lparr>fr_id = 2, fr_block = 5, fr_opens_series = False, fr_continues = True\<rparr>],
      ov_aliases = [], ov_heads = [(2, [1])], ov_declarations = []\<rparr>"

definition sample_citation :: construction_request where
  "sample_citation = (construction_request_new EarlierCitedAct 2 0)
     \<lparr>kr_anchor := Some \<lparr>an_block = 0, an_span = TextSpan 0 3\<rparr>, kr_explicit_target := Some 1\<rparr>"

lemma sample_build: "index_build ''v'' sample_blocks sample_containers [(0, 0), (5, 1)] = Inr sample_index"
  by code_simp

lemma ancestor_path_exact_witness:
  "ancestor_path sample_index 5 = Inr [1, 0] \<and> parent_chain sample_containers 1 [1, 0] \<and>
   ancestor_path sample_index 7 = Inl MissingContainer"
proof -
  have path: "ancestor_path sample_index 5 = Inr [1, 0]" by code_simp
  have "hm_get [(0 :: block_id, 0 :: container_id), (5, 1)] 5 = Some 1" by code_simp
  with path ancestor_path_exact [OF sample_build, of 5 "[1, 0]" MissingContainer]
  have "parent_chain sample_containers 1 [1, 0]" by simp
  moreover have "hm_get [(0 :: block_id, 0 :: container_id), (5, 1)] 7 = None" by code_simp
  with ancestor_path_exact [OF sample_build, of 7 "[]" MissingContainer]
  have "ancestor_path sample_index 7 = Inl MissingContainer" by simp
  ultimately show ?thesis using path by blast
qed

lemma worklist_exact_witness:
  "let r = request_new OpenSeriesHead 2; run = run_worklist [r, r] sample_index sample_overlay True 2 in
   rn_steps run = 1 \<and> rn_memo_hits run = 1 \<and> hm_get (rn_results run) r = Some (resolve r sample_index sample_overlay True 1)"
proof -
  let ?r = "request_new OpenSeriesHead 2"
  have "first_occurrences [?r, ?r] = [?r]" by (simp add: first_occurrences_def)
  with worklist_exact [where index = sample_index and ov = sample_overlay and avail = True and n = 2 and rs = "[?r, ?r]"]
  show ?thesis by (simp add: Let_def)
qed

lemma construction_resolved_iff_witness:
  "resolve_construction sample_citation sample_index sample_overlay False = CResolved EarlierCitedAct 1 [TextSpan 0 3] \<and>
   authorized sample_citation sample_index sample_overlay False 1 [TextSpan 0 3]"
proof -
  have "resolve_construction sample_citation sample_index sample_overlay False = CResolved EarlierCitedAct 1 [TextSpan 0 3]"
    by code_simp
  with construction_resolved_iff [OF sample_build, of sample_citation sample_overlay False EarlierCitedAct 1
      "[TextSpan 0 3]"] show ?thesis by simp
qed

end
