(* ===== verification/LN_Binding.thy ===== *)
theory LN_Binding
  imports LN_Context "HOL-Library.Multiset"
begin

text \<open>
  Proposed identity claims, \<open>crates/ln-temporal/src/identity_binding.rs\<close>: field claims read from a text, their
  assembly into a candidate for the identifying act, the projection of a complete candidate to an official identity
  claim, the candidates for reference bindings, and the counters of a run. \<open>str::to_lowercase\<close> is the parameter
  \<open>lower\<close>; a panic (the overflow of a counter) is \<open>None\<close>.
\<close>

section \<open>Field claims\<close>

definition MAX_IDENTITY_FIELD_CLAIMS_PER_BLOCK :: nat where
  "MAX_IDENTITY_FIELD_CLAIMS_PER_BLOCK = 32"

datatype field_kind = FType | FOrg | FGeo | FDate | FNumber | FName

text \<open>The derived order of the fields is the order of the declaration.\<close>

fun field_rank :: "field_kind \<Rightarrow> nat" where
  "field_rank FType = 0"
| "field_rank FOrg = 1"
| "field_rank FGeo = 2"
| "field_rank FDate = 3"
| "field_rank FNumber = 4"
| "field_rank FName = 5"

lemma field_rank_inject [simp]: "field_rank a = field_rank b \<longleftrightarrow> a = b"
  by (cases a; cases b) simp_all

instantiation field_kind :: linorder
begin

definition less_eq_field_kind :: "field_kind \<Rightarrow> field_kind \<Rightarrow> bool" where
  "less_eq_field_kind a b = (field_rank a \<le> field_rank b)"

definition less_field_kind :: "field_kind \<Rightarrow> field_kind \<Rightarrow> bool" where
  "less_field_kind a b = (field_rank a < field_rank b)"

instance
  by standard (auto simp: less_eq_field_kind_def less_field_kind_def)

end

datatype field_source = ExplicitMember | SameSeriesHead | PriorFrame | SourceCurrentRequisites

datatype field_status = SExplicit | SInherited | SConflicting | SUnresolved

record field_claim =
  fc_field :: field_kind
  fc_block :: block_id
  fc_span :: text_span
  fc_source :: field_source
  fc_status :: field_status
  fc_basis :: string

datatype field_claim_error = EmptyClaimSpan

definition field_claim_new :: "field_kind \<Rightarrow> block_id \<Rightarrow> text_span \<Rightarrow> field_source \<Rightarrow> field_status \<Rightarrow> string \<Rightarrow>
    field_claim_error + field_claim" where
  "field_claim_new field block span source status basis =
     (if span_start span = span_end span then Inl EmptyClaimSpan
      else Inr \<lparr>fc_field = field, fc_block = block, fc_span = span, fc_source = source, fc_status = status,
        fc_basis = basis\<rparr>)"

datatype act_type = ATFederal | ATPresidentialAgency | ATRegionalMunicipal | ATOther string

record act_candidate =
  ac_type :: act_type
  ac_type_claim :: field_claim
  ac_org :: "field_claim option"
  ac_geo :: "field_claim option"
  ac_date :: "field_claim option"
  ac_number :: "field_claim option"
  ac_title :: "field_claim option"

definition act_claims :: "act_candidate \<Rightarrow> field_claim list" where
  "act_claims act =
     List.map_filter (\<lambda>x. x)
       [Some (ac_type_claim act), ac_org act, ac_geo act, ac_date act, ac_number act, ac_title act]"

section \<open>Official identity claims\<close>

datatype identity_class = ICFederal | ICPresidentialAgency | ICRegionalMunicipal

datatype required_key = RKFederal | RKPresidentialAgency | RKRegionalMunicipal

fun required_fields :: "required_key \<Rightarrow> field_kind list" where
  "required_fields RKFederal = [FType, FNumber]"
| "required_fields RKPresidentialAgency = [FType, FOrg, FDate, FNumber]"
| "required_fields RKRegionalMunicipal = [FType, FOrg, FGeo, FDate, FNumber]"

fun key_of_class :: "identity_class \<Rightarrow> required_key" where
  "key_of_class ICFederal = RKFederal"
| "key_of_class ICPresidentialAgency = RKPresidentialAgency"
| "key_of_class ICRegionalMunicipal = RKRegionalMunicipal"

datatype proposed_lifecycle = LifecycleProposed

datatype geo_role = GeoDefault | GeoLoadBearing | GeoNotApplicable

record official_claim =
  oc_claim_id :: string
  oc_class :: identity_class
  oc_key :: required_key
  oc_type_claim :: field_claim
  oc_org :: "field_claim option"
  oc_geo :: "field_claim option"
  oc_date :: "field_claim option"
  oc_number :: field_claim
  oc_lifecycle :: proposed_lifecycle
  oc_geo_role :: geo_role

datatype identity_claim_outcome =
    IProposed official_claim
  | IIncomplete "field_kind list" string

fun identity_class_of :: "act_type \<Rightarrow> identity_class option" where
  "identity_class_of ATFederal = Some ICFederal"
| "identity_class_of ATPresidentialAgency = Some ICPresidentialAgency"
| "identity_class_of ATRegionalMunicipal = Some ICRegionalMunicipal"
| "identity_class_of (ATOther _) = None"

definition claim_is_authorized :: "field_claim option \<Rightarrow> bool" where
  "claim_is_authorized claim =
     (case claim of None \<Rightarrow> False | Some c \<Rightarrow> fc_status c \<in> {SExplicit, SInherited})"

definition anchor_part :: "field_claim \<Rightarrow> string" where
  "anchor_part c = anchor_text (fc_block c) (fc_span c)"

definition claim_order :: "field_claim \<Rightarrow> field_kind \<times> block_id \<times> text_span" where
  "claim_order c = (fc_field c, fc_block c, fc_span c)"

fun field_present :: "act_candidate \<Rightarrow> field_kind \<Rightarrow> bool" where
  "field_present act FType = claim_is_authorized (Some (ac_type_claim act))"
| "field_present act FOrg = claim_is_authorized (ac_org act)"
| "field_present act FGeo = claim_is_authorized (ac_geo act)"
| "field_present act FDate = claim_is_authorized (ac_date act)"
| "field_present act FNumber = claim_is_authorized (ac_number act)"
| "field_present act FName = True"

fun geo_role_of :: "identity_class \<Rightarrow> geo_role" where
  "geo_role_of ICFederal = GeoDefault"
| "geo_role_of ICRegionalMunicipal = GeoLoadBearing"
| "geo_role_of ICPresidentialAgency = GeoNotApplicable"

definition build_official_identity_claim :: "act_candidate \<Rightarrow> identity_claim_outcome" where
  "build_official_identity_claim act =
     (case identity_class_of (ac_type act) of
        None \<Rightarrow> IIncomplete [FType] ''act type is not an evidence-backed identity class''
      | Some class \<Rightarrow>
          let required = key_of_class class;
              missing = filter (\<lambda>f. \<not> field_present act f) (required_fields required)
          in case ac_number act of
            None \<Rightarrow>
              IIncomplete (if FNumber \<in> set missing then missing else missing @ [FNumber])
                ''number claim has no authorized provenance''
          | Some number \<Rightarrow>
              if missing \<noteq> [] then IIncomplete missing ''required identity key claim is absent or unresolved''
              else IProposed
                \<lparr>oc_claim_id = str_join ''|'' (map anchor_part (sort_key claim_order (act_claims act))),
                 oc_class = class, oc_key = required, oc_type_claim = ac_type_claim act, oc_org = ac_org act,
                 oc_geo = ac_geo act, oc_date = ac_date act, oc_number = number,
                 oc_lifecycle = LifecycleProposed, oc_geo_role = geo_role_of class\<rparr>)"

section \<open>Assembly\<close>

datatype assembly_rejection = ClaimLimit nat | InvalidGeoJurisdiction | UnresolvedTerminal terminal

datatype assembly_outcome =
    ACompatible act_candidate
  | AConflicting "field_claim list"
  | AIncomplete "field_kind list" "field_claim list"
  | ARejected assembly_rejection "field_claim list"

definition selected :: "field_claim list \<Rightarrow> field_kind \<Rightarrow> field_claim option" where
  "selected claims field = find (\<lambda>c. fc_field c = field \<and> fc_status c \<noteq> SUnresolved) claims"

definition distinct_values :: "field_claim list \<Rightarrow> field_kind \<Rightarrow> bool" where
  "distinct_values claims field =
     (case map fc_basis (filter (\<lambda>c. fc_field c = field) claims) of
        [] \<Rightarrow> False
      | first # values \<Rightarrow> list_ex (\<lambda>x. x \<noteq> first) values)"

text \<open>
  The Russian markers: a site, a station, a railway station, an address; stems of federal, president, agent, region,
  municipal, subject; the letter of the federal type; three names of the Russian Federation.
\<close>

definition address_markers :: "string list" where
  "address_markers =
     [utf8 [0x43F, 0x43B, 0x43E, 0x449, 0x430, 0x434, 0x43A, 0x430],
      utf8 [0x441, 0x442, 0x430, 0x43D, 0x446, 0x438, 0x44F],
      utf8 [0x432, 0x43E, 0x43A, 0x437, 0x430, 0x43B],
      utf8 [0x430, 0x434, 0x440, 0x435, 0x441]]"

definition is_address_marker :: "(string \<Rightarrow> string) \<Rightarrow> string \<Rightarrow> bool" where
  "is_address_marker lower value = list_ex (\<lambda>x. str_contains (lower value) x) address_markers"

definition federal_default_geo :: "string \<Rightarrow> bool" where
  "federal_default_geo value =
     (str_trim value \<in> set
        [utf8 [0x420, 0x43E, 0x441, 0x441, 0x438, 0x439, 0x441, 0x43A, 0x430, 0x44F, 0x20,
          0x424, 0x435, 0x434, 0x435, 0x440, 0x430, 0x446, 0x438, 0x44F],
         utf8 [0x420, 0x424],
         utf8 [0x420, 0x43E, 0x441, 0x441, 0x438, 0x44F]])"

definition is_federal :: "(string \<Rightarrow> string) \<Rightarrow> string \<Rightarrow> bool" where
  "is_federal lower v =
     (str_contains (lower v) (utf8 [0x444, 0x435, 0x434, 0x435, 0x440, 0x430, 0x43B]) \<or> v = utf8 [0x424])"

definition is_presidential :: "(string \<Rightarrow> string) \<Rightarrow> string \<Rightarrow> bool" where
  "is_presidential lower v =
     (str_contains (lower v) (utf8 [0x43F, 0x440, 0x435, 0x437, 0x438, 0x434, 0x435, 0x43D, 0x442]) \<or>
      str_contains (lower v) (utf8 [0x430, 0x433, 0x435, 0x43D, 0x442]))"

definition is_regional :: "(string \<Rightarrow> string) \<Rightarrow> string \<Rightarrow> bool" where
  "is_regional lower v =
     (str_contains (lower v) (utf8 [0x440, 0x435, 0x433, 0x438, 0x43E, 0x43D]) \<or>
      str_contains (lower v) (utf8 [0x43C, 0x443, 0x43D, 0x438, 0x446, 0x438, 0x43F]) \<or>
      str_contains (lower v) (utf8 [0x441, 0x443, 0x431, 0x44A, 0x435, 0x43A, 0x442]))"

definition classify_act_type :: "(string \<Rightarrow> string) \<Rightarrow> string \<Rightarrow> act_type" where
  "classify_act_type lower v =
     (if is_federal lower v then ATFederal
      else if is_presidential lower v then ATPresidentialAgency
      else if is_regional lower v then ATRegionalMunicipal
      else ATOther v)"

definition missing_for_type :: "act_type \<Rightarrow> field_claim list \<Rightarrow> field_kind list" where
  "missing_for_type act_type claims =
     (if selected claims FNumber = None then [FNumber] else []) @
     (if act_type \<in> {ATPresidentialAgency, ATRegionalMunicipal} \<and> selected claims FOrg = None then [FOrg] else []) @
     (if act_type = ATRegionalMunicipal \<and> selected claims FGeo = None then [FGeo] else [])"

definition assemble_identifying_act_with_limit :: "(string \<Rightarrow> string) \<Rightarrow> field_claim list \<Rightarrow> nat \<Rightarrow>
    assembly_outcome" where
  "assemble_identifying_act_with_limit lower unsorted limit =
     (let claims = sort_key claim_order unsorted in
      if length claims > limit then ARejected (ClaimLimit limit) (take limit claims)
      else if list_ex (\<lambda>c. fc_status c = SConflicting \<and> distinct_values claims (fc_field c)) claims
      then AConflicting claims
      else if distinct_values claims FOrg \<or> distinct_values claims FGeo \<or> distinct_values claims FType \<or>
        distinct_values claims FDate \<or> distinct_values claims FNumber
      then AConflicting claims
      else if list_ex (\<lambda>c. fc_field c = FGeo \<and> is_address_marker lower (fc_basis c)) claims
      then ARejected InvalidGeoJurisdiction claims
      else case selected claims FType of
        None \<Rightarrow> AIncomplete [FType] claims
      | Some type_claim \<Rightarrow>
          let act_type = classify_act_type lower (fc_basis type_claim);
              missing = missing_for_type act_type claims
          in if missing \<noteq> [] then AIncomplete missing claims
            else ACompatible
              \<lparr>ac_type = act_type, ac_type_claim = type_claim, ac_org = selected claims FOrg,
               ac_geo = selected claims FGeo, ac_date = selected claims FDate, ac_number = selected claims FNumber,
               ac_title = selected claims FName\<rparr>)"

definition assemble_identifying_act :: "(string \<Rightarrow> string) \<Rightarrow> field_claim list \<Rightarrow> assembly_outcome" where
  "assemble_identifying_act lower claims =
     assemble_identifying_act_with_limit lower claims MAX_IDENTITY_FIELD_CLAIMS_PER_BLOCK"

definition assemble_from_terminal :: "(string \<Rightarrow> string) \<Rightarrow> field_claim list \<Rightarrow> terminal \<Rightarrow> assembly_outcome" where
  "assemble_from_terminal lower claims terminal =
     (if terminal = TResolved then assemble_identifying_act lower claims
      else ARejected (UnresolvedTerminal terminal) claims)"

definition split_collapsed_source_city :: "block_id \<Rightarrow> text_span \<Rightarrow> text_span \<Rightarrow> string \<Rightarrow> string \<Rightarrow>
    field_claim_error + field_claim \<times> field_claim" where
  "split_collapsed_source_city block org_span geo_span org geo =
     (case field_claim_new FOrg block org_span ExplicitMember SExplicit org of
        Inl e \<Rightarrow> Inl e
      | Inr o_claim \<Rightarrow>
          (case field_claim_new FGeo block geo_span ExplicitMember SExplicit geo of
             Inl e \<Rightarrow> Inl e
           | Inr g_claim \<Rightarrow> Inr (o_claim, g_claim)))"

section \<open>Reference bindings\<close>

definition MAX_EXPANDED_CANDIDATES :: nat where
  "MAX_EXPANDED_CANDIDATES = 64"

datatype binding_error = EmptyAnchor | EmptyEndpoint

record reference_endpoint =
  re_value :: string
  re_anchor :: text_span

definition reference_endpoint_new :: "string \<Rightarrow> text_span \<Rightarrow> binding_error + reference_endpoint" where
  "reference_endpoint_new value anchor =
     (if span_start anchor = span_end anchor then Inl EmptyAnchor
      else if value = [] then Inl EmptyEndpoint
      else Inr \<lparr>re_value = value, re_anchor = anchor\<rparr>)"

record endpoint_pair =
  ep_lower :: reference_endpoint
  ep_upper :: reference_endpoint

datatype binding_endpoints = BSingle reference_endpoint | BPair endpoint_pair

fun endpoints_len :: "binding_endpoints \<Rightarrow> nat" where
  "endpoints_len (BSingle _) = 1"
| "endpoints_len (BPair _) = 2"

record expansion_limit =
  el_requested :: nat
  el_limit :: nat

definition expand_range_to_endpoints :: "reference_endpoint \<Rightarrow> reference_endpoint \<Rightarrow> nat \<Rightarrow>
    expansion_limit + endpoint_pair" where
  "expand_range_to_endpoints lo hi requested =
     (if requested > MAX_EXPANDED_CANDIDATES
      then Inl \<lparr>el_requested = requested, el_limit = MAX_EXPANDED_CANDIDATES\<rparr>
      else Inr \<lparr>ep_lower = lo, ep_upper = hi\<rparr>)"

datatype bound_target = TargetClaim string | TargetUnresolved

datatype binding_status = BindingProposed

record binding_candidate =
  bc_mention_anchor :: text_span
  bc_source_ref :: string
  bc_target :: bound_target
  bc_endpoints :: binding_endpoints
  bc_status :: binding_status

definition binding_candidate_new :: "text_span \<Rightarrow> string \<Rightarrow> bound_target \<Rightarrow> binding_endpoints \<Rightarrow>
    binding_error + binding_candidate" where
  "binding_candidate_new mention_anchor source_ref target endpoints =
     (if span_start mention_anchor = span_end mention_anchor then Inl EmptyAnchor
      else Inr \<lparr>bc_mention_anchor = mention_anchor, bc_source_ref = source_ref, bc_target = target,
        bc_endpoints = endpoints, bc_status = BindingProposed\<rparr>)"

datatype binding_unresolved_reason = MissingTargetClaim | IncompatibleIdentityClaim | ContextTerminal terminal

datatype binding_outcome =
    BCandidate binding_candidate
  | BUnresolved binding_unresolved_reason
  | BConflicting "binding_candidate list"
  | BExpansionLimit expansion_limit

section \<open>Run counters\<close>

record identity_counters =
  idc_false_identity_mint :: nat
  idc_false_link :: nat
  idc_claims_total :: nat
  idc_acts_total :: nat
  idc_identity_claims_total :: nat
  idc_bindings_total :: nat
  idc_endpoint_pairs_total :: nat
  idc_unresolved_total :: nat
  idc_conflicting_total :: nat
  idc_expansion_limit_total :: nat

definition identity_run_new :: identity_counters where
  "identity_run_new =
     \<lparr>idc_false_identity_mint = 0, idc_false_link = 0, idc_claims_total = 0, idc_acts_total = 0,
      idc_identity_claims_total = 0, idc_bindings_total = 0, idc_endpoint_pairs_total = 0,
      idc_unresolved_total = 0, idc_conflicting_total = 0, idc_expansion_limit_total = 0\<rparr>"

datatype identity_event = FalseIdentityMint | FalseLink

text \<open>A counter is a \<open>usize\<close>: an addition beyond its maximum panics.\<close>

definition usize_add :: "nat \<Rightarrow> nat \<Rightarrow> nat option" where
  "usize_add a b = (if a + b < u64_limit then Some (a + b) else None)"

fun outcome_claims :: "assembly_outcome \<Rightarrow> nat" where
  "outcome_claims (ACompatible act) = length (act_claims act)"
| "outcome_claims (AConflicting retained) = length retained"
| "outcome_claims (AIncomplete _ retained) = length retained"
| "outcome_claims (ARejected _ retained) = length retained"

definition record_act_outcome :: "assembly_outcome \<Rightarrow> identity_counters \<Rightarrow> identity_counters option" where
  "record_act_outcome outcome run =
     Option.bind (usize_add (idc_acts_total run) 1) (\<lambda>acts.
       Option.bind (usize_add (idc_claims_total run) (outcome_claims outcome)) (\<lambda>claims.
         Some (run\<lparr>idc_acts_total := acts, idc_claims_total := claims\<rparr>)))"

definition record_identity_claim_outcome :: "identity_claim_outcome \<Rightarrow> identity_counters \<Rightarrow>
    identity_counters option" where
  "record_identity_claim_outcome outcome run =
     Option.bind (usize_add (idc_identity_claims_total run) 1) (\<lambda>total.
       case outcome of
         IIncomplete _ _ \<Rightarrow>
           Option.bind (usize_add (idc_unresolved_total run) 1) (\<lambda>unresolved.
             Some (run\<lparr>idc_identity_claims_total := total, idc_unresolved_total := unresolved\<rparr>))
       | IProposed _ \<Rightarrow> Some (run\<lparr>idc_identity_claims_total := total\<rparr>))"

definition record_binding_outcome :: "binding_outcome \<Rightarrow> identity_counters \<Rightarrow> identity_counters option" where
  "record_binding_outcome outcome run =
     Option.bind (usize_add (idc_bindings_total run) 1) (\<lambda>total.
       let run = run\<lparr>idc_bindings_total := total\<rparr> in
       case outcome of
         BCandidate candidate \<Rightarrow>
           if endpoints_len (bc_endpoints candidate) = 2
           then map_option (\<lambda>n. run\<lparr>idc_endpoint_pairs_total := n\<rparr>) (usize_add (idc_endpoint_pairs_total run) 1)
           else Some run
       | BUnresolved _ \<Rightarrow> map_option (\<lambda>n. run\<lparr>idc_unresolved_total := n\<rparr>) (usize_add (idc_unresolved_total run) 1)
       | BConflicting _ \<Rightarrow>
           map_option (\<lambda>n. run\<lparr>idc_conflicting_total := n\<rparr>) (usize_add (idc_conflicting_total run) 1)
       | BExpansionLimit _ \<Rightarrow>
           map_option (\<lambda>n. run\<lparr>idc_expansion_limit_total := n\<rparr>) (usize_add (idc_expansion_limit_total run) 1))"

definition record_identity_event :: "identity_event \<Rightarrow> identity_counters \<Rightarrow> identity_counters option" where
  "record_identity_event event run =
     (case event of
        FalseIdentityMint \<Rightarrow>
          map_option (\<lambda>n. run\<lparr>idc_false_identity_mint := n\<rparr>) (usize_add (idc_false_identity_mint run) 1)
      | FalseLink \<Rightarrow> map_option (\<lambda>n. run\<lparr>idc_false_link := n\<rparr>) (usize_add (idc_false_link run) 1))"

datatype identity_violation = MintViolation | LinkViolation

definition verify_identity_zero_tolerance :: "identity_counters \<Rightarrow> identity_violation list + unit" where
  "verify_identity_zero_tolerance c =
     (let violations =
        (if idc_false_identity_mint c \<noteq> 0 then [MintViolation] else []) @
        (if idc_false_link c \<noteq> 0 then [LinkViolation] else [])
      in if violations = [] then Inr () else Inl violations)"

text \<open>\<open>render_identity_run_json\<close>: the members in a fixed order.\<close>

definition json_member :: "string \<Rightarrow> nat \<Rightarrow> string" where
  "json_member name n = CHR 0x22 # name @ CHR 0x22 # '':'' @ show_nat n"

definition render_identity_run_json :: "identity_counters \<Rightarrow> string" where
  "render_identity_run_json c =
     ''{'' @ str_join '',''
       [json_member ''false_identity_mint'' (idc_false_identity_mint c),
        json_member ''false_link'' (idc_false_link c),
        json_member ''claims_total'' (idc_claims_total c),
        json_member ''acts_total'' (idc_acts_total c),
        json_member ''identity_claims_total'' (idc_identity_claims_total c),
        json_member ''bindings_total'' (idc_bindings_total c),
        json_member ''endpoint_pairs_total'' (idc_endpoint_pairs_total c),
        json_member ''unresolved_total'' (idc_unresolved_total c),
        json_member ''conflicting_total'' (idc_conflicting_total c),
        json_member ''expansion_limit_total'' (idc_expansion_limit_total c)] @ ''}''"

section \<open>Assembly of claims\<close>

lemma distinct_values_iff:
  "distinct_values cs f \<longleftrightarrow>
     (\<exists>c\<in>set cs. \<exists>d\<in>set cs. fc_field c = f \<and> fc_field d = f \<and> fc_basis c \<noteq> fc_basis d)"
proof (cases "filter (\<lambda>c. fc_field c = f) cs")
  case Nil
  then show ?thesis by (auto simp: distinct_values_def filter_empty_conv)
next
  case (Cons c ds)
  have mem: "d \<in> set (c # ds) \<longleftrightarrow> d \<in> set cs \<and> fc_field d = f" for d
    unfolding Cons [symmetric] by auto
  have "distinct_values cs f \<longleftrightarrow> (\<exists>d\<in>set (c # ds). fc_basis d \<noteq> fc_basis c)"
    by (auto simp: distinct_values_def Cons list_ex_iff)
  also have "\<dots> \<longleftrightarrow> (\<exists>a\<in>set (c # ds). \<exists>b\<in>set (c # ds). fc_basis a \<noteq> fc_basis b)"
    by (metis list.set_intros(1))
  also have "\<dots> \<longleftrightarrow> (\<exists>c\<in>set cs. \<exists>d\<in>set cs. fc_field c = f \<and> fc_field d = f \<and> fc_basis c \<noteq> fc_basis d)"
    unfolding Bex_def mem by blast
  finally show ?thesis .
qed

lemma selected_Some: "selected cs f = Some c \<Longrightarrow> c \<in> set cs \<and> fc_field c = f \<and> fc_status c \<noteq> SUnresolved"
  by (auto simp: selected_def dest: find_Some_in)

lemma selected_None: "selected cs f = None \<longleftrightarrow> (\<forall>c\<in>set cs. fc_field c = f \<longrightarrow> fc_status c = SUnresolved)"
  by (auto simp: selected_def find_None_iff)

text \<open>All claims about a field give it the same value.\<close>

definition agrees_on :: "field_claim list \<Rightarrow> field_kind \<Rightarrow> bool" where
  "agrees_on cs f = (\<forall>c\<in>set cs. \<forall>d\<in>set cs. fc_field c = f \<longrightarrow> fc_field d = f \<longrightarrow> fc_basis c = fc_basis d)"

lemma agrees_on_distinct: "agrees_on cs f \<longleftrightarrow> \<not> distinct_values cs f"
  by (auto simp: agrees_on_def distinct_values_iff)

lemma missing_for_type_Nil:
  "missing_for_type a cs = [] \<longleftrightarrow> selected cs FNumber \<noteq> None \<and>
     (a \<in> {ATPresidentialAgency, ATRegionalMunicipal} \<longrightarrow> selected cs FOrg \<noteq> None) \<and>
     (a = ATRegionalMunicipal \<longrightarrow> selected cs FGeo \<noteq> None)"
  by (auto simp: missing_for_type_def)

lemma all_fields:
  "(\<forall>f. f \<noteq> FName \<longrightarrow> P f) \<longleftrightarrow> P FType \<and> P FOrg \<and> P FGeo \<and> P FDate \<and> P FNumber"
proof
  assume *: "P FType \<and> P FOrg \<and> P FGeo \<and> P FDate \<and> P FNumber"
  show "\<forall>f. f \<noteq> FName \<longrightarrow> P f"
  proof (intro allI impI)
    fix f assume "f \<noteq> FName"
    with * show "P f" by (cases f) simp_all
  qed
qed simp

text \<open>The one case of the assembly that yields a candidate.\<close>

lemma assemble_compatible_iff:
  "assemble_identifying_act_with_limit lower cs n = ACompatible act \<longleftrightarrow>
     length cs \<le> n \<and> (\<forall>f. f \<noteq> FName \<longrightarrow> agrees_on cs f) \<and>
     (\<forall>c\<in>set cs. fc_status c = SConflicting \<longrightarrow> agrees_on cs (fc_field c)) \<and>
     (\<forall>c\<in>set cs. fc_field c = FGeo \<longrightarrow> \<not> is_address_marker lower (fc_basis c)) \<and>
     (let ss = sort_key claim_order cs in
      selected ss FType = Some (ac_type_claim act) \<and>
      ac_type act = classify_act_type lower (fc_basis (ac_type_claim act)) \<and>
      missing_for_type (ac_type act) ss = [] \<and>
      ac_org act = selected ss FOrg \<and> ac_geo act = selected ss FGeo \<and> ac_date act = selected ss FDate \<and>
      ac_number act = selected ss FNumber \<and> ac_title act = selected ss FName)"
proof -
  let ?ss = "sort_key claim_order cs"
  have agree: "agrees_on ?ss f = agrees_on cs f" for f by (simp add: agrees_on_def)
  then have vals: "distinct_values ?ss f = distinct_values cs f" for f by (simp add: agrees_on_distinct)
  have five: "(distinct_values ?ss FOrg \<or> distinct_values ?ss FGeo \<or> distinct_values ?ss FType \<or>
      distinct_values ?ss FDate \<or> distinct_values ?ss FNumber) \<longleftrightarrow> \<not> (\<forall>f. f \<noteq> FName \<longrightarrow> agrees_on cs f)"
    unfolding all_fields vals by (auto simp: agrees_on_distinct)
  have conf: "list_ex (\<lambda>c. fc_status c = SConflicting \<and> distinct_values ?ss (fc_field c)) ?ss \<longleftrightarrow>
      \<not> (\<forall>c\<in>set cs. fc_status c = SConflicting \<longrightarrow> agrees_on cs (fc_field c))"
    by (auto simp: list_ex_iff vals agrees_on_distinct)
  have geo: "list_ex (\<lambda>c. fc_field c = FGeo \<and> is_address_marker lower (fc_basis c)) ?ss \<longleftrightarrow>
      \<not> (\<forall>c\<in>set cs. fc_field c = FGeo \<longrightarrow> \<not> is_address_marker lower (fc_basis c))"
    by (auto simp: list_ex_iff)
  have len: "length ?ss > n \<longleftrightarrow> \<not> length cs \<le> n" by auto
  show ?thesis
    unfolding assemble_identifying_act_with_limit_def Let_def conf five geo len
    by (cases act) (auto split: option.splits)
qed

lemma build_proposed_iff:
  "build_official_identity_claim act = IProposed oc \<longleftrightarrow>
     (\<exists>cls number. identity_class_of (ac_type act) = Some cls \<and> ac_number act = Some number \<and>
        (\<forall>f\<in>set (required_fields (key_of_class cls)). field_present act f) \<and>
        oc = \<lparr>oc_claim_id = str_join ''|'' (map anchor_part (sort_key claim_order (act_claims act))),
          oc_class = cls, oc_key = key_of_class cls, oc_type_claim = ac_type_claim act, oc_org = ac_org act,
          oc_geo = ac_geo act, oc_date = ac_date act, oc_number = number,
          oc_lifecycle = LifecycleProposed, oc_geo_role = geo_role_of cls\<rparr>)"
  by (auto simp: build_official_identity_claim_def Let_def filter_empty_conv split: option.splits)

lemma authorized_claim:
  "claim_is_authorized x \<longleftrightarrow> (\<exists>c. x = Some c \<and> fc_status c \<in> {SExplicit, SInherited})"
  by (auto simp: claim_is_authorized_def split: option.splits)

text \<open>What an assembled candidate holds for a field is a claim that was given, about that field.\<close>

lemma assembled_field_present:
  assumes "assemble_identifying_act_with_limit lower cs n = ACompatible act" "field_present act f" "f \<noteq> FName"
  shows "\<exists>c\<in>set cs. fc_field c = f \<and> fc_status c \<in> {SExplicit, SInherited}"
  using assms(2,3) assms(1) [unfolded assemble_compatible_iff Let_def]
  by (cases f) (auto simp: authorized_claim dest!: selected_Some intro: rev_bexI)

lemma official_claim_facts:
  assumes assembled: "assemble_from_terminal lower cs terminal = ACompatible act"
    and proposed: "build_official_identity_claim act = IProposed oc"
  shows "terminal = TResolved \<and> length cs \<le> 32 \<and> oc_lifecycle oc = LifecycleProposed \<and>
    oc_key oc = key_of_class (oc_class oc) \<and>
    identity_class_of (classify_act_type lower (fc_basis (oc_type_claim oc))) = Some (oc_class oc) \<and>
    (\<forall>c\<in>set cs. fc_field c = FGeo \<longrightarrow> \<not> is_address_marker lower (fc_basis c)) \<and>
    (\<forall>f\<in>set (required_fields (oc_key oc)). agrees_on cs f \<and>
       (\<exists>c\<in>set cs. fc_field c = f \<and> fc_status c \<in> {SExplicit, SInherited}))"
proof -
  from assembled have t: "terminal = TResolved" and a: "assemble_identifying_act_with_limit lower cs 32 = ACompatible act"
    by (auto simp: assemble_from_terminal_def assemble_identifying_act_def MAX_IDENTITY_FIELD_CLAIMS_PER_BLOCK_def
        split: if_splits)
  note facts = a [unfolded assemble_compatible_iff Let_def]
  from proposed have oc: "identity_class_of (ac_type act) = Some (oc_class oc)" "oc_key oc = key_of_class (oc_class oc)"
    "oc_type_claim oc = ac_type_claim act" "oc_lifecycle oc = LifecycleProposed"
    "\<forall>f\<in>set (required_fields (oc_key oc)). field_present act f"
    by (auto simp: build_proposed_iff)
  have "f \<noteq> FName" if "f \<in> set (required_fields k)" for f k using that by (cases k) auto
  then have grounded: "agrees_on cs f \<and> (\<exists>c\<in>set cs. fc_field c = f \<and> fc_status c \<in> {SExplicit, SInherited})"
    if "f \<in> set (required_fields (oc_key oc))" for f
    using that facts oc(5) assembled_field_present [OF a, of f] by simp
  have "identity_class_of (classify_act_type lower (fc_basis (oc_type_claim oc))) = Some (oc_class oc)"
    using facts oc(1,3) by simp
  with t facts oc(2,4) grounded show ?thesis by blast
qed

text \<open>C23. 
  An official identity claim is grounded in what was read. If a proposal comes out of the assembly of some claims, then
  the document context was resolved, the block is within its budget, the claims do not contradict each other on any
  field of the key, the geography is no address, the class is the one that the written act type says, and every field
  of the class's natural key has a claim among the given ones that is explicit or inherited. The result is a proposal
  and nothing more.
\<close>

theorem official_claim_grounded:
  assumes assembled: "assemble_from_terminal lower cs terminal = ACompatible act"
    and proposed: "build_official_identity_claim act = IProposed oc"
  shows "terminal = TResolved \<and> length cs \<le> 32 \<and> oc_lifecycle oc = LifecycleProposed \<and>
    oc_key oc = key_of_class (oc_class oc) \<and>
    identity_class_of (classify_act_type lower (fc_basis (oc_type_claim oc))) = Some (oc_class oc) \<and>
    (\<forall>c\<in>set cs. fc_field c = FGeo \<longrightarrow> \<not> is_address_marker lower (fc_basis c)) \<and>
    (\<forall>f\<in>set (required_fields (oc_key oc)). agrees_on cs f \<and>
       (\<exists>c\<in>set cs. fc_field c = f \<and> fc_status c \<in> {SExplicit, SInherited}))"
  using assms by (rule official_claim_facts)

text \<open>C24. 
  When every claim is explicit or inherited, a proposal comes out exactly when the context is resolved, the budget is
  kept, no field but the name is contradicted, no geography is an address, and the claims name an act type of a known
  class and every field of that class's key. In particular nothing else can block a complete identity.
\<close>

theorem official_claim_exact:
  assumes status: "\<forall>c\<in>set cs. fc_status c \<in> {SExplicit, SInherited}"
  shows "(\<exists>act oc. assemble_from_terminal lower cs terminal = ACompatible act \<and>
       build_official_identity_claim act = IProposed oc) \<longleftrightarrow>
    terminal = TResolved \<and> length cs \<le> 32 \<and> (\<forall>f. f \<noteq> FName \<longrightarrow> agrees_on cs f) \<and>
    (\<forall>c\<in>set cs. fc_field c = FGeo \<longrightarrow> \<not> is_address_marker lower (fc_basis c)) \<and>
    (\<exists>t\<in>set cs. fc_field t = FType \<and>
       (\<exists>cls. identity_class_of (classify_act_type lower (fc_basis t)) = Some cls \<and>
          (\<forall>f\<in>set (required_fields (key_of_class cls)). \<exists>c\<in>set cs. fc_field c = f)))"
    (is "?lhs \<longleftrightarrow> ?rhs")
proof
  assume ?lhs
  then obtain act oc where a: "assemble_from_terminal lower cs terminal = ACompatible act"
    and b: "build_official_identity_claim act = IProposed oc" by blast
  have "assemble_identifying_act_with_limit lower cs 32 = ACompatible act"
    using a by (auto simp: assemble_from_terminal_def assemble_identifying_act_def
        MAX_IDENTITY_FIELD_CLAIMS_PER_BLOCK_def split: if_splits)
  note facts = this [unfolded assemble_compatible_iff Let_def]
  have "oc_type_claim oc = ac_type_claim act" using b by (auto simp: build_proposed_iff)
  moreover have "ac_type_claim act \<in> set cs \<and> fc_field (ac_type_claim act) = FType"
    using facts by (auto dest!: selected_Some)
  ultimately show ?rhs using facts official_claim_facts [OF a b] by metis
next
  assume rhs: ?rhs
  then obtain t cls where t: "t \<in> set cs" "fc_field t = FType"
    and cls: "identity_class_of (classify_act_type lower (fc_basis t)) = Some cls"
    and fields: "\<forall>f\<in>set (required_fields (key_of_class cls)). \<exists>c\<in>set cs. fc_field c = f" by blast
  let ?ss = "sort_key claim_order cs"
  have sel: "\<exists>c. selected ?ss f = Some c \<and> c \<in> set cs \<and> fc_field c = f \<and> fc_status c \<in> {SExplicit, SInherited}"
    if "\<exists>c\<in>set cs. fc_field c = f" for f
  proof -
    from that obtain c where "c \<in> set cs" "fc_field c = f" by blast
    with status have "c \<in> set ?ss" "fc_field c = f" "fc_status c \<noteq> SUnresolved" by auto
    then have "selected ?ss f \<noteq> None" unfolding selected_None by blast
    then obtain c where "selected ?ss f = Some c" by auto
    with selected_Some [OF this] status show ?thesis by auto
  qed
  obtain tc where tc: "selected ?ss FType = Some tc" "tc \<in> set cs" "fc_field tc = FType"
    "fc_status tc \<in> {SExplicit, SInherited}" using sel [of FType] t by blast
  have "agrees_on cs FType" using rhs by blast
  then have basis: "fc_basis tc = fc_basis t" using t tc(2,3) unfolding agrees_on_def by blast
  define act where "act = \<lparr>ac_type = classify_act_type lower (fc_basis tc), ac_type_claim = tc,
    ac_org = selected ?ss FOrg, ac_geo = selected ?ss FGeo, ac_date = selected ?ss FDate,
    ac_number = selected ?ss FNumber, ac_title = selected ?ss FName\<rparr>"
  have present: "field_present act f" if "f \<in> set (required_fields (key_of_class cls))" for f
  proof -
    from fields that have "\<exists>c\<in>set cs. fc_field c = f" by blast
    then obtain c where "selected ?ss f = Some c" "fc_status c \<in> {SExplicit, SInherited}" using sel [of f] by blast
    with tc(1,4) show ?thesis by (cases f) (simp_all add: act_def authorized_claim)
  qed
  have chosen: "selected ?ss f \<noteq> None" if "f \<in> set (required_fields (key_of_class cls))" for f
  proof -
    from fields that have "\<exists>c\<in>set cs. fc_field c = f" by blast
    then obtain c where "selected ?ss f = Some c" using sel [of f] by blast
    then show ?thesis by simp
  qed
  have number: "selected ?ss FNumber \<noteq> None" by (rule chosen) (cases cls; simp)
  have "missing_for_type (ac_type act) ?ss = []"
    using number chosen [of FOrg] chosen [of FGeo] cls
    by (cases "classify_act_type lower (fc_basis t)") (auto simp: missing_for_type_Nil act_def basis)
  then have "assemble_identifying_act_with_limit lower cs 32 = ACompatible act"
    using rhs status tc(1) unfolding assemble_compatible_iff Let_def by (fastforce simp: act_def)
  moreover have "\<exists>oc. build_official_identity_claim act = IProposed oc"
    unfolding build_proposed_iff using cls basis number present by (auto simp: act_def)
  ultimately show ?lhs using rhs
    by (auto simp: assemble_from_terminal_def assemble_identifying_act_def MAX_IDENTITY_FIELD_CLAIMS_PER_BLOCK_def)
qed

text \<open>
  The order in which claims are given does not matter, as long as no two different claims are about the same field at
  the same place: the assembly sorts them first, and two such lists have the same outcome.
\<close>

theorem assembly_order_independent:
  assumes "mset cs = mset ds" "inj_on claim_order (set cs)"
  shows "assemble_identifying_act_with_limit lower cs n = assemble_identifying_act_with_limit lower ds n"
proof -
  have "sort_key claim_order ds = sort_key claim_order cs"
  proof (rule sort_key_inj_key_eq [symmetric])
    show "mset cs = mset (sort_key claim_order ds)" using assms(1) by simp
  qed (use assms in simp_all)
  then show ?thesis
    by (simp add: assemble_identifying_act_with_limit_def)
qed

text \<open>
  A claim whose status is conflicting shadows the explicit claims of its field that follow it in the text, although
  all of them agree: the assembly accepts the claims as compatible and then selects the first one that is not
  unresolved, and the projection refuses the field as absent or unresolved.
\<close>

theorem conflicting_claim_shadows_explicit:
  assumes assembled: "assemble_identifying_act lower cs = ACompatible act"
    and first: "selected (sort_key claim_order cs) FNumber = Some c" "fc_status c = SConflicting"
  shows "build_official_identity_claim act =
    IIncomplete [FType] ''act type is not an evidence-backed identity class'' \<or>
    (\<exists>missing. build_official_identity_claim act =
       IIncomplete missing ''required identity key claim is absent or unresolved'' \<and> FNumber \<in> set missing)"
proof (cases "identity_class_of (ac_type act)")
  case None
  then show ?thesis by (simp add: build_official_identity_claim_def)
next
  case (Some cls)
  have "ac_number act = Some c"
    using assembled first by (simp add: assemble_identifying_act_def assemble_compatible_iff Let_def)
  then have "\<not> field_present act FNumber" using first by (simp add: claim_is_authorized_def)
  moreover have "FNumber \<in> set (required_fields (key_of_class cls))" by (cases cls) simp_all
  moreover define missing where "missing = filter (\<lambda>f. \<not> field_present act f) (required_fields (key_of_class cls))"
  ultimately have "FNumber \<in> set missing" by simp
  moreover from this have "missing \<noteq> []" by auto
  ultimately show ?thesis using Some \<open>ac_number act = Some c\<close>
    by (simp add: build_official_identity_claim_def Let_def missing_def)
qed

text \<open>The identifier of a proposal lists the places of its claims, so equal identifiers mean the same places.\<close>

lemma act_claims_nonempty: "act_claims act \<noteq> []"
  by (simp add: act_claims_def map_filter_simps)

lemma claim_id_determines_anchors:
  assumes "build_official_identity_claim a = IProposed x" "build_official_identity_claim b = IProposed y"
    and "oc_claim_id x = oc_claim_id y"
  shows "map (\<lambda>c. (fc_block c, fc_span c)) (sort_key claim_order (act_claims a)) =
    map (\<lambda>c. (fc_block c, fc_span c)) (sort_key claim_order (act_claims b))"
proof (rule anchor_list_inject)
  have parts: "map (\<lambda>(b, s). anchor_text b s) (map (\<lambda>c. (fc_block c, fc_span c)) cs) = map anchor_part cs" for cs
    by (simp add: anchor_part_def)
  show "str_join ''|'' (map (\<lambda>(b, s). anchor_text b s) (map (\<lambda>c. (fc_block c, fc_span c)) (sort_key claim_order (act_claims a)))) =
      str_join ''|'' (map (\<lambda>(b, s). anchor_text b s) (map (\<lambda>c. (fc_block c, fc_span c)) (sort_key claim_order (act_claims b))))"
    using assms unfolding parts by (auto simp: build_proposed_iff)
  have "map (\<lambda>c. (fc_block c, fc_span c)) (sort_key claim_order (act_claims x)) \<noteq> []" for x
    using act_claims_nonempty [of x] by (metis Nil_is_map_conv length_0_conv length_sort)
  then show "map (\<lambda>c. (fc_block c, fc_span c)) (sort_key claim_order (act_claims a)) \<noteq> []"
    "map (\<lambda>c. (fc_block c, fc_span c)) (sort_key claim_order (act_claims b)) \<noteq> []" by blast+
qed

section \<open>Counters\<close>

text \<open>A run as the list of what is recorded, and what it counts.\<close>

datatype recording = RecAct assembly_outcome | RecClaim identity_claim_outcome | RecBinding binding_outcome
  | RecEvent identity_event

fun record_one :: "recording \<Rightarrow> identity_counters \<Rightarrow> identity_counters option" where
  "record_one (RecAct x) c = record_act_outcome x c"
| "record_one (RecClaim x) c = record_identity_claim_outcome x c"
| "record_one (RecBinding x) c = record_binding_outcome x c"
| "record_one (RecEvent x) c = record_identity_event x c"

fun record_all :: "recording list \<Rightarrow> identity_counters \<Rightarrow> identity_counters option" where
  "record_all [] c = Some c"
| "record_all (x # xs) c = Option.bind (record_one x c) (record_all xs)"

definition counts :: "(recording \<Rightarrow> bool) \<Rightarrow> recording list \<Rightarrow> nat" where
  "counts P xs = length (filter P xs)"

lemma usize_add_Some: "usize_add a b = Some n \<longleftrightarrow> n = a + b \<and> a + b < u64_limit"
  by (auto simp: usize_add_def)

lemma record_one_counters:
  assumes "record_one x c = Some d"
  shows "idc_false_identity_mint d = idc_false_identity_mint c + (if x = RecEvent FalseIdentityMint then 1 else 0) \<and>
    idc_false_link d = idc_false_link c + (if x = RecEvent FalseLink then 1 else 0) \<and>
    idc_acts_total d = idc_acts_total c + (case x of RecAct _ \<Rightarrow> 1 | _ \<Rightarrow> 0) \<and>
    idc_claims_total d = idc_claims_total c + (case x of RecAct a \<Rightarrow> outcome_claims a | _ \<Rightarrow> 0) \<and>
    idc_identity_claims_total d = idc_identity_claims_total c + (case x of RecClaim _ \<Rightarrow> 1 | _ \<Rightarrow> 0) \<and>
    idc_bindings_total d = idc_bindings_total c + (case x of RecBinding _ \<Rightarrow> 1 | _ \<Rightarrow> 0)"
proof (cases x)
  case (RecAct a)
  with assms show ?thesis by (auto simp: record_act_outcome_def usize_add_Some Option.bind_eq_Some_conv)
next
  case (RecClaim a)
  with assms show ?thesis
    by (cases a) (auto simp: record_identity_claim_outcome_def usize_add_Some Option.bind_eq_Some_conv)
next
  case (RecBinding a)
  with assms show ?thesis
    by (cases a) (auto simp: record_binding_outcome_def usize_add_Some Option.bind_eq_Some_conv Let_def split: if_splits)
next
  case (RecEvent a)
  with assms show ?thesis by (cases a) (auto simp: record_identity_event_def usize_add_Some)
qed

text \<open>
  A run that is recorded from the start passes the zero-tolerance check exactly when no hostile event was recorded:
  outcomes never move a hostile counter, whatever they are.
\<close>

theorem identity_run_zero_tolerance:
  assumes "record_all xs identity_run_new = Some c"
  shows "idc_false_identity_mint c = counts (\<lambda>x. x = RecEvent FalseIdentityMint) xs \<and>
    idc_false_link c = counts (\<lambda>x. x = RecEvent FalseLink) xs \<and>
    (verify_identity_zero_tolerance c = Inr () \<longleftrightarrow> (\<forall>e. RecEvent e \<notin> set xs))"
proof -
  have run: "record_all xs c = Some d \<Longrightarrow>
      idc_false_identity_mint d = idc_false_identity_mint c + counts (\<lambda>x. x = RecEvent FalseIdentityMint) xs \<and>
      idc_false_link d = idc_false_link c + counts (\<lambda>x. x = RecEvent FalseLink) xs" for c d
  proof (induction xs arbitrary: c)
    case (Cons x xs)
    then obtain c' where c': "record_one x c = Some c'" "record_all xs c' = Some d"
      by (auto simp: Option.bind_eq_Some_conv)
    with Cons.IH record_one_counters [OF c'(1)] show ?case by (auto simp: counts_def)
  qed (simp add: counts_def)
  have "counts P xs = 0 \<longleftrightarrow> (\<forall>x\<in>set xs. \<not> P x)" for P by (simp add: counts_def filter_empty_conv)
  moreover have "(\<forall>e. RecEvent e \<notin> set xs) \<longleftrightarrow> RecEvent FalseIdentityMint \<notin> set xs \<and> RecEvent FalseLink \<notin> set xs"
    by (metis identity_event.exhaust)
  ultimately show ?thesis using run [OF assms]
    by (auto simp: identity_run_new_def verify_identity_zero_tolerance_def Let_def)
qed

section \<open>Witnesses\<close>

definition sample_claim :: "field_kind \<Rightarrow> nat \<Rightarrow> field_status \<Rightarrow> string \<Rightarrow> field_claim" where
  "sample_claim f s status v = \<lparr>fc_field = f, fc_block = 0, fc_span = TextSpan s (s + 2), fc_source = ExplicitMember,
     fc_status = status, fc_basis = v\<rparr>"

definition sample_claims :: "field_claim list" where
  "sample_claims = [sample_claim FNumber 4 SExplicit ''44'', sample_claim FType 0 SExplicit (utf8 [0x424])]"

definition sample_act :: act_candidate where
  "sample_act = \<lparr>ac_type = ATFederal, ac_type_claim = sample_claim FType 0 SExplicit (utf8 [0x424]),
     ac_org = None, ac_geo = None, ac_date = None, ac_number = Some (sample_claim FNumber 4 SExplicit ''44''),
     ac_title = None\<rparr>"

definition sample_official :: official_claim where
  "sample_official = \<lparr>oc_claim_id = ''0:0-2|0:4-6'', oc_class = ICFederal, oc_key = RKFederal,
     oc_type_claim = sample_claim FType 0 SExplicit (utf8 [0x424]), oc_org = None, oc_geo = None, oc_date = None,
     oc_number = sample_claim FNumber 4 SExplicit ''44'', oc_lifecycle = LifecycleProposed, oc_geo_role = GeoDefault\<rparr>"

lemma sample_assembled:
  "assemble_from_terminal (\<lambda>s. s) sample_claims TResolved = ACompatible sample_act"
  "build_official_identity_claim sample_act = IProposed sample_official"
  by code_simp+

lemma official_claim_grounded_witness:
  "length sample_claims \<le> 32 \<and> oc_key sample_official = key_of_class (oc_class sample_official) \<and>
   agrees_on sample_claims FNumber"
proof -
  have "FNumber \<in> set (required_fields (oc_key sample_official))" by code_simp
  with official_claim_grounded [OF sample_assembled] show ?thesis by blast
qed

lemma official_claim_exact_witness:
  "agrees_on sample_claims FNumber \<and> agrees_on sample_claims FOrg \<and>
   (\<exists>t\<in>set sample_claims. fc_field t = FType \<and>
      (\<exists>cls. identity_class_of (classify_act_type (\<lambda>s. s) (fc_basis t)) = Some cls))"
proof -
  have "\<forall>c\<in>set sample_claims. fc_status c \<in> {SExplicit, SInherited}"
    by (simp add: sample_claims_def sample_claim_def)
  from official_claim_exact [OF this, of "\<lambda>s. s" TResolved] sample_assembled show ?thesis by blast
qed

lemma assembly_order_independent_witness:
  "assemble_identifying_act_with_limit (\<lambda>s. s) (rev sample_claims) 32 = ACompatible sample_act"
proof -
  have "inj_on claim_order (set sample_claims)"
    by (simp add: sample_claims_def sample_claim_def claim_order_def)
  moreover have "mset sample_claims = mset (rev sample_claims)" by simp
  ultimately show ?thesis
    using assembly_order_independent [of sample_claims "rev sample_claims" "\<lambda>s. s" 32] sample_assembled
    by (simp add: assemble_from_terminal_def assemble_identifying_act_def MAX_IDENTITY_FIELD_CLAIMS_PER_BLOCK_def)
qed

definition shadowed_claims :: "field_claim list" where
  "shadowed_claims = sample_claim FNumber 2 SConflicting ''44'' # sample_claims"

definition shadowed_act :: act_candidate where
  "shadowed_act = sample_act\<lparr>ac_number := Some (sample_claim FNumber 2 SConflicting ''44'')\<rparr>"

lemma conflicting_claim_shadows_explicit_witness:
  "assemble_identifying_act (\<lambda>s. s) shadowed_claims = ACompatible shadowed_act \<and>
   (\<exists>missing r. build_official_identity_claim shadowed_act = IIncomplete missing r)"
proof -
  have a: "assemble_identifying_act (\<lambda>s. s) shadowed_claims = ACompatible shadowed_act" by code_simp
  have "selected (sort_key claim_order shadowed_claims) FNumber = Some (sample_claim FNumber 2 SConflicting ''44'')"
    by code_simp
  from conflicting_claim_shadows_explicit [OF a this] a show ?thesis by (auto simp: sample_claim_def)
qed

lemma identity_run_zero_tolerance_witness:
  "\<exists>c. record_all [RecClaim (IProposed sample_official), RecEvent FalseLink] identity_run_new = Some c \<and>
     idc_false_link c = 1 \<and> verify_identity_zero_tolerance c \<noteq> Inr ()"
proof -
  let ?xs = "[RecClaim (IProposed sample_official), RecEvent FalseLink]"
  obtain c where c: "record_all ?xs identity_run_new = Some c"
    by (simp add: record_identity_claim_outcome_def record_identity_event_def usize_add_def u64_limit_def
        identity_run_new_def)
  from identity_run_zero_tolerance [OF c] c show ?thesis by (auto simp: counts_def)
qed

end
