(* ===== verification/LN_Scope.thy ===== *)
theory LN_Scope
  imports LN_Binding
begin

text \<open>
  Semantic scope claims, \<open>crates/ln-temporal/src/semantic_scope.rs\<close>: the tokens of a block, the recognition of cues
  as sequences of whole tokens with an adjacent negation, the bounded extraction of claims, their projection into a
  candidate for a norm rule, and the counters of a run. An index or a slice out of range is a panic, \<open>None\<close>; the
  tables of Unicode are the parameter \<open>u\<close>.
\<close>

section \<open>Claims\<close>

datatype claim_kind = KActor | KAction | KObject | KPolarity | KCondition | KException | KTemporalQualifier

fun claim_rank :: "claim_kind \<Rightarrow> nat" where
  "claim_rank KActor = 0"
| "claim_rank KAction = 1"
| "claim_rank KObject = 2"
| "claim_rank KPolarity = 3"
| "claim_rank KCondition = 4"
| "claim_rank KException = 5"
| "claim_rank KTemporalQualifier = 6"

lemma claim_rank_inject [simp]: "claim_rank a = claim_rank b \<longleftrightarrow> a = b"
  by (cases a; cases b) simp_all

instantiation claim_kind :: linorder
begin

definition less_eq_claim_kind :: "claim_kind \<Rightarrow> claim_kind \<Rightarrow> bool" where
  "less_eq_claim_kind a b = (claim_rank a \<le> claim_rank b)"

definition less_claim_kind :: "claim_kind \<Rightarrow> claim_kind \<Rightarrow> bool" where
  "less_claim_kind a b = (claim_rank a < claim_rank b)"

instance
  by standard (auto simp: less_eq_claim_kind_def less_claim_kind_def)

end

datatype claim_error = EmptySpan | MissingEvidence | EvidenceOutsideClaim

datatype semantic_claim =
  SemanticClaim (sc_kind: claim_kind) (sc_block: block_id) (sc_span: text_span) (sc_evidence: "text_span list")

text \<open>The derived order of claims: by kind, block, span and evidence.\<close>

definition claim_key :: "semantic_claim \<Rightarrow> claim_kind \<times> block_id \<times> text_span \<times> text_span list" where
  "claim_key c = (sc_kind c, sc_block c, sc_span c, sc_evidence c)"

lemma claim_key_inject [simp]: "claim_key a = claim_key b \<longleftrightarrow> a = b"
  by (cases a; cases b) (simp add: claim_key_def)

instantiation semantic_claim :: linorder
begin

definition less_eq_semantic_claim :: "semantic_claim \<Rightarrow> semantic_claim \<Rightarrow> bool" where
  "less_eq_semantic_claim a b = (claim_key a \<le> claim_key b)"

definition less_semantic_claim :: "semantic_claim \<Rightarrow> semantic_claim \<Rightarrow> bool" where
  "less_semantic_claim a b = (claim_key a < claim_key b)"

instance
  by standard (auto simp: less_eq_semantic_claim_def less_semantic_claim_def less_le_not_le linear)

end

definition semantic_claim_new :: "claim_kind \<Rightarrow> block_id \<Rightarrow> text_span \<Rightarrow> text_span list \<Rightarrow>
    claim_error + semantic_claim" where
  "semantic_claim_new kind block span evidence =
     (if span_start span \<ge> span_end span then Inl EmptySpan
      else if evidence = [] then Inl MissingEvidence
      else if list_ex (\<lambda>a. span_start a \<ge> span_end a \<or> span_start a < span_start span \<or> span_end a > span_end span) evidence
      then Inl EvidenceOutsideClaim
      else Inr (SemanticClaim kind block span evidence))"

record claim_limit =
  cl_limit :: nat
  cl_attempted :: nat

record extraction_outcome =
  eo_claims :: "semantic_claim list"
  eo_limit :: "claim_limit option"

section \<open>Cues\<close>

text \<open>
  The closed cue vocabulary. The Russian cues read, in order: obliged, must, entitled, is forbidden; if, on condition;
  except, with the exception; until, after, within, from the moment. The particle is the Russian \<open>not\<close>.
\<close>

definition CUES :: "(claim_kind \<times> string list) list" where
  "CUES =
     [(KPolarity, [utf8 [0x43E, 0x431, 0x44F, 0x437, 0x430, 0x43D]]),
      (KPolarity, [utf8 [0x434, 0x43E, 0x43B, 0x436, 0x435, 0x43D]]),
      (KPolarity, [utf8 [0x432, 0x43F, 0x440, 0x430, 0x432, 0x435]]),
      (KPolarity, [utf8 [0x437, 0x430, 0x43F, 0x440, 0x435, 0x449, 0x430, 0x435, 0x442, 0x441, 0x44F]]),
      (KPolarity, [''shall'']),
      (KPolarity, [''must'', ''not'']),
      (KPolarity, [''must'']),
      (KCondition, [utf8 [0x435, 0x441, 0x43B, 0x438]]),
      (KCondition, [utf8 [0x43F, 0x440, 0x438], utf8 [0x443, 0x441, 0x43B, 0x43E, 0x432, 0x438, 0x438]]),
      (KCondition, [''provided'', ''that'']),
      (KException, [utf8 [0x43A, 0x440, 0x43E, 0x43C, 0x435]]),
      (KException, [utf8 [0x437, 0x430], utf8 [0x438, 0x441, 0x43A, 0x43B, 0x44E, 0x447, 0x435, 0x43D, 0x438, 0x435, 0x43C]]),
      (KException, [''except'']),
      (KTemporalQualifier, [utf8 [0x434, 0x43E]]),
      (KTemporalQualifier, [utf8 [0x43F, 0x43E, 0x441, 0x43B, 0x435]]),
      (KTemporalQualifier, [utf8 [0x432], utf8 [0x442, 0x435, 0x447, 0x435, 0x43D, 0x438, 0x435]]),
      (KTemporalQualifier, [utf8 [0x441], utf8 [0x43C, 0x43E, 0x43C, 0x435, 0x43D, 0x442, 0x430]]),
      (KTemporalQualifier, [''before'']),
      (KTemporalQualifier, [''after''])]"

definition NEGATION_PARTICLE :: string where
  "NEGATION_PARTICLE = utf8 [0x43D, 0x435]"

definition MAX_PARTICIPANT_TOKENS :: nat where
  "MAX_PARTICIPANT_TOKENS = 4"

definition CLAUSE_SEPARATORS :: "string list" where
  "CLAUSE_SEPARATORS =
     ['','', '';'', '':'', ''.'', ''!'', ''?'', ''('', '')'', ''['', '']'', ''{'', ''}'',
      utf8 [0xAB], utf8 [0xBB], utf8 [0x201E], utf8 [0x201C], utf8 [0x201D], utf8 [0x2014], utf8 [0x2013]]"

record token =
  tk_start :: nat
  tk_end :: nat
  tk_statement :: nat

record cue_match =
  cm_kind :: claim_kind
  cm_start :: nat
  cm_end :: nat

section \<open>Tokens\<close>

definition is_statement_terminator :: "string \<Rightarrow> nat \<Rightarrow> string \<Rightarrow> string \<Rightarrow> bool option" where
  "is_statement_terminator s index character previous =
     (if character \<in> {''!'', ''?'', '';'', utf8 [0x2026], [CHR 0x0A], [CHR 0x0D]} then Some True
      else if character = ''.'' then
        map_option
          (\<lambda>rest. \<not> (is_ascii_digit_char previous \<and>
             (case first_char rest of None \<Rightarrow> False | Some v \<Rightarrow> is_ascii_digit_char v)))
          (str_get s (index + length character) (length s))
      else Some False)"

record token_state =
  ts_tokens :: "token list"
  ts_statement :: nat
  ts_previous :: "string option"
  ts_pending :: "(nat \<times> nat) option"

definition flush_pending :: "token_state \<Rightarrow> token_state" where
  "flush_pending st =
     (case ts_pending st of
        None \<Rightarrow> st
      | Some (a, b) \<Rightarrow>
          st\<lparr>ts_tokens := ts_tokens st @ [\<lparr>tk_start = a, tk_end = b, tk_statement = ts_statement st\<rparr>],
             ts_pending := None\<rparr>)"

definition token_step :: "unicode \<Rightarrow> string \<Rightarrow> nat \<times> string \<Rightarrow> token_state \<Rightarrow> token_state option" where
  "token_step u s ic st =
     (case ic of (index, character) \<Rightarrow>
        if uni_alphanumeric u character then
          Some (st\<lparr>ts_pending :=
              Some (case ts_pending st of
                  Some (a, _) \<Rightarrow> (a, index + length character)
                | None \<Rightarrow> (index, index + length character)),
            ts_previous := Some character\<rparr>)
        else
          let st = flush_pending st in
          map_option
            (\<lambda>terminated. st\<lparr>ts_statement := (if terminated then ts_statement st + 1 else ts_statement st),
               ts_previous := Some character\<rparr>)
            (case ts_previous st of
               None \<Rightarrow> Some False
             | Some previous \<Rightarrow> is_statement_terminator s index character previous))"

fun token_loop :: "unicode \<Rightarrow> string \<Rightarrow> (nat \<times> string) list \<Rightarrow> token_state \<Rightarrow> token_state option" where
  "token_loop u s [] st = Some st"
| "token_loop u s (ic # ics) st = Option.bind (token_step u s ic st) (token_loop u s ics)"

definition tokenize :: "unicode \<Rightarrow> string \<Rightarrow> token list option" where
  "tokenize u s =
     map_option (\<lambda>st. ts_tokens (flush_pending st))
       (token_loop u s (char_indices s)
          \<lparr>ts_tokens = [], ts_statement = 0, ts_previous = None, ts_pending = None\<rparr>)"

text \<open>\<open>tokens.get(i)\<close>; the index \<open>tokens[i]\<close> panics where this is \<open>None\<close>.\<close>

definition token_at :: "token list \<Rightarrow> nat \<Rightarrow> token option" where
  "token_at tokens i = (if i < length tokens then Some (tokens ! i) else None)"

definition token_matches :: "unicode \<Rightarrow> string \<Rightarrow> token \<Rightarrow> string \<Rightarrow> bool option" where
  "token_matches u s t expected =
     map_option (\<lambda>actual. map (uni_lower u) (str_chars actual) = map (uni_lower u) (str_chars expected))
       (str_get s (tk_start t) (tk_end t))"

fun statement_starts_loop :: "nat \<Rightarrow> nat list \<Rightarrow> token list \<Rightarrow> nat list" where
  "statement_starts_loop i starts [] = starts"
| "statement_starts_loop i starts (t # ts) =
     statement_starts_loop (Suc i) (if length starts \<le> tk_statement t then starts @ [i] else starts) ts"

definition statement_starts :: "token list \<Rightarrow> nat list" where
  "statement_starts tokens = statement_starts_loop 0 [] tokens"

definition gap_has_clause_separator :: "string \<Rightarrow> nat \<Rightarrow> nat \<Rightarrow> bool" where
  "gap_has_clause_separator s a b =
     (case str_get s a b of
        Some gap \<Rightarrow> list_ex (\<lambda>c. c \<in> set CLAUSE_SEPARATORS) (str_chars gap)
      | None \<Rightarrow> True)"

definition gap_is_whitespace :: "string \<Rightarrow> nat \<Rightarrow> nat \<Rightarrow> bool" where
  "gap_is_whitespace s a b =
     (case str_get s a b of Some gap \<Rightarrow> list_all is_whitespace (str_chars gap) | None \<Rightarrow> False)"

section \<open>Cue matching\<close>

text \<open>\<open>cue_at\<close>: the outer option is a panic, the inner one the result.\<close>

fun cue_loop :: "unicode \<Rightarrow> string \<Rightarrow> token list \<Rightarrow> nat \<Rightarrow> nat \<Rightarrow> nat \<Rightarrow> nat \<Rightarrow> string list \<Rightarrow> nat option option" where
  "cue_loop u s tokens statement start offset last_index [] = Some (Some last_index)"
| "cue_loop u s tokens statement start offset last_index (expected # rest) =
     (case token_at tokens (start + offset) of
        None \<Rightarrow> Some None
      | Some t \<Rightarrow>
          if tk_statement t \<noteq> statement then Some None
          else Option.bind (token_matches u s t expected) (\<lambda>matches.
            if \<not> matches then Some None
            else if offset > 0 then
              Option.bind (token_at tokens last_index) (\<lambda>previous.
                if \<not> gap_is_whitespace s (tk_end previous) (tk_start t) then Some None
                else cue_loop u s tokens statement start (offset + 1) (start + offset) rest)
            else cue_loop u s tokens statement start (offset + 1) (start + offset) rest))"

definition cue_at :: "unicode \<Rightarrow> string \<Rightarrow> token list \<Rightarrow> nat \<Rightarrow> string list \<Rightarrow> nat option option" where
  "cue_at u s tokens start cue =
     (case token_at tokens start of
        None \<Rightarrow> Some None
      | Some t \<Rightarrow> cue_loop u s tokens (tk_statement t) start 0 start cue)"

fun best_cue :: "unicode \<Rightarrow> string \<Rightarrow> token list \<Rightarrow> nat \<Rightarrow> (claim_kind \<times> string list) list \<Rightarrow>
    (claim_kind \<times> nat) option \<Rightarrow> (claim_kind \<times> nat) option option" where
  "best_cue u s tokens start [] best = Some best"
| "best_cue u s tokens start (cue # cues) best =
     Option.bind (cue_at u s tokens start (snd cue)) (\<lambda>found.
       best_cue u s tokens start cues
         (case found of
            None \<Rightarrow> best
          | Some e \<Rightarrow>
              (case best of
                 None \<Rightarrow> Some (fst cue, e)
               | Some (_, best_end) \<Rightarrow> if e > best_end then Some (fst cue, e) else best)))"

definition cue_matches :: "unicode \<Rightarrow> string \<Rightarrow> token list \<Rightarrow> cue_match list option" where
  "cue_matches u s tokens =
     map_option (List.map_filter (\<lambda>x. x))
       (those (map (\<lambda>start.
          map_option (map_option (\<lambda>(kind, e). \<lparr>cm_kind = kind, cm_start = start, cm_end = e\<rparr>))
            (best_cue u s tokens start CUES None)) [0..<length tokens]))"

definition is_particle :: "unicode \<Rightarrow> string \<Rightarrow> token list \<Rightarrow> nat \<Rightarrow> nat \<Rightarrow> bool option" where
  "is_particle u s tokens statement i =
     (case token_at tokens i of
        None \<Rightarrow> Some False
      | Some t \<Rightarrow> if tk_statement t = statement then token_matches u s t NEGATION_PARTICLE else Some False)"

definition gap_between :: "string \<Rightarrow> token list \<Rightarrow> nat \<Rightarrow> nat \<Rightarrow> (string \<Rightarrow> nat \<Rightarrow> nat \<Rightarrow> bool) \<Rightarrow> bool option" where
  "gap_between s tokens i j test =
     Option.bind (token_at tokens i) (\<lambda>a. Option.bind (token_at tokens j) (\<lambda>b. Some (test s (tk_end a) (tk_start b))))"

text \<open>The conditions of \<open>negated_range\<close> are evaluated from left to right, as the code does.\<close>

definition left_particle :: "unicode \<Rightarrow> string \<Rightarrow> token list \<Rightarrow> cue_match \<Rightarrow> nat list \<Rightarrow> nat \<Rightarrow> bool option" where
  "left_particle u s tokens m cue_starts statement =
     (if cm_start m = 0 then Some False
      else let left = cm_start m - 1 in
        if left \<in> set cue_starts then Some False
        else Option.bind (gap_between s tokens left (cm_start m) gap_is_whitespace) (\<lambda>gap.
          if gap then is_particle u s tokens statement left else Some False))"

definition right_particle :: "unicode \<Rightarrow> string \<Rightarrow> token list \<Rightarrow> cue_match \<Rightarrow> nat list \<Rightarrow> nat \<Rightarrow> bool option" where
  "right_particle u s tokens m cue_starts statement =
     (let right = cm_end m + 1 in
      if right \<in> set cue_starts then Some False
      else Option.bind (is_particle u s tokens statement right) (\<lambda>particle.
        if particle then gap_between s tokens (cm_end m) right gap_is_whitespace else Some False))"

definition negated_range :: "unicode \<Rightarrow> string \<Rightarrow> token list \<Rightarrow> cue_match \<Rightarrow> nat list \<Rightarrow> (nat \<times> nat) option" where
  "negated_range u s tokens m cue_starts =
     (if cm_kind m \<noteq> KPolarity then Some (cm_start m, cm_end m)
      else Option.bind (token_at tokens (cm_start m)) (\<lambda>t.
        Option.bind (left_particle u s tokens m cue_starts (tk_statement t)) (\<lambda>left.
          if left then Some (cm_start m - 1, cm_end m)
          else Option.bind (right_particle u s tokens m cue_starts (tk_statement t)) (\<lambda>right.
            if right then Some (cm_start m, cm_end m + 1) else Some (cm_start m, cm_end m)))))"

section \<open>Extraction\<close>

fun blocked_from :: "string \<Rightarrow> token list \<Rightarrow> nat list \<Rightarrow> nat \<Rightarrow> nat list \<Rightarrow> bool option" where
  "blocked_from s tokens cue_starts first [] = Some False"
| "blocked_from s tokens cue_starts first (i # is) =
     (if i \<in> set cue_starts then Some True
      else Option.bind
        (if i > first then gap_between s tokens (i - 1) i gap_has_clause_separator else Some False)
        (\<lambda>separated. if separated then Some True else blocked_from s tokens cue_starts first is))"

definition participant_tokens :: "string \<Rightarrow> token list \<Rightarrow> nat list \<Rightarrow> nat \<Rightarrow> nat list \<Rightarrow> (nat \<times> nat) option option" where
  "participant_tokens s tokens starts polarity_start cue_starts =
     (case token_at tokens polarity_start of
        None \<Rightarrow> Some None
      | Some t \<Rightarrow>
          if tk_statement t \<ge> length starts then Some None
          else let first = starts ! tk_statement t in
            if polarity_start < first then Some None
            else if polarity_start - first = 0 \<or> polarity_start - first > MAX_PARTICIPANT_TOKENS then Some None
            else map_option (\<lambda>blocked. if blocked then None else Some (first, polarity_start - 1))
              (blocked_from s tokens cue_starts first [first..<polarity_start]))"

definition token_span :: "token list \<Rightarrow> nat \<Rightarrow> nat \<Rightarrow> text_span option" where
  "token_span tokens a b =
     (case (token_at tokens a, token_at tokens b) of
        (Some first, Some last_token) \<Rightarrow>
          (case span_new (tk_start first) (tk_end last_token) of
             Inl _ \<Rightarrow> None
           | Inr span \<Rightarrow> if span_start span < span_end span then Some span else None)
      | _ \<Rightarrow> None)"

definition evidence_in_block :: "string \<Rightarrow> text_span \<Rightarrow> bool" where
  "evidence_in_block s span =
     (span_start span < span_end span \<and> span_end span \<le> length s \<and>
      is_char_boundary s (span_start span) \<and> is_char_boundary s (span_end span))"

definition scope_claim :: "claim_kind \<Rightarrow> block_id \<Rightarrow> text_span \<Rightarrow> semantic_claim option" where
  "scope_claim kind block span =
     (case semantic_claim_new kind block span [span] of Inl _ \<Rightarrow> None | Inr c \<Rightarrow> Some c)"

text \<open>A \<open>BTreeSet\<close> of claims is the sorted list of its elements.\<close>

definition insert_claim :: "semantic_claim option \<Rightarrow> semantic_claim list \<Rightarrow> semantic_claim list" where
  "insert_claim c cs = (case c of None \<Rightarrow> cs | Some x \<Rightarrow> insort_insert x cs)"

text \<open>The three loops of \<open>extract_semantic_claims\<close>: participants, self-references, cues.\<close>

fun actor_loop :: "string \<Rightarrow> token list \<Rightarrow> nat list \<Rightarrow> nat list \<Rightarrow> block_id \<Rightarrow> nat list \<Rightarrow> cue_match list \<Rightarrow>
    semantic_claim list \<Rightarrow> semantic_claim list option" where
  "actor_loop s tokens starts cue_starts block claimed [] cs = Some cs"
| "actor_loop s tokens starts cue_starts block claimed (m # ms) cs =
     (if cm_kind m \<noteq> KPolarity then actor_loop s tokens starts cue_starts block claimed ms cs
      else Option.bind (token_at tokens (cm_start m)) (\<lambda>t.
        if tk_statement t \<in> set claimed then actor_loop s tokens starts cue_starts block claimed ms cs
        else let claimed = tk_statement t # claimed in
          Option.bind (participant_tokens s tokens starts (cm_start m) cue_starts) (\<lambda>participant.
            actor_loop s tokens starts cue_starts block claimed ms
              (case participant of
                 None \<Rightarrow> cs
               | Some (first, last_index) \<Rightarrow>
                   (case token_span tokens first last_index of
                      None \<Rightarrow> cs
                    | Some span \<Rightarrow> insert_claim (scope_claim KActor block span) cs)))))"

definition self_loop :: "string \<Rightarrow> block_id \<Rightarrow> this_ref list \<Rightarrow> semantic_claim list \<Rightarrow> semantic_claim list" where
  "self_loop s block refs cs =
     fold (\<lambda>e. insert_claim (scope_claim KActor block (tr_span e)))
       (filter (\<lambda>e. evidence_in_block s (tr_span e)) refs) cs"

fun cue_claims_loop :: "unicode \<Rightarrow> string \<Rightarrow> token list \<Rightarrow> nat list \<Rightarrow> block_id \<Rightarrow> cue_match list \<Rightarrow>
    semantic_claim list \<Rightarrow> semantic_claim list option" where
  "cue_claims_loop u s tokens cue_starts block [] cs = Some cs"
| "cue_claims_loop u s tokens cue_starts block (m # ms) cs =
     Option.bind (negated_range u s tokens m cue_starts) (\<lambda>(a, b).
       cue_claims_loop u s tokens cue_starts block ms
         (case token_span tokens a b of
            None \<Rightarrow> cs
          | Some span \<Rightarrow> insert_claim (scope_claim (cm_kind m) block span) cs))"

definition limit_claims :: "nat \<Rightarrow> semantic_claim list \<Rightarrow> extraction_outcome" where
  "limit_claims max_claims candidates =
     (let claims = take max_claims candidates in
      \<lparr>eo_claims = claims,
       eo_limit = (if length candidates > length claims
         then Some \<lparr>cl_limit = max_claims, cl_attempted = length candidates\<rparr> else None)\<rparr>)"

definition extract_semantic_claims :: "unicode \<Rightarrow> source_block \<Rightarrow> overlay \<Rightarrow> this_ref list \<Rightarrow> nat \<Rightarrow>
    extraction_outcome option" where
  "extract_semantic_claims u block ov refs max_claims =
     (let s = sb_text block in
      Option.bind (tokenize u s) (\<lambda>tokens.
        Option.bind (cue_matches u s tokens) (\<lambda>matches.
          let cue_starts = map cm_start matches in
          Option.bind
            (if list_ex (\<lambda>f. fr_block f = sb_id block) (ov_frames ov)
             then actor_loop s tokens (statement_starts tokens) cue_starts (sb_id block) [] matches []
             else Some [])
            (\<lambda>actors.
              map_option (limit_claims max_claims)
                (cue_claims_loop u s tokens cue_starts (sb_id block) matches
                   (self_loop s (sb_id block) refs actors))))))"

section \<open>Projection\<close>

datatype candidate_slot = SlotActor | SlotAction | SlotObject | SlotPolarity

record norm_rule_candidate =
  nc_candidate_id :: string
  nc_actor :: semantic_claim
  nc_action :: semantic_claim
  nc_object :: semantic_claim
  nc_polarity :: semantic_claim
  nc_conditions :: "semantic_claim list"
  nc_exceptions :: "semantic_claim list"
  nc_temporal_qualifier :: "semantic_claim list"
  nc_anchors :: "text_span list"

datatype abstention_reason = MissingActor | MissingAction | MissingObject | MissingPolarity | ConflictingSlots
  | AbstainTerminal terminal

record abstention_record =
  ab_reasons :: "abstention_reason list"
  ab_missing :: "candidate_slot list"
  ab_claims :: "semantic_claim list"
  ab_anchors :: "text_span list"

datatype projection_outcome = PComplete norm_rule_candidate | PAbstained abstention_record

definition claim_id_for :: "semantic_claim list \<Rightarrow> string" where
  "claim_id_for claims = str_join ''|'' (map (\<lambda>c. anchor_text (sc_block c) (sc_span c)) claims)"

fun slot_kind :: "candidate_slot \<Rightarrow> claim_kind" where
  "slot_kind SlotActor = KActor"
| "slot_kind SlotAction = KAction"
| "slot_kind SlotObject = KObject"
| "slot_kind SlotPolarity = KPolarity"

fun missing_reason :: "candidate_slot \<Rightarrow> abstention_reason" where
  "missing_reason SlotActor = MissingActor"
| "missing_reason SlotAction = MissingAction"
| "missing_reason SlotObject = MissingObject"
| "missing_reason SlotPolarity = MissingPolarity"

definition of_kind :: "claim_kind \<Rightarrow> semantic_claim list \<Rightarrow> semantic_claim list" where
  "of_kind k claims = filter (\<lambda>c. sc_kind c = k) claims"

definition all_slots :: "candidate_slot list" where
  "all_slots = [SlotActor, SlotAction, SlotObject, SlotPolarity]"

text \<open>\<open>project_norm_rule\<close>; \<open>slots[i].remove(0)\<close> on an empty slot would panic.\<close>

definition project_norm_rule :: "semantic_claim list \<Rightarrow> terminal \<Rightarrow> projection_outcome option" where
  "project_norm_rule unsorted terminal =
     (let claims = sort unsorted; anchors = concat (map sc_evidence claims) in
      if terminal \<noteq> TResolved
      then Some (PAbstained \<lparr>ab_reasons = [AbstainTerminal terminal], ab_missing = [], ab_claims = claims,
        ab_anchors = anchors\<rparr>)
      else
        let slot = (\<lambda>x. of_kind (slot_kind x) claims);
            missing = filter (\<lambda>x. slot x = []) all_slots;
            reasons = map missing_reason missing @
              (if list_ex (\<lambda>x. length (slot x) > 1) all_slots then [ConflictingSlots] else [])
        in if reasons \<noteq> []
          then Some (PAbstained \<lparr>ab_reasons = reasons, ab_missing = missing, ab_claims = claims, ab_anchors = anchors\<rparr>)
          else case (slot SlotActor, slot SlotAction, slot SlotObject, slot SlotPolarity) of
            (actor # _, action # _, object # _, polarity # _) \<Rightarrow>
              Some (PComplete \<lparr>nc_candidate_id = claim_id_for claims, nc_actor = actor, nc_action = action,
                nc_object = object, nc_polarity = polarity, nc_conditions = of_kind KCondition claims,
                nc_exceptions = of_kind KException claims,
                nc_temporal_qualifier = of_kind KTemporalQualifier claims, nc_anchors = anchors\<rparr>)
          | _ \<Rightarrow> None)"

section \<open>Run counters\<close>

record scope_counters =
  so_critical_field_loss :: nat
  so_source_span_loss :: nat
  so_false_fact_mint :: nat
  so_unconditionalized_scope :: nat
  so_unexplained_abstention :: nat
  so_candidates_total :: nat
  so_abstained_total :: nat

definition scope_run_new :: scope_counters where
  "scope_run_new =
     \<lparr>so_critical_field_loss = 0, so_source_span_loss = 0, so_false_fact_mint = 0, so_unconditionalized_scope = 0,
      so_unexplained_abstention = 0, so_candidates_total = 0, so_abstained_total = 0\<rparr>"

datatype scope_event = CriticalFieldLoss | SourceSpanLoss | FalseFactMint | UnconditionalizedScope
  | UnexplainedAbstention

datatype scope_violation = VCriticalFieldLoss | VSourceSpanLoss | VFalseFactMint | VUnconditionalizedScope
  | VUnexplainedAbstention

definition record_projection :: "projection_outcome \<Rightarrow> scope_counters \<Rightarrow> scope_counters option" where
  "record_projection outcome c =
     Option.bind (usize_add (so_candidates_total c) 1) (\<lambda>total.
       let c = c\<lparr>so_candidates_total := total\<rparr> in
       case outcome of
         PAbstained _ \<Rightarrow> map_option (\<lambda>n. c\<lparr>so_abstained_total := n\<rparr>) (usize_add (so_abstained_total c) 1)
       | PComplete _ \<Rightarrow> Some c)"

fun record_batch :: "projection_outcome list \<Rightarrow> scope_counters \<Rightarrow> scope_counters option" where
  "record_batch [] c = Some c"
| "record_batch (x # xs) c = Option.bind (record_projection x c) (record_batch xs)"

definition record_scope_event :: "scope_event \<Rightarrow> scope_counters \<Rightarrow> scope_counters option" where
  "record_scope_event event c =
     (case event of
        CriticalFieldLoss \<Rightarrow> map_option (\<lambda>n. c\<lparr>so_critical_field_loss := n\<rparr>) (usize_add (so_critical_field_loss c) 1)
      | SourceSpanLoss \<Rightarrow> map_option (\<lambda>n. c\<lparr>so_source_span_loss := n\<rparr>) (usize_add (so_source_span_loss c) 1)
      | FalseFactMint \<Rightarrow> map_option (\<lambda>n. c\<lparr>so_false_fact_mint := n\<rparr>) (usize_add (so_false_fact_mint c) 1)
      | UnconditionalizedScope \<Rightarrow>
          map_option (\<lambda>n. c\<lparr>so_unconditionalized_scope := n\<rparr>) (usize_add (so_unconditionalized_scope c) 1)
      | UnexplainedAbstention \<Rightarrow>
          map_option (\<lambda>n. c\<lparr>so_unexplained_abstention := n\<rparr>) (usize_add (so_unexplained_abstention c) 1))"

definition verify_zero_tolerance :: "scope_counters \<Rightarrow> scope_violation list + unit" where
  "verify_zero_tolerance c =
     (let violations =
        (if so_critical_field_loss c \<noteq> 0 then [VCriticalFieldLoss] else []) @
        (if so_source_span_loss c \<noteq> 0 then [VSourceSpanLoss] else []) @
        (if so_false_fact_mint c \<noteq> 0 then [VFalseFactMint] else []) @
        (if so_unconditionalized_scope c \<noteq> 0 then [VUnconditionalizedScope] else []) @
        (if so_unexplained_abstention c \<noteq> 0 then [VUnexplainedAbstention] else [])
      in if violations = [] then Inr () else Inl violations)"

definition render_scope_run_json :: "scope_counters \<Rightarrow> string" where
  "render_scope_run_json c =
     ''{'' @ CHR 0x22 # ''semantic_loss'' @ CHR 0x22 # '':{'' @ str_join '',''
       [json_member ''critical_field_loss'' (so_critical_field_loss c),
        json_member ''source_span_loss'' (so_source_span_loss c),
        json_member ''false_fact_mint'' (so_false_fact_mint c),
        json_member ''unconditionalized_scope'' (so_unconditionalized_scope c),
        json_member ''unexplained_abstention'' (so_unexplained_abstention c)] @ ''},'' @
     json_member ''candidates_total'' (so_candidates_total c) @ '','' @
     json_member ''abstained_total'' (so_abstained_total c) @ ''}''"

section \<open>What the tokens are\<close>

text \<open>
  The specification speaks of the characters \<open>xs\<close> of the text by number: where one starts, where a statement ends,
  how many statements have ended, and the runs of letters and digits that cannot be made longer.
\<close>

definition ends_statement :: "unicode \<Rightarrow> string list \<Rightarrow> nat \<Rightarrow> bool" where
  "ends_statement u xs k =
     (0 < k \<and> \<not> uni_alphanumeric u (xs ! k) \<and>
      (xs ! k \<in> {''!'', ''?'', '';'', utf8 [0x2026], [CHR 0x0A], [CHR 0x0D]} \<or>
       xs ! k = ''.'' \<and> \<not> (is_ascii_digit_char (xs ! (k - 1)) \<and> k + 1 < length xs \<and> is_ascii_digit_char (xs ! (k + 1)))))"

definition statement_of :: "unicode \<Rightarrow> string list \<Rightarrow> nat \<Rightarrow> nat" where
  "statement_of u xs n = length (filter (ends_statement u xs) [0..<n])"

definition word_from :: "unicode \<Rightarrow> string list \<Rightarrow> nat \<Rightarrow> nat \<Rightarrow> bool" where
  "word_from u xs i j =
     (i < j \<and> j \<le> length xs \<and> (\<forall>k. i \<le> k \<and> k < j \<longrightarrow> uni_alphanumeric u (xs ! k)) \<and>
      (0 < i \<longrightarrow> \<not> uni_alphanumeric u (xs ! (i - 1))))"

definition word_at :: "unicode \<Rightarrow> string list \<Rightarrow> nat \<Rightarrow> nat \<Rightarrow> bool" where
  "word_at u xs i j = (word_from u xs i j \<and> (j < length xs \<longrightarrow> \<not> uni_alphanumeric u (xs ! j)))"

definition word_token :: "unicode \<Rightarrow> string list \<Rightarrow> nat \<Rightarrow> nat \<Rightarrow> token" where
  "word_token u xs i j =
     \<lparr>tk_start = char_start xs i, tk_end = char_start xs j, tk_statement = statement_of u xs j\<rparr>"

lemma statement_of_Suc: "statement_of u xs (Suc n) = statement_of u xs n + (if ends_statement u xs n then 1 else 0)"
  by (simp add: statement_of_def)

lemma terminator_spec:
  assumes "n < length (str_chars s)" "0 < n" "\<not> uni_alphanumeric u (str_chars s ! n)"
  shows "is_statement_terminator s (char_start (str_chars s) n) (str_chars s ! n) (str_chars s ! (n - 1)) =
    Some (ends_statement u (str_chars s) n)"
proof -
  let ?xs = "str_chars s"
  define r where "r = concat (drop (Suc n) ?xs)"
  have get: "str_get s (char_start ?xs n + length (?xs ! n)) (length s) = Some r"
    using str_get_tail [of s "take (Suc n) ?xs" "drop (Suc n) ?xs"] assms(1)
    by (simp add: char_start_Suc [symmetric]) (simp add: char_start_def r_def)
  have "str_chars r = drop (Suc n) ?xs"
    unfolding r_def using str_chars_cut(2) [of s "take (Suc n) ?xs" "drop (Suc n) ?xs"] by simp
  moreover have "drop (Suc n) ?xs = (if Suc n < length ?xs then ?xs ! Suc n # drop (Suc (Suc n)) ?xs else [])"
    by (simp add: Cons_nth_drop_Suc)
  ultimately have "first_char r = (if Suc n < length ?xs then Some (?xs ! Suc n) else None)"
    by (simp add: first_char_eq)
  with assms show ?thesis
    unfolding is_statement_terminator_def get by (simp add: ends_statement_def)
qed

definition token_inv :: "unicode \<Rightarrow> string list \<Rightarrow> nat \<Rightarrow> token_state \<Rightarrow> bool" where
  "token_inv u xs n st =
     (n \<le> length xs \<and> ts_previous st = (if n = 0 then None else Some (xs ! (n - 1))) \<and>
      ts_statement st = statement_of u xs n \<and>
      (case ts_pending st of
         None \<Rightarrow> \<nexists>i. word_from u xs i n
       | Some (a, b) \<Rightarrow> b = char_start xs n \<and> (\<exists>i. word_from u xs i n \<and> a = char_start xs i)) \<and>
      set (ts_tokens st) = {word_token u xs i j | i j. word_at u xs i j \<and> j < n} \<and>
      sorted_wrt (\<lambda>a b. tk_end a < tk_start b) (ts_tokens st))"

lemma word_from_unique: "word_from u xs i n \<Longrightarrow> word_from u xs j n \<Longrightarrow> i = j"
proof (induction i j rule: linorder_wlog)
  case (le i j)
  show ?case
  proof (rule ccontr)
    assume "i \<noteq> j"
    with le have "i \<le> j - 1" "j - 1 < n" "0 < j" by (auto simp: word_from_def)
    with le show False by (auto simp: word_from_def)
  qed
next
  case (sym i j)
  then show ?case by auto
qed

lemma word_from_last: "word_from u xs i n \<Longrightarrow> 0 < n \<and> uni_alphanumeric u (xs ! (n - 1))"
proof -
  assume w: "word_from u xs i n"
  then have "i < n" by (simp add: word_from_def)
  then have "i \<le> n - 1" "n - 1 < n" by simp_all
  with w show ?thesis by (simp add: word_from_def)
qed

lemma word_from_extend: "word_from u xs i n \<Longrightarrow> n < length xs \<Longrightarrow> uni_alphanumeric u (xs ! n) \<Longrightarrow> word_from u xs i (Suc n)"
  by (auto simp: word_from_def less_Suc_eq)

lemma word_from_exists: "0 < n \<Longrightarrow> n \<le> length xs \<Longrightarrow> uni_alphanumeric u (xs ! (n - 1)) \<Longrightarrow> \<exists>i. word_from u xs i n"
proof (induction n)
  case (Suc n)
  show ?case
  proof (cases "0 < n \<and> uni_alphanumeric u (xs ! (n - 1))")
    case True
    with Suc obtain i where "word_from u xs i n" by auto
    with Suc.prems have "word_from u xs i (Suc n)" by (intro word_from_extend) simp_all
    then show ?thesis by blast
  next
    case False
    have "word_from u xs n (Suc n)"
      using Suc.prems False by (auto simp: word_from_def) (metis le_less_Suc_eq)
    then show ?thesis by blast
  qed
qed simp

lemma no_word_from: "n \<le> length xs \<Longrightarrow> (\<nexists>i. word_from u xs i n) \<longleftrightarrow> n = 0 \<or> \<not> uni_alphanumeric u (xs ! (n - 1))"
  using word_from_exists [of n xs u] word_from_last [of u xs _ n] by blast

lemma word_from_Suc:
  assumes "n < length xs"
  shows "word_from u xs i (Suc n) \<longleftrightarrow> uni_alphanumeric u (xs ! n) \<and>
    (word_from u xs i n \<or> i = n \<and> (\<nexists>i. word_from u xs i n))"
proof -
  have "word_from u xs i (Suc n) \<longleftrightarrow> uni_alphanumeric u (xs ! n) \<and>
      (word_from u xs i n \<or> i = n \<and> (n = 0 \<or> \<not> uni_alphanumeric u (xs ! (n - 1))))"
    using assms by (auto simp: word_from_def less_Suc_eq)
  then show ?thesis using no_word_from [of n xs u] assms by simp
qed

lemma words_until_Suc:
  "{word_token u xs i j | i j. word_at u xs i j \<and> j < Suc n} =
     {word_token u xs i j | i j. word_at u xs i j \<and> j < n} \<union> {word_token u xs i n | i. word_at u xs i n}"
  by (auto simp: less_Suc_eq)

lemma flush_pending_inv:
  assumes "token_inv u xs n st" and nonempty: "[] \<notin> set xs" and stop: "n < length xs \<longrightarrow> \<not> uni_alphanumeric u (xs ! n)"
  shows "ts_pending (flush_pending st) = None \<and> ts_previous (flush_pending st) = ts_previous st \<and>
    ts_statement (flush_pending st) = ts_statement st \<and>
    set (ts_tokens (flush_pending st)) = {word_token u xs i j | i j. word_at u xs i j \<and> j < Suc n} \<and>
    sorted_wrt (\<lambda>a b. tk_end a < tk_start b) (ts_tokens (flush_pending st))"
proof -
  note inv = assms(1) [unfolded token_inv_def] and tok = words_until_Suc [of u xs n]
  have word: "word_at u xs i n \<longleftrightarrow> word_from u xs i n" for i using stop by (simp add: word_at_def)
  show ?thesis
  proof (cases "ts_pending st")
    case None
    with inv have "{word_token u xs i n | i. word_at u xs i n} = {}" by (simp add: word)
    with None inv show ?thesis unfolding tok by (simp add: flush_pending_def)
  next
    case (Some ab)
    with inv obtain i where i: "word_from u xs i n" and ab: "ts_pending st = Some (char_start xs i, char_start xs n)"
      by (cases ab) auto
    have "{word_token u xs i n | i. word_at u xs i n} = {word_token u xs i n}"
      using i by (auto simp: word dest: word_from_unique)
    moreover have "tk_end t < char_start xs i" if t: "t \<in> set (ts_tokens st)" for t
    proof -
      from t inv obtain k j where kj: "t = word_token u xs k j" "word_at u xs k j" "j < n" by auto
      have "j < i"
      proof (rule ccontr)
        assume "\<not> j < i"
        with i kj(3) have "uni_alphanumeric u (xs ! j)" by (simp add: word_from_def)
        with kj i show False by (simp add: word_at_def word_from_def)
      qed
      then have "char_start xs j < char_start xs i"
        using i nonempty by (intro char_start_less) (auto simp: word_from_def)
      with kj(1) show ?thesis by (simp add: word_token_def)
    qed
    ultimately show ?thesis using ab inv unfolding tok by (auto simp: flush_pending_def word_token_def sorted_wrt_append)
  qed
qed

lemma token_loop_inv:
  assumes "n + length ics = length (str_chars s)" "ics = drop n (char_indices s)" "token_inv u (str_chars s) n st"
  shows "\<exists>st'. token_loop u s ics st = Some st' \<and> token_inv u (str_chars s) (length (str_chars s)) st'"
  using assms
proof (induction ics arbitrary: n st)
  case Nil
  then show ?case by simp
next
  case (Cons ic ics)
  let ?xs = "str_chars s"
  have n: "n < length ?xs" using Cons.prems(1) by simp
  then have "n < length (char_indices s)" by (simp add: str_chars_def)
  then have ic: "ic = (char_start ?xs n, ?xs ! n)" and ics: "ics = drop (Suc n) (char_indices s)"
    using Cons.prems(2) char_indices_nth [OF n] by (simp_all add: Cons_nth_drop_Suc [symmetric])
  note inv = Cons.prems(3) [unfolded token_inv_def]
  note tok = words_until_Suc [of u ?xs n]
  have "\<exists>st'. token_step u s ic st = Some st' \<and> token_inv u ?xs (Suc n) st'"
  proof (cases "uni_alphanumeric u (?xs ! n)")
    case True
    then have st: "statement_of u ?xs (Suc n) = statement_of u ?xs n" by (simp add: statement_of_Suc ends_statement_def)
    have none: "\<not> word_at u ?xs i n" for i using True n by (simp add: word_at_def)
    have ends: "char_start ?xs n + length (?xs ! n) = char_start ?xs (Suc n)" using n by (simp add: char_start_Suc)
    show ?thesis
    proof (cases "ts_pending st")
      case None
      with inv have "word_from u ?xs n (Suc n)" using word_from_Suc [OF n] True by auto
      with None inv n True st show ?thesis
        unfolding token_step_def ic by (auto simp: token_inv_def tok none ends)
    next
      case (Some ab)
      then obtain a b where ab: "ts_pending st = Some (a, b)" by (cases ab) auto
      with inv obtain i where "word_from u ?xs i n" "a = char_start ?xs i" by auto
      with True n have "word_from u ?xs i (Suc n)" by (blast intro: word_from_extend)
      with \<open>a = char_start ?xs i\<close> ab inv n True st show ?thesis
        unfolding token_step_def ic by (auto simp: token_inv_def tok none ends)
    qed
  next
    case False
    let ?f = "flush_pending st"
    note flushed = flush_pending_inv [OF Cons.prems(3) str_chars_nonempty] False
    have none: "\<not> word_from u ?xs i (Suc n)" for i using False by (simp add: word_from_Suc [OF n])
    have "(case ts_previous ?f of None \<Rightarrow> Some False
        | Some previous \<Rightarrow> is_statement_terminator s (char_start ?xs n) (?xs ! n) previous) = Some (ends_statement u ?xs n)"
      using flushed inv terminator_spec [OF n _ False] by (auto simp: ends_statement_def)
    then show ?thesis
      unfolding token_step_def ic Let_def using False flushed inv n none
      by (auto simp: token_inv_def statement_of_Suc)
  qed
  then obtain st' where "token_step u s ic st = Some st'" "token_inv u ?xs (Suc n) st'" by blast
  with Cons.IH [of "Suc n" st'] Cons.prems(1) ics show ?case by simp
qed

text \<open>
  The tokens of a block are exactly its words, the runs of letters and digits that cannot be made longer, in order and
  apart from each other, each with the number of statements that ended before it; and no slice of the text is taken off
  a character boundary, so tokenizing always returns.
\<close>

lemma tokens_exact:
  "\<exists>ts. tokenize u s = Some ts \<and>
     (\<forall>t. t \<in> set ts \<longleftrightarrow> (\<exists>i j. word_at u (str_chars s) i j \<and> t = word_token u (str_chars s) i j)) \<and>
     sorted_wrt (\<lambda>a b. tk_end a < tk_start b) ts"
proof -
  let ?xs = "str_chars s" and ?st = "\<lparr>ts_tokens = [], ts_statement = 0, ts_previous = None, ts_pending = None\<rparr>"
  have "token_inv u ?xs 0 ?st" by (simp add: token_inv_def statement_of_def word_from_def)
  then obtain st where loop: "token_loop u s (char_indices s) ?st = Some st" and inv: "token_inv u ?xs (length ?xs) st"
    using token_loop_inv [of 0 "char_indices s" s u ?st] by (auto simp: str_chars_def)
  have "word_at u ?xs i j \<Longrightarrow> j < Suc (length ?xs)" for i j by (simp add: word_at_def word_from_def)
  then have "t \<in> {word_token u ?xs i j | i j. word_at u ?xs i j \<and> j < Suc (length ?xs)} \<longleftrightarrow>
      (\<exists>i j. word_at u ?xs i j \<and> t = word_token u ?xs i j)" for t by blast
  with flush_pending_inv [OF inv str_chars_nonempty] loop show ?thesis
    by (simp add: tokenize_def)
qed

section \<open>What the cue matches are\<close>

definition readable :: "string \<Rightarrow> token list \<Rightarrow> bool" where
  "readable s ts =
     ((\<forall>t\<in>set ts. \<exists>w. w \<noteq> [] \<and> str_get s (tk_start t) (tk_end t) = Some w) \<and>
      sorted_wrt (\<lambda>a b. tk_end a < tk_start b) ts)"

lemma tokenize_readable: "tokenize u s = Some ts \<Longrightarrow> readable s ts"
proof -
  assume "tokenize u s = Some ts"
  with tokens_exact [of u s] have ts: "\<forall>t. t \<in> set ts \<longleftrightarrow> (\<exists>i j. word_at u (str_chars s) i j \<and> t = word_token u (str_chars s) i j)"
    and sorted: "sorted_wrt (\<lambda>a b. tk_end a < tk_start b) ts" by auto
  have "\<exists>w. w \<noteq> [] \<and> str_get s (tk_start t) (tk_end t) = Some w" if "t \<in> set ts" for t
  proof -
    from that ts obtain i j where t: "word_at u (str_chars s) i j" "t = word_token u (str_chars s) i j" by blast
    then have ij: "i < j" "j \<le> length (str_chars s)" by (simp_all add: word_at_def word_from_def)
    then have "str_get s (tk_start t) (tk_end t) = Some (concat (take (j - i) (drop i (str_chars s))))"
      using str_get_chars [of i j s] t(2) by (simp add: word_token_def)
    moreover have "char_start (str_chars s) i < char_start (str_chars s) j"
      using ij by (intro char_start_less) (simp_all add: str_chars_nonempty)
    ultimately obtain w where w: "str_get s (tk_start t) (tk_end t) = Some w" and less: "tk_start t < tk_end t"
      using t(2) by (simp add: word_token_def)
    from str_get_Some [OF w] less have "w \<noteq> []" by auto
    with w show ?thesis by blast
  qed
  with sorted show ?thesis by (simp add: readable_def)
qed

text \<open>A cue occurs at token \<open>k\<close> up to token \<open>e\<close>: whole tokens of one statement with white space alone between them.\<close>

definition cue_token :: "unicode \<Rightarrow> string \<Rightarrow> token list \<Rightarrow> nat \<Rightarrow> nat \<Rightarrow> nat \<Rightarrow> string \<Rightarrow> bool" where
  "cue_token u s ts st k i w =
     (k + i < length ts \<and> tk_statement (ts ! (k + i)) = st \<and> token_matches u s (ts ! (k + i)) w = Some True \<and>
      (0 < i \<longrightarrow> gap_is_whitespace s (tk_end (ts ! (k + i - 1))) (tk_start (ts ! (k + i)))))"

definition cue_occurs :: "unicode \<Rightarrow> string \<Rightarrow> token list \<Rightarrow> nat \<Rightarrow> string list \<Rightarrow> nat \<Rightarrow> bool" where
  "cue_occurs u s ts k ws e =
     (k < length ts \<and> ws \<noteq> [] \<and> e = k + length ws - 1 \<and>
      (\<forall>i<length ws. cue_token u s ts (tk_statement (ts ! k)) k i (ws ! i)))"

lemma token_matches_total: "readable s ts \<Longrightarrow> t \<in> set ts \<Longrightarrow> \<exists>b. token_matches u s t w = Some b"
  by (auto simp: readable_def token_matches_def)

lemma cue_loop_spec:
  assumes "readable s ts"
  shows "(0 < i \<longrightarrow> last_index = k + i - 1 \<and> last_index < length ts) \<Longrightarrow>
    cue_loop u s ts st k i last_index ws =
      Some (if \<forall>j<length ws. cue_token u s ts st k (i + j) (ws ! j)
        then Some (if ws = [] then last_index else k + i + length ws - 1) else None)"
proof (induction ws arbitrary: i last_index)
  case (Cons w ws)
  have all: "(\<forall>j<length (w # ws). cue_token u s ts st k (i + j) ((w # ws) ! j)) \<longleftrightarrow>
      cue_token u s ts st k i w \<and> (\<forall>j<length ws. cue_token u s ts st k (Suc i + j) (ws ! j))"
    by (simp add: All_less_Suc2)
  show ?case
  proof (cases "k + i < length ts \<and> tk_statement (ts ! (k + i)) = st")
    case False
    then have "\<not> cue_token u s ts st k i w" by (auto simp: cue_token_def)
    with False show ?thesis unfolding all by (auto simp: token_at_def)
  next
    case True
    then obtain b where b: "token_matches u s (ts ! (k + i)) w = Some b"
      using token_matches_total [OF assms] by (metis nth_mem)
    have IH: "cue_loop u s ts st k (Suc i) (k + i) ws =
        Some (if \<forall>j<length ws. cue_token u s ts st k (Suc i + j) (ws ! j)
          then Some (if ws = [] then k + i else k + Suc i + length ws - 1) else None)"
      using True by (intro Cons.IH) simp
    have head: "cue_token u s ts st k i w \<longleftrightarrow>
        b \<and> (0 < i \<longrightarrow> gap_is_whitespace s (tk_end (ts ! (k + i - 1))) (tk_start (ts ! (k + i))))"
      using True b by (simp add: cue_token_def)
    have "(if ws = [] then k + i else k + Suc i + length ws - 1) = k + i + length (w # ws) - 1" by simp
    note ends = this
    define R where "R \<longleftrightarrow> (\<forall>j<length ws. cue_token u s ts st k (Suc i + j) (ws ! j))"
    have rest: "cue_loop u s ts st k (Suc i) (k + i) ws = Some (if R then Some (k + i + length (w # ws) - 1) else None)"
      unfolding IH R_def ends by (rule refl)
    show ?thesis unfolding all head R_def [symmetric] using True b rest Cons.prems
      by (cases "i = 0") (simp_all add: token_at_def)
  qed
qed simp

lemma cue_at_spec:
  assumes "readable s ts" "ws \<noteq> []"
  shows "\<exists>r. cue_at u s ts k ws = Some r \<and> (\<forall>e. r = Some e \<longleftrightarrow> cue_occurs u s ts k ws e)"
  using cue_loop_spec [OF assms(1), of 0 k k u "tk_statement (ts ! k)" ws] assms(2)
  by (auto simp: cue_at_def token_at_def cue_occurs_def)

text \<open>
  The choice of the code among the cues that occur at one token: the longest, and the first of equally long ones.
\<close>

definition best_of :: "unicode \<Rightarrow> string \<Rightarrow> token list \<Rightarrow> nat \<Rightarrow> (claim_kind \<times> string list) list \<Rightarrow> claim_kind \<Rightarrow>
    nat \<Rightarrow> bool" where
  "best_of u s ts k cues kind e =
     (\<exists>pre ws post. cues = pre @ (kind, ws) # post \<and> cue_occurs u s ts k ws e \<and>
        (\<forall>c\<in>set pre. \<forall>e'. cue_occurs u s ts k (snd c) e' \<longrightarrow> e' < e) \<and>
        (\<forall>c\<in>set post. \<forall>e'. cue_occurs u s ts k (snd c) e' \<longrightarrow> e' \<le> e))"

lemma best_of_snoc:
  "best_of u s ts k (cues @ [c]) kind e \<longleftrightarrow>
     kind = fst c \<and> cue_occurs u s ts k (snd c) e \<and>
       (\<forall>d\<in>set cues. \<forall>e'. cue_occurs u s ts k (snd d) e' \<longrightarrow> e' < e) \<or>
     best_of u s ts k cues kind e \<and> (\<forall>e'. cue_occurs u s ts k (snd c) e' \<longrightarrow> e' \<le> e)" (is "_ \<longleftrightarrow> ?new \<or> ?old")
proof
  assume "best_of u s ts k (cues @ [c]) kind e"
  then obtain pre ws post where b: "cues @ [c] = pre @ (kind, ws) # post" "cue_occurs u s ts k ws e"
    "\<forall>c\<in>set pre. \<forall>e'. cue_occurs u s ts k (snd c) e' \<longrightarrow> e' < e"
    "\<forall>c\<in>set post. \<forall>e'. cue_occurs u s ts k (snd c) e' \<longrightarrow> e' \<le> e" by (auto simp: best_of_def)
  show "?new \<or> ?old"
  proof (cases post rule: rev_cases)
    case Nil
    with b have "cues = pre" "c = (kind, ws)" by auto
    with b show ?thesis by auto
  next
    case (snoc post' d)
    with b(1) have "cues = pre @ (kind, ws) # post'" "c = d" by auto
    then have "best_of u s ts k cues kind e"
      unfolding best_of_def using b(2-4) snoc by (intro exI [of _ pre] exI [of _ ws] exI [of _ post']) simp
    moreover have "\<forall>e'. cue_occurs u s ts k (snd c) e' \<longrightarrow> e' \<le> e" using b(4) snoc \<open>c = d\<close> by simp
    ultimately show ?thesis by blast
  qed
next
  assume "?new \<or> ?old"
  then show "best_of u s ts k (cues @ [c]) kind e"
  proof
    assume ?new
    then show ?thesis unfolding best_of_def by (intro exI [of _ cues] exI [of _ "snd c"] exI [of _ "[]"]) auto
  next
    assume ?old
    then obtain pre ws post where b: "cues = pre @ (kind, ws) # post" "cue_occurs u s ts k ws e"
      "\<forall>c\<in>set pre. \<forall>e'. cue_occurs u s ts k (snd c) e' \<longrightarrow> e' < e"
      "\<forall>c\<in>set post. \<forall>e'. cue_occurs u s ts k (snd c) e' \<longrightarrow> e' \<le> e"
      and c: "\<forall>e'. cue_occurs u s ts k (snd c) e' \<longrightarrow> e' \<le> e" by (auto simp: best_of_def)
    then show ?thesis unfolding best_of_def by (intro exI [of _ pre] exI [of _ ws] exI [of _ "post @ [c]"]) auto
  qed
qed

lemma best_of_occurs: "best_of u s ts k cues kind e \<Longrightarrow> \<exists>ws. (kind, ws) \<in> set cues \<and> cue_occurs u s ts k ws e"
  by (auto simp: best_of_def)

lemma best_of_greatest:
  assumes "best_of u s ts k cues kind e" "c \<in> set cues" "cue_occurs u s ts k (snd c) e'"
  shows "e' \<le> e"
proof -
  obtain pre ws post where b: "cues = pre @ (kind, ws) # post" "cue_occurs u s ts k ws e"
    "\<forall>c\<in>set pre. \<forall>e'. cue_occurs u s ts k (snd c) e' \<longrightarrow> e' < e"
    "\<forall>c\<in>set post. \<forall>e'. cue_occurs u s ts k (snd c) e' \<longrightarrow> e' \<le> e" using assms(1) by (auto simp: best_of_def)
  from assms(2) b(1) consider "c \<in> set pre" | "c = (kind, ws)" | "c \<in> set post" by auto
  then show ?thesis
  proof cases
    case 1
    with b(3) assms(3) show ?thesis by (blast intro: less_imp_le)
  next
    case 2
    with b(2) assms(3) have "e' = e" by (auto simp: cue_occurs_def)
    then show ?thesis by simp
  next
    case 3
    with b(4) assms(3) show ?thesis by blast
  qed
qed

definition best_upto :: "unicode \<Rightarrow> string \<Rightarrow> token list \<Rightarrow> nat \<Rightarrow> (claim_kind \<times> string list) list \<Rightarrow>
    (claim_kind \<times> nat) option \<Rightarrow> bool" where
  "best_upto u s ts k cues best =
     (case best of
        None \<Rightarrow> (\<forall>c\<in>set cues. \<forall>e. \<not> cue_occurs u s ts k (snd c) e)
      | Some (kind, e) \<Rightarrow> best_of u s ts k cues kind e)"

lemma cue_occurs_end: "cue_occurs u s ts k ws e \<Longrightarrow> cue_occurs u s ts k ws e' \<Longrightarrow> e = e'"
  by (simp add: cue_occurs_def)

lemma best_upto_snoc:
  assumes "best_upto u s ts k cues best" "\<forall>e. found = Some e \<longleftrightarrow> cue_occurs u s ts k (snd c) e"
  shows "best_upto u s ts k (cues @ [c])
    (case found of
       None \<Rightarrow> best
     | Some e \<Rightarrow>
         (case best of
            None \<Rightarrow> Some (fst c, e)
          | Some (_, best_end) \<Rightarrow> if e > best_end then Some (fst c, e) else best))"
proof (cases found)
  case None
  with assms show ?thesis
    by (auto simp: best_upto_def best_of_snoc split: option.splits)
next
  case (Some e)
  note found = this
  with assms(2) have e: "cue_occurs u s ts k (snd c) e" by blast
  then have end_unique: "cue_occurs u s ts k (snd c) e' \<longleftrightarrow> e' = e" for e' using cue_occurs_end by blast
  show ?thesis
  proof (cases best)
    case None
    with assms(1) have "\<forall>d\<in>set cues. \<forall>e'. \<not> cue_occurs u s ts k (snd d) e'" by (simp add: best_upto_def)
    with None found e show ?thesis by (simp add: best_upto_def best_of_snoc)
  next
    case (Some b)
    obtain kind eb where b: "b = (kind, eb)" by (cases b)
    with Some assms(1) have old: "best_of u s ts k cues kind eb" by (simp add: best_upto_def)
    show ?thesis
    proof (cases "e > eb")
      case True
      with best_of_greatest [OF old] have "\<forall>d\<in>set cues. \<forall>e'. cue_occurs u s ts k (snd d) e' \<longrightarrow> e' < e"
        by (meson le_less_trans)
      with True Some found b e show ?thesis by (simp add: best_upto_def best_of_snoc)
    next
      case False
      with old have "best_of u s ts k (cues @ [c]) kind eb" by (simp add: best_of_snoc end_unique)
      with False Some found b show ?thesis by (simp add: best_upto_def)
    qed
  qed
qed

lemma best_cue_spec:
  assumes "readable s ts"
  shows "best_upto u s ts k seen best \<Longrightarrow> \<forall>c\<in>set cues. snd c \<noteq> [] \<Longrightarrow>
    \<exists>r. best_cue u s ts k cues best = Some r \<and> best_upto u s ts k (seen @ cues) r"
proof (induction cues arbitrary: seen best)
  case (Cons c cues)
  obtain found where f: "cue_at u s ts k (snd c) = Some found" "\<forall>e. found = Some e \<longleftrightarrow> cue_occurs u s ts k (snd c) e"
    using cue_at_spec [OF assms, of "snd c" u k] Cons.prems(2) by auto
  from Cons.IH [OF best_upto_snoc [OF Cons.prems(1) f(2)]] Cons.prems(2) f(1) show ?case by simp
qed simp

lemma best_of_unique: "best_of u s ts k cues kind e \<Longrightarrow> best_of u s ts k cues kind' e' \<Longrightarrow> kind = kind' \<and> e = e'"
proof (induction cues arbitrary: kind e kind' e' rule: rev_induct)
  case Nil
  then show ?case by (simp add: best_of_def)
next
  case (snoc c cues)
  have "e' < e" if "\<forall>d\<in>set cues. \<forall>e'. cue_occurs u s ts k (snd d) e' \<longrightarrow> e' < e" "best_of u s ts k cues kind e'" for kind e e'
    using that best_of_occurs [of u s ts k cues kind e'] by fastforce
  with snoc show ?case unfolding best_of_snoc by (metis cue_occurs_end leD)
qed

lemma cue_matches_facts:
  assumes "tokenize u s = Some ts"
  shows "\<exists>ms. cue_matches u s ts = Some ms \<and> sorted_wrt (\<lambda>a b. cm_start a < cm_start b) ms \<and>
    (\<forall>m. m \<in> set ms \<longleftrightarrow> cm_start m < length ts \<and> best_of u s ts (cm_start m) CUES (cm_kind m) (cm_end m))"
proof -
  have "\<forall>c\<in>set CUES. snd c \<noteq> []" by (simp add: CUES_def)
  moreover have "best_upto u s ts k [] None" for k by (simp add: best_upto_def)
  ultimately have "\<exists>r. best_cue u s ts k CUES None = Some r \<and> best_upto u s ts k CUES r" for k
    using best_cue_spec [OF tokenize_readable [OF assms], of u k "[]" None CUES] by simp
  then obtain r where r: "\<And>k. best_cue u s ts k CUES None = Some (r k)" "\<And>k. best_upto u s ts k CUES (r k)" by metis
  define mk where "mk k = map_option (\<lambda>(kind, e). \<lparr>cm_kind = kind, cm_start = k, cm_end = e\<rparr>) (r k)" for k
  then have mk_fun: "mk = (\<lambda>k. map_option (\<lambda>(kind, e). \<lparr>cm_kind = kind, cm_start = k, cm_end = e\<rparr>) (r k))" by blast
  have those: "those (map (\<lambda>x. Some (f x)) xs) = Some (map f xs)" for f :: "'a \<Rightarrow> 'b" and xs by (induction xs) auto
  define ms where "ms = List.map_filter mk [0..<length ts]"
  have "cue_matches u s ts = Some (List.map_filter (\<lambda>x. x) (map mk [0..<length ts]))"
    unfolding mk_fun by (simp add: cue_matches_def r those)
  also have "List.map_filter (\<lambda>x. x) (map mk [0..<length ts]) = ms" by (simp add: ms_def map_filter_def filter_map o_def)
  finally have result: "cue_matches u s ts = Some ms" .
  have mk: "mk k = Some m \<longleftrightarrow> cm_start m = k \<and> best_of u s ts k CUES (cm_kind m) (cm_end m)" for k m
  proof (cases "r k")
    case None
    with r(2) [of k] have "\<not> best_of u s ts k CUES kind e" for kind e
      using best_of_occurs by (fastforce simp: best_upto_def)
    with None show ?thesis by (simp add: mk_def)
  next
    case (Some p)
    obtain kind e where p: "p = (kind, e)" by (cases p)
    with r(2) [of k] Some have b: "best_of u s ts k CUES kind e" by (simp add: best_upto_def)
    have "best_of u s ts k CUES (cm_kind m) (cm_end m) \<longleftrightarrow> cm_kind m = kind \<and> cm_end m = e"
      using b best_of_unique [OF b, of "cm_kind m" "cm_end m"] by blast
    with Some p show ?thesis by (cases m) (auto simp: mk_def)
  qed
  let ?hits = "filter (\<lambda>k. mk k \<noteq> None) [0..<length ts]"
  have start: "cm_start (the (mk k)) = k" if "k \<in> set ?hits" for k using that mk [of k "the (mk k)"] by auto
  have "sorted_wrt (<) ?hits" by (intro sorted_wrt_filter) simp
  then have "sorted_wrt (\<lambda>a b. cm_start (the (mk a)) < cm_start (the (mk b))) ?hits"
    by (rule sorted_wrt_mono_rel [rotated]) (simp only: start)
  then have "sorted_wrt (\<lambda>a b. cm_start a < cm_start b) ms"
    by (simp add: ms_def map_filter_def sorted_wrt_map)
  moreover have "m \<in> set ms \<longleftrightarrow> (\<exists>k<length ts. mk k = Some m)" for m
    by (force simp: ms_def map_filter_def)
  ultimately show ?thesis using result by (auto simp: mk)
qed

text \<open>C25. 
  Cues are recognised by maximal munch over whole tokens. At each token of the block the longest cue of the vocabulary
  that occurs there is reported, the first of equally long ones, and nothing else; the reports are ordered by token, at
  most one for each, and no index or slice fails.
\<close>

theorem cue_matches_exact:
  "\<exists>ts ms. tokenize u s = Some ts \<and> cue_matches u s ts = Some ms \<and> sorted_wrt (\<lambda>a b. cm_start a < cm_start b) ms \<and>
     (\<forall>m. m \<in> set ms \<longleftrightarrow> cm_start m < length ts \<and> best_of u s ts (cm_start m) CUES (cm_kind m) (cm_end m))"
proof -
  obtain ts where "tokenize u s = Some ts" using tokens_exact by blast
  with cue_matches_facts [OF this] show ?thesis by blast
qed

section \<open>What an extraction yields\<close>

lemma best_of_range: "best_of u s ts k cues kind e \<Longrightarrow> k \<le> e \<and> e < length ts"
proof -
  assume "best_of u s ts k cues kind e"
  then obtain ws where "cue_occurs u s ts k ws e" by (auto simp: best_of_def)
  then have "ws \<noteq> []" "e = k + length ws - 1" "cue_token u s ts (tk_statement (ts ! k)) k (length ws - 1) (ws ! (length ws - 1))"
    by (auto simp: cue_occurs_def)
  then show ?thesis by (cases ws) (auto simp: cue_token_def)
qed

lemma token_at_Some: "i < length ts \<Longrightarrow> token_at ts i = Some (ts ! i)"
  by (simp add: token_at_def)

lemma is_particle_total: "readable s ts \<Longrightarrow> \<exists>b. is_particle u s ts st i = Some b \<and> (b \<longrightarrow> i < length ts)"
  using token_matches_total [of s ts "ts ! i" u NEGATION_PARTICLE] by (auto simp: is_particle_def token_at_def)

lemma negated_range_total:
  assumes "readable s ts" "cm_start m \<le> cm_end m" "cm_end m < length ts"
  shows "\<exists>a b. negated_range u s ts m starts = Some (a, b) \<and> a \<le> cm_start m \<and> cm_end m \<le> b \<and> b < length ts"
proof -
  let ?st = "tk_statement (ts ! cm_start m)"
  have "\<exists>l. left_particle u s ts m starts ?st = Some l"
    using is_particle_total [OF assms(1), of u ?st "cm_start m - 1"] assms(2,3)
    by (auto simp: left_particle_def Let_def gap_between_def token_at_Some)
  moreover have "\<exists>r. right_particle u s ts m starts ?st = Some r \<and> (r \<longrightarrow> cm_end m + 1 < length ts)"
    using is_particle_total [OF assms(1), of u ?st "cm_end m + 1"] assms(2,3)
    by (auto simp: right_particle_def Let_def gap_between_def token_at_Some)
  ultimately show ?thesis using assms(2,3)
    by (auto simp: negated_range_def token_at_Some)
qed

lemma blocked_from_total: "\<forall>i\<in>set is. i < length ts \<Longrightarrow> \<exists>b. blocked_from s ts starts first is = Some b"
  by (induction "is") (auto simp: gap_between_def token_at_Some)

lemma participant_total:
  "p < length ts \<Longrightarrow> \<exists>r. participant_tokens s ts starts p cues = Some r \<and>
     (\<forall>a b. r = Some (a, b) \<longrightarrow> a \<le> b \<and> b < length ts)"
proof -
  assume p: "p < length ts"
  have "\<exists>b. blocked_from s ts cues f [f..<p] = Some b" for f using p by (intro blocked_from_total) simp
  then obtain b where "blocked_from s ts cues (starts ! tk_statement (ts ! p)) [starts ! tk_statement (ts ! p)..<p] = Some b"
    by blast
  with p show ?thesis by (cases b) (auto simp: participant_tokens_def token_at_Some Let_def)
qed

definition backed :: "string \<Rightarrow> text_span \<Rightarrow> bool" where
  "backed s sp = (\<exists>w. w \<noteq> [] \<and> str_get s (span_start sp) (span_end sp) = Some w)"

lemma backed_nonempty: "backed s sp \<Longrightarrow> span_start sp < span_end sp"
  using str_get_Some by (fastforce simp: backed_def)

lemma token_span_backed:
  assumes "readable s ts" "a \<le> b" "b < length ts"
  shows "\<exists>sp. token_span ts a b = Some sp \<and> sp = TextSpan (tk_start (ts ! a)) (tk_end (ts ! b)) \<and> backed s sp"
proof -
  have get: "\<exists>w. w \<noteq> [] \<and> str_get s (tk_start (ts ! i)) (tk_end (ts ! i)) = Some w" if "i < length ts" for i
    using assms(1) that by (simp add: readable_def)
  have less: "tk_start (ts ! i) < tk_end (ts ! i)" if "i < length ts" for i
    using get [OF that] str_get_Some by fastforce
  have "tk_end (ts ! a) \<le> tk_end (ts ! b)"
  proof (cases "a = b")
    case False
    with assms have "tk_end (ts ! a) < tk_start (ts ! b)"
      using sorted_wrt_nth_less [of "\<lambda>a b. tk_end a < tk_start b" ts a b] by (simp add: readable_def)
    with less [of b] assms(3) show ?thesis by simp
  qed simp
  then have ab: "tk_start (ts ! a) < tk_end (ts ! b)" using less [of a] assms by simp
  have "is_char_boundary s (tk_start (ts ! a))" "is_char_boundary s (tk_end (ts ! b))"
    using get [of a] get [of b] assms by (auto simp: str_get_def split: if_splits)
  then have "backed s (TextSpan (tk_start (ts ! a)) (tk_end (ts ! b)))"
    using ab by (auto simp: backed_def str_get_def is_char_boundary_def)
  with ab assms show ?thesis by (simp add: token_span_def token_at_Some span_new_def)
qed

lemma scope_claim_backed: "backed s sp \<Longrightarrow> scope_claim k b sp = Some (SemanticClaim k b sp [sp])"
  by (drule backed_nonempty) (simp add: scope_claim_def semantic_claim_new_def)

lemma insert_claim_set: "set (insert_claim c cs) = set cs \<union> set_option c"
  by (cases c) (auto simp: insert_claim_def set_insort_insert)

lemma insert_claim_sorted: "sorted_wrt (<) cs \<Longrightarrow> sorted_wrt (<) (insert_claim c cs)"
  by (cases c) (auto simp: insert_claim_def strict_sorted_iff sorted_insort_insert distinct_insort_insert)

text \<open>The claims that one block may yield, and how the three loops add them.\<close>

definition claim_ok :: "string \<Rightarrow> block_id \<Rightarrow> (claim_kind \<Rightarrow> text_span \<Rightarrow> bool) \<Rightarrow> semantic_claim \<Rightarrow> bool" where
  "claim_ok s b P c =
     (sc_block c = b \<and> sc_evidence c = [sc_span c] \<and> backed s (sc_span c) \<and> P (sc_kind c) (sc_span c))"

lemma insert_claim_ok:
  assumes "backed s sp" "P k sp" "\<forall>c\<in>set cs. claim_ok s b P c"
  shows "\<forall>c\<in>set (insert_claim (scope_claim k b sp) cs). claim_ok s b P c"
    and "SemanticClaim k b sp [sp] \<in> set (insert_claim (scope_claim k b sp) cs)"
  using assms by (auto simp: insert_claim_set scope_claim_backed claim_ok_def)

lemma actor_loop_ok:
  assumes "readable s ts" "\<And>sp. P KActor sp"
  shows "\<forall>m\<in>set ms. cm_start m < length ts \<Longrightarrow> sorted_wrt (<) cs \<Longrightarrow> \<forall>c\<in>set cs. claim_ok s b P c \<Longrightarrow>
    \<exists>ds. actor_loop s ts starts cues b claimed ms cs = Some ds \<and> sorted_wrt (<) ds \<and> (\<forall>c\<in>set ds. claim_ok s b P c)"
proof (induction ms arbitrary: claimed cs)
  case (Cons m ms)
  have m: "cm_start m < length ts" using Cons.prems(1) by simp
  obtain r where r: "participant_tokens s ts starts (cm_start m) cues = Some r"
    "\<And>a b. r = Some (a, b) \<Longrightarrow> a \<le> b \<and> b < length ts" using participant_total [OF m] by blast
  define next_cs where "next_cs = (case r of None \<Rightarrow> cs | Some (a, e) \<Rightarrow>
      (case token_span ts a e of None \<Rightarrow> cs | Some span \<Rightarrow> insert_claim (scope_claim KActor b span) cs))"
  have "sorted_wrt (<) next_cs \<and> (\<forall>c\<in>set next_cs. claim_ok s b P c)"
  proof (cases r)
    case (Some ae)
    then obtain a e where ae: "r = Some (a, e)" by (cases ae) auto
    then obtain sp where "token_span ts a e = Some sp" "backed s sp"
      using token_span_backed [OF assms(1), of a e] r(2) by blast
    with ae insert_claim_ok(1) [OF this(2), of P KActor cs b, OF assms(2) Cons.prems(3)] Cons.prems(2) show ?thesis
      unfolding next_cs_def by (simp add: insert_claim_sorted)
  qed (use Cons.prems in \<open>simp add: next_cs_def\<close>)
  then show ?case using Cons.IH Cons.prems m r(1)
    by (simp add: token_at_Some Let_def next_cs_def [symmetric])
qed simp

lemma self_loop_ok:
  assumes "\<And>r. r \<in> set refs \<Longrightarrow> P KActor (tr_span r)"
  shows "sorted_wrt (<) cs \<Longrightarrow> \<forall>c\<in>set cs. claim_ok s b P c \<Longrightarrow>
    sorted_wrt (<) (self_loop s b refs cs) \<and> (\<forall>c\<in>set (self_loop s b refs cs). claim_ok s b P c)"
  using assms
proof (induction refs arbitrary: cs)
  case (Cons r refs)
  have backed: "evidence_in_block s sp \<Longrightarrow> backed s sp" for sp
    by (auto simp: evidence_in_block_def backed_def str_get_def)
  show ?case
  proof (cases "evidence_in_block s (tr_span r)")
    case True
    let ?cs = "insert_claim (scope_claim KActor b (tr_span r)) cs"
    have "\<forall>c\<in>set ?cs. claim_ok s b P c"
      using insert_claim_ok(1) [OF backed [OF True], of P KActor cs b] Cons.prems(2,3) by simp
    with Cons.IH [of ?cs] Cons.prems(1,3) True show ?thesis by (simp add: self_loop_def insert_claim_sorted)
  next
    case False
    with Cons show ?thesis by (simp add: self_loop_def)
  qed
qed (simp add: self_loop_def)

lemma cue_claims_loop_ok:
  assumes "readable s ts" "\<And>k sp. k \<noteq> KActor \<Longrightarrow> k \<notin> {KAction, KObject} \<Longrightarrow> P k sp"
  shows "\<forall>m\<in>set ms. cm_start m \<le> cm_end m \<and> cm_end m < length ts \<and> cm_kind m \<notin> {KActor, KAction, KObject} \<Longrightarrow>
    sorted_wrt (<) cs \<Longrightarrow> \<forall>c\<in>set cs. claim_ok s b P c \<Longrightarrow>
    \<exists>ds. cue_claims_loop u s ts cues b ms cs = Some ds \<and> sorted_wrt (<) ds \<and> (\<forall>c\<in>set ds. claim_ok s b P c) \<and>
      set cs \<subseteq> set ds \<and>
      (\<forall>m\<in>set ms. \<exists>c\<in>set ds. sc_kind c = cm_kind m \<and>
         span_start (sc_span c) \<le> tk_start (ts ! cm_start m) \<and> tk_end (ts ! cm_end m) \<le> span_end (sc_span c))"
proof (induction ms arbitrary: cs)
  case (Cons m ms)
  then obtain x y where xy: "negated_range u s ts m cues = Some (x, y)" "x \<le> cm_start m" "cm_end m \<le> y" "y < length ts"
    using negated_range_total [OF assms(1), of m u cues] by auto
  have "x \<le> y" using xy Cons.prems(1) by simp
  then obtain sp where sp: "token_span ts x y = Some sp" "sp = TextSpan (tk_start (ts ! x)) (tk_end (ts ! y))" "backed s sp"
    using token_span_backed [OF assms(1) _ xy(4)] by blast
  let ?c = "SemanticClaim (cm_kind m) b sp [sp]" and ?cs = "insert_claim (scope_claim (cm_kind m) b sp) cs"
  have P: "P (cm_kind m) sp" using assms(2) Cons.prems(1) by simp
  have cs: "sorted_wrt (<) ?cs" "\<forall>c\<in>set ?cs. claim_ok s b P c" "?c \<in> set ?cs" "set cs \<subseteq> set ?cs"
    using Cons.prems(2,3) insert_claim_ok [OF sp(3), of P "cm_kind m" cs b, OF P]
    by (auto simp: insert_claim_sorted insert_claim_set)
  obtain ds where ds: "cue_claims_loop u s ts cues b ms ?cs = Some ds" "sorted_wrt (<) ds" "\<forall>c\<in>set ds. claim_ok s b P c"
    "set ?cs \<subseteq> set ds" "\<forall>m\<in>set ms. \<exists>c\<in>set ds. sc_kind c = cm_kind m \<and>
         span_start (sc_span c) \<le> tk_start (ts ! cm_start m) \<and> tk_end (ts ! cm_end m) \<le> span_end (sc_span c)"
    using Cons.IH [OF _ cs(1,2)] Cons.prems(1) by auto
  have mono: "tk_start (ts ! i) \<le> tk_start (ts ! j) \<and> tk_end (ts ! i) \<le> tk_end (ts ! j)" if "i \<le> j" "j < length ts" for i j
  proof (cases "i = j")
    case False
    with that assms(1) have "tk_end (ts ! i) < tk_start (ts ! j)"
      using sorted_wrt_nth_less [of "\<lambda>a b. tk_end a < tk_start b" ts i j] by (simp add: readable_def)
    moreover have "tk_start (ts ! k) < tk_end (ts ! k)" if "k < length ts" for k
      using backed_nonempty [of s "TextSpan (tk_start (ts ! k)) (tk_end (ts ! k))"] assms(1) that
      by (simp add: readable_def backed_def)
    from this [of i] this [of j] that have "tk_start (ts ! i) < tk_end (ts ! i)" "tk_start (ts ! j) < tk_end (ts ! j)" by auto
    ultimately show ?thesis by simp
  qed simp
  have "span_start sp \<le> tk_start (ts ! cm_start m)" "tk_end (ts ! cm_end m) \<le> span_end sp"
    using mono [of x "cm_start m"] mono [of "cm_end m" y] xy Cons.prems(1) sp(2) by auto
  then have "\<exists>c\<in>set ds. sc_kind c = cm_kind m \<and>
      span_start (sc_span c) \<le> tk_start (ts ! cm_start m) \<and> tk_end (ts ! cm_end m) \<le> span_end (sc_span c)"
    using cs(3) ds(4) by (intro bexI [of _ ?c]) auto
  with ds cs(4) xy(1) sp(1) show ?case by auto
qed simp

text \<open>What may be claimed of a block: no action or object, and an actor for an act frame or a self-reference only.\<close>

definition may_claim :: "source_block \<Rightarrow> overlay \<Rightarrow> this_ref list \<Rightarrow> claim_kind \<Rightarrow> text_span \<Rightarrow> bool" where
  "may_claim block ov refs k sp =
     (k \<notin> {KAction, KObject} \<and>
      (k = KActor \<longrightarrow> (\<exists>f\<in>set (ov_frames ov). fr_block f = sb_id block) \<or> (\<exists>r\<in>set refs. tr_span r = sp)))"

text \<open>The cue occurrence \<open>m\<close> has a claim of its kind that covers it.\<close>

definition covered :: "token list \<Rightarrow> semantic_claim list \<Rightarrow> cue_match \<Rightarrow> bool" where
  "covered ts cs m =
     (\<exists>c\<in>set cs. sc_kind c = cm_kind m \<and>
        span_start (sc_span c) \<le> tk_start (ts ! cm_start m) \<and> tk_end (ts ! cm_end m) \<le> span_end (sc_span c))"

section \<open>Where statements and participants are\<close>

text \<open>
  The specification of an extraction names its claims by the tokens they lie on. First the token at which the code lets
  a statement start: it hands out one token for each statement number, in order, so number \<open>st\<close> starts at the earliest
  token by which every number up to \<open>st\<close> could have been given one.
\<close>

definition reaches :: "token list \<Rightarrow> nat \<Rightarrow> nat \<Rightarrow> bool" where
  "reaches ts st k = (k < length ts \<and> st \<le> k \<and> (\<forall>j\<le>k. st \<le> tk_statement (ts ! j) + (k - j)))"

definition first_token :: "token list \<Rightarrow> nat \<Rightarrow> nat \<Rightarrow> bool" where
  "first_token ts st k = (reaches ts st k \<and> (\<forall>j<k. \<not> reaches ts st j))"

definition in_order :: "token list \<Rightarrow> bool" where
  "in_order ts = (\<forall>i j. i \<le> j \<and> j < length ts \<longrightarrow> tk_statement (ts ! i) \<le> tk_statement (ts ! j))"

lemma statement_of_mono: "i \<le> j \<Longrightarrow> statement_of u xs i \<le> statement_of u xs j"
proof (induction j)
  case (Suc j)
  then show ?case by (cases "i = Suc j") (auto simp: statement_of_Suc)
qed simp

lemma tokenize_in_order: "tokenize u s = Some ts \<Longrightarrow> in_order ts"
proof -
  assume "tokenize u s = Some ts"
  with tokens_exact [of u s] have ts: "\<And>t. t \<in> set ts \<Longrightarrow> \<exists>i j. word_at u (str_chars s) i j \<and> t = word_token u (str_chars s) i j"
    and sorted: "sorted_wrt (\<lambda>a b. tk_end a < tk_start b) ts" by auto
  have "tk_statement (ts ! a) \<le> tk_statement (ts ! b)" if ab: "a < b" "b < length ts" for a b
  proof -
    let ?xs = "str_chars s"
    from ab have "ts ! a \<in> set ts" "ts ! b \<in> set ts" by simp_all
    then obtain i j k l where i: "word_at u ?xs i j" "ts ! a = word_token u ?xs i j"
      and k: "word_at u ?xs k l" "ts ! b = word_token u ?xs k l" using ts by meson
    from k(1) have kl: "k < l" "l \<le> length ?xs" by (simp_all add: word_at_def word_from_def)
    from i(1) have ij: "j \<le> length ?xs" by (simp add: word_at_def word_from_def)
    have "tk_end (ts ! a) < tk_start (ts ! b)" using sorted_wrt_nth_less [OF sorted ab] .
    then have "char_start ?xs j < char_start ?xs k" using i(2) k(2) by (simp add: word_token_def)
    moreover have "char_start ?xs k \<le> char_start ?xs j" if "k \<le> j"
      using char_start_less [of ?xs k j] that ij str_chars_nonempty [of s] by (cases "k = j") (auto simp: less_imp_le)
    ultimately have "j < k" by (meson not_le)
    with kl have "j \<le> l" by simp
    from statement_of_mono [OF this, of u ?xs] i(2) k(2) show ?thesis by (simp add: word_token_def)
  qed
  then show ?thesis unfolding in_order_def by (metis le_neq_implies_less order_refl)
qed

definition started :: "token list \<Rightarrow> nat \<Rightarrow> nat \<Rightarrow> bool" where
  "started ts n k = (k \<le> n \<and> (\<forall>j<n. k \<le> tk_statement (ts ! j) + (n - j)))"

lemma reaches_started:
  assumes "in_order ts" "reaches ts k i" "i < n" "n \<le> length ts"
  shows "started ts n (Suc k)"
proof -
  have "Suc k \<le> tk_statement (ts ! j) + (n - j)" if j: "j < n" for j
  proof (cases "j \<le> i")
    case True
    with assms(2) have "k \<le> tk_statement (ts ! j) + (i - j)" by (simp add: reaches_def)
    with assms(3) True show ?thesis by simp
  next
    case False
    with assms j have "tk_statement (ts ! i) \<le> tk_statement (ts ! j)" by (simp add: in_order_def)
    moreover have "k \<le> tk_statement (ts ! i)" using assms(2) by (force simp: reaches_def)
    ultimately show ?thesis using j by simp
  qed
  with assms(2,3) show ?thesis by (simp add: started_def reaches_def)
qed

lemma started_step:
  assumes order: "in_order ts" and n: "n < length ts" and count: "\<forall>k. k \<le> L \<longleftrightarrow> started ts n k"
  shows "k \<le> (if L \<le> tk_statement (ts ! n) then Suc L else L) \<longleftrightarrow> started ts (Suc n) k"
proof (cases k)
  case (Suc i)
  have "Suc i \<le> tk_statement (ts ! j) + (Suc n - j) \<longleftrightarrow> i \<le> tk_statement (ts ! j) + (n - j)" if "j \<le> n" for j
    using that by (simp add: Suc_diff_le)
  then have "started ts (Suc n) (Suc i) \<longleftrightarrow> i \<le> n \<and> (\<forall>j<Suc n. i \<le> tk_statement (ts ! j) + (n - j))"
    unfolding started_def by (simp add: less_Suc_eq_le)
  then have "started ts (Suc n) (Suc i) \<longleftrightarrow> i \<le> tk_statement (ts ! n) \<and> started ts n i"
    unfolding started_def All_less_Suc by auto
  moreover have "L \<le> Suc (tk_statement (ts ! n))"
  proof (cases n)
    case 0
    with count have "started ts 0 L" by blast
    then show ?thesis by (simp add: started_def)
  next
    case (Suc p)
    with count have "started ts (Suc p) L" by blast
    then have "L \<le> Suc (tk_statement (ts ! p))" unfolding started_def by (auto dest: spec [of _ p])
    moreover have "tk_statement (ts ! p) \<le> tk_statement (ts ! n)" using order n Suc by (simp add: in_order_def)
    ultimately show ?thesis by simp
  qed
  moreover have "i \<le> L \<longleftrightarrow> started ts n i" using count by blast
  ultimately show ?thesis unfolding Suc by (simp split: if_split) arith
qed (simp add: started_def)

lemma statement_starts_loop_spec:
  assumes "in_order ts"
  shows "n \<le> length ts \<Longrightarrow> \<forall>k. k \<le> length starts \<longleftrightarrow> started ts n k \<Longrightarrow> \<forall>k<length starts. first_token ts k (starts ! k) \<Longrightarrow>
    (let R = statement_starts_loop n starts (drop n ts) in
       (\<forall>k. k \<le> length R \<longleftrightarrow> started ts (length ts) k) \<and> (\<forall>k<length R. first_token ts k (R ! k)))"
proof (induction "length ts - n" arbitrary: n starts)
  case 0
  then show ?case by simp
next
  case (Suc d)
  then have n: "n < length ts" by simp
  let ?L = "length starts" and ?t = "ts ! n"
  let ?next = "if ?L \<le> tk_statement ?t then starts @ [n] else starts"
  have "length ?next = (if ?L \<le> tk_statement ?t then Suc ?L else ?L)" by simp
  with started_step [OF assms n Suc.prems(2)] have count: "\<forall>k. k \<le> length ?next \<longleftrightarrow> started ts (Suc n) k" by simp
  have "first_token ts ?L n" if push: "?L \<le> tk_statement ?t"
  proof -
    have "started ts n ?L" using Suc.prems(2) by blast
    with push n have "reaches ts ?L n" by (auto simp: reaches_def started_def le_less)
    moreover have "\<not> reaches ts ?L j" if "j < n" for j
      using reaches_started [OF assms _ that, of ?L] Suc.prems(1,2) by (metis not_less_eq_eq order_refl)
    ultimately show ?thesis by (simp add: first_token_def)
  qed
  with Suc.prems(3) have firsts: "\<forall>k<length ?next. first_token ts k (?next ! k)"
    by (auto simp: nth_append less_Suc_eq)
  have "statement_starts_loop n starts (drop n ts) = statement_starts_loop (Suc n) ?next (drop (Suc n) ts)"
    using n by (simp add: Cons_nth_drop_Suc [symmetric])
  with Suc.hyps(1) [of "Suc n" ?next] Suc.hyps(2) n count firsts show ?case by simp
qed

lemma first_token_unique: "first_token ts st i \<Longrightarrow> first_token ts st j \<Longrightarrow> i = j"
  by (meson first_token_def linorder_neqE_nat)

lemma statement_starts_spec:
  assumes "in_order ts"
  shows "st < length (statement_starts ts) \<and> statement_starts ts ! st = k \<longleftrightarrow> first_token ts st k"
proof -
  let ?R = "statement_starts ts"
  have R: "\<forall>k. k \<le> length ?R \<longleftrightarrow> started ts (length ts) k" "\<forall>k<length ?R. first_token ts k (?R ! k)"
    using statement_starts_loop_spec [OF assms, of 0 "[]"] by (auto simp: statement_starts_def Let_def started_def)
  have "st < length ?R" if "first_token ts st k"
  proof -
    from that have "reaches ts st k" "k < length ts" by (simp_all add: first_token_def reaches_def)
    from reaches_started [OF assms this order_refl] R(1) have "Suc st \<le> length ?R" by blast
    then show ?thesis by simp
  qed
  with R(2) first_token_unique show ?thesis by blast
qed

text \<open>
  When every number up to \<open>st\<close> has a word, statement \<open>st\<close> starts at its first word. A number without a word, such as two
  terminators in a row leave, makes the later starts slide: here statement 2 has its first word at token 1.
\<close>

lemma statement_starts_slide:
  "statement_starts (map (\<lambda>k. \<lparr>tk_start = 0, tk_end = 1, tk_statement = k\<rparr>) [0, 2, 2]) = [0, 1, 2]"
  by (simp add: statement_starts_def)

lemma first_token_dense:
  assumes order: "in_order ts" and dense: "\<forall>x\<le> st. \<exists>t\<in>set ts. tk_statement t = x"
  shows "first_token ts st k \<longleftrightarrow> k < length ts \<and> tk_statement (ts ! k) = st \<and> (\<forall>j<k. tk_statement (ts ! j) < st)"
proof -
  have dense_at: "\<exists>i<length ts. tk_statement (ts ! i) = x" if "x \<le> st" for x
    using dense that by (metis in_set_conv_nth)
  have reach: "st \<le> j" "\<forall>i\<le>j. st \<le> tk_statement (ts ! i) + (j - i)"
    if j: "j < length ts" "st \<le> tk_statement (ts ! j)" for j
  proof -
    have step: "st \<le> tk_statement (ts ! i) + (j - i)" if "i \<le> j" for i
      using that
    proof (induction "j - i" arbitrary: i)
      case 0
      with j show ?case by simp
    next
      case (Suc d)
      then have IH: "st \<le> tk_statement (ts ! Suc i) + (j - Suc i)" by simp
      have "tk_statement (ts ! Suc i) \<le> Suc (tk_statement (ts ! i))" if "tk_statement (ts ! i) < st"
      proof (rule ccontr)
        assume gap: "\<not> tk_statement (ts ! Suc i) \<le> Suc (tk_statement (ts ! i))"
        from that obtain x where x: "x < length ts" "tk_statement (ts ! x) = Suc (tk_statement (ts ! i))"
          using dense_at [of "Suc (tk_statement (ts ! i))"] by auto
        have "x \<le> i \<or> Suc i \<le> x" by linarith
        then have "tk_statement (ts ! x) \<le> tk_statement (ts ! i) \<or> tk_statement (ts ! Suc i) \<le> tk_statement (ts ! x)"
          using order x(1) j(1) Suc.prems Suc.hyps(2) unfolding in_order_def by (metis le_less_trans)
        with x gap show False by simp
      qed
      with IH Suc.hyps(2) show ?case by (cases "tk_statement (ts ! i) < st") simp_all
    qed
    then show "\<forall>i\<le>j. st \<le> tk_statement (ts ! i) + (j - i)" by blast
    have "tk_statement (ts ! 0) = 0"
    proof -
      obtain x where "x < length ts" "tk_statement (ts ! x) = 0" using dense_at [of 0] by auto
      with order show ?thesis unfolding in_order_def by (metis le0 le_zero_eq)
    qed
    with step [of 0] show "st \<le> j" by simp
  qed
  have reaches: "reaches ts st j \<longleftrightarrow> j < length ts \<and> st \<le> tk_statement (ts ! j)" for j
    using reach [of j] unfolding reaches_def by (auto dest: spec [of _ j])
  show ?thesis
  proof
    assume first: "first_token ts st k"
    then have k: "k < length ts" "st \<le> tk_statement (ts ! k)" "\<forall>j<k. tk_statement (ts ! j) < st"
      by (auto simp: first_token_def reaches not_le)
    obtain x where x: "x < length ts" "tk_statement (ts ! x) = st" using dense_at [of st] by auto
    with k(3) have "k \<le> x" by (metis less_irrefl not_le)
    with order x k(2) have "tk_statement (ts ! k) = st" unfolding in_order_def by (metis order_antisym)
    with k show "k < length ts \<and> tk_statement (ts ! k) = st \<and> (\<forall>j<k. tk_statement (ts ! j) < st)" by blast
  next
    assume "k < length ts \<and> tk_statement (ts ! k) = st \<and> (\<forall>j<k. tk_statement (ts ! j) < st)"
    then show "first_token ts st k" by (auto simp: first_token_def reaches)
  qed
qed

text \<open>Between two places of the text there is white space alone, or no clause punctuation; and a token spells a word.\<close>

definition blank :: "string \<Rightarrow> nat \<Rightarrow> nat \<Rightarrow> bool" where
  "blank s a b = (\<exists>w. str_get s a b = Some w \<and> (\<forall>c\<in>set (str_chars w). is_whitespace c))"

definition unpunctuated :: "string \<Rightarrow> nat \<Rightarrow> nat \<Rightarrow> bool" where
  "unpunctuated s a b = (\<exists>w. str_get s a b = Some w \<and> set (str_chars w) \<inter> set CLAUSE_SEPARATORS = {})"

definition spells :: "unicode \<Rightarrow> string \<Rightarrow> token \<Rightarrow> string \<Rightarrow> bool" where
  "spells u s t w = (\<exists>v. str_get s (tk_start t) (tk_end t) = Some v \<and>
     map (uni_lower u) (str_chars v) = map (uni_lower u) (str_chars w))"

lemma gap_tests: "gap_is_whitespace s a b \<longleftrightarrow> blank s a b" "gap_has_clause_separator s a b \<longleftrightarrow> \<not> unpunctuated s a b"
  by (auto simp: gap_is_whitespace_def blank_def list_all_iff gap_has_clause_separator_def unpunctuated_def list_ex_iff
      split: option.splits)

lemma token_matches_spells: "token_matches u s t w = Some True \<longleftrightarrow> spells u s t w"
  by (auto simp: token_matches_def spells_def)

text \<open>
  A participant is what stands between the start of a statement and a polarity cue, when that is one to four tokens
  with no cue among them and no clause punctuation between them.
\<close>

definition opens_cue :: "cue_match list \<Rightarrow> nat \<Rightarrow> bool" where
  "opens_cue ms i = (\<exists>m\<in>set ms. cm_start m = i)"

definition participant :: "string \<Rightarrow> token list \<Rightarrow> cue_match list \<Rightarrow> nat \<Rightarrow> nat \<Rightarrow> bool" where
  "participant s ts ms p f =
     (first_token ts (tk_statement (ts ! p)) f \<and> f < p \<and> p \<le> f + MAX_PARTICIPANT_TOKENS \<and>
      (\<forall>i. f \<le> i \<and> i < p \<longrightarrow> \<not> opens_cue ms i) \<and>
      (\<forall>i. f < i \<and> i < p \<longrightarrow> unpunctuated s (tk_end (ts ! (i - 1))) (tk_start (ts ! i))))"

lemma opens_cue_iff: "opens_cue ms i \<longleftrightarrow> i \<in> cm_start ` set ms"
  by (auto simp: opens_cue_def)

lemma blocked_from_spec:
  "\<forall>i\<in>set is. i < length ts \<Longrightarrow> blocked_from s ts (map cm_start ms) f is =
     Some (\<exists>i\<in>set is. opens_cue ms i \<or> f < i \<and> \<not> unpunctuated s (tk_end (ts ! (i - 1))) (tk_start (ts ! i)))"
  by (induction "is") (auto simp: gap_between_def token_at_Some opens_cue_iff gap_tests)

lemma participant_tokens_spec:
  assumes "in_order ts" "p < length ts"
  shows "participant_tokens s ts (statement_starts ts) p (map cm_start ms) =
    Some (if \<exists>f. participant s ts ms p f then Some (THE f. participant s ts ms p f, p - 1) else None)"
proof -
  let ?st = "tk_statement (ts ! p)" and ?R = "statement_starts ts"
  note starts = statement_starts_spec [OF assms(1), of ?st]
  show ?thesis
  proof (cases "?st < length ?R")
    case False
    with starts have "\<not> participant s ts ms p f" for f unfolding participant_def by blast
    with False assms(2) show ?thesis by (simp add: participant_tokens_def token_at_Some)
  next
    case True
    define f where "f = ?R ! ?st"
    define blocked where "blocked \<longleftrightarrow> (\<exists>i\<in>set [f..<p]. opens_cue ms i \<or>
      f < i \<and> \<not> unpunctuated s (tk_end (ts ! (i - 1))) (tk_start (ts ! i)))"
    have "first_token ts ?st x \<longleftrightarrow> x = f" for x using True starts [of x] by (auto simp: f_def)
    then have part: "participant s ts ms p x \<longleftrightarrow> x = f \<and> f < p \<and> p \<le> f + MAX_PARTICIPANT_TOKENS \<and> \<not> blocked" for x
      unfolding participant_def blocked_def by auto
    have "blocked_from s ts (map cm_start ms) f [f..<p] = Some blocked"
      unfolding blocked_def by (rule blocked_from_spec) (use assms(2) in simp)
    then have run: "participant_tokens s ts ?R p (map cm_start ms) =
        Some (if f < p \<and> p \<le> f + MAX_PARTICIPANT_TOKENS \<and> \<not> blocked then Some (f, p - 1) else None)"
      using True assms(2) by (auto simp: participant_tokens_def token_at_Some Let_def f_def [symmetric])
    show ?thesis unfolding run part by auto
  qed
qed

lemma participant_unique: "participant s ts ms p f \<Longrightarrow> participant s ts ms p g \<Longrightarrow> f = g"
  by (auto simp: participant_def dest: first_token_unique)

text \<open>The first polarity cue of a statement leads it.\<close>

definition leads :: "token list \<Rightarrow> nat set \<Rightarrow> cue_match list \<Rightarrow> cue_match \<Rightarrow> bool" where
  "leads ts claimed ms m =
     (m \<in> set ms \<and> cm_kind m = KPolarity \<and> tk_statement (ts ! cm_start m) \<notin> claimed \<and>
      (\<forall>n\<in>set ms. cm_kind n = KPolarity \<and> tk_statement (ts ! cm_start n) = tk_statement (ts ! cm_start m) \<longrightarrow>
         cm_start m \<le> cm_start n))"

lemma leads_Cons:
  assumes "sorted_wrt (\<lambda>a b. cm_start a < cm_start b) (m # ms)"
  shows "leads ts claimed (m # ms) x \<longleftrightarrow>
    (if cm_kind m \<noteq> KPolarity \<or> tk_statement (ts ! cm_start m) \<in> claimed then leads ts claimed ms x
     else x = m \<or> leads ts (insert (tk_statement (ts ! cm_start m)) claimed) ms x)"
  using assms by (auto simp: leads_def)

definition piece :: "token list \<Rightarrow> nat \<Rightarrow> nat \<Rightarrow> text_span" where
  "piece ts a b = TextSpan (tk_start (ts ! a)) (tk_end (ts ! b))"

definition found_claim :: "block_id \<Rightarrow> claim_kind \<Rightarrow> text_span \<Rightarrow> semantic_claim" where
  "found_claim b k sp = SemanticClaim k b sp [sp]"

definition actor_claims :: "string \<Rightarrow> token list \<Rightarrow> cue_match list \<Rightarrow> block_id \<Rightarrow> cue_match \<Rightarrow> semantic_claim set" where
  "actor_claims s ts ms b m =
     {found_claim b KActor (piece ts f (cm_start m - 1)) | f. participant s ts ms (cm_start m) f}"

lemma insert_piece:
  assumes "readable s ts" "x \<le> y" "y < length ts"
  shows "(case token_span ts x y of None \<Rightarrow> cs | Some span \<Rightarrow> insert_claim (scope_claim k b span) cs) =
      insort_insert (found_claim b k (piece ts x y)) cs"
  using token_span_backed [OF assms] by (auto simp: piece_def found_claim_def scope_claim_backed insert_claim_def)

lemma actor_loop_set:
  assumes "readable s ts" "in_order ts"
  shows "sorted_wrt (\<lambda>a b. cm_start a < cm_start b) ms \<Longrightarrow> \<forall>m\<in>set ms. cm_start m < length ts \<Longrightarrow>
    \<exists>ds. actor_loop s ts (statement_starts ts) (map cm_start all) b claimed ms cs = Some ds \<and>
      set ds = set cs \<union> (\<Union>m\<in>{m. leads ts (set claimed) ms m}. actor_claims s ts all b m)"
proof (induction ms arbitrary: claimed cs)
  case Nil
  then show ?case by (simp add: leads_def)
next
  case (Cons m ms)
  have p: "cm_start m < length ts" and sorted: "sorted_wrt (\<lambda>a b. cm_start a < cm_start b) ms" using Cons.prems by simp_all
  note leads = leads_Cons [OF Cons.prems(1)] and IH = Cons.IH [OF sorted]
  let ?st = "tk_statement (ts ! cm_start m)"
  show ?case
  proof (cases "cm_kind m \<noteq> KPolarity \<or> ?st \<in> set claimed")
    case True
    then have "actor_loop s ts (statement_starts ts) (map cm_start all) b claimed (m # ms) cs =
        actor_loop s ts (statement_starts ts) (map cm_start all) b claimed ms cs"
      using p by (auto simp: token_at_Some)
    with IH [of claimed cs] Cons.prems(2) True show ?thesis unfolding leads by simp
  next
    case False
    define next_cs where "next_cs = (if \<exists>f. participant s ts all (cm_start m) f
      then insort_insert (found_claim b KActor (piece ts (THE f. participant s ts all (cm_start m) f) (cm_start m - 1))) cs
      else cs)"
    have set_next: "set next_cs = set cs \<union> actor_claims s ts all b m"
    proof (cases "\<exists>f. participant s ts all (cm_start m) f")
      case True
      then obtain f where f: "participant s ts all (cm_start m) f" by blast
      then have only: "participant s ts all (cm_start m) g \<longleftrightarrow> g = f" for g using participant_unique by blast
      show ?thesis unfolding next_cs_def actor_claims_def only by (simp add: set_insort_insert)
    qed (auto simp: next_cs_def actor_claims_def)
    have run: "actor_loop s ts (statement_starts ts) (map cm_start all) b claimed (m # ms) cs =
        actor_loop s ts (statement_starts ts) (map cm_start all) b (?st # claimed) ms next_cs"
    proof (cases "\<exists>f. participant s ts all (cm_start m) f")
      case True
      then obtain f where f: "participant s ts all (cm_start m) f" by blast
      then have the: "(THE f. participant s ts all (cm_start m) f) = f" using participant_unique by blast
      have "f \<le> cm_start m - 1" "cm_start m - 1 < length ts" using f p by (auto simp: participant_def)
      from insert_piece [OF assms(1) this, of cs KActor b] True False p show ?thesis
        by (simp add: token_at_Some Let_def participant_tokens_spec [OF assms(2) p] next_cs_def the)
    next
      case none: False
      with False p show ?thesis
        by (simp add: token_at_Some Let_def participant_tokens_spec [OF assms(2) p] next_cs_def)
    qed
    obtain ds where ds: "actor_loop s ts (statement_starts ts) (map cm_start all) b (?st # claimed) ms next_cs = Some ds"
      "set ds = set next_cs \<union> (\<Union>x\<in>{x. leads ts (insert ?st (set claimed)) ms x}. actor_claims s ts all b x)"
      using IH [of "?st # claimed" next_cs] Cons.prems(2) by auto
    have "leads ts (set claimed) (m # ms) x \<longleftrightarrow> x = m \<or> leads ts (insert ?st (set claimed)) ms x" for x
      unfolding leads using False by simp
    then have firsts: "{x. leads ts (set claimed) (m # ms) x} = insert m {x. leads ts (insert ?st (set claimed)) ms x}" by blast
    from ds run show ?thesis unfolding set_next firsts by (intro exI [of _ ds]) (simp add: Un_assoc del: actor_loop.simps)
  qed
qed

lemma evidence_in_block_backed: "evidence_in_block s sp \<longleftrightarrow> backed s sp"
proof
  assume b: "backed s sp"
  then obtain w where w: "str_get s (span_start sp) (span_end sp) = Some w" by (auto simp: backed_def)
  from str_get_Some [OF w] w backed_nonempty [OF b] show "evidence_in_block s sp"
    by (auto simp: evidence_in_block_def str_get_def split: if_splits)
qed (auto simp: evidence_in_block_def backed_def str_get_def)

lemma self_loop_set:
  "set (self_loop s b refs cs) = set cs \<union> {found_claim b KActor (tr_span r) | r. r \<in> set refs \<and> backed s (tr_span r)}"
proof (induction refs arbitrary: cs)
  case (Cons r refs)
  show ?case
  proof (cases "backed s (tr_span r)")
    case True
    then have "self_loop s b (r # refs) cs = self_loop s b refs (insert_claim (scope_claim KActor b (tr_span r)) cs)"
      by (simp add: self_loop_def evidence_in_block_backed)
    with Cons.IH True show ?thesis by (auto simp: insert_claim_set scope_claim_backed found_claim_def)
  next
    case False
    then have "self_loop s b (r # refs) cs = self_loop s b refs cs" by (simp add: self_loop_def evidence_in_block_backed)
    with Cons.IH False show ?thesis by auto
  qed
qed (simp add: self_loop_def)

text \<open>
  A polarity cue takes a negation particle of its statement with it when one stands next to it behind white space
  alone, before it or else after it, and is not itself the start of a cue.
\<close>

definition negation_at :: "unicode \<Rightarrow> string \<Rightarrow> token list \<Rightarrow> cue_match list \<Rightarrow> nat \<Rightarrow> nat \<Rightarrow> bool" where
  "negation_at u s ts ms st i =
     (i < length ts \<and> tk_statement (ts ! i) = st \<and> spells u s (ts ! i) NEGATION_PARTICLE \<and>
      \<not> opens_cue ms i)"

definition widened :: "unicode \<Rightarrow> string \<Rightarrow> token list \<Rightarrow> cue_match list \<Rightarrow> cue_match \<Rightarrow> nat \<times> nat" where
  "widened u s ts ms m =
     (let a = cm_start m; e = cm_end m; st = tk_statement (ts ! a) in
      if cm_kind m = KPolarity \<and> 0 < a \<and> negation_at u s ts ms st (a - 1) \<and>
         blank s (tk_end (ts ! (a - 1))) (tk_start (ts ! a)) then (a - 1, e)
      else if cm_kind m = KPolarity \<and> negation_at u s ts ms st (e + 1) \<and>
         blank s (tk_end (ts ! e)) (tk_start (ts ! (e + 1))) then (a, e + 1)
      else (a, e))"

lemma is_particle_spec:
  "readable s ts \<Longrightarrow> is_particle u s ts st i = Some (i < length ts \<and> tk_statement (ts ! i) = st \<and>
     spells u s (ts ! i) NEGATION_PARTICLE)"
  using token_matches_total [of s ts "ts ! i" u NEGATION_PARTICLE] by (auto simp: is_particle_def token_at_def token_matches_spells [symmetric])

lemma negated_range_spec:
  assumes "readable s ts" "cm_start m \<le> cm_end m" "cm_end m < length ts"
  shows "negated_range u s ts m (map cm_start ms) = Some (widened u s ts ms m)"
proof -
  let ?a = "cm_start m" and ?e = "cm_end m" and ?st = "tk_statement (ts ! cm_start m)"
  have a: "?a < length ts" "?a - 1 < length ts" using assms(2,3) by simp_all
  have left: "left_particle u s ts m (map cm_start ms) ?st =
      Some (0 < ?a \<and> negation_at u s ts ms ?st (?a - 1) \<and> blank s (tk_end (ts ! (?a - 1))) (tk_start (ts ! ?a)))"
    using a by (auto simp: left_particle_def Let_def gap_between_def token_at_Some is_particle_spec [OF assms(1)]
      negation_at_def opens_cue_iff gap_tests)
  have right: "right_particle u s ts m (map cm_start ms) ?st =
      Some (negation_at u s ts ms ?st (?e + 1) \<and> blank s (tk_end (ts ! ?e)) (tk_start (ts ! (?e + 1))))"
    using assms(3) by (auto simp: right_particle_def Let_def gap_between_def token_at_Some is_particle_spec [OF assms(1)]
      negation_at_def opens_cue_iff gap_tests)
  show ?thesis unfolding negated_range_def widened_def Let_def using a(1) by (simp add: token_at_Some left right)
qed

lemma cue_claims_loop_set:
  assumes "readable s ts"
  shows "\<forall>m\<in>set ms. cm_start m \<le> cm_end m \<and> cm_end m < length ts \<Longrightarrow>
    \<exists>ds. cue_claims_loop u s ts (map cm_start all) b ms cs = Some ds \<and>
      set ds = set cs \<union> (\<lambda>m. case widened u s ts all m of (x, y) \<Rightarrow> found_claim b (cm_kind m) (piece ts x y)) ` set ms"
proof (induction ms arbitrary: cs)
  case (Cons m ms)
  then have m: "cm_start m \<le> cm_end m" "cm_end m < length ts" by simp_all
  obtain x y where xy: "widened u s ts all m = (x, y)" by (cases "widened u s ts all m")
  with negated_range_spec [OF assms m] have run: "negated_range u s ts m (map cm_start all) = Some (x, y)" by simp
  with negated_range_total [OF assms m, of u "map cm_start all"] m have "x \<le> y" "y < length ts" by auto
  from insert_piece [OF assms this] run have "cue_claims_loop u s ts (map cm_start all) b (m # ms) cs =
      cue_claims_loop u s ts (map cm_start all) b ms (insort_insert (found_claim b (cm_kind m) (piece ts x y)) cs)"
    by simp
  moreover obtain ds where "cue_claims_loop u s ts (map cm_start all) b ms
        (insort_insert (found_claim b (cm_kind m) (piece ts x y)) cs) = Some ds"
      "set ds = insert (found_claim b (cm_kind m) (piece ts x y)) (set cs) \<union>
        (\<lambda>m. case widened u s ts all m of (x, y) \<Rightarrow> found_claim b (cm_kind m) (piece ts x y)) ` set ms"
    using Cons.IH [of "insort_insert (found_claim b (cm_kind m) (piece ts x y)) cs"] Cons.prems by (auto simp: set_insort_insert)
  ultimately show ?case using xy by (intro exI [of _ ds]) simp
qed simp

text \<open>
  All the claims of a block: the participant before the leading polarity cue of each statement when the block carries
  an act frame, every self-reference that was given and cuts a piece out of the text, and every cue with its particle.
\<close>

definition found_claims :: "unicode \<Rightarrow> source_block \<Rightarrow> overlay \<Rightarrow> this_ref list \<Rightarrow> token list \<Rightarrow> cue_match list \<Rightarrow>
    semantic_claim set" where
  "found_claims u block ov refs ts ms =
     (if \<exists>f\<in>set (ov_frames ov). fr_block f = sb_id block
      then \<Union>m\<in>{m. leads ts {} ms m}. actor_claims (sb_text block) ts ms (sb_id block) m else {}) \<union>
     {found_claim (sb_id block) KActor (tr_span r) | r. r \<in> set refs \<and> backed (sb_text block) (tr_span r)} \<union>
     (\<lambda>m. case widened u (sb_text block) ts ms m of (x, y) \<Rightarrow> found_claim (sb_id block) (cm_kind m) (piece ts x y)) ` set ms"

lemma extraction_facts:
  fixes u block ov refs n
  defines "s \<equiv> sb_text block"
  shows "\<exists>ts ms ds. extract_semantic_claims u block ov refs n = Some (limit_claims n ds) \<and> tokenize u s = Some ts \<and>
    cue_matches u s ts = Some ms \<and> sorted_wrt (<) ds \<and>
    (\<forall>c\<in>set ds. claim_ok s (sb_id block) (may_claim block ov refs) c) \<and> (\<forall>m\<in>set ms. covered ts ds m) \<and>
    set ds = found_claims u block ov refs ts ms"
proof -
  let ?b = "sb_id block" and ?frame = "\<exists>f\<in>set (ov_frames ov). fr_block f = sb_id block"
  let ?P = "may_claim block ov refs"
  obtain ts where ts: "tokenize u s = Some ts" using tokens_exact by blast
  note readable = tokenize_readable [OF ts] and order = tokenize_in_order [OF ts]
  obtain ms where ms: "cue_matches u s ts = Some ms" and sorted: "sorted_wrt (\<lambda>a b. cm_start a < cm_start b) ms"
    and mem: "\<And>m. m \<in> set ms \<Longrightarrow> cm_start m < length ts \<and> best_of u s ts (cm_start m) CUES (cm_kind m) (cm_end m)"
    using cue_matches_facts [OF ts] by blast
  have range: "cm_start m \<le> cm_end m \<and> cm_end m < length ts \<and> cm_kind m \<notin> {KActor, KAction, KObject}" if "m \<in> set ms" for m
  proof -
    from best_of_occurs mem [OF that] obtain ws where "(cm_kind m, ws) \<in> set CUES" by blast
    then have "cm_kind m \<notin> {KActor, KAction, KObject}" by (auto simp: CUES_def)
    with best_of_range mem [OF that] show ?thesis by blast
  qed
  let ?cues = "map cm_start ms"
  define first where "first = (if list_ex (\<lambda>f. fr_block f = ?b) (ov_frames ov)
    then actor_loop s ts (statement_starts ts) ?cues ?b [] ms [] else Some [])"
  have "\<exists>acts. first = Some acts \<and> sorted_wrt (<) acts \<and> (\<forall>c\<in>set acts. claim_ok s ?b ?P c)"
  proof (cases ?frame)
    case True
    then have "?P KActor sp" for sp by (simp add: may_claim_def)
    moreover have "\<forall>m\<in>set ms. cm_start m < length ts" using mem by blast
    ultimately have "\<exists>acts. actor_loop s ts (statement_starts ts) ?cues ?b [] ms [] = Some acts \<and> sorted_wrt (<) acts \<and>
        (\<forall>c\<in>set acts. claim_ok s ?b ?P c)"
      by (intro actor_loop_ok [OF readable]) simp_all
    with True show ?thesis by (auto simp: first_def list_ex_iff)
  next
    case False
    then show ?thesis by (auto simp: first_def list_ex_iff)
  qed
  then obtain acts where acts: "first = Some acts" "sorted_wrt (<) acts" "\<forall>c\<in>set acts. claim_ok s ?b ?P c" by blast
  have "?P KActor (tr_span r)" if "r \<in> set refs" for r using that by (auto simp: may_claim_def)
  from self_loop_ok [of refs ?P acts s ?b, OF this acts(2,3)]
  have selfs: "sorted_wrt (<) (self_loop s ?b refs acts)" "\<forall>c\<in>set (self_loop s ?b refs acts). claim_ok s ?b ?P c" by blast+
  have "\<exists>ds. cue_claims_loop u s ts ?cues ?b ms (self_loop s ?b refs acts) = Some ds \<and> sorted_wrt (<) ds \<and>
      (\<forall>c\<in>set ds. claim_ok s ?b ?P c) \<and> set (self_loop s ?b refs acts) \<subseteq> set ds \<and>
      (\<forall>m\<in>set ms. \<exists>c\<in>set ds. sc_kind c = cm_kind m \<and>
         span_start (sc_span c) \<le> tk_start (ts ! cm_start m) \<and> tk_end (ts ! cm_end m) \<le> span_end (sc_span c))"
    by (rule cue_claims_loop_ok [OF readable _ _ selfs]) (use range in \<open>auto simp: may_claim_def\<close>)
  then obtain ds where ds: "cue_claims_loop u s ts ?cues ?b ms (self_loop s ?b refs acts) = Some ds" "sorted_wrt (<) ds"
    "\<forall>c\<in>set ds. claim_ok s ?b ?P c" "\<forall>m\<in>set ms. \<exists>c\<in>set ds. sc_kind c = cm_kind m \<and>
         span_start (sc_span c) \<le> tk_start (ts ! cm_start m) \<and> tk_end (ts ! cm_end m) \<le> span_end (sc_span c)" by blast
  have result: "extract_semantic_claims u block ov refs n = Some (limit_claims n ds)"
    unfolding extract_semantic_claims_def Let_def s_def [symmetric]
    by (simp add: ts ms ds(1) acts(1) [unfolded first_def] del: if_split)
  have starts: "\<forall>m\<in>set ms. cm_start m < length ts" using mem by blast
  have "set acts = (if ?frame then \<Union>m\<in>{m. leads ts {} ms m}. actor_claims s ts ms ?b m else {})"
    using acts(1) actor_loop_set [OF readable order sorted starts, of ms ?b "[]" "[]"]
    by (auto simp: first_def list_ex_iff split: if_splits)
  moreover have "set ds = set (self_loop s ?b refs acts) \<union>
      (\<lambda>m. case widened u s ts ms m of (x, y) \<Rightarrow> found_claim ?b (cm_kind m) (piece ts x y)) ` set ms"
    using ds(1) cue_claims_loop_set [OF readable, of ms u ms ?b "self_loop s ?b refs acts"] range by fastforce
  ultimately have "set ds = found_claims u block ov refs ts ms"
    by (simp add: found_claims_def self_loop_set s_def)
  moreover have "\<forall>m\<in>set ms. covered ts ds m" using ds(4) by (simp add: covered_def)
  ultimately show ?thesis using result ts ms ds(2,3) by blast
qed


section \<open>What a projection keeps\<close>

lemma of_kind_mset: "mset cs = mset ds \<Longrightarrow> mset (of_kind k cs) = mset (of_kind k ds)"
  by (simp only: of_kind_def mset_filter)

lemma length_of_kind_sort [simp]: "length (of_kind k (sort cs)) = length (of_kind k cs)"
  by (rule mset_eq_length, rule of_kind_mset) simp

lemma all_kinds_mset:
  "mset cs = mset (of_kind KActor cs) + mset (of_kind KAction cs) + mset (of_kind KObject cs) + mset (of_kind KPolarity cs) +
     mset (of_kind KCondition cs) + mset (of_kind KException cs) + mset (of_kind KTemporalQualifier cs)"
proof (induction cs)
  case (Cons c cs)
  then show ?case by (cases "sc_kind c") (simp_all add: of_kind_def)
qed (simp add: of_kind_def)

lemma single_list: "length xs = 1 \<longleftrightarrow> (\<exists>x. xs = [x])"
  by (cases xs) auto

lemma single_nonempty: "length xs = 1 \<longleftrightarrow> xs \<noteq> [] \<and> \<not> length xs > 1"
  by (cases xs) auto

lemma project_norm_rule_cases:
  "project_norm_rule cs t =
     (let claims = sort cs; slot = (\<lambda>x. of_kind (slot_kind x) claims) in
      if t = TResolved \<and> (\<forall>x. length (slot x) = 1)
      then Some (PComplete
        \<lparr>nc_candidate_id = claim_id_for claims, nc_actor = hd (slot SlotActor), nc_action = hd (slot SlotAction),
         nc_object = hd (slot SlotObject), nc_polarity = hd (slot SlotPolarity),
         nc_conditions = of_kind KCondition claims, nc_exceptions = of_kind KException claims,
         nc_temporal_qualifier = of_kind KTemporalQualifier claims, nc_anchors = concat (map sc_evidence claims)\<rparr>)
      else Some (PAbstained
        \<lparr>ab_reasons = (if t \<noteq> TResolved then [AbstainTerminal t]
           else map missing_reason (filter (\<lambda>x. slot x = []) all_slots) @
             (if \<exists>x. length (slot x) > 1 then [ConflictingSlots] else [])),
         ab_missing = (if t \<noteq> TResolved then [] else filter (\<lambda>x. slot x = []) all_slots), ab_claims = claims,
         ab_anchors = concat (map sc_evidence claims)\<rparr>))"
proof -
  define slot where "slot x = of_kind (slot_kind x) (sort cs)" for x
  have slots: "set all_slots = UNIV" using candidate_slot.exhaust by (auto simp: all_slots_def)
  have many: "list_ex (\<lambda>x. length (slot x) > 1) all_slots \<longleftrightarrow> (\<exists>x. length (slot x) > 1)"
    by (simp add: list_ex_iff slots)
  have none: "filter (\<lambda>x. slot x = []) all_slots = [] \<longleftrightarrow> (\<forall>x. slot x \<noteq> [])"
    by (simp add: filter_empty_conv slots)
  have one: "(\<forall>x. length (slot x) = 1) \<longleftrightarrow> (\<forall>x. slot x \<noteq> []) \<and> \<not> (\<exists>x. length (slot x) > 1)"
    unfolding single_nonempty by blast
  show ?thesis
  proof (cases "t = TResolved \<and> (\<forall>x. length (slot x) = 1)")
    case True
    then obtain f where f: "slot x = [f x]" for x unfolding single_list by metis
    with True none many one show ?thesis
      unfolding project_norm_rule_def Let_def slot_def [symmetric] by simp
  next
    case False
    then consider "t \<noteq> TResolved" | "t = TResolved" "filter (\<lambda>x. slot x = []) all_slots \<noteq> [] \<or> (\<exists>x. length (slot x) > 1)"
      using none one by blast
    then show ?thesis
    proof cases
      case 1
      then show ?thesis unfolding project_norm_rule_def Let_def by simp
    next
      case 2
      with False show ?thesis
        unfolding project_norm_rule_def Let_def slot_def [symmetric] many by auto
    qed
  qed
qed

text \<open>C21. 
  A projection never panics, does not depend on the order of the claims, and is complete exactly when the context was
  resolved and there is exactly one actor, one action, one object and one polarity. A complete candidate holds all the
  claims, each in the place of its kind and none twice: no condition or exception is dropped. Otherwise the abstention
  holds all the claims and gives a reason.
\<close>

theorem projection_conserves_claims:
  assumes "mset cs = mset ds"
  shows "\<exists>r. project_norm_rule cs t = Some r \<and> project_norm_rule ds t = Some r \<and>
    ((\<exists>nc. r = PComplete nc) \<longleftrightarrow> t = TResolved \<and> (\<forall>x. length (of_kind (slot_kind x) cs) = 1)) \<and>
    (\<forall>nc. r = PComplete nc \<longrightarrow>
       mset (nc_actor nc # nc_action nc # nc_object nc # nc_polarity nc # nc_conditions nc @ nc_exceptions nc @
         nc_temporal_qualifier nc) = mset cs \<and>
       sc_kind (nc_actor nc) = KActor \<and> sc_kind (nc_action nc) = KAction \<and> sc_kind (nc_object nc) = KObject \<and>
       sc_kind (nc_polarity nc) = KPolarity \<and> (\<forall>c\<in>set (nc_conditions nc). sc_kind c = KCondition) \<and>
       (\<forall>c\<in>set (nc_exceptions nc). sc_kind c = KException) \<and>
       (\<forall>c\<in>set (nc_temporal_qualifier nc). sc_kind c = KTemporalQualifier)) \<and>
    (\<forall>a. r = PAbstained a \<longrightarrow> ab_reasons a \<noteq> [] \<and> mset (ab_claims a) = mset cs)"
proof -
  have sort: "sort ds = sort cs" using assms by (metis properties_for_sort mset_sort sorted_sort)
  have same: "project_norm_rule ds t = project_norm_rule cs t" by (simp only: project_norm_rule_cases sort)
  define slot where "slot x = of_kind (slot_kind x) (sort cs)" for x
  have slots: "set all_slots = UNIV" using candidate_slot.exhaust by (auto simp: all_slots_def)
  show ?thesis
  proof (cases "t = TResolved \<and> (\<forall>x. length (slot x) = 1)")
    case True
    then obtain f where f: "\<And>x. slot x = [f x]" unfolding single_list by metis
    have kind: "sc_kind (f x) = slot_kind x" for x
    proof -
      have "f x \<in> set (of_kind (slot_kind x) (sort cs))" using f [of x] by (simp add: slot_def)
      then show ?thesis by (simp add: of_kind_def)
    qed
    have "mset cs = mset (sort cs)" by simp
    also note all_kinds_mset [of "sort cs"]
    finally have all: "mset cs = mset [f SlotActor] + mset [f SlotAction] + mset [f SlotObject] + mset [f SlotPolarity] +
        mset (of_kind KCondition (sort cs)) + mset (of_kind KException (sort cs)) +
        mset (of_kind KTemporalQualifier (sort cs))"
      using f [of SlotActor] f [of SlotAction] f [of SlotObject] f [of SlotPolarity] by (simp add: slot_def)
    have len: "\<forall>x. length (of_kind (slot_kind x) cs) = 1" using True by (simp add: slot_def)
    show ?thesis
      unfolding same unfolding project_norm_rule_cases [of cs] Let_def slot_def [symmetric] if_P [OF True]
      using True len all kind [of SlotActor] kind [of SlotAction] kind [of SlotObject] kind [of SlotPolarity]
      by (simp add: f) (auto simp: of_kind_def)
  next
    case False
    have "map missing_reason (filter (\<lambda>x. slot x = []) all_slots) @ (if \<exists>x. length (slot x) > 1 then [ConflictingSlots] else [])
        \<noteq> []" if "t = TResolved"
    proof -
      from False that obtain x where "length (slot x) \<noteq> 1" by auto
      then have "slot x = [] \<or> length (slot x) > 1" by (cases "slot x") auto
      then show ?thesis using slots by (auto simp: filter_empty_conv)
    qed
    moreover have "\<not> (t = TResolved \<and> (\<forall>x. length (of_kind (slot_kind x) cs) = 1))" using False by (simp add: slot_def)
    ultimately show ?thesis
      unfolding same unfolding project_norm_rule_cases [of cs] Let_def slot_def [symmetric] if_not_P [OF False] by auto
  qed
qed

text \<open>
  The extraction alone never completes a rule: it claims no action and no object, so the projection of its claims
  abstains in every context, and names the missing slots when the context is resolved.
\<close>

theorem extraction_alone_abstains:
  assumes "extract_semantic_claims u block ov refs n = Some out"
  shows "\<exists>a. project_norm_rule (eo_claims out) t = Some (PAbstained a) \<and>
    (t = TResolved \<longrightarrow> MissingAction \<in> set (ab_reasons a) \<and> MissingObject \<in> set (ab_reasons a))"
proof -
  obtain ds where ds: "out = limit_claims n ds" "\<forall>c\<in>set ds. claim_ok (sb_text block) (sb_id block) (may_claim block ov refs) c"
    using extraction_facts [of u block ov refs n] assms by auto
  have "set (eo_claims out) \<subseteq> set ds" using set_take_subset [of n ds] by (auto simp: ds(1) limit_claims_def Let_def)
  with ds(2) have "\<forall>c\<in>set (eo_claims out). sc_kind c \<notin> {KAction, KObject}"
    unfolding claim_ok_def may_claim_def by blast
  then have empty: "of_kind KAction (sort (eo_claims out)) = []" "of_kind KObject (sort (eo_claims out)) = []"
    by (auto simp: of_kind_def filter_empty_conv)
  from empty have "length (of_kind (slot_kind SlotAction) (sort (eo_claims out))) \<noteq> 1" by simp
  then have none: "\<not> (t = TResolved \<and> (\<forall>x. length (of_kind (slot_kind x) (sort (eo_claims out))) = 1))" by blast
  from empty have missing: "SlotAction \<in> set (filter (\<lambda>x. of_kind (slot_kind x) (sort (eo_claims out)) = []) all_slots)"
      "SlotObject \<in> set (filter (\<lambda>x. of_kind (slot_kind x) (sort (eo_claims out)) = []) all_slots)"
    by (simp_all add: all_slots_def)
  then have "missing_reason SlotAction \<in> missing_reason ` set (filter (\<lambda>x. of_kind (slot_kind x) (sort (eo_claims out)) = []) all_slots)"
    "missing_reason SlotObject \<in> missing_reason ` set (filter (\<lambda>x. of_kind (slot_kind x) (sort (eo_claims out)) = []) all_slots)"
    by blast+
  then show ?thesis
    unfolding project_norm_rule_cases Let_def if_not_P [OF none] by (simp del: set_filter)
qed

section \<open>Witnesses\<close>

text \<open>ASCII letters and digits stand for the tables of Unicode.\<close>

definition ascii_unicode :: unicode where
  "ascii_unicode =
     \<lparr>uni_alphanumeric = (\<lambda>c. case c of [b] \<Rightarrow> byte_in 48 57 b \<or> byte_in 65 90 b \<or> byte_in 97 122 b | _ \<Rightarrow> False),
      uni_lower = (\<lambda>c. case c of [b] \<Rightarrow> if byte_in 65 90 b then [char_of (of_char b + 32 :: nat)] else [b] | _ \<Rightarrow> c)\<rparr>"

definition sample_norm :: source_block where
  "sample_norm = \<lparr>sb_id = 0, sb_order = 0, sb_text = ''A must b''\<rparr>"

definition sample_found :: "semantic_claim list" where
  "sample_found =
     [SemanticClaim KActor 0 (TextSpan 0 1) [TextSpan 0 1], SemanticClaim KPolarity 0 (TextSpan 2 6) [TextSpan 2 6]]"


lemma extraction_alone_abstains_witness:
  "\<exists>out a. extract_semantic_claims ascii_unicode sample_norm sample_overlay [] 8 = Some out \<and>
     project_norm_rule (eo_claims out) TResolved = Some (PAbstained a) \<and> MissingAction \<in> set (ab_reasons a)"
proof -
  obtain out where "extract_semantic_claims ascii_unicode sample_norm sample_overlay [] 8 = Some out"
    using extraction_facts by blast
  with extraction_alone_abstains [OF this, of TResolved] show ?thesis by blast
qed

definition sample_rule_claims :: "semantic_claim list" where
  "sample_rule_claims = sample_found @
     [SemanticClaim KAction 0 (TextSpan 7 8) [TextSpan 7 8], SemanticClaim KObject 0 (TextSpan 7 8) [TextSpan 7 8],
      SemanticClaim KCondition 0 (TextSpan 7 8) [TextSpan 7 8]]"

lemma projection_conserves_claims_witness:
  "\<exists>nc. project_norm_rule (rev sample_rule_claims) TResolved = Some (PComplete nc) \<and>
     mset (nc_conditions nc) \<subseteq># mset sample_rule_claims"
proof -
  have "mset sample_rule_claims = mset (rev sample_rule_claims)" by simp
  from projection_conserves_claims [OF this, of TResolved] obtain r where r: "project_norm_rule (rev sample_rule_claims) TResolved = Some r"
    "(\<exists>nc. r = PComplete nc) \<longleftrightarrow> TResolved = TResolved \<and> (\<forall>x. length (of_kind (slot_kind x) sample_rule_claims) = 1)"
    "\<forall>nc. r = PComplete nc \<longrightarrow>
       mset (nc_actor nc # nc_action nc # nc_object nc # nc_polarity nc # nc_conditions nc @ nc_exceptions nc @
         nc_temporal_qualifier nc) = mset sample_rule_claims" by blast
  have "length (of_kind (slot_kind x) sample_rule_claims) = 1" for x
    by (cases x) (simp_all add: of_kind_def sample_rule_claims_def sample_found_def)
  with r(2) obtain nc where nc: "r = PComplete nc" by blast
  with r(3) have "mset sample_rule_claims = mset (nc_actor nc # nc_action nc # nc_object nc # nc_polarity nc #
      nc_exceptions nc @ nc_temporal_qualifier nc) + mset (nc_conditions nc)" by (simp add: ac_simps)
  then have "mset (nc_conditions nc) \<subseteq># mset sample_rule_claims" by simp
  with r(1) nc show ?thesis by blast
qed

end
