(* ===== verification/LN_Annotation.thy ===== *)
theory LN_Annotation
  imports LN_Scope
begin

text \<open>
  The double-coded annotation contract, \<open>crates/ln-temporal/src/semantic_annotation.rs\<close>: annotation records, their
  validation alone and in pairs, the agreement of two coders kind by kind, and the rendering of a record as JSON. A
  \<open>BTreeMap\<close> is an association list with distinct keys, a \<open>BTreeSet\<close> a list without repetitions.
\<close>

section \<open>Records\<close>

definition SEMANTIC_ANNOTATION_SCHEMA_VERSION :: string where
  "SEMANTIC_ANNOTATION_SCHEMA_VERSION = ''law-nexus-semantic-annotation/v1''"

fun kind_name :: "claim_kind \<Rightarrow> string" where
  "kind_name KActor = ''Actor''"
| "kind_name KAction = ''Action''"
| "kind_name KObject = ''Object''"
| "kind_name KPolarity = ''Polarity''"
| "kind_name KCondition = ''Condition''"
| "kind_name KException = ''Exception''"
| "kind_name KTemporalQualifier = ''TemporalQualifier''"

fun slot_name :: "candidate_slot \<Rightarrow> string" where
  "slot_name SlotActor = ''Actor''"
| "slot_name SlotAction = ''Action''"
| "slot_name SlotObject = ''Object''"
| "slot_name SlotPolarity = ''Polarity''"

definition known_kind :: "string \<Rightarrow> bool" where
  "known_kind value =
     (value \<in> set [''Actor'', ''Action'', ''Object'', ''Polarity'', ''Condition'', ''Exception'', ''TemporalQualifier''])"

definition known_slot :: "string \<Rightarrow> bool" where
  "known_slot value = (value \<in> set [''Actor'', ''Action'', ''Object'', ''Polarity''])"

record annotation_claim =
  an_kind :: string
  an_claim_block :: block_id
  an_claim_span :: text_span
  an_label :: string

definition annotation_claim_new :: "claim_kind \<Rightarrow> block_id \<Rightarrow> text_span \<Rightarrow> string \<Rightarrow> annotation_claim" where
  "annotation_claim_new kind block span label =
     \<lparr>an_kind = kind_name kind, an_claim_block = block, an_claim_span = span, an_label = label\<rparr>"

record slot_verdict =
  sv_candidate_ref :: string
  sv_slot :: string
  sv_label :: string

definition slot_verdict_new :: "string \<Rightarrow> candidate_slot \<Rightarrow> string \<Rightarrow> slot_verdict" where
  "slot_verdict_new candidate_ref slot label =
     \<lparr>sv_candidate_ref = candidate_ref, sv_slot = slot_name slot, sv_label = label\<rparr>"

record annotation_record =
  ar_schema_version :: string
  ar_document_version :: string
  ar_coder_id :: string
  ar_claims :: "annotation_claim list"
  ar_verdicts :: "slot_verdict list"

definition annotation_record_new :: "string \<Rightarrow> string \<Rightarrow> annotation_claim list \<Rightarrow> slot_verdict list \<Rightarrow>
    annotation_record" where
  "annotation_record_new document_version coder_id claims verdicts =
     \<lparr>ar_schema_version = SEMANTIC_ANNOTATION_SCHEMA_VERSION, ar_document_version = document_version,
      ar_coder_id = coder_id, ar_claims = claims, ar_verdicts = verdicts\<rparr>"

section \<open>Validation\<close>

datatype annotation_error = SchemaVersionMismatch | EmptyDocumentVersion | EmptyCoderId | DuplicateCoderId
  | UnknownClaimKind | AnnEmptyClaimSpan | EmptyClaimLabel | EmptyCandidateReference | UnknownCandidateSlot
  | EmptyVerdictLabel | DuplicateClaimAnchor

text \<open>The two loops of \<open>validate\<close>; the set of the first holds whole claims, with their labels.\<close>

fun validate_claims :: "annotation_claim list \<Rightarrow> annotation_claim list \<Rightarrow> annotation_error + unit" where
  "validate_claims anchors [] = Inr ()"
| "validate_claims anchors (c # cs) =
     (if \<not> known_kind (an_kind c) then Inl UnknownClaimKind
      else if span_start (an_claim_span c) \<ge> span_end (an_claim_span c) then Inl AnnEmptyClaimSpan
      else if str_trim (an_label c) = [] then Inl EmptyClaimLabel
      else if c \<in> set anchors then Inl DuplicateClaimAnchor
      else validate_claims (c # anchors) cs)"

fun validate_verdicts :: "slot_verdict list \<Rightarrow> annotation_error + unit" where
  "validate_verdicts [] = Inr ()"
| "validate_verdicts (v # vs) =
     (if str_trim (sv_candidate_ref v) = [] then Inl EmptyCandidateReference
      else if \<not> known_slot (sv_slot v) then Inl UnknownCandidateSlot
      else if str_trim (sv_label v) = [] then Inl EmptyVerdictLabel
      else validate_verdicts vs)"

definition annotation_validate :: "annotation_record \<Rightarrow> annotation_error + unit" where
  "annotation_validate r =
     (if ar_schema_version r \<noteq> SEMANTIC_ANNOTATION_SCHEMA_VERSION then Inl SchemaVersionMismatch
      else if str_trim (ar_document_version r) = [] then Inl EmptyDocumentVersion
      else if str_trim (ar_coder_id r) = [] then Inl EmptyCoderId
      else case validate_claims [] (ar_claims r) of
        Inl e \<Rightarrow> Inl e
      | Inr _ \<Rightarrow> validate_verdicts (ar_verdicts r))"

definition validate_pair :: "annotation_record \<Rightarrow> annotation_record \<Rightarrow> annotation_error + unit" where
  "validate_pair first second =
     (case annotation_validate first of
        Inl e \<Rightarrow> Inl e
      | Inr _ \<Rightarrow>
          (case annotation_validate second of
             Inl e \<Rightarrow> Inl e
           | Inr _ \<Rightarrow>
               if ar_coder_id first = ar_coder_id second then Inl DuplicateCoderId
               else if ar_document_version first \<noteq> ar_document_version second then Inl EmptyDocumentVersion
               else Inr ()))"

section \<open>Agreement\<close>

record kind_agreement =
  ka_total :: nat
  ka_agreed :: nat
  ka_disagreements :: nat

type_synonym claim_anchor = "string \<times> block_id \<times> text_span"

definition anchor_of :: "annotation_claim \<Rightarrow> claim_anchor" where
  "anchor_of c = (an_kind c, an_claim_block c, an_claim_span c)"

text \<open>The map of a coder's claims: the label of an anchor is the one inserted last.\<close>

definition label_map :: "annotation_claim list \<Rightarrow> (claim_anchor, string) hashmap" where
  "label_map cs = fold (\<lambda>c. hm_insert (anchor_of c) (an_label c)) cs []"

definition all_keys :: "(claim_anchor, string) hashmap \<Rightarrow> (claim_anchor, string) hashmap \<Rightarrow> claim_anchor list" where
  "all_keys left right = remdups (hm_keys left @ hm_keys right)"

definition no_agreement :: kind_agreement where
  "no_agreement = \<lparr>ka_total = 0, ka_agreed = 0, ka_disagreements = 0\<rparr>"

definition count_total :: "claim_anchor \<Rightarrow> (string, kind_agreement) hashmap \<Rightarrow> (string, kind_agreement) hashmap" where
  "count_total key m =
     (let entry = (case hm_get m (fst key) of None \<Rightarrow> no_agreement | Some e \<Rightarrow> e) in
      hm_insert (fst key) (entry\<lparr>ka_total := ka_total entry + 1\<rparr>) m)"

text \<open>\<open>get_mut(..).expect(..)\<close> panics when the kind has no entry.\<close>

definition count_agreed :: "(claim_anchor, string) hashmap \<Rightarrow> (claim_anchor, string) hashmap \<Rightarrow> claim_anchor \<Rightarrow>
    (string, kind_agreement) hashmap \<Rightarrow> (string, kind_agreement) hashmap option" where
  "count_agreed left right key m =
     (case hm_get m (fst key) of
        None \<Rightarrow> None
      | Some entry \<Rightarrow>
          Some (if hm_get left key = hm_get right key
            then hm_insert (fst key) (entry\<lparr>ka_agreed := ka_agreed entry + 1\<rparr>) m else m))"

fun count_all_agreed :: "(claim_anchor, string) hashmap \<Rightarrow> (claim_anchor, string) hashmap \<Rightarrow> claim_anchor list \<Rightarrow>
    (string, kind_agreement) hashmap \<Rightarrow> (string, kind_agreement) hashmap option" where
  "count_all_agreed left right [] m = Some m"
| "count_all_agreed left right (k # ks) m =
     Option.bind (count_agreed left right k m) (count_all_agreed left right ks)"

text \<open>\<open>total - agreed\<close> panics below zero.\<close>

definition with_disagreements :: "kind_agreement \<Rightarrow> kind_agreement option" where
  "with_disagreements e =
     (if ka_agreed e \<le> ka_total e then Some (e\<lparr>ka_disagreements := ka_total e - ka_agreed e\<rparr>) else None)"

definition agreement :: "annotation_record \<Rightarrow> annotation_record \<Rightarrow>
    (annotation_error + (string, kind_agreement) hashmap) option" where
  "agreement first second =
     (case validate_pair first second of
        Inl e \<Rightarrow> Some (Inl e)
      | Inr _ \<Rightarrow>
          let left = label_map (ar_claims first);
              right = label_map (ar_claims second);
              keys = all_keys left right
          in map_option Inr
            (Option.bind (count_all_agreed left right keys (fold count_total keys [])) (\<lambda>m.
               those (map (\<lambda>(k, e). map_option (\<lambda>e. (k, e)) (with_disagreements e)) m))))"

section \<open>Rendering\<close>

definition hex4 :: "nat \<Rightarrow> string" where
  "hex4 n = map (\<lambda>i. hex_char (n div 16 ^ (3 - i) mod 16)) [0..<4]"

text \<open>The code point of a control character, from its one or two bytes.\<close>

fun control_code :: "string \<Rightarrow> nat" where
  "control_code [a] = of_char a"
| "control_code [a, b] = (of_char a - 0xC0) * 64 + (of_char b - 0x80)"
| "control_code _ = 0"

definition json_char :: "string \<Rightarrow> string" where
  "json_char c =
     (if c = [CHR 0x5C] then [CHR 0x5C, CHR 0x5C]
      else if c = [CHR 0x22] then [CHR 0x5C, CHR 0x22]
      else if c = [CHR 0x0A] then CHR 0x5C # ''n''
      else if c = [CHR 0x0D] then CHR 0x5C # ''r''
      else if c = [CHR 0x09] then CHR 0x5C # ''t''
      else if is_control c then CHR 0x5C # ''u'' @ hex4 (control_code c)
      else c)"

definition json_string :: "string \<Rightarrow> string" where
  "json_string value = CHR 0x22 # concat (map json_char (str_chars value)) @ [CHR 0x22]"

definition json_name :: "string \<Rightarrow> string" where
  "json_name name = CHR 0x22 # name @ CHR 0x22 # '':''"

definition claim_sort_key :: "annotation_claim \<Rightarrow> string \<times> block_id \<times> text_span \<times> string" where
  "claim_sort_key c = (an_kind c, an_claim_block c, an_claim_span c, an_label c)"

definition verdict_sort_key :: "slot_verdict \<Rightarrow> string \<times> string \<times> string" where
  "verdict_sort_key v = (sv_candidate_ref v, sv_slot v, sv_label v)"

definition claim_json :: "annotation_claim \<Rightarrow> string" where
  "claim_json c =
     ''{'' @ json_name ''kind'' @ json_string (an_kind c) @ '','' @
     json_name ''block'' @ show_nat (an_claim_block c) @ '','' @
     json_name ''span'' @ ''{'' @ json_name ''start'' @ show_nat (span_start (an_claim_span c)) @ '','' @
     json_name ''end'' @ show_nat (span_end (an_claim_span c)) @ ''},'' @
     json_name ''label'' @ json_string (an_label c) @ ''}''"

definition verdict_json :: "slot_verdict \<Rightarrow> string" where
  "verdict_json v =
     ''{'' @ json_name ''candidate_ref'' @ json_string (sv_candidate_ref v) @ '','' @
     json_name ''slot'' @ json_string (sv_slot v) @ '','' @
     json_name ''label'' @ json_string (sv_label v) @ ''}''"

definition render_json :: "annotation_record \<Rightarrow> string" where
  "render_json r =
     ''{'' @ json_name ''schema_version'' @ json_string (ar_schema_version r) @ '','' @
     json_name ''document_version'' @ json_string (ar_document_version r) @ '','' @
     json_name ''coder_id'' @ json_string (ar_coder_id r) @ '','' @
     json_name ''claims'' @ ''['' @ str_join '','' (map claim_json (sort_key claim_sort_key (ar_claims r))) @ ''],'' @
     json_name ''candidate_slot_verdicts'' @ ''['' @
     str_join '','' (map verdict_json (sort_key verdict_sort_key (ar_verdicts r))) @ '']}''"

section \<open>Agreement counts anchors\<close>

text \<open>The label that a coder's claims give to an anchor: that of the last claim on it.\<close>

definition last_label :: "annotation_claim list \<Rightarrow> claim_anchor \<Rightarrow> string option" where
  "last_label cs a =
     (let xs = filter (\<lambda>c. anchor_of c = a) cs in if xs = [] then None else Some (an_label (last xs)))"

lemma last_label_snoc: "last_label (cs @ [c]) a = (if anchor_of c = a then Some (an_label c) else last_label cs a)"
  by (simp add: last_label_def Let_def)

lemma label_map_snoc: "label_map (cs @ [c]) = hm_insert (anchor_of c) (an_label c) (label_map cs)"
  by (simp add: label_map_def)

lemma label_map_get: "hm_get (label_map cs) a = last_label cs a"
proof (induction cs rule: rev_induct)
  case Nil
  then show ?case by (simp add: label_map_def last_label_def)
next
  case (snoc c cs)
  then show ?case by (simp add: label_map_snoc last_label_snoc)
qed

lemma label_map_keys: "set (hm_keys (label_map cs)) = anchor_of ` set cs"
proof -
  have "a \<in> set (hm_keys (label_map cs)) \<longleftrightarrow> last_label cs a \<noteq> None" for a
    unfolding hm_contains_keys [symmetric] hm_contains_def label_map_get ..
  moreover have "last_label cs a \<noteq> None \<longleftrightarrow> a \<in> anchor_of ` set cs" for a
    by (auto simp: last_label_def filter_empty_conv Let_def)
  ultimately show ?thesis by blast
qed

lemma all_keys_set: "set (all_keys (label_map cs) (label_map ds)) = anchor_of ` (set cs \<union> set ds)"
  by (auto simp: all_keys_def label_map_keys)

definition entry_or_new :: "(string, kind_agreement) hashmap \<Rightarrow> string \<Rightarrow> kind_agreement" where
  "entry_or_new m k = (case hm_get m k of None \<Rightarrow> no_agreement | Some e \<Rightarrow> e)"

lemma count_total_fold:
  "hm_get (fold count_total ks m) k =
     (if \<exists>a\<in>set ks. fst a = k
      then Some (entry_or_new m k\<lparr>ka_total := ka_total (entry_or_new m k) + length (filter (\<lambda>a. fst a = k) ks)\<rparr>)
      else hm_get m k)"
proof (induction ks arbitrary: m)
  case Nil
  then show ?case by simp
next
  case (Cons a ks)
  then show ?case
    by (simp add: count_total_def entry_or_new_def Let_def split: option.splits)
qed

lemma count_total_wf: "hm_wf m \<Longrightarrow> hm_wf (fold count_total ks m)"
  by (induction ks arbitrary: m) (simp_all add: count_total_def Let_def)

lemma count_all_agreed_result:
  assumes "hm_wf m" "\<forall>a\<in>set ks. hm_contains m (fst a)"
  shows "\<exists>m'. count_all_agreed l r ks m = Some m' \<and> hm_wf m' \<and>
    (\<forall>k. hm_get m' k = map_option
      (\<lambda>e. e\<lparr>ka_agreed := ka_agreed e + length (filter (\<lambda>a. fst a = k \<and> hm_get l a = hm_get r a) ks)\<rparr>) (hm_get m k))"
  using assms
proof (induction ks arbitrary: m)
  case Nil
  then show ?case by (simp add: option.map_ident)
next
  case (Cons a ks)
  then obtain e where e: "hm_get m (fst a) = Some e" by (auto simp: hm_contains_iff)
  define n where "n = (if hm_get l a = hm_get r a then hm_insert (fst a) (e\<lparr>ka_agreed := ka_agreed e + 1\<rparr>) m else m)"
  have n: "count_agreed l r a m = Some n" by (simp add: count_agreed_def e n_def)
  have "hm_wf n" "\<forall>b\<in>set ks. hm_contains n (fst b)" using Cons.prems by (auto simp: n_def)
  from Cons.IH [OF this] obtain m' where m': "count_all_agreed l r ks n = Some m'" "hm_wf m'"
    "\<forall>k. hm_get m' k = map_option
      (\<lambda>e. e\<lparr>ka_agreed := ka_agreed e + length (filter (\<lambda>a. fst a = k \<and> hm_get l a = hm_get r a) ks)\<rparr>) (hm_get n k)"
    by blast
  then show ?case using e by (auto simp: n n_def)
qed

lemma with_disagreements_all:
  assumes "\<forall>(k, e)\<in>set m. ka_agreed e \<le> ka_total e"
  shows "those (map (\<lambda>(k, e). map_option (\<lambda>e. (k, e)) (with_disagreements e)) m) =
    Some (map (\<lambda>(k, e). (k, e\<lparr>ka_disagreements := ka_total e - ka_agreed e\<rparr>)) m)"
  using assms by (induction m) (auto simp: with_disagreements_def)

lemma hm_get_map: "hm_get (map (\<lambda>(k, e). (k, f e)) m) k = map_option f (hm_get m k)"
  by (induction m) (auto simp: hm_get_def)

lemma length_filter_card: "distinct xs \<Longrightarrow> length (filter P xs) = card {x \<in> set xs. P x}"
  by (metis distinct_card distinct_filter set_filter)

text \<open>The summary that the agreement of two records must give for a kind.\<close>

definition kind_summary :: "annotation_claim list \<Rightarrow> annotation_claim list \<Rightarrow> string \<Rightarrow> kind_agreement option" where
  "kind_summary cs ds k =
     (let A = {a \<in> anchor_of ` (set cs \<union> set ds). fst a = k}; B = {a \<in> A. last_label cs a = last_label ds a}
      in if A = {} then None else Some \<lparr>ka_total = card A, ka_agreed = card B, ka_disagreements = card (A - B)\<rparr>)"

lemma agreement_summary:
  assumes "validate_pair first second = Inr ()"
  shows "\<exists>m. agreement first second = Some (Inr m) \<and> hm_wf m \<and>
    (\<forall>k. hm_get m k = kind_summary (ar_claims first) (ar_claims second) k)"
proof -
  define l where "l = label_map (ar_claims first)"
  define r where "r = label_map (ar_claims second)"
  define ks where "ks = all_keys l r"
  define S where "S = anchor_of ` (set (ar_claims first) \<union> set (ar_claims second))"
  have ks: "distinct ks" "set ks = S" by (simp_all add: ks_def l_def r_def S_def all_keys_set) (simp add: all_keys_def)
  define m0 where "m0 = fold count_total ks []"
  have g0: "hm_get m0 k = (if \<exists>a\<in>S. fst a = k then
      Some \<lparr>ka_total = card {a \<in> S. fst a = k}, ka_agreed = 0, ka_disagreements = 0\<rparr> else None)" for k
    by (simp add: m0_def count_total_fold entry_or_new_def no_agreement_def ks length_filter_card)
  have "hm_wf m0" "\<forall>a\<in>set ks. hm_contains m0 (fst a)"
    by (auto simp: m0_def [symmetric] hm_contains_def g0 ks) (simp add: m0_def count_total_wf)
  from count_all_agreed_result [OF this, of l r] obtain m1 where m1: "count_all_agreed l r ks m0 = Some m1" "hm_wf m1"
    "\<forall>k. hm_get m1 k = map_option
      (\<lambda>e. e\<lparr>ka_agreed := ka_agreed e + length (filter (\<lambda>a. fst a = k \<and> hm_get l a = hm_get r a) ks)\<rparr>) (hm_get m0 k)"
    by blast
  have labels: "hm_get l a = last_label (ar_claims first) a" "hm_get r a = last_label (ar_claims second) a" for a
    by (simp_all add: l_def r_def label_map_get)
  define B where "B k = {a \<in> S. fst a = k \<and> last_label (ar_claims first) a = last_label (ar_claims second) a}" for k
  have fin: "finite S" by (simp add: S_def)
  have g1: "hm_get m1 k = (if \<exists>a\<in>S. fst a = k then
      Some \<lparr>ka_total = card {a \<in> S. fst a = k}, ka_agreed = card (B k), ka_disagreements = 0\<rparr> else None)" for k
    using m1(3) by (simp add: g0 ks length_filter_card labels B_def)
  have sub: "card (B k) \<le> card {a \<in> S. fst a = k}" for k
    by (rule card_mono) (auto simp: B_def fin)
  have "ka_agreed e \<le> ka_total e" if "(k, e) \<in> set m1" for k e
  proof -
    have "hm_get m1 k = Some e" using that m1(2) by (simp add: hm_get_def hm_wf_def)
    then show ?thesis using sub [of k] by (auto simp: g1 split: if_splits)
  qed
  then have all: "\<forall>(k, e)\<in>set m1. ka_agreed e \<le> ka_total e" by blast
  define m where "m = map (\<lambda>(k, e). (k, e\<lparr>ka_disagreements := ka_total e - ka_agreed e\<rparr>)) m1"
  have "agreement first second = Some (Inr m)"
    using assms m1(1) with_disagreements_all [OF all]
    by (simp add: agreement_def Let_def l_def [symmetric] r_def [symmetric] ks_def [symmetric] m0_def [symmetric]
        m_def)
  moreover have "hm_wf m" using m1(2) by (simp add: m_def hm_wf_def comp_def case_prod_unfold)
  moreover have "hm_get m k = kind_summary (ar_claims first) (ar_claims second) k" for k
  proof -
    have "{a \<in> S. fst a = k} - B k = {a \<in> S. fst a = k} - {a \<in> {a \<in> S. fst a = k}.
        last_label (ar_claims first) a = last_label (ar_claims second) a}" by (auto simp: B_def)
    moreover have "card ({a \<in> S. fst a = k} - B k) = card {a \<in> S. fst a = k} - card (B k)"
      by (rule card_Diff_subset) (auto simp: B_def fin)
    moreover have "B k = {a \<in> {a \<in> S. fst a = k}. last_label (ar_claims first) a = last_label (ar_claims second) a}"
      by (auto simp: B_def)
    moreover have "(\<exists>a\<in>S. fst a = k) \<longleftrightarrow> {a \<in> S. fst a = k} \<noteq> {}" by blast
    ultimately show ?thesis
      by (simp only: m_def hm_get_map g1 kind_summary_def S_def [symmetric] Let_def) simp
  qed
  ultimately show ?thesis by blast
qed

text \<open>Agreement of two records that validate as a pair never panics and counts, for every kind, the anchors that either
  coder marks: all of them, those to which both give the same label, and the others. Exchanging the coders changes
  nothing, and a label is the one a coder gives last.\<close>
theorem agreement_counts_anchors:
  assumes "validate_pair first second = Inr ()"
  shows "\<exists>m n. agreement first second = Some (Inr m) \<and> agreement second first = Some (Inr n) \<and>
    (\<forall>k. hm_get m k = kind_summary (ar_claims first) (ar_claims second) k \<and> hm_get n k = hm_get m k) \<and>
    (\<forall>k e. hm_get m k = Some e \<longrightarrow> ka_total e = ka_agreed e + ka_disagreements e \<and> ka_total e > 0)"
proof -
  from assms have "validate_pair second first = Inr ()"
    by (auto simp: validate_pair_def split: sum.splits if_splits)
  from agreement_summary [OF this] obtain n where n: "agreement second first = Some (Inr n)"
    "\<forall>k. hm_get n k = kind_summary (ar_claims second) (ar_claims first) k" by blast
  from agreement_summary [OF assms] obtain m where m: "agreement first second = Some (Inr m)"
    "\<forall>k. hm_get m k = kind_summary (ar_claims first) (ar_claims second) k" by blast
  have sym: "kind_summary cs ds k = kind_summary ds cs k" for cs ds k
  proof -
    have "set cs \<union> set ds = set ds \<union> set cs" "{a \<in> A. last_label cs a = last_label ds a} = {a \<in> A. last_label ds a = last_label cs a}"
      for A by auto
    then show ?thesis unfolding kind_summary_def Let_def by (simp only:)
  qed
  have total: "ka_total e = ka_agreed e + ka_disagreements e \<and> ka_total e > 0" if "kind_summary cs ds k = Some e" for cs ds k e
  proof -
    define A where "A = {a \<in> anchor_of ` (set cs \<union> set ds). fst a = k}"
    have "finite A" by (simp add: A_def)
    then have "card A = card {a \<in> A. P a} + card (A - {a \<in> A. P a})" for P
      using card_Diff_subset [of "{a \<in> A. P a}" A] card_mono [of A "{a \<in> A. P a}"] by (simp add: le_add_diff_inverse)
    moreover have "A \<noteq> {} \<Longrightarrow> card A > 0" using \<open>finite A\<close> by (simp add: card_gt_0_iff)
    ultimately show ?thesis using that
      by (simp only: kind_summary_def A_def [symmetric] Let_def split: if_splits) auto
  qed
  show ?thesis using m n sym total by metis
qed

definition sample_coder :: "string \<Rightarrow> annotation_claim list \<Rightarrow> annotation_record" where
  "sample_coder coder claims = annotation_record_new ''v1'' coder claims []"

definition sample_claim :: "nat \<Rightarrow> string \<Rightarrow> annotation_claim" where
  "sample_claim n label = annotation_claim_new KActor 1 (TextSpan n (n + 2)) label"

lemma sample_pair_valid: "validate_pair (sample_coder ''a'' [sample_claim 0 ''x'', sample_claim 3 ''y''])
    (sample_coder ''b'' [sample_claim 0 ''x'', sample_claim 3 ''z'']) = Inr ()"
  by code_simp

lemma agreement_counts_anchors_witness:
  "\<exists>m. agreement (sample_coder ''a'' [sample_claim 0 ''x'', sample_claim 3 ''y''])
      (sample_coder ''b'' [sample_claim 0 ''x'', sample_claim 3 ''z'']) = Some (Inr m) \<and>
    hm_get m ''Action'' = None"
proof -
  have "kind_summary [sample_claim 0 ''x'', sample_claim 3 ''y''] [sample_claim 0 ''x'', sample_claim 3 ''z''] ''Action'' = None"
    by (auto simp: kind_summary_def Let_def anchor_of_def sample_claim_def annotation_claim_new_def)
  then show ?thesis
    using agreement_counts_anchors [OF sample_pair_valid] by (auto simp: sample_coder_def annotation_record_new_def)
qed

text \<open>The validation of a record compares whole claims, with their labels, when it looks for duplicate anchors, while
  agreement compares places only: a coder may give one place a second label, the record stays valid, and the second
  label replaces the first.\<close>
theorem relabelled_anchor_accepted:
  assumes "annotation_validate r = Inr ()" "c \<in> set (ar_claims r)" "str_trim l \<noteq> []"
    and "c\<lparr>an_label := l\<rparr> \<notin> set (ar_claims r)"
  shows "annotation_validate (r\<lparr>ar_claims := ar_claims r @ [c\<lparr>an_label := l\<rparr>]\<rparr>) = Inr () \<and>
    hm_get (label_map (ar_claims r @ [c\<lparr>an_label := l\<rparr>])) (anchor_of c) = Some l"
proof -
  have snoc: "validate_claims xs (cs @ [d]) = Inr ()"
    if "validate_claims xs cs = Inr ()" "known_kind (an_kind d)" "span_start (an_claim_span d) < span_end (an_claim_span d)"
      "str_trim (an_label d) \<noteq> []" "d \<notin> set xs" "d \<notin> set cs" for xs cs d
    using that by (induction xs cs rule: validate_claims.induct) (auto split: if_splits)
  have valid: "known_kind (an_kind d) \<and> span_start (an_claim_span d) < span_end (an_claim_span d)"
    if "validate_claims xs cs = Inr ()" "d \<in> set cs" for xs cs d
    using that by (induction xs cs rule: validate_claims.induct) (auto split: if_splits)
  have cs: "validate_claims [] (ar_claims r) = Inr ()"
    using assms(1) by (auto simp: annotation_validate_def split: if_splits sum.splits)
  have "validate_claims [] (ar_claims r @ [c\<lparr>an_label := l\<rparr>]) = Inr ()"
    using valid [OF cs assms(2)] assms(3,4) by (intro snoc [OF cs]) auto
  then have "annotation_validate (r\<lparr>ar_claims := ar_claims r @ [c\<lparr>an_label := l\<rparr>]\<rparr>) = Inr ()"
    using assms(1) cs by (simp add: annotation_validate_def split: if_splits)
  moreover have "anchor_of (c\<lparr>an_label := l\<rparr>) = anchor_of c" by (simp add: anchor_of_def)
  then have "hm_get (label_map (ar_claims r @ [c\<lparr>an_label := l\<rparr>])) (anchor_of c) = Some l"
    by (simp add: label_map_get last_label_snoc)
  ultimately show ?thesis by blast
qed

lemma relabelled_anchor_accepted_witness:
  "annotation_validate (sample_coder ''a'' [sample_claim 0 ''x'', sample_claim 0 ''y'']) = Inr ()"
proof -
  let ?r = "sample_coder ''a'' [sample_claim 0 ''x'']"
  have "annotation_validate ?r = Inr ()" "sample_claim 0 ''x'' \<in> set (ar_claims ?r)" "str_trim ''y'' \<noteq> []"
    "(sample_claim 0 ''x'')\<lparr>an_label := ''y''\<rparr> \<notin> set (ar_claims ?r)" by code_simp+
  from relabelled_anchor_accepted [OF this] show ?thesis
    by (simp add: sample_coder_def annotation_record_new_def sample_claim_def annotation_claim_new_def)
qed

section \<open>The rendering is canonical\<close>

lemma sort_key_mset:
  fixes f :: "'a \<Rightarrow> 'b :: linorder"
  assumes "mset xs = mset ys" "inj f"
  shows "sort_key f xs = sort_key f ys"
  using assms by (intro sort_key_inj_key_eq) (auto intro: inj_on_subset)

text \<open>The rendering of a record depends on its claims and verdicts only as collections: the order in which a coder lists
  them leaves no trace.\<close>
theorem rendering_canonical:
  assumes "mset (ar_claims r) = mset (ar_claims r')" "mset (ar_verdicts r) = mset (ar_verdicts r')"
    and "ar_schema_version r = ar_schema_version r'" "ar_document_version r = ar_document_version r'"
    and "ar_coder_id r = ar_coder_id r'"
  shows "render_json r = render_json r'"
proof -
  have "inj claim_sort_key" by (rule injI) (simp add: claim_sort_key_def)
  then have claims: "sort_key claim_sort_key (ar_claims r) = sort_key claim_sort_key (ar_claims r')"
    by (rule sort_key_mset [OF assms(1)])
  have "inj verdict_sort_key" by (rule injI) (simp add: verdict_sort_key_def)
  then have verdicts: "sort_key verdict_sort_key (ar_verdicts r) = sort_key verdict_sort_key (ar_verdicts r')"
    by (rule sort_key_mset [OF assms(2)])
  show ?thesis by (simp add: render_json_def claims verdicts assms(3,4,5))
qed

lemma rendering_canonical_witness:
  "render_json (sample_coder ''a'' [sample_claim 3 ''y'', sample_claim 0 ''x'']) =
   render_json (sample_coder ''a'' [sample_claim 0 ''x'', sample_claim 3 ''y''])"
  by (rule rendering_canonical) (simp_all add: sample_coder_def annotation_record_new_def)

text \<open>A reader of JSON strings, the reference that \<open>json_string\<close> is checked against: it reads up to the closing quote and
  returns the value and the rest.\<close>

definition hex_value :: "char \<Rightarrow> nat" where
  "hex_value c = (if (of_char c :: nat) < 58 then of_char c - 48 else of_char c - 87)"

definition unescaped :: "char \<Rightarrow> char" where
  "unescaped e = (if e = CHR ''n'' then CHR 0x0A else if e = CHR ''r'' then CHR 0x0D else if e = CHR ''t'' then CHR 0x09 else e)"

fun json_read :: "string \<Rightarrow> (string \<times> string) option" where
  "json_read [] = None"
| "json_read (c # s) =
     (if c = CHR 0x22 then Some ([], s)
      else if c \<noteq> CHR 0x5C then map_option (apfst (Cons c)) (json_read s)
      else case s of
        [] \<Rightarrow> None
      | e # s \<Rightarrow>
          (if e \<noteq> CHR ''u'' then map_option (apfst (Cons (unescaped e))) (json_read s)
           else case s of
             h3 # h2 # h1 # h0 # s \<Rightarrow>
               map_option (apfst (append (utf8_of (((hex_value h3 * 16 + hex_value h2) * 16 + hex_value h1) * 16 + hex_value h0))))
                 (json_read s)
           | _ \<Rightarrow> None))"

lemma hex_value_char: "d < 16 \<Longrightarrow> hex_value (hex_char d) = d"
  by (auto simp: hex_value_def hex_char_def)

lemma hex4_value:
  assumes "n < 256"
  shows "json_read (CHR 0x5C # CHR ''u'' # hex4 n @ s) = map_option (apfst (append (utf8_of n))) (json_read s)"
proof -
  have small: "n div 16 < 16" "n div 256 = 0" "n div 4096 = 0" "n mod 16 < 16" using assms by auto
  have "hex4 n = [hex_char 0, hex_char 0, hex_char (n div 16), hex_char (n mod 16)]"
    using small by (simp add: hex4_def upt_rec)
  moreover have "((hex_value (hex_char 0) * 16 + hex_value (hex_char 0)) * 16 + hex_value (hex_char (n div 16))) * 16 +
      hex_value (hex_char (n mod 16)) = n"
    using small by (simp add: hex_value_char)
  ultimately show ?thesis by (subst json_read.simps) simp
qed

lemma control_code_utf8:
  assumes "is_control c"
  shows "control_code c < 256 \<and> utf8_of (control_code c) = c"
proof -
  consider a where "c = [a]" "byte_in 0 31 a \<or> byte_in 127 127 a"
    | a b where "c = [a, b]" "byte_in 0xC2 0xC2 a" "byte_in 0x80 0x9F b"
    using assms by (auto simp: is_control_def split: list.splits)
  then show ?thesis
  proof cases
    case 1
    then show ?thesis by (auto simp: byte_in_def utf8_of_def)
  next
    case 2
    define n :: nat where "n = of_char b"
    have a: "a = char_of (194::nat)" using 2(2) by (metis byte_in_def char_of_char le_antisym)
    have n: "128 \<le> n" "n \<le> 159" "b = char_of n" using 2(3) by (simp_all add: byte_in_def n_def)
    then have "n div 64 = 2" by (intro div_nat_eqI) simp_all
    then have "n mod 64 = n - 128" "n div 64 = 2" using minus_mult_div_eq_mod [of n 64] by simp_all
    with n have "utf8_of n = [char_of (194::nat), b]" by (simp add: utf8_of_def)
    moreover have "control_code c = n" using n(1,2) by (simp add: 2(1) a n_def [symmetric])
    ultimately show ?thesis using n(2) by (simp add: 2(1) a)
  qed
qed

lemma json_read_plain: "list_all (\<lambda>b. b \<noteq> CHR 0x22 \<and> b \<noteq> CHR 0x5C) c \<Longrightarrow>
    json_read (c @ s) = map_option (apfst (append c)) (json_read s)"
  by (cases "json_read s"; induction c) auto

lemma json_read_char:
  assumes "utf8_char c"
  shows "json_read (json_char c @ s) = map_option (apfst (append c)) (json_read s)"
proof -
  have plain: "list_all (\<lambda>b. b \<noteq> CHR 0x22 \<and> b \<noteq> CHR 0x5C) c" if "c \<noteq> [CHR 0x5C]" "c \<noteq> [CHR 0x22]"
  proof -
    have big: "128 \<le> (of_char b :: nat) \<Longrightarrow> b \<noteq> CHR 0x22 \<and> b \<noteq> CHR 0x5C" for b by auto
    show ?thesis using assms that
      unfolding utf8_char_def by (elim disjE exE conjE) (auto simp: list_all_iff cont_def byte_in_def dest: big)
  qed
  have append1: "map_option (apfst (Cons b)) z = map_option (apfst (append [b])) z" for b and z :: "(string \<times> string) option"
    by (cases z) auto
  consider "c = [CHR 0x5C] \<or> c = [CHR 0x22] \<or> c = [CHR 0x0A] \<or> c = [CHR 0x0D] \<or> c = [CHR 0x09]"
    | "c \<noteq> [CHR 0x5C]" "c \<noteq> [CHR 0x22]" "c \<noteq> [CHR 0x0A]" "c \<noteq> [CHR 0x0D]" "c \<noteq> [CHR 0x09]" "is_control c"
    | "c \<noteq> [CHR 0x5C]" "c \<noteq> [CHR 0x22]" "c \<noteq> [CHR 0x0A]" "c \<noteq> [CHR 0x0D]" "c \<noteq> [CHR 0x09]" "\<not> is_control c"
    by blast
  then show ?thesis
  proof cases
    case 1
    then show ?thesis by (elim disjE) (simp_all add: json_char_def unescaped_def append1)
  next
    case 2
    then have "json_char c @ s = CHR 0x5C # CHR ''u'' # hex4 (control_code c) @ s" by (simp add: json_char_def)
    with control_code_utf8 [OF 2(6)] show ?thesis by (simp only: hex4_value)
  next
    case 3
    then show ?thesis by (simp add: json_char_def json_read_plain plain)
  qed
qed

text \<open>Reading a rendered string up to its closing quote gives back the value, whatever follows: the escapes lose nothing, so
  different labels have different renderings and a label cannot end its string early.\<close>
theorem json_string_round_trip:
  assumes "utf8_ok value"
  shows "json_read (tl (json_string value) @ rest) = Some (value, rest)"
proof -
  have "json_read (concat (map json_char cs) @ CHR 0x22 # rest) = Some (concat cs, rest)"
    if "\<forall>c\<in>set cs. utf8_char c" for cs
    using that by (induction cs) (auto simp: json_read_char)
  from this [OF str_chars_utf8 [OF assms]] show ?thesis by (simp add: json_string_def)
qed

lemma json_string_round_trip_witness:
  "json_read (tl (json_string [CHR ''a'', CHR 0x22, CHR 0x0A, CHR 0x5C]) @ '',x'') =
   Some ([CHR ''a'', CHR 0x22, CHR 0x0A, CHR 0x5C], '',x'')"
  by (rule json_string_round_trip) (simp add: byte_in_def)

end
