(* ===== verification/LN_Decode.thy ===== *)
theory LN_Decode
  imports LN_Ids LN_Text
begin

text \<open>
  The decode boundary (HC-05), \<open>crates/ln-decode/src\<close>: the domain values of decoded blocks (\<open>domain.rs\<close>), the policy
  that accepts structural candidates only (\<open>application.rs\<close>), the synthetic decoders and the two WordML decoders of
  \<open>adapters.rs\<close>. The XML reader is third-party code: the WordML decoders are functions of the events it yields.
\<close>

section \<open>Identifiers and digests\<close>

text \<open>The macro \<open>id_type!\<close> of the crate: one parser for the six kinds of identifiers.\<close>

definition decode_id_parse :: "string \<Rightarrow> string \<Rightarrow> id_error + string" where
  "decode_id_parse kind value = parse_id kind value MAX_ID_LEN"

definition candidate_id_parse :: "string \<Rightarrow> id_error + string" where
  "candidate_id_parse value = decode_id_parse ''candidate id'' value"

definition anchor_id_parse :: "string \<Rightarrow> id_error + string" where
  "anchor_id_parse value = decode_id_parse ''anchor id'' value"

definition diagnostic_id_parse :: "string \<Rightarrow> id_error + string" where
  "diagnostic_id_parse value = decode_id_parse ''diagnostic id'' value"

definition source_stream_id_parse :: "string \<Rightarrow> id_error + string" where
  "source_stream_id_parse value = decode_id_parse ''source stream id'' value"

definition fingerprint_bytes :: "string \<Rightarrow> string" where
  "fingerprint_bytes bytes = digest_bytes bytes"

section \<open>Candidates and emissions\<close>

datatype decode_category = StructuralCandidate | VerifiedAssertion | MergedIdentity | UnregisteredRelation
  | RawFailureContext

fun category_is_structural :: "decode_category \<Rightarrow> bool" where
  "category_is_structural StructuralCandidate = True"
| "category_is_structural _ = False"

fun category_as_str :: "decode_category \<Rightarrow> string" where
  "category_as_str StructuralCandidate = ''structural-candidate''"
| "category_as_str VerifiedAssertion = ''verified-assertion''"
| "category_as_str MergedIdentity = ''merged-identity''"
| "category_as_str UnregisteredRelation = ''unregistered-relation''"
| "category_as_str RawFailureContext = ''raw-failure-context''"

record evidence_anchor =
  ea_anchor_id :: string
  ea_start_offset :: nat
  ea_end_offset :: nat
  ea_fingerprint :: string

record structural_candidate =
  st_candidate_id :: string
  st_category :: decode_category
  st_anchor :: evidence_anchor

record decode_request =
  dr_payload_ref :: string
  dr_family_format :: string
  dr_bytes :: string

definition decode_request_new :: "string \<Rightarrow> string \<Rightarrow> string \<Rightarrow> decode_request" where
  "decode_request_new payload family bytes =
     \<lparr>dr_payload_ref = payload, dr_family_format = family, dr_bytes = bytes\<rparr>"

record decoder_emission =
  de_category :: decode_category
  de_candidate_id :: "string option"
  de_anchor :: "evidence_anchor option"
  de_raw_context :: "string option"

record decode_diagnostic =
  dd_diagnostic_id :: string
  dd_category :: string
  dd_positive_control :: bool
  dd_byte_count :: nat
  dd_fingerprint :: string

record decode_result =
  dz_payload_ref :: string
  dz_candidates :: "structural_candidate list"
  dz_rejected :: "decode_category list"
  dz_diagnostics :: "decode_diagnostic list"
  dz_verified_assertion_absent :: bool
  dz_merged_identity_absent :: bool
  dz_unregistered_relation_absent :: bool
  dz_raw_payload_absent :: bool

section \<open>Decoded blocks\<close>

datatype parser_domain_error = InvalidSourceSpan nat nat | InvalidTextSpan nat nat | EmptyBlockText
  | EmptyProviderStyleId | EmptyHierarchyNumber | EmptyHierarchyTitle | EmptyHierarchyText

datatype decode_phase = PhaseInput | PhasePackage | PhaseParse | PhaseValidate

datatype block_decode_error_kind = UnsupportedFormat | InvalidPackage | MissingContentXml | DuplicatePackageEntry
  | UnsafePackageEntry | PackageLimitExceeded | MalformedInput | InvalidBlock

record block_decode_error =
  be_phase :: decode_phase
  be_kind :: block_decode_error_kind
  be_byte_offset :: "nat option"

definition block_error :: "decode_phase \<Rightarrow> block_decode_error_kind \<Rightarrow> nat option \<Rightarrow> block_decode_error" where
  "block_error phase kind offset = \<lparr>be_phase = phase, be_kind = kind, be_byte_offset = offset\<rparr>"

text \<open>Two kinds of non-empty byte ranges: of the source stream, and of the decoded text of a block.\<close>

datatype source_span = SourceSpan (ss_start: nat) (ss_end: nat)

definition source_span_try_new :: "nat \<Rightarrow> nat \<Rightarrow> parser_domain_error + source_span" where
  "source_span_try_new s e = (if s \<ge> e then Inl (InvalidSourceSpan s e) else Inr (SourceSpan s e))"

definition source_span_len :: "source_span \<Rightarrow> nat option" where
  "source_span_len s = (if ss_start s \<le> ss_end s then Some (ss_end s - ss_start s) else None)"

record source_location =
  sl_stream :: string
  sl_span :: source_span

datatype decoded_span = DecodedSpan (ds_start: nat) (ds_end: nat)

definition decoded_span_try_new :: "nat \<Rightarrow> nat \<Rightarrow> parser_domain_error + decoded_span" where
  "decoded_span_try_new s e = (if s \<ge> e then Inl (InvalidTextSpan s e) else Inr (DecodedSpan s e))"

definition decoded_span_len :: "decoded_span \<Rightarrow> nat option" where
  "decoded_span_len s = (if ds_start s \<le> ds_end s then Some (ds_end s - ds_start s) else None)"

datatype source_format_id = ConsultantWordMl | GarantOdt

datatype paragraph_style = PsTitle | PsBodyText | PsHeading | PsJurTerm | PsProviderComment | PsTableCell | PsUnknown

record parsed_block =
  pb_text :: string
  pb_provider_style_id :: "string option"
  pb_style :: paragraph_style
  pb_location :: source_location
  pb_format :: source_format_id

definition parsed_block_try_new :: "string \<Rightarrow> string option \<Rightarrow> paragraph_style \<Rightarrow> source_location \<Rightarrow>
    source_format_id \<Rightarrow> parser_domain_error + parsed_block" where
  "parsed_block_try_new content style_id style location fmt =
     (if str_trim content = [] then Inl EmptyBlockText
      else if (case style_id of None \<Rightarrow> False | Some v \<Rightarrow> str_trim v = []) then Inl EmptyProviderStyleId
      else Inr \<lparr>pb_text = content, pb_provider_style_id = style_id, pb_style = style, pb_location = location,
        pb_format = fmt\<rparr>)"

datatype hierarchy_level = Razdel | Glava | Paragraph | Statya | Chast | Punkt | Podpunkt

definition all_levels :: "hierarchy_level list" where
  "all_levels = [Razdel, Glava, Paragraph, Statya, Chast, Punkt, Podpunkt]"

fun level_as_str :: "hierarchy_level \<Rightarrow> string" where
  "level_as_str Razdel = ''Razdel''"
| "level_as_str Glava = ''Glava''"
| "level_as_str Paragraph = ''Paragraph''"
| "level_as_str Statya = ''Statya''"
| "level_as_str Chast = ''Chast''"
| "level_as_str Punkt = ''Punkt''"
| "level_as_str Podpunkt = ''Podpunkt''"

definition level_from_token :: "string \<Rightarrow> hierarchy_level option" where
  "level_from_token token = find (\<lambda>l. level_as_str l = token) all_levels"

record hierarchy_node =
  hn_level :: hierarchy_level
  hn_number :: string
  hn_title :: "string option"
  hn_text :: string
  hn_marker_span :: decoded_span

definition hierarchy_node_try_new :: "hierarchy_level \<Rightarrow> string \<Rightarrow> string option \<Rightarrow> string \<Rightarrow> decoded_span \<Rightarrow>
    parser_domain_error + hierarchy_node" where
  "hierarchy_node_try_new level number title content span =
     (if str_trim number = [] then Inl EmptyHierarchyNumber
      else if (case title of None \<Rightarrow> False | Some t \<Rightarrow> str_trim t = []) then Inl EmptyHierarchyTitle
      else if str_trim content = [] then Inl EmptyHierarchyText
      else Inr \<lparr>hn_level = level, hn_number = number, hn_title = title, hn_text = content, hn_marker_span = span\<rparr>)"

lemma level_token_round_trip: "level_from_token t = Some l \<longleftrightarrow> level_as_str l = t"
  by (cases l) (auto simp: level_from_token_def all_levels_def)

lemma decoded_span_try_new_Inr [simp]: "decoded_span_try_new a b = Inr s \<longleftrightarrow> a < b \<and> s = DecodedSpan a b"
  by (auto simp: decoded_span_try_new_def)

lemma source_span_try_new_Inr [simp]: "source_span_try_new a b = Inr s \<longleftrightarrow> a < b \<and> s = SourceSpan a b"
  by (auto simp: source_span_try_new_def)

section \<open>The decode policy\<close>

text \<open>
  \<open>DecodeAndAnchor\<close> over a decoder and a diagnostic port, given by the effect of \<open>record\<close> on its state and the list
  \<open>events\<close> reads. \<open>dbg\<close> is the rendering of a string by \<open>Debug\<close>, whose escapes depend on Unicode tables.
\<close>

record 'g diagnostic_port =
  dp_record :: "decode_diagnostic \<Rightarrow> 'g \<Rightarrow> 'g"
  dp_events :: "'g \<Rightarrow> decode_diagnostic list"

fun accept_emissions :: "decoder_emission list \<Rightarrow> structural_candidate list \<Rightarrow> decode_category list \<Rightarrow>
    structural_candidate list \<times> decode_category list" where
  "accept_emissions [] candidates rejected = (candidates, rejected)"
| "accept_emissions (e # es) candidates rejected =
     (if category_is_structural (de_category e)
      then case (de_candidate_id e, de_anchor e) of
          (Some cid, Some anchor) \<Rightarrow>
            accept_emissions es
              (candidates @ [\<lparr>st_candidate_id = cid, st_category = StructuralCandidate, st_anchor = anchor\<rparr>]) rejected
        | _ \<Rightarrow> accept_emissions es candidates (rejected @ [StructuralCandidate])
      else accept_emissions es candidates (rejected @ [de_category e]))"

fun debug_category :: "decode_category \<Rightarrow> string" where
  "debug_category StructuralCandidate = ''StructuralCandidate''"
| "debug_category VerifiedAssertion = ''VerifiedAssertion''"
| "debug_category MergedIdentity = ''MergedIdentity''"
| "debug_category UnregisteredRelation = ''UnregisteredRelation''"
| "debug_category RawFailureContext = ''RawFailureContext''"

definition debug_candidate :: "(string \<Rightarrow> string) \<Rightarrow> structural_candidate \<Rightarrow> string" where
  "debug_candidate dbg c =
     ''StructuralCandidate { candidate_id: CandidateId('' @ dbg (st_candidate_id c) @ ''), category: '' @
     debug_category (st_category c) @ '', anchor: EvidenceAnchor { anchor_id: AnchorId('' @
     dbg (ea_anchor_id (st_anchor c)) @ ''), start_offset: '' @ show_nat (ea_start_offset (st_anchor c)) @
     '', end_offset: '' @ show_nat (ea_end_offset (st_anchor c)) @ '', fingerprint: '' @
     dbg (ea_fingerprint (st_anchor c)) @ '' } }''"

definition debug_diagnostic :: "(string \<Rightarrow> string) \<Rightarrow> decode_diagnostic \<Rightarrow> string" where
  "debug_diagnostic dbg d =
     ''SafeDiagnostic { diagnostic_id: DiagnosticId('' @ dbg (dd_diagnostic_id d) @ ''), category: '' @
     dbg (dd_category d) @ '', positive_control: '' @ (if dd_positive_control d then ''true'' else ''false'') @
     '', byte_count: '' @ show_nat (dd_byte_count d) @ '', fingerprint: '' @ dbg (dd_fingerprint d) @ '' }''"

definition debug_list :: "string list \<Rightarrow> string" where
  "debug_list xs = ''['' @ str_join '', '' xs @ '']''"

definition decode_execute :: "(string \<Rightarrow> string) \<Rightarrow> (decode_request \<Rightarrow> decoder_emission list) \<Rightarrow> 'g diagnostic_port \<Rightarrow>
    'g \<Rightarrow> decode_request \<Rightarrow> ('g \<times> decode_result) option" where
  "decode_execute dbg decoder port st request =
     (let (candidates, rejected) = accept_emissions (decoder request) [] [];
          fingerprint = fingerprint_bytes (dr_bytes request)
      in Option.bind (expect (diagnostic_id_parse ''diag:positive-control'')) (\<lambda>positive_id.
        let st = dp_record port
              \<lparr>dd_diagnostic_id = positive_id, dd_category = ''decode-positive-control'', dd_positive_control = True,
               dd_byte_count = length (dr_bytes request), dd_fingerprint = fingerprint\<rparr> st
        in Option.bind
          (if rejected = [] then Some st
           else map_option (\<lambda>reject_id. dp_record port
              \<lparr>dd_diagnostic_id = reject_id, dd_category = ''decode-rejected-non-structural'',
               dd_positive_control = False, dd_byte_count = length (dr_bytes request),
               dd_fingerprint = fingerprint\<rparr> st)
             (expect (diagnostic_id_parse ''diag:rejected-emission'')))
          (\<lambda>st.
            let diagnostics = dp_events port st;
                blob = debug_list (map (debug_candidate dbg) candidates) @
                  debug_list (map (debug_diagnostic dbg) diagnostics)
            in Some (st,
              \<lparr>dz_payload_ref = dr_payload_ref request, dz_candidates = candidates, dz_rejected = rejected,
               dz_diagnostics = diagnostics, dz_verified_assertion_absent = True, dz_merged_identity_absent = True,
               dz_unregistered_relation_absent = True,
               dz_raw_payload_absent =
                 (\<not> str_contains blob ''CANARY::'' \<and>
                  \<not> str_contains blob ''SYNTHETIC-LEGAL-TEXT-DO-NOT-LEAK'')\<rparr>))))"

text \<open>The in-memory sink and the synthetic decoders.\<close>

definition in_memory_sink :: "decode_diagnostic list diagnostic_port" where
  "in_memory_sink = \<lparr>dp_record = (\<lambda>e es. es @ [e]), dp_events = (\<lambda>es. es)\<rparr>"

definition ok_id :: "id_error + string \<Rightarrow> string option" where
  "ok_id r = (case r of Inl _ \<Rightarrow> None | Inr x \<Rightarrow> Some x)"

definition honest_synthetic_decode :: "decode_request \<Rightarrow> decoder_emission list option" where
  "honest_synthetic_decode request =
     map_option (\<lambda>anchor_id.
       [\<lparr>de_category = StructuralCandidate, de_candidate_id = ok_id (candidate_id_parse ''cand:synthetic-honest''),
         de_anchor = Some \<lparr>ea_anchor_id = anchor_id, ea_start_offset = 0, ea_end_offset = length (dr_bytes request),
           ea_fingerprint = fingerprint_bytes (dr_bytes request)\<rparr>,
         de_raw_context = None\<rparr>])
       (expect (anchor_id_parse ''anchor:synthetic-honest''))"

definition hostile_emission :: "decode_category \<Rightarrow> string \<Rightarrow> decoder_emission" where
  "hostile_emission category raw =
     \<lparr>de_category = category, de_candidate_id = None, de_anchor = None, de_raw_context = Some raw\<rparr>"

definition malicious_synthetic_decode :: "decode_request \<Rightarrow> decoder_emission list" where
  "malicious_synthetic_decode request =
     [hostile_emission VerifiedAssertion ''CANARY::SYNTHETIC-LEGAL-TEXT-DO-NOT-LEAK'',
      hostile_emission MergedIdentity ''CANARY::MERGED-IDENTITY'',
      hostile_emission UnregisteredRelation ''CANARY::UNREGISTERED-RELATION'',
      hostile_emission RawFailureContext ''CANARY::RAW-FAILURE-CONTEXT'']"

section \<open>WordML paragraphs\<close>

text \<open>
  What the XML reader yields: events with the position before and after each, up to the end of the stream. An attribute
  may be malformed, and so may its value or the escapes of a text; local names carry no prefix. The two decoders run the
  reader in their own configuration, so each is a function of its own events.
\<close>

record xml_attribute =
  xa_key :: string
  xa_value :: "string option"
  xa_lossy :: string

datatype xml_event = XStart string "xml_attribute option list" | XEmpty string "xml_attribute option list"
  | XText "string option" | XEnd string | XOther | XError nat

type_synonym xml_step = "nat \<times> nat \<times> xml_event"

definition is_val_key :: "string \<Rightarrow> bool" where
  "is_val_key key = (key = ''val'' \<or> ends_with '':val'' key)"

fun style_id_of :: "nat \<Rightarrow> xml_attribute option list \<Rightarrow> block_decode_error + string option" where
  "style_id_of offset [] = Inr None"
| "style_id_of offset (a # as) =
     (case a of
        None \<Rightarrow> Inl (block_error PhaseParse MalformedInput (Some offset))
      | Some attribute \<Rightarrow>
          if is_val_key (xa_key attribute)
          then case xa_value attribute of
              None \<Rightarrow> Inl (block_error PhaseParse MalformedInput (Some offset))
            | Some v \<Rightarrow> Inr (Some v)
          else style_id_of offset as)"

definition map_paragraph_style :: "string option \<Rightarrow> paragraph_style" where
  "map_paragraph_style style_id =
     (let s = (case style_id of None \<Rightarrow> ''0'' | Some s \<Rightarrow> s) in
      if s \<in> {''0'', ''1''} then PsBodyText
      else if s \<in> {''2'', ''5''} then PsTitle
      else if s = ''3'' then PsTableCell
      else if s \<in> {''4'', ''7'', ''8''} then PsBodyText
      else if s = ''6'' then PsJurTerm
      else PsUnknown)"

record wordml_state =
  wm_text :: string
  wm_style_id :: "string option"
  wm_paragraph_start :: "nat option"
  wm_in_text :: bool
  wm_in_bindata :: bool
  wm_open_elements :: nat
  wm_blocks :: "parsed_block list"

definition wordml_start :: wordml_state where
  "wordml_start = \<lparr>wm_text = [], wm_style_id = None, wm_paragraph_start = None, wm_in_text = False,
     wm_in_bindata = False, wm_open_elements = 0, wm_blocks = []\<rparr>"

definition set_style :: "nat \<Rightarrow> xml_attribute option list \<Rightarrow> wordml_state \<Rightarrow> block_decode_error + wordml_state" where
  "set_style offset attributes st =
     (case style_id_of offset attributes of Inl e \<Rightarrow> Inl e | Inr s \<Rightarrow> Inr (st\<lparr>wm_style_id := s\<rparr>))"

definition close_paragraph :: "string \<Rightarrow> nat \<Rightarrow> nat \<Rightarrow> wordml_state \<Rightarrow> block_decode_error + wordml_state" where
  "close_paragraph stream start end_position st =
     (if str_trim (wm_text st) = []
      then Inr (st\<lparr>wm_paragraph_start := None, wm_text := [], wm_style_id := None\<rparr>)
      else case source_span_try_new start end_position of
        Inl _ \<Rightarrow> Inl (block_error PhaseValidate InvalidBlock (Some start))
      | Inr span \<Rightarrow>
          (case parsed_block_try_new (wm_text st) (wm_style_id st) (map_paragraph_style (wm_style_id st))
              \<lparr>sl_stream = stream, sl_span = span\<rparr> ConsultantWordMl of
             Inl _ \<Rightarrow> Inl (block_error PhaseValidate InvalidBlock (Some start))
           | Inr block \<Rightarrow>
               Inr (st\<lparr>wm_paragraph_start := None, wm_blocks := wm_blocks st @ [block], wm_text := [],
                 wm_style_id := None\<rparr>)))"

fun wordml_step :: "string \<Rightarrow> xml_step \<Rightarrow> wordml_state \<Rightarrow> block_decode_error + wordml_state" where
  "wordml_step stream (a, b, XStart name attributes) st =
     (let st = st\<lparr>wm_open_elements := wm_open_elements st + 1\<rparr> in
      if name = ''binData'' then Inr (st\<lparr>wm_in_bindata := True\<rparr>)
      else if name = ''p'' then Inr (st\<lparr>wm_paragraph_start := Some a, wm_style_id := None, wm_text := []\<rparr>)
      else if name = ''t'' \<and> wm_paragraph_start st \<noteq> None \<and> \<not> wm_in_bindata st then Inr (st\<lparr>wm_in_text := True\<rparr>)
      else if name = ''pStyle'' \<and> wm_paragraph_start st \<noteq> None then set_style a attributes st
      else Inr st)"
| "wordml_step stream (a, b, XEmpty name attributes) st =
     (if name = ''pStyle'' \<and> wm_paragraph_start st \<noteq> None then set_style a attributes st else Inr st)"
| "wordml_step stream (a, b, XText value) st =
     (if wm_in_text st \<and> \<not> wm_in_bindata st
      then case value of
          None \<Rightarrow> Inl (block_error PhaseParse MalformedInput (Some a))
        | Some decoded \<Rightarrow> Inr (st\<lparr>wm_text := wm_text st @ decoded\<rparr>)
      else Inr st)"
| "wordml_step stream (a, b, XEnd name) st =
     (if wm_open_elements st = 0 then Inl (block_error PhaseParse MalformedInput (Some a))
      else let st = st\<lparr>wm_open_elements := wm_open_elements st - 1\<rparr> in
        if name = ''binData'' then Inr (st\<lparr>wm_in_bindata := False\<rparr>)
        else if name = ''t'' then Inr (st\<lparr>wm_in_text := False\<rparr>)
        else case (name = ''p'', wm_paragraph_start st) of
          (True, Some start) \<Rightarrow> close_paragraph stream start b st
        | _ \<Rightarrow> Inr st)"
| "wordml_step stream (a, b, XOther) st = Inr st"
| "wordml_step stream (a, b, XError position) st = Inl (block_error PhaseParse MalformedInput (Some position))"

fun wordml_loop :: "string \<Rightarrow> nat \<Rightarrow> xml_step list \<Rightarrow> wordml_state \<Rightarrow> block_decode_error + parsed_block list" where
  "wordml_loop stream eof [] st =
     (if wm_open_elements st = 0 then Inr (wm_blocks st)
      else Inl (block_error PhaseParse MalformedInput (Some eof)))"
| "wordml_loop stream eof (x # xs) st =
     (case wordml_step stream x st of Inl e \<Rightarrow> Inl e | Inr st \<Rightarrow> wordml_loop stream eof xs st)"

text \<open>\<open>decode_blocks\<close> of \<open>ConsultantWordMlBlockDecoder\<close>; \<open>events\<close> reads the bytes of the request.\<close>

definition consultant_decode_blocks :: "(string \<Rightarrow> xml_step list \<times> nat) \<Rightarrow> decode_request \<Rightarrow>
    (block_decode_error + parsed_block list) option" where
  "consultant_decode_blocks events request =
     (if dr_family_format request \<noteq> ''family:consultant-wordml''
      then Some (Inl (block_error PhaseInput UnsupportedFormat None))
      else map_option (\<lambda>stream. let (xs, eof) = events (dr_bytes request) in wordml_loop stream eof xs wordml_start)
        (expect (source_stream_id_parse ''artifact:whole'')))"

section \<open>The streaming decoder\<close>

datatype wordml_style = WsTitle | WsNormal | WsNonformat | WsJurTerm | WsDocList | WsTextList | WsTitlePage | WsCell
  | WsUnknown string

definition style_from_id :: "string \<Rightarrow> wordml_style" where
  "style_from_id i =
     (if i = ''0'' then WsNormal else if i = ''1'' then WsNonformat else if i = ''2'' then WsTitle
      else if i = ''3'' then WsCell else if i = ''4'' then WsDocList else if i = ''5'' then WsTitlePage
      else if i = ''6'' then WsJurTerm else if i \<in> {''7'', ''8''} then WsTextList else WsUnknown i)"

definition style_is_structural :: "wordml_style \<Rightarrow> bool" where
  "style_is_structural s = (s \<in> {WsTitle, WsNormal, WsJurTerm, WsDocList, WsTextList})"

record stream_state =
  sm_text :: string
  sm_style :: "string option"
  sm_in_paragraph :: bool
  sm_in_text :: bool
  sm_in_bindata :: bool
  sm_para_count :: nat
  sm_emissions :: "decoder_emission list"

definition stream_start :: stream_state where
  "stream_start = \<lparr>sm_text = [], sm_style = None, sm_in_paragraph = False, sm_in_text = False, sm_in_bindata = False,
     sm_para_count = 0, sm_emissions = []\<rparr>"

text \<open>Malformed attributes are passed over here, and the last \<open>val\<close> wins.\<close>

definition last_val :: "xml_attribute option list \<Rightarrow> string option \<Rightarrow> string option" where
  "last_val attributes current =
     fold (\<lambda>a c. case a of None \<Rightarrow> c | Some x \<Rightarrow> if is_val_key (xa_key x) then Some (xa_lossy x) else c) attributes current"

definition stream_emission :: "nat \<Rightarrow> string \<Rightarrow> decoder_emission option" where
  "stream_emission n content =
     map_option (\<lambda>anchor_id.
       \<lparr>de_category = StructuralCandidate,
        de_candidate_id = ok_id (candidate_id_parse (''cand:'' @ show_nat n)),
        de_anchor = Some \<lparr>ea_anchor_id = anchor_id, ea_start_offset = 0, ea_end_offset = length content,
          ea_fingerprint = fingerprint_bytes content\<rparr>,
        de_raw_context = None\<rparr>)
       (case anchor_id_parse (''anchor:'' @ show_nat n) of
          Inr x \<Rightarrow> Some x
        | Inl _ \<Rightarrow> expect (anchor_id_parse ''anchor:fallback''))"

fun stream_step :: "xml_step \<Rightarrow> stream_state \<Rightarrow> stream_state option" where
  "stream_step (a, b, XStart name attributes) st = Some
     (if name = ''binData'' then st\<lparr>sm_in_bindata := True\<rparr>
      else if name = ''p'' then st\<lparr>sm_in_paragraph := True, sm_style := None, sm_text := []\<rparr>
      else if name = ''t'' \<and> sm_in_paragraph st then st\<lparr>sm_in_text := True\<rparr>
      else if name = ''pStyle'' \<and> sm_in_paragraph st then st\<lparr>sm_style := last_val attributes (sm_style st)\<rparr>
      else st)"
| "stream_step (a, b, XEmpty name attributes) st = Some
     (if name = ''pStyle'' \<and> sm_in_paragraph st then st\<lparr>sm_style := last_val attributes (sm_style st)\<rparr> else st)"
| "stream_step (a, b, XText value) st = Some
     (if sm_in_text st then st\<lparr>sm_text := sm_text st @ (case value of None \<Rightarrow> [] | Some t \<Rightarrow> t)\<rparr> else st)"
| "stream_step (a, b, XEnd name) st =
     (if name = ''binData'' then Some (st\<lparr>sm_in_bindata := False\<rparr>)
      else if name = ''t'' then Some (st\<lparr>sm_in_text := False\<rparr>)
      else if name = ''p'' \<and> sm_in_paragraph st \<and> \<not> sm_in_bindata st
      then let st = st\<lparr>sm_in_paragraph := False\<rparr>;
               style = style_from_id (case sm_style st of None \<Rightarrow> ''0'' | Some s \<Rightarrow> s)
        in if style_is_structural style \<and> str_trim (sm_text st) \<noteq> []
          then let n = sm_para_count st + 1 in
            map_option (\<lambda>e. st\<lparr>sm_para_count := n, sm_emissions := sm_emissions st @ [e], sm_text := []\<rparr>)
              (stream_emission n (sm_text st))
          else Some (st\<lparr>sm_text := []\<rparr>)
      else Some st)"
| "stream_step (a, b, XOther) st = Some st"
| "stream_step (a, b, XError position) st = Some st"

text \<open>The loop breaks at the first error of the reader and keeps what it has.\<close>

fun stream_loop :: "xml_step list \<Rightarrow> stream_state \<Rightarrow> decoder_emission list option" where
  "stream_loop [] st = Some (sm_emissions st)"
| "stream_loop ((a, b, e) # xs) st =
     (case e of XError _ \<Rightarrow> Some (sm_emissions st)
      | _ \<Rightarrow> Option.bind (stream_step (a, b, e) st) (stream_loop xs))"

definition wordml_streaming_decode :: "(string \<Rightarrow> xml_step list) \<Rightarrow> decode_request \<Rightarrow> decoder_emission list option" where
  "wordml_streaming_decode events request = stream_loop (events (dr_bytes request)) stream_start"

section \<open>What the policy lets through\<close>

definition acceptable :: "decoder_emission \<Rightarrow> bool" where
  "acceptable e = (de_category e = StructuralCandidate \<and> de_candidate_id e \<noteq> None \<and> de_anchor e \<noteq> None)"

definition candidate_of :: "decoder_emission \<Rightarrow> structural_candidate" where
  "candidate_of e = \<lparr>st_candidate_id = the (de_candidate_id e), st_category = StructuralCandidate,
     st_anchor = the (de_anchor e)\<rparr>"

lemma category_is_structural_iff: "category_is_structural c \<longleftrightarrow> c = StructuralCandidate"
  by (cases c) simp_all

lemma accept_emissions_filter:
  "accept_emissions es cs rs = (cs @ map candidate_of (filter acceptable es),
     rs @ map de_category (filter (\<lambda>e. \<not> acceptable e) es))"
  by (induction es arbitrary: cs rs)
    (auto simp: acceptable_def candidate_of_def category_is_structural_iff split: option.splits)

lemma static_ids:
  "expect (diagnostic_id_parse ''diag:positive-control'') = Some ''diag:positive-control''"
  "expect (diagnostic_id_parse ''diag:rejected-emission'') = Some ''diag:rejected-emission''"
  "expect (source_stream_id_parse ''artifact:whole'') = Some ''artifact:whole''"
  "expect (anchor_id_parse ''anchor:fallback'') = Some ''anchor:fallback''"
  by code_simp+

definition control_event :: "bool \<Rightarrow> decode_request \<Rightarrow> decode_diagnostic" where
  "control_event positive request =
     \<lparr>dd_diagnostic_id = (if positive then ''diag:positive-control'' else ''diag:rejected-emission''),
      dd_category = (if positive then ''decode-positive-control'' else ''decode-rejected-non-structural''),
      dd_positive_control = positive, dd_byte_count = length (dr_bytes request),
      dd_fingerprint = fingerprint_bytes (dr_bytes request)\<rparr>"

lemma decode_execute_eq:
  "decode_execute dbg decoder port st request =
     (let es = decoder request; rejected = map de_category (filter (\<lambda>e. \<not> acceptable e) es);
          candidates = map candidate_of (filter acceptable es);
          st1 = dp_record port (control_event True request) st;
          st2 = (if rejected = [] then st1 else dp_record port (control_event False request) st1);
          blob = debug_list (map (debug_candidate dbg) candidates) @
            debug_list (map (debug_diagnostic dbg) (dp_events port st2))
      in Some (st2, \<lparr>dz_payload_ref = dr_payload_ref request, dz_candidates = candidates, dz_rejected = rejected,
           dz_diagnostics = dp_events port st2, dz_verified_assertion_absent = True,
           dz_merged_identity_absent = True, dz_unregistered_relation_absent = True,
           dz_raw_payload_absent = (\<not> str_contains blob ''CANARY::'' \<and>
             \<not> str_contains blob ''SYNTHETIC-LEGAL-TEXT-DO-NOT-LEAK'')\<rparr>))"
  unfolding decode_execute_def accept_emissions_filter Let_def control_event_def static_ids
  by (simp add: Let_def)

text \<open>C16. The decode boundary lets structural candidates through and nothing else, whatever the decoder and the diagnostic port
  do. It always returns; the candidates are the structural emissions that carry an identifier and an anchor, in order;
  every other emission is reported by its category, in order, and none is lost; the port is told of the run once, and a
  second time exactly when something was rejected.\<close>
theorem decode_policy_exact:
  "\<exists>st' r. decode_execute dbg decoder port st request = Some (st', r) \<and>
     dz_candidates r = map candidate_of (filter acceptable (decoder request)) \<and>
     dz_rejected r = map de_category (filter (\<lambda>e. \<not> acceptable e) (decoder request)) \<and>
     length (dz_candidates r) + length (dz_rejected r) = length (decoder request) \<and>
     st_category ` set (dz_candidates r) \<subseteq> {StructuralCandidate} \<and>
     st' = (if list_all acceptable (decoder request) then dp_record port (control_event True request) st
       else dp_record port (control_event False request) (dp_record port (control_event True request) st)) \<and>
     dz_diagnostics r = dp_events port st'"
proof -
  have none: "filter (\<lambda>e. \<not> acceptable e) es = [] \<longleftrightarrow> list_all acceptable es" for es
    by (simp add: filter_empty_conv list_all_iff)
  show ?thesis unfolding decode_execute_eq Let_def
    by (auto simp: none sum_length_filter_compl candidate_of_def)
qed

text \<open>The raw context of an emission reaches nothing: two decoders whose emissions differ only in their raw context have the
  same result and leave the same diagnostics behind.\<close>
theorem raw_context_noninterference:
  assumes "map (\<lambda>e. e\<lparr>de_raw_context := None\<rparr>) (decoder request) =
    map (\<lambda>e. e\<lparr>de_raw_context := None\<rparr>) (decoder' request)"
  shows "decode_execute dbg decoder port st request = decode_execute dbg decoder' port st request"
proof -
  let ?erase = "\<lambda>e. e\<lparr>de_raw_context := None\<rparr>"
  have *: "map candidate_of (filter acceptable es) = map candidate_of (filter acceptable (map ?erase es))"
    "map de_category (filter (\<lambda>e. \<not> acceptable e) es) = map de_category (filter (\<lambda>e. \<not> acceptable e) (map ?erase es))"
    for es by (induction es) (simp_all add: acceptable_def candidate_of_def)
  then have "map candidate_of (filter acceptable (decoder request)) = map candidate_of (filter acceptable (decoder' request))"
    "map de_category (filter (\<lambda>e. \<not> acceptable e) (decoder request)) =
     map de_category (filter (\<lambda>e. \<not> acceptable e) (decoder' request))"
    using assms by metis+
  then show ?thesis by (simp only: decode_execute_eq Let_def)
qed

definition sample_request :: decode_request where
  "sample_request = decode_request_new ''payload:1'' ''family:consultant-wordml'' ''bytes''"

lemma raw_context_noninterference_witness:
  "decode_execute (\<lambda>s. s) malicious_synthetic_decode in_memory_sink [] sample_request =
   decode_execute (\<lambda>s. s) (\<lambda>r. map (\<lambda>e. e\<lparr>de_raw_context := Some ''other''\<rparr>) (malicious_synthetic_decode r))
     in_memory_sink [] sample_request"
  by (rule raw_context_noninterference) (simp add: malicious_synthetic_decode_def hostile_emission_def)

section \<open>What a decoded document is\<close>

text \<open>The depth of the open elements along the events, \<open>None\<close> when an end has no start.\<close>

fun element_depth :: "nat \<Rightarrow> xml_step list \<Rightarrow> nat option" where
  "element_depth n [] = Some n"
| "element_depth n ((a, b, e) # xs) =
     (case e of
        XStart _ _ \<Rightarrow> element_depth (Suc n) xs
      | XEnd _ \<Rightarrow> (if n = 0 then None else element_depth (n - 1) xs)
      | _ \<Rightarrow> element_depth n xs)"

text \<open>The positions that a reader reports: each event starts where the one before it ended, or later.\<close>

fun positions_from :: "nat \<Rightarrow> xml_step list \<Rightarrow> bool" where
  "positions_from p [] = True"
| "positions_from p ((a, b, e) # xs) = (p \<le> a \<and> a \<le> b \<and> positions_from b xs)"

definition block_ok :: "parsed_block \<Rightarrow> bool" where
  "block_ok b = (str_trim (pb_text b) \<noteq> [] \<and> pb_format b = ConsultantWordMl \<and>
     ss_start (sl_span (pb_location b)) < ss_end (sl_span (pb_location b)) \<and>
     (\<forall>s. pb_provider_style_id b = Some s \<longrightarrow> str_trim s \<noteq> []) \<and>
     pb_style b = map_paragraph_style (pb_provider_style_id b))"

definition span_of :: "parsed_block \<Rightarrow> source_span" where
  "span_of b = sl_span (pb_location b)"

definition wordml_inv :: "nat \<Rightarrow> wordml_state \<Rightarrow> bool" where
  "wordml_inv p st =
     (list_all block_ok (wm_blocks st) \<and> sorted_wrt (\<lambda>x y. ss_end (span_of x) \<le> ss_start (span_of y)) (wm_blocks st) \<and>
      (\<forall>x\<in>set (wm_blocks st). ss_end (span_of x) \<le> p) \<and>
      (\<forall>q. wm_paragraph_start st = Some q \<longrightarrow> q \<le> p \<and> (\<forall>x\<in>set (wm_blocks st). ss_end (span_of x) \<le> q)))"

lemma close_paragraph_inv:
  assumes "close_paragraph stream q b st = Inr st'" "wordml_inv p st" "p \<le> b"
    "\<forall>x\<in>set (wm_blocks st). ss_end (span_of x) \<le> q"
  shows "wordml_inv b st' \<and> wm_open_elements st' = wm_open_elements st"
proof -
  have "\<forall>x\<in>set (wm_blocks st). ss_end (span_of x) \<le> b" using assms(2,3) by (fastforce simp: wordml_inv_def)
  then show ?thesis using assms
    by (auto simp: close_paragraph_def parsed_block_try_new_def wordml_inv_def block_ok_def span_of_def sorted_wrt_append
      split: if_splits sum.splits option.splits)
qed

lemma wordml_step_inv:
  assumes "wordml_step stream (a, b, e) st = Inr st'" "wordml_inv p st" "p \<le> a" "a \<le> b"
  shows "wordml_inv b st' \<and> element_depth (wm_open_elements st) [(a, b, e)] = Some (wm_open_elements st') \<and>
    (\<nexists>n. e = XError n)"
proof -
  have style: "wm_blocks s' = wm_blocks s \<and> wm_paragraph_start s' = wm_paragraph_start s \<and>
      wm_open_elements s' = wm_open_elements s" if "set_style a as s = Inr s'" for as s s'
    using that by (auto simp: set_style_def split: sum.splits)
  have later: "wordml_inv b s" if "wordml_inv p s" for s
    using that assms(3,4) by (fastforce simp: wordml_inv_def)
  have same: "wordml_inv b s'" if "wm_blocks s' = wm_blocks s" "wm_paragraph_start s' = wm_paragraph_start s"
    "wordml_inv b s" for s s' using that by (simp add: wordml_inv_def)
  show ?thesis
  proof (cases e)
    case (XStart name attributes)
    have "wordml_inv b (st\<lparr>wm_open_elements := x, wm_paragraph_start := Some a, wm_style_id := y, wm_text := z\<rparr>)" for x y z
      using assms(2-4) by (fastforce simp: wordml_inv_def)
    with assms(1) later [OF assms(2)] show ?thesis
      by (auto simp: XStart Let_def split: if_splits dest!: style intro: same [of _ st])
  next
    case (XEmpty name attributes)
    with assms(1) later [OF assms(2)] show ?thesis by (auto split: if_splits dest!: style intro: same [of _ st])
  next
    case (XText v)
    with assms(1) later [OF assms(2)] show ?thesis by (auto split: if_splits option.splits intro: same [of _ st])
  next
    case (XEnd name)
    let ?s = "st\<lparr>wm_open_elements := wm_open_elements st - Suc 0\<rparr>"
    have inv: "wordml_inv p ?s" using assms(2) by (simp add: wordml_inv_def)
    have close: "wordml_inv b s' \<and> wm_open_elements s' = wm_open_elements ?s"
      if "close_paragraph stream q b ?s = Inr s'" "wm_paragraph_start st = Some q" for q s'
      using that(1) by (rule close_paragraph_inv [OF _ inv]) (use assms that(2) in \<open>auto simp: wordml_inv_def\<close>)
    from assms(1) later [OF assms(2)] show ?thesis
      by (auto simp: XEnd Let_def split: if_splits option.splits bool.splits dest!: close intro: same [of _ st])
  next
    case XOther
    with assms(1) later [OF assms(2)] show ?thesis by auto
  next
    case (XError n)
    with assms(1) show ?thesis by simp
  qed
qed

lemma element_depth_Cons: "element_depth n [x] = Some m \<Longrightarrow> element_depth n (x # xs) = element_depth m xs"
  by (cases x) (auto split: xml_event.splits if_splits)

lemma wordml_loop_inv:
  assumes "wordml_loop stream eof xs st = Inr blocks" "wordml_inv p st" "positions_from p xs"
  shows "list_all block_ok blocks \<and> sorted_wrt (\<lambda>x y. ss_end (span_of x) \<le> ss_start (span_of y)) blocks \<and>
    element_depth (wm_open_elements st) xs = Some 0 \<and> (\<forall>a b n. (a, b, XError n) \<notin> set xs)"
  using assms
proof (induction xs arbitrary: st p)
  case Nil
  then show ?case by (simp add: wordml_inv_def split: if_splits)
next
  case (Cons x xs)
  obtain a b e where x: "x = (a, b, e)" by (cases x) auto
  from Cons.prems(1) obtain st' where st': "wordml_step stream x st = Inr st'" "wordml_loop stream eof xs st' = Inr blocks"
    by (auto split: sum.splits)
  from wordml_step_inv [OF st'(1) [unfolded x] Cons.prems(2)] Cons.prems(3)
  have step: "wordml_inv b st'" "element_depth (wm_open_elements st) [(a, b, e)] = Some (wm_open_elements st')"
    "\<nexists>n. e = XError n" by (auto simp: x)
  have "element_depth (wm_open_elements st) (x # xs) = element_depth (wm_open_elements st') xs"
    unfolding x using step(2) by (rule element_depth_Cons)
  with Cons.IH [OF st'(2) step(1)] Cons.prems(3) step(3) show ?case by (auto simp: x)
qed

section \<open>The paragraphs of a stream\<close>

text \<open>
  What a document says is stated on its events by position, without the flags of the loop: what holds at an event is what
  the last event before it that has a say has said.
\<close>

definition event_at :: "xml_step list \<Rightarrow> nat \<Rightarrow> xml_event" where
  "event_at xs k = snd (snd (xs ! k))"

definition starts_tag :: "string \<Rightarrow> xml_step list \<Rightarrow> nat \<Rightarrow> bool" where
  "starts_tag name xs k = (case event_at xs k of XStart n _ \<Rightarrow> n = name | _ \<Rightarrow> False)"

definition ends_tag :: "string \<Rightarrow> xml_step list \<Rightarrow> nat \<Rightarrow> bool" where
  "ends_tag name xs k = (case event_at xs k of XEnd n \<Rightarrow> n = name | _ \<Rightarrow> False)"

definition latest :: "(nat \<Rightarrow> bool) \<Rightarrow> nat \<Rightarrow> nat option" where
  "latest P n = find P (rev [0..<n])"

definition opened_by :: "(nat \<Rightarrow> bool) \<Rightarrow> (nat \<Rightarrow> bool) \<Rightarrow> nat \<Rightarrow> nat option" where
  "opened_by opens closes n = (case latest (\<lambda>k. opens k \<or> closes k) n of Some k \<Rightarrow> if opens k then Some k else None | None \<Rightarrow> None)"

definition open_bindata :: "xml_step list \<Rightarrow> nat \<Rightarrow> nat option" where
  "open_bindata xs = opened_by (starts_tag ''binData'' xs) (ends_tag ''binData'' xs)"

definition open_paragraph :: "xml_step list \<Rightarrow> nat \<Rightarrow> nat option" where
  "open_paragraph xs = opened_by (starts_tag ''p'' xs) (ends_tag ''p'' xs)"

text \<open>A text run opens inside a paragraph and outside binary data.\<close>

definition open_run :: "xml_step list \<Rightarrow> nat \<Rightarrow> nat option" where
  "open_run xs = opened_by (\<lambda>k. starts_tag ''t'' xs k \<and> open_paragraph xs k \<noteq> None \<and> open_bindata xs k = None) (ends_tag ''t'' xs)"

definition text_piece :: "xml_step list \<Rightarrow> nat \<Rightarrow> string" where
  "text_piece xs k = (case event_at xs k of
     XText (Some v) \<Rightarrow> if open_run xs k \<noteq> None \<and> open_bindata xs k = None then v else [] | _ \<Rightarrow> [])"

definition style_element :: "xml_step list \<Rightarrow> nat \<Rightarrow> xml_attribute option list option" where
  "style_element xs k = (case event_at xs k of
     XStart n as \<Rightarrow> if n = ''pStyle'' then Some as else None
   | XEmpty n as \<Rightarrow> if n = ''pStyle'' then Some as else None | _ \<Rightarrow> None)"

definition style_value :: "xml_attribute option list \<Rightarrow> string option" where
  "style_value as = Option.bind (find (\<lambda>a. is_val_key (xa_key a)) (List.map_filter id as)) xa_value"

definition paragraph_text :: "xml_step list \<Rightarrow> nat \<Rightarrow> nat \<Rightarrow> string" where
  "paragraph_text xs i j = concat (map (text_piece xs) [Suc i..<j])"

definition paragraph_style_id :: "xml_step list \<Rightarrow> nat \<Rightarrow> nat \<Rightarrow> string option" where
  "paragraph_style_id xs i j =
     (case find (\<lambda>k. style_element xs k \<noteq> None) (rev [Suc i..<j]) of
        None \<Rightarrow> None | Some k \<Rightarrow> Option.bind (style_element xs k) style_value)"

text \<open>The paragraphs, by their first and last event, up to event \<open>n\<close>; and the block that a paragraph stands for.\<close>

definition paragraphs :: "xml_step list \<Rightarrow> nat \<Rightarrow> (nat \<times> nat) list" where
  "paragraphs xs n = List.map_filter (\<lambda>j. if ends_tag ''p'' xs j then map_option (\<lambda>i. (i, j)) (open_paragraph xs j) else None) [0..<n]"

definition paragraph_block :: "xml_step list \<Rightarrow> nat \<times> nat \<Rightarrow> parsed_block" where
  "paragraph_block xs ij = (case ij of (i, j) \<Rightarrow>
     \<lparr>pb_text = paragraph_text xs i j, pb_provider_style_id = paragraph_style_id xs i j,
      pb_style = map_paragraph_style (paragraph_style_id xs i j),
      pb_location = \<lparr>sl_stream = ''artifact:whole'', sl_span = SourceSpan (fst (xs ! i)) (fst (snd (xs ! j)))\<rparr>,
      pb_format = ConsultantWordMl\<rparr>)"

definition document_blocks :: "xml_step list \<Rightarrow> nat \<Rightarrow> parsed_block list" where
  "document_blocks xs n =
     map (paragraph_block xs) (filter (\<lambda>(i, j). str_trim (paragraph_text xs i j) \<noteq> []) (paragraphs xs n))"

lemma latest_Suc: "latest P (Suc n) = (if P n then Some n else latest P n)"
  by (simp add: latest_def)

lemma opened_by_0: "opened_by opens closes 0 = None"
  by (simp add: opened_by_def latest_def)

lemma opened_by_Suc:
  "opened_by opens closes (Suc n) = (if opens n then Some n else if closes n then None else opened_by opens closes n)"
  by (simp add: opened_by_def latest_Suc)

lemma opened_by_less: "opened_by opens closes n = Some i \<Longrightarrow> i < n"
  by (induction n) (auto simp: opened_by_0 opened_by_Suc split: if_splits)

lemma paragraph_text_Suc:
  "i < n \<Longrightarrow> paragraph_text xs i (Suc n) = paragraph_text xs i n @ text_piece xs n" "paragraph_text xs n (Suc n) = []"
  by (simp_all add: paragraph_text_def)

lemma paragraph_style_Suc:
  "i < n \<Longrightarrow> paragraph_style_id xs i (Suc n) =
     (case style_element xs n of None \<Rightarrow> paragraph_style_id xs i n | Some as \<Rightarrow> style_value as)"
  "paragraph_style_id xs n (Suc n) = None"
  by (auto simp: paragraph_style_id_def split: option.split)

lemma document_blocks_0: "document_blocks xs 0 = []"
  by (simp add: document_blocks_def paragraphs_def List.map_filter_def)

lemma document_blocks_Suc:
  "document_blocks xs (Suc n) = document_blocks xs n @
     (if ends_tag ''p'' xs n
      then (case open_paragraph xs n of
          None \<Rightarrow> [] | Some i \<Rightarrow> if str_trim (paragraph_text xs i n) \<noteq> [] then [paragraph_block xs (i, n)] else [])
      else [])"
  by (auto simp: document_blocks_def paragraphs_def List.map_filter_def split: option.split)

lemma style_id_of_value: "style_id_of offset as = Inr s \<Longrightarrow> s = style_value as"
proof (induction offset as rule: style_id_of.induct)
  case (2 offset a as)
  then show ?case by (cases a) (auto simp: style_value_def List.map_filter_def split: if_splits option.splits)
qed (simp add: style_value_def List.map_filter_def)

text \<open>The flags of the loop are what the events in front say.\<close>

definition reads :: "xml_step list \<Rightarrow> nat \<Rightarrow> wordml_state \<Rightarrow> bool" where
  "reads xs n st =
     ((wm_in_bindata st \<longleftrightarrow> open_bindata xs n \<noteq> None) \<and> (wm_in_text st \<longleftrightarrow> open_run xs n \<noteq> None) \<and>
      (case open_paragraph xs n of
         None \<Rightarrow> wm_paragraph_start st = None
       | Some i \<Rightarrow> wm_paragraph_start st = Some (fst (xs ! i)) \<and> wm_text st = paragraph_text xs i n \<and>
           wm_style_id st = paragraph_style_id xs i n) \<and>
      wm_blocks st = document_blocks xs n)"

lemma open_Suc:
  "open_bindata xs (Suc n) = (if starts_tag ''binData'' xs n then Some n else if ends_tag ''binData'' xs n then None else open_bindata xs n)"
  "open_paragraph xs (Suc n) = (if starts_tag ''p'' xs n then Some n else if ends_tag ''p'' xs n then None else open_paragraph xs n)"
  "open_run xs (Suc n) = (if starts_tag ''t'' xs n \<and> open_paragraph xs n \<noteq> None \<and> open_bindata xs n = None then Some n
     else if ends_tag ''t'' xs n then None else open_run xs n)"
  by (simp_all only: open_bindata_def open_paragraph_def open_run_def opened_by_Suc)

lemma set_style_reads: "set_style offset as st = Inr st' \<Longrightarrow> st' = st\<lparr>wm_style_id := style_value as\<rparr>"
  using style_id_of_value [of offset as] by (auto simp: set_style_def split: sum.splits)

lemma close_paragraph_reads:
  assumes "close_paragraph ''artifact:whole'' (fst (xs ! i)) (fst (snd (xs ! n))) st = Inr st'"
    "wm_text st = paragraph_text xs i n" "wm_style_id st = paragraph_style_id xs i n"
  shows "wm_paragraph_start st' = None \<and> wm_in_bindata st' = wm_in_bindata st \<and> wm_in_text st' = wm_in_text st \<and>
    wm_blocks st' = wm_blocks st @ (if str_trim (paragraph_text xs i n) \<noteq> [] then [paragraph_block xs (i, n)] else [])"
  using assms
  by (auto simp: close_paragraph_def source_span_try_new_def parsed_block_try_new_def paragraph_block_def split: if_splits)

lemma wordml_step_reads:
  assumes "wordml_step ''artifact:whole'' (xs ! n) st = Inr st'" "reads xs n st"
  shows "reads xs (Suc n) st'"
proof -
  obtain a b e where x: "xs ! n = (a, b, e)" by (cases "xs ! n") auto
  note r = assms(2) [unfolded reads_def] and step = assms(1) [unfolded x]
  have less: "open_paragraph xs n = Some i \<Longrightarrow> i < n" for i by (simp add: open_paragraph_def opened_by_less)
  note next_event = open_Suc document_blocks_Suc paragraph_text_Suc paragraph_style_Suc
  note event = starts_tag_def ends_tag_def event_at_def text_piece_def style_element_def x
  show ?thesis
  proof (cases e)
    case (XStart name as)
    have ev: "\<And>m. starts_tag m xs n = (name = m)" "\<And>m. ends_tag m xs n = False" "text_piece xs n = []"
      "style_element xs n = (if name = ''pStyle'' then Some as else None)" by (auto simp: event XStart)
    consider "name = ''binData''" | "name = ''p''" | "name = ''t''" | "name = ''pStyle''"
      | "name \<noteq> ''binData''" "name \<noteq> ''p''" "name \<noteq> ''t''" "name \<noteq> ''pStyle''" by blast
    then show ?thesis
    proof cases
      case 4
      then show ?thesis using step r less
        by (cases "open_paragraph xs n") (auto simp: reads_def ev XStart next_event Let_def dest!: set_style_reads)
    qed (use step r less in \<open>cases "open_paragraph xs n"; auto simp: reads_def ev XStart next_event Let_def x split: if_splits\<close>)+
  next
    case (XEmpty name as)
    have ev: "\<And>m. starts_tag m xs n = False" "\<And>m. ends_tag m xs n = False" "text_piece xs n = []"
      "style_element xs n = (if name = ''pStyle'' then Some as else None)" by (auto simp: event XEmpty)
    show ?thesis using step r less
      by (cases "open_paragraph xs n"; cases "name = ''pStyle''") (auto simp: reads_def ev XEmpty next_event dest!: set_style_reads)
  next
    case (XText v)
    have ev: "\<And>m. starts_tag m xs n = False" "\<And>m. ends_tag m xs n = False" "style_element xs n = None" by (simp_all add: event XText)
    have piece: "text_piece xs n = (case v of None \<Rightarrow> [] | Some w \<Rightarrow> if open_run xs n \<noteq> None \<and> open_bindata xs n = None then w else [])"
      by (simp add: event XText split: option.split)
    show ?thesis using step r less
      by (cases "open_paragraph xs n"; cases v) (auto simp: reads_def ev piece XText next_event split: if_splits)
  next
    case (XEnd name)
    have ev: "\<And>m. starts_tag m xs n = False" "\<And>m. ends_tag m xs n = (name = m)" "text_piece xs n = []" "style_element xs n = None"
      by (auto simp: event XEnd)
    let ?s = "st\<lparr>wm_open_elements := wm_open_elements st - Suc 0\<rparr>"
    show ?thesis
    proof (cases "name = ''p'' \<and> open_paragraph xs n \<noteq> None")
      case True
      then obtain i where i: "open_paragraph xs n = Some i" by auto
      have close: "close_paragraph ''artifact:whole'' (fst (xs ! i)) (fst (snd (xs ! n))) ?s = Inr st'"
        using step r True i XEnd by (simp add: x Let_def split: if_splits)
      have "wm_text ?s = paragraph_text xs i n" "wm_style_id ?s = paragraph_style_id xs i n" using r i by simp_all
      from close_paragraph_reads [OF close this] r i True show ?thesis by (simp add: reads_def ev next_event)
    next
      case False
      consider "name = ''binData''" | "name = ''t''" | "name = ''p''" "open_paragraph xs n = None"
        | "name \<noteq> ''binData''" "name \<noteq> ''p''" "name \<noteq> ''t''" using False by blast
      then show ?thesis
        by cases (use step r less in \<open>cases "open_paragraph xs n"; auto simp: reads_def ev XEnd next_event Let_def split: if_splits\<close>)+
    qed
  next
    case XOther
    have ev: "\<And>m. starts_tag m xs n = False" "\<And>m. ends_tag m xs n = False" "text_piece xs n = []" "style_element xs n = None"
      by (simp_all add: event XOther)
    show ?thesis using step r less by (cases "open_paragraph xs n") (simp_all add: reads_def ev XOther next_event)
  next
    case (XError n)
    with step show ?thesis by simp
  qed
qed

lemma wordml_loop_reads:
  "wordml_loop ''artifact:whole'' eof (drop n xs) st = Inr blocks \<Longrightarrow> reads xs n st \<Longrightarrow> n \<le> length xs \<Longrightarrow>
   blocks = document_blocks xs (length xs)"
proof (induction "length xs - n" arbitrary: n st)
  case 0
  then show ?case by (simp add: reads_def split: if_splits)
next
  case (Suc k)
  then have "n < length xs" by simp
  then have drop: "drop n xs = xs ! n # drop (Suc n) xs" by (rule Cons_nth_drop_Suc [symmetric])
  from Suc.prems(1) obtain st' where "wordml_step ''artifact:whole'' (xs ! n) st = Inr st'"
    "wordml_loop ''artifact:whole'' eof (drop (Suc n) xs) st' = Inr blocks" unfolding drop by (auto split: sum.splits)
  with Suc.hyps(1) [of "Suc n" st'] Suc.hyps(2) Suc.prems(2) wordml_step_reads show ?case by simp
qed

lemma reads_start: "reads xs 0 wordml_start"
  by (simp add: reads_def wordml_start_def open_bindata_def open_paragraph_def open_run_def opened_by_0 document_blocks_0)

text \<open>C15. A document is decoded to blocks only when the whole stream was read: no reader error, every element closed, none closed
  twice. The blocks are then exactly those of the paragraphs whose text is not blank, in the order of the stream: a paragraph
  goes from the last opening tag to its closing tag, its text is that of the text runs in it outside binary data, its style
  that of its last style element, its range that of its two tags. The ranges are not empty and do not overlap, no style
  identifier is blank, and the style is the one of the table for the identifier.\<close>
theorem wordml_blocks_sound:
  assumes "consultant_decode_blocks events request = Some (Inr blocks)"
    and "positions_from 0 (fst (events (dr_bytes request)))"
  shows "dr_family_format request = ''family:consultant-wordml'' \<and>
    element_depth 0 (fst (events (dr_bytes request))) = Some 0 \<and>
    (\<forall>a b n. (a, b, XError n) \<notin> set (fst (events (dr_bytes request)))) \<and>
    blocks = document_blocks (fst (events (dr_bytes request))) (length (fst (events (dr_bytes request)))) \<and>
    (\<forall>x\<in>set blocks. block_ok x) \<and> sorted_wrt (\<lambda>x y. ss_end (span_of x) \<le> ss_start (span_of y)) blocks"
proof -
  obtain xs eof where e: "events (dr_bytes request) = (xs, eof)" by (cases "events (dr_bytes request)")
  from assms(1) e have fam: "dr_family_format request = ''family:consultant-wordml''"
    and loop: "wordml_loop ''artifact:whole'' eof xs wordml_start = Inr blocks"
    unfolding consultant_decode_blocks_def static_ids by (auto split: if_splits)
  have "wordml_inv 0 wordml_start" by (simp add: wordml_inv_def wordml_start_def)
  moreover have "blocks = document_blocks xs (length xs)"
    using wordml_loop_reads [of eof 0 xs wordml_start blocks] loop reads_start by simp
  ultimately show ?thesis using wordml_loop_inv [OF loop] assms(2) fam
    by (simp add: e wordml_start_def list_all_iff)
qed

definition sample_events :: "string \<Rightarrow> xml_step list \<times> nat" where
  "sample_events bytes =
     ([(0, 3, XStart ''p'' []), (3, 9, XEmpty ''pStyle'' [Some \<lparr>xa_key = ''w:val'', xa_value = Some ''2'', xa_lossy = ''2''\<rparr>]),
       (9, 12, XStart ''t'' []), (12, 16, XText (Some ''Text'')), (16, 20, XEnd ''t''), (20, 24, XEnd ''p'')], 24)"

definition sample_block :: parsed_block where
  "sample_block = \<lparr>pb_text = ''Text'', pb_provider_style_id = Some ''2'', pb_style = PsTitle,
     pb_location = \<lparr>sl_stream = ''artifact:whole'', sl_span = SourceSpan 0 24\<rparr>, pb_format = ConsultantWordMl\<rparr>"

lemma sample_blocks: "consultant_decode_blocks sample_events sample_request = Some (Inr [sample_block])"
  by code_simp

lemma wordml_blocks_sound_witness:
  "element_depth 0 (fst (sample_events ''bytes'')) = Some 0 \<and> block_ok sample_block \<and>
   document_blocks (fst (sample_events ''bytes'')) 6 = [sample_block]"
proof -
  have "length (fst (sample_events ''bytes'')) = 6" by code_simp
  moreover
  have "positions_from 0 (fst (sample_events (dr_bytes sample_request)))" by code_simp
  note wordml_blocks_sound [OF sample_blocks this]
  ultimately show ?thesis by (simp add: sample_request_def decode_request_new_def)
qed

section \<open>The streaming decoder and the policy\<close>

lemma stream_emission_acceptable:
  assumes "n < u64_limit"
  shows "\<exists>e. stream_emission n content = Some e \<and> acceptable e \<and> de_candidate_id e = Some (''cand:'' @ show_nat n)"
proof -
  have "valid_id MAX_ID_LEN (''cand:'' @ show_nat n)" "valid_id MAX_ID_LEN (''anchor:'' @ show_nat n)"
    by (rule valid_id_counter [OF assms]; code_simp)+
  then show ?thesis
    by (simp add: stream_emission_def candidate_id_parse_def anchor_id_parse_def decode_id_parse_def parse_id_valid ok_id_def
        acceptable_def)
qed

definition stream_inv :: "stream_state \<Rightarrow> bool" where
  "stream_inv st = (list_all acceptable (sm_emissions st) \<and>
     map de_candidate_id (sm_emissions st) = map (\<lambda>n. Some (''cand:'' @ show_nat n)) [1..<Suc (sm_para_count st)])"

lemma stream_step_inv:
  assumes "stream_inv st" "sm_para_count st + 1 < u64_limit"
  shows "\<exists>st'. stream_step x st = Some st' \<and> stream_inv st' \<and> sm_para_count st' \<le> sm_para_count st + 1"
proof -
  obtain a b e where x: "x = (a, b, e)" by (cases x) auto
  have same: "stream_inv s" if "sm_emissions s = sm_emissions st" "sm_para_count s = sm_para_count st" for s
    using assms(1) that by (simp add: stream_inv_def)
  show ?thesis
  proof (cases e)
    case (XEnd name)
    obtain em where em: "stream_emission (sm_para_count st + 1) (sm_text st) = Some em" "acceptable em"
      "de_candidate_id em = Some (''cand:'' @ show_nat (sm_para_count st + 1))"
      using stream_emission_acceptable [OF assms(2)] by blast
    then have "stream_inv (st\<lparr>sm_in_paragraph := False, sm_para_count := sm_para_count st + 1,
        sm_emissions := sm_emissions st @ [em], sm_text := []\<rparr>)"
      using assms(1) by (simp add: stream_inv_def)
    with em(1) show ?thesis by (auto simp: x XEnd Let_def intro: same)
  qed (auto simp: x intro: same)
qed

lemma stream_loop_inv:
  assumes "stream_inv st" "sm_para_count st + length xs < u64_limit"
  shows "\<exists>es n. stream_loop xs st = Some es \<and> list_all acceptable es \<and>
    map de_candidate_id es = map (\<lambda>n. Some (''cand:'' @ show_nat n)) [1..<Suc n]"
  using assms
proof (induction xs arbitrary: st)
  case Nil
  then show ?case by (auto simp: stream_inv_def)
next
  case (Cons x xs)
  obtain a b e where x: "x = (a, b, e)" by (cases x) auto
  show ?case
  proof (cases "\<exists>n. e = XError n")
    case True
    with Cons.prems(1) show ?thesis by (auto simp: x stream_inv_def simp del: upt_Suc)
  next
    case False
    then have unfold: "stream_loop (x # xs) st = Option.bind (stream_step x st) (stream_loop xs)"
      by (cases e) (auto simp: x)
    obtain st' where "stream_step x st = Some st'" "stream_inv st'" "sm_para_count st' \<le> sm_para_count st + 1"
      using stream_step_inv [OF Cons.prems(1), of x] Cons.prems(2) by auto
    with Cons.IH [of st'] Cons.prems(2) show ?thesis by (simp add: unfold)
  qed
qed

text \<open>C33. The streaming decoder and the policy fit together: as long as the counter of paragraphs does not overflow, the decoder
  returns, its candidates are numbered from one without a gap, and the policy accepts every one of them.\<close>
theorem wordml_stream_accepted:
  assumes "length (events (dr_bytes request)) < u64_limit"
  shows "\<exists>es st' r. wordml_streaming_decode events request = Some es \<and>
    decode_execute dbg (\<lambda>_. es) port st request = Some (st', r) \<and> dz_rejected r = [] \<and>
    map st_candidate_id (dz_candidates r) = map (\<lambda>n. ''cand:'' @ show_nat n) [1..<Suc (length es)]"
proof -
  have "stream_inv stream_start" by (simp add: stream_inv_def stream_start_def)
  from stream_loop_inv [OF this, of "events (dr_bytes request)"] assms
  obtain es n where es: "stream_loop (events (dr_bytes request)) stream_start = Some es" "list_all acceptable es"
    "map de_candidate_id es = map (\<lambda>n. Some (''cand:'' @ show_nat n)) [1..<Suc n]"
    by (auto simp: stream_start_def)
  from arg_cong [OF es(3), of length] have n: "length es = n" by simp
  from es(2) have filter: "filter acceptable es = es" "filter (\<lambda>e. \<not> acceptable e) es = []"
    by (simp_all add: list_all_iff filter_id_conv filter_empty_conv)
  have "map (st_candidate_id \<circ> candidate_of) es = map the (map de_candidate_id es)"
    by (simp add: candidate_of_def)
  also have "\<dots> = map (\<lambda>n. ''cand:'' @ show_nat n) [1..<Suc (length es)]" unfolding es(3) n by simp
  finally show ?thesis using es(1) filter
    by (simp add: wordml_streaming_decode_def decode_execute_eq Let_def)
qed

lemma wordml_stream_accepted_witness:
  "\<exists>es. wordml_streaming_decode (\<lambda>b. fst (sample_events b)) sample_request = Some es \<and> length es = 1"
proof -
  have "length (fst (sample_events (dr_bytes sample_request))) < u64_limit" by (simp add: sample_events_def u64_limit_def)
  from wordml_stream_accepted [of "\<lambda>b. fst (sample_events b)", OF this, of "\<lambda>s. s" in_memory_sink "[]"]
  have "wordml_streaming_decode (\<lambda>b. fst (sample_events b)) sample_request \<noteq> None" by blast
  moreover have "map_option length (wordml_streaming_decode (\<lambda>b. fst (sample_events b)) sample_request) = Some 1" by code_simp
  ultimately show ?thesis by auto
qed

end
