(* ===== verification/LN_Lexer.thy ===== *)
theory LN_Lexer
  imports LN_Decode "HOL-Library.Multiset"
begin

text \<open>
  The covering lexer of decoded text, \<open>crates/ln-decode/src/lexer.rs\<close>, and the two word views built beside and on it,
  \<open>tokenizer.rs\<close>. Positions are byte offsets; a slice off a character boundary is the panic \<open>None\<close>. The lexicon of
  abbreviations comes from the embedded ontology text, which is an argument.
\<close>

section \<open>Tokens\<close>

datatype token_kind = TWord | TAbbrev | THierNum | TDate | TDocNo | TEnumMarker | TLawCode | TPunct | TSpace

fun token_kind_as_str :: "token_kind \<Rightarrow> string" where
  "token_kind_as_str TWord = ''Word''"
| "token_kind_as_str TAbbrev = ''Abbrev''"
| "token_kind_as_str THierNum = ''HierNum''"
| "token_kind_as_str TDate = ''Date''"
| "token_kind_as_str TDocNo = ''DocNo''"
| "token_kind_as_str TEnumMarker = ''EnumMarker''"
| "token_kind_as_str TLawCode = ''LawCode''"
| "token_kind_as_str TPunct = ''Punct''"
| "token_kind_as_str TSpace = ''Space''"

record npa_token =
  nt_kind :: token_kind
  nt_span :: decoded_span
  nt_abbrev_id :: "string option"

definition nt_start :: "npa_token \<Rightarrow> nat" where
  "nt_start t = ds_start (nt_span t)"

definition nt_end :: "npa_token \<Rightarrow> nat" where
  "nt_end t = ds_end (nt_span t)"

definition lexeme :: "string \<Rightarrow> npa_token \<Rightarrow> string option" where
  "lexeme src t = str_get src (nt_start t) (nt_end t)"

text \<open>The Unicode tables that the lexer needs on top of those of the semantic modules.\<close>

record lex_unicode = unicode +
  uni_alphabetic :: "string \<Rightarrow> bool"

section \<open>The lexicon\<close>

definition NPA_ABBREV_IDS :: "string list" where
  "NPA_ABBREV_IDS =
     [''st'', ''stst'', ''ch'', ''p'', ''pp'', ''podp'', ''abz'', ''gl'', ''razd'', ''pril'', ''prim'', ''red'', ''izm'',
      ''utv'', ''sm'', ''sr'', ''g'']"

definition trim_matches :: "char \<Rightarrow> string \<Rightarrow> string" where
  "trim_matches c s = rev (dropWhile (\<lambda>x. x = c) (rev (dropWhile (\<lambda>x. x = c) s)))"

definition before_hash :: "string \<Rightarrow> string" where
  "before_hash raw = takeWhile (\<lambda>c. c \<noteq> CHR 0x23) raw"

text \<open>
  \<open>yaml_map_scalars\<close>: outside the map, \<open>None\<close> is the indent of the heading. The outer \<open>option\<close> is the panic on a line
  of the map without a colon, the inner one the missing heading.
\<close>

fun yaml_map_loop :: "string \<Rightarrow> nat option \<Rightarrow> (string \<times> string) list \<Rightarrow> string list \<Rightarrow>
    (string \<times> string) list option option" where
  "yaml_map_loop heading in_map entries [] = Some (if in_map = None then None else Some entries)"
| "yaml_map_loop heading in_map entries (raw # rest) =
     (let trimmed = str_trim (before_hash raw); indent = length raw - length (trim_start raw) in
      if trimmed = [] then yaml_map_loop heading in_map entries rest
      else case in_map of
        None \<Rightarrow> yaml_map_loop heading (if trimmed = heading then Some indent else None) entries rest
      | Some heading_indent \<Rightarrow>
          if indent \<le> heading_indent then Some (Some entries)
          else case split_once (CHR '':'') trimmed of
            None \<Rightarrow> None
          | Some (key, value) \<Rightarrow>
              yaml_map_loop heading in_map
                (entries @ [(str_trim key, trim_matches (CHR 0x27) (trim_matches (CHR 0x22) (str_trim value)))]) rest)"

definition yaml_map_scalars :: "string \<Rightarrow> string \<Rightarrow> (string \<times> string) list option option" where
  "yaml_map_scalars yaml heading = yaml_map_loop heading None [] (str_lines yaml)"

type_synonym abbrev_entry = "string \<times> string"

text \<open>The assertions of \<open>parse_abbrev_lexicon\<close>; \<open>seen\<close> are the ids so far.\<close>

fun lexicon_entries :: "string list \<Rightarrow> abbrev_entry list \<Rightarrow> (string \<times> string) list \<Rightarrow> (string list \<times> abbrev_entry list) option" where
  "lexicon_entries seen table [] = Some (seen, table)"
| "lexicon_entries seen table ((i, word) # rest) =
     (if i \<in> set seen then None
      else if i \<notin> set NPA_ABBREV_IDS then None
      else if word = [] then None
      else lexicon_entries (seen @ [i]) (table @ [(i, word)]) rest)"

definition parse_abbrev_lexicon :: "string \<Rightarrow> abbrev_entry list option" where
  "parse_abbrev_lexicon yaml =
     (case yaml_map_scalars yaml ''npa_abbrev_lexicon:'' of
        Some (Some entries) \<Rightarrow>
          if entries = [] then None
          else (case lexicon_entries [] [] entries of
            None \<Rightarrow> None
          | Some (seen, table) \<Rightarrow> if list_all (\<lambda>i. i \<in> set seen) NPA_ABBREV_IDS then Some table else None)
      | _ \<Rightarrow> None)"

text \<open>Longest lexeme first, in the order of the file among equals; the sort is stable.\<close>

definition sort_longest :: "('a \<Rightarrow> nat) \<Rightarrow> 'a list \<Rightarrow> 'a list" where
  "sort_longest f xs = sort_key (\<lambda>x. - int (f x)) xs"

definition abbrev_lexicon :: "string \<Rightarrow> abbrev_entry list option" where
  "abbrev_lexicon yaml = map_option (sort_longest (\<lambda>e. length (snd e))) (parse_abbrev_lexicon yaml)"

section \<open>Scanners\<close>

definition byte_at :: "string \<Rightarrow> nat \<Rightarrow> char option" where
  "byte_at s i = (if i < length s then Some (s ! i) else None)"

definition is_digit_byte :: "char \<Rightarrow> bool" where
  "is_digit_byte c = (CHR ''0'' \<le> c \<and> c \<le> CHR ''9'')"

definition digit_at :: "string \<Rightarrow> nat \<Rightarrow> bool" where
  "digit_at s i = (i < length s \<and> is_digit_byte (s ! i))"

definition rest_from :: "string \<Rightarrow> nat \<Rightarrow> string option" where
  "rest_from s i = str_get s i (length s)"

definition run_length :: "(string \<Rightarrow> bool) \<Rightarrow> string list \<Rightarrow> nat" where
  "run_length P cs = length (concat (takeWhile P cs))"

definition scan_while :: "string \<Rightarrow> nat \<Rightarrow> (string \<Rightarrow> bool) \<Rightarrow> nat option" where
  "scan_while s start P = map_option (\<lambda>r. start + run_length P (str_chars r)) (rest_from s start)"

definition fold_eq :: "lex_unicode \<Rightarrow> string \<Rightarrow> string \<Rightarrow> bool" where
  "fold_eq u a b = (uni_lower u a = uni_lower u b)"

definition lexeme_matches :: "lex_unicode \<Rightarrow> string \<Rightarrow> nat \<Rightarrow> string \<Rightarrow> bool option" where
  "lexeme_matches u s start word =
     (if length (filter (uni_alphabetic u) (str_chars word)) < 2
      then map_option (starts_with word) (rest_from s start)
      else let e = start + length word in
        if e > length s \<or> \<not> is_char_boundary s e then Some False
        else map_option (\<lambda>t. list_all2 (fold_eq u) (str_chars t) (str_chars word)) (str_get s start e))"

fun find_abbrev :: "lex_unicode \<Rightarrow> string \<Rightarrow> nat \<Rightarrow> abbrev_entry list \<Rightarrow> (nat \<times> string) option option" where
  "find_abbrev u s start [] = Some None"
| "find_abbrev u s start ((i, word) # es) =
     Option.bind (lexeme_matches u s start word) (\<lambda>m.
       if m then Some (Some (start + length word, i)) else find_abbrev u s start es)"

definition scan_abbrev :: "lex_unicode \<Rightarrow> abbrev_entry list option \<Rightarrow> string \<Rightarrow> nat \<Rightarrow> (nat \<times> string) option option" where
  "scan_abbrev u lexicon s start =
     Option.bind (str_get s 0 start) (\<lambda>before.
       if (case last_char before of None \<Rightarrow> False | Some prev \<Rightarrow> uni_alphabetic u prev) then Some None
       else Option.bind lexicon (find_abbrev u s start))"

definition digit_value :: "char \<Rightarrow> nat" where
  "digit_value c = of_char c - 48"

definition scan_date :: "string \<Rightarrow> nat \<Rightarrow> nat option" where
  "scan_date s start =
     (if start + 10 > length s then None
      else if \<not> (digit_at s start \<and> digit_at s (start + 1) \<and> s ! (start + 2) = CHR ''.'' \<and>
        digit_at s (start + 3) \<and> digit_at s (start + 4) \<and> s ! (start + 5) = CHR ''.'' \<and>
        digit_at s (start + 6) \<and> digit_at s (start + 7) \<and> digit_at s (start + 8) \<and> digit_at s (start + 9))
      then None
      else let day = digit_value (s ! start) * 10 + digit_value (s ! (start + 1));
               month = digit_value (s ! (start + 3)) * 10 + digit_value (s ! (start + 4))
        in if 1 \<le> day \<and> day \<le> 31 \<and> 1 \<le> month \<and> month \<le> 12 then Some (start + 10) else None)"

text \<open>The first position from \<open>pos\<close> on that holds no digit.\<close>

definition skip_digits :: "string \<Rightarrow> nat \<Rightarrow> nat" where
  "skip_digits s pos = pos + length (takeWhile is_digit_byte (drop pos s))"

lemma skip_digits_bounds: "pos \<le> skip_digits s pos" "pos \<le> length s \<Longrightarrow> skip_digits s pos \<le> length s"
  using length_takeWhile_le [of is_digit_byte "drop pos s"] by (simp_all add: skip_digits_def)

function hier_loop :: "string \<Rightarrow> nat \<Rightarrow> nat option \<Rightarrow> nat option" where
  "hier_loop s pos e =
     (if byte_at s pos \<noteq> Some (CHR ''.'') then e
      else if \<not> digit_at s (pos + 1) then e
      else let pos = skip_digits s (pos + 2) in hier_loop s pos (Some pos))"
  by pat_completeness auto
termination
proof (relation "measure (\<lambda>(s, pos, e). length s - pos)")
  fix s :: string and pos x and e :: "nat option"
  assume a: "\<not> byte_at s pos \<noteq> Some (CHR ''.'')" and x: "x = skip_digits s (pos + 2)"
  have "pos + 2 \<le> x" unfolding x by (rule skip_digits_bounds(1))
  moreover have "pos < length s" using a by (simp add: byte_at_def split: if_splits)
  ultimately show "((s, x, Some x), s, pos, e) \<in> measure (\<lambda>(s, pos, e). length s - pos)" by simp
qed simp

declare hier_loop.simps [simp del]

definition scan_hier_num :: "string \<Rightarrow> nat \<Rightarrow> nat option" where
  "scan_hier_num s start =
     (let pos = skip_digits s start in if pos = start then None else hier_loop s pos None)"

definition cyr_FZ :: string where
  "cyr_FZ = utf8 [0x424, 0x417]"

definition cyr_FKZ :: string where
  "cyr_FKZ = utf8 [0x424, 0x41A, 0x417]"

fun doc_no_suffix :: "lex_unicode \<Rightarrow> string \<Rightarrow> nat \<Rightarrow> string list \<Rightarrow> nat option option" where
  "doc_no_suffix u s after [] = Some None"
| "doc_no_suffix u s after (suffix # others) =
     Option.bind (rest_from s after) (\<lambda>r.
       if starts_with suffix r
       then Option.bind (rest_from s (after + length suffix)) (\<lambda>r.
         if (case first_char r of None \<Rightarrow> False | Some c \<Rightarrow> uni_alphabetic u c) then doc_no_suffix u s after others
         else Some (Some (after + length suffix)))
       else doc_no_suffix u s after others)"

definition scan_doc_no :: "lex_unicode \<Rightarrow> string \<Rightarrow> nat \<Rightarrow> nat option option" where
  "scan_doc_no u s start =
     (let pos = skip_digits s start in
      if pos = start \<or> byte_at s pos \<noteq> Some (CHR ''-'') then Some None
      else doc_no_suffix u s (pos + 1) [cyr_FZ, cyr_FKZ])"

definition scan_enum_marker_digits :: "string \<Rightarrow> nat \<Rightarrow> nat option" where
  "scan_enum_marker_digits s start =
     (if start \<noteq> 0 then None
      else let pos = skip_digits s start in
        if pos = start then None
        else if byte_at s pos \<in> {Some (CHR ''.''), Some (CHR '')'')} then Some (pos + 1) else None)"

text \<open>The lowercase letters of the Russian alphabet.\<close>

definition is_lower_cyrillic :: "string \<Rightarrow> bool" where
  "is_lower_cyrillic c = (c \<in> utf8_of ` {0x430..0x44F} \<or> c = utf8_of 0x451)"

definition scan_enum_marker_letter :: "string \<Rightarrow> nat \<Rightarrow> nat option" where
  "scan_enum_marker_letter s start =
     (if start \<noteq> 0 then None
      else case first_char s of
        None \<Rightarrow> None
      | Some letter \<Rightarrow>
          if \<not> is_lower_cyrillic letter then None
          else if byte_at s (start + length letter) = Some (CHR '')'') then Some (start + length letter + 1) else None)"

definition is_law_code :: "string \<Rightarrow> bool" where
  "is_law_code run = (run = cyr_FZ \<or> run = cyr_FKZ)"

definition quoted_enum_letter_end :: "string \<Rightarrow> nat \<Rightarrow> nat option option" where
  "quoted_enum_letter_end s start =
     (if byte_at s start \<noteq> Some (CHR 0x22) then Some None
      else Option.bind (rest_from s (start + 1)) (\<lambda>r.
        case first_char r of
          None \<Rightarrow> Some None
        | Some letter \<Rightarrow>
            Some (if \<not> is_lower_cyrillic letter then None
              else if byte_at s (start + 1 + length letter) = Some (CHR 0x22) then Some (start + 1 + length letter)
              else None)))"

section \<open>The lexer\<close>

text \<open>One token from a position: its kind, the id of an abbreviation, where it ends.\<close>

definition is_punct_char :: "lex_unicode \<Rightarrow> string \<Rightarrow> bool" where
  "is_punct_char u c = (\<not> is_whitespace c \<and> \<not> uni_alphabetic u c \<and> \<not> is_ascii_digit_char c)"

definition lex_letters :: "lex_unicode \<Rightarrow> abbrev_entry list option \<Rightarrow> string \<Rightarrow> nat \<Rightarrow> (token_kind \<times> string option \<times> nat) option" where
  "lex_letters u lexicon s pos =
     Option.bind (scan_abbrev u lexicon s pos) (\<lambda>abbrev.
       case abbrev of
         Some (e, i) \<Rightarrow> Some (TAbbrev, Some i, e)
       | None \<Rightarrow>
           (case scan_enum_marker_letter s pos of
              Some e \<Rightarrow> Some (TEnumMarker, None, e)
            | None \<Rightarrow>
                Option.bind (scan_while s pos (uni_alphabetic u)) (\<lambda>e.
                  map_option (\<lambda>run. (if is_law_code run then TLawCode else TWord, None, e)) (str_get s pos e))))"

definition lex_digits :: "lex_unicode \<Rightarrow> string \<Rightarrow> nat \<Rightarrow> (token_kind \<times> string option \<times> nat) option" where
  "lex_digits u s pos =
     (case scan_date s pos of
        Some e \<Rightarrow> Some (TDate, None, e)
      | None \<Rightarrow>
          (case scan_hier_num s pos of
             Some e \<Rightarrow> Some (THierNum, None, e)
           | None \<Rightarrow>
               Option.bind (scan_doc_no u s pos) (\<lambda>doc_no.
                 case doc_no of
                   Some e \<Rightarrow> Some (TDocNo, None, e)
                 | None \<Rightarrow>
                     (case scan_enum_marker_digits s pos of
                        Some e \<Rightarrow> Some (TEnumMarker, None, e)
                      | None \<Rightarrow> map_option (\<lambda>e. (TWord, None, e)) (scan_while s pos is_ascii_digit_char)))))"

definition lex_one :: "lex_unicode \<Rightarrow> abbrev_entry list option \<Rightarrow> string \<Rightarrow> nat \<Rightarrow> string \<Rightarrow>
    (token_kind \<times> string option \<times> nat) option" where
  "lex_one u lexicon s pos ch =
     (if is_whitespace ch then map_option (\<lambda>e. (TSpace, None, e)) (scan_while s pos is_whitespace)
      else if uni_alphabetic u ch then lex_letters u lexicon s pos
      else if is_ascii_digit_char ch then lex_digits u s pos
      else map_option (\<lambda>e. (TPunct, None, e)) (scan_while s pos (is_punct_char u)))"

definition make_token :: "token_kind \<Rightarrow> string option \<Rightarrow> nat \<Rightarrow> nat \<Rightarrow> npa_token option" where
  "make_token kind i a b =
     map_option (\<lambda>span. \<lparr>nt_kind = kind, nt_span = span, nt_abbrev_id = i\<rparr>) (expect (decoded_span_try_new a b))"

text \<open>The tokens of one turn of the loop: two for a quoted letter, one otherwise.\<close>

definition lex_turn :: "lex_unicode \<Rightarrow> abbrev_entry list option \<Rightarrow> string \<Rightarrow> nat \<Rightarrow> string \<Rightarrow> npa_token list option" where
  "lex_turn u lexicon s pos ch =
     Option.bind (if ch = [CHR 0x22] then quoted_enum_letter_end s pos else Some None) (\<lambda>quoted.
       case quoted of
         Some letter_end \<Rightarrow>
           Option.bind (make_token TPunct None pos (pos + 1)) (\<lambda>q.
             map_option (\<lambda>l. [q, l]) (make_token TEnumMarker None (pos + 1) letter_end))
       | None \<Rightarrow>
           Option.bind (lex_one u lexicon s pos ch) (\<lambda>(kind, i, e).
             map_option (\<lambda>t. [t]) (make_token kind i pos e)))"

text \<open>Each turn ends at the end of its last token, which lies behind its start, so the loop ends.\<close>

definition turn_end :: "npa_token list \<Rightarrow> nat" where
  "turn_end ts = nt_end (last ts)"

lemma lex_turn_advances: "lex_turn u lexicon s pos ch = Some ts \<Longrightarrow> ts \<noteq> [] \<and> pos < turn_end ts"
  by (auto simp: lex_turn_def make_token_def turn_end_def nt_end_def Option.bind_eq_Some_conv split: option.splits)

function lex_loop :: "lex_unicode \<Rightarrow> abbrev_entry list option \<Rightarrow> string \<Rightarrow> nat \<Rightarrow> npa_token list option" where
  "lex_loop u lexicon s pos =
     (if pos \<ge> length s then Some []
      else Option.bind (rest_from s pos) (\<lambda>r.
        case first_char r of
          None \<Rightarrow> Some []
        | Some ch \<Rightarrow>
            (case lex_turn u lexicon s pos ch of
               None \<Rightarrow> None
             | Some ts \<Rightarrow> map_option ((@) ts) (lex_loop u lexicon s (turn_end ts)))))"
  by pat_completeness auto
termination
proof (relation "measure (\<lambda>(u, lexicon, s, pos). length s - pos)")
  fix u :: lex_unicode and lexicon :: "abbrev_entry list option" and s :: string and pos r ch and ts :: "npa_token list"
  assume "\<not> length s \<le> pos" "lex_turn u lexicon s pos ch = Some ts"
  with lex_turn_advances show "((u, lexicon, s, turn_end ts), u, lexicon, s, pos) \<in> measure (\<lambda>(u, lexicon, s, pos). length s - pos)"
    by force
qed simp

declare lex_loop.simps [simp del]

definition lex_with :: "lex_unicode \<Rightarrow> abbrev_entry list option \<Rightarrow> string \<Rightarrow> npa_token list option" where
  "lex_with u lexicon src = lex_loop u lexicon src 0"

text \<open>\<open>lex\<close> over the embedded ontology. The lexicon is read when the first word is met; a malformed one panics then.\<close>

definition lex :: "lex_unicode \<Rightarrow> string \<Rightarrow> string \<Rightarrow> npa_token list option" where
  "lex u yaml src = lex_with u (abbrev_lexicon yaml) src"

section \<open>The word views\<close>

record word_view =
  wv_normalized :: string
  wv_start :: nat
  wv_end :: nat

text \<open>\<open>tokenize\<close>: the runs of alphabetic characters in lower case; \<open>lower\<close> is \<open>str::to_lowercase\<close>.\<close>

fun alphabetic_run_end :: "lex_unicode \<Rightarrow> nat \<Rightarrow> (nat \<times> string) list \<Rightarrow> nat \<times> (nat \<times> string) list" where
  "alphabetic_run_end u e [] = (e, [])"
| "alphabetic_run_end u e ((i, c) # cs) =
     (if uni_alphabetic u c then alphabetic_run_end u (i + length c) cs else (e, (i, c) # cs))"

lemma alphabetic_run_end_length: "length (snd (alphabetic_run_end u e cs)) \<le> length cs"
  by (induction u e cs rule: alphabetic_run_end.induct) auto

function alphabetic_tokens :: "lex_unicode \<Rightarrow> (string \<Rightarrow> string) \<Rightarrow> string \<Rightarrow> (nat \<times> string) list \<Rightarrow> word_view list option" where
  "alphabetic_tokens u lower s [] = Some []"
| "alphabetic_tokens u lower s ((start, c) # cs) =
     (if \<not> uni_alphabetic u c then alphabetic_tokens u lower s cs
      else let run = alphabetic_run_end u (start + length c) cs in
        Option.bind (str_get s start (fst run)) (\<lambda>slice.
          map_option (Cons \<lparr>wv_normalized = lower slice, wv_start = start, wv_end = fst run\<rparr>)
            (alphabetic_tokens u lower s (snd run))))"
  by pat_completeness auto
termination
proof (relation "measure (\<lambda>(u, lower, s, cs). length cs)")
  fix u :: lex_unicode and lower :: "string \<Rightarrow> string" and s c :: string and start cs x
  assume "x = alphabetic_run_end u (start + length c) cs"
  with alphabetic_run_end_length [of u "start + length c" cs]
  show "((u, lower, s, snd x), u, lower, s, (start, c) # cs) \<in> measure (\<lambda>(u, lower, s, cs). length cs)" by simp
qed auto

definition tokenize_words :: "lex_unicode \<Rightarrow> (string \<Rightarrow> string) \<Rightarrow> string \<Rightarrow> word_view list option" where
  "tokenize_words u lower s = alphabetic_tokens u lower s (char_indices s)"

text \<open>\<open>words_from_covering\<close>: the word tokens of the lexer that hold a letter.\<close>

fun covering_words :: "lex_unicode \<Rightarrow> (string \<Rightarrow> string) \<Rightarrow> string \<Rightarrow> npa_token list \<Rightarrow> word_view list option" where
  "covering_words u lower s [] = Some []"
| "covering_words u lower s (t # ts) =
     (if nt_kind t \<noteq> TWord then covering_words u lower s ts
      else Option.bind (str_get s (nt_start t) (nt_end t)) (\<lambda>slice.
        if list_ex (uni_alphabetic u) (str_chars slice)
        then map_option (Cons \<lparr>wv_normalized = lower slice, wv_start = nt_start t, wv_end = nt_end t\<rparr>)
          (covering_words u lower s ts)
        else covering_words u lower s ts))"

definition words_from_covering :: "lex_unicode \<Rightarrow> (string \<Rightarrow> string) \<Rightarrow> string \<Rightarrow> string \<Rightarrow> word_view list option" where
  "words_from_covering u lower yaml s = Option.bind (lex u yaml s) (covering_words u lower s)"

section \<open>Cuts of a well-formed string\<close>

lemma rest_from_boundary: "is_char_boundary s p \<Longrightarrow> p \<le> length s \<Longrightarrow> rest_from s p = Some (drop p s)"
  by (simp add: rest_from_def str_get_def is_char_boundary_def)

lemma boundary_run: "is_char_boundary r (run_length P (str_chars r)) \<and> run_length P (str_chars r) \<le> length r"
proof -
  have split: "str_chars r = takeWhile P (str_chars r) @ dropWhile P (str_chars r)" by simp
  have "r = concat (takeWhile P (str_chars r)) @ concat (dropWhile P (str_chars r))"
    by (metis concat_append concat_str_chars split)
  then have "run_length P (str_chars r) \<le> length r" unfolding run_length_def by (metis length_append le_add1)
  with boundary_cut [OF split] show ?thesis by (simp add: run_length_def)
qed

lemma scan_while_boundary:
  assumes "is_char_boundary s p" "p \<le> length s"
  shows "\<exists>e. scan_while s p P = Some e \<and> p \<le> e \<and> e \<le> length s \<and> is_char_boundary s e \<and>
    str_chars (take (e - p) (drop p s)) = takeWhile P (str_chars (drop p s))"
proof -
  let ?r = "drop p s" and ?n = "run_length P (str_chars (drop p s))"
  have "take ?n ?r = concat (takeWhile P (str_chars ?r))"
    by (metis append_eq_conv_conj concat_append concat_str_chars run_length_def takeWhile_dropWhile_id)
  moreover have "str_chars (concat (takeWhile P (str_chars ?r))) = takeWhile P (str_chars ?r)"
    by (rule str_chars_cut(1) [where ys = "dropWhile P (str_chars ?r)"]) simp
  ultimately show ?thesis
    using boundary_run [of ?r P] boundary_add [OF assms] assms
    by (simp add: scan_while_def rest_from_boundary le_diff_conv2)
qed

lemma digit_byte_ascii: "is_digit_byte c \<Longrightarrow> (of_char c :: nat) < 128"
  by (auto simp: is_digit_byte_def less_eq_char_def)

section \<open>What a token can be\<close>

definition slice :: "string \<Rightarrow> nat \<Rightarrow> nat \<Rightarrow> string" where
  "slice s a b = take (b - a) (drop a s)"

definition digits :: "string \<Rightarrow> bool" where
  "digits x = (x \<noteq> [] \<and> list_all is_digit_byte x)"

definition date_text :: "string \<Rightarrow> bool" where
  "date_text x = (\<exists>a b c d y. x = [a, b, CHR ''.'', c, d, CHR ''.''] @ y \<and> length y = 4 \<and>
     digits ([a, b, c, d] @ y) \<and> digit_value a * 10 + digit_value b \<in> {1..31} \<and>
     digit_value c * 10 + digit_value d \<in> {1..12})"

definition hier_text :: "string \<Rightarrow> bool" where
  "hier_text x = (\<exists>parts. 2 \<le> length parts \<and> list_all digits parts \<and> x = str_join ''.'' parts)"

definition doc_no_text :: "string \<Rightarrow> bool" where
  "doc_no_text x = (\<exists>d. digits d \<and> (x = d @ ''-'' @ cyr_FZ \<or> x = d @ ''-'' @ cyr_FKZ))"

definition enum_text :: "bool \<Rightarrow> string \<Rightarrow> bool" where
  "enum_text at_start x = (is_lower_cyrillic x \<or>
     at_start \<and> (\<exists>d. (digits d \<and> x = d @ ''.'') \<or> ((digits d \<or> is_lower_cyrillic d) \<and> x = d @ '')'')))"

text \<open>An abbreviation of one letter is matched exactly, a longer one up to case.\<close>

definition abbrev_text :: "lex_unicode \<Rightarrow> string \<Rightarrow> string \<Rightarrow> bool" where
  "abbrev_text u word x =
     (if length (filter (uni_alphabetic u) (str_chars word)) < 2 then x = word
      else length x = length word \<and> list_all2 (fold_eq u) (str_chars x) (str_chars word))"

definition token_text :: "lex_unicode \<Rightarrow> abbrev_entry list \<Rightarrow> bool \<Rightarrow> token_kind \<Rightarrow> string option \<Rightarrow> string \<Rightarrow> bool" where
  "token_text u lexicon at_start kind i x =
     (case kind of
        TSpace \<Rightarrow> i = None \<and> list_all is_whitespace (str_chars x)
      | TWord \<Rightarrow> i = None \<and> (list_all (uni_alphabetic u) (str_chars x) \<and> \<not> is_law_code x \<or> digits x)
      | TLawCode \<Rightarrow> i = None \<and> is_law_code x
      | TAbbrev \<Rightarrow> (\<exists>n w. i = Some n \<and> (n, w) \<in> set lexicon \<and> abbrev_text u w x)
      | TDate \<Rightarrow> i = None \<and> date_text x
      | THierNum \<Rightarrow> i = None \<and> hier_text x
      | TDocNo \<Rightarrow> i = None \<and> doc_no_text x
      | TEnumMarker \<Rightarrow> i = None \<and> enum_text at_start x
      | TPunct \<Rightarrow> i = None \<and> (list_all (is_punct_char u) (str_chars x) \<or> x = [CHR 0x22]))"

text \<open>A scanned end: behind the start, on a boundary.\<close>

definition good_end :: "string \<Rightarrow> nat \<Rightarrow> nat \<Rightarrow> bool" where
  "good_end s p e = (p < e \<and> e \<le> length s \<and> is_char_boundary s e)"

lemma good_end_ascii: "utf8_ok s \<Longrightarrow> p \<le> i \<Longrightarrow> i < length s \<Longrightarrow> (of_char (s ! i) :: nat) < 128 \<Longrightarrow> good_end s p (Suc i)"
  using boundary_after_ascii [of s i] by (simp add: good_end_def)

lemma skip_digits_slice: "slice s p (skip_digits s p) = takeWhile is_digit_byte (drop p s)"
  by (simp add: slice_def skip_digits_def takeWhile_eq_take [symmetric])

lemma skip_digits_digits: "skip_digits s p \<noteq> p \<Longrightarrow> digits (slice s p (skip_digits s p))"
  unfolding skip_digits_slice by (auto simp: digits_def skip_digits_def list_all_iff dest: set_takeWhileD)

lemma slice_append: "a \<le> b \<Longrightarrow> b \<le> c \<Longrightarrow> slice s a c = slice s a b @ slice s b c"
proof -
  assume le: "a \<le> b" "b \<le> c"
  have "slice s a c = take ((b - a) + (c - b)) (drop a s)" using le by (simp add: slice_def)
  also have "\<dots> = take (b - a) (drop a s) @ take (c - b) (drop (b - a) (drop a s))" by (rule take_add)
  finally show ?thesis using le by (simp add: slice_def)
qed

lemma slice_Suc: "i < length s \<Longrightarrow> slice s i (Suc i) = [s ! i]"
  by (simp add: slice_def take_Suc_conv_app_nth)

lemma slice_nonempty: "a < b \<Longrightarrow> b \<le> length s \<Longrightarrow> slice s a b \<noteq> []"
  by (simp add: slice_def)

lemma skip_digits_last:
  assumes "skip_digits s p \<noteq> p" "p \<le> length s"
  shows "p < skip_digits s p" "is_digit_byte (s ! (skip_digits s p - 1))" "skip_digits s p - 1 < length s"
proof -
  let ?n = "length (takeWhile is_digit_byte (drop p s))"
  have n: "0 < ?n" using assms(1) by (simp add: skip_digits_def)
  then show "p < skip_digits s p" by (simp add: skip_digits_def)
  have le: "?n \<le> length (drop p s)" by (rule length_takeWhile_le)
  from n have m: "?n - 1 < ?n" by simp
  from nth_mem [OF m] have "is_digit_byte (takeWhile is_digit_byte (drop p s) ! (?n - 1))" by (auto dest: set_takeWhileD)
  moreover have "takeWhile is_digit_byte (drop p s) ! (?n - 1) = drop p s ! (?n - 1)" using m by (rule takeWhile_nth)
  moreover have "p + (?n - 1) = skip_digits s p - 1" unfolding skip_digits_def using n by linarith
  then have "drop p s ! (?n - 1) = s ! (skip_digits s p - 1)" using assms(2) by (metis nth_drop)
  ultimately show "is_digit_byte (s ! (skip_digits s p - 1))" by simp
  show "skip_digits s p - 1 < length s" using n le assms(2) unfolding skip_digits_def length_drop by linarith
qed

lemma skip_digits_end:
  assumes "utf8_ok s" "skip_digits s p \<noteq> p" "p \<le> length s"
  shows "good_end s p (skip_digits s p)"
proof -
  note last_digit = skip_digits_last [OF assms(2,3)]
  have "good_end s p (Suc (skip_digits s p - 1))"
    using last_digit digit_byte_ascii by (intro good_end_ascii [OF assms(1)]) auto
  then show ?thesis using last_digit(1) by simp
qed

lemma scan_date_text:
  assumes "utf8_ok s" "scan_date s p = Some e"
  shows "good_end s p e \<and> date_text (slice s p e)"
proof -
  from assms(2) have e: "e = p + 10" "p + 10 \<le> length s"
    and shape: "digit_at s p" "digit_at s (p + 1)" "s ! (p + 2) = CHR ''.''" "digit_at s (p + 3)" "digit_at s (p + 4)"
      "s ! (p + 5) = CHR ''.''" "digit_at s (p + 6)" "digit_at s (p + 7)" "digit_at s (p + 8)" "digit_at s (p + 9)"
    and range: "digit_value (s ! p) * 10 + digit_value (s ! (p + 1)) \<in> {1..31}"
      "digit_value (s ! (p + 3)) * 10 + digit_value (s ! (p + 4)) \<in> {1..12}"
    by (auto simp: scan_date_def Let_def split: if_splits)
  have "slice s p e = map (\<lambda>i. s ! (p + i)) [0..<10]"
    using e by (intro nth_equalityI) (simp_all add: slice_def)
  also have "\<dots> = [s ! p, s ! (p + 1), CHR ''.'', s ! (p + 3), s ! (p + 4), CHR ''.''] @
      [s ! (p + 6), s ! (p + 7), s ! (p + 8), s ! (p + 9)]"
  proof -
    have "[0..<10] = [0, 1, 2, 3, 4, 5, 6, 7, 8, 9 :: nat]" by (simp add: upt_rec)
    then show ?thesis using shape(3,6) by (simp only: list.map append.simps add_0_right)
  qed
  finally have "slice s p e = [s ! p, s ! (p + 1), CHR ''.'', s ! (p + 3), s ! (p + 4), CHR ''.''] @
      [s ! (p + 6), s ! (p + 7), s ! (p + 8), s ! (p + 9)]" .
  moreover have "digits ([s ! p, s ! (p + 1), s ! (p + 3), s ! (p + 4)] @ [s ! (p + 6), s ! (p + 7), s ! (p + 8), s ! (p + 9)])"
    using shape by (simp add: digits_def digit_at_def)
  ultimately have "date_text (slice s p e)" unfolding date_text_def using range
    by (intro exI [of _ "s ! p"] exI [of _ "s ! (p + 1)"] exI [of _ "s ! (p + 3)"] exI [of _ "s ! (p + 4)"]
        exI [of _ "[s ! (p + 6), s ! (p + 7), s ! (p + 8), s ! (p + 9)]"]) simp
  moreover have "good_end s p (Suc (p + 9))"
    using shape(10) by (intro good_end_ascii [OF assms(1)]) (auto simp: digit_at_def digit_byte_ascii)
  ultimately show ?thesis using e by (simp add: eval_nat_numeral)
qed

lemma str_join_snoc: "xs \<noteq> [] \<Longrightarrow> str_join sep (xs @ [x]) = str_join sep xs @ sep @ x"
  by (cases xs) (simp_all add: str_join_def)

lemma hier_loop_text:
  assumes "utf8_ok s" "hier_loop s pos e = Some k" "st < pos" "pos \<le> length s"
    and "slice s st pos = str_join ''.'' parts" "list_all digits parts" "parts \<noteq> []"
    and "e = None \<or> e = Some pos \<and> good_end s st pos \<and> 2 \<le> length parts"
  shows "good_end s st k \<and> hier_text (slice s st k)"
  using assms
proof (induction s pos e arbitrary: parts rule: hier_loop.induct)
  case (1 s pos e)
  show ?case
  proof (cases "byte_at s pos = Some (CHR ''.'') \<and> digit_at s (pos + 1)")
    case False
    with "1.prems"(2) have "e = Some k" by (subst (asm) hier_loop.simps) (auto split: if_splits)
    with "1.prems" show ?thesis by (auto simp: hier_text_def)
  next
    case True
    define q where "q = skip_digits s (pos + 2)"
    have dot: "pos < length s" "s ! pos = CHR ''.''" and dig: "pos + 1 < length s" "is_digit_byte (s ! (pos + 1))"
      using True by (auto simp: byte_at_def digit_at_def split: if_splits)
    have sk: "skip_digits s (pos + 1) = q"
      unfolding q_def skip_digits_def using dig by (simp add: Cons_nth_drop_Suc [symmetric])
    have le: "pos + 2 \<le> q" "q \<le> length s" unfolding q_def using skip_digits_bounds [of "pos + 2" s] dig(1) by simp_all
    then have ne: "skip_digits s (pos + 1) \<noteq> pos + 1" unfolding sk by linarith
    have ok: "utf8_ok s" by (rule "1.prems"(1))
    note d = skip_digits_digits [OF ne, unfolded sk] and g = skip_digits_end [OF ok ne, unfolded sk]
    have "slice s st q = slice s st pos @ slice s pos (Suc pos) @ slice s (Suc pos) q"
      using "1.prems"(3) le by (simp add: slice_append [of st pos q] slice_append [of pos "Suc pos" q])
    then have "slice s st q = str_join ''.'' (parts @ [slice s (pos + 1) q])"
      using "1.prems"(5,7) dot by (simp add: slice_Suc str_join_snoc)
    moreover have "hier_loop s q (Some q) = Some k"
      using "1.prems"(2) True by (subst (asm) hier_loop.simps) (simp add: q_def Let_def)
    moreover have "good_end s st q" using g "1.prems"(3) dot(1) by (simp add: good_end_def)
    moreover have "Suc (Suc 0) \<le> Suc (length parts)" using "1.prems"(7) by (cases parts) simp_all
    ultimately show ?thesis
      using "1.IH" [of q "parts @ [slice s (pos + 1) q]"] True le d ok "1.prems"(3,6) by (simp add: q_def eval_nat_numeral)
  qed
qed

lemma scan_hier_num_text:
  assumes "utf8_ok s" "p < length s" "scan_hier_num s p = Some e"
  shows "good_end s p e \<and> hier_text (slice s p e)"
proof -
  from assms(3) have ne: "skip_digits s p \<noteq> p" and loop: "hier_loop s (skip_digits s p) None = Some e"
    by (auto simp: scan_hier_num_def Let_def split: if_splits)
  have "p < skip_digits s p" "skip_digits s p \<le> length s"
    using skip_digits_bounds [of p s] ne assms(2) by auto
  with hier_loop_text [OF assms(1) loop, of p "[slice s p (skip_digits s p)]"] skip_digits_digits [OF ne] show ?thesis
    by simp
qed

lemma utf8_cyr: "utf8_ok cyr_FZ \<and> utf8_ok cyr_FKZ \<and> cyr_FZ \<noteq> [] \<and> cyr_FKZ \<noteq> []"
  by (simp add: cyr_FZ_def cyr_FKZ_def utf8_def utf8_of_def byte_in_def cont_def)

lemma doc_no_suffix_result:
  assumes "utf8_ok s" "is_char_boundary s a" "a \<le> length s" "\<forall>w\<in>set ws. utf8_ok w \<and> w \<noteq> []"
  shows "\<exists>r. doc_no_suffix u s a ws = Some r \<and>
    (\<forall>e. r = Some e \<longrightarrow> good_end s a e \<and> slice s a e \<in> set ws)"
  using assms(4)
proof (induction ws)
  case (Cons w ws)
  show ?case
  proof (cases "starts_with w (drop a s)")
    case True
    from prefix_boundary [OF assms(1-3) True] Cons.prems have e: "a + length w \<le> length s" "is_char_boundary s (a + length w)"
      by auto
    then have "rest_from s (a + length w) = Some (drop (a + length w) s)" by (simp add: rest_from_boundary)
    moreover have "slice s a (a + length w) = w" using True by (simp add: slice_def starts_with_def)
    moreover have "good_end s a (a + length w)" using e Cons.prems by (simp add: good_end_def)
    ultimately show ?thesis using Cons True assms(2,3) by (auto simp: rest_from_boundary)
  next
    case False
    with Cons assms(2,3) show ?thesis by (auto simp: rest_from_boundary)
  qed
qed simp

lemma scan_doc_no_text:
  assumes "utf8_ok s" "p < length s"
  shows "\<exists>r. scan_doc_no u s p = Some r \<and> (\<forall>e. r = Some e \<longrightarrow> good_end s p e \<and> doc_no_text (slice s p e))"
proof (cases "skip_digits s p = p \<or> byte_at s (skip_digits s p) \<noteq> Some (CHR ''-'')")
  case True
  then show ?thesis by (auto simp: scan_doc_no_def Let_def)
next
  case False
  let ?q = "skip_digits s p"
  from False have q: "?q < length s" "s ! ?q = CHR ''-''" "?q \<noteq> p" by (auto simp: byte_at_def split: if_splits)
  have g: "good_end s ?q (Suc ?q)" using q by (intro good_end_ascii [OF assms(1)]) auto
  obtain r where r: "doc_no_suffix u s (Suc ?q) [cyr_FZ, cyr_FKZ] = Some r"
    "\<forall>e. r = Some e \<longrightarrow> good_end s (Suc ?q) e \<and> slice s (Suc ?q) e \<in> {cyr_FZ, cyr_FKZ}"
    using doc_no_suffix_result [OF assms(1), of "Suc ?q" "[cyr_FZ, cyr_FKZ]" u] g utf8_cyr by (auto simp: good_end_def)
  have "good_end s p e \<and> doc_no_text (slice s p e)" if e: "r = Some e" for e
  proof -
    have le: "p \<le> ?q" "Suc ?q \<le> e" using skip_digits_bounds(1) [of p s] r(2) e by (auto simp: good_end_def)
    have "slice s p e = slice s p ?q @ ''-'' @ slice s (Suc ?q) e"
      using le q by (simp add: slice_append [of p ?q e] slice_append [of ?q "Suc ?q" e] slice_Suc)
    then show ?thesis using r(2) e le skip_digits_digits [OF q(3)] by (auto simp: doc_no_text_def good_end_def)
  qed
  with r(1) False show ?thesis by (simp add: scan_doc_no_def Let_def)
qed

lemma scan_enum_digits_text:
  assumes "utf8_ok s" "scan_enum_marker_digits s p = Some e"
  shows "good_end s p e \<and> p = 0 \<and> enum_text True (slice s p e)"
proof -
  let ?q = "skip_digits s p"
  from assms(2) have p: "p = 0" "?q \<noteq> p" "e = Suc ?q"
    and b: "byte_at s ?q = Some (CHR ''.'') \<or> byte_at s ?q = Some (CHR '')'')"
    by (auto simp: scan_enum_marker_digits_def Let_def split: if_splits)
  from b have q: "?q < length s" "s ! ?q = CHR ''.'' \<or> s ! ?q = CHR '')''" by (auto simp: byte_at_def split: if_splits)
  have le: "p \<le> ?q" by (rule skip_digits_bounds(1))
  have "(of_char (s ! ?q) :: nat) < 128" using q(2) by auto
  then have "good_end s p (Suc ?q)" using q(1) le by (intro good_end_ascii [OF assms(1)])
  moreover have "slice s p (Suc ?q) = slice s p ?q @ [s ! ?q]" using le q(1) by (simp add: slice_append [of p ?q "Suc ?q"] slice_Suc)
  moreover have "enum_text True (d @ [c])" if "digits d" "c = CHR ''.'' \<or> c = CHR '')''" for d c
    using that by (auto simp: enum_text_def)
  ultimately show ?thesis using p(1,3) skip_digits_digits [OF p(2)] q(2) by metis
qed

lemma first_char_slice:
  assumes "is_char_boundary s p" "p < length s" "first_char (drop p s) = Some ch"
  shows "good_end s p (p + length ch) \<and> slice s p (p + length ch) = ch \<and> ch \<noteq> [] \<and>
    (\<exists>cs. str_chars (drop p s) = ch # cs)"
proof -
  let ?r = "drop p s"
  obtain cs where cs: "str_chars ?r = ch # cs" using assms(3) by (auto simp: first_char_eq split: list.splits)
  then have ne: "ch \<noteq> []" using str_chars_nonempty [of ?r] by auto
  have r: "?r = ch @ concat cs" using concat_str_chars [of ?r] by (simp add: cs)
  have "is_char_boundary ?r (length ch)" using boundary_cut [of ?r "[ch]" cs] cs by simp
  moreover have "length s - p = length ch + length (concat cs)" using arg_cong [OF r, of length] by simp
  then have "p + length ch \<le> length s" using assms(2) by linarith
  ultimately show ?thesis
    using boundary_add [OF assms(1)] assms(2) r ne cs by (auto simp: good_end_def slice_def)
qed

lemma str_get_slice: "a \<le> b \<Longrightarrow> is_char_boundary s a \<Longrightarrow> is_char_boundary s b \<Longrightarrow> str_get s a b = Some (slice s a b)"
  by (simp add: str_get_def slice_def)

lemma scan_while_text:
  assumes "is_char_boundary s p" "p < length s" "first_char (drop p s) = Some ch" "P ch"
  shows "\<exists>e. scan_while s p P = Some e \<and> good_end s p e \<and> list_all P (str_chars (slice s p e))"
proof -
  obtain e where e: "scan_while s p P = Some e" "p \<le> e" "e \<le> length s" "is_char_boundary s e"
    "str_chars (slice s p e) = takeWhile P (str_chars (drop p s))"
    using scan_while_boundary [OF assms(1), of P] assms(2) by (auto simp: slice_def)
  from first_char_slice [OF assms(1-3)] assms(4) have "takeWhile P (str_chars (drop p s)) \<noteq> []" by auto
  with e(5) have "slice s p e \<noteq> []" by (auto simp: str_chars_simps)
  then have "p \<noteq> e" by (auto simp: slice_def)
  moreover have "list_all P (takeWhile P xs)" for xs by (auto simp: list_all_iff dest: set_takeWhileD)
  ultimately show ?thesis using e by (auto simp: good_end_def)
qed

lemma digit_chars:
  assumes "list_all is_ascii_digit_char (str_chars x)" "x \<noteq> []"
  shows "digits x"
proof -
  have "list_all is_digit_byte (concat cs)" if "list_all is_ascii_digit_char cs" for cs
    using that by (induction cs) (auto simp: is_ascii_digit_char_def is_digit_byte_def byte_in_def less_eq_char_def split: list.splits)
  from this [OF assms(1)] assms(2) show ?thesis by (simp add: digits_def)
qed

lemma lexeme_matches_result:
  assumes "utf8_ok s" "is_char_boundary s p" "p < length s" "utf8_ok w" "w \<noteq> []"
  shows "\<exists>m. lexeme_matches u s p w = Some m \<and>
    (m \<longrightarrow> good_end s p (p + length w) \<and> abbrev_text u w (slice s p (p + length w)))"
proof (cases "length (filter (uni_alphabetic u) (str_chars w)) < 2")
  case True
  have "good_end s p (p + length w) \<and> slice s p (p + length w) = w" if "starts_with w (drop p s)"
    using prefix_boundary [OF assms(1,2) _ that assms(4)] assms(3,5) that by (auto simp: good_end_def slice_def starts_with_def)
  with True assms(2,3) show ?thesis by (simp add: lexeme_matches_def rest_from_boundary abbrev_text_def)
next
  case False
  show ?thesis
  proof (cases "p + length w > length s \<or> \<not> is_char_boundary s (p + length w)")
    case True
    with False show ?thesis by (intro exI [of _ False]) (simp add: lexeme_matches_def Let_def)
  next
    case in_range: False
    then have "str_get s p (p + length w) = Some (slice s p (p + length w))" using assms(2) by (intro str_get_slice) auto
    moreover have "length (slice s p (p + length w)) = length w" using in_range unfolding slice_def length_take length_drop by linarith
    moreover have "good_end s p (p + length w)" using in_range assms(5) by (simp add: good_end_def)
    ultimately show ?thesis using False in_range by (simp add: lexeme_matches_def Let_def abbrev_text_def)
  qed
qed

definition lexicon_ok :: "abbrev_entry list \<Rightarrow> bool" where
  "lexicon_ok lexicon = list_all (\<lambda>e. utf8_ok (snd e) \<and> snd e \<noteq> []) lexicon"

lemma find_abbrev_result:
  assumes "utf8_ok s" "is_char_boundary s p" "p < length s" "lexicon_ok es"
  shows "\<exists>r. find_abbrev u s p es = Some r \<and>
    (\<forall>e i. r = Some (e, i) \<longrightarrow> good_end s p e \<and> (\<exists>w. (i, w) \<in> set es \<and> abbrev_text u w (slice s p e)))"
  using assms(4)
proof (induction es)
  case (Cons x es)
  obtain i w where x: "x = (i, w)" by (cases x)
  from Cons.prems x have "utf8_ok w" "w \<noteq> []" by (auto simp: lexicon_ok_def)
  from lexeme_matches_result [OF assms(1-3) this, of u] obtain m where m: "lexeme_matches u s p w = Some m"
    "m \<longrightarrow> good_end s p (p + length w) \<and> abbrev_text u w (slice s p (p + length w))" by blast
  obtain r where r: "find_abbrev u s p es = Some r"
    "\<forall>e i. r = Some (e, i) \<longrightarrow> good_end s p e \<and> (\<exists>w. (i, w) \<in> set es \<and> abbrev_text u w (slice s p e))"
    using Cons by (auto simp: lexicon_ok_def)
  show ?case
  proof (cases m)
    case True
    with m show ?thesis by (auto simp: x)
  next
    case False
    with m(1) r show ?thesis by (auto simp: x)
  qed
qed simp

lemma scan_abbrev_result:
  assumes "utf8_ok s" "is_char_boundary s p" "p < length s" "lexicon_ok es"
  shows "\<exists>r. scan_abbrev u (Some es) s p = Some r \<and>
    (\<forall>e i. r = Some (e, i) \<longrightarrow> good_end s p e \<and> (\<exists>w. (i, w) \<in> set es \<and> abbrev_text u w (slice s p e)))"
proof -
  have "str_get s 0 p = Some (slice s 0 p)" using assms(2) by (intro str_get_slice) (simp_all add: is_char_boundary_def)
  with find_abbrev_result [OF assms, of u] show ?thesis by (auto simp: scan_abbrev_def split: option.splits)
qed

lemma lower_cyrillic_utf8: "is_lower_cyrillic c \<Longrightarrow> c \<noteq> []"
  by (auto simp: is_lower_cyrillic_def utf8_of_def)

lemma scan_enum_letter_text:
  assumes "utf8_ok s" "p < length s" "scan_enum_marker_letter s p = Some e"
  shows "good_end s p e \<and> p = 0 \<and> enum_text True (slice s p e)"
proof -
  from assms(3) obtain l where p: "p = 0" and l: "first_char s = Some l" "is_lower_cyrillic l"
    and b: "byte_at s (length l) = Some (CHR '')'')" "e = Suc (length l)"
    by (auto simp: scan_enum_marker_letter_def split: if_splits option.splits)
  from b(1) have q: "length l < length s" "s ! length l = CHR '')''" by (auto simp: byte_at_def split: if_splits)
  have "is_char_boundary s 0" by (simp add: is_char_boundary_def)
  from first_char_slice [OF this, of l] l(1) assms(2) p have "slice s 0 (length l) = l" by simp
  then have "slice s p e = l @ '')''" using q p b(2) by (simp add: slice_append [of 0 "length l" "Suc (length l)"] slice_Suc)
  moreover have "good_end s p e" unfolding b(2) p using q by (intro good_end_ascii [OF assms(1)]) auto
  ultimately show ?thesis using l(2) p by (auto simp: enum_text_def)
qed

lemma quoted_letter_text:
  assumes "utf8_ok s" "p < length s" "s ! p = CHR 0x22"
  shows "\<exists>r. quoted_enum_letter_end s p = Some r \<and> (\<forall>e. r = Some e \<longrightarrow>
    good_end s p (Suc p) \<and> good_end s (Suc p) e \<and> is_lower_cyrillic (slice s (Suc p) e))"
proof -
  have q: "good_end s p (Suc p)" using assms by (intro good_end_ascii) auto
  have get: "rest_from s (Suc p) = Some (drop (Suc p) s)" using q by (intro rest_from_boundary) (auto simp: good_end_def)
  have byte: "byte_at s p = Some (CHR 0x22)" using assms by (simp add: byte_at_def)
  show ?thesis
  proof (cases "first_char (drop (Suc p) s)")
    case None
    with get byte show ?thesis by (simp add: quoted_enum_letter_end_def)
  next
    case (Some l)
    then have "Suc p < length s" using q by (cases "Suc p = length s") (auto simp: good_end_def first_char_eq str_chars_simps)
    with first_char_slice [of s "Suc p" l] Some q
    have "good_end s (Suc p) (Suc p + length l) \<and> slice s (Suc p) (Suc p + length l) = l" by (simp add: good_end_def)
    with q get byte Some show ?thesis by (auto simp: quoted_enum_letter_end_def)
  qed
qed

section \<open>Covering\<close>

text \<open>Tokens that follow each other from one position to another without a gap.\<close>

fun token_chain :: "nat \<Rightarrow> npa_token list \<Rightarrow> nat \<Rightarrow> bool" where
  "token_chain a [] b = (a = b)"
| "token_chain a (t # ts) b = (nt_start t = a \<and> a < nt_end t \<and> token_chain (nt_end t) ts b)"

lemma token_chain_append: "token_chain a ts b \<Longrightarrow> token_chain b us c \<Longrightarrow> token_chain a (ts @ us) c"
  by (induction ts arbitrary: a) auto

definition token_ok :: "lex_unicode \<Rightarrow> abbrev_entry list \<Rightarrow> string \<Rightarrow> npa_token \<Rightarrow> bool" where
  "token_ok u lexicon s t =
     (is_char_boundary s (nt_start t) \<and> is_char_boundary s (nt_end t) \<and> nt_end t \<le> length s \<and>
      token_text u lexicon (nt_start t = 0) (nt_kind t) (nt_abbrev_id t) (slice s (nt_start t) (nt_end t)))"

lemma lex_one_result:
  assumes s: "utf8_ok s" "is_char_boundary s p" "p < length s" "first_char (drop p s) = Some ch" and lx: "lexicon_ok es"
  shows "\<exists>k i e. lex_one u (Some es) s p ch = Some (k, i, e) \<and> good_end s p e \<and>
    token_text u es (p = 0) k i (slice s p e)"
proof -
  note while_text = scan_while_text [OF s(2-4)]
  have law: "get = Some (slice s p e)" if "good_end s p e" "get = str_get s p e" for get e
    using that s(2) by (simp add: str_get_slice good_end_def)
  consider "is_whitespace ch" | "\<not> is_whitespace ch" "uni_alphabetic u ch"
    | "\<not> is_whitespace ch" "\<not> uni_alphabetic u ch" "is_ascii_digit_char ch"
    | "\<not> is_whitespace ch" "\<not> uni_alphabetic u ch" "\<not> is_ascii_digit_char ch" by blast
  then show ?thesis
  proof cases
    case 1
    with while_text [of is_whitespace] show ?thesis by (auto simp: lex_one_def token_text_def)
  next
    case 2
    obtain r where r: "scan_abbrev u (Some es) s p = Some r"
      "\<forall>e i. r = Some (e, i) \<longrightarrow> good_end s p e \<and> (\<exists>w. (i, w) \<in> set es \<and> abbrev_text u w (slice s p e))"
      using scan_abbrev_result [OF s(1-3) lx] by blast
    show ?thesis
    proof (cases r)
      case (Some ei)
      then obtain e i where "r = Some (e, i)" by (cases ei) auto
      with 2 r show ?thesis by (auto simp: lex_one_def lex_letters_def token_text_def)
    next
      case None
      show ?thesis
      proof (cases "scan_enum_marker_letter s p")
        case (Some e)
        with scan_enum_letter_text [OF s(1,3) Some] None 2 r(1) show ?thesis
          by (auto simp: lex_one_def lex_letters_def token_text_def)
      next
        case no_marker: None
        obtain e where "scan_while s p (uni_alphabetic u) = Some e" "good_end s p e"
          "list_all (uni_alphabetic u) (str_chars (slice s p e))" using while_text [of "uni_alphabetic u"] 2(2) by blast
        with law [OF this(2) refl] None no_marker 2 r(1) show ?thesis
          by (auto simp: lex_one_def lex_letters_def token_text_def)
      qed
    qed
  next
    case 3
    obtain d where d: "scan_doc_no u s p = Some d" "\<forall>e. d = Some e \<longrightarrow> good_end s p e \<and> doc_no_text (slice s p e)"
      using scan_doc_no_text [OF s(1,3)] by blast
    obtain w where w: "scan_while s p is_ascii_digit_char = Some w" "good_end s p w" "digits (slice s p w)"
      using while_text [of is_ascii_digit_char] 3(3) digit_chars slice_nonempty by (metis good_end_def)
    have "\<exists>k i e. lex_digits u s p = Some (k, i, e) \<and> good_end s p e \<and> token_text u es (p = 0) k i (slice s p e)"
    proof (cases "scan_date s p")
      case (Some e)
      with scan_date_text [OF s(1)] show ?thesis by (auto simp: lex_digits_def token_text_def)
    next
      case no_date: None
      show ?thesis
      proof (cases "scan_hier_num s p")
        case (Some e)
        with scan_hier_num_text [OF s(1,3)] no_date show ?thesis by (auto simp: lex_digits_def token_text_def)
      next
        case no_hier: None
        show ?thesis
        proof (cases d)
          case (Some e)
          with d no_date no_hier show ?thesis by (auto simp: lex_digits_def token_text_def)
        next
          case no_doc: None
          show ?thesis
          proof (cases "scan_enum_marker_digits s p")
            case (Some e)
            with scan_enum_digits_text [OF s(1)] d(1) no_date no_hier no_doc show ?thesis
              by (auto simp: lex_digits_def token_text_def)
          next
            case None
            with w d(1) no_date no_hier no_doc show ?thesis by (auto simp: lex_digits_def token_text_def)
          qed
        qed
      qed
    qed
    with 3 show ?thesis by (auto simp: lex_one_def)
  next
    case 4
    then have "is_punct_char u ch" by (simp add: is_punct_char_def)
    with while_text [of "is_punct_char u"] 4 show ?thesis by (auto simp: lex_one_def token_text_def)
  qed
qed

lemma make_token_Some: "a < b \<Longrightarrow> make_token k i a b = Some \<lparr>nt_kind = k, nt_span = DecodedSpan a b, nt_abbrev_id = i\<rparr>"
  by (simp add: make_token_def decoded_span_try_new_def)

lemma lex_turn_result:
  assumes s: "utf8_ok s" "is_char_boundary s p" "p < length s" "first_char (drop p s) = Some ch" and lx: "lexicon_ok es"
  shows "\<exists>ts. lex_turn u (Some es) s p ch = Some ts \<and> token_chain p ts (turn_end ts) \<and> turn_end ts \<le> length s \<and>
    is_char_boundary s (turn_end ts) \<and> list_all (token_ok u es s) ts"
proof -
  obtain q where q: "(if ch = [CHR 0x22] then quoted_enum_letter_end s p else Some None) = Some q"
    "\<forall>e. q = Some e \<longrightarrow> s ! p = CHR 0x22 \<and> good_end s p (Suc p) \<and> good_end s (Suc p) e \<and> is_lower_cyrillic (slice s (Suc p) e)"
  proof (cases "ch = [CHR 0x22]")
    case True
    then have "slice s p (Suc p) = [CHR 0x22]" using first_char_slice [OF s(2-4)] by simp
    then have "s ! p = CHR 0x22" using s(3) by (simp add: slice_Suc)
    with quoted_letter_text [OF s(1,3) this] True that show ?thesis by auto
  qed auto
  show ?thesis
  proof (cases q)
    case (Some e)
    with q(2) have e: "s ! p = CHR 0x22" "p < e" "Suc p < e" "e \<le> length s" "is_char_boundary s (Suc p)" "is_char_boundary s e"
      "is_lower_cyrillic (slice s (Suc p) e)" by (auto simp: good_end_def)
    have "slice s p (Suc p) = [CHR 0x22]" using e(1) s(3) by (simp add: slice_Suc)
    with q(1) Some e s(2,3) show ?thesis
      by (simp add: lex_turn_def make_token_Some turn_end_def nt_start_def nt_end_def token_ok_def token_text_def enum_text_def)
  next
    case None
    obtain k i e where "lex_one u (Some es) s p ch = Some (k, i, e)" "good_end s p e" "token_text u es (p = 0) k i (slice s p e)"
      using lex_one_result [OF assms, of u] by blast
    with None q(1) s(2) show ?thesis
      by (simp add: lex_turn_def make_token_Some turn_end_def nt_start_def nt_end_def token_ok_def good_end_def)
  qed
qed

lemma lex_loop_result:
  assumes "utf8_ok s" "lexicon_ok es" "is_char_boundary s p" "p \<le> length s"
  shows "\<exists>ts. lex_loop u (Some es) s p = Some ts \<and> token_chain p ts (length s) \<and> list_all (token_ok u es s) ts"
  using assms(3,4)
proof (induction "length s - p" arbitrary: p rule: less_induct)
  case less
  show ?case
  proof (cases "p = length s")
    case True
    then show ?thesis by (subst lex_loop.simps) simp
  next
    case False
    with less.prems have p: "p < length s" by simp
    then have "str_chars (drop p s) \<noteq> []" by (metis concat.simps(1) concat_str_chars drop_eq_Nil not_le)
    then obtain ch where ch: "first_char (drop p s) = Some ch"
      by (cases "str_chars (drop p s)") (auto simp: first_char_eq)
    obtain ts where ts: "lex_turn u (Some es) s p ch = Some ts" "token_chain p ts (turn_end ts)" "turn_end ts \<le> length s"
      "is_char_boundary s (turn_end ts)" "list_all (token_ok u es s) ts"
      using lex_turn_result [OF assms(1) less.prems(1) p ch assms(2)] by blast
    have "length s - turn_end ts < length s - p" using lex_turn_advances [OF ts(1)] p by (intro diff_less_mono2) auto
    from less.hyps [OF this ts(4,3)] obtain us where us: "lex_loop u (Some es) s (turn_end ts) = Some us"
      "token_chain (turn_end ts) us (length s)" "list_all (token_ok u es s) us" by blast
    from token_chain_append [OF ts(2) us(2)] ts us p ch less.prems show ?thesis
      by (subst lex_loop.simps) (simp add: rest_from_boundary)
  qed
qed

lemma lexicon_entries_distinct: "lexicon_entries seen table entries = Some (ids, t) \<Longrightarrow> distinct seen \<Longrightarrow> distinct ids"
  by (induction seen table entries rule: lexicon_entries.induct) (simp_all split: if_splits)

lemma lexicon_entries_table:
  "lexicon_entries seen table entries = Some (ids, t) \<Longrightarrow> ids = seen @ map fst entries \<and> t = table @ entries"
  by (induction seen table entries rule: lexicon_entries.induct) (simp_all split: if_splits)

lemma lexicon_entries_words: "lexicon_entries seen table entries = Some (ids, t) \<Longrightarrow> list_all (\<lambda>e. snd e \<noteq> []) entries"
  by (induction seen table entries rule: lexicon_entries.induct) (simp_all split: if_splits)

lemma lexicon_entries_ids:
  "lexicon_entries seen table entries = Some (ids, t) \<Longrightarrow> set seen \<subseteq> set NPA_ABBREV_IDS \<Longrightarrow> set ids \<subseteq> set NPA_ABBREV_IDS"
  by (induction seen table entries rule: lexicon_entries.induct) (auto split: if_splits)

text \<open>The lexicon that passes the assertions: one entry for each of the seventeen ids, no empty lexeme, no entry in front of
  a longer one.\<close>
lemma abbrev_lexicon_result:
  assumes "abbrev_lexicon yaml = Some es"
  shows "mset (map fst es) = mset NPA_ABBREV_IDS \<and> list_all (\<lambda>e. snd e \<noteq> []) es \<and>
    sorted_wrt (\<lambda>a b. length (snd b) \<le> length (snd a)) es"
proof -
  let ?key = "\<lambda>e :: abbrev_entry. - int (length (snd e))"
  from assms obtain entries ids t where t: "lexicon_entries [] [] entries = Some (ids, t)"
    "list_all (\<lambda>i. i \<in> set ids) NPA_ABBREV_IDS" "es = sort_key ?key t"
    by (auto simp: abbrev_lexicon_def sort_longest_def parse_abbrev_lexicon_def split: option.splits if_splits)
  from lexicon_entries_distinct [OF t(1)] lexicon_entries_table [OF t(1)] lexicon_entries_words [OF t(1)]
  have r: "distinct ids" "ids = map fst t" "list_all (\<lambda>e. snd e \<noteq> []) t" by auto
  have "set ids = set NPA_ABBREV_IDS" using lexicon_entries_ids [OF t(1)] t(2) by (auto simp: list_all_iff)
  moreover have "distinct NPA_ABBREV_IDS" by code_simp
  ultimately have "mset ids = mset NPA_ABBREV_IDS" using r(1) by (simp add: set_eq_iff_mset_eq_distinct [symmetric])
  moreover have "mset (map fst es) = mset ids" by (simp add: t(3) r(2))
  moreover have "list_all (\<lambda>e. snd e \<noteq> []) es" using r(3) by (simp add: t(3) list_all_iff)
  moreover have "sorted (map ?key es)" by (simp add: t(3))
  then have "sorted_wrt (\<lambda>a b. length (snd b) \<le> length (snd a)) es" by (simp add: sorted_map)
  ultimately show ?thesis by simp
qed

lemma chain_lexemes:
  assumes "token_chain a ts b" "list_all (token_ok u es s) ts" "b \<le> length s"
  shows "a \<le> b \<and> (\<exists>ls. map (lexeme s) ts = map Some ls \<and> concat ls = slice s a b \<and> [] \<notin> set ls)"
  using assms
proof (induction ts arbitrary: a)
  case Nil
  then show ?case by (auto simp: slice_def)
next
  case (Cons t ts)
  let ?m = "nt_end t"
  have t: "nt_start t = a" "a < ?m" "token_chain ?m ts b" "is_char_boundary s a" "is_char_boundary s ?m" "?m \<le> length s"
    using Cons.prems by (auto simp: token_ok_def)
  from Cons.IH [OF t(3)] Cons.prems obtain ls where ls: "?m \<le> b" "map (lexeme s) ts = map Some ls" "concat ls = slice s ?m b"
    "[] \<notin> set ls" by auto
  have "lexeme s t = Some (slice s a ?m)" using t by (simp add: lexeme_def str_get_slice)
  moreover have "slice s a b = slice s a ?m @ slice s ?m b" using t ls by (intro slice_append) auto
  ultimately show ?case using t ls slice_nonempty [of a ?m s]
    by (intro conjI exI [of _ "slice s a ?m # ls"]) auto
qed


section \<open>The covering lexer\<close>

lemma lex_result:
  assumes "utf8_ok src" "abbrev_lexicon yaml = Some lexicon" "list_all (\<lambda>e. utf8_ok (snd e)) lexicon"
  shows "\<exists>ts. lex u yaml src = Some ts \<and> token_chain 0 ts (length src) \<and> list_all (token_ok u lexicon src) ts"
proof -
  have "lexicon_ok lexicon" using assms(3) abbrev_lexicon_result [OF assms(2)] by (auto simp: lexicon_ok_def list_all_iff)
  moreover have "is_char_boundary src 0" by (simp add: is_char_boundary_def)
  ultimately show ?thesis using lex_loop_result [OF assms(1), of lexicon 0 u] by (simp add: lex_def lex_with_def assms(2))
qed

text \<open>C11. 
  A source that is well-formed text is lexed without a panic, and the tokens cover it: each begins where the previous
  one ended, none is empty, both ends are character boundaries, and the text under a token is what its kind promises (an
  abbreviation token names an entry of the lexicon it matched). So the lexemes, one after the other, are the source again.
\<close>

theorem lex_covers:
  assumes "utf8_ok src" "abbrev_lexicon yaml = Some lexicon" "list_all (\<lambda>e. utf8_ok (snd e)) lexicon"
  shows "\<exists>ts ls. lex u yaml src = Some ts \<and> token_chain 0 ts (length src) \<and> list_all (token_ok u lexicon src) ts \<and>
    map (lexeme src) ts = map Some ls \<and> [] \<notin> set ls \<and> concat ls = src"
proof -
  from lex_result [OF assms] obtain ts where ts: "lex u yaml src = Some ts" "token_chain 0 ts (length src)"
    "list_all (token_ok u lexicon src) ts" by blast
  from chain_lexemes [OF ts(2,3)] obtain ls where "map (lexeme src) ts = map Some ls" "concat ls = slice src 0 (length src)"
    "[] \<notin> set ls" by auto
  with ts show ?thesis by (auto simp: slice_def)
qed

text \<open>
  A lexicon that passes the assertions of the parser has exactly one entry for each of the seventeen abbreviation ids,
  no empty lexeme, and is ordered longest lexeme first, so that the scanner, which takes the first match, takes the longest.
\<close>

theorem lexicon_complete:
  assumes "abbrev_lexicon yaml = Some lexicon"
  shows "mset (map fst lexicon) = mset NPA_ABBREV_IDS \<and> list_all (\<lambda>e. snd e \<noteq> []) lexicon \<and>
    sorted_wrt (\<lambda>a b. length (snd b) \<le> length (snd a)) lexicon"
  by (rule abbrev_lexicon_result [OF assms])

definition sample_lexicon_yaml :: string where
  "sample_lexicon_yaml = ''npa_abbrev_lexicon:'' @ [CHR 0x0A] @
     concat (map (\<lambda>i. ''  '' @ i @ '': '' @ i @ ''.'' @ [CHR 0x0A]) NPA_ABBREV_IDS)"

lemma sample_lexicon:
  "abbrev_lexicon sample_lexicon_yaml = Some (map (\<lambda>i. (i, i @ ''.''))
    [''stst'', ''podp'', ''razd'', ''pril'', ''prim'', ''abz'', ''red'', ''izm'', ''utv'',
     ''st'', ''ch'', ''pp'', ''gl'', ''sm'', ''sr'', ''p'', ''g''])"
  by code_simp

lemma lexicon_complete_witness:
  "mset (map fst [(''stst'', ''stst.''), (''podp'', ''podp.''), (''razd'', ''razd.''), (''pril'', ''pril.''), (''prim'', ''prim.''),
     (''abz'', ''abz.''), (''red'', ''red.''), (''izm'', ''izm.''), (''utv'', ''utv.''), (''st'', ''st.''), (''ch'', ''ch.''),
     (''pp'', ''pp.''), (''gl'', ''gl.''), (''sm'', ''sm.''), (''sr'', ''sr.''), (''p'', ''p.''), (''g'', ''g.'')]) = mset NPA_ABBREV_IDS"
  using lexicon_complete [OF sample_lexicon] by simp

lemma lex_covers_witness:
  "\<exists>ts ls. lex \<lparr>uni_alphanumeric = (\<lambda>c. c \<in> {''p'', ''1'', ''2''}), uni_lower = id, uni_alphabetic = (\<lambda>c. c = ''p'')\<rparr> sample_lexicon_yaml ''p. 1.2'' = Some ts \<and>
     token_chain 0 ts (length ''p. 1.2'') \<and> map (lexeme ''p. 1.2'') ts = map Some ls \<and> concat ls = ''p. 1.2''"
proof -
  have "utf8_ok ''p. 1.2''" by code_simp
  moreover have "list_all (\<lambda>e. utf8_ok (snd e)) (map (\<lambda>i. (i, i @ ''.''))
    [''stst'', ''podp'', ''razd'', ''pril'', ''prim'', ''abz'', ''red'', ''izm'', ''utv'',
     ''st'', ''ch'', ''pp'', ''gl'', ''sm'', ''sr'', ''p'', ''g''])" by code_simp
  ultimately have "utf8_ok ''p. 1.2'' \<and> list_all (\<lambda>e. utf8_ok (snd e)) (map (\<lambda>i. (i, i @ ''.''))
    [''stst'', ''podp'', ''razd'', ''pril'', ''prim'', ''abz'', ''red'', ''izm'', ''utv'',
     ''st'', ''ch'', ''pp'', ''gl'', ''sm'', ''sr'', ''p'', ''g''])" by (rule conjI)
  note lex_covers [OF conjunct1 [OF this] sample_lexicon conjunct2 [OF this],
    of "\<lparr>uni_alphanumeric = (\<lambda>c. c \<in> {''p'', ''1'', ''2''}), uni_lower = id, uni_alphabetic = (\<lambda>c. c = ''p'')\<rparr>"]
  then show ?thesis by (elim exE conjE) (intro exI conjI)
qed

end
