(* ===== verification/LN_Mentions.thy ===== *)
theory LN_Mentions
  imports LN_Lexer
begin

text \<open>
  The lexical candidates of \<open>ln-decode\<close> (files \<open>sentence.rs\<close>, \<open>references.rs\<close>, \<open>temporal.rs\<close>, \<open>morphology.rs\<close>,
  \<open>deontic.rs\<close>): sentences, mentions of an article or a point with a number, phrases on the entry into force, and the
  legal markers with the deontic ones among them. A slice outside the character boundaries is a panic, \<open>None\<close>; the parameters
  \<open>u\<close> and \<open>lower\<close> are the Unicode tables. The first group of theorems is that nothing here panics and that sentences and
  words cover the text; the second what a mention, a phrase and a marker say of the text they were read from.
\<close>

section \<open>Russian words\<close>

text \<open>
  The small letters, one ASCII character for each, in the order of the alphabet from U+0430; \<open>E\<close> is the letter \<open>io\<close>, U+0451.
  So \<open>x\<close> is the soft sign, \<open>C\<close> \<open>che\<close>, \<open>W\<close> \<open>shcha\<close>, \<open>U\<close> \<open>yu\<close>, \<open>A\<close> \<open>ya\<close>.
\<close>

definition ru_letter :: "char \<Rightarrow> nat" where
  "ru_letter c = (if c = CHR ''E'' then 0x451
     else 0x430 + length (takeWhile (\<lambda>d. d \<noteq> c) ''abvgdeZzijklmnoprstufhcCSWQyxRUA''))"

definition ru :: "string \<Rightarrow> string" where
  "ru w = utf8 (map ru_letter w)"

section \<open>Sentences\<close>

definition LEGAL_ABBREVIATIONS :: "string list" where
  "LEGAL_ABBREVIATIONS = map ru [''st'', ''p'', ''C'', ''red'', ''g'']"

definition CLOSING_PUNCTUATION :: "string list" where
  "CLOSING_PUNCTUATION = [utf8 [0xBB], utf8 [0x201D], [CHR 0x22], [CHR 0x27], '')'', '']'', ''}'']"

definition previous_char :: "string \<Rightarrow> nat \<Rightarrow> string option option" where
  "previous_char s i = map_option last_char (str_get s 0 i)"

definition next_char :: "string \<Rightarrow> nat \<Rightarrow> string option option" where
  "next_char s i = map_option first_char (rest_from s i)"

fun run_start :: "(string \<Rightarrow> bool) \<Rightarrow> nat \<Rightarrow> (nat \<times> string) list \<Rightarrow> nat" where
  "run_start P start [] = start"
| "run_start P start ((i, c) # rest) = (if \<not> P c then start else run_start P i rest)"

definition word_before :: "lex_unicode \<Rightarrow> string \<Rightarrow> nat \<Rightarrow> string option" where
  "word_before u s e = do {
     head \<leftarrow> str_get s 0 e;
     str_get s (run_start (uni_alphabetic u) e (rev (char_indices head))) e
   }"

text \<open>\<open>Option::is_some_and\<close>\<close>

definition is_some_and :: "('a \<Rightarrow> bool) \<Rightarrow> 'a option \<Rightarrow> bool" where
  "is_some_and P x = (case x of None \<Rightarrow> False | Some y \<Rightarrow> P y)"

lemma is_some_and_simps [simp]: "is_some_and P None = False" "is_some_and P (Some x) = P x"
  by (simp_all add: is_some_and_def)

definition is_decimal_point :: "string \<Rightarrow> nat \<Rightarrow> bool option" where
  "is_decimal_point s i = do {
     before \<leftarrow> previous_char s i;
     if is_some_and is_ascii_digit_char before
     then map_option (is_some_and is_ascii_digit_char) (next_char s (i + 1))
     else Some False
   }"

definition is_legal_abbreviation :: "lex_unicode \<Rightarrow> (string \<Rightarrow> string) \<Rightarrow> string \<Rightarrow> nat \<Rightarrow> bool option" where
  "is_legal_abbreviation u lower s i = map_option (\<lambda>w. lower w \<in> set LEGAL_ABBREVIATIONS) (word_before u s i)"

definition is_numeric_list_marker :: "string \<Rightarrow> nat \<Rightarrow> nat \<Rightarrow> bool option" where
  "is_numeric_list_marker s segment_start i = do {
     segment \<leftarrow> str_get s segment_start i;
     let candidate = str_trim segment in
     if candidate \<noteq> [] \<and> list_all is_ascii_digit_char (str_chars candidate)
     then map_option (is_some_and is_whitespace) (next_char s (i + 1))
     else Some False
   }"

definition trimmed_span :: "string \<Rightarrow> nat \<Rightarrow> nat \<Rightarrow> decoded_span option option" where
  "trimmed_span s start e = do {
     candidate \<leftarrow> str_get s start e;
     let visible = (\<lambda>x. \<not> is_whitespace (snd x)) in
     Some (case find visible (char_indices candidate) of
         None \<Rightarrow> None
       | Some (left, _) \<Rightarrow>
           (case find visible (rev (char_indices candidate)) of
              None \<Rightarrow> None
            | Some (right, c) \<Rightarrow> expect (decoded_span_try_new (start + left) (start + right + length c))))
   }"

definition is_terminal :: "lex_unicode \<Rightarrow> (string \<Rightarrow> string) \<Rightarrow> string \<Rightarrow> nat \<Rightarrow> nat \<Rightarrow> string \<Rightarrow> bool option" where
  "is_terminal u lower s segment_start i c =
     (if c \<in> {''!'', ''?''} then Some True
      else if c \<noteq> ''.'' then Some False
      else do {
        decimal \<leftarrow> is_decimal_point s i;
        if decimal then Some False else do {
          abbreviation \<leftarrow> is_legal_abbreviation u lower s i;
          if abbreviation then Some False else map_option Not (is_numeric_list_marker s segment_start i)
        }
      })"

definition sentence_end :: "string \<Rightarrow> nat \<Rightarrow> nat option" where
  "sentence_end s first_end = do {
     punctuation_end \<leftarrow> scan_while s first_end (\<lambda>c. c \<in> {''.'', ''!'', ''?''});
     scan_while s punctuation_end (\<lambda>c. c \<in> set CLOSING_PUNCTUATION)
   }"

text \<open>The loop over \<open>char_indices\<close>; the second component of the result is the start of the open segment.\<close>

fun sentence_loop :: "lex_unicode \<Rightarrow> (string \<Rightarrow> string) \<Rightarrow> string \<Rightarrow> (nat \<times> string) list \<Rightarrow> nat \<Rightarrow> nat \<Rightarrow> decoded_span list \<Rightarrow>
    (decoded_span list \<times> nat) option" where
  "sentence_loop u lower s [] segment_start consumed sentences = Some (sentences, segment_start)"
| "sentence_loop u lower s ((i, c) # rest) segment_start consumed sentences =
     (if i < consumed then sentence_loop u lower s rest segment_start consumed sentences
      else do {
        terminal \<leftarrow> is_terminal u lower s segment_start i c;
        if \<not> terminal then sentence_loop u lower s rest segment_start consumed sentences
        else do {
          e \<leftarrow> sentence_end s (i + length c);
          sentence \<leftarrow> trimmed_span s segment_start e;
          sentence_loop u lower s rest e e
            (case sentence of None \<Rightarrow> sentences | Some x \<Rightarrow> sentences @ [x])
        }
      })"

definition split_legal_sentences :: "lex_unicode \<Rightarrow> (string \<Rightarrow> string) \<Rightarrow> string \<Rightarrow> decoded_span list option" where
  "split_legal_sentences u lower s = do {
     (sentences, segment_start) \<leftarrow> sentence_loop u lower s (char_indices s) 0 0 [];
     sentence \<leftarrow> trimmed_span s segment_start (length s);
     Some (case sentence of None \<Rightarrow> sentences | Some x \<Rightarrow> sentences @ [x])
   }"

section \<open>References\<close>

datatype reference_mention_kind = RmArticle | RmPoint

record reference_mention =
  rm_kind :: reference_mention_kind
  rm_number :: string
  rm_text_span :: decoded_span
  rm_term_span :: decoded_span
  rm_number_span :: decoded_span

definition classify_term :: "string \<Rightarrow> reference_mention_kind option" where
  "classify_term term =
     (if term \<in> set (map ru [''statxA'', ''statxi'', ''statxe'', ''statxU'', ''statej'', ''statxEj'', ''statxej'',
        ''statxAmi'', ''statxAh'']) then Some RmArticle
      else if term \<in> set (map ru [''punkt'', ''punkta'', ''punktu'', ''punktom'', ''punkte'', ''punkty'', ''punktov'',
        ''punktam'', ''punktami'', ''punktah'']) then Some RmPoint
      else None)"

text \<open>The number in front of \<open>pos\<close> goes on as long as a dot and a digit follow.\<close>

function dotted_end :: "string \<Rightarrow> nat \<Rightarrow> nat" where
  "dotted_end s e =
     (if byte_at s e \<noteq> Some (CHR ''.'') then e
      else if \<not> digit_at s (e + 1) then e
      else dotted_end s (skip_digits s (e + 1)))"
  by pat_completeness auto
termination
proof (relation "measure (\<lambda>(s, e). length s - e)")
  fix s e assume a: "\<not> byte_at s e \<noteq> Some (CHR ''.'')"
  have "e + 1 \<le> skip_digits s (e + 1)" by (rule skip_digits_bounds(1))
  moreover have "e < length s" using a by (simp add: byte_at_def split: if_splits)
  ultimately show "((s, skip_digits s (e + 1)), s, e) \<in> measure (\<lambda>(s, e). length s - e)" by simp
qed simp

declare dotted_end.simps [simp del]

definition number_refused :: "lex_unicode \<Rightarrow> string \<Rightarrow> bool" where
  "number_refused u remainder =
     (starts_with ''..'' remainder \<or>
      starts_with ''.'' remainder \<and> is_some_and (uni_alphabetic u) (first_char (drop 1 remainder)) \<or>
      is_some_and (\<lambda>c. uni_alphabetic u c \<or> c = ''_'') (first_char remainder))"

definition number_after :: "lex_unicode \<Rightarrow> string \<Rightarrow> nat \<Rightarrow> (nat \<times> nat) option option" where
  "number_after u s term_end = do {
     number_start \<leftarrow> scan_while s term_end (\<lambda>c. c = '' '' \<or> c = [CHR 0x09]);
     if number_start = term_end then Some None
     else if \<not> digit_at s number_start then Some None
     else let e = dotted_end s (skip_digits s number_start) in do {
       remainder \<leftarrow> rest_from s e;
       Some (if number_refused u remainder then None else Some (number_start, e))
     }
   }"

fun reference_mentions :: "lex_unicode \<Rightarrow> string \<Rightarrow> word_view list \<Rightarrow> reference_mention list option" where
  "reference_mentions u s [] = Some []"
| "reference_mentions u s (t # ts) =
     (case classify_term (wv_normalized t) of
        None \<Rightarrow> reference_mentions u s ts
      | Some kind \<Rightarrow> do {
          span \<leftarrow> number_after u s (wv_end t);
          case span of
            None \<Rightarrow> reference_mentions u s ts
          | Some (number_start, number_end) \<Rightarrow> do {
              number \<leftarrow> str_get s number_start number_end;
              text_span \<leftarrow> expect (decoded_span_try_new (wv_start t) number_end);
              term_span \<leftarrow> expect (decoded_span_try_new (wv_start t) (wv_end t));
              number_span \<leftarrow> expect (decoded_span_try_new number_start number_end);
              map_option (Cons \<lparr>rm_kind = kind, rm_number = number, rm_text_span = text_span, rm_term_span = term_span,
                rm_number_span = number_span\<rparr>) (reference_mentions u s ts)
            }
        })"

definition extract_reference_mentions :: "lex_unicode \<Rightarrow> (string \<Rightarrow> string) \<Rightarrow> parsed_block \<Rightarrow> reference_mention list option" where
  "extract_reference_mentions u lower block =
     (if pb_style block = PsProviderComment then Some []
      else Option.bind (tokenize_words u lower (pb_text block)) (reference_mentions u (pb_text block)))"

section \<open>Temporal phrases\<close>

datatype temporal_phrase_kind = EntersIntoForce | LosesForce

record temporal_phrase =
  tp_kind :: temporal_phrase_kind
  tp_text_span :: decoded_span

definition is_horizontal_gap :: "string \<Rightarrow> word_view \<Rightarrow> word_view \<Rightarrow> bool option" where
  "is_horizontal_gap s left right =
     map_option (\<lambda>gap. gap \<noteq> [] \<and> list_all (\<lambda>c. c = '' '' \<or> c = [CHR 0x09]) (str_chars gap))
       (str_get s (wv_end left) (wv_start right))"

definition entry_verb :: "string \<Rightarrow> bool" where
  "entry_verb w = (w \<in> set (map ru [''vstupaet'', ''vstupil'', ''vstupaUt'']))"

definition loss_verb :: "string \<Rightarrow> bool" where
  "loss_verb w = (w \<in> set (map ru [''utraCivaet'', ''utratil'', ''utraCivaUt'']))"

text \<open>The phrase that begins with the first of the words, where there is one.\<close>

definition phrase_at :: "string \<Rightarrow> word_view list \<Rightarrow> temporal_phrase option option" where
  "phrase_at s ws =
     (case ws of
        [] \<Rightarrow> Some None
      | first # rest \<Rightarrow>
          if entry_verb (wv_normalized first)
          then (case rest of
              second # third # _ \<Rightarrow>
                if wv_normalized second = ru ''v'' \<and> wv_normalized third = ru ''silu'' then do {
                  a \<leftarrow> is_horizontal_gap s first second;
                  b \<leftarrow> (if a then is_horizontal_gap s second third else Some False);
                  if b then map_option (\<lambda>span. Some \<lparr>tp_kind = EntersIntoForce, tp_text_span = span\<rparr>)
                      (expect (decoded_span_try_new (wv_start first) (wv_end third)))
                  else Some None
                }
                else Some None
            | _ \<Rightarrow> Some None)
          else if loss_verb (wv_normalized first)
          then (case rest of
              second # _ \<Rightarrow>
                if wv_normalized second = ru ''silu'' then do {
                  a \<leftarrow> is_horizontal_gap s first second;
                  if a then map_option (\<lambda>span. Some \<lparr>tp_kind = LosesForce, tp_text_span = span\<rparr>)
                      (expect (decoded_span_try_new (wv_start first) (wv_end second)))
                  else Some None
                }
                else Some None
            | _ \<Rightarrow> Some None)
          else Some None)"

fun temporal_phrases :: "string \<Rightarrow> word_view list \<Rightarrow> temporal_phrase list option" where
  "temporal_phrases s [] = Some []"
| "temporal_phrases s (first # rest) = do {
     phrase \<leftarrow> phrase_at s (first # rest);
     map_option (\<lambda>ps. case phrase of None \<Rightarrow> ps | Some p \<Rightarrow> p # ps) (temporal_phrases s rest)
   }"

definition extract_temporal_phrases :: "lex_unicode \<Rightarrow> (string \<Rightarrow> string) \<Rightarrow> parsed_block \<Rightarrow> temporal_phrase list option" where
  "extract_temporal_phrases u lower block =
     (if pb_style block = PsProviderComment then Some []
      else Option.bind (tokenize_words u lower (pb_text block)) (temporal_phrases (pb_text block)))"

section \<open>Legal markers\<close>

datatype legal_marker_kind = LmStatya | LmPunkt | LmObyazan | LmVprave | LmZapret | LmGlava | LmChast | LmPodpunkt | LmRazdel

record morphology_match =
  mm_kind :: legal_marker_kind
  mm_text_span :: decoded_span
  mm_negated :: bool

definition MARKER_FORMS :: "(legal_marker_kind \<times> string list) list" where
  "MARKER_FORMS =
     [(LmStatya, [''statxA'', ''statxi'', ''statxe'', ''statxU'', ''statxEj'', ''statxej'', ''statxAmi'', ''statxAh'']),
      (LmPunkt, [''punkt'', ''punkta'', ''punktu'', ''punktom'', ''punkte'', ''punkty'', ''punktov'', ''punktam'', ''punktami'',
        ''punktah'']),
      (LmGlava, [''glava'', ''glavy'', ''glave'', ''glavu'', ''glavoj'', ''glavoU'', ''glavam'', ''glavami'', ''glavah'',
        ''glav'']),
      (LmChast, [''Castx'', ''Casti'', ''CastxU'', ''CasteU'', ''Castej'', ''CastAm'', ''CastAmi'', ''CastAh'']),
      (LmPodpunkt, [''podpunkt'', ''podpunkta'', ''podpunktu'', ''podpunktom'', ''podpunkte'', ''podpunkty'', ''podpunktov'',
        ''podpunktam'', ''podpunktami'', ''podpunktah'']),
      (LmRazdel, [''razdel'', ''razdela'', ''razdelu'', ''razdelom'', ''razdele'', ''razdely'', ''razdelov'', ''razdelam'',
        ''razdelami'', ''razdelah'']),
      (LmObyazan, [''obAzan'', ''obAzana'', ''obAzano'', ''obAzany'']),
      (LmVprave, [''vprave'']),
      (LmZapret, [''zapreWaetsA'', ''zapreWen'', ''zapreWEn'', ''zapreWena'', ''zapreWeno'', ''zapreWeny''])]"

definition classify :: "string \<Rightarrow> legal_marker_kind option" where
  "classify word = map_option fst (find (\<lambda>(kind, forms). word \<in> set (map ru forms)) MARKER_FORMS)"

text \<open>The loop over the tokens; \<open>previous\<close> is the token in front.\<close>

fun marker_loop :: "string \<Rightarrow> word_view option \<Rightarrow> word_view list \<Rightarrow> morphology_match list option" where
  "marker_loop s previous [] = Some []"
| "marker_loop s previous (t # ts) =
     (case classify (wv_normalized t) of
        None \<Rightarrow> marker_loop s (Some t) ts
      | Some kind \<Rightarrow> do {
          negated \<leftarrow> (case previous of
              None \<Rightarrow> Some False
            | Some p \<Rightarrow>
                if wv_normalized p = ru ''ne''
                then map_option (\<lambda>gap. list_all is_whitespace (str_chars gap)) (str_get s (wv_end p) (wv_start t))
                else Some False);
          span \<leftarrow> expect (decoded_span_try_new (wv_start t) (wv_end t));
          map_option (Cons \<lparr>mm_kind = kind, mm_text_span = span, mm_negated = negated\<rparr>) (marker_loop s (Some t) ts)
        })"

definition find_legal_markers :: "lex_unicode \<Rightarrow> (string \<Rightarrow> string) \<Rightarrow> string \<Rightarrow> string \<Rightarrow> morphology_match list option" where
  "find_legal_markers u lower yaml s = Option.bind (words_from_covering u lower yaml s) (marker_loop s None)"

datatype deontic_lexeme_kind = DxObligation | DxPermission | DxProhibition

record deontic_lexeme =
  dx_kind :: deontic_lexeme_kind
  dx_text_span :: decoded_span
  dx_negated :: bool

fun deontic_kind :: "legal_marker_kind \<Rightarrow> deontic_lexeme_kind option" where
  "deontic_kind LmObyazan = Some DxObligation"
| "deontic_kind LmVprave = Some DxPermission"
| "deontic_kind LmZapret = Some DxProhibition"
| "deontic_kind _ = None"

definition deontic_of :: "morphology_match \<Rightarrow> deontic_lexeme option" where
  "deontic_of m = map_option (\<lambda>kind. \<lparr>dx_kind = kind, dx_text_span = mm_text_span m, dx_negated = mm_negated m\<rparr>)
     (deontic_kind (mm_kind m))"

definition extract_deontic_lexemes :: "lex_unicode \<Rightarrow> (string \<Rightarrow> string) \<Rightarrow> string \<Rightarrow> parsed_block \<Rightarrow> deontic_lexeme list option" where
  "extract_deontic_lexemes u lower yaml block =
     (if pb_style block = PsProviderComment then Some []
      else map_option (List.map_filter deontic_of) (find_legal_markers u lower yaml (pb_text block)))"

section \<open>Cutting a text\<close>

lemma slice_whole: "slice s 0 (length s) = s"
  by (simp add: slice_def)

lemma slice_chars:
  assumes "a \<le> b" "b \<le> c" "c \<le> length s" "is_char_boundary s b"
  shows "str_chars (slice s a c) = str_chars (slice s a b) @ str_chars (slice s b c)"
proof (cases "b = 0 \<or> b = c")
  case True
  then show ?thesis using assms by (auto simp: slice_def str_chars_simps)
next
  case False
  then have "hd (slice s b c) = s ! b" "\<not> cont (s ! b)"
    using assms by (auto simp: slice_def is_char_boundary_def hd_drop_conv_nth)
  then show ?thesis using assms(1,2) by (simp add: slice_append [of a b c] str_chars_append)
qed

lemma slice_slice: "a + y \<le> b \<Longrightarrow> b \<le> length s \<Longrightarrow> slice (slice s a b) x y = slice s (a + x) (a + y)"
  by (simp add: slice_def drop_take min_def add.commute)

lemma slice_boundary:
  assumes "is_char_boundary s a" "is_char_boundary s b" "a \<le> b" "b \<le> length s"
    and "is_char_boundary (slice s a b) x" "x \<le> b - a"
  shows "is_char_boundary s (a + x)"
proof (cases "x = 0 \<or> x = b - a")
  case True
  then show ?thesis using assms by auto
next
  case False
  then show ?thesis using assms by (auto simp: is_char_boundary_def slice_def)
qed

text \<open>The suffixes of \<open>char_indices\<close>.\<close>

lemma chars_from_step:
  assumes "is_char_boundary s p" "p \<le> length s" "chars_from p (drop p s) = (i, c) # cs"
  shows "i = p \<and> p < length s \<and> first_char (drop p s) = Some c \<and> good_end s p (p + length c) \<and>
    slice s p (p + length c) = c \<and> cs = chars_from (p + length c) (drop (p + length c) s)"
proof -
  have "p < length s" using assms(2,3) by (cases "p = length s") auto
  moreover have first: "first_char (drop p s) = Some c" using map_snd_chars_from [of p "drop p s", symmetric] assms(3) by (simp add: first_char_eq)
  moreover have "i = p \<and> cs = chars_from (p + length c) (drop (p + length c) s)"
  proof (cases "drop p s")
    case Nil
    with assms(3) show ?thesis by simp
  next
    case (Cons d r)
    then have "r = drop (Suc p) s" by (metis drop_Suc tl_drop list.sel(3))
    moreover have c: "c = d # takeWhile cont r" "i = p" "cs = chars_from (p + Suc (length (takeWhile cont r))) (dropWhile cont r)"
      using assms(3) Cons by auto
    moreover have "dropWhile cont r = drop (length (takeWhile cont r)) r" by (rule dropWhile_eq_drop)
    ultimately show ?thesis by (simp add: add.commute)
  qed
  ultimately show ?thesis using first_char_slice [OF assms(1)] by auto
qed

text \<open>
  Spans that cut a text from \<open>a\<close> to \<open>b\<close>: in order, none empty, on character boundaries, the text under each as \<open>Q\<close> says,
  and nothing but characters of \<open>P\<close> in between.
\<close>

fun text_cover :: "(string \<Rightarrow> bool) \<Rightarrow> (string \<Rightarrow> bool) \<Rightarrow> string \<Rightarrow> nat \<Rightarrow> decoded_span list \<Rightarrow> nat \<Rightarrow> bool" where
  "text_cover P Q s a [] b = (a \<le> b \<and> list_all P (str_chars (slice s a b)))"
| "text_cover P Q s a (t # ts) b =
     (a \<le> ds_start t \<and> list_all P (str_chars (slice s a (ds_start t))) \<and> is_char_boundary s (ds_start t) \<and>
      good_end s (ds_start t) (ds_end t) \<and> Q (slice s (ds_start t) (ds_end t)) \<and> text_cover P Q s (ds_end t) ts b)"

lemma text_cover_le: "text_cover P Q s a ts b \<Longrightarrow> a \<le> b"
  by (induction ts arbitrary: a) (auto simp: good_end_def, meson le_trans less_imp_le)

lemma gap_append:
  assumes "list_all P (str_chars (slice s a b))" "list_all P (str_chars (slice s b c))" "a \<le> b" "b \<le> c" "c \<le> length s"
    "is_char_boundary s b"
  shows "list_all P (str_chars (slice s a c))"
  using assms by (simp add: slice_chars [of a b c])

lemma text_cover_extend:
  assumes "list_all P (str_chars (slice s a b))" "a \<le> b" "is_char_boundary s b" "text_cover P Q s b ts c" "c \<le> length s"
  shows "text_cover P Q s a ts c"
proof (cases ts)
  case Nil
  with assms show ?thesis by (auto intro: gap_append)
next
  case (Cons t us)
  with assms show ?thesis by (auto intro: gap_append simp: good_end_def)
qed

lemma text_cover_append:
  assumes "text_cover P Q s a ts b" "text_cover P Q s b us c" "is_char_boundary s b" "c \<le> length s"
  shows "text_cover P Q s a (ts @ us) c"
  using assms(1)
proof (induction ts arbitrary: a)
  case Nil
  then show ?case using text_cover_extend [OF _ _ assms(3,2,4)] by simp
qed auto

section \<open>Sentences cut the text\<close>

definition sentence_text :: "string \<Rightarrow> bool" where
  "sentence_text x = (\<exists>c d. first_char x = Some c \<and> last_char x = Some d \<and> \<not> is_whitespace c \<and> \<not> is_whitespace d)"

lemma char_start_total: "char_start (str_chars s) (length (str_chars s)) = length s"
  by (simp add: char_start_def)

lemma hd_case: "xs \<noteq> [] \<Longrightarrow> (case xs of [] \<Rightarrow> None | c # cs \<Rightarrow> Some c) = Some (hd xs)"
  by (cases xs) simp_all

lemma visible_cut:
  assumes "find (\<lambda>x. \<not> P (snd x)) (char_indices s) = Some (left, c)"
  shows "\<exists>r d. find (\<lambda>x. \<not> P (snd x)) (rev (char_indices s)) = Some (r, d) \<and>
    left < r + length d \<and> r + length d \<le> length s \<and> is_char_boundary s left \<and> is_char_boundary s (r + length d) \<and>
    list_all P (str_chars (slice s 0 left)) \<and> list_all P (str_chars (slice s (r + length d) (length s))) \<and>
    first_char (slice s left (r + length d)) = Some c \<and> last_char (slice s left (r + length d)) = Some d \<and> \<not> P c \<and> \<not> P d"
proof -
  let ?cs = "str_chars s" and ?ci = "char_indices s"
  have len: "length ?ci = length ?cs" by (simp add: str_chars_def)
  from assms obtain i where i: "i < length ?cs" "?ci ! i = (left, c)" "\<not> P c" "\<forall>j<i. P (snd (?ci ! j))"
    by (auto simp: find_Some_iff len) (metis snd_conv)
  then have left: "left = char_start ?cs i" "c = ?cs ! i" by (simp_all add: char_indices_nth)
  have "(left, c) \<in> set (rev ?ci)" using i(1,2) by (metis len nth_mem set_rev)
  then obtain x where x: "find (\<lambda>x. \<not> P (snd x)) (rev ?ci) = Some x"
    using i(3) by (cases "find (\<lambda>x. \<not> P (snd x)) (rev ?ci)") (auto simp: find_None_iff)
  then obtain r d where rd: "x = (r, d)" by (cases x)
  from x obtain j where j: "j < length ?cs" "rev ?ci ! j = (r, d)" "\<not> P d" "\<forall>k<j. P (snd (rev ?ci ! k))"
    by (auto simp: find_Some_iff len rd) (metis snd_conv)
  define k where "k = length ?cs - Suc j"
  have k: "k < length ?cs" "?ci ! k = (r, d)" using j by (auto simp: k_def rev_nth len)
  then have r: "r = char_start ?cs k" "d = ?cs ! k" by (simp_all add: char_indices_nth)
  have le: "i \<le> k"
  proof (rule ccontr)
    assume "\<not> i \<le> k"
    then have "P (snd (?ci ! k))" using i(4) by simp
    with k j(3) show False by simp
  qed
  have "\<forall>m. k < m \<and> m < length ?cs \<longrightarrow> P (?cs ! m)"
  proof (intro allI impI)
    fix m assume m: "k < m \<and> m < length ?cs"
    then have "length ?cs - Suc m < j" by (auto simp: k_def)
    then have "P (snd (rev ?ci ! (length ?cs - Suc m)))" using j(4) by blast
    moreover have "rev ?ci ! (length ?cs - Suc m) = ?ci ! m"
    proof -
      have "length ?cs - Suc m < length ?ci" using m len by linarith
      from rev_nth [OF this] show ?thesis using m by (simp add: len)
    qed
    ultimately show "P (?cs ! m)" using m by (simp add: char_indices_nth)
  qed
  then have tail: "list_all P (drop (Suc k) ?cs)" using k(1) by (auto simp: list_all_iff in_set_conv_nth)
  have head: "list_all P (take i ?cs)" using i(1,4) by (auto simp: list_all_iff in_set_conv_nth char_indices_nth)
  have e: "r + length d = char_start ?cs (Suc k)" using k(1) r by (simp add: char_start_Suc)
  have total: "char_start ?cs (length ?cs) = length s" by (rule char_start_total)
  note mid = str_get_chars [of i "Suc k" s] str_chars_slice [of i "Suc k" s]
  note lead = str_get_chars [of 0 i s] str_chars_slice [of 0 i s]
  note trail = str_get_chars [of "Suc k" "length ?cs" s] str_chars_slice [of "Suc k" "length ?cs" s]
  have cut: "str_chars (slice s left (r + length d)) = take (Suc k - i) (drop i ?cs)"
    "is_char_boundary s left" "is_char_boundary s (r + length d)" "left \<le> r + length d"
    using mid le k(1) unfolding e left(1) by (auto simp: str_get_def slice_def split: if_splits)
  have gaps: "str_chars (slice s 0 left) = take i ?cs" "str_chars (slice s (r + length d) (length s)) = drop (Suc k) ?cs"
    using lead trail i(1) k(1) le total unfolding e left(1) by (auto simp: str_get_def slice_def char_start_def split: if_splits)
  have bounds: "left < r + length d" "r + length d \<le> length s"
    using char_start_less [OF str_chars_nonempty, of i "Suc k" s] char_start_mono [of "Suc k" "length ?cs" ?cs] le k(1) total
    unfolding e left(1) by simp_all
  have "take (Suc k - i) (drop i ?cs) \<noteq> []" using le k(1) by simp
  moreover have "hd (take (Suc k - i) (drop i ?cs)) = c" using le i(1) left(2) by (simp add: hd_drop_conv_nth)
  moreover have "min (length ?cs - i) (Suc k - i) = Suc k - i" using k(1) by (intro min.absorb2 diff_le_mono) simp
  then have "last (take (Suc k - i) (drop i ?cs)) = d" using le k(1) r(2) by (simp add: last_conv_nth Suc_diff_le)
  ultimately have "first_char (slice s left (r + length d)) = Some c" "last_char (slice s left (r + length d)) = Some d"
    unfolding first_char_eq last_char_eq cut(1) by (simp_all only: hd_case if_False simp_thms not_False_eq_True)
  with cut gaps bounds head tail i(3) j(3) x rd show ?thesis by simp
qed

lemma trimmed_span_cover:
  assumes "is_char_boundary s a" "is_char_boundary s b" "a \<le> b" "b \<le> length s"
  shows "\<exists>r. trimmed_span s a b = Some r \<and>
    text_cover is_whitespace sentence_text s a (case r of None \<Rightarrow> [] | Some t \<Rightarrow> [t]) b"
proof -
  let ?c = "slice s a b"
  have get: "str_get s a b = Some ?c" by (rule str_get_slice [OF assms(3,1,2)])
  show ?thesis
  proof (cases "find (\<lambda>x. \<not> is_whitespace (snd x)) (char_indices ?c)")
    case None
    then have "list_all is_whitespace (str_chars ?c)" by (auto simp: find_None_iff list_all_iff str_chars_def)
    with None get assms(3) show ?thesis by (simp add: trimmed_span_def Let_def)
  next
    case (Some x)
    obtain left c where x: "x = (left, c)" by (cases x)
    from visible_cut [OF Some [unfolded x]] obtain r d where
      f: "find (\<lambda>x. \<not> is_whitespace (snd x)) (rev (char_indices ?c)) = Some (r, d)" and
      le: "left < r + length d" "r + length d \<le> length ?c" and
      bd: "is_char_boundary ?c left" "is_char_boundary ?c (r + length d)" and
      gaps: "list_all is_whitespace (str_chars (slice ?c 0 left))"
        "list_all is_whitespace (str_chars (slice ?c (r + length d) (length ?c)))" and
      sent: "sentence_text (slice ?c left (r + length d))"
      unfolding sentence_text_def by metis
    have len: "length ?c = b - a" using assms(3,4) by (simp add: slice_def)
    have range: "left \<le> b - a" "r + length d \<le> b - a" using le len by simp_all
    have cuts: "slice ?c 0 left = slice s a (a + left)" "slice ?c (r + length d) (length ?c) = slice s (a + r + length d) b"
      "slice ?c left (r + length d) = slice s (a + left) (a + r + length d)"
      using range assms(3,4) len by (simp_all add: slice_slice add.assoc)
    have "trimmed_span s a b = Some (Some (DecodedSpan (a + left) (a + r + length d)))"
      using get Some x f le(1) by (simp add: trimmed_span_def Let_def decoded_span_try_new_def)
    moreover have "is_char_boundary s (a + left)" "is_char_boundary s (a + r + length d)"
      using slice_boundary [OF assms bd(1) range(1)] slice_boundary [OF assms bd(2) range(2)] by (simp_all add: add.assoc)
    ultimately show ?thesis using gaps sent range le(1) assms(3,4) unfolding cuts by (auto simp: good_end_def)
  qed
qed

lemma sentence_end_result:
  assumes "is_char_boundary s p" "p \<le> length s"
  shows "\<exists>e. sentence_end s p = Some e \<and> p \<le> e \<and> e \<le> length s \<and> is_char_boundary s e"
proof -
  obtain q where q: "scan_while s p (\<lambda>c. c \<in> {''.'', ''!'', ''?''}) = Some q" "p \<le> q" "q \<le> length s" "is_char_boundary s q"
    using scan_while_boundary [OF assms, of "\<lambda>c. c \<in> {''.'', ''!'', ''?''}"] by blast
  obtain e where "scan_while s q (\<lambda>c. c \<in> set CLOSING_PUNCTUATION) = Some e" "q \<le> e" "e \<le> length s" "is_char_boundary s e"
    using scan_while_boundary [OF q(4,3), of "\<lambda>c. c \<in> set CLOSING_PUNCTUATION"] by blast
  with q show ?thesis by (auto simp: sentence_end_def)
qed

lemma run_start_boundary:
  assumes "set xs \<subseteq> set (char_indices r)"
  shows "run_start P e xs = e \<or> is_char_boundary r (run_start P e xs) \<and> run_start P e xs \<le> length r"
  using assms
proof (induction P e xs rule: run_start.induct)
  case (2 P start i c rest)
  from 2(2) have "is_char_boundary r i" "i \<le> length r" using char_indices_mem [of i c r] by auto
  with 2 show ?case by auto
qed simp

lemma word_before_total:
  assumes "is_char_boundary s e" "e \<le> length s"
  shows "word_before u s e \<noteq> None"
proof -
  have zero: "is_char_boundary s 0" by (simp add: is_char_boundary_def)
  have get: "str_get s 0 e = Some (slice s 0 e)" by (rule str_get_slice [OF _ zero assms(1)]) simp
  let ?r = "slice s 0 e"
  have len: "length ?r = e" using assms(2) by (simp add: slice_def)
  define x where "x = run_start (uni_alphabetic u) e (rev (char_indices ?r))"
  have "x = e \<or> is_char_boundary ?r x \<and> x \<le> e"
    unfolding x_def using run_start_boundary [of "rev (char_indices ?r)" ?r] len by simp
  then have "x \<le> e" "is_char_boundary s x" using slice_boundary [OF zero assms(1) _ assms(2), of x] assms by auto
  then have "str_get s x e \<noteq> None" using str_get_slice [OF _ _ assms(1)] by simp
  with get show ?thesis by (simp add: word_before_def x_def)
qed

lemma is_terminal_total:
  assumes "is_char_boundary s i" "i + length c \<le> length s" "is_char_boundary s (i + length c)" "seg \<le> i" "is_char_boundary s seg"
  shows "is_terminal u lower s seg i c \<noteq> None"
proof (cases "c = ''.''")
  case True
  have zero: "is_char_boundary s 0" by (simp add: is_char_boundary_def)
  obtain h where h: "str_get s 0 i = Some h" using str_get_slice [OF _ zero assms(1)] by simp
  obtain g where g: "str_get s seg i = Some g" using str_get_slice [OF assms(4,5,1)] by simp
  obtain r where r: "rest_from s (i + 1) = Some r" using rest_from_boundary [of s "i + 1"] assms(2,3) True by simp
  obtain w where w: "word_before u s i = Some w" using assms(1,2) word_before_total [of s i u] by fastforce
  obtain d where d: "is_decimal_point s i = Some d"
    by (cases "is_some_and is_ascii_digit_char (last_char h)") (simp_all add: is_decimal_point_def previous_char_def next_char_def h r [simplified])
  obtain m where m: "is_numeric_list_marker s seg i = Some m"
    by (cases "str_trim g \<noteq> [] \<and> list_all is_ascii_digit_char (str_chars (str_trim g))")
      (simp_all only: is_numeric_list_marker_def next_char_def Let_def g r bind.bind_lunit if_True if_False option.simps, auto)
  show ?thesis using True by (cases d; cases "lower w \<in> set LEGAL_ABBREVIATIONS") (simp_all add: is_terminal_def d is_legal_abbreviation_def w m)
next
  case False
  then show ?thesis by (cases "c \<in> {''!'', ''?''}") (simp_all add: is_terminal_def)
qed

lemma sentence_loop_cover:
  assumes "xs = chars_from p (drop p s)" "is_char_boundary s p" "p \<le> length s" "is_char_boundary s seg" "seg \<le> length s"
  shows "\<exists>ts e. sentence_loop u lower s xs seg seg acc = Some (acc @ ts, e) \<and> is_char_boundary s e \<and> e \<le> length s \<and>
    text_cover is_whitespace sentence_text s seg ts e"
  using assms
proof (induction xs arbitrary: p seg acc)
  case Nil
  then show ?case by (simp add: slice_def str_chars_simps)
next
  case (Cons x xs)
  obtain i c where x: "x = (i, c)" by (cases x)
  from chars_from_step [OF Cons.prems(2,3) Cons.prems(1) [symmetric, unfolded x]]
  have i: "i = p" "good_end s p (p + length c)" "xs = chars_from (p + length c) (drop (p + length c) s)" by auto
  then have next_ok: "is_char_boundary s (p + length c)" "p + length c \<le> length s" by (auto simp: good_end_def)
  note rest = Cons.IH [OF i(3) next_ok]
  show ?case
  proof (cases "p < seg")
    case True
    with rest [OF Cons.prems(4,5), of acc] show ?thesis by (simp add: x i(1))
  next
    case False
    then obtain t where t: "is_terminal u lower s seg p c = Some t"
      using is_terminal_total [OF Cons.prems(2) next_ok(2,1) _ Cons.prems(4)] by fastforce
    show ?thesis
    proof (cases t)
      case False
      with t rest [OF Cons.prems(4,5), of acc] \<open>\<not> p < seg\<close> show ?thesis by (simp add: x i(1))
    next
      case True
      obtain e where e: "sentence_end s (p + length c) = Some e" "p + length c \<le> e" "e \<le> length s" "is_char_boundary s e"
        using sentence_end_result [OF next_ok] by blast
      have "seg \<le> e" using e(2) \<open>\<not> p < seg\<close> by simp
      from trimmed_span_cover [OF Cons.prems(4) e(4) this e(3)] obtain r where r: "trimmed_span s seg e = Some r"
        "text_cover is_whitespace sentence_text s seg (case r of None \<Rightarrow> [] | Some y \<Rightarrow> [y]) e" by blast
      from rest [OF e(4,3), of "case r of None \<Rightarrow> acc | Some y \<Rightarrow> acc @ [y]"] obtain ts f where
        l: "sentence_loop u lower s xs e e (case r of None \<Rightarrow> acc | Some y \<Rightarrow> acc @ [y]) =
            Some ((case r of None \<Rightarrow> acc | Some y \<Rightarrow> acc @ [y]) @ ts, f)"
        and f: "is_char_boundary s f" "f \<le> length s" "text_cover is_whitespace sentence_text s e ts f" by blast
      have "sentence_loop u lower s (x # xs) seg seg acc = Some (acc @ (case r of None \<Rightarrow> [] | Some y \<Rightarrow> [y]) @ ts, f)"
        using True t e(1) r(1) l \<open>\<not> p < seg\<close> by (cases r) (simp_all add: x i(1))
      with f text_cover_append [OF r(2) f(3) e(4) f(2)] show ?thesis by blast
    qed
  qed
qed

text \<open>C19. 
  The sentences of a text are found without a panic on any input, and they cut it without loss: in order, disjoint, none
  empty, on character boundaries, each beginning and ending with a visible character, and everything between two of them,
  in front of the first and behind the last is white space.
\<close>

theorem sentences_cut_the_text:
  "\<exists>ts. split_legal_sentences u lower s = Some ts \<and> text_cover is_whitespace sentence_text s 0 ts (length s)"
proof -
  have b: "is_char_boundary s 0" "is_char_boundary s (length s)" by (simp_all add: is_char_boundary_def)
  from sentence_loop_cover [of "char_indices s" 0 s 0 u lower "[]"] b obtain ts e where
    l: "sentence_loop u lower s (char_indices s) 0 0 [] = Some (ts, e)" and
    e: "is_char_boundary s e" "e \<le> length s" "text_cover is_whitespace sentence_text s 0 ts e"
    by (auto simp: char_indices_def)
  from trimmed_span_cover [OF e(1) b(2) e(2)] obtain r where r: "trimmed_span s e (length s) = Some r"
    "text_cover is_whitespace sentence_text s e (case r of None \<Rightarrow> [] | Some y \<Rightarrow> [y]) (length s)" by auto
  have "split_legal_sentences u lower s = Some (ts @ (case r of None \<Rightarrow> [] | Some y \<Rightarrow> [y]))"
    using l r(1) by (cases r) (simp_all add: split_legal_sentences_def)
  with text_cover_append [OF e(3) r(2) e(1)] show ?thesis by blast
qed

section \<open>Words cut the text\<close>

definition word_span :: "word_view \<Rightarrow> decoded_span" where
  "word_span w = DecodedSpan (wv_start w) (wv_end w)"

definition alphabetic_text :: "lex_unicode \<Rightarrow> string \<Rightarrow> bool" where
  "alphabetic_text u x = list_all (uni_alphabetic u) (str_chars x)"

lemma alphabetic_run_end_result:
  assumes "cs = chars_from e (drop e s)" "is_char_boundary s e" "e \<le> length s"
  shows "let (f, rest) = alphabetic_run_end u e cs in
    e \<le> f \<and> f \<le> length s \<and> is_char_boundary s f \<and> rest = chars_from f (drop f s) \<and>
    alphabetic_text u (slice s e f) \<and> (\<forall>c. first_char (drop f s) = Some c \<longrightarrow> \<not> uni_alphabetic u c)"
  using assms
proof (induction cs arbitrary: e)
  case Nil
  then have "e = length s" by (cases "drop e s") simp_all
  with Nil.prems show ?case by (simp add: alphabetic_text_def slice_def str_chars_simps first_char_eq)
next
  case (Cons x cs)
  obtain i c where x: "x = (i, c)" by (cases x)
  note step = chars_from_step [OF Cons.prems(2,3) Cons.prems(1) [symmetric, unfolded x]]
  show ?case
  proof (cases "uni_alphabetic u c")
    case False
    with step Cons.prems(2,3) show ?thesis
      by (simp add: x alphabetic_text_def slice_def str_chars_simps Cons.prems(1) [symmetric, unfolded x])
  next
    case True
    let ?n = "e + length c"
    have n: "is_char_boundary s ?n" "?n \<le> length s" "e < ?n" using step by (simp_all add: good_end_def)
    have cs: "cs = chars_from ?n (drop ?n s)" using step by simp
    obtain f rest where run: "alphabetic_run_end u ?n cs = (f, rest)" by (meson surj_pair)
    with Cons.IH [OF cs n(1,2)] have f: "?n \<le> f" "f \<le> length s" "is_char_boundary s f" "rest = chars_from f (drop f s)"
      "alphabetic_text u (slice s ?n f)" "\<forall>c. first_char (drop f s) = Some c \<longrightarrow> \<not> uni_alphabetic u c" by auto
    have "str_chars (slice s e ?n) = [c]"
    proof -
      obtain ds where "str_chars (drop e s) = c # ds" using step by (auto simp: first_char_eq split: list.splits)
      from str_chars_cut(1) [of "drop e s" "[c]" ds] this show ?thesis using step by simp
    qed
    then have "alphabetic_text u (slice s e f)"
      using f True n by (simp add: alphabetic_text_def slice_chars [of e ?n f])
    with f n run True step show ?thesis by (simp add: x)
  qed
qed

text \<open>The words of a text: what the tokenizer says of each, and that no letter is left over.\<close>

definition words_exact :: "lex_unicode \<Rightarrow> (string \<Rightarrow> string) \<Rightarrow> string \<Rightarrow> nat \<Rightarrow> word_view list \<Rightarrow> bool" where
  "words_exact u lower s a ws =
     (text_cover (\<lambda>c. \<not> uni_alphabetic u c) (alphabetic_text u) s a (map word_span ws) (length s) \<and>
      sorted_wrt (\<lambda>v w. wv_end v < wv_start w) ws \<and>
      list_all (\<lambda>w. wv_normalized w = lower (slice s (wv_start w) (wv_end w))) ws)"

lemma text_cover_starts: "text_cover P Q s a ts b \<Longrightarrow> list_all (\<lambda>t. a \<le> ds_start t) ts"
  by (induction ts arbitrary: a) (auto simp: list_all_iff good_end_def, meson le_trans less_imp_le)

lemma alphabetic_tokens_result:
  assumes "cs = chars_from p (drop p s)" "is_char_boundary s p" "p \<le> length s"
  shows "\<exists>ws. alphabetic_tokens u lower s cs = Some ws \<and> words_exact u lower s p ws \<and>
    (\<forall>c. first_char (drop p s) = Some c \<longrightarrow> \<not> uni_alphabetic u c \<longrightarrow> list_all (\<lambda>w. p < wv_start w) ws)"
  using assms
proof (induction "length s - p" arbitrary: p cs rule: less_induct)
  case less
  show ?case
  proof (cases cs)
    case Nil
    with less.prems have "p = length s" by (cases "drop p s") simp_all
    with Nil show ?thesis by (simp add: words_exact_def slice_def str_chars_simps)
  next
    case (Cons x cs')
    obtain i c where x: "x = (i, c)" by (cases x)
    note step = chars_from_step [OF less.prems(2,3) less.prems(1) [symmetric, unfolded Cons x]]
    let ?n = "p + length c"
    have n: "is_char_boundary s ?n" "?n \<le> length s" "p < ?n" using step by (simp_all add: good_end_def)
    have cs': "cs' = chars_from ?n (drop ?n s)" using step by simp
    have one: "str_chars (slice s p ?n) = [c]"
    proof -
      obtain ds where "str_chars (drop p s) = c # ds" using step by (auto simp: first_char_eq split: list.splits)
      from str_chars_cut(1) [of "drop p s" "[c]" ds] this show ?thesis using step by simp
    qed
    show ?thesis
    proof (cases "uni_alphabetic u c")
      case False
      from less.hyps [OF _ cs' n(1,2)] n obtain ws where ws: "alphabetic_tokens u lower s cs' = Some ws"
        "words_exact u lower s ?n ws" by (metis diff_less_mono2 less_le_trans)
      from ws(2) have "text_cover (\<lambda>c. \<not> uni_alphabetic u c) (alphabetic_text u) s p (map word_span ws) (length s)"
        using False n one by (intro text_cover_extend [of _ s p ?n]) (simp_all add: words_exact_def)
      moreover have "list_all (\<lambda>w. p < wv_start w) ws"
      proof -
        have "list_all (\<lambda>t. ?n \<le> ds_start t) (map word_span ws)"
          using ws(2) text_cover_starts unfolding words_exact_def by blast
        then show ?thesis by (auto simp: list_all_iff word_span_def intro: less_le_trans [OF n(3)])
      qed
      ultimately show ?thesis using ws False by (simp add: Cons x words_exact_def)
    next
      case True
      obtain f rest where run: "alphabetic_run_end u ?n cs' = (f, rest)" by (meson surj_pair)
      with alphabetic_run_end_result [OF cs' n(1,2), of u] have f: "?n \<le> f" "f \<le> length s" "is_char_boundary s f"
        "rest = chars_from f (drop f s)" "alphabetic_text u (slice s ?n f)"
        "\<forall>c. first_char (drop f s) = Some c \<longrightarrow> \<not> uni_alphabetic u c" by auto
      from less.hyps [OF _ f(4,3,2)] n(3) f(1,2) obtain ws where ws: "alphabetic_tokens u lower s rest = Some ws"
        "words_exact u lower s f ws"
        "\<forall>c. first_char (drop f s) = Some c \<longrightarrow> \<not> uni_alphabetic u c \<longrightarrow> list_all (\<lambda>w. f < wv_start w) ws"
        by (metis diff_less_mono2 less_le_trans)
      have after: "list_all (\<lambda>w. f < wv_start w) ws"
      proof (cases "first_char (drop f s)")
        case None
        then have "f = length s" using f(2) by (cases "drop f s") (auto simp: first_char_eq str_chars_simps)
        then have "rest = []" using f(4) by simp
        then show ?thesis using ws(1) by simp
      qed (use f(6) ws(3) in blast)
      have "p < f" by (rule less_le_trans [OF n(3) f(1)])
      have get: "str_get s p f = Some (slice s p f)" using \<open>p < f\<close> less.prems(2) f(3) by (intro str_get_slice) simp_all
      have alpha: "alphabetic_text u (slice s p f)"
        using f True n one by (simp add: alphabetic_text_def slice_chars [of p ?n f])
      let ?w = "\<lparr>wv_normalized = lower (slice s p f), wv_start = p, wv_end = f\<rparr>"
      have "alphabetic_tokens u lower s cs = Some (?w # ws)" using True step run get ws(1) by (simp add: Cons x Let_def)
      moreover have "words_exact u lower s p (?w # ws)"
        using ws(2) after alpha f \<open>p < f\<close> less.prems(2)
        by (simp add: words_exact_def word_span_def good_end_def slice_def [of s p p] str_chars_simps list_all_iff)
      ultimately show ?thesis using step True by auto
    qed
  qed
qed

text \<open>C34. 
  The words of a text are found without a panic on any input and are its maximal runs of letters: in order, each a
  non-empty run of letters between character boundaries, no letter outside of them, a gap between any two, and the
  normalized form the lower case of the run.
\<close>

theorem words_are_the_letter_runs:
  "\<exists>ws. tokenize_words u lower s = Some ws \<and> words_exact u lower s 0 ws"
  using alphabetic_tokens_result [of "char_indices s" 0 s u lower]
  by (auto simp: tokenize_words_def char_indices_def is_char_boundary_def)

section \<open>What a mention says\<close>

definition dotted_number :: "string \<Rightarrow> bool" where
  "dotted_number x = (\<exists>parts. parts \<noteq> [] \<and> list_all digits parts \<and> x = str_join ''.'' parts)"

definition number_stops :: "string \<Rightarrow> nat \<Rightarrow> bool" where
  "number_stops s e = (\<not> digit_at s e \<and> \<not> (byte_at s e = Some (CHR ''.'') \<and> digit_at s (e + 1)))"

lemma skip_digits_stops: "\<not> digit_at s (skip_digits s p)"
proof
  assume d: "digit_at s (skip_digits s p)"
  let ?n = "length (takeWhile is_digit_byte (drop p s))"
  have "p + ?n < length s" "is_digit_byte (s ! (p + ?n))" using d by (simp_all add: digit_at_def skip_digits_def)
  then have "?n < length (drop p s)" "is_digit_byte (drop p s ! ?n)" by simp_all
  with nth_length_takeWhile [of is_digit_byte "drop p s"] show False by blast
qed

lemma dotted_end_text:
  assumes "utf8_ok s" "good_end s a pos" "slice s a pos = str_join ''.'' parts" "list_all digits parts" "parts \<noteq> []"
    "\<not> digit_at s pos"
  shows "good_end s a (dotted_end s pos) \<and> dotted_number (slice s a (dotted_end s pos)) \<and> number_stops s (dotted_end s pos)"
  using assms
proof (induction s pos arbitrary: parts rule: dotted_end.induct)
  case (1 s pos)
  show ?case
  proof (cases "byte_at s pos = Some (CHR ''.'') \<and> digit_at s (pos + 1)")
    case False
    then have "dotted_end s pos = pos" by (subst dotted_end.simps) auto
    with False "1.prems" show ?thesis by (auto simp: dotted_number_def number_stops_def)
  next
    case True
    define q where "q = skip_digits s (pos + 1)"
    have dot: "pos < length s" "s ! pos = CHR ''.''" and dig: "pos + 1 < length s" "is_digit_byte (s ! (pos + 1))"
      using True by (auto simp: byte_at_def digit_at_def split: if_splits)
    have ne: "skip_digits s (pos + 1) \<noteq> pos + 1"
      unfolding skip_digits_def using dig by (simp add: Cons_nth_drop_Suc [symmetric])
    have le: "pos + 1 \<le> q" "q \<le> length s" unfolding q_def using skip_digits_bounds [of "pos + 1" s] dig(1) by simp_all
    have ok: "utf8_ok s" and a: "a < pos" using "1.prems"(1,2) by (simp_all add: good_end_def)
    note d = skip_digits_digits [OF ne, folded q_def]
    have g: "good_end s (pos + 1) q" using skip_digits_end [OF ok ne] dig(1) by (simp add: q_def)
    have "slice s a q = slice s a pos @ slice s pos (Suc pos) @ slice s (Suc pos) q"
      using a le by (simp add: slice_append [of a pos q] slice_append [of pos "Suc pos" q])
    then have "slice s a q = str_join ''.'' (parts @ [slice s (pos + 1) q])"
      using "1.prems"(3,5) dot by (simp add: slice_Suc str_join_snoc)
    moreover have "dotted_end s pos = dotted_end s q" using True by (subst dotted_end.simps) (simp add: q_def)
    moreover have "good_end s a q" using g a by (simp add: good_end_def)
    ultimately show ?thesis
      using "1.IH" [of "parts @ [slice s (pos + 1) q]"] True d ok "1.prems"(4) skip_digits_stops [of s "pos + 1"] by (simp add: q_def)
  qed
qed

definition blank_gap :: "string \<Rightarrow> bool" where
  "blank_gap x = (x \<noteq> [] \<and> list_all (\<lambda>c. c = '' '' \<or> c = [CHR 0x09]) (str_chars x))"

lemma number_after_result:
  assumes "utf8_ok s" "is_char_boundary s t" "t \<le> length s"
  shows "\<exists>r. number_after u s t = Some r \<and> (\<forall>a b. r = Some (a, b) \<longrightarrow>
    t < a \<and> blank_gap (slice s t a) \<and> good_end s a b \<and> dotted_number (slice s a b) \<and> number_stops s b \<and>
    \<not> number_refused u (drop b s))"
proof -
  obtain a where a: "scan_while s t (\<lambda>c. c = '' '' \<or> c = [CHR 0x09]) = Some a" "t \<le> a" "a \<le> length s" "is_char_boundary s a"
    "str_chars (slice s t a) = takeWhile (\<lambda>c. c = '' '' \<or> c = [CHR 0x09]) (str_chars (drop t s))"
    using scan_while_boundary [OF assms(2,3), of "\<lambda>c. c = '' '' \<or> c = [CHR 0x09]"] by (auto simp: slice_def)
  show ?thesis
  proof (cases "a = t \<or> \<not> digit_at s a")
    case True
    with a(1) show ?thesis by (auto simp: number_after_def)
  next
    case False
    then have less: "t < a" and dig: "a < length s" "is_digit_byte (s ! a)" using a(2) by (auto simp: digit_at_def)
    have ne: "skip_digits s a \<noteq> a" unfolding skip_digits_def using dig by (simp add: Cons_nth_drop_Suc [symmetric])
    have g: "good_end s a (skip_digits s a)" using skip_digits_end [OF assms(1) ne a(3)] .
    let ?b = "dotted_end s (skip_digits s a)"
    have b: "good_end s a ?b" "dotted_number (slice s a ?b)" "number_stops s ?b"
      using dotted_end_text [OF assms(1) g, of "[slice s a (skip_digits s a)]"] skip_digits_digits [OF ne] skip_digits_stops [of s a]
      by simp_all
    have "list_all P (takeWhile P xs)" for P :: "string \<Rightarrow> bool" and xs by (auto simp: list_all_iff dest: set_takeWhileD)
    then have "blank_gap (slice s t a)" using a(5) slice_nonempty [OF less a(3)] by (simp add: blank_gap_def)
    moreover have "rest_from s ?b = Some (drop ?b s)" using b(1) by (simp add: rest_from_boundary good_end_def)
    ultimately show ?thesis using a(1) less False b by (simp add: number_after_def Let_def)
  qed
qed

text \<open>
  A number follows: spaces or tabs, digits in groups joined by single dots, and behind them the end of the number. It is the
  whole number, for no digit and no dot with a digit may follow, and it is not refused: no letter, underscore or second dot
  follows, and no letter behind a dot.
\<close>

definition ends_number :: "lex_unicode \<Rightarrow> string \<Rightarrow> bool" where
  "ends_number u tail =
     (\<not> digit_at tail 0 \<and> \<not> starts_with ''..'' tail \<and> \<not> (starts_with ''.'' tail \<and> digit_at tail 1) \<and>
      (\<forall>c. first_char tail = Some c \<longrightarrow> \<not> uni_alphabetic u c \<and> c \<noteq> ''_'') \<and>
      (\<forall>c. starts_with ''.'' tail \<and> first_char (drop 1 tail) = Some c \<longrightarrow> \<not> uni_alphabetic u c))"

definition number_follows :: "lex_unicode \<Rightarrow> string \<Rightarrow> bool" where
  "number_follows u rest =
     (\<exists>gap num tail. rest = gap @ num @ tail \<and> gap \<noteq> [] \<and> set gap \<subseteq> {CHR '' '', CHR 0x09} \<and> dotted_number num \<and>
        ends_number u tail)"

lemma dotted_number_starts: "dotted_number num \<Longrightarrow> \<exists>c x. num = c # x \<and> is_digit_byte c"
proof -
  assume "dotted_number num"
  then obtain d ps where "num = str_join ''.'' (d # ps)" "digits d"
    by (metis dotted_number_def list.exhaust list.pred_inject(2))
  then show ?thesis by (cases ps; cases d) (auto simp: digits_def)
qed

lemma dotted_end_computes:
  assumes "list_all digits parts" "parts \<noteq> []" "drop p s = str_join ''.'' parts @ tail" "\<not> digit_at tail 0"
    "\<not> (starts_with ''.'' tail \<and> digit_at tail 1)"
  shows "dotted_end s (skip_digits s p) = p + length (str_join ''.'' parts)"
  using assms
proof (induction parts arbitrary: p)
  case (Cons d ps)
  have d: "list_all is_digit_byte d" "d \<noteq> []" using Cons.prems(1) by (auto simp: digits_def)
  let ?next = "if ps = [] then tail else ''.'' @ str_join ''.'' ps @ tail"
  have drop: "drop p s = d @ ?next" using Cons.prems(3) by (cases ps) simp_all
  have "takeWhile is_digit_byte ?next = []"
    using Cons.prems(4) by (cases tail) (auto simp: digit_at_def is_digit_byte_def)
  then have skip: "skip_digits s p = p + length d"
    using d(1) by (simp add: skip_digits_def drop takeWhile_append list_all_iff)
  have at: "drop (p + length d) s = ?next" using arg_cong [OF drop, of "drop (length d)"] by (simp add: add.commute)
  have byte: "s ! (p + length d + k) = ?next ! k \<and> p + length d + k < length s" if "k < length ?next" for k
  proof -
    have "length s - (p + length d) = length ?next" using arg_cong [OF at, of length] by simp
    with that have less: "p + length d + k < length s" by linarith
    with nth_drop [of "p + length d" s k] at show ?thesis by (simp add: add.commute)
  qed
  show ?case
  proof (cases ps)
    case Nil
    have "byte_at s (p + length d) \<noteq> Some (CHR ''.'') \<or> \<not> digit_at s (p + length d + 1)"
    proof (rule ccontr)
      assume "\<not> ?thesis"
      then have less: "p + length d + 1 < length s" and dot: "s ! (p + length d) = CHR ''.''" "is_digit_byte (s ! (p + length d + 1))"
        by (auto simp: byte_at_def digit_at_def split: if_splits)
      have "length tail = length s - (p + length d)" using arg_cong [OF at, of length] Nil by simp
      with less have len: "1 < length tail" by linarith
      then have "tail \<noteq> []" by auto
      with len byte [of 0] byte [of 1] Nil dot have "CHR ''.'' = tail ! 0" "is_digit_byte (tail ! 1)" by simp_all
      with len Cons.prems(5) show False by (cases tail) (auto simp: digit_at_def starts_with_def)
    qed
    then have "dotted_end s (p + length d) = p + length d" by (subst dotted_end.simps) auto
    with skip Nil show ?thesis by simp
  next
    case (Cons e qs)
    have "dotted_number (str_join ''.'' ps)" using Cons.prems(1) Cons by (auto simp: dotted_number_def)
    from dotted_number_starts [OF this] obtain c x where c: "str_join ''.'' ps = c # x" "is_digit_byte c" by blast
    have "byte_at s (p + length d) = Some (CHR ''.'')" "digit_at s (p + length d + 1)"
      using byte [of 0] byte [of 1] Cons c by (simp_all add: byte_at_def digit_at_def)
    moreover have "drop (p + length d + 1) s = str_join ''.'' ps @ tail"
      using arg_cong [OF at, of "drop 1"] Cons by (simp add: add.commute)
    ultimately show ?thesis
      using Cons.IH [of "p + length d + 1"] Cons.prems Cons skip by (subst dotted_end.simps) (simp add: \<open>ps = e # qs\<close>)
  qed
qed simp

lemma blank_run:
  assumes "set gap \<subseteq> {CHR '' '', CHR 0x09}" "is_digit_byte c"
  shows "takeWhile (\<lambda>x. x = '' '' \<or> x = [CHR 0x09]) (str_chars (gap @ c # r)) = map (\<lambda>x. [x]) gap"
  using assms(1)
proof (induction gap)
  case Nil
  have "c \<noteq> CHR '' ''" "c \<noteq> CHR 0x09" using assms(2) by (auto simp: is_digit_byte_def)
  then show ?case by (simp add: str_chars_simps)
next
  case (Cons b gap)
  have "\<not> cont x" if "x \<in> {CHR '' '', CHR 0x09} \<or> is_digit_byte x" for x
    using that by (auto simp: cont_def byte_in_def is_digit_byte_def less_eq_char_def)
  then have "takeWhile cont (gap @ c # r) = []" "dropWhile cont (gap @ c # r) = gap @ c # r"
    using Cons.prems assms(2) by (cases gap; auto)+
  with Cons show ?case by (auto simp: str_chars_simps)
qed

lemma starts_with_Cons: "starts_with ''.'' tail \<longleftrightarrow> (\<exists>r. tail = CHR ''.'' # r)"
  by (cases tail) (auto simp: starts_with_def)

lemma refused_iff:
  "number_stops s b \<and> \<not> number_refused u (drop b s) \<longleftrightarrow> ends_number u (drop b s)"
proof -
  have at: "digit_at s (b + k) = digit_at (drop b s) k" for k by (auto simp: digit_at_def)
  have dot: "byte_at s b = Some (CHR ''.'') \<longleftrightarrow> starts_with ''.'' (drop b s)"
    by (cases "b < length s") (auto simp: byte_at_def starts_with_Cons Cons_nth_drop_Suc [symmetric])
  show ?thesis using at [of 0] at [of 1] dot
    by (auto simp: number_stops_def number_refused_def ends_number_def is_some_and_def split: option.splits)
qed

lemma number_after_iff:
  assumes "utf8_ok s" "is_char_boundary s t" "t \<le> length s"
  shows "(\<exists>a b. number_after u s t = Some (Some (a, b))) \<longleftrightarrow> number_follows u (drop t s)"
proof
  assume "\<exists>a b. number_after u s t = Some (Some (a, b))"
  then obtain a b where r: "t < a" "blank_gap (slice s t a)" "good_end s a b" "dotted_number (slice s a b)"
    "number_stops s b" "\<not> number_refused u (drop b s)"
    using number_after_result [OF assms, of u] by auto
  have cut: "drop i s = slice s i j @ drop j s" if "i \<le> j" for i j
  proof -
    have "drop (j - i) (drop i s) = drop j s" using that by simp
    with append_take_drop_id [of "j - i" "drop i s"] show ?thesis by (simp only: slice_def)
  qed
  have "drop t s = slice s t a @ slice s a b @ drop b s"
    using cut [of t a] cut [of a b] r(1,3) by (simp add: good_end_def)
  moreover have "set (slice s t a) \<subseteq> {CHR '' '', CHR 0x09}"
  proof
    fix c assume "c \<in> set (slice s t a)"
    then have "c \<in> set (concat (str_chars (slice s t a)))" by (simp add: concat_str_chars)
    then obtain x where x: "x \<in> set (str_chars (slice s t a))" "c \<in> set x" unfolding set_concat by blast
    from r(2) x(1) have "x = '' '' \<or> x = [CHR 0x09]" unfolding blank_gap_def list_all_iff by blast
    with x(2) show "c \<in> {CHR '' '', CHR 0x09}" by (elim disjE) simp_all
  qed
  moreover have "slice s t a \<noteq> []" using r(2) by (simp add: blank_gap_def)
  ultimately show "number_follows u (drop t s)" using r(4-6) refused_iff [of s b u] unfolding number_follows_def by blast
next
  assume "number_follows u (drop t s)"
  then obtain gap num tail where split: "drop t s = gap @ num @ tail" and gap: "gap \<noteq> []" "set gap \<subseteq> {CHR '' '', CHR 0x09}"
    and num: "dotted_number num" and tail: "ends_number u tail" unfolding number_follows_def by blast
  obtain c x where c: "num = c # x" "is_digit_byte c" using dotted_number_starts [OF num] by blast
  let ?P = "\<lambda>c. c = '' '' \<or> c = [CHR 0x09]" and ?a = "t + length gap"
  obtain a where a: "scan_while s t ?P = Some a" using scan_while_boundary [OF assms(2,3), of ?P] by blast
  then have "a = t + run_length ?P (str_chars (drop t s))"
    using rest_from_boundary [OF assms(2,3)] by (simp add: scan_while_def)
  moreover have "run_length ?P (str_chars (drop t s)) = length (concat (map (\<lambda>y. [y]) gap))"
    using blank_run [OF gap(2) c(2), of "x @ tail"] by (simp add: run_length_def split c(1))
  ultimately have a_eq: "a = ?a" by simp
  have at: "drop ?a s = num @ tail" using arg_cong [OF split, of "drop (length gap)"] by (simp add: add.commute)
  have "?a < length s" using arg_cong [OF at, of length] c(1) by simp
  moreover have "s ! ?a = c" using nth_drop [of ?a s 0] at c(1) calculation by simp
  ultimately have dig: "digit_at s ?a" using c(2) by (simp add: digit_at_def)
  let ?b = "dotted_end s (skip_digits s ?a)"
  obtain parts where parts: "parts \<noteq> []" "list_all digits parts" "num = str_join ''.'' parts"
    using num by (auto simp: dotted_number_def)
  have b: "?b = ?a + length num"
    using dotted_end_computes [OF parts(2,1), of ?a s tail] at tail by (simp add: parts(3) ends_number_def)
  have rest: "drop ?b s = tail" using arg_cong [OF at, of "drop (length num)"] by (simp add: b add.commute)
  have scan: "scan_while s t ?P = Some ?a" using a by (simp only: a_eq)
  have some: "number_after u s t \<noteq> None" using number_after_result [OF assms, of u] by auto
  have refused: "\<not> number_refused u tail" using refused_iff [of s ?b u] tail by (simp add: rest)
  show "\<exists>a b. number_after u s t = Some (Some (a, b))"
  proof (cases "rest_from s ?b")
    case None
    with some scan dig gap(1) show ?thesis by (simp add: number_after_def Let_def)
  next
    case (Some r)
    then have "r = tail" using rest by (auto simp: rest_from_def str_get_def split: if_splits)
    with Some scan dig gap(1) refused show ?thesis by (simp add: number_after_def Let_def)
  qed
qed


definition mention_ok :: "lex_unicode \<Rightarrow> (string \<Rightarrow> string) \<Rightarrow> string \<Rightarrow> reference_mention \<Rightarrow> bool" where
  "mention_ok u lower s m =
     (let t = rm_term_span m; n = rm_number_span m in
      ds_start t < ds_end t \<and> ds_end t < ds_start n \<and> good_end s (ds_start n) (ds_end n) \<and>
      rm_text_span m = DecodedSpan (ds_start t) (ds_end n) \<and>
      classify_term (lower (slice s (ds_start t) (ds_end t))) = Some (rm_kind m) \<and>
      blank_gap (slice s (ds_end t) (ds_start n)) \<and>
      rm_number m = slice s (ds_start n) (ds_end n) \<and> dotted_number (rm_number m) \<and>
      number_stops s (ds_end n) \<and> \<not> number_refused u (drop (ds_end n) s))"

definition names_a_number :: "lex_unicode \<Rightarrow> string \<Rightarrow> word_view \<Rightarrow> bool" where
  "names_a_number u s w =
     (classify_term (wv_normalized w) \<noteq> None \<and> number_follows u (drop (wv_end w) s))"

lemma reference_mentions_result:
  assumes "utf8_ok s" "words_exact u lower s p ws"
  shows "\<exists>ms. reference_mentions u s ws = Some ms \<and> list_all (mention_ok u lower s) ms \<and>
    map rm_term_span ms = map word_span (filter (names_a_number u s) ws)"
  using assms(2)
proof (induction ws arbitrary: p)
  case (Cons w ws)
  have w: "is_char_boundary s (wv_start w)" "good_end s (wv_start w) (wv_end w)"
    "wv_normalized w = lower (slice s (wv_start w) (wv_end w))"
    and rest: "words_exact u lower s (wv_end w) ws"
    using Cons.prems by (simp_all add: words_exact_def word_span_def)
  from Cons.IH [OF rest] obtain ms where ms: "reference_mentions u s ws = Some ms" "list_all (mention_ok u lower s) ms"
    "map rm_term_span ms = map word_span (filter (names_a_number u s) ws)" by blast
  obtain r where r: "number_after u s (wv_end w) = Some r" "\<forall>a b. r = Some (a, b) \<longrightarrow>
    wv_end w < a \<and> blank_gap (slice s (wv_end w) a) \<and> good_end s a b \<and> dotted_number (slice s a b) \<and> number_stops s b \<and>
    \<not> number_refused u (drop b s)"
    using number_after_result [OF assms(1), of "wv_end w" u] w(2) by (auto simp: good_end_def)
  have names: "names_a_number u s w \<longleftrightarrow> classify_term (wv_normalized w) \<noteq> None \<and>
      (\<exists>a b. number_after u s (wv_end w) = Some (Some (a, b)))"
    using number_after_iff [OF assms(1), of "wv_end w" u] w(2) by (simp add: names_a_number_def good_end_def)
  show ?case
  proof (cases "classify_term (wv_normalized w)")
    case None
    then have "\<not> names_a_number u s w" by (simp add: names)
    with None ms show ?thesis by simp
  next
    case kind: (Some k)
    show ?thesis
    proof (cases r)
      case None
      then have "\<not> names_a_number u s w" using r(1) by (simp add: names)
      with None ms kind r(1) show ?thesis by simp
    next
      case (Some ab)
      obtain a b where ab: "ab = (a, b)" by (cases ab)
      with r(2) Some have s: "wv_end w < a" "blank_gap (slice s (wv_end w) a)" "good_end s a b" "dotted_number (slice s a b)"
        "number_stops s b" "\<not> number_refused u (drop b s)" by simp_all
      then have "wv_start w < wv_end w" "wv_start w < b" "is_char_boundary s a" "a < b"
        using w(2) \<open>r = Some ab\<close> scan_while_boundary [of s "wv_end w" "\<lambda>c. c = '' '' \<or> c = [CHR 0x09]"] r(1) ab
        by (auto simp: good_end_def number_after_def Let_def split: if_splits bind_splits)
      moreover have "str_get s a b = Some (slice s a b)"
        using calculation s(3) by (intro str_get_slice) (simp_all add: good_end_def)
      moreover have "names_a_number u s w" using kind r(1) Some ab by (simp add: names)
      moreover have "mention_ok u lower s \<lparr>rm_kind = k, rm_number = slice s a b, rm_text_span = DecodedSpan (wv_start w) b,
          rm_term_span = DecodedSpan (wv_start w) (wv_end w), rm_number_span = DecodedSpan a b\<rparr>"
        using kind s w(3) calculation by (simp add: mention_ok_def Let_def)
      ultimately show ?thesis using ms kind r(1) Some ab
        by (simp add: decoded_span_try_new_def word_span_def)
    qed
  qed
qed simp

text \<open>C20. 
  The references of a decoded block are found without a panic, exactly one for each word that is a form of "article" or
  "point" in the table of the code and is followed, after at least one space or tab and nothing else, by a number: groups of
  digits joined by single dots, with no digit and no dot with a digit behind them, and neither a letter, an underscore, a
  second dot nor a dot with a letter. Each mention is backed by the text: the kind is that of the word under the term span,
  the number is the whole number under the number span, and the text span goes from the one to the other. A comment of the provider has none.
\<close>

theorem references_are_backed:
  assumes "utf8_ok (pb_text block)"
  shows "\<exists>ws ms. tokenize_words u lower (pb_text block) = Some ws \<and> extract_reference_mentions u lower block = Some ms \<and>
    map rm_term_span ms = (if pb_style block = PsProviderComment then []
      else map word_span (filter (names_a_number u (pb_text block)) ws)) \<and>
    list_all (mention_ok u lower (pb_text block)) ms"
proof -
  have "is_char_boundary (pb_text block) 0" by (simp add: is_char_boundary_def)
  from alphabetic_tokens_result [OF refl this, of u lower] obtain ws where
    ws: "tokenize_words u lower (pb_text block) = Some ws" "words_exact u lower (pb_text block) 0 ws"
    by (auto simp: tokenize_words_def char_indices_def)
  from reference_mentions_result [OF assms ws(2)] ws(1) show ?thesis
    by (auto simp: extract_reference_mentions_def)
qed

lemma utf8_ok_of: "n < 0x800 \<Longrightarrow> utf8_ok (utf8_of n)"
proof -
  assume n: "n < 0x800"
  then have "n div 64 < 32" by (simp add: less_mult_imp_div_less)
  moreover have "2 \<le> n div 64" if "\<not> n < 0x80" using that div_le_mono [of 128 n 64] by simp
  ultimately show ?thesis using n by (auto simp: utf8_of_def byte_in_def cont_def)
qed

lemma utf8_ok_utf8: "list_all (\<lambda>n. n < 0x800) ns \<Longrightarrow> utf8_ok (utf8 ns)"
  by (induction ns) (simp_all add: utf8_def utf8_ok_append utf8_ok_of)

lemma utf8_ok_ru: "utf8_ok (ru w)"
proof -
  have "ru_letter c < 0x800" for c
    using length_takeWhile_le [of "\<lambda>d. d \<noteq> c" "''abvgdeZzijklmnoprstufhcCSWQyxRUA''"] by (simp add: ru_letter_def)
  then show ?thesis unfolding ru_def by (intro utf8_ok_utf8) (simp add: list_all_iff)
qed

definition sample_tables :: lex_unicode where
  "sample_tables =
     \<lparr>uni_alphanumeric = (\<lambda>c. is_ascii_digit_char c \<or> is_lower_cyrillic c), uni_lower = id, uni_alphabetic = is_lower_cyrillic\<rparr>"

definition article_block :: parsed_block where
  "article_block = sample_block\<lparr>pb_text := ru ''po statxe'' @ '' 5.2.''\<rparr>"

lemma references_are_backed_witness:
  "\<exists>ws ms. tokenize_words sample_tables id (pb_text article_block) = Some ws \<and>
     extract_reference_mentions sample_tables id article_block = Some ms \<and>
     map rm_term_span ms = map word_span (filter (names_a_number sample_tables (pb_text article_block)) ws)"
proof -
  have "utf8_ok (pb_text article_block)" by (simp add: article_block_def utf8_ok_append [OF utf8_ok_ru] byte_in_def)
  moreover have "pb_style article_block \<noteq> PsProviderComment" by (simp add: article_block_def sample_block_def)
  ultimately show ?thesis using references_are_backed [of article_block sample_tables id] by (simp; blast)
qed

end
