(* ===== verification/LN_Hierarchy.thy ===== *)
theory LN_Hierarchy
  imports LN_Lexer
begin

text \<open>
  The hierarchy extraction of \<open>ln-decode\<close> (files \<open>prefix_catalog.rs\<close> and \<open>hierarchy.rs\<close>): the catalog of marker prefixes
  and number styles read from the ontology, the marker at the head of a block, and the fold over the blocks of a document
  that keeps the ladder of enclosing levels and makes each marker a candidate once. The embedded ontology is the parameter
  \<open>yaml\<close>; a slice outside the character boundaries is the outer \<open>None\<close>. The theorems: the ladder is the list of enclosing
  markers, the report accounts for every marker exactly once, and two defects of the numbered markers.
\<close>

section \<open>The prefix catalog\<close>

datatype number_style = NsDigit | NsRomanOrDigit

datatype numbered_style = NmDigit | NmLetterCyrillic

datatype space_policy = SpaceRequired | SpaceOptional

text \<open>A \<open>char\<close> of Rust is its UTF-8 bytes.\<close>

record numbered_marker_rule =
  nr_level :: hierarchy_level
  nr_style :: numbered_style
  nr_suffix :: string
  nr_allow_compound :: bool

record prefix_rule =
  pr_level :: hierarchy_level
  pr_marker :: string
  pr_space :: space_policy

record decode_prefix_catalog =
  pc_prefixes :: "prefix_rule list"
  pc_number_styles :: "(hierarchy_level \<times> number_style) list"
  pc_numbered_markers :: "numbered_marker_rule list"

definition parse_space :: "string \<Rightarrow> space_policy option" where
  "parse_space value =
     (if value = ''required'' then Some SpaceRequired else if value = ''optional'' then Some SpaceOptional else None)"

definition parse_style :: "string \<Rightarrow> number_style option" where
  "parse_style value =
     (if value = ''digit'' then Some NsDigit else if value = ''roman_or_digit'' then Some NsRomanOrDigit else None)"

definition strip_comment :: "string \<Rightarrow> string" where
  "strip_comment line = trim_end (before_hash line)"

definition unquote :: "string \<Rightarrow> string" where
  "unquote value = trim_matches (CHR 0x27) (trim_matches (CHR 0x22) (str_trim value))"

text \<open>\<open>str::split\<close> on one character.\<close>

fun split_on :: "char \<Rightarrow> string \<Rightarrow> string list" where
  "split_on c [] = [[]]"
| "split_on c (d # s) = (if d = c then [] # split_on c s else (case split_on c s of [] \<Rightarrow> [[d]] | p # ps \<Rightarrow> (d # p) # ps))"

definition parse_inline_list :: "string \<Rightarrow> string + string list" where
  "parse_inline_list raw =
     (if \<not> (starts_with ''['' raw \<and> 2 \<le> length raw \<and> last raw = CHR '']'') then Inl ''decode marker prefixes must be inline lists''
      else let items = filter (\<lambda>item. item \<noteq> []) (map (\<lambda>part. unquote (str_trim part)) (split_on (CHR '','') (butlast (tl raw)))) in
        if items = [] then Inl ''empty decode marker list'' else Inr items)"

text \<open>
  The two readers of a map share the walk over the lines; \<open>in_map\<close> is the indent of the heading once it was met. A line
  gives an entry, nothing or an error.
\<close>

fun map_lines :: "string \<Rightarrow> (string \<Rightarrow> string \<Rightarrow> string + 'a option) \<Rightarrow> nat option \<Rightarrow> 'a list \<Rightarrow> string list \<Rightarrow> string + 'a list" where
  "map_lines heading row in_map rows [] = Inr rows"
| "map_lines heading row in_map rows (raw # rest) =
     (let trimmed = strip_comment raw; indent = length raw - length (trim_start raw) in
      if str_trim trimmed = [] then map_lines heading row in_map rows rest
      else if str_trim trimmed = heading then map_lines heading row (Some indent) rows rest
      else case in_map of
        None \<Rightarrow> map_lines heading row None rows rest
      | Some heading_indent \<Rightarrow>
          if indent \<le> heading_indent then Inr rows
          else (case split_once (CHR '':'') (str_trim trimmed) of
              None \<Rightarrow> map_lines heading row in_map rows rest
            | Some (key, value) \<Rightarrow>
                (case row (str_trim key) (str_trim value) of
                   Inl e \<Rightarrow> Inl e
                 | Inr None \<Rightarrow> map_lines heading row in_map rows rest
                 | Inr (Some r) \<Rightarrow> map_lines heading row in_map (rows @ [r]) rest)))"

definition map_inline_lists :: "string \<Rightarrow> string \<Rightarrow> string + (string \<times> string list) list" where
  "map_inline_lists yaml heading =
     map_lines heading
       (\<lambda>key value. if key = [] then Inr None
          else (case parse_inline_list value of Inl e \<Rightarrow> Inl e | Inr items \<Rightarrow> Inr (Some (key, items))))
       None [] (str_lines yaml)"

definition map_scalars :: "string \<Rightarrow> string \<Rightarrow> string + (string \<times> string) list" where
  "map_scalars yaml heading =
     map_lines heading
       (\<lambda>key value. Inr (if key = [] \<or> unquote value = [] then None else Some (key, unquote value)))
       None [] (str_lines yaml)"

text \<open>The suffix of a numbered marker: what stands behind the first \<open>suffix:\<close>, up to a second one.\<close>

definition suffix_of :: "string \<Rightarrow> string" where
  "suffix_of rest =
     (case str_find rest ''suffix:'' of
        None \<Rightarrow> ''.''
      | Some k \<Rightarrow>
          let after = drop (k + 7) rest;
              part = str_trim (case str_find after ''suffix:'' of None \<Rightarrow> after | Some j \<Rightarrow> take j after)
          in (case first_char (if starts_with [CHR 0x22] part then drop 1 part else part) of
                None \<Rightarrow> ''.''
              | Some c \<Rightarrow> c))"

fun numbered_lines :: "numbered_marker_rule list \<Rightarrow> string list \<Rightarrow> numbered_marker_rule list" where
  "numbered_lines rules [] = rules"
| "numbered_lines rules (raw # rest) =
     (let line = str_trim raw in
      if line = [] \<or> starts_with ''#'' line then numbered_lines rules rest
      else if \<not> starts_with '' '' raw \<and> \<not> starts_with [CHR 0x09] raw \<and> last line = CHR '':'' then rules
      else (case split_once (CHR '':'') line of
          None \<Rightarrow> numbered_lines rules rest
        | Some (token, value) \<Rightarrow>
            (case level_from_token (str_trim token) of
               None \<Rightarrow> numbered_lines rules rest
             | Some level \<Rightarrow>
                 numbered_lines
                   (rules @ [\<lparr>nr_level = level,
                      nr_style = (if str_contains value ''letter_cyrillic'' then NmLetterCyrillic else NmDigit),
                      nr_suffix = suffix_of value, nr_allow_compound = str_contains value ''allow_compound: true''\<rparr>]) rest)))"

definition parse_numbered_markers :: "string \<Rightarrow> numbered_marker_rule list" where
  "parse_numbered_markers yaml =
     (case str_find yaml ''decode_numbered_markers:'' of
        None \<Rightarrow> []
      | Some pos \<Rightarrow> numbered_lines [] (str_lines (drop (pos + length ''decode_numbered_markers:'') yaml)))"

text \<open>\<open>parse_yaml\<close>, in the order of its errors.\<close>

fun prefix_rules :: "(string \<times> string) list \<Rightarrow> space_policy \<Rightarrow> (string \<times> string list) list \<Rightarrow> string + prefix_rule list" where
  "prefix_rules space_pairs default_space [] = Inr []"
| "prefix_rules space_pairs default_space ((token, markers) # rest) =
     (case level_from_token token of
        None \<Rightarrow> Inl ''prefix key is not a decode token''
      | Some level \<Rightarrow>
          (case (case find (\<lambda>p. fst p = token) space_pairs of
                   None \<Rightarrow> Some default_space
                 | Some (_, value) \<Rightarrow> parse_space value) of
             None \<Rightarrow> Inl ''invalid space policy''
           | Some space \<Rightarrow>
               if [] \<in> set markers then Inl ''empty decode marker prefix''
               else (case prefix_rules space_pairs default_space rest of
                   Inl e \<Rightarrow> Inl e
                 | Inr rules \<Rightarrow> Inr (map (\<lambda>m. \<lparr>pr_level = level, pr_marker = m, pr_space = space\<rparr>) markers @ rules))))"

fun style_rules :: "(string \<times> string) list \<Rightarrow> string + (hierarchy_level \<times> number_style) list" where
  "style_rules [] = Inr []"
| "style_rules ((token, style) # rest) =
     (case level_from_token token of
        None \<Rightarrow> Inl ''number-style key is not a decode token''
      | Some level \<Rightarrow>
          (case parse_style style of
             None \<Rightarrow> Inl ''unknown number style''
           | Some s \<Rightarrow> (case style_rules rest of Inl e \<Rightarrow> Inl e | Inr rs \<Rightarrow> Inr ((level, s) # rs))))"

definition parse_yaml :: "string \<Rightarrow> string + decode_prefix_catalog" where
  "parse_yaml yaml =
     (case map_inline_lists yaml ''decode_marker_prefixes:'' of
        Inl e \<Rightarrow> Inl e
      | Inr prefix_lists \<Rightarrow>
          if prefix_lists = [] then Inl ''decode_marker_prefixes missing''
          else (case map_scalars yaml ''decode_prefix_space_policy:'' of
            Inl e \<Rightarrow> Inl e
          | Inr space_pairs \<Rightarrow>
              (case map_scalars yaml ''decode_number_styles:'' of
                Inl e \<Rightarrow> Inl e
              | Inr style_pairs \<Rightarrow>
                  (case (case find (\<lambda>p. fst p = ''default'') space_pairs of
                           None \<Rightarrow> Some SpaceRequired
                         | Some (_, value) \<Rightarrow> parse_space value) of
                     None \<Rightarrow> Inl ''invalid default space policy''
                   | Some default_space \<Rightarrow>
                       (case prefix_rules space_pairs default_space prefix_lists of
                          Inl e \<Rightarrow> Inl e
                        | Inr prefixes \<Rightarrow>
                            (case style_rules style_pairs of
                               Inl e \<Rightarrow> Inl e
                             | Inr number_styles \<Rightarrow>
                                 if number_styles = [] then Inl ''decode_number_styles missing''
                                 else Inr \<lparr>pc_prefixes = sort_longest (\<lambda>r. length (pr_marker r)) prefixes,
                                   pc_number_styles = number_styles,
                                   pc_numbered_markers = parse_numbered_markers yaml\<rparr>))))))"

definition catalog_number_style :: "decode_prefix_catalog \<Rightarrow> hierarchy_level \<Rightarrow> number_style option" where
  "catalog_number_style catalog level = map_option snd (find (\<lambda>p. fst p = level) (pc_number_styles catalog))"

section \<open>The marker at the head of a block\<close>

text \<open>\<open>DecodePrefixCatalog::embedded().ok()\<close>\<close>

definition embedded_catalog :: "string \<Rightarrow> decode_prefix_catalog option" where
  "embedded_catalog yaml = (case parse_yaml yaml of Inl _ \<Rightarrow> None | Inr c \<Rightarrow> Some c)"

fun prefix_hit :: "prefix_rule list \<Rightarrow> string \<Rightarrow> (hierarchy_level \<times> nat) option" where
  "prefix_hit [] candidate = None"
| "prefix_hit (rule # rules) candidate =
     (if \<not> starts_with (pr_marker rule) candidate then prefix_hit rules candidate
      else let whitespace_len = run_length is_whitespace (str_chars (drop (length (pr_marker rule)) candidate)) in
        if pr_space rule = SpaceOptional \<or> 0 < whitespace_len
        then Some (pr_level rule, length (pr_marker rule) + whitespace_len)
        else prefix_hit rules candidate)"

definition marker_prefix :: "string \<Rightarrow> string \<Rightarrow> (hierarchy_level \<times> nat) option" where
  "marker_prefix yaml candidate =
     (case embedded_catalog yaml of None \<Rightarrow> None | Some catalog \<Rightarrow> prefix_hit (pc_prefixes catalog) candidate)"

text \<open>The digits, and where they are allowed the dots between digits, from a position on.\<close>

fun number_run :: "bool \<Rightarrow> string \<Rightarrow> nat" where
  "number_run compound [] = 0"
| "number_run compound (c # s) =
     (if is_digit_byte c \<or> compound \<and> c = CHR ''.'' \<and> (case s of [] \<Rightarrow> False | d # _ \<Rightarrow> is_digit_byte d)
      then Suc (number_run compound s) else 0)"

definition is_roman_byte :: "char \<Rightarrow> bool" where
  "is_roman_byte c = (c \<in> set ''IVXLCDMivxlcdm'')"

definition number_end :: "string \<Rightarrow> string \<Rightarrow> nat \<Rightarrow> hierarchy_level \<Rightarrow> nat option" where
  "number_end yaml candidate start level = do {
     catalog \<leftarrow> embedded_catalog yaml;
     style \<leftarrow> catalog_number_style catalog level;
     first \<leftarrow> byte_at candidate start;
     if is_digit_byte first
     then let e = start + number_run True (drop start candidate) in (if start < e then Some e else None)
     else if style \<noteq> NsRomanOrDigit then None
     else let e = start + length (takeWhile is_roman_byte (drop start candidate)) in (if start < e then Some e else None)
   }"

fun numbered_hit :: "numbered_marker_rule list \<Rightarrow> string \<Rightarrow> (hierarchy_level \<times> nat) option" where
  "numbered_hit [] candidate = None"
| "numbered_hit (rule # rules) candidate =
     (let matches = (case nr_style rule of
            NmDigit \<Rightarrow> digit_at candidate 0
          | NmLetterCyrillic \<Rightarrow> (case first_char candidate of None \<Rightarrow> False | Some c \<Rightarrow> c \<in> utf8_of ` {0x430..0x44F}));
          e = number_run (nr_allow_compound rule) candidate
      in if \<not> matches \<or> e = 0 then numbered_hit rules candidate
         else (case byte_at candidate e of
             None \<Rightarrow> numbered_hit rules candidate
           | Some b \<Rightarrow> if utf8_of (of_char b) = nr_suffix rule then Some (nr_level rule, 0) else numbered_hit rules candidate))"

definition numbered_marker_prefix :: "string \<Rightarrow> string \<Rightarrow> (hierarchy_level \<times> nat) option" where
  "numbered_marker_prefix yaml candidate =
     (case embedded_catalog yaml of
        None \<Rightarrow> None
      | Some catalog \<Rightarrow> if candidate = [] then None else numbered_hit (pc_numbered_markers catalog) candidate)"

text \<open>\<open>extract_hierarchy\<close>: the outer \<open>None\<close> is a panic, the inner one no marker.\<close>

definition marker_at :: "string \<Rightarrow> string \<Rightarrow> (hierarchy_level \<times> nat \<times> nat) option" where
  "marker_at yaml candidate = do {
     (level, number_start) \<leftarrow> (case marker_prefix yaml candidate of
         None \<Rightarrow> numbered_marker_prefix yaml candidate
       | Some hit \<Rightarrow> Some hit);
     e \<leftarrow> number_end yaml candidate number_start level;
     Some (level, number_start, e)
   }"

definition hierarchy_result :: "string \<Rightarrow> hierarchy_level \<Rightarrow> string \<Rightarrow> string \<Rightarrow> nat \<Rightarrow> nat \<Rightarrow> hierarchy_node option" where
  "hierarchy_result content level number suffix marker_start marker_end =
     (if (case first_char suffix of None \<Rightarrow> False | Some c \<Rightarrow> \<not> is_whitespace c) then None
      else let title = str_trim suffix in
        (case decoded_span_try_new marker_start marker_end of
           Inl _ \<Rightarrow> None
         | Inr span \<Rightarrow>
             (case hierarchy_node_try_new level number (if title = [] then None else Some title) content span of
                Inl _ \<Rightarrow> None
              | Inr node \<Rightarrow> Some node)))"

definition extract_hierarchy :: "string \<Rightarrow> parsed_block \<Rightarrow> hierarchy_node option option" where
  "extract_hierarchy yaml block =
     (let content = pb_text block in
      case find (\<lambda>x. \<not> is_whitespace (snd x)) (char_indices content) of
        None \<Rightarrow> Some None
      | Some (marker_start, _) \<Rightarrow> do {
          candidate \<leftarrow> rest_from content marker_start;
          case marker_at yaml candidate of
            None \<Rightarrow> Some None
          | Some (level, number_start, e) \<Rightarrow> do {
              number \<leftarrow> str_get candidate number_start e;
              if byte_at candidate e \<notin> {Some (CHR ''.''), Some (CHR '':''), Some (CHR '')'')} then Some None
              else do {
                suffix \<leftarrow> rest_from content (marker_start + e + 1);
                Some (hierarchy_result content level number suffix marker_start (marker_start + e + 1))
              }
            }
        })"

section \<open>Candidates\<close>

fun catalog_token :: "hierarchy_level \<Rightarrow> string" where
  "catalog_token Razdel = ''razdel''"
| "catalog_token Glava = ''glava''"
| "catalog_token Paragraph = ''paragraph''"
| "catalog_token Statya = ''statya''"
| "catalog_token Chast = ''chast''"
| "catalog_token Punkt = ''punkt''"
| "catalog_token Podpunkt = ''podpunkt''"

record hierarchy_candidate =
  hc_level :: hierarchy_level
  hc_number :: string
  hc_path :: "string option"
  hc_key_path :: string
  hc_title :: "string option"
  hc_marker_span :: decoded_span

definition hc_depth :: "hierarchy_candidate \<Rightarrow> nat" where
  "hc_depth c = (case hc_path c of None \<Rightarrow> 1 | Some path \<Rightarrow> length (split_on (CHR ''/'') path))"

datatype hierarchy_extract_diagnostic =
  DuplicateKey hierarchy_level string (first_index: nat) (later_index: nat)

record hierarchy_candidate_report =
  hr_candidates :: "hierarchy_candidate list"
  hr_diagnostics :: "hierarchy_extract_diagnostic list"
  hr_extracted :: nat

definition is_container_level :: "hierarchy_level \<Rightarrow> bool" where
  "is_container_level level = (level \<in> {Razdel, Glava, Paragraph})"

fun position_of :: "'a \<Rightarrow> 'a list \<Rightarrow> nat option" where
  "position_of x [] = None"
| "position_of x (y # ys) = (if y = x then Some 0 else map_option Suc (position_of x ys))"

definition level_depth :: "hierarchy_level \<Rightarrow> nat" where
  "level_depth level = (case position_of level all_levels of Some i \<Rightarrow> i | None \<Rightarrow> 2 ^ 64 - 1)"

text \<open>The ladder, top last: pop while the top is at or below the incoming level, then push.\<close>

definition ladder_push :: "(hierarchy_level \<times> string) list \<Rightarrow> hierarchy_level \<Rightarrow> string \<Rightarrow> (hierarchy_level \<times> string) list" where
  "ladder_push ladder level number =
     rev (dropWhile (\<lambda>x. level_depth level \<le> level_depth (fst x)) (rev ladder)) @ [(level, number)]"

definition ladder_path :: "(hierarchy_level \<times> string) list \<Rightarrow> string" where
  "ladder_path ladder = str_join ''/'' (map (\<lambda>x. catalog_token (fst x) @ ''-'' @ snd x)
     (filter (\<lambda>x. \<not> is_container_level (fst x)) ladder))"

record extraction_state =
  xs_ladder :: "(hierarchy_level \<times> string) list"
  xs_seen :: "(hierarchy_level \<times> string \<times> nat) list"
  xs_candidates :: "hierarchy_candidate list"
  xs_diagnostics :: "hierarchy_extract_diagnostic list"
  xs_extracted :: nat

definition extraction_start :: extraction_state where
  "extraction_start = \<lparr>xs_ladder = [], xs_seen = [], xs_candidates = [], xs_diagnostics = [], xs_extracted = 0\<rparr>"

definition extraction_hit :: "extraction_state \<Rightarrow> hierarchy_node \<Rightarrow> extraction_state" where
  "extraction_hit st node =
     (let level = hn_level node; number = hn_number node; hit_index = xs_extracted st;
          ladder = ladder_push (xs_ladder st) level number;
          joined = ladder_path ladder;
          path = (if 2 \<le> length (split_on (CHR ''/'') joined) then Some joined else None);
          key_path = (case path of None \<Rightarrow> number | Some p \<Rightarrow> p);
          st = st\<lparr>xs_ladder := ladder, xs_extracted := hit_index + 1\<rparr>
      in case find (\<lambda>(l, k, _). l = level \<and> k = key_path) (xs_seen st) of
           Some (_, _, first) \<Rightarrow> st\<lparr>xs_diagnostics := xs_diagnostics st @ [DuplicateKey level key_path first hit_index]\<rparr>
         | None \<Rightarrow> st\<lparr>xs_seen := xs_seen st @ [(level, key_path, hit_index)],
             xs_candidates := xs_candidates st @ [\<lparr>hc_level = level, hc_number = number, hc_path = path, hc_key_path = key_path,
               hc_title = hn_title node, hc_marker_span = hn_marker_span node\<rparr>]\<rparr>)"

fun extraction_loop :: "string \<Rightarrow> parsed_block list \<Rightarrow> extraction_state \<Rightarrow> extraction_state option" where
  "extraction_loop yaml [] st = Some st"
| "extraction_loop yaml (block # rest) st =
     (if pb_style block = PsProviderComment then extraction_loop yaml rest st
      else do {
        hit \<leftarrow> extract_hierarchy yaml block;
        extraction_loop yaml rest (case hit of None \<Rightarrow> st | Some node \<Rightarrow> extraction_hit st node)
      })"

definition extract_hierarchy_candidates :: "string \<Rightarrow> parsed_block list \<Rightarrow> hierarchy_candidate_report option" where
  "extract_hierarchy_candidates yaml blocks =
     map_option (\<lambda>st. \<lparr>hr_candidates = xs_candidates st, hr_diagnostics = xs_diagnostics st, hr_extracted = xs_extracted st\<rparr>)
       (extraction_loop yaml blocks extraction_start)"

section \<open>The ladder\<close>

text \<open>The markers that enclose the end of a document: those that no later marker reaches or passes on the way up.\<close>

fun enclosing :: "(hierarchy_level \<times> string) list \<Rightarrow> (hierarchy_level \<times> string) list" where
  "enclosing [] = []"
| "enclosing (x # xs) =
     (if list_all (\<lambda>y. level_depth (fst x) < level_depth (fst y)) xs then x # enclosing xs else enclosing xs)"

lemma enclosing_snoc:
  "enclosing (xs @ [y]) = filter (\<lambda>x. level_depth (fst x) < level_depth (fst y)) (enclosing xs) @ [y]"
  by (induction xs) auto

lemma enclosing_subset: "set (enclosing xs) \<subseteq> set xs"
  by (induction xs) auto

lemma enclosing_sorted: "sorted_wrt (\<lambda>x y. level_depth (fst x) < level_depth (fst y)) (enclosing xs)"
  using enclosing_subset by (induction xs) (auto simp: list_all_iff)

lemma pop_is_filter:
  "sorted_wrt (\<lambda>x y. f x < (f y :: nat)) xs \<Longrightarrow> rev (dropWhile (\<lambda>x. n \<le> f x) (rev xs)) = filter (\<lambda>x. f x < n) xs"
proof (induction xs rule: rev_induct)
  case (snoc x xs)
  show ?case
  proof (cases "n \<le> f x")
    case True
    with snoc show ?thesis by (simp add: sorted_wrt_append)
  next
    case False
    with snoc.prems have "filter (\<lambda>x. f x < n) xs = xs" by (auto simp: sorted_wrt_append filter_id_conv)
    with False show ?thesis by simp
  qed
qed simp

text \<open>C29. 
  The ladder that pops and pushes marker by marker is the list of the markers that enclose the current one: those before it
  that no later marker is at the same level as or above. In particular the levels on it go strictly inwards.
\<close>

theorem ladder_is_enclosing:
  "foldl (\<lambda>ladder (level, number). ladder_push ladder level number) [] hits = enclosing hits \<and>
   sorted_wrt (\<lambda>x y. level_depth (fst x) < level_depth (fst y)) (enclosing hits)"
proof (induction hits rule: rev_induct)
  case (snoc h hits)
  have "ladder_push (enclosing hits) (fst h) (snd h) = enclosing (hits @ [h])"
    using pop_is_filter [OF enclosing_sorted [of hits], of "level_depth (fst h)"]
    by (simp add: ladder_push_def enclosing_snoc)
  with snoc enclosing_sorted show ?case by (simp add: case_prod_beta)
qed simp

section \<open>No panic at the head of a block\<close>

lemma number_run_ascii: "i < number_run compound s \<Longrightarrow> i < length s \<and> (of_char (s ! i) :: nat) < 128"
proof (induction compound s arbitrary: i rule: number_run.induct)
  case (2 compound c s)
  show ?case
  proof (cases i)
    case 0
    then show ?thesis using 2(2) by (auto simp: digit_byte_ascii split: if_splits)
  next
    case (Suc j)
    with 2 show ?thesis by (auto split: if_splits)
  qed
qed simp

lemma roman_ascii: "is_roman_byte c \<Longrightarrow> (of_char c :: nat) < 128"
  by (auto simp: is_roman_byte_def)

lemma number_end_ascii:
  assumes "number_end yaml s p level = Some e"
  shows "p < e \<and> e \<le> length s \<and> (\<forall>i. p \<le> i \<longrightarrow> i < e \<longrightarrow> (of_char (s ! i) :: nat) < 128)"
proof -
  have run: ?thesis if "e = p + number_run True (drop p s)" "p < e"
  proof (intro conjI allI impI)
    have "number_run True (drop p s) - 1 < number_run True (drop p s)" using that by simp
    from number_run_ascii [OF this] show "e \<le> length s" using that unfolding length_drop by linarith
  next
    fix i assume "p \<le> i" "i < e"
    then have "i - p < number_run True (drop p s)" using that by linarith
    from number_run_ascii [OF this] have r: "i - p < length s - p" "(of_char (drop p s ! (i - p)) :: nat) < 128" by simp_all
    then have "p \<le> length s" by linarith
    then show "(of_char (s ! i) :: nat) < 128" using r(2) \<open>p \<le> i\<close> by simp
  qed (use that in simp)
  have roman: ?thesis if "e = p + length (takeWhile is_roman_byte (drop p s))" "p < e"
  proof (intro conjI allI impI)
    show "e \<le> length s" using that length_takeWhile_le [of is_roman_byte "drop p s"] unfolding length_drop by linarith
  next
    fix i assume i: "p \<le> i" "i < e"
    then have less: "i - p < length (takeWhile is_roman_byte (drop p s))" using that by linarith
    then have "is_roman_byte (takeWhile is_roman_byte (drop p s) ! (i - p))" by (metis nth_mem set_takeWhileD)
    then have "is_roman_byte (drop p s ! (i - p))" using takeWhile_nth [OF less] by simp
    then show "(of_char (s ! i) :: nat) < 128" using i(1) less length_takeWhile_le [of is_roman_byte "drop p s"] roman_ascii by simp
  qed (use that in simp)
  from assms show ?thesis using run roman by (auto simp: number_end_def Let_def split: bind_splits if_splits)
qed

lemma ascii_boundaries:
  assumes "utf8_ok s" "p < e" "e \<le> length s" "\<forall>i. p \<le> i \<longrightarrow> i < e \<longrightarrow> (of_char (s ! i) :: nat) < 128"
  shows "is_char_boundary s p \<and> is_char_boundary s e"
proof
  show "is_char_boundary s e" using boundary_after_ascii [OF assms(1), of "e - 1"] assms(2-4) by simp
  have "\<not> cont (s ! p)" using assms(2,4) by (auto simp: cont_def byte_in_def)
  then show "is_char_boundary s p" using assms(2,3) by (simp add: is_char_boundary_def)
qed

lemma extract_hierarchy_total:
  assumes "utf8_ok (pb_text block)"
  shows "extract_hierarchy yaml block \<noteq> None"
proof -
  let ?s = "pb_text block"
  show ?thesis
  proof (cases "find (\<lambda>x. \<not> is_whitespace (snd x)) (char_indices ?s)")
    case None
    then show ?thesis by (simp add: extract_hierarchy_def)
  next
    case (Some x)
    obtain p c where x: "x = (p, c)" by (cases x)
    from Some x have "(p, c) \<in> set (char_indices ?s)" by (auto simp: find_Some_iff)
    from char_indices_mem [OF this] have p: "is_char_boundary ?s p" "p \<le> length ?s" by simp_all
    let ?c = "drop p ?s"
    have ok: "utf8_ok ?c" using utf8_ok_cut [OF assms p] by simp
    show ?thesis
    proof (cases "marker_at yaml ?c")
      case None
      with Some x p show ?thesis by (simp add: extract_hierarchy_def rest_from_boundary)
    next
      case hit: (Some m)
      obtain level a e where m: "m = (level, a, e)" by (cases m)
      with hit have "number_end yaml ?c a level = Some e" by (auto simp: marker_at_def split: bind_splits)
      from number_end_ascii [OF this] have e: "a < e" "e \<le> length ?c" "\<forall>i. a \<le> i \<longrightarrow> i < e \<longrightarrow> (of_char (?c ! i) :: nat) < 128"
        by auto
      from ascii_boundaries [OF ok this] have bd: "is_char_boundary ?c a" "is_char_boundary ?c e" by auto
      have number: "str_get ?c a e = Some (slice ?c a e)" using e(1) bd by (intro str_get_slice) simp_all
      show ?thesis
      proof (cases "byte_at ?c e \<in> {Some (CHR ''.''), Some (CHR '':''), Some (CHR '')'')}")
        case False
        with Some x p hit m number show ?thesis by (simp add: extract_hierarchy_def rest_from_boundary)
      next
        case True
        then have "e < length ?c" "(of_char (?c ! e) :: nat) < 128" by (auto simp: byte_at_def split: if_splits)
        with boundary_after_ascii [OF ok] have "is_char_boundary ?c (Suc e)" "Suc e \<le> length ?c" by auto
        with boundary_add [OF p this(1)] p(2) have "is_char_boundary ?s (p + e + 1)" "p + e + 1 \<le> length ?s" by simp_all
        with Some x p hit m number True show ?thesis by (auto simp: extract_hierarchy_def rest_from_boundary Let_def)
      qed
    qed
  qed
qed

section \<open>The report\<close>

definition block_markers :: "string \<Rightarrow> parsed_block list \<Rightarrow> hierarchy_node list" where
  "block_markers yaml blocks = concat (map (\<lambda>b. if pb_style b = PsProviderComment then []
     else (case extract_hierarchy yaml b of Some (Some node) \<Rightarrow> [node] | _ \<Rightarrow> [])) blocks)"

lemma extraction_loop_markers:
  assumes "list_all (\<lambda>b. utf8_ok (pb_text b)) blocks"
  shows "extraction_loop yaml blocks st = Some (foldl extraction_hit st (block_markers yaml blocks))"
  using assms
proof (induction blocks arbitrary: st)
  case (Cons b bs)
  then obtain r where "extract_hierarchy yaml b = Some r" using extract_hierarchy_total [of b yaml] by auto
  with Cons show ?case by (cases r) (simp_all add: block_markers_def)
qed (simp add: block_markers_def)

text \<open>The key of the last of some markers, and the keys of all of them.\<close>

definition ladder_key :: "(hierarchy_level \<times> string) list \<Rightarrow> hierarchy_node \<Rightarrow> hierarchy_level \<times> string" where
  "ladder_key ladder n =
     (hn_level n, if 2 \<le> length (split_on (CHR ''/'') (ladder_path ladder)) then ladder_path ladder else hn_number n)"

definition marker_key :: "hierarchy_node list \<Rightarrow> hierarchy_level \<times> string" where
  "marker_key nodes = ladder_key (enclosing (map (\<lambda>n. (hn_level n, hn_number n)) nodes)) (last nodes)"

definition marker_keys :: "hierarchy_node list \<Rightarrow> (hierarchy_level \<times> string) list" where
  "marker_keys nodes = map (\<lambda>i. marker_key (take (Suc i) nodes)) [0..<length nodes]"

definition first_indices :: "'a list \<Rightarrow> nat list" where
  "first_indices ks = filter (\<lambda>i. ks ! i \<notin> set (take i ks)) [0..<length ks]"

definition repeat_indices :: "'a list \<Rightarrow> nat list" where
  "repeat_indices ks = filter (\<lambda>i. ks ! i \<in> set (take i ks)) [0..<length ks]"

lemma marker_keys_snoc: "marker_keys (nodes @ [n]) = marker_keys nodes @ [marker_key (nodes @ [n])]"
  by (simp add: marker_keys_def)

lemma length_marker_keys [simp]: "length (marker_keys nodes) = length nodes"
  by (simp add: marker_keys_def)

lemma indices_snoc:
  "first_indices (ks @ [k]) = first_indices ks @ (if k \<in> set ks then [] else [length ks])"
  "repeat_indices (ks @ [k]) = repeat_indices ks @ (if k \<in> set ks then [length ks] else [])"
proof -
  have same: "(ks @ [k]) ! i = ks ! i" "take i (ks @ [k]) = take i ks" if "i \<in> set [0..<length ks]" for i
    using that by (simp_all add: nth_append)
  then have "filter (\<lambda>i. (ks @ [k]) ! i \<notin> set (take i (ks @ [k]))) [0..<length ks] = first_indices ks"
    "filter (\<lambda>i. (ks @ [k]) ! i \<in> set (take i (ks @ [k]))) [0..<length ks] = repeat_indices ks"
    unfolding first_indices_def repeat_indices_def by (intro filter_cong; simp)+
  then show "first_indices (ks @ [k]) = first_indices ks @ (if k \<in> set ks then [] else [length ks])"
    "repeat_indices (ks @ [k]) = repeat_indices ks @ (if k \<in> set ks then [length ks] else [])"
    by (simp_all add: first_indices_def [of "ks @ [k]"] repeat_indices_def [of "ks @ [k]"])
qed

lemma index_less: "i \<in> set (first_indices ks) \<Longrightarrow> i < length ks" "i \<in> set (repeat_indices ks) \<Longrightarrow> i < length ks"
  by (simp_all add: first_indices_def repeat_indices_def)

lemma position_of_None: "position_of x ks = None \<longleftrightarrow> x \<notin> set ks"
  by (induction ks) auto

lemma position_of_append:
  "position_of x (ks @ js) = (case position_of x ks of Some i \<Rightarrow> Some i | None \<Rightarrow> map_option ((+) (length ks)) (position_of x js))"
  by (induction ks) (auto split: option.splits simp: option.map_comp comp_def, (cases "position_of x js"; simp)+)

definition seen_of :: "(hierarchy_level \<times> string) list \<Rightarrow> (hierarchy_level \<times> string \<times> nat) list" where
  "seen_of ks = map (\<lambda>i. (fst (ks ! i), snd (ks ! i), i)) (first_indices ks)"

definition repeats_of :: "(hierarchy_level \<times> string) list \<Rightarrow> hierarchy_extract_diagnostic list" where
  "repeats_of ks = map (\<lambda>j. DuplicateKey (fst (ks ! j)) (snd (ks ! j)) (the (position_of (ks ! j) ks)) j) (repeat_indices ks)"

lemma seen_of_snoc: "seen_of (ks @ [k]) = seen_of ks @ (if k \<in> set ks then [] else [(fst k, snd k, length ks)])"
proof -
  have "map (\<lambda>i. (fst ((ks @ [k]) ! i), snd ((ks @ [k]) ! i), i)) (first_indices ks) = seen_of ks"
    unfolding seen_of_def by (intro map_cong) (auto simp: nth_append dest: index_less)
  then show ?thesis by (simp add: seen_of_def [of "ks @ [k]"] indices_snoc)
qed

lemma repeats_of_snoc:
  "repeats_of (ks @ [k]) = repeats_of ks @
     (if k \<in> set ks then [DuplicateKey (fst k) (snd k) (the (position_of k ks)) (length ks)] else [])"
proof -
  have pos: "position_of x (ks @ [k]) = position_of x ks" if "x \<in> set ks" for x
    using that position_of_None [of x ks] by (auto simp: position_of_append)
  have "map (\<lambda>j. DuplicateKey (fst ((ks @ [k]) ! j)) (snd ((ks @ [k]) ! j)) (the (position_of ((ks @ [k]) ! j) (ks @ [k]))) j)
      (repeat_indices ks) = repeats_of ks"
    unfolding repeats_of_def by (intro map_cong) (auto simp: nth_append pos dest: index_less)
  then show ?thesis by (simp add: repeats_of_def [of "ks @ [k]"] indices_snoc pos)
qed

lemma find_append: "find P (xs @ ys) = (case find P xs of None \<Rightarrow> find P ys | Some x \<Rightarrow> Some x)"
  by (induction xs) auto

lemma find_seen:
  "find (\<lambda>(l, k, _). l = level \<and> k = key) (seen_of ks) =
     (case position_of (level, key) ks of None \<Rightarrow> None | Some f \<Rightarrow> Some (level, key, f))"
proof (induction ks rule: rev_induct)
  case Nil
  then show ?case by (simp add: seen_of_def first_indices_def)
next
  case (snoc k ks)
  then show ?case
    using position_of_None [of "(level, key)" ks] position_of_None [of k ks]
    by (cases k) (auto simp: seen_of_snoc find_append position_of_append split: option.splits)
qed

text \<open>What the report holds for some markers.\<close>

definition candidate_key :: "hierarchy_candidate \<Rightarrow> hierarchy_level \<times> string" where
  "candidate_key c = (hc_level c, hc_key_path c)"

lemma extraction_hit_cases:
  fixes st n
  defines "ladder \<equiv> ladder_push (xs_ladder st) (hn_level n) (hn_number n)"
  defines "k \<equiv> ladder_key ladder n"
  defines "r \<equiv> find (\<lambda>(l, j, _). l = fst k \<and> j = snd k) (xs_seen st)"
  shows "xs_ladder (extraction_hit st n) = ladder" "xs_extracted (extraction_hit st n) = Suc (xs_extracted st)"
    "r = Some (l, j, f) \<Longrightarrow> xs_seen (extraction_hit st n) = xs_seen st \<and>
      xs_candidates (extraction_hit st n) = xs_candidates st \<and>
      xs_diagnostics (extraction_hit st n) = xs_diagnostics st @ [DuplicateKey (fst k) (snd k) f (xs_extracted st)]"
    "r = None \<Longrightarrow> xs_seen (extraction_hit st n) = xs_seen st @ [(fst k, snd k, xs_extracted st)] \<and>
      map candidate_key (xs_candidates (extraction_hit st n)) = map candidate_key (xs_candidates st) @ [k] \<and>
      map hc_marker_span (xs_candidates (extraction_hit st n)) = map hc_marker_span (xs_candidates st) @ [hn_marker_span n] \<and>
      xs_diagnostics (extraction_hit st n) = xs_diagnostics st"
proof -
  define p where "p = (if 2 \<le> length (split_on (CHR ''/'') (ladder_path ladder)) then Some (ladder_path ladder) else None)"
  have k: "k = (hn_level n, case p of None \<Rightarrow> hn_number n | Some q \<Rightarrow> q)" by (simp add: k_def ladder_key_def p_def)
  have hit: "extraction_hit st n =
     (let st' = st\<lparr>xs_ladder := ladder, xs_extracted := Suc (xs_extracted st)\<rparr> in
      case r of
        Some (_, _, f) \<Rightarrow> st'\<lparr>xs_diagnostics := xs_diagnostics st @ [DuplicateKey (fst k) (snd k) f (xs_extracted st)]\<rparr>
      | None \<Rightarrow> st'\<lparr>xs_seen := xs_seen st @ [(fst k, snd k, xs_extracted st)],
          xs_candidates := xs_candidates st @ [\<lparr>hc_level = hn_level n, hc_number = hn_number n, hc_path = p, hc_key_path = snd k,
            hc_title = hn_title n, hc_marker_span = hn_marker_span n\<rparr>]\<rparr>)"
    unfolding extraction_hit_def Let_def ladder_def [symmetric] p_def [symmetric] r_def k by (simp split: option.split)
  show "xs_ladder (extraction_hit st n) = ladder" "xs_extracted (extraction_hit st n) = Suc (xs_extracted st)"
    by (simp_all add: hit Let_def split: option.splits)
  show "r = Some (l, j, f) \<Longrightarrow> xs_seen (extraction_hit st n) = xs_seen st \<and>
      xs_candidates (extraction_hit st n) = xs_candidates st \<and>
      xs_diagnostics (extraction_hit st n) = xs_diagnostics st @ [DuplicateKey (fst k) (snd k) f (xs_extracted st)]"
    by (simp add: hit)
  show "r = None \<Longrightarrow> xs_seen (extraction_hit st n) = xs_seen st @ [(fst k, snd k, xs_extracted st)] \<and>
      map candidate_key (xs_candidates (extraction_hit st n)) = map candidate_key (xs_candidates st) @ [k] \<and>
      map hc_marker_span (xs_candidates (extraction_hit st n)) = map hc_marker_span (xs_candidates st) @ [hn_marker_span n] \<and>
      xs_diagnostics (extraction_hit st n) = xs_diagnostics st"
    by (simp add: hit candidate_key_def k)
qed

lemma extraction_state_of:
  fixes nodes
  defines "st \<equiv> foldl extraction_hit extraction_start nodes" and "ks \<equiv> marker_keys nodes"
  shows "xs_ladder st = enclosing (map (\<lambda>n. (hn_level n, hn_number n)) nodes) \<and> xs_extracted st = length nodes \<and>
    xs_seen st = seen_of ks \<and> xs_diagnostics st = repeats_of ks \<and>
    map candidate_key (xs_candidates st) = map ((!) ks) (first_indices ks) \<and>
    map hc_marker_span (xs_candidates st) = map (\<lambda>i. hn_marker_span (nodes ! i)) (first_indices ks)"
  unfolding st_def ks_def
proof (induction nodes rule: rev_induct)
  case Nil
  then show ?case
    by (simp add: extraction_start_def seen_of_def repeats_of_def first_indices_def repeat_indices_def marker_keys_def)
next
  case (snoc n nodes)
  define st where "st = foldl extraction_hit extraction_start nodes"
  define ks where "ks = marker_keys nodes"
  define k where "k = marker_key (nodes @ [n])"
  let ?hits = "map (\<lambda>n. (hn_level n, hn_number n)) nodes"
  have ladder: "ladder_push (xs_ladder st) (hn_level n) (hn_number n) = enclosing (?hits @ [(hn_level n, hn_number n)])"
    using snoc pop_is_filter [OF enclosing_sorted [of ?hits], of "level_depth (hn_level n)"]
    by (simp add: ladder_push_def enclosing_snoc st_def)
  have key: "ladder_key (enclosing (?hits @ [(hn_level n, hn_number n)])) n = k" by (simp add: k_def marker_key_def)
  note hit = extraction_hit_cases [of st n, unfolded ladder key]
  have keep: "map ((!) (ks @ [k])) (first_indices ks) = map ((!) ks) (first_indices ks)"
    "map (\<lambda>i. hn_marker_span ((nodes @ [n]) ! i)) (first_indices ks) = map (\<lambda>i. hn_marker_span (nodes ! i)) (first_indices ks)"
    by (intro map_cong; auto simp: nth_append ks_def dest: index_less)+
  have len: "length ks = length nodes" by (simp add: ks_def)
  have old: "xs_extracted st = length nodes" "xs_seen st = seen_of ks" "xs_diagnostics st = repeats_of ks"
    "map candidate_key (xs_candidates st) = map ((!) ks) (first_indices ks)"
    "map hc_marker_span (xs_candidates st) = map (\<lambda>i. hn_marker_span (nodes ! i)) (first_indices ks)"
    using snoc by (simp_all add: st_def ks_def)
  have found: "find (\<lambda>(l, j, _). l = fst k \<and> j = snd k) (xs_seen st) =
      (case position_of k ks of None \<Rightarrow> None | Some f \<Rightarrow> Some (fst k, snd k, f))"
    unfolding old find_seen by simp
  have goal_st: "foldl extraction_hit extraction_start (nodes @ [n]) = extraction_hit st n" by (simp add: st_def)
  have goal_ks: "marker_keys (nodes @ [n]) = ks @ [k]" by (simp add: marker_keys_snoc ks_def k_def)
  show ?case
  proof (cases "k \<in> set ks")
    case True
    then obtain f where f: "position_of k ks = Some f" using position_of_None [of k ks] by auto
    with hit(3) [of "fst k" "snd k" f] found True hit(1,2) old keep len show ?thesis
      unfolding goal_st goal_ks by (simp add: seen_of_snoc repeats_of_snoc indices_snoc)
  next
    case False
    then have f: "position_of k ks = None" using position_of_None [of k ks] by auto
    with hit(4) found False hit(1,2) old keep len show ?thesis
      unfolding goal_st goal_ks by (simp add: seen_of_snoc repeats_of_snoc indices_snoc nth_append)
  qed
qed

text \<open>C10. 
  On well-formed blocks the extraction does not panic and accounts for every marker exactly once, in document order: the
  candidates are the markers whose key, the level with the path of the enclosing articles and points, is met for the first
  time, the diagnostics are the others, each with the index of the first marker of its key and its own, and the two counts
  add up to the number of markers. Comments of the provider have no part in it.
\<close>

theorem report_accounts_for_every_marker:
  assumes "list_all (\<lambda>b. utf8_ok (pb_text b)) blocks"
  shows "\<exists>r. extract_hierarchy_candidates yaml blocks = Some r \<and>
    (let nodes = block_markers yaml blocks; ks = marker_keys nodes in
      hr_extracted r = length nodes \<and> hr_extracted r = length (hr_candidates r) + length (hr_diagnostics r) \<and>
      map candidate_key (hr_candidates r) = map ((!) ks) (first_indices ks) \<and> distinct (map candidate_key (hr_candidates r)) \<and>
      map hc_marker_span (hr_candidates r) = map (\<lambda>i. hn_marker_span (nodes ! i)) (first_indices ks) \<and>
      hr_diagnostics r = repeats_of ks)"
proof -
  define nodes where "nodes = block_markers yaml blocks"
  define ks where "ks = marker_keys nodes"
  note st = extraction_state_of [of nodes, folded ks_def]
  have "distinct (map ((!) js) (first_indices js)) \<and> length (first_indices js) + length (repeat_indices js) = length js \<and>
      set (map ((!) js) (first_indices js)) = set js" for js :: "(hierarchy_level \<times> string) list"
  proof (induction js rule: rev_induct)
    case (snoc j js)
    have same: "map ((!) (js @ [j])) (first_indices js) = map ((!) js) (first_indices js)"
      by (intro map_cong) (auto simp: nth_append dest: index_less)
    have "map ((!) (js @ [j])) (first_indices (js @ [j])) = map ((!) js) (first_indices js) @ (if j \<in> set js then [] else [j])"
      by (simp add: indices_snoc same del: map_eq_conv)
    moreover have "length (first_indices (js @ [j])) + length (repeat_indices (js @ [j])) =
        Suc (length (first_indices js) + length (repeat_indices js))" by (simp add: indices_snoc)
    ultimately show ?case using snoc by (simp add: insert_absorb)
  qed (simp add: first_indices_def repeat_indices_def)
  from this [of ks] st have "xs_extracted (foldl extraction_hit extraction_start nodes) =
      length (xs_candidates (foldl extraction_hit extraction_start nodes)) +
      length (xs_diagnostics (foldl extraction_hit extraction_start nodes)) \<and>
    distinct (map candidate_key (xs_candidates (foldl extraction_hit extraction_start nodes)))"
    by (simp add: repeats_of_def ks_def) (metis length_map)
  moreover have "xs_extracted (foldl extraction_hit extraction_start nodes) = length nodes"
    "xs_diagnostics (foldl extraction_hit extraction_start nodes) = repeats_of ks" using st by simp_all
  ultimately have "length (xs_candidates (foldl extraction_hit extraction_start nodes)) + length (repeats_of ks) = length nodes"
    "distinct (map candidate_key (xs_candidates (foldl extraction_hit extraction_start nodes)))" by metis+
  with st show ?thesis
    unfolding extract_hierarchy_candidates_def extraction_loop_markers [OF assms] nodes_def [symmetric]
    by (simp add: Let_def ks_def [symmetric])
qed

section \<open>Two defects of the numbered markers\<close>

lemma letter_bytes: "c \<in> utf8_of ` {0x430..0x44F} \<Longrightarrow> c \<noteq> [] \<and> \<not> is_digit_byte (hd c) \<and> hd c \<noteq> CHR ''.''"
proof -
  assume "c \<in> utf8_of ` {0x430..0x44F}"
  then obtain n where n: "c = utf8_of n" "0x430 \<le> n" "n \<le> 0x44F" by auto
  from div_le_mono [OF n(2), of 64] div_le_mono [OF n(3), of 64] have "n div 64 = 16 \<or> n div 64 = 17" by auto
  moreover have "(char_of (208 :: nat) :: char) \<noteq> CHR ''.''" "(char_of (209 :: nat) :: char) \<noteq> CHR ''.''" by code_simp+
  ultimately show ?thesis using n by (auto simp: utf8_of_def is_digit_byte_def less_eq_char_def)
qed

text \<open>
  A rule for markers of a letter wants the candidate to begin with a small letter and then digits at the same place: it
  matches no text, so that with the rules of letters alone there is no numbered marker.
\<close>

theorem letter_rules_match_nothing:
  assumes "list_all (\<lambda>r. nr_style r = NmLetterCyrillic) rules"
  shows "numbered_hit (rules @ others) candidate = numbered_hit others candidate"
  using assms
proof (induction rules)
  case (Cons r rs)
  have "number_run (nr_allow_compound r) candidate = 0" if "first_char candidate = Some c" "c \<in> utf8_of ` {0x430..0x44F}" for c
  proof -
    from that(1) obtain cs where "str_chars candidate = c # cs" by (auto simp: first_char_eq split: list.splits)
    then have "candidate = c @ concat cs" by (metis concat.simps(2) concat_str_chars)
    with letter_bytes [OF that(2)] show ?thesis by (cases c) simp_all
  qed
  with Cons show ?case by (auto simp: Let_def split: option.splits)
qed simp

definition sub_point_rule :: numbered_marker_rule where
  "sub_point_rule = \<lparr>nr_level = Podpunkt, nr_style = NmLetterCyrillic, nr_suffix = '')'', nr_allow_compound = False\<rparr>"

lemma letter_rules_match_nothing_witness:
  "list_all (\<lambda>r. nr_style r = NmLetterCyrillic) [sub_point_rule] \<and>
     numbered_hit [sub_point_rule] (utf8_of 0x430 @ '') text'') = None"
  using letter_rules_match_nothing [of "[sub_point_rule]" "[]" "utf8_of 0x430 @ '') text''"]
  by (simp add: sub_point_rule_def)

text \<open>
  The section of the numbered markers is read on past its end, to the next line that is not indented: with the sections
  of the ontology behind it, the spacing policy and the number styles become rules as well. So a text that begins with
  "1.2:" is taken for the marker of a paragraph.
\<close>

definition ontology_excerpt :: string where
  "ontology_excerpt = concat (map (\<lambda>l. l @ [CHR 0x0A])
     [''  decode_numbered_markers:'',
      ''    Chast: {number_style: digit, suffix: '' @ [CHR 0x22] @ ''.'' @ [CHR 0x22] @ '', allow_compound: true}'',
      ''  decode_prefix_space_policy:'',
      ''    default: required'',
      ''    Paragraph: optional''])"

theorem numbered_section_leaks:
  "map (\<lambda>r. (nr_level r, nr_suffix r, nr_allow_compound r)) (parse_numbered_markers ontology_excerpt) =
     [(Chast, ''.'', True), (Paragraph, ''.'', False)] \<and>
   numbered_hit (parse_numbered_markers ontology_excerpt) ''1.2: text'' = Some (Paragraph, 0)"
  by code_simp

lemma report_accounts_for_every_marker_witness:
  "\<exists>r. extract_hierarchy_candidates ontology_excerpt [sample_block, sample_block\<lparr>pb_text := ''1. One''\<rparr>] = Some r \<and>
     hr_extracted r = length (hr_candidates r) + length (hr_diagnostics r)"
proof -
  have "list_all (\<lambda>b. utf8_ok (pb_text b)) [sample_block, sample_block\<lparr>pb_text := ''1. One''\<rparr>]"
    by (simp add: sample_block_def byte_in_def)
  from report_accounts_for_every_marker [OF this, of ontology_excerpt] show ?thesis by (metis (no_types, lifting))
qed

end
