(* ===== verification/LN_Capture.thy ===== *)
theory LN_Capture
  imports LN_Mentions LN_Hierarchy "HOL-Library.Product_Lexorder" "HOL-Library.Sublist"
begin

text \<open>
  The capture of law references of \<open>ln-decode\<close> (files \<open>capture_bounds.rs\<close>, \<open>npa_continuation.rs\<close> and \<open>lawref.rs\<close>): seven
  matchers over the tokens of the covering lexer, the overlap policy and the allowlists read from the ontology, the
  arbitration of pairs and the ceiling of a block. A panic is \<open>None\<close>; the text of an error of the table is left out, its
  kind and key are kept. The theorems: the pair relation is that of the sets of bytes, the overlap policy drops only what a
  wider candidate of the outcome contains, the arbitration accounts for every candidate, and a capture is bounded by tokens.
\<close>

section \<open>Bounds\<close>

datatype span_relation_kind = RelExact | RelContainment | RelPartialOverlap | RelDisjoint

fun span_relation_as_str :: "span_relation_kind \<Rightarrow> string" where
  "span_relation_as_str RelExact = ''exact''"
| "span_relation_as_str RelContainment = ''containment''"
| "span_relation_as_str RelPartialOverlap = ''partial_overlap''"
| "span_relation_as_str RelDisjoint = ''disjoint''"

fun span_relation :: "nat \<times> nat \<Rightarrow> nat \<times> nat \<Rightarrow> span_relation_kind" where
  "span_relation (a_start, a_end) (b_start, b_end) =
     (if a_start = b_start \<and> a_end = b_end then RelExact
      else if (a_start \<le> b_start \<and> b_end \<le> a_end) \<or> (b_start \<le> a_start \<and> a_end \<le> b_end) then RelContainment
      else if a_start < b_end \<and> b_start < a_end then RelPartialOverlap
      else RelDisjoint)"

datatype pair_diagnostic =
  DuplicateMatcherEvidenceMerged | ExactSpanSlotConflict | ContainmentWithoutPairPolicy | PartialOverlapConflict

fun pair_diagnostic_as_str :: "pair_diagnostic \<Rightarrow> string" where
  "pair_diagnostic_as_str DuplicateMatcherEvidenceMerged = ''duplicate_matcher_evidence_merged''"
| "pair_diagnostic_as_str ExactSpanSlotConflict = ''exact_span_slot_conflict''"
| "pair_diagnostic_as_str ContainmentWithoutPairPolicy = ''containment_without_pair_policy''"
| "pair_diagnostic_as_str PartialOverlapConflict = ''partial_overlap_conflict''"

datatype pair_outcome = RetainBoth "pair_diagnostic option" | MergeEvidence pair_diagnostic | ConflictSet pair_diagnostic

definition arbitrate_pair :: "nat \<times> nat \<Rightarrow> nat \<times> nat \<Rightarrow> bool \<Rightarrow> pair_outcome" where
  "arbitrate_pair a b slots_equal =
     (case span_relation a b of
        RelExact \<Rightarrow> if slots_equal then MergeEvidence DuplicateMatcherEvidenceMerged else ConflictSet ExactSpanSlotConflict
      | RelContainment \<Rightarrow> RetainBoth (Some ContainmentWithoutPairPolicy)
      | RelPartialOverlap \<Rightarrow> ConflictSet PartialOverlapConflict
      | RelDisjoint \<Rightarrow> RetainBoth None)"

definition PROPOSED_CANDIDATE_CEILING :: nat where
  "PROPOSED_CANDIDATE_CEILING = 1024"

definition CANDIDATE_LIMIT_REACHED :: string where
  "CANDIDATE_LIMIT_REACHED = ''candidate_limit_reached''"

datatype candidate_limit_outcome = LimitAccepted | LimitReached

definition limit_is_accepted :: "candidate_limit_outcome \<Rightarrow> bool" where
  "limit_is_accepted l = (l = LimitAccepted)"

definition limit_diagnostic :: "candidate_limit_outcome \<Rightarrow> string option" where
  "limit_diagnostic l = (case l of LimitAccepted \<Rightarrow> None | LimitReached \<Rightarrow> Some CANDIDATE_LIMIT_REACHED)"

definition on_candidate_limit :: "nat \<Rightarrow> candidate_limit_outcome" where
  "on_candidate_limit accepted_count = (if accepted_count < PROPOSED_CANDIDATE_CEILING then LimitAccepted else LimitReached)"

text \<open>\<open>npa_continuation.rs\<close>\<close>

record continuation_eligibility =
  ce_head_status_proposed :: bool
  ce_tail_status_not_rejected :: bool
  ce_distinct_frames :: bool
  ce_distinct_blocks :: bool
  ce_head_admits_act_type :: bool
  ce_head_order_before_tail :: bool
  ce_same_scope :: bool
  ce_head_retains_derivation :: bool
  ce_tail_retains_derivation :: bool

definition eligible_continuation_head_for :: "continuation_eligibility \<Rightarrow> bool" where
  "eligible_continuation_head_for e =
     (ce_head_status_proposed e \<and> ce_tail_status_not_rejected e \<and> ce_distinct_frames e \<and> ce_distinct_blocks e \<and>
      ce_head_admits_act_type e \<and> ce_head_order_before_tail e \<and> ce_same_scope e \<and> ce_head_retains_derivation e \<and>
      ce_tail_retains_derivation e)"

section \<open>The precedence table\<close>

record lawref_precedence =
  lp_pattern_ids :: "string list"
  lp_digit_start_order :: "string list"
  lp_letter_start_order :: "string list"
  lp_overlap_date_docno_inside_amendment :: string
  lp_overlap_same_pattern_containment :: string
  lp_sort_key :: "string list"
  lp_chain_abbrev_ids :: "string list"
  lp_amendment_abbrev_ids :: "string list"
  lp_quoted_marker_abbrev_ids :: "string list"
  lp_fullword_tails :: "string list"
  lp_anaphora_heads :: "string list"

definition PATTERN_CHAIN :: string where "PATTERN_CHAIN = ''abbrev-hier-chain''"
definition PATTERN_AMENDMENT :: string where "PATTERN_AMENDMENT = ''abbrev-amendment-window''"
definition PATTERN_DATE_DOCNO :: string where "PATTERN_DATE_DOCNO = ''date-docno-window''"
definition PATTERN_FULLWORD :: string where "PATTERN_FULLWORD = ''fullword-ref''"
definition PATTERN_QUOTED_ENUM :: string where "PATTERN_QUOTED_ENUM = ''quoted-enum''"
definition PATTERN_RANGE :: string where "PATTERN_RANGE = ''range_candidate''"
definition PATTERN_ANAPHORA :: string where "PATTERN_ANAPHORA = ''anaphora_candidate''"

definition PATTERN_ID_CANON :: "string list" where
  "PATTERN_ID_CANON = [''abbrev-hier-chain'', ''abbrev-amendment-window'', ''date-docno-window'', ''fullword-ref'',
     ''quoted-enum'', ''range_candidate'', ''anaphora_candidate'']"

definition DIGIT_START_ORDER_FROZEN :: "string list" where
  "DIGIT_START_ORDER_FROZEN = [''Date'', ''HierNum'', ''DocNo'', ''EnumMarker'']"

definition LETTER_START_ORDER_FROZEN :: "string list" where
  "LETTER_START_ORDER_FROZEN = [''Abbrev'', ''EnumMarker'', ''LawCode'', ''Word'']"

definition SORT_KEY_FROZEN :: "string list" where
  "SORT_KEY_FROZEN = [''start'', ''end'', ''pattern_id'']"

definition OVERLAP_POLICIES :: "string list" where
  "OVERLAP_POLICIES = [''drop'']"

definition LEXER_KIND_NAMES :: "string list" where
  "LEXER_KIND_NAMES = [''Word'', ''Abbrev'', ''HierNum'', ''Date'', ''DocNo'', ''EnumMarker'', ''LawCode'', ''Punct'', ''Space'']"

definition LIST_KEYS :: "string list" where
  "LIST_KEYS = [''pattern_ids'', ''digit_start_order'', ''letter_start_order'', ''sort_key'', ''chain_abbrev_ids'',
     ''amendment_abbrev_ids'', ''quoted_marker_abbrev_ids'', ''fullword_tails'', ''anaphora_heads'']"

definition SCALAR_KEYS :: "string list" where
  "SCALAR_KEYS = [''overlap_date_docno_inside_amendment'', ''overlap_same_pattern_containment'']"

text \<open>The errors, by kind; the string is the key or the heading that the message names, the second the offending entry.\<close>

datatype table_error =
    MissingHeading string | NonEntryLine string | EmptyKey string | DuplicateTableKey string string
  | UnknownTableKey string | NotInlineList string | EmptyListItem string | MissingTableKey string
  | EmptyTable string | UnknownEntry string string | DuplicateEntry string string | MissingEntry string string
  | NotFrozenOrder string | UnknownPolicy string string | EmptyEntry string | LexiconError table_error | UnhandledKeys

definition comment_stripped :: "string \<Rightarrow> string" where
  "comment_stripped line = before_hash line"

fun entry_lines :: "string \<Rightarrow> nat option \<Rightarrow> (string \<times> string) list \<Rightarrow> string list \<Rightarrow> table_error + (string \<times> string) list" where
  "entry_lines heading in_map entries [] = (if in_map = None then Inl (MissingHeading heading) else Inr entries)"
| "entry_lines heading in_map entries (raw # rest) =
     (let line = comment_stripped raw; indent = length raw - length (trim_start raw) in
      if str_trim line = [] then entry_lines heading in_map entries rest
      else case in_map of
        None \<Rightarrow> entry_lines heading (if str_trim line = heading then Some indent else None) entries rest
      | Some heading_indent \<Rightarrow>
          if indent \<le> heading_indent then Inr entries
          else (case split_once (CHR '':'') (str_trim line) of
              None \<Rightarrow> Inl (NonEntryLine heading)
            | Some (key, value) \<Rightarrow>
                if str_trim key = [] then Inl (EmptyKey heading)
                else if str_trim key \<in> set (map fst entries) then Inl (DuplicateTableKey heading (str_trim key))
                else entry_lines heading in_map (entries @ [(str_trim key, str_trim value)]) rest))"

definition heading_entries :: "string \<Rightarrow> string \<Rightarrow> table_error + (string \<times> string) list" where
  "heading_entries yaml heading = entry_lines heading None [] (str_lines yaml)"

definition inline_items :: "string \<Rightarrow> string \<Rightarrow> table_error + string list" where
  "inline_items key raw =
     (if \<not> (starts_with ''['' raw \<and> 2 \<le> length raw \<and> last raw = CHR '']'') then Inl (NotInlineList key)
      else let body = butlast (tl raw) in
        if str_trim body = [] then Inr []
        else let items = map (\<lambda>part. unquote (str_trim part)) (split_on (CHR '','') body) in
          if [] \<in> set items then Inl (EmptyListItem key) else Inr items)"

text \<open>The dispatch of the keys over the entries: the lists and the scalars in their order.\<close>

fun dispatch_keys :: "(string \<times> string) list \<Rightarrow> table_error + ((string \<times> string list) list \<times> (string \<times> string) list)" where
  "dispatch_keys [] = Inr ([], [])"
| "dispatch_keys ((key, raw) # rest) =
     (if key \<in> set LIST_KEYS
      then (case inline_items key raw of
          Inl e \<Rightarrow> Inl e
        | Inr items \<Rightarrow> (case dispatch_keys rest of Inl e \<Rightarrow> Inl e | Inr (ls, ss) \<Rightarrow> Inr ((key, items) # ls, ss)))
      else if key \<in> set SCALAR_KEYS
      then (case dispatch_keys rest of Inl e \<Rightarrow> Inl e | Inr (ls, ss) \<Rightarrow> Inr (ls, (key, unquote raw) # ss))
      else Inl (UnknownTableKey key))"

text \<open>\<open>take_list\<close> and \<open>take_scalar\<close>: the value of the first row of the key, and the other rows.\<close>

definition take_row :: "(string \<times> 'a) list \<Rightarrow> string \<Rightarrow> table_error + ('a \<times> (string \<times> 'a) list)" where
  "take_row rows key =
     (case position_of key (map fst rows) of
        None \<Rightarrow> Inl (MissingTableKey key)
      | Some i \<Rightarrow> Inr (snd (rows ! i), take i rows @ drop (Suc i) rows))"

text \<open>The entries are walked in order; \<open>seen\<close> are those in front.\<close>

fun entries_unique :: "string \<Rightarrow> (string \<Rightarrow> bool) \<Rightarrow> (string \<Rightarrow> table_error) \<Rightarrow> string list \<Rightarrow> string list \<Rightarrow> table_error + unit" where
  "entries_unique key ok err seen [] = Inr ()"
| "entries_unique key ok err seen (x # xs) =
     (if \<not> ok x then Inl (err x)
      else if x \<in> set seen then Inl (DuplicateEntry key x)
      else entries_unique key ok err (seen @ [x]) xs)"

definition validate_pattern_ids :: "string list \<Rightarrow> table_error + unit" where
  "validate_pattern_ids ids =
     (if ids = [] then Inl (EmptyTable ''pattern_ids'')
      else case entries_unique ''pattern_ids'' (\<lambda>i. i \<in> set PATTERN_ID_CANON) (UnknownEntry ''pattern_ids'') [] ids of
        Inl e \<Rightarrow> Inl e
      | Inr _ \<Rightarrow> (case find (\<lambda>i. i \<notin> set ids) PATTERN_ID_CANON of
          None \<Rightarrow> Inr ()
        | Some i \<Rightarrow> Inl (MissingEntry ''pattern_ids'' i)))"

definition validate_frozen_order :: "string list \<Rightarrow> string list \<Rightarrow> string \<Rightarrow> table_error + unit" where
  "validate_frozen_order order frozen key =
     (case find (\<lambda>k. k \<notin> set LEXER_KIND_NAMES) order of
        Some k \<Rightarrow> Inl (UnknownEntry key k)
      | None \<Rightarrow> if order \<noteq> frozen then Inl (NotFrozenOrder key) else Inr ())"

definition validate_overlap_policy :: "string \<Rightarrow> string \<Rightarrow> table_error + unit" where
  "validate_overlap_policy value key = (if value \<in> set OVERLAP_POLICIES then Inr () else Inl (UnknownPolicy key value))"

definition validate_sort_key :: "string list \<Rightarrow> table_error + unit" where
  "validate_sort_key order_key = (if order_key = SORT_KEY_FROZEN then Inr () else Inl (NotFrozenOrder ''sort_key''))"

definition validate_abbrev_allowlist :: "string list \<Rightarrow> string list \<Rightarrow> string \<Rightarrow> table_error + unit" where
  "validate_abbrev_allowlist ids lexicon key =
     (if ids = [] then Inl (EmptyTable key)
      else entries_unique key (\<lambda>i. i \<in> set lexicon) (UnknownEntry key) [] ids)"

definition validate_word_allowlist :: "string list \<Rightarrow> string \<Rightarrow> table_error + unit" where
  "validate_word_allowlist words key =
     (if words = [] then Inl (EmptyTable key)
      else entries_unique key (\<lambda>w. w \<noteq> []) (\<lambda>w. EmptyEntry key) [] words)"

definition lexicon_ids :: "string \<Rightarrow> table_error + string list" where
  "lexicon_ids yaml = (case heading_entries yaml ''npa_abbrev_lexicon:'' of Inl e \<Rightarrow> Inl (LexiconError e) | Inr rows \<Rightarrow> Inr (map fst rows))"

text \<open>The question mark of Rust.\<close>

definition try_then :: "'e + 'a \<Rightarrow> ('a \<Rightarrow> 'e + 'b) \<Rightarrow> 'e + 'b" where
  "try_then r f = (case r of Inl e \<Rightarrow> Inl e | Inr x \<Rightarrow> f x)"

definition precedence_parse_yaml :: "string \<Rightarrow> table_error + lawref_precedence" where
  "precedence_parse_yaml yaml =
     try_then (heading_entries yaml ''npa_lawref_precedence:'') (\<lambda>entries.
     try_then (dispatch_keys entries) (\<lambda>(lists, scalars).
     try_then (take_row lists ''pattern_ids'') (\<lambda>(pattern_ids, lists).
     try_then (validate_pattern_ids pattern_ids) (\<lambda>_.
     try_then (take_row lists ''digit_start_order'') (\<lambda>(digit_order, lists).
     try_then (validate_frozen_order digit_order DIGIT_START_ORDER_FROZEN ''digit_start_order'') (\<lambda>_.
     try_then (take_row lists ''letter_start_order'') (\<lambda>(letter_order, lists).
     try_then (validate_frozen_order letter_order LETTER_START_ORDER_FROZEN ''letter_start_order'') (\<lambda>_.
     try_then (take_row scalars ''overlap_date_docno_inside_amendment'') (\<lambda>(date_docno, scalars).
     try_then (validate_overlap_policy date_docno ''overlap_date_docno_inside_amendment'') (\<lambda>_.
     try_then (take_row scalars ''overlap_same_pattern_containment'') (\<lambda>(same_pattern, scalars).
     try_then (validate_overlap_policy same_pattern ''overlap_same_pattern_containment'') (\<lambda>_.
     try_then (take_row lists ''sort_key'') (\<lambda>(order_key, lists).
     try_then (validate_sort_key order_key) (\<lambda>_.
     try_then (lexicon_ids yaml) (\<lambda>lexicon.
     try_then (take_row lists ''chain_abbrev_ids'') (\<lambda>(chain_ids, lists).
     try_then (validate_abbrev_allowlist chain_ids lexicon ''chain_abbrev_ids'') (\<lambda>_.
     try_then (take_row lists ''amendment_abbrev_ids'') (\<lambda>(amendment_ids, lists).
     try_then (validate_abbrev_allowlist amendment_ids lexicon ''amendment_abbrev_ids'') (\<lambda>_.
     try_then (take_row lists ''quoted_marker_abbrev_ids'') (\<lambda>(quoted_ids, lists).
     try_then (validate_abbrev_allowlist quoted_ids lexicon ''quoted_marker_abbrev_ids'') (\<lambda>_.
     try_then (take_row lists ''fullword_tails'') (\<lambda>(tails, lists).
     try_then (validate_word_allowlist tails ''fullword_tails'') (\<lambda>_.
     try_then (take_row lists ''anaphora_heads'') (\<lambda>(heads, lists).
     try_then (validate_word_allowlist heads ''anaphora_heads'') (\<lambda>_.
     if lists \<noteq> [] \<or> scalars \<noteq> [] then Inl UnhandledKeys
     else Inr \<lparr>lp_pattern_ids = pattern_ids, lp_digit_start_order = digit_order, lp_letter_start_order = letter_order,
       lp_overlap_date_docno_inside_amendment = date_docno, lp_overlap_same_pattern_containment = same_pattern,
       lp_sort_key = order_key, lp_chain_abbrev_ids = chain_ids, lp_amendment_abbrev_ids = amendment_ids,
       lp_quoted_marker_abbrev_ids = quoted_ids, lp_fullword_tails = tails, lp_anaphora_heads = heads\<rparr>)))))))))))))))))))))))))"

section \<open>Matchers\<close>

record lawref_slots =
  ls_marker_chain :: "string list"
  ls_hier_nums :: "string list"
  ls_date :: "string option"
  ls_doc_no :: "string option"
  ls_law_code :: "string option"
  ls_anaphora :: "string option"
  ls_range :: "(string \<times> string) option"
  ls_quoted_enum :: "string option"

definition slots_default :: lawref_slots where
  "slots_default = \<lparr>ls_marker_chain = [], ls_hier_nums = [], ls_date = None, ls_doc_no = None, ls_law_code = None,
     ls_anaphora = None, ls_range = None, ls_quoted_enum = None\<rparr>"

record raw_capture =
  rw_start :: nat
  rw_end :: nat
  rw_pattern_id :: string
  rw_token_kind_seq :: string
  rw_slots :: lawref_slots

definition token_at :: "npa_token list \<Rightarrow> nat \<Rightarrow> npa_token option" where
  "token_at tokens i = (if i < length tokens then Some (tokens ! i) else None)"

definition kind_at :: "npa_token list \<Rightarrow> nat \<Rightarrow> token_kind \<Rightarrow> bool" where
  "kind_at tokens i k = is_some_and (\<lambda>t. nt_kind t = k) (token_at tokens i)"

definition is_space :: "npa_token list \<Rightarrow> nat \<Rightarrow> bool" where
  "is_space tokens i = kind_at tokens i TSpace"

text \<open>\<open>RawCapture::new\<close>, with the panics of its indexing.\<close>

definition raw_new :: "npa_token list \<Rightarrow> nat \<Rightarrow> nat \<Rightarrow> string \<Rightarrow> lawref_slots \<Rightarrow> raw_capture option" where
  "raw_new tokens i j pattern slots =
     (if i < length tokens \<and> j < length tokens \<and> i \<le> j + 1
      then Some \<lparr>rw_start = nt_start (tokens ! i), rw_end = nt_end (tokens ! j), rw_pattern_id = pattern,
        rw_token_kind_seq = str_join '','' (map (\<lambda>t. token_kind_as_str (nt_kind t)) (take (Suc j - i) (drop i tokens))),
        rw_slots = slots\<rparr>
      else None)"

definition is_number_token :: "string \<Rightarrow> npa_token \<Rightarrow> bool option" where
  "is_number_token src t =
     (case nt_kind t of
        THierNum \<Rightarrow> Some True
      | TWord \<Rightarrow> map_option (\<lambda>x. x \<noteq> [] \<and> list_all is_digit_byte x) (lexeme src t)
      | _ \<Rightarrow> Some False)"

definition number_at :: "string \<Rightarrow> npa_token list \<Rightarrow> nat \<Rightarrow> bool option" where
  "number_at src tokens i = (case token_at tokens i of None \<Rightarrow> Some False | Some t \<Rightarrow> is_number_token src t)"

text \<open>The text under a token that is there.\<close>

definition text_at :: "string \<Rightarrow> npa_token list \<Rightarrow> nat \<Rightarrow> string option" where
  "text_at src tokens i = Option.bind (token_at tokens i) (lexeme src)"

definition allowlisted_abbrev :: "npa_token list \<Rightarrow> nat \<Rightarrow> string list \<Rightarrow> string option" where
  "allowlisted_abbrev tokens i ids =
     (case token_at tokens i of
        None \<Rightarrow> None
      | Some t \<Rightarrow> if nt_kind t \<noteq> TAbbrev then None
          else (case nt_abbrev_id t of None \<Rightarrow> None | Some a \<Rightarrow> find (\<lambda>e. e = a) ids))"

function filler_scan :: "npa_token list \<Rightarrow> nat \<Rightarrow> nat \<Rightarrow> (npa_token \<Rightarrow> bool) \<Rightarrow> nat \<Rightarrow> nat option" where
  "filler_scan tokens anchor max_distance pred i =
     (if \<not> (i < length tokens \<and> i - anchor \<le> max_distance) then None
      else if pred (tokens ! i) then Some i
      else if nt_kind (tokens ! i) \<notin> {TSpace, TWord, TPunct} then None
      else filler_scan tokens anchor max_distance pred (i + 1))"
  by pat_completeness auto
termination
  by (relation "measure (\<lambda>(tokens, _, _, _, i). length tokens - i)") auto

declare filler_scan.simps [simp del]

definition scan_filler_forward :: "npa_token list \<Rightarrow> nat \<Rightarrow> nat \<Rightarrow> (npa_token \<Rightarrow> bool) \<Rightarrow> nat option" where
  "scan_filler_forward tokens anchor max_distance pred = filler_scan tokens anchor max_distance pred (anchor + 1)"

text \<open>\<open>abbrev-hier-chain\<close>: the links behind the first number.\<close>

function chain_links :: "string \<Rightarrow> npa_token list \<Rightarrow> string list \<Rightarrow> nat \<Rightarrow> string list \<Rightarrow> string list \<Rightarrow>
    (nat \<times> string list \<times> string list) option" where
  "chain_links src tokens ids tail_at markers nums =
     (if \<not> is_space tokens (tail_at + 1) then Some (tail_at, markers, nums)
      else case allowlisted_abbrev tokens (tail_at + 2) ids of
        None \<Rightarrow> Some (tail_at, markers, nums)
      | Some link_marker \<Rightarrow>
          if \<not> is_space tokens (tail_at + 3) then Some (tail_at, markers, nums)
          else (case number_at src tokens (tail_at + 4) of
              None \<Rightarrow> None
            | Some number \<Rightarrow>
                if \<not> number then Some (tail_at, markers, nums)
                else (case text_at src tokens (tail_at + 4) of
                    None \<Rightarrow> None
                  | Some num \<Rightarrow> chain_links src tokens ids (tail_at + 4) (markers @ [link_marker]) (nums @ [num]))))"
  by pat_completeness auto
termination
proof (relation "measure (\<lambda>(_, tokens, _, tail_at, _, _). length tokens - tail_at)")
  fix src :: string and tokens ids and tail_at :: nat and markers nums :: "string list" and x2 x2a x2b
  assume "\<not> \<not> is_space tokens (tail_at + 1)"
  then have "tail_at + 1 < length tokens" by (auto simp: is_space_def kind_at_def token_at_def is_some_and_def split: if_splits)
  then show "((src, tokens, ids, tail_at + 4, markers @ [x2], nums @ [x2b]), src, tokens, ids, tail_at, markers, nums) \<in>
      measure (\<lambda>(_, tokens, _, tail_at, _, _). length tokens - tail_at)" by simp
qed simp

declare chain_links.simps [simp del]

definition match_abbrev_hier_chain :: "lawref_precedence \<Rightarrow> string \<Rightarrow> npa_token list \<Rightarrow> nat \<Rightarrow> raw_capture option option" where
  "match_abbrev_hier_chain p src tokens i =
     (case allowlisted_abbrev tokens i (lp_chain_abbrev_ids p) of
        None \<Rightarrow> Some None
      | Some first_marker \<Rightarrow>
          if \<not> is_space tokens (i + 1) then Some None
          else do {
            number \<leftarrow> number_at src tokens (i + 2);
            if \<not> number then Some None
            else do {
              num \<leftarrow> text_at src tokens (i + 2);
              (tail_at, markers, nums) \<leftarrow> chain_links src tokens (lp_chain_abbrev_ids p) (i + 2) [first_marker] [num];
              map_option Some (raw_new tokens i tail_at PATTERN_CHAIN
                (slots_default\<lparr>ls_marker_chain := markers, ls_hier_nums := nums\<rparr>))
            }
          })"

definition match_abbrev_amendment_window :: "lawref_precedence \<Rightarrow> string \<Rightarrow> npa_token list \<Rightarrow> nat \<Rightarrow> raw_capture option option" where
  "match_abbrev_amendment_window p src tokens i =
     (if allowlisted_abbrev tokens i (lp_amendment_abbrev_ids p) = None then Some None
      else case scan_filler_forward tokens i 16 (\<lambda>t. nt_kind t = TDate) of
        None \<Rightarrow> Some None
      | Some date_index \<Rightarrow>
          (case scan_filler_forward tokens date_index 4 (\<lambda>t. nt_kind t = TDocNo) of
             None \<Rightarrow> Some None
           | Some doc_no_index \<Rightarrow> do {
               date \<leftarrow> text_at src tokens date_index;
               doc_no \<leftarrow> text_at src tokens doc_no_index;
               map_option Some (raw_new tokens i doc_no_index PATTERN_AMENDMENT
                 (slots_default\<lparr>ls_date := Some date, ls_doc_no := Some doc_no\<rparr>))
             }))"

definition match_date_docno_window :: "string \<Rightarrow> npa_token list \<Rightarrow> nat \<Rightarrow> raw_capture option option" where
  "match_date_docno_window src tokens i =
     (if \<not> kind_at tokens i TDate then Some None
      else case scan_filler_forward tokens i 4 (\<lambda>t. nt_kind t = TDocNo \<or> nt_kind t = TLawCode) of
        None \<Rightarrow> Some None
      | Some hit \<Rightarrow> do {
          found \<leftarrow> text_at src tokens hit;
          date \<leftarrow> text_at src tokens i;
          let doc = kind_at tokens hit TDocNo in
          map_option Some (raw_new tokens i hit PATTERN_DATE_DOCNO
            (slots_default\<lparr>ls_date := Some date, ls_doc_no := (if doc then Some found else None),
               ls_law_code := (if doc then None else Some found)\<rparr>))
        })"

definition match_fullword_ref :: "lawref_precedence \<Rightarrow> string \<Rightarrow> npa_token list \<Rightarrow> nat \<Rightarrow> raw_capture option option" where
  "match_fullword_ref p src tokens i =
     (if \<not> kind_at tokens i TWord then Some None
      else do {
        word \<leftarrow> text_at src tokens i;
        if word \<notin> set (lp_fullword_tails p) then Some None
        else if \<not> is_space tokens (i + 1) then Some None
        else do {
          number \<leftarrow> (if kind_at tokens (i + 2) TDocNo then Some True else number_at src tokens (i + 2));
          if \<not> number then Some None
          else do {
            num \<leftarrow> text_at src tokens (i + 2);
            map_option Some (raw_new tokens i (i + 2) PATTERN_FULLWORD
              (if kind_at tokens (i + 2) TDocNo then slots_default\<lparr>ls_doc_no := Some num\<rparr>
               else slots_default\<lparr>ls_hier_nums := [num]\<rparr>))
          }
        }
      })"

definition quoted_head :: "lawref_precedence \<Rightarrow> string \<Rightarrow> npa_token \<Rightarrow> bool option" where
  "quoted_head p src t =
     (case nt_kind t of
        TAbbrev \<Rightarrow> Some (is_some_and (\<lambda>a. a \<in> set (lp_quoted_marker_abbrev_ids p)) (nt_abbrev_id t))
      | TWord \<Rightarrow> map_option (starts_with (ru ''podpunkt'')) (lexeme src t)
      | _ \<Rightarrow> Some False)"

definition punct_with :: "string \<Rightarrow> npa_token list \<Rightarrow> nat \<Rightarrow> (string \<Rightarrow> bool) \<Rightarrow> bool option" where
  "punct_with src tokens i ok = (if kind_at tokens i TPunct then map_option ok (text_at src tokens i) else Some False)"

definition match_quoted_enum :: "lawref_precedence \<Rightarrow> string \<Rightarrow> npa_token list \<Rightarrow> nat \<Rightarrow> raw_capture option option" where
  "match_quoted_enum p src tokens i =
     (if i < 3 then Some None
      else if \<not> kind_at tokens i TEnumMarker then Some None
      else do {
        opening \<leftarrow> punct_with src tokens (i - 1) (\<lambda>x. x = [CHR 0x22]);
        if \<not> opening then Some None
        else do {
          closing \<leftarrow> punct_with src tokens (i + 1) (starts_with [CHR 0x22]);
          if \<not> closing then Some None
          else do {
            head \<leftarrow> token_at tokens (i - 3);
            marker \<leftarrow> quoted_head p src head;
            if \<not> marker then Some None
            else do {
              letter \<leftarrow> text_at src tokens i;
              map_option Some (raw_new tokens (i - 3) (i + 1) PATTERN_QUOTED_ENUM (slots_default\<lparr>ls_quoted_enum := Some letter\<rparr>))
            }
          }
        }
      })"

text \<open>\<open>local_grammar.rs\<close>: a hyphen, an en dash or an em dash.\<close>

definition is_dash :: "string \<Rightarrow> bool" where
  "is_dash x = (x \<in> {''-'', utf8 [0x2013], utf8 [0x2014]})"

text \<open>The token in front of \<open>i\<close>, over spaces.\<close>

definition range_start :: "npa_token list \<Rightarrow> nat \<Rightarrow> nat" where
  "range_start tokens i =
     (case find (\<lambda>c. nt_kind (tokens ! c) \<noteq> TSpace) (rev [0..<i]) of
        None \<Rightarrow> i
      | Some c \<Rightarrow> if nt_kind (tokens ! c) \<in> {TWord, TAbbrev} then c else i)"

definition match_range_candidate :: "string \<Rightarrow> npa_token list \<Rightarrow> nat \<Rightarrow> raw_capture option option" where
  "match_range_candidate src tokens i =
     (if \<not> kind_at tokens i THierNum \<or> \<not> is_space tokens (i + 1) then Some None
      else do {
        dash \<leftarrow> punct_with src tokens (i + 2) is_dash;
        if \<not> dash \<or> \<not> is_space tokens (i + 3) \<or> \<not> kind_at tokens (i + 4) THierNum then Some None
        else do {
          from_num \<leftarrow> text_at src tokens i;
          to_num \<leftarrow> text_at src tokens (i + 4);
          mark \<leftarrow> text_at src tokens (i + 2);
          map_option Some (raw_new tokens (if mark \<in> {utf8 [0x2013], utf8 [0x2014]} then range_start tokens i else i) (i + 4)
            PATTERN_RANGE (slots_default\<lparr>ls_range := Some (from_num, to_num)\<rparr>))
        }
      })"

definition match_anaphora_candidate :: "lawref_precedence \<Rightarrow> string \<Rightarrow> npa_token list \<Rightarrow> nat \<Rightarrow> raw_capture option option" where
  "match_anaphora_candidate p src tokens i =
     (if \<not> kind_at tokens i TWord then Some None
      else do {
        head \<leftarrow> text_at src tokens i;
        if head \<notin> set (lp_anaphora_heads p) then Some None
        else do {
          particle \<leftarrow> (if is_space tokens (i + 1) \<and> kind_at tokens (i + 2) TWord
            then map_option (\<lambda>x. x = ru ''Ze'') (text_at src tokens (i + 2)) else Some False);
          let heads_end = (if particle then i + 2 else i) in
          if \<not> is_space tokens (heads_end + 1) \<or> \<not> kind_at tokens (heads_end + 2) TWord then Some None
          else map_option Some (raw_new tokens i (heads_end + 2) PATTERN_ANAPHORA
            (slots_default\<lparr>ls_anaphora := Some (if particle then head @ '' '' @ ru ''Ze'' else head)\<rparr>))
        }
      })"

text \<open>The seven matchers at one token, in the order of the code, and at all tokens.\<close>

definition matchers_at :: "lawref_precedence \<Rightarrow> string \<Rightarrow> npa_token list \<Rightarrow> nat \<Rightarrow> raw_capture option option list" where
  "matchers_at p src tokens i =
     [match_abbrev_hier_chain p src tokens i, match_abbrev_amendment_window p src tokens i, match_date_docno_window src tokens i,
      match_fullword_ref p src tokens i, match_quoted_enum p src tokens i, match_range_candidate src tokens i,
      match_anaphora_candidate p src tokens i]"

fun collect_hits :: "'a option option list \<Rightarrow> 'a list option" where
  "collect_hits [] = Some []"
| "collect_hits (None # xs) = None"
| "collect_hits (Some None # xs) = collect_hits xs"
| "collect_hits (Some (Some x) # xs) = map_option (Cons x) (collect_hits xs)"

definition fire_all :: "lawref_precedence \<Rightarrow> string \<Rightarrow> npa_token list \<Rightarrow> raw_capture list option" where
  "fire_all p src tokens = collect_hits (concat (map (matchers_at p src tokens) [0..<length tokens]))"

section \<open>Overlap, arbitration and the ceiling\<close>

definition strictly_contained :: "raw_capture \<Rightarrow> raw_capture \<Rightarrow> bool" where
  "strictly_contained c other =
     (rw_start other < rw_start c \<and> rw_end c \<le> rw_end other \<or> rw_start other \<le> rw_start c \<and> rw_end c < rw_end other)"

definition apply_overlap_precedence :: "lawref_precedence \<Rightarrow> raw_capture list \<Rightarrow> raw_capture list" where
  "apply_overlap_precedence p raw =
     (let raw = (if lp_overlap_date_docno_inside_amendment p = ''drop''
            then filter (\<lambda>c. rw_pattern_id c \<noteq> PATTERN_DATE_DOCNO \<or>
              \<not> list_ex (\<lambda>other. rw_pattern_id other = PATTERN_AMENDMENT \<and> strictly_contained c other) raw) raw
            else raw)
      in if lp_overlap_same_pattern_containment p = ''drop''
         then filter (\<lambda>c. \<not> list_ex (\<lambda>other. rw_pattern_id other = rw_pattern_id c \<and> strictly_contained c other) raw) raw
         else raw)"

record law_ref =
  lr_span :: decoded_span
  lr_pattern_id :: string
  lr_token_kind_seq :: string
  lr_slots :: lawref_slots

definition law_ref_try_new :: "nat \<Rightarrow> nat \<Rightarrow> string \<Rightarrow> string \<Rightarrow> lawref_slots \<Rightarrow> parser_domain_error + law_ref" where
  "law_ref_try_new a b pattern seq slots =
     (case decoded_span_try_new a b of
        Inl e \<Rightarrow> Inl e
      | Inr span \<Rightarrow> Inr \<lparr>lr_span = span, lr_pattern_id = pattern, lr_token_kind_seq = seq, lr_slots = slots\<rparr>)"

definition user_text :: "string \<Rightarrow> law_ref \<Rightarrow> string option" where
  "user_text src r = str_get src (ds_start (lr_span r)) (ds_end (lr_span r))"

definition mint :: "raw_capture \<Rightarrow> law_ref option" where
  "mint c = (case law_ref_try_new (rw_start c) (rw_end c) (rw_pattern_id c) (rw_token_kind_seq c) (rw_slots c) of
     Inl _ \<Rightarrow> None | Inr r \<Rightarrow> Some r)"

record capture_batch =
  cb_admitted :: "law_ref list"
  cb_pair_diagnostics :: "pair_diagnostic list"
  cb_limit :: candidate_limit_outcome
  cb_refused_after_limit :: nat

definition batch_empty :: capture_batch where
  "batch_empty = \<lparr>cb_admitted = [], cb_pair_diagnostics = [], cb_limit = LimitAccepted, cb_refused_after_limit = 0\<rparr>"

text \<open>The walk over the captures admitted so far: the diagnostics, and whether the candidate was merged.\<close>

fun arbitrate_prior :: "law_ref list \<Rightarrow> raw_capture \<Rightarrow> pair_diagnostic list \<times> bool" where
  "arbitrate_prior [] c = ([], False)"
| "arbitrate_prior (prior # rest) c =
     (case arbitrate_pair (ds_start (lr_span prior), ds_end (lr_span prior)) (rw_start c, rw_end c) (lr_slots prior = rw_slots c) of
        MergeEvidence d \<Rightarrow> ([d], True)
      | ConflictSet d \<Rightarrow> (let (ds, merged) = arbitrate_prior rest c in (d # ds, merged))
      | RetainBoth (Some d) \<Rightarrow> (let (ds, merged) = arbitrate_prior rest c in (d # ds, merged))
      | RetainBoth None \<Rightarrow> arbitrate_prior rest c)"

definition batch_step :: "capture_batch \<Rightarrow> raw_capture \<Rightarrow> capture_batch" where
  "batch_step batch c =
     (let (ds, merged) = arbitrate_prior (cb_admitted batch) c;
          batch = batch\<lparr>cb_pair_diagnostics := cb_pair_diagnostics batch @ ds\<rparr>
      in if merged then batch
         else (case on_candidate_limit (length (cb_admitted batch)) of
             LimitAccepted \<Rightarrow> (case mint c of None \<Rightarrow> batch | Some r \<Rightarrow> batch\<lparr>cb_admitted := cb_admitted batch @ [r]\<rparr>)
           | LimitReached \<Rightarrow> batch\<lparr>cb_limit := LimitReached, cb_refused_after_limit := cb_refused_after_limit batch + 1\<rparr>))"

definition sort_captures :: "raw_capture list \<Rightarrow> raw_capture list" where
  "sort_captures raw = sort_key (\<lambda>c. (rw_start c, rw_end c, rw_pattern_id c)) raw"

definition capture_lawrefs :: "lex_unicode \<Rightarrow> string \<Rightarrow> string \<Rightarrow> capture_batch option" where
  "capture_lawrefs u yaml src = do {
     tokens \<leftarrow> lex u yaml src;
     if tokens = [] then Some batch_empty
     else (case precedence_parse_yaml yaml of
         Inl _ \<Rightarrow> Some batch_empty
       | Inr p \<Rightarrow>
           map_option (\<lambda>raw. foldl batch_step batch_empty (sort_captures (apply_overlap_precedence p raw))) (fire_all p src tokens))
   }"

section \<open>The relation of two spans\<close>

text \<open>C39. 
  On non-empty spans the relation is that of the sets of bytes: exact when they are equal, containment when one is a proper
  part of the other, partial overlap when they meet and neither is a part of the other, disjoint otherwise; so it does not
  depend on the order of the two.
\<close>

theorem span_relation_is_set_relation:
  assumes "a < b" "c < d"
  shows "span_relation (a, b) (c, d) =
      (if {a..<b} = {c..<d} then RelExact
       else if {a..<b} \<subseteq> {c..<d} \<or> {c..<d} \<subseteq> {a..<b} then RelContainment
       else if {a..<b} \<inter> {c..<d} \<noteq> {} then RelPartialOverlap else RelDisjoint) \<and>
    span_relation (c, d) (a, b) = span_relation (a, b) (c, d)"
proof -
  have eq: "{a..<b} = {c..<d} \<longleftrightarrow> a = c \<and> b = d" using assms by (simp add: atLeastLessThan_eq_iff)
  have sub: "{a..<b} \<subseteq> {c..<d} \<longleftrightarrow> c \<le> a \<and> b \<le> d" "{c..<d} \<subseteq> {a..<b} \<longleftrightarrow> a \<le> c \<and> d \<le> b"
    using assms by (auto simp: atLeastLessThan_subset_iff)
  have meet: "{a..<b} \<inter> {c..<d} \<noteq> {} \<longleftrightarrow> a < d \<and> c < b"
    using assms by (simp add: Int_atLeastLessThan) linarith?
  show ?thesis unfolding eq sub meet by auto
qed

lemma span_relation_is_set_relation_witness:
  "span_relation (1, 5) (3, 7) = RelPartialOverlap \<and> span_relation (3, 7) (1, 5) = span_relation (1, 5) (3, 7)"
  using span_relation_is_set_relation [of 1 5 3 7] by simp

section \<open>Overlap\<close>

lemma strictly_contained_trans: "strictly_contained a b \<Longrightarrow> strictly_contained b c \<Longrightarrow> strictly_contained a c"
  by (auto simp: strictly_contained_def)

text \<open>
  Under a containment that widens the span, everything that is removed has a maximal one above it, which is kept.
\<close>

lemma maximal_above:
  fixes R :: "'a \<Rightarrow> 'a \<Rightarrow> bool" and f :: "'a \<Rightarrow> nat"
  assumes "\<And>x y z. R x y \<Longrightarrow> R y z \<Longrightarrow> R x z" "\<And>x y. y \<in> set xs \<Longrightarrow> R x y \<Longrightarrow> f x < f y" "R x y" "y \<in> set xs"
  shows "\<exists>z\<in>set xs. R x z \<and> \<not> (\<exists>w\<in>set xs. R z w)"
  using assms(3,4)
proof (induction "Max (f ` set xs) - f y" arbitrary: y rule: less_induct)
  case less
  show ?case
  proof (cases "\<exists>w\<in>set xs. R y w")
    case False
    with less.prems show ?thesis by blast
  next
    case True
    then obtain w where w: "w \<in> set xs" "R y w" by blast
    have "f y < f w" using assms(2) w by blast
    moreover have "f w \<le> Max (f ` set xs)" using w(1) by simp
    ultimately have "Max (f ` set xs) - f w < Max (f ` set xs) - f y" by linarith
    from less.hyps [OF this] assms(1) less.prems(1) w show ?thesis by blast
  qed
qed

definition drops_on :: "lawref_precedence \<Rightarrow> bool" where
  "drops_on p = (lp_overlap_date_docno_inside_amendment p = ''drop'' \<and> lp_overlap_same_pattern_containment p = ''drop'')"

definition covered_by :: "raw_capture \<Rightarrow> raw_capture \<Rightarrow> bool" where
  "covered_by c other = (strictly_contained c other \<and>
     (rw_pattern_id other = rw_pattern_id c \<or> rw_pattern_id c = PATTERN_DATE_DOCNO \<and> rw_pattern_id other = PATTERN_AMENDMENT))"

lemma patterns_differ: "PATTERN_DATE_DOCNO \<noteq> PATTERN_AMENDMENT"
  by (simp add: PATTERN_DATE_DOCNO_def PATTERN_AMENDMENT_def)

lemma covered_by_trans: "covered_by a b \<Longrightarrow> covered_by b c \<Longrightarrow> covered_by a c"
  using strictly_contained_trans [of a b c] patterns_differ unfolding covered_by_def by metis

lemma covered_by_wider: "rw_start y < rw_end y \<Longrightarrow> covered_by x y \<Longrightarrow> rw_end x - rw_start x < rw_end y - rw_start y"
  by (auto simp: covered_by_def strictly_contained_def)

lemma overlap_filter:
  assumes "drops_on p"
  shows "apply_overlap_precedence p raw = filter (\<lambda>c. \<not> list_ex (covered_by c) raw) raw"
proof -
  let ?amended = "\<lambda>c. list_ex (\<lambda>k. rw_pattern_id k = PATTERN_AMENDMENT \<and> strictly_contained c k) raw"
  let ?kept = "filter (\<lambda>c. rw_pattern_id c \<noteq> PATTERN_DATE_DOCNO \<or> \<not> ?amended c) raw"
  have step: "(\<not> list_ex (\<lambda>k. rw_pattern_id k = rw_pattern_id c \<and> strictly_contained c k) ?kept) =
      (\<not> list_ex (\<lambda>k. rw_pattern_id k = rw_pattern_id c \<and> strictly_contained c k) raw)"
    if c: "rw_pattern_id c \<noteq> PATTERN_DATE_DOCNO \<or> \<not> ?amended c" for c
  proof -
    have "k' \<in> set ?kept" if "k' \<in> set raw" "rw_pattern_id k' = rw_pattern_id c" "strictly_contained c k'" for k'
      using that c strictly_contained_trans [OF that(3)] by (auto simp: list_ex_iff)
    then show ?thesis by (auto simp: list_ex_iff)
  qed
  have "apply_overlap_precedence p raw =
      filter (\<lambda>c. \<not> list_ex (\<lambda>k. rw_pattern_id k = rw_pattern_id c \<and> strictly_contained c k) ?kept) ?kept"
    using assms by (simp add: apply_overlap_precedence_def drops_on_def Let_def)
  also have "\<dots> = filter (\<lambda>c. (rw_pattern_id c \<noteq> PATTERN_DATE_DOCNO \<or> \<not> ?amended c) \<and>
      \<not> list_ex (\<lambda>k. rw_pattern_id k = rw_pattern_id c \<and> strictly_contained c k) ?kept) raw"
    by (simp add: conj_commute)
  also have "\<dots> = filter (\<lambda>c. \<not> list_ex (covered_by c) raw) raw"
  proof (rule filter_cong [OF refl])
    fix c assume "c \<in> set raw"
    have "list_ex (covered_by c) raw \<longleftrightarrow> list_ex (\<lambda>k. rw_pattern_id k = rw_pattern_id c \<and> strictly_contained c k) raw \<or>
        rw_pattern_id c = PATTERN_DATE_DOCNO \<and> ?amended c"
      by (auto simp: list_ex_iff covered_by_def)
    then show "((rw_pattern_id c \<noteq> PATTERN_DATE_DOCNO \<or> \<not> ?amended c) \<and>
        \<not> list_ex (\<lambda>k. rw_pattern_id k = rw_pattern_id c \<and> strictly_contained c k) ?kept) =
      (\<not> list_ex (covered_by c) raw)"
      using step [of c] by blast
  qed
  finally show ?thesis .
qed

text \<open>C28. 
  With both overlap policies on, as the table demands, a candidate is dropped exactly when another one covers it (a wider one
  of its pattern, or an amendment around a date with a number); the drops of the two policies do not depend on their order;
  and each dropped candidate is covered by one that is kept, so that no piece of the text loses its capture.
\<close>

theorem overlap_drops_only_covered:
  assumes "drops_on p" "list_all (\<lambda>c. rw_start c < rw_end c) raw"
  shows "apply_overlap_precedence p raw = filter (\<lambda>c. \<not> list_ex (covered_by c) raw) raw \<and>
    list_all (\<lambda>c. c \<in> set (apply_overlap_precedence p raw) \<or> list_ex (covered_by c) (apply_overlap_precedence p raw)) raw"
proof -
  have "c \<in> set (apply_overlap_precedence p raw) \<or> (\<exists>z\<in>set (apply_overlap_precedence p raw). covered_by c z)"
    if c: "c \<in> set raw" for c
  proof (cases "\<exists>y\<in>set raw. covered_by c y")
    case True
    then obtain y where y: "y \<in> set raw" "covered_by c y" by blast
    have "\<exists>z\<in>set raw. covered_by c z \<and> \<not> (\<exists>w\<in>set raw. covered_by z w)"
    proof (rule maximal_above [of covered_by raw "\<lambda>x. rw_end x - rw_start x", OF covered_by_trans _ y(2,1)])
      fix x z assume "z \<in> set raw" "covered_by x z"
      with assms(2) show "rw_end x - rw_start x < rw_end z - rw_start z" by (auto simp: list_all_iff intro: covered_by_wider)
    qed
    then show ?thesis unfolding overlap_filter [OF assms(1)] by (auto simp: list_ex_iff)
  next
    case False
    with c show ?thesis unfolding overlap_filter [OF assms(1)] by (auto simp: list_ex_iff)
  qed
  with overlap_filter [OF assms(1)] show ?thesis by (simp add: list_all_iff list_ex_iff)
qed

section \<open>The arbitration accounts for every candidate\<close>

definition as_raw :: "law_ref \<Rightarrow> raw_capture" where
  "as_raw r = \<lparr>rw_start = ds_start (lr_span r), rw_end = ds_end (lr_span r), rw_pattern_id = lr_pattern_id r,
     rw_token_kind_seq = lr_token_kind_seq r, rw_slots = lr_slots r\<rparr>"

definition same_evidence :: "law_ref \<Rightarrow> raw_capture \<Rightarrow> bool" where
  "same_evidence r c = (ds_start (lr_span r) = rw_start c \<and> ds_end (lr_span r) = rw_end c \<and> lr_slots r = rw_slots c)"

lemma mint_total: "rw_start c < rw_end c \<Longrightarrow> \<exists>r. mint c = Some r \<and> as_raw r = c"
  by (simp add: mint_def law_ref_try_new_def decoded_span_try_new_def as_raw_def)

lemma arbitrate_prior_result:
  "snd (arbitrate_prior ps c) = list_ex (\<lambda>p. same_evidence p c) ps \<and>
   count_list (fst (arbitrate_prior ps c)) DuplicateMatcherEvidenceMerged = (if snd (arbitrate_prior ps c) then 1 else 0)"
proof (induction ps)
  case (Cons p ps)
  have same: "same_evidence p c \<longleftrightarrow> span_relation (ds_start (lr_span p), ds_end (lr_span p)) (rw_start c, rw_end c) = RelExact \<and>
      lr_slots p = rw_slots c"
    by (auto simp: same_evidence_def)
  show ?case
  proof (cases "span_relation (ds_start (lr_span p), ds_end (lr_span p)) (rw_start c, rw_end c)")
    case RelExact
    with same Cons show ?thesis
      by (cases "lr_slots p = rw_slots c") (simp_all add: arbitrate_pair_def case_prod_beta Let_def del: span_relation.simps)
  qed (use same Cons in \<open>simp_all add: arbitrate_pair_def case_prod_beta Let_def del: span_relation.simps\<close>)
qed simp

definition accounted :: "raw_capture list \<Rightarrow> capture_batch \<Rightarrow> bool" where
  "accounted raw batch =
     (length raw = length (cb_admitted batch) + count_list (cb_pair_diagnostics batch) DuplicateMatcherEvidenceMerged +
        cb_refused_after_limit batch \<and>
      subseq (map as_raw (cb_admitted batch)) raw \<and>
      length (cb_admitted batch) \<le> PROPOSED_CANDIDATE_CEILING \<and>
      (cb_limit batch = LimitReached \<longleftrightarrow> 0 < cb_refused_after_limit batch) \<and>
      (0 < cb_refused_after_limit batch \<longrightarrow> length (cb_admitted batch) = PROPOSED_CANDIDATE_CEILING) \<and>
      distinct (map (\<lambda>r. (lr_span r, lr_slots r)) (cb_admitted batch)) \<and>
      (cb_refused_after_limit batch = 0 \<longrightarrow> list_all (\<lambda>c. list_ex (\<lambda>r. same_evidence r c) (cb_admitted batch)) raw))"

lemma subseq_snoc: "subseq xs ys \<Longrightarrow> subseq xs (ys @ [c]) \<and> subseq (xs @ [c]) (ys @ [c])"
  using list_emb_append_mono [of "(=)" xs ys "[]" "[c]"] list_emb_append_mono [of "(=)" xs ys "[c]" "[c]"] by simp

lemma batch_step_accounted:
  assumes "accounted raw batch" "rw_start c < rw_end c"
  shows "accounted (raw @ [c]) (batch_step batch c)"
proof -
  obtain ds merged where arb: "arbitrate_prior (cb_admitted batch) c = (ds, merged)" by (meson surj_pair)
  with arbitrate_prior_result [of "cb_admitted batch" c] have
    m: "merged = list_ex (\<lambda>p. same_evidence p c) (cb_admitted batch)"
    "count_list ds DuplicateMatcherEvidenceMerged = (if merged then 1 else 0)" by simp_all
  have sub: "subseq (map as_raw (cb_admitted batch)) (raw @ [c])" using assms(1) subseq_snoc by (auto simp: accounted_def)
  show ?thesis
  proof (cases merged)
    case True
    with assms(1) m arb sub show ?thesis by (simp add: accounted_def batch_step_def)
  next
    case new: False
    show ?thesis
    proof (cases "length (cb_admitted batch) < PROPOSED_CANDIDATE_CEILING")
      case True
      obtain r where r: "mint c = Some r" "as_raw r = c" using mint_total [OF assms(2)] by blast
      have "subseq (map as_raw (cb_admitted batch @ [r])) (raw @ [c])"
        using assms(1) subseq_snoc r(2) by (auto simp: accounted_def)
      moreover have "same_evidence r c" using r(2) by (auto simp: same_evidence_def as_raw_def)
      moreover have "(lr_span r, lr_slots r) \<notin> set (map (\<lambda>r. (lr_span r, lr_slots r)) (cb_admitted batch))"
      proof
        assume "(lr_span r, lr_slots r) \<in> set (map (\<lambda>r. (lr_span r, lr_slots r)) (cb_admitted batch))"
        then obtain p where "p \<in> set (cb_admitted batch)" "lr_span p = lr_span r" "lr_slots p = lr_slots r" by auto
        then have "list_ex (\<lambda>p. same_evidence p c) (cb_admitted batch)"
          using \<open>same_evidence r c\<close> unfolding list_ex_iff by (intro bexI [of _ p]) (simp_all add: same_evidence_def)
        with m new show False by simp
      qed
      moreover have "cb_refused_after_limit batch = 0" using assms(1) True by (auto simp: accounted_def)
      ultimately show ?thesis using assms(1) m arb new True r(1)
        by (simp add: accounted_def batch_step_def on_candidate_limit_def) (auto simp: list_all_iff list_ex_iff)
    next
      case False
      with assms(1) m arb new sub show ?thesis
        by (simp add: accounted_def batch_step_def on_candidate_limit_def)
    qed
  qed
qed

lemma batch_accounted:
  "list_all (\<lambda>c. rw_start c < rw_end c) raw \<Longrightarrow> accounted raw (foldl batch_step batch_empty raw)"
proof (induction raw rule: rev_induct)
  case Nil
  then show ?case by (simp add: accounted_def batch_empty_def)
next
  case (snoc c raw)
  then show ?case using batch_step_accounted [of raw] by simp
qed

section \<open>A capture is bounded by tokens\<close>

definition raw_bounded :: "npa_token list \<Rightarrow> raw_capture \<Rightarrow> bool" where
  "raw_bounded tokens c = (\<exists>i j. i \<le> j \<and> j < length tokens \<and> rw_start c = nt_start (tokens ! i) \<and> rw_end c = nt_end (tokens ! j) \<and>
     rw_token_kind_seq c = str_join '','' (map (\<lambda>t. token_kind_as_str (nt_kind t)) (take (Suc j - i) (drop i tokens))))"

definition hit_ok :: "npa_token list \<Rightarrow> raw_capture option option \<Rightarrow> bool" where
  "hit_ok tokens r = (case r of None \<Rightarrow> False | Some None \<Rightarrow> True | Some (Some c) \<Rightarrow> raw_bounded tokens c)"

lemma hit_ok_simps [simp]: "hit_ok tokens (Some None)" "hit_ok tokens (Some (Some c)) = raw_bounded tokens c"
  by (simp_all add: hit_ok_def)

lemma raw_new_ok: "i \<le> j \<Longrightarrow> j < length tokens \<Longrightarrow> hit_ok tokens (map_option Some (raw_new tokens i j pattern slots))"
  by (auto simp: raw_new_def raw_bounded_def)

lemma kind_at_less: "kind_at tokens i k \<Longrightarrow> i < length tokens"
  by (auto simp: kind_at_def token_at_def is_some_and_def split: if_splits)

lemma is_space_less: "is_space tokens i \<Longrightarrow> i < length tokens"
  by (simp add: is_space_def kind_at_less)

lemma allowlisted_less: "allowlisted_abbrev tokens i ids = Some x \<Longrightarrow> i < length tokens"
  by (auto simp: allowlisted_abbrev_def token_at_def split: if_splits)

lemma filler_scan_less: "filler_scan tokens anchor n pred i = Some k \<Longrightarrow> i \<le> k \<and> k < length tokens"
proof (induction tokens anchor n pred i rule: filler_scan.induct)
  case (1 tokens anchor n pred i)
  show ?case using 1(2) 1(1) by (subst (asm) filler_scan.simps) (fastforce split: if_splits)
qed

lemma scan_filler_less: "scan_filler_forward tokens i n pred = Some k \<Longrightarrow> i < k \<and> k < length tokens"
  using filler_scan_less [of tokens i n pred "i + 1" k] by (simp add: scan_filler_forward_def)

lemma range_start_le: "range_start tokens i \<le> i"
proof -
  have "c < i" if "find P (rev [0..<i]) = Some c" for P c
  proof -
    from that obtain k where k: "k < length (rev [0..<i])" "c = rev [0..<i] ! k" by (auto simp: find_Some_iff)
    from nth_mem [OF k(1)] k(2) have "c \<in> set (rev [0..<i])" by blast
    then show ?thesis by simp
  qed
  then show ?thesis by (auto simp: range_start_def split: option.splits dest: less_imp_le)
qed

text \<open>Where every token has its text, the parts of the matchers do not panic.\<close>

definition texts_ok :: "string \<Rightarrow> npa_token list \<Rightarrow> bool" where
  "texts_ok src tokens = list_all (\<lambda>t. lexeme src t \<noteq> None) tokens"

lemma text_at_total: "texts_ok src tokens \<Longrightarrow> i < length tokens \<Longrightarrow> \<exists>x. text_at src tokens i = Some x"
  by (auto simp: text_at_def token_at_def texts_ok_def list_all_length)

lemma number_at_total: "texts_ok src tokens \<Longrightarrow> \<exists>b. number_at src tokens i = Some b \<and> (b \<longrightarrow> i < length tokens)"
  by (auto simp: number_at_def token_at_def is_number_token_def texts_ok_def list_all_length split: token_kind.split)

lemma punct_with_total: "texts_ok src tokens \<Longrightarrow> \<exists>b. punct_with src tokens i ok = Some b \<and> (b \<longrightarrow> i < length tokens)"
  using text_at_total kind_at_less [of tokens i TPunct] by (cases "kind_at tokens i TPunct") (fastforce simp: punct_with_def)+

lemma chain_links_total:
  assumes "texts_ok src tokens" "k < length tokens"
  shows "\<exists>e ms ns. chain_links src tokens ids k markers nums = Some (e, ms, ns) \<and> k \<le> e \<and> e < length tokens"
  using assms
proof (induction src tokens ids k markers nums rule: chain_links.induct)
  case (1 src tokens ids k markers nums)
  obtain b where b: "number_at src tokens (k + 4) = Some b" "b \<longrightarrow> k + 4 < length tokens"
    using number_at_total [OF "1.prems"(1)] by blast
  show ?case
  proof (cases "is_space tokens (k + 1) \<and> is_space tokens (k + 3) \<and> b \<and> allowlisted_abbrev tokens (k + 2) ids \<noteq> None")
    case True
    then obtain m where m: "allowlisted_abbrev tokens (k + 2) ids = Some m" by blast
    obtain x where x: "text_at src tokens (k + 4) = Some x" using text_at_total [OF "1.prems"(1)] b True by blast
    have "k + 4 < length tokens" using b True by simp
    from "1.IH" [OF _ m _ b(1) _ x "1.prems"(1) this] True obtain e ms ns where
      "chain_links src tokens ids (k + 4) (markers @ [m]) (nums @ [x]) = Some (e, ms, ns)" "k + 4 \<le> e" "e < length tokens" by auto
    then show ?thesis using True m x b(1) by (subst chain_links.simps) simp
  next
    case False
    then have "chain_links src tokens ids k markers nums = Some (k, markers, nums)"
      using b(1) by (subst chain_links.simps) (auto split: option.split)
    with "1.prems" show ?thesis by simp
  qed
qed

lemma matchers_ok:
  assumes "texts_ok src tokens" "i < length tokens"
  shows "list_all (hit_ok tokens) (matchers_at p src tokens i)"
proof -
  note total = text_at_total [OF assms(1)]
  obtain n2 where n2: "number_at src tokens (i + 2) = Some n2" "n2 \<longrightarrow> i + 2 < length tokens"
    using number_at_total [OF assms(1)] by blast
  have n2_text: "\<exists>x. text_at src tokens (i + 2) = Some x" if n2 using n2(2) that total by blast
  obtain xi where xi: "text_at src tokens i = Some xi" using total [OF assms(2)] by blast
  have chain: "hit_ok tokens (match_abbrev_hier_chain p src tokens i)"
  proof (cases "allowlisted_abbrev tokens i (lp_chain_abbrev_ids p) = None \<or> \<not> is_space tokens (i + 1) \<or> \<not> n2")
    case True
    with n2(1) show ?thesis by (auto simp: match_abbrev_hier_chain_def split: option.split)
  next
    case False
    then obtain m0 where m0: "allowlisted_abbrev tokens i (lp_chain_abbrev_ids p) = Some m0"
      by (cases "allowlisted_abbrev tokens i (lp_chain_abbrev_ids p)") auto
    obtain x where x: "text_at src tokens (i + 2) = Some x" using n2_text False by blast
    note m = m0 x
    obtain e ms ns where "chain_links src tokens (lp_chain_abbrev_ids p) (i + 2) [m0] [x] = Some (e, ms, ns)" "i + 2 \<le> e" "e < length tokens"
      using chain_links_total [OF assms(1)] n2(2) False by blast
    with m n2(1) False raw_new_ok [of i e tokens] show ?thesis by (simp add: match_abbrev_hier_chain_def)
  qed
  have amendment: "hit_ok tokens (match_abbrev_amendment_window p src tokens i)"
  proof (cases "allowlisted_abbrev tokens i (lp_amendment_abbrev_ids p) = None \<or>
      scan_filler_forward tokens i 16 (\<lambda>t. nt_kind t = TDate) = None")
    case True
    then show ?thesis by (auto simp: match_abbrev_amendment_window_def)
  next
    case False
    then obtain d where d: "scan_filler_forward tokens i 16 (\<lambda>t. nt_kind t = TDate) = Some d" by auto
    then obtain x where x: "text_at src tokens d = Some x" "i < d" using total scan_filler_less [OF d] by blast
    show ?thesis
    proof (cases "scan_filler_forward tokens d 4 (\<lambda>t. nt_kind t = TDocNo)")
      case None
      with False d show ?thesis by (simp add: match_abbrev_amendment_window_def)
    next
      case (Some n)
      from scan_filler_less [OF Some] total [of n] obtain y where "text_at src tokens n = Some y" "d < n" "n < length tokens" by blast
      with False d x Some raw_new_ok [of i n tokens] show ?thesis by (auto simp: match_abbrev_amendment_window_def)
    qed
  qed
  have date: "hit_ok tokens (match_date_docno_window src tokens i)"
  proof (cases "scan_filler_forward tokens i 4 (\<lambda>t. nt_kind t = TDocNo \<or> nt_kind t = TLawCode)")
    case None
    then show ?thesis by (simp add: match_date_docno_window_def)
  next
    case (Some h)
    with scan_filler_less [OF Some] total [of h] xi raw_new_ok [of i h tokens] show ?thesis
      by (auto simp: match_date_docno_window_def Let_def)
  qed
  have fullword: "hit_ok tokens (match_fullword_ref p src tokens i)"
  proof -
    obtain b where b: "(if kind_at tokens (i + 2) TDocNo then Some True else number_at src tokens (i + 2)) = Some b"
      "b \<longrightarrow> i + 2 < length tokens" using n2 kind_at_less by (cases "kind_at tokens (i + 2) TDocNo") auto
    show ?thesis
    proof (cases b)
      case False
      with b(1) xi show ?thesis by (simp add: match_fullword_ref_def)
    next
      case True
      with b total [of "i + 2"] xi raw_new_ok [of i "i + 2" tokens] show ?thesis by (auto simp: match_fullword_ref_def)
    qed
  qed
  have quoted: "hit_ok tokens (match_quoted_enum p src tokens i)"
  proof (cases "i < 3")
    case False
    obtain o1 where o1: "punct_with src tokens (i - 1) (\<lambda>x. x = [CHR 0x22]) = Some o1" using punct_with_total [OF assms(1)] by blast
    obtain c where c: "punct_with src tokens (i + 1) (starts_with [CHR 0x22]) = Some c" "c \<longrightarrow> i + 1 < length tokens"
      using punct_with_total [OF assms(1)] by blast
    have head: "token_at tokens (i - 3) = Some (tokens ! (i - 3))" using assms(2) by (simp add: token_at_def)
    obtain y where y: "lexeme src (tokens ! (i - 3)) = Some y"
      using assms(1) less_le_trans [OF assms(2) order_refl] by (auto simp: texts_ok_def list_all_length dest: spec [of _ "i - 3"])
    obtain h where "quoted_head p src (tokens ! (i - 3)) = Some h"
      using y by (cases "nt_kind (tokens ! (i - 3))") (auto simp: quoted_head_def)
    with False o1 c head xi raw_new_ok [of "i - 3" "i + 1" tokens] show ?thesis by (auto simp: match_quoted_enum_def)
  qed (simp add: match_quoted_enum_def)
  have range: "hit_ok tokens (match_range_candidate src tokens i)"
  proof -
    obtain d where d: "punct_with src tokens (i + 2) is_dash = Some d" using punct_with_total [OF assms(1)] by blast
    show ?thesis
    proof (cases "kind_at tokens (i + 4) THierNum")
      case False
      with d show ?thesis by (simp add: match_range_candidate_def)
    next
      case True
      then have "i + 4 < length tokens" by (rule kind_at_less)
      with total [of "i + 4"] total [of "i + 2"] d xi raw_new_ok [of _ "i + 4" tokens] range_start_le [of tokens i] show ?thesis
        by (auto simp: match_range_candidate_def intro!: raw_new_ok)
    qed
  qed
  have anaphora: "hit_ok tokens (match_anaphora_candidate p src tokens i)"
  proof -
    obtain b where b: "(if is_space tokens (i + 1) \<and> kind_at tokens (i + 2) TWord
        then map_option (\<lambda>x. x = ru ''Ze'') (text_at src tokens (i + 2)) else Some False) = Some b"
      using total [of "i + 2"] kind_at_less [of tokens "i + 2" TWord] by (cases "is_space tokens (i + 1) \<and> kind_at tokens (i + 2) TWord") auto
    define e where "e = (if b then i + 2 else i)"
    show ?thesis
    proof (cases "kind_at tokens (e + 2) TWord")
      case False
      with b xi show ?thesis by (simp add: match_anaphora_candidate_def Let_def e_def [symmetric])
    next
      case True
      then have "hit_ok tokens (map_option Some (raw_new tokens i (e + 2) pt sl))" for pt sl
        by (intro raw_new_ok kind_at_less) (simp_all add: e_def)
      with b xi show ?thesis by (simp add: match_anaphora_candidate_def Let_def e_def [symmetric])
    qed
  qed
  show ?thesis using chain amendment date fullword quoted range anaphora by (simp add: matchers_at_def)
qed

lemma collect_hits_ok: "list_all (hit_ok tokens) xs \<Longrightarrow> \<exists>raw. collect_hits xs = Some raw \<and> list_all (raw_bounded tokens) raw"
  by (induction xs rule: collect_hits.induct) (auto simp: hit_ok_def)

lemma fire_all_ok: "texts_ok src tokens \<Longrightarrow> \<exists>raw. fire_all p src tokens = Some raw \<and> list_all (raw_bounded tokens) raw"
  unfolding fire_all_def using matchers_ok [of src tokens] by (intro collect_hits_ok) (simp add: list_all_iff)

lemma chain_ordered: "token_chain a ts b \<Longrightarrow> i \<le> j \<Longrightarrow> j < length ts \<Longrightarrow> a \<le> nt_start (ts ! i) \<and> nt_start (ts ! i) < nt_end (ts ! j)"
proof (induction ts arbitrary: a i j)
  case (Cons t ts)
  then have t: "nt_start t = a" "a < nt_end t" "token_chain (nt_end t) ts b" by auto
  show ?case
  proof (cases j)
    case 0
    with Cons.prems t show ?thesis by simp
  next
    case (Suc j')
    show ?thesis
    proof (cases i)
      case 0
      with Cons.IH [OF t(3), of j' j'] Suc Cons.prems t show ?thesis by simp
    next
      case (Suc i')
      with Cons.IH [OF t(3), of i' j'] \<open>j = Suc j'\<close> Cons.prems t show ?thesis by simp
    qed
  qed
qed simp

lemma sort_captures_set [simp]: "set (sort_captures raw) = set raw"
  by (simp add: sort_captures_def)

lemma overlap_subset: "set (apply_overlap_precedence p raw) \<subseteq> set raw"
  by (auto simp: apply_overlap_precedence_def Let_def)

section \<open>The captures of a text\<close>

lemma chain_texts:
  assumes "token_chain a ts b" "list_all (token_ok u es src) ts" "b \<le> length src"
  shows "texts_ok src ts"
proof -
  from chain_lexemes [OF assms] obtain ls where ls: "map (lexeme src) ts = map Some ls" by blast
  have "lexeme src t \<in> Some ` set ls" if "t \<in> set ts" for t
    using arg_cong [OF ls, of set] that by auto
  then show ?thesis by (auto simp: texts_ok_def list_all_iff)
qed

lemma raw_bounded_width: "token_chain a tokens b \<Longrightarrow> raw_bounded tokens c \<Longrightarrow> rw_start c < rw_end c"
  using chain_ordered [of a tokens b] by (auto simp: raw_bounded_def)

lemma as_raw_set: "accounted raw batch \<Longrightarrow> r \<in> set (cb_admitted batch) \<Longrightarrow> as_raw r \<in> set raw"
  unfolding accounted_def using list_emb_set [of "(=)" "map as_raw (cb_admitted batch)" raw "as_raw r"] by auto

text \<open>C9. 
  On well-formed text, with the lexicon of the assertions, the capture answers, whatever the table of precedence holds. A
  table that is refused gives no captures. Otherwise the batch accounts for every candidate that the overlap rules leave: it is
  admitted, merged into an admitted one with its span and slots, or counted as refused after the limit; the admitted ones keep
  the order of start, end and pattern, are at most 1024, and no two have the same span and slots. Each spans whole tokens, and
  its key is the list of the kinds of these tokens.
\<close>

theorem captures_accounted:
  assumes "utf8_ok src" "abbrev_lexicon yaml = Some lexicon" "list_all (\<lambda>e. utf8_ok (snd e)) lexicon"
  shows "\<exists>tokens batch. lex u yaml src = Some tokens \<and> capture_lawrefs u yaml src = Some batch \<and>
    list_all (\<lambda>r. raw_bounded tokens (as_raw r)) (cb_admitted batch) \<and>
    (case precedence_parse_yaml yaml of
       Inl _ \<Rightarrow> batch = batch_empty
     | Inr p \<Rightarrow> \<exists>raw. fire_all p src tokens = Some raw \<and> accounted (sort_captures (apply_overlap_precedence p raw)) batch)"
proof -
  obtain tokens where tokens: "lex u yaml src = Some tokens" "token_chain 0 tokens (length src)" "texts_ok src tokens"
    using lex_result [OF assms] chain_texts by blast
  show ?thesis
  proof (cases "precedence_parse_yaml yaml")
    case (Inl e)
    with tokens show ?thesis by (simp add: capture_lawrefs_def batch_empty_def)
  next
    case (Inr p)
    obtain raw where raw: "fire_all p src tokens = Some raw" "list_all (raw_bounded tokens) raw"
      using fire_all_ok [OF tokens(3)] by blast
    let ?sorted = "sort_captures (apply_overlap_precedence p raw)"
    let ?batch = "foldl batch_step batch_empty ?sorted"
    have bounded: "raw_bounded tokens c" if "c \<in> set ?sorted" for c
      using that overlap_subset [of p raw] raw(2) by (auto simp: list_all_iff)
    then have acc: "accounted ?sorted ?batch"
      by (intro batch_accounted) (auto simp: list_all_iff intro: raw_bounded_width [OF tokens(2)])
    have "capture_lawrefs u yaml src = Some ?batch"
    proof (cases "tokens = []")
      case True
      with raw(1) have "raw = []" by (simp add: fire_all_def)
      with True tokens(1) show ?thesis by (simp add: capture_lawrefs_def apply_overlap_precedence_def sort_captures_def)
    qed (simp add: capture_lawrefs_def tokens(1) Inr raw(1))
    moreover have "list_all (\<lambda>r. raw_bounded tokens (as_raw r)) (cb_admitted ?batch)"
      using as_raw_set [OF acc] bounded by (auto simp: list_all_iff)
    ultimately show ?thesis using tokens(1) acc raw(1) Inr by auto
  qed
qed

section \<open>The table\<close>

lemma try_then_Inr [simp]: "try_then r f = Inr y \<longleftrightarrow> (\<exists>x. r = Inr x \<and> f x = Inr y)"
  by (cases r) (simp_all add: try_then_def)

lemma entries_unique_sound:
  "entries_unique key ok err seen xs = Inr r \<Longrightarrow> distinct xs \<and> set seen \<inter> set xs = {} \<and> list_all ok xs"
  by (induction xs arbitrary: seen) (fastforce split: if_splits)+

lemma abbrev_allowlist_sound:
  "validate_abbrev_allowlist ids lexicon key = Inr r \<Longrightarrow> ids \<noteq> [] \<and> distinct ids \<and> set ids \<subseteq> set lexicon"
  using entries_unique_sound [of key "\<lambda>i. i \<in> set lexicon" "UnknownEntry key" "[]" ids r]
  by (auto simp: validate_abbrev_allowlist_def list_all_iff split: if_splits)

lemma word_allowlist_sound: "validate_word_allowlist ws key = Inr r \<Longrightarrow> ws \<noteq> [] \<and> distinct ws \<and> [] \<notin> set ws"
  using entries_unique_sound [of key "\<lambda>w. w \<noteq> []" "\<lambda>w. EmptyEntry key" "[]" ws r]
  by (auto simp: validate_word_allowlist_def list_all_iff split: if_splits)

lemma pattern_ids_sound:
  assumes "validate_pattern_ids ids = Inr r"
  shows "mset ids = mset PATTERN_ID_CANON"
proof -
  have e: "entries_unique ''pattern_ids'' (\<lambda>i. i \<in> set PATTERN_ID_CANON) (UnknownEntry ''pattern_ids'') [] ids = Inr ()"
    "find (\<lambda>i. i \<notin> set ids) PATTERN_ID_CANON = None"
    using assms by (auto simp: validate_pattern_ids_def split: if_splits sum.splits option.splits)
  from e(2) have "set PATTERN_ID_CANON \<subseteq> set ids" by (auto simp: find_None_iff)
  with entries_unique_sound [OF e(1)] have "distinct ids" "set ids = set PATTERN_ID_CANON" by (auto simp: list_all_iff)
  moreover have "distinct PATTERN_ID_CANON" by code_simp
  ultimately show ?thesis by (simp add: set_eq_iff_mset_eq_distinct [symmetric])
qed

text \<open>C32. 
  A table that parses has each of the seven patterns once, exactly the frozen orders of the digit and letter starts and of
  the sort key, both overlap policies on, and allowlists that are not empty, have no entry twice, and name only abbreviations
  of the lexicon of the same text, or words that are not empty.
\<close>

theorem table_sound:
  assumes "precedence_parse_yaml yaml = Inr p"
  shows "mset (lp_pattern_ids p) = mset PATTERN_ID_CANON \<and> lp_digit_start_order p = DIGIT_START_ORDER_FROZEN \<and>
    lp_letter_start_order p = LETTER_START_ORDER_FROZEN \<and> lp_sort_key p = SORT_KEY_FROZEN \<and> drops_on p \<and>
    (\<exists>lexicon. lexicon_ids yaml = Inr lexicon \<and>
      list_all (\<lambda>ids. ids \<noteq> [] \<and> distinct ids \<and> set ids \<subseteq> set lexicon)
        [lp_chain_abbrev_ids p, lp_amendment_abbrev_ids p, lp_quoted_marker_abbrev_ids p]) \<and>
    list_all (\<lambda>ws. ws \<noteq> [] \<and> distinct ws \<and> [] \<notin> set ws) [lp_fullword_tails p, lp_anaphora_heads p]"
proof -
  have policy: "v = ''drop''" if "validate_overlap_policy v k = Inr r" for v k r
    using that by (auto simp: validate_overlap_policy_def OVERLAP_POLICIES_def split: if_splits)
  have frozen: "order = fz" if "validate_frozen_order order fz k = Inr r" for order fz k r
    using that by (auto simp: validate_frozen_order_def split: option.splits if_splits)
  have key: "ks = SORT_KEY_FROZEN" if "validate_sort_key ks = Inr r" for ks r
    using that by (auto simp: validate_sort_key_def split: if_splits)
  note sound = pattern_ids_sound policy frozen key abbrev_allowlist_sound word_allowlist_sound
  from assms show ?thesis
    unfolding precedence_parse_yaml_def
    apply (clarsimp split: if_splits simp: case_prod_beta drops_on_def)
    apply (intro conjI)
              apply (auto dest: sound)
    done
qed


section \<open>A table and a text\<close>

text \<open>A row that reads back as its key and its value, and the walk over such rows.\<close>

definition row_line :: "string \<times> string \<Rightarrow> string" where
  "row_line r = ''  '' @ fst r @ '': '' @ snd r"

definition line_reads :: "string \<times> string \<Rightarrow> string \<Rightarrow> string \<Rightarrow> bool" where
  "line_reads r raw line = (line \<noteq> [] \<and> length (trim_start raw) < length raw \<and> fst r \<noteq> [] \<and>
     map_option (\<lambda>(k, v). (str_trim k, str_trim v)) (split_once (CHR '':'') line) = Some r)"

definition row_reads :: "string \<times> string \<Rightarrow> bool" where
  "row_reads r = line_reads r (row_line r) (str_trim (comment_stripped (row_line r)))"

lemma rows_read:
  "list_all row_reads rows \<Longrightarrow> distinct (map fst (entries @ rows)) \<Longrightarrow>
   entry_lines heading (Some 0) entries (map row_line rows @ rest) = entry_lines heading (Some 0) (entries @ rows) rest"
proof (induction rows arbitrary: entries)
  case (Cons r rows)
  then obtain k v where kv: "split_once (CHR '':'') (str_trim (comment_stripped (row_line r))) = Some (k, v)"
    "r = (str_trim k, str_trim v)" by (auto simp: row_reads_def line_reads_def)
  with Cons.prems have "str_trim (comment_stripped (row_line r)) \<noteq> []" "str_trim k \<noteq> []"
    "length (trim_start (row_line r)) < length (row_line r)" "str_trim k \<notin> set (map fst entries)"
    by (auto simp: row_reads_def line_reads_def)
  with kv Cons.IH [of "entries @ [r]"] Cons.prems show ?case by (simp add: Let_def)
qed simp

definition sample_rows :: "(string \<times> string) list" where
  "sample_rows =
    [(''pattern_ids'', ''[abbrev-hier-chain, abbrev-amendment-window, date-docno-window, fullword-ref, quoted-enum, range_candidate, anaphora_candidate]''),
     (''digit_start_order'', ''[Date, HierNum, DocNo, EnumMarker]''),
     (''letter_start_order'', ''[Abbrev, EnumMarker, LawCode, Word]''),
     (''overlap_date_docno_inside_amendment'', ''drop''),
     (''overlap_same_pattern_containment'', ''drop''),
     (''sort_key'', ''[start, end, pattern_id]''),
     (''chain_abbrev_ids'', ''[p]''),
     (''amendment_abbrev_ids'', ''[red]''),
     (''quoted_marker_abbrev_ids'', ''[p]''),
     (''fullword_tails'', ''[law]''),
     (''anaphora_heads'', ''[same]'')]"

definition sample_lines :: "string list" where
  "sample_lines = ''npa_lawref_precedence:'' # map row_line sample_rows @ [''npa_abbrev_lexicon:'', ''  p: p.'', ''  red: red.'']"

definition sample_table_yaml :: string where
  "sample_table_yaml = concat (map (\<lambda>l. l @ [CHR 0x0A]) sample_lines)"

definition sample_table :: lawref_precedence where
  "sample_table = \<lparr>lp_pattern_ids = PATTERN_ID_CANON, lp_digit_start_order = DIGIT_START_ORDER_FROZEN,
     lp_letter_start_order = LETTER_START_ORDER_FROZEN, lp_overlap_date_docno_inside_amendment = ''drop'',
     lp_overlap_same_pattern_containment = ''drop'', lp_sort_key = SORT_KEY_FROZEN, lp_chain_abbrev_ids = [''p''],
     lp_amendment_abbrev_ids = [''red''], lp_quoted_marker_abbrev_ids = [''p''], lp_fullword_tails = [''law''],
     lp_anaphora_heads = [''same'']\<rparr>"

lemma sample_split: "str_lines sample_table_yaml = sample_lines"
  by code_simp

lemma sample_reads: "list_all row_reads sample_rows"
  by code_simp

lemma sample_distinct: "distinct (map fst ([] @ sample_rows))"
  by code_simp

lemma sample_entries: "heading_entries sample_table_yaml ''npa_lawref_precedence:'' = Inr sample_rows"
proof -
  have "entry_lines h None [] (h # ls) = entry_lines h (Some 0) [] ls"
    if "str_trim (comment_stripped h) = h" "h \<noteq> []" "trim_start h = h" for h ls
    using that by (simp add: Let_def)
  moreover have "str_trim (comment_stripped ''npa_lawref_precedence:'') = ''npa_lawref_precedence:''"
    "trim_start ''npa_lawref_precedence:'' = ''npa_lawref_precedence:''" by code_simp+
  moreover have "str_trim (comment_stripped ''npa_abbrev_lexicon:'') = ''npa_abbrev_lexicon:''"
    "trim_start ''npa_abbrev_lexicon:'' = ''npa_abbrev_lexicon:''" by code_simp+
  ultimately show ?thesis
    unfolding heading_entries_def sample_split sample_lines_def by (simp add: rows_read [OF sample_reads sample_distinct, simplified] Let_def)
qed

lemma sample_lexicon_ids: "lexicon_ids sample_table_yaml = Inr [''p'', ''red'']"
  unfolding lexicon_ids_def heading_entries_def sample_split by code_simp

lemma split_on_fold [code]:
  "split_on c s = foldr (\<lambda>d parts. if d = c then [] # parts else (case parts of [] \<Rightarrow> [[d]] | p # ps \<Rightarrow> (d # p) # ps)) s [[]]"
  by (induction s) simp_all

text \<open>The items by recursion, so that evaluation meets no open term, and their check.\<close>

fun read_items :: "string list \<Rightarrow> string list" where
  "read_items [] = []"
| "read_items (part # parts) = unquote (str_trim part) # read_items parts"

lemma read_items_map: "read_items parts = map (\<lambda>part. unquote (str_trim part)) parts"
  by (induction parts) simp_all

definition checked_items :: "string \<Rightarrow> string list \<Rightarrow> table_error + string list" where
  "checked_items key items = (if [] \<in> set items then Inl (EmptyListItem key) else Inr items)"

lemma inline_items_plain:
  "starts_with ''['' raw \<Longrightarrow> 2 \<le> length raw \<Longrightarrow> last raw = CHR '']'' \<Longrightarrow> str_trim (butlast (tl raw)) \<noteq> [] \<Longrightarrow>
   inline_items key raw = checked_items key (read_items (split_on (CHR '','') (butlast (tl raw))))"
  by (simp add: read_items_map inline_items_def checked_items_def Let_def)

lemma sample_items:
  "inline_items k ''[abbrev-hier-chain, abbrev-amendment-window, date-docno-window, fullword-ref, quoted-enum, range_candidate, anaphora_candidate]'' = Inr PATTERN_ID_CANON"
  "inline_items k ''[Date, HierNum, DocNo, EnumMarker]'' = Inr DIGIT_START_ORDER_FROZEN"
  "inline_items k ''[Abbrev, EnumMarker, LawCode, Word]'' = Inr LETTER_START_ORDER_FROZEN"
  "inline_items k ''[start, end, pattern_id]'' = Inr SORT_KEY_FROZEN"
  "inline_items k ''[p]'' = Inr [''p'']"
  "inline_items k ''[red]'' = Inr [''red'']"
  "inline_items k ''[law]'' = Inr [''law'']"
  "inline_items k ''[same]'' = Inr [''same'']"
  by (subst inline_items_plain, code_simp, code_simp, code_simp, code_simp, code_simp)+

lemma sample_dispatch: "dispatch_keys sample_rows = Inr ([(''pattern_ids'', PATTERN_ID_CANON),
    (''digit_start_order'', DIGIT_START_ORDER_FROZEN), (''letter_start_order'', LETTER_START_ORDER_FROZEN),
    (''sort_key'', SORT_KEY_FROZEN), (''chain_abbrev_ids'', [''p'']), (''amendment_abbrev_ids'', [''red'']),
    (''quoted_marker_abbrev_ids'', [''p'']), (''fullword_tails'', [''law'']), (''anaphora_heads'', [''same''])],
    [(''overlap_date_docno_inside_amendment'', ''drop''), (''overlap_same_pattern_containment'', ''drop'')])"
proof -
  have "unquote ''drop'' = ''drop''" by code_simp
  then show ?thesis by (simp add: sample_rows_def sample_items LIST_KEYS_def SCALAR_KEYS_def)
qed

lemma sample_table_parses: "precedence_parse_yaml sample_table_yaml = Inr sample_table"
  unfolding precedence_parse_yaml_def sample_entries sample_lexicon_ids
  apply (simp only: try_then_def sum.case sample_dispatch)
  by code_simp

definition sample_amendment :: raw_capture where
  "sample_amendment = \<lparr>rw_start = 0, rw_end = 20, rw_pattern_id = PATTERN_AMENDMENT, rw_token_kind_seq = '''', rw_slots = slots_default\<rparr>"

definition sample_date :: raw_capture where
  "sample_date = \<lparr>rw_start = 5, rw_end = 18, rw_pattern_id = PATTERN_DATE_DOCNO, rw_token_kind_seq = '''', rw_slots = slots_default\<rparr>"

lemma table_sound_witness:
  "mset (lp_pattern_ids sample_table) = mset PATTERN_ID_CANON \<and> drops_on sample_table \<and> lp_sort_key sample_table = SORT_KEY_FROZEN \<and>
   (\<exists>lexicon. lexicon_ids sample_table_yaml = Inr lexicon \<and> set (lp_chain_abbrev_ids sample_table) \<subseteq> set lexicon)"
  using table_sound [OF sample_table_parses] by auto

lemma overlap_drops_only_covered_witness:
  "apply_overlap_precedence sample_table [sample_amendment, sample_date] = [sample_amendment]"
proof -
  have "drops_on sample_table" by (simp add: drops_on_def sample_table_def)
  moreover have "list_all (\<lambda>c. rw_start c < rw_end c) [sample_amendment, sample_date]"
    by (simp add: sample_amendment_def sample_date_def)
  moreover have "\<not> covered_by sample_amendment sample_amendment" "\<not> covered_by sample_amendment sample_date"
    "covered_by sample_date sample_amendment"
    by (simp_all add: covered_by_def strictly_contained_def sample_amendment_def sample_date_def)
  ultimately show ?thesis
    using overlap_drops_only_covered [of sample_table "[sample_amendment, sample_date]"] by simp
qed

lemma captures_accounted_witness:
  "\<exists>tokens batch. capture_lawrefs \<lparr>uni_alphanumeric = (\<lambda>c. c \<in> {''p'', ''1'', ''2''}), uni_lower = id, uni_alphabetic = (\<lambda>c. c = ''p'')\<rparr>
     sample_lexicon_yaml ''p. 1.2'' = Some batch \<and> list_all (\<lambda>r. raw_bounded tokens (as_raw r)) (cb_admitted batch)"
proof -
  have src: "utf8_ok ''p. 1.2''" by code_simp
  have lexicon: "list_all (\<lambda>e. utf8_ok (snd e)) (map (\<lambda>i. (i, i @ ''.''))
    [''stst'', ''podp'', ''razd'', ''pril'', ''prim'', ''abz'', ''red'', ''izm'', ''utv'',
     ''st'', ''ch'', ''pp'', ''gl'', ''sm'', ''sr'', ''p'', ''g''])" by code_simp
  show ?thesis using captures_accounted [OF src sample_lexicon lexicon] by blast
qed

end
