(* ===== verification/Spec2Isabelle.thy ===== *)
theory Spec2Isabelle
  imports LN_Checkout LN_Calendar LN_Fold LN_Promote LN_Replay LN_Publish LN_Work LN_Admission LN_Relation LN_Closure
    LN_Gate LN_Identity LN_Applicability LN_Intake LN_Outward LN_Annotation LN_Decode LN_Lexer LN_Mentions LN_Hierarchy LN_Capture
begin

text \<open>
  A verification library of law-nexus, a Rust workspace (\<open>src/crates\<close>) that turns published Russian legal acts into
  temporal evidence: which provision was in force on which day, by which amending act, on the ground of which source
  text. The workspace is a set of capability crates, one per hard constraint (HC-01 to HC-20), each a small hexagonal
  core: \<open>domain.rs\<close> (values and their constructors), \<open>ports.rs\<close> (the traits it calls), \<open>application.rs\<close> (one service)
  and \<open>adapters.rs\<close> (in-memory and hostile implementations of the ports). They do not call each other; each fixes
  its own vocabulary and is driven by a runner. The crate \<open>ln-temporal\<close> holds the temporal core. This library models
  these cores, each as a group of definitions in the order of the code.

  \<^bold>\<open>Theories and the code they model\<close>

  \<^item> \<open>LN_Prelude\<close>: the rendering of the Rust library (errors, checked additions, hash maps, ordered sets, byte strings,
    decimal numbers) and the generic lemmas that the components share, with the collections that carry their proofs.
  \<^item> \<open>LN_Ids\<close>: \<open>parse_id\<close> of the macro \<open>id_type!\<close>, the same in every crate, and the FNV-1a fingerprint on 64-bit words.
  \<^item> The temporal core, \<open>crates/ln-temporal/src\<close>. \<open>LN_Clocks\<close>: \<open>ResolveGoverningClock\<close> over an evidence port.
    \<open>LN_ThreeCanon\<close>: \<open>ThreeCanonEventLog\<close>, its append rules and \<open>fold_three_canon_at\<close>. \<open>LN_Force\<close>:
    \<open>ForceStatusTimeline\<close> and \<open>resolve_force_status_at\<close>. \<open>LN_Provenance\<close>: \<open>provenance.rs\<close>. \<open>LN_Checkout\<close>:
    \<open>per_provision_checkout\<close> and \<open>edition_delta\<close>, which read the three-canon log and the admissions. \<open>LN_Membership\<close>:
    \<open>StructuralMembershipGraph\<close> and \<open>apply_industrial_op\<close>. \<open>LN_Fold\<close>: \<open>MembershipEventLog\<close> and
    \<open>fold_membership_at\<close>. \<open>LN_Calendar\<close>: \<open>calendar.rs\<close>, the civil days as integers.
  \<^item> The semantic part of the same crate, which reads the text of an act. \<open>LN_Text\<close>: the characters of a string and their
    offsets, slices, search. \<open>LN_Context\<close>: \<open>document_context.rs\<close>, the structure index, the overlay of frames, context
    requests and their worklist, reference constructions, edition relations. \<open>LN_Binding\<close>: \<open>identity_binding.rs\<close>, from
    the field claims of a block to an official identity proposal. \<open>LN_Scope\<close>: \<open>semantic_scope.rs\<close>, tokens, cues, the
    extraction of claims and the projection of a rule. \<open>LN_Annotation\<close>: \<open>semantic_annotation.rs\<close>, the records of two
    coders and their agreement. They call each other upwards in this order.
  \<^item> The front of the decoder, \<open>crates/ln-decode/src\<close>. \<open>LN_Decode\<close>: the boundary (\<open>domain.rs\<close>, \<open>application.rs\<close>,
    \<open>adapters.rs\<close>), the decode policy over any decoder and the WordML decoders over the events of the XML reader.
    \<open>LN_Lexer\<close>: \<open>lexer.rs\<close>, the covering lexer and its lexicon, and \<open>tokenizer.rs\<close>, the words. \<open>LN_Mentions\<close>:
    \<open>sentence.rs\<close>, \<open>references.rs\<close>, \<open>temporal.rs\<close>, \<open>morphology.rs\<close> and \<open>deontic.rs\<close>, which read words and numbers.
    \<open>LN_Hierarchy\<close>: \<open>prefix_catalog.rs\<close> and \<open>hierarchy.rs\<close>, the markers of blocks and their ladder. \<open>LN_Capture\<close>:
    \<open>capture_bounds.rs\<close>, \<open>npa_continuation.rs\<close> and \<open>lawref.rs\<close>, the law references over the tokens of the lexer. The
    lexer feeds the mentions and the capture; the blocks of the decoder feed the mentions and the hierarchy.
  \<^item> Services with a history. \<open>LN_Promote\<close> (\<open>ln-promote\<close>), \<open>LN_Replay\<close> (\<open>ln-replay\<close>), \<open>LN_Publish\<close>
    (\<open>ln-publish\<close>), \<open>LN_Work\<close> (\<open>ln-work\<close>), \<open>LN_Gate\<close> (\<open>ln-gate\<close>), \<open>LN_Relation\<close> (\<open>ln-relation\<close>),
    \<open>LN_Identity\<close> (\<open>ln-identity\<close>), \<open>LN_Intake\<close> (\<open>ln-observe\<close>, \<open>ln-inventory\<close>, \<open>ln-dispose\<close>).
  \<^item> Policies without a history. \<open>LN_Admission\<close> (\<open>ln-admission\<close>), \<open>LN_Closure\<close> (\<open>ln-closure\<close>),
    \<open>LN_Applicability\<close> (\<open>ln-applicability\<close>), \<open>LN_Outward\<close> (\<open>ln-projection\<close>, \<open>ln-accelerate\<close>, \<open>ln-query\<close>,
    \<open>ln-citation\<close>, \<open>ln-diagnostic\<close>, \<open>ln-conformance\<close>).

  \<^bold>\<open>Conventions of the translation\<close>

  \<^item> A struct is a \<open>record\<close>, an enum a \<open>datatype\<close> with the constructors of the source. A \<open>Result\<close> is a sum whose left
    side is the error. A panic (\<open>expect\<close> on an error, an overflowing addition) is \<open>None\<close> of the whole call, so that
    a theorem that a call returns says that it does not panic.
  \<^item> A string is the list of its UTF-8 bytes, with the lengths of the code, which count bytes. A validated identifier is
    its text; the constructor that checks it is a definition (\<open>parse_id\<close> and its kin), and the invariants of the
    services say that their states hold valid identifiers only.
  \<^item> \<open>u64\<close> counters are natural numbers with the overflow of the addition written out as \<open>None\<close>; the calendar's \<open>i64\<close>
    and \<open>i32\<close> narrowing is written out on integers; the fingerprint is a \<open>64 word\<close>.
  \<^item> A \<open>HashMap\<close> is an association list with one entry per key, a \<open>BTreeSet\<close> a sorted list without repetitions.
  \<^item> A method with \<open>&mut self\<close> takes the state and returns it updated, on the error branches too. A service over a
    port is a definition over a record of the port's operations with a state of its own type; so a theorem about the
    service holds for every implementation of the port. Where a result does need the port to keep a contract, the
    contract is a locale, interpreted on the adapters of the crate.
  \<^item> A character is the list of its bytes; offsets are byte offsets, and a slice that is not cut on character boundaries
    is \<open>None\<close>, the panic of the code. Russian surfaces are written as lists of code points (\<open>utf8\<close>).
  \<^item> What is not under \<open>src\<close> is an argument: the outcome of writing and syncing a line on disk (\<open>disk_outcome\<close>), Unicode
    lower-casing in the diagnostic policy and the identity binding, the Unicode tables behind \<open>is_alphanumeric\<close> and
    \<open>to_lowercase\<close> of a character (records \<open>unicode\<close> and \<open>lex_unicode\<close>), the text of the embedded ontology file (in the
    calendar, the lexicon, the catalog of prefixes and the table of precedence), the events and byte positions of the XML
    reader, and the \<open>Debug\<close> rendering that the decode policy searches for leaks.

  \<^bold>\<open>What the lemmas show\<close>

  \<^item> Temporal core: the reachable logs satisfy their invariants; the point projection and the membership fold compute
    an abstract day-by-day specification, fail exactly when it says and do not depend on the order of appending; the
    checkout agrees with the independent force resolver; a delta succeeds exactly when every line is grounded and then
    lists exactly the changed components; a clock is never substituted; the calendar conversions are inverse, agree
    with the dates of \<open>ln-identity\<close>, and wrap outside the range of \<open>i32\<close> years.
  \<^item> Reading: a construction resolves exactly to what its evidence authorises; the worklist computes each request once
    within its budget; edition relations, tokens and cues are exactly those that occur; an official identity is
    grounded in authorised claims and complete ones are never refused; an extraction claims only text of its block and
    loses no cue; a projection conserves its claims; agreement counts anchors and a rendered string reads back.
  \<^item> Decoding: the policy lets through structural candidates with an anchor and reports all others; blocks come only from
    a stream that was read to its end; the tokens cover the text and their lexemes are the text again; sentences cut it
    without loss and words are its letter runs; references are backed by the words and digits of the text; every marker
    of a document is a candidate or a diagnostic, and the ladder is the list of enclosing markers; every law reference
    candidate is admitted, merged or counted as refused, and overlap drops only what a kept candidate covers.
  \<^item> Services: promotion refines an abstract ledger; a scope is published once; an effect is applied once and survives
    a restart; a work state is the history of its accepted events and can always still be committed; a gate record is never changed in place; inventory
    is append-only; identities are never merged; relation facts are exactly the accepted ones.
  \<^item> Policies: closure status and sets are those of reachability in the evidence graph; the predicate algebra and
    its abstentions mean their rule; admission, observation, query, citation and conformance fail closed.
  \<^item> Limits of the code, each proved on the model: the errors that are not atomic, names that grow past their bound
    and make a call panic, records that a second call replaces, a retry that spoils the ledger file.

  \<^bold>\<open>Bounds and termination\<close>

  One definition takes fuel: \<open>build_node\<close> of \<open>LN_Fold\<close>, which reads the tree off the final edges, is given one more than
  the number of the edges, and that is shown to be always enough (\<open>build_node_shows\<close>, used by the property of the fold).
  No other definition uses fuel. The loop of the closure visits at most as many nodes as its fan-out bound of eight and ends
  by that measure; the membership fold and its tree recurse on the list of events and on the finite parent map; the
  lexer and the scanners end because each step moves on in the text, and the links of a chain because each moves on in the
  tokens; every other recursion is on a list. The bounds of the code (identifier lengths, counters of 64 bits, retry
  threshold, fan-out, the ceiling of 1024 captures) are constants of the model with their values.

  \<^bold>\<open>Not modelled\<close>

  The passes of \<open>ln-decode\<close> behind the capture (local grammar, resolution, linking, analysis), its source packages and
  the cleaned-wire format, and \<open>ln-consultant-parser\<close>, a parser of text exports over third-party regular expressions:
  wire formats and reports on fixed corpora for the greater part; the retrieval modules of \<open>ln-query\<close>, which compute
  with floating point; the command line programs and runners; the graph database client; the loader of the ontology,
  which is third-party deserialisation; test fixtures and status reports. Serialisation by \<open>serde\<close> and the text of
  errors for people are left out throughout. Digests are modelled where the code computes them itself.
\<close>

end
